(* ===== verification/Go_Prelude.thy ===== *)
theory Go_Prelude
  imports Main "HOL-Library.Multiset"
begin

text \<open>
  Shared vocabulary of the development: the way a Go function that may panic is
  written (a sum with the panic on the left), slices with Go's bounds checks, and
  the generic facts on lists, sorting and majorities that the components use.

  Go's \<^verbatim>\<open>int\<close> is modelled by \<^typ>\<open>int\<close>: terms, log indices and sequence numbers
  only grow by one per step, so no run reaches 64-bit wrap-around. Where the width
  is visible in a result (hashing, bit sets) the components use words.
\<close>

section \<open>Panics as values\<close>

datatype go_error =
    IndexOutOfRange   \<comment> \<open>a slice or array access outside its bounds\<close>
  | AssertFailed      \<comment> \<open>the program's own \<^verbatim>\<open>Assert\<close>\<close>
  | DecodeFailed      \<comment> \<open>a labgob decode error turned into a panic\<close>
  | Panicked          \<comment> \<open>a call of \<^verbatim>\<open>panic\<close> in the program\<close>
  | FatalError        \<comment> \<open>\<^verbatim>\<open>log.Fatalf\<close>\<close>
  | DivideByZero      \<comment> \<open>an integer division or remainder by zero\<close>
  | NilPointer        \<comment> \<open>access through a nil pointer\<close>
  | TypeAssertion     \<comment> \<open>a value of another dynamic type than \<^verbatim>\<open>x.(T)\<close> asks for\<close>
  | NoProgress        \<comment> \<open>a loop of the program that never ends\<close>

type_synonym 'a res = "go_error + 'a"

definition ebind :: "'a res \<Rightarrow> ('a \<Rightarrow> 'b res) \<Rightarrow> 'b res" where
  "ebind m f = (case m of Inl e \<Rightarrow> Inl e | Inr x \<Rightarrow> f x)"

definition assert_go :: "bool \<Rightarrow> unit res" where
  "assert_go b = (if b then Inr () else Inl AssertFailed)"

lemma ebind_Inl [simp]: "ebind (Inl e) f = Inl e"
  by (simp add: ebind_def)

lemma ebind_Inr [simp]: "ebind (Inr x) f = f x"
  by (simp add: ebind_def)

lemma ebind_eq_Inr: "ebind m f = Inr y \<longleftrightarrow> (\<exists>x. m = Inr x \<and> f x = Inr y)"
  by (cases m) simp_all

lemma ebind_eq_InrE:
  assumes "ebind m f = Inr y"
  obtains x where "m = Inr x" and "f x = Inr y"
  using assms by (auto simp: ebind_eq_Inr)

lemma ebind_split:
  "P (ebind m f) \<longleftrightarrow> (\<forall>e. m = Inl e \<longrightarrow> P (Inl e)) \<and> (\<forall>x. m = Inr x \<longrightarrow> P (f x))"
  by (cases m) simp_all

lemma assert_go_True [simp]: "assert_go True = Inr ()"
  by (simp add: assert_go_def)

lemma assert_go_eq_Inr [simp]: "assert_go b = Inr u \<longleftrightarrow> b"
  by (simp add: assert_go_def)

section \<open>Slices\<close>

text \<open>
  \<^verbatim>\<open>xs[i]\<close>, \<^verbatim>\<open>xs[i] = v\<close>, \<^verbatim>\<open>xs[i:]\<close> and \<^verbatim>\<open>xs[:i]\<close>. Go allows \<^verbatim>\<open>xs[:i]\<close> up to the
  capacity; every use in this program has \<^verbatim>\<open>i\<close> at most the length, which is the range
  the model accepts.
\<close>

definition nth_go :: "'a list \<Rightarrow> int \<Rightarrow> 'a res" where
  "nth_go xs i = (if 0 \<le> i \<and> i < int (length xs) then Inr (xs ! nat i) else Inl IndexOutOfRange)"

definition upd_go :: "'a list \<Rightarrow> int \<Rightarrow> 'a \<Rightarrow> 'a list res" where
  "upd_go xs i v =
     (if 0 \<le> i \<and> i < int (length xs) then Inr (xs[nat i := v]) else Inl IndexOutOfRange)"

definition slice_from :: "'a list \<Rightarrow> int \<Rightarrow> 'a list res" where
  "slice_from xs i =
     (if 0 \<le> i \<and> i \<le> int (length xs) then Inr (drop (nat i) xs) else Inl IndexOutOfRange)"

definition slice_to :: "'a list \<Rightarrow> int \<Rightarrow> 'a list res" where
  "slice_to xs i =
     (if 0 \<le> i \<and> i \<le> int (length xs) then Inr (take (nat i) xs) else Inl IndexOutOfRange)"

named_theorems go_slice \<open>unfolding of the slice operations\<close>
declare nth_go_def [go_slice] upd_go_def [go_slice] slice_from_def [go_slice] slice_to_def [go_slice]

lemma nth_go_Inr: "0 \<le> i \<Longrightarrow> i < int (length xs) \<Longrightarrow> nth_go xs i = Inr (xs ! nat i)"
  by (simp add: nth_go_def)

lemma nth_go_eq_Inr:
  "nth_go xs i = Inr x \<longleftrightarrow> 0 \<le> i \<and> i < int (length xs) \<and> x = xs ! nat i"
  by (auto simp: nth_go_def)

lemma upd_go_Inr: "0 \<le> i \<Longrightarrow> i < int (length xs) \<Longrightarrow> upd_go xs i v = Inr (xs[nat i := v])"
  by (simp add: upd_go_def)

lemma upd_go_eq_Inr:
  "upd_go xs i v = Inr ys \<longleftrightarrow> 0 \<le> i \<and> i < int (length xs) \<and> ys = xs[nat i := v]"
  by (auto simp: upd_go_def)

section \<open>Generic list facts\<close>

lemma list_update_take_drop:
  "k < length xs \<Longrightarrow> xs[k := v] = take k xs @ v # drop (Suc k) xs"
  by (simp add: upd_conv_take_nth_drop)

lemma sorted_nth_last_le:
  fixes xs :: "'a::linorder list"
  assumes "sorted xs" and "x \<in> set xs" and "xs \<noteq> []"
  shows "x \<le> last xs"
  using assms by (induction xs) auto

lemma sorted_count_ge:
  fixes xs :: "'a::linorder list"
  assumes "sorted xs" and "k < length xs"
  shows "length xs - k \<le> length (filter (\<lambda>x. xs ! k \<le> x) xs)"
proof -
  have "xs ! k \<le> x" if "x \<in> set (drop k xs)" for x
  proof -
    from that obtain j where "j < length xs - k" and "x = xs ! (k + j)"
      by (auto simp: in_set_conv_nth)
    with assms show ?thesis by (simp add: sorted_nth_mono)
  qed
  then have "filter (\<lambda>x. xs ! k \<le> x) (drop k xs) = drop k xs"
    by simp
  moreover have "filter (\<lambda>x. xs ! k \<le> x) xs =
      filter (\<lambda>x. xs ! k \<le> x) (take k xs) @ filter (\<lambda>x. xs ! k \<le> x) (drop k xs)"
    by (metis append_take_drop_id filter_append)
  ultimately show ?thesis by simp
qed

lemma sorted_count_gt:
  fixes xs :: "'a::linorder list"
  assumes "sorted xs" and "k < length xs" and "xs ! k < y"
  shows "length (filter (\<lambda>x. y \<le> x) xs) < length xs - k"
proof -
  have "\<not> y \<le> x" if "x \<in> set (take (Suc k) xs)" for x
  proof -
    from that obtain j where "j < Suc k" and "x = xs ! j"
      by (auto simp: in_set_conv_nth)
    with assms have "x \<le> xs ! k" by (simp add: sorted_nth_mono)
    with assms(3) show ?thesis by simp
  qed
  then have nil: "filter (\<lambda>x. y \<le> x) (take (Suc k) xs) = []"
    by (simp add: filter_empty_conv)
  have "filter (\<lambda>x. y \<le> x) xs =
      filter (\<lambda>x. y \<le> x) (take (Suc k) xs) @ filter (\<lambda>x. y \<le> x) (drop (Suc k) xs)"
    by (metis append_take_drop_id filter_append)
  with nil have "length (filter (\<lambda>x. y \<le> x) xs) \<le> length (drop (Suc k) xs)"
    by (metis append_Nil length_filter_le)
  also have "\<dots> < length xs - k" using assms(2) by simp
  finally show ?thesis .
qed

lemma length_filter_sort: "length (filter P (sort xs)) = length (filter P xs)"
proof -
  have "mset (filter P (sort xs)) = mset (filter P xs)" by simp
  then show ?thesis by (metis size_mset)
qed

end
