(* ===== verification/Raft_Log.thy ===== *)
theory Raft_Log
  imports Go_Prelude
begin

text \<open>
  The in-memory Raft log, \<^verbatim>\<open>src/raft/log.go\<close>: a slice of entries whose first element
  sits at logical index \<^verbatim>\<open>index0\<close> (the entry kept at the snapshot index). Every method is
  one definition. The lemmas give the closed form of \<^verbatim>\<open>place\<close>, compare it with the
  append rule of the Raft paper (Figure 2, receiver rules 3 and 4), and show that terms
  stay sorted.
\<close>

section \<open>Data and operations\<close>

record 'c Entry =
  eTerm :: int
  eCommand :: "'c option"   \<comment> \<open>\<^verbatim>\<open>None\<close> is the nil interface\<close>

record 'c Log =
  entries :: "'c Entry list"
  index0 :: int

definition zeroEntry :: "'c Entry" where
  "zeroEntry = \<lparr>eTerm = 0, eCommand = None\<rparr>"

definition makeLog :: "nat \<Rightarrow> int \<Rightarrow> 'c Log" where
  "makeLog len start = \<lparr>entries = replicate len zeroEntry, index0 = start\<rparr>"

definition log_append :: "'c Entry list \<Rightarrow> 'c Log \<Rightarrow> 'c Log" where
  "log_append a l = l\<lparr>entries := entries l @ a\<rparr>"

text \<open>The overlap loop of \<^verbatim>\<open>place\<close>: the entries, the index \<^verbatim>\<open>i\<close> and what is left of \<^verbatim>\<open>a\<close>.\<close>

fun place_overlap :: "'c Entry list \<Rightarrow> int \<Rightarrow> 'c Entry list \<Rightarrow> 'c Entry list \<times> int \<times> 'c Entry list" where
  "place_overlap es i [] = (es, i, [])"
| "place_overlap es i (x # a) =
     (if i < int (length es) then place_overlap (es[nat i := x]) (i + 1) a else (es, i, x # a))"

definition place :: "int \<Rightarrow> 'c Entry list \<Rightarrow> 'c Log \<Rightarrow> 'c Log res" where
  "place index a l =
     ebind (assert_go (0 \<le> index - index0 l)) (\<lambda>_.
     case place_overlap (entries l) (index - index0 l) a of
       (es, i, rest) \<Rightarrow>
         (let es = es @ rest; i = i + int (length rest)
          in if i < int (length es)
             then ebind (nth_go es (i - 1)) (\<lambda>p.
                  ebind (nth_go es i) (\<lambda>q.
                  if eTerm p > eTerm q
                  then ebind (slice_to es i) (\<lambda>es'. Inr (l\<lparr>entries := es'\<rparr>))
                  else Inr (l\<lparr>entries := es\<rparr>)))
             else Inr (l\<lparr>entries := es\<rparr>)))"

definition log_start :: "'c Log \<Rightarrow> int" where
  "log_start l = index0 l"

definition entry :: "int \<Rightarrow> 'c Log \<Rightarrow> 'c Entry res" where
  "entry index l =
     ebind (assert_go (0 \<le> index - index0 l)) (\<lambda>_. nth_go (entries l) (index - index0 l))"

definition lastIndex :: "'c Log \<Rightarrow> int" where
  "lastIndex l = index0 l + int (length (entries l)) - 1"

definition lastEntry :: "'c Log \<Rightarrow> 'c Entry res" where
  "lastEntry l = entry (lastIndex l) l"

definition log_length :: "'c Log \<Rightarrow> int" where
  "log_length l = index0 l + int (length (entries l))"

definition log_slice :: "int \<Rightarrow> 'c Log \<Rightarrow> 'c Entry list res" where
  "log_slice index l = slice_from (entries l) (index - index0 l)"

definition cutOffHead :: "int \<Rightarrow> 'c Log \<Rightarrow> 'c Log res" where
  "cutOffHead index l =
     ebind (slice_from (entries l) (index - index0 l)) (\<lambda>es.
     Inr (l\<lparr>entries := es, index0 := index\<rparr>))"

definition cutOffTail :: "int \<Rightarrow> 'c Log \<Rightarrow> 'c Log res" where
  "cutOffTail index l =
     (if index = index0 l
      then ebind (slice_to (entries l) 1) (\<lambda>es. Inr (l\<lparr>entries := es\<rparr>))
      else ebind (slice_to (entries l) (index - index0 l)) (\<lambda>es. Inr (l\<lparr>entries := es\<rparr>)))"

section \<open>Terms of a log\<close>

abbreviation terms :: "'c Entry list \<Rightarrow> int list" where
  "terms es \<equiv> map eTerm es"

definition in_log :: "int \<Rightarrow> 'c Log \<Rightarrow> bool" where
  "in_log i l \<longleftrightarrow> index0 l \<le> i \<and> i \<le> lastIndex l"

definition ent :: "'c Log \<Rightarrow> int \<Rightarrow> 'c Entry" where
  "ent l i = entries l ! nat (i - index0 l)"

lemma entry_Inr_iff: "entry i l = Inr e \<longleftrightarrow> in_log i l \<and> e = ent l i"
  by (auto simp: entry_def in_log_def ent_def lastIndex_def ebind_eq_Inr nth_go_eq_Inr)

lemma entry_in_log: "in_log i l \<Longrightarrow> entry i l = Inr (ent l i)"
  by (simp add: entry_Inr_iff)

lemma lastEntry_nonempty: "entries l \<noteq> [] \<Longrightarrow> lastEntry l = Inr (last (entries l))"
  by (simp add: lastEntry_def lastIndex_def entry_def nth_go_def last_conv_nth nat_diff_distrib'
      Suc_leI flip: One_nat_def)

lemma lastEntry_panics_iff: "(\<exists>e. lastEntry l = Inl e) \<longleftrightarrow> entries l = []"
  by (cases "entries l = []")
     (auto simp: lastEntry_nonempty lastEntry_def lastIndex_def entry_def assert_go_def nth_go_def)

section \<open>The overlap loop and the closed form of place\<close>

lemma place_overlap_closed:
  assumes "k \<le> length es"
  shows "place_overlap es (int k) a =
    (take k es @ take (length es - k) a @ drop (k + length a) es,
     int (k + min (length a) (length es - k)), drop (length es - k) a)"
  using assms
proof (induction a arbitrary: es k)
  case Nil
  then show ?case by simp
next
  case (Cons x a)
  show ?case
  proof (cases "k < length es")
    case True
    then have "place_overlap es (int k) (x # a) = place_overlap (es[k := x]) (int (Suc k)) a"
      by (simp add: add.commute)
    also have "\<dots> = (take (Suc k) (es[k := x]) @ take (length es - Suc k) a @ drop (Suc k + length a) es,
        int (Suc k + min (length a) (length es - Suc k)), drop (length es - Suc k) a)"
      using Cons.IH [of "Suc k" "es[k := x]"] True by simp
    also have "take (Suc k) (es[k := x]) = take k es @ [x]"
      using True by (simp add: take_Suc_conv_app_nth)
    finally show ?thesis
      using True by (simp add: Suc_diff_Suc [symmetric])
  next
    case False
    with Cons.prems show ?thesis by simp
  qed
qed

text \<open>What \<^verbatim>\<open>place\<close> computes on the entries, with the offset \<^verbatim>\<open>k = index - index0\<close>.\<close>

definition placed :: "nat \<Rightarrow> 'c Entry list \<Rightarrow> 'c Entry list \<Rightarrow> 'c Entry list" where
  "placed k a es = take k es @ a @ drop (k + length a) es"

definition place_result :: "nat \<Rightarrow> 'c Entry list \<Rightarrow> 'c Entry list \<Rightarrow> 'c Entry list" where
  "place_result k a es =
     (let n = k + length a
      in if n < length es \<and> eTerm (placed k a es ! (n - 1)) > eTerm (placed k a es ! n)
         then take n (placed k a es) else placed k a es)"

lemma length_placed: "k \<le> length es \<Longrightarrow> length (placed k a es) = max (length es) (k + length a)"
  by (simp add: placed_def)

lemma place_triple:
  assumes "place_overlap (entries l) (index - index0 l) a = (es, i, rest)"
    and "index0 l \<le> index" and "es @ rest = E" and "i + int (length rest) = int n"
    and "0 < n" and "n \<le> length E"
  shows "place index a l =
    Inr (l\<lparr>entries := if n < length E \<and> eTerm (E ! (n - 1)) > eTerm (E ! n) then take n E else E\<rparr>)"
proof -
  have ok: "0 \<le> index - index0 l" using assms(2) by simp
  have n1: "nat (int n - 1) = n - 1" by simp
  have "place index a l =
    (if int n < int (length E)
     then ebind (nth_go E (int n - 1)) (\<lambda>p. ebind (nth_go E (int n)) (\<lambda>q.
          if eTerm p > eTerm q
          then ebind (slice_to E (int n)) (\<lambda>es'. Inr (l\<lparr>entries := es'\<rparr>))
          else Inr (l\<lparr>entries := E\<rparr>)))
     else Inr (l\<lparr>entries := E\<rparr>))"
    by (simp only: place_def assms(1,3,4) ok prod.case Let_def assert_go_True ebind_Inr)
  with assms(5,6) show ?thesis
    by (simp add: nth_go_def slice_to_def n1)
qed

lemma place_eq_result:
  assumes "k \<le> length (entries l)" and "index = index0 l + int k" and "0 < k + length a"
  shows "place index a l = Inr (l\<lparr>entries := place_result k a (entries l)\<rparr>)"
proof -
  let ?es = "entries l"
  have joined: "(take k ?es @ take (length ?es - k) a @ drop (k + length a) ?es) @
      drop (length ?es - k) a = placed k a ?es"
    by (cases "k + length a \<le> length ?es") (simp_all add: placed_def)
  have "place index a l = Inr (l\<lparr>entries :=
      if k + length a < length (placed k a ?es) \<and>
         eTerm (placed k a ?es ! (k + length a - 1)) > eTerm (placed k a ?es ! (k + length a))
      then take (k + length a) (placed k a ?es) else placed k a ?es\<rparr>)"
    by (rule place_triple [OF _ _ joined])
       (use assms in \<open>auto simp: place_overlap_closed length_placed\<close>)
  moreover have "k + length a < length (placed k a ?es) \<longleftrightarrow> k + length a < length ?es"
    using assms(1) by (auto simp: length_placed)
  ultimately show ?thesis by (simp add: place_result_def Let_def)
qed

section \<open>Comparison with the append rule of the Raft paper\<close>

text \<open>
  Figure 2 of the Raft paper, receiver rules 3 and 4: walk the new entries along the
  existing ones; at the first conflict (same index, different term) delete the existing
  entry and all that follow it; append the entries not already in the log.
\<close>

fun merge_entries :: "'c Entry list \<Rightarrow> 'c Entry list \<Rightarrow> 'c Entry list" where
  "merge_entries [] a = a"
| "merge_entries es [] = es"
| "merge_entries (e # es) (x # a) =
     (if eTerm e \<noteq> eTerm x then x # a else e # merge_entries es a)"

definition figure2_append :: "nat \<Rightarrow> 'c Entry list \<Rightarrow> 'c Entry list \<Rightarrow> 'c Entry list" where
  "figure2_append k a es = take k es @ merge_entries (drop k es) a"

text \<open>Some overlapping entry has another term.\<close>

definition conflicts :: "'c Entry list \<Rightarrow> 'c Entry list \<Rightarrow> bool" where
  "conflicts es a \<longleftrightarrow> list_ex (\<lambda>(e, x). eTerm e \<noteq> eTerm x) (zip es a)"

text \<open>
  Log Matching on the overlap: an entry of the leader and one of the follower with the
  same index and term are the same entry.
\<close>

definition overlap_matches :: "'c Entry list \<Rightarrow> 'c Entry list \<Rightarrow> bool" where
  "overlap_matches es a \<longleftrightarrow> list_all (\<lambda>(e, x). eTerm e = eTerm x \<longrightarrow> e = x) (zip es a)"

lemma conflicts_simps [simp]:
  "conflicts [] a = False" "conflicts es [] = False"
  "conflicts (e # es) (x # a) \<longleftrightarrow> eTerm e \<noteq> eTerm x \<or> conflicts es a"
  by (simp_all add: conflicts_def)

lemma overlap_matches_simps [simp]:
  "overlap_matches [] a" "overlap_matches es []"
  "overlap_matches (e # es) (x # a) \<longleftrightarrow> (eTerm e = eTerm x \<longrightarrow> e = x) \<and> overlap_matches es a"
  by (simp_all add: overlap_matches_def)

lemma merge_entries_Nil2 [simp]: "merge_entries es [] = es"
  by (cases es) simp_all

lemma merge_conflict:
  "overlap_matches es a \<Longrightarrow> conflicts es a \<Longrightarrow> merge_entries es a = a"
  by (induction es a rule: merge_entries.induct) auto

lemma merge_no_conflict:
  "overlap_matches es a \<Longrightarrow> \<not> conflicts es a \<Longrightarrow> merge_entries es a = a @ drop (length a) es"
  by (induction es a rule: merge_entries.induct) auto

lemma no_conflict_take:
  "overlap_matches es a \<Longrightarrow> \<not> conflicts es a \<Longrightarrow> length a \<le> length es \<Longrightarrow> take (length a) es = a"
  by (induction es a rule: merge_entries.induct) auto

text \<open>The cut test of \<^verbatim>\<open>place\<close> on the joined entries.\<close>

definition place_cuts :: "nat \<Rightarrow> 'c Entry list \<Rightarrow> 'c Entry list \<Rightarrow> bool" where
  "place_cuts k a es \<longleftrightarrow> k + length a < length es \<and>
     eTerm (last (take k es @ a)) > eTerm (es ! (k + length a))"

lemma place_result_cases:
  assumes "k \<le> length es" and "0 < k + length a"
  shows "place_result k a es = (if place_cuts k a es then take k es @ a else placed k a es)"
proof -
  let ?n = "k + length a"
  have "placed k a es ! (?n - 1) = last (take k es @ a)"
  proof -
    have len: "length (take k es @ a) = ?n" using assms(1) by simp
    then have "last (take k es @ a) = (take k es @ a) ! (?n - 1)"
      using assms(2) by (subst last_conv_nth) (auto simp del: length_append)
    also have "\<dots> = ((take k es @ a) @ drop ?n es) ! (?n - 1)"
      using len assms(2) by (subst nth_append [of "take k es @ a" "drop ?n es"]) simp
    finally show ?thesis by (simp add: placed_def)
  qed
  moreover have "placed k a es ! ?n = es ! ?n" if "?n < length es"
    using that by (simp add: placed_def nth_append)
  moreover have "take ?n (placed k a es) = take k es @ a"
    using assms(1) by (simp add: placed_def)
  ultimately show ?thesis
    by (auto simp: place_result_def place_cuts_def Let_def)
qed

lemma no_conflict_no_cut:
  assumes sorted: "sorted (terms es)" and k: "0 < k" "k \<le> length es"
    and "overlap_matches (drop k es) a" and "\<not> conflicts (drop k es) a"
  shows "\<not> place_cuts k a es"
proof
  assume cut: "place_cuts k a es"
  then have n: "k + length a < length es"
    by (simp add: place_cuts_def)
  then have "take (length a) (drop k es) = a"
    using assms(4,5) by (intro no_conflict_take) auto
  then have "take k es @ a = take (k + length a) es"
    by (metis take_add)
  then have "last (take k es @ a) = es ! (k + length a - 1)"
    using k n by (subst \<open>take k es @ a = _\<close>, subst last_conv_nth) auto
  moreover have "terms es ! (k + length a - 1) \<le> terms es ! (k + length a)"
    using sorted n by (intro sorted_nth_mono) auto
  ultimately show False
    using cut n k by (simp add: place_cuts_def)
qed

text \<open>
  The exact relation: with sorted terms and Log Matching on the overlap, \<^verbatim>\<open>place\<close> does
  what Figure 2 says except when a conflict is overwritten and the test on the terms does
  not notice the stale entries after it.
\<close>

lemma place_result_figure2_iff:
  assumes "sorted (terms es)" and "0 < k" "k \<le> length es" and "overlap_matches (drop k es) a"
  shows "place_result k a es = figure2_append k a es \<longleftrightarrow>
    \<not> (conflicts (drop k es) a \<and> k + length a < length es \<and> \<not> place_cuts k a es)"
proof (cases "conflicts (drop k es) a")
  case True
  then have "figure2_append k a es = take k es @ a"
    using assms(4) by (simp add: figure2_append_def merge_conflict)
  with True assms(2,3) show ?thesis
    by (auto simp: place_result_cases placed_def place_cuts_def)
next
  case False
  then have "figure2_append k a es = placed k a es"
    using assms(4) by (simp add: figure2_append_def merge_no_conflict placed_def add.commute)
  moreover have "\<not> place_cuts k a es"
    using assms False by (intro no_conflict_no_cut)
  ultimately show ?thesis
    using False assms(2,3) by (simp add: place_result_cases)
qed

section \<open>Terms stay sorted\<close>

lemma place_result_sorted:
  assumes es: "sorted (terms es)" and a: "sorted (terms a)"
    and k: "0 < k + length a" "k \<le> length es"
    and prev: "0 < k \<Longrightarrow> a \<noteq> [] \<Longrightarrow> eTerm (es ! (k - 1)) \<le> eTerm (hd a)"
  shows "sorted (terms (place_result k a es))"
proof -
  have take_le: "t \<le> eTerm (es ! (k - 1))" if "t \<in> set (terms (take k es))" for t
  proof -
    from that obtain j where "j < k" and "t = terms es ! j"
      using k by (auto simp: in_set_conv_nth)
    moreover have "terms es ! j \<le> terms es ! (k - 1)"
      using es k \<open>j < k\<close> by (intro sorted_nth_mono) auto
    ultimately show ?thesis using k by simp
  qed
  have hd_le: "eTerm (hd a) \<le> t" if "t \<in> set (terms a)" for t
    using a that by (cases a) auto
  have "x \<le> y" if "x \<in> set (terms (take k es))" "y \<in> set (terms a)" for x y
  proof -
    have "0 < k" using that(1) by (cases k) auto
    then have "eTerm (es ! (k - 1)) \<le> eTerm (hd a)" using prev that(2) by (cases a) auto
    with take_le [OF that(1)] hd_le [OF that(2)] show ?thesis by simp
  qed
  then have pre: "sorted (terms (take k es @ a))"
    using es a by (simp add: sorted_append sorted_wrt_take take_map [symmetric])
  show ?thesis
  proof (cases "place_cuts k a es \<or> length es \<le> k + length a")
    case True
    with pre k show ?thesis
      by (auto simp: place_result_cases placed_def)
  next
    case False
    let ?n = "k + length a"
    from False have n: "?n < length es" and last: "eTerm (last (take k es @ a)) \<le> eTerm (es ! ?n)"
      by (auto simp: place_cuts_def)
    have ne: "terms (take k es @ a) \<noteq> []" using k by (cases a; cases es) auto
    have "x \<le> y" if x: "x \<in> set (terms (take k es @ a))" and y: "y \<in> set (terms (drop ?n es))" for x y
    proof -
      have "x \<le> last (terms (take k es @ a))"
        using pre x ne by (rule sorted_nth_last_le)
      also have "\<dots> = eTerm (last (take k es @ a))"
        using ne by (subst last_map) auto
      also have "\<dots> \<le> eTerm (es ! ?n)" by (rule last)
      also have "\<dots> \<le> y"
      proof -
        from y obtain j where "j < length es - ?n" "y = terms es ! (?n + j)"
          by (auto simp: in_set_conv_nth)
        moreover have "terms es ! ?n \<le> terms es ! (?n + j)"
          using es \<open>j < length es - ?n\<close> by (intro sorted_nth_mono) auto
        ultimately show ?thesis using n by simp
      qed
      finally show ?thesis .
    qed
    moreover have "sorted (terms (drop ?n es))"
      using es by (simp add: drop_map [symmetric] sorted_wrt_drop)
    moreover have "place_result k a es = (take k es @ a) @ drop ?n es"
      using False k by (simp add: place_result_cases placed_def)
    ultimately show ?thesis
      using pre by (simp only: map_append sorted_append) blast
  qed
qed

lemma cutOffTail_prefix:
  assumes "cutOffTail i l = Inr l'"
  shows "\<exists>m. entries l' = take m (entries l) \<and> index0 l' = index0 l"
  using assms by (auto simp: cutOffTail_def ebind_eq_Inr slice_to_def split: if_splits)

lemma cutOffHead_keeps:
  assumes "cutOffHead i l = Inr l'" and "in_log j l" and "i \<le> j"
  shows "ent l' j = ent l j \<and> in_log j l'"
  using assms
  by (auto simp: cutOffHead_def ebind_eq_Inr slice_from_def in_log_def ent_def lastIndex_def
      nat_add_distrib [symmetric] split: if_splits)

section \<open>Properties\<close>

text \<open>
  C34: \<^verbatim>\<open>place\<close> against the append rule of the Raft paper. On a log with sorted terms, and
  when entries of equal index and term are equal, \<^verbatim>\<open>place\<close> never panics and gives the log
  that Figure 2 of the paper prescribes, except in exactly one case: some overlapping entry
  is overwritten by one of another term, the old log is longer than the new entries reach,
  and the first old entry after them does not have a smaller term than the last new one.
\<close>

theorem place_follows_figure2:
  assumes "sorted (terms (entries l))" and "0 < k" and "k \<le> length (entries l)"
    and "overlap_matches (drop k (entries l)) a"
  shows "\<exists>l'. place (index0 l + int k) a l = Inr l' \<and> index0 l' = index0 l \<and>
    (entries l' = figure2_append k a (entries l) \<longleftrightarrow>
      \<not> (conflicts (drop k (entries l)) a \<and> k + length a < length (entries l) \<and>
         eTerm (last (take k (entries l) @ a)) \<le> eTerm (entries l ! (k + length a))))"
proof -
  have "place (index0 l + int k) a l = Inr (l\<lparr>entries := place_result k a (entries l)\<rparr>)"
    using assms by (intro place_eq_result) auto
  with place_result_figure2_iff [OF assms] show ?thesis
    by (auto simp: place_cuts_def)
qed

text \<open>Terms 0, 1, 2, 2, 2 and one entry of term 3 at offset 2: the stale tail is cut.\<close>

theorem place_follows_figure2_witness:
  "\<exists>l'. place 2 [\<lparr>eTerm = 3, eCommand = Some (7 :: nat)\<rparr>]
      \<lparr>entries = map (\<lambda>t. \<lparr>eTerm = t, eCommand = None\<rparr>) [0, 1, 2, 2, 2], index0 = 0\<rparr> = Inr l' \<and>
    terms (entries l') = [0, 1, 3]"
proof -
  let ?es = "map (\<lambda>t. \<lparr>eTerm = t, eCommand = None :: nat option\<rparr>) [0, 1, 2, 2, 2]"
  from place_follows_figure2 [of "\<lparr>entries = ?es, index0 = 0\<rparr>" 2 "[\<lparr>eTerm = 3, eCommand = Some 7\<rparr>]"]
  obtain l' where "place 2 [\<lparr>eTerm = 3, eCommand = Some 7\<rparr>] \<lparr>entries = ?es, index0 = 0\<rparr> = Inr l'"
    "entries l' = figure2_append 2 [\<lparr>eTerm = 3, eCommand = Some 7\<rparr>] ?es"
    by auto
  then show ?thesis by (auto simp: figure2_append_def)
qed

end
