(* ===== verification/Raft_Node.thy ===== *)
theory Raft_Node
  imports Raft_Log
begin

text \<open>
  One Raft peer: \<^verbatim>\<open>src/raft/raft.go\<close>, \<^verbatim>\<open>src/raft/persister.go\<close> and
  \<^verbatim>\<open>src/raft/log_compaction.go\<close>. Every method that runs under \<^verbatim>\<open>rf.mu\<close> is a function from
  the peer's state to its new state, so the mutex is the atomicity of the definitions.

  \<^item> Byte slices. Raft treats a snapshot as opaque bytes (\<^verbatim>\<open>'b list\<close>; nil and empty are
    the same value). The persisted state is a gob stream: the list of the values encoded,
    in order; decoding takes the next value and fails on a value of another type or at
    the end.
  \<^item> \<^verbatim>\<open>peers\<close> is the number of RPC end points; the calls themselves are steps of the
    cluster (theory \<^verbatim>\<open>Raft_Cluster\<close>).
  \<^item> \<^verbatim>\<open>applyCond\<close> is the flag \<^verbatim>\<open>applierWaiting\<close>: the applier goroutine is blocked in
    \<^verbatim>\<open>Wait\<close>; \<^verbatim>\<open>Broadcast\<close> clears it. \<^verbatim>\<open>heartbeatNotifyCh\<close> has capacity one, so it is
    the flag \<^verbatim>\<open>heartbeatNotify\<close>.
  \<^item> Time is an integer clock given to the handlers that read it.
\<close>

section \<open>Persister\<close>

datatype 'c ptok = PInt int | PEntries "'c Entry list"

record ('c, 'b) Persister =
  raftstate :: "'c ptok list"
  snapshotData :: "'b list"

definition MakePersister :: "('c, 'b) Persister" where
  "MakePersister = \<lparr>raftstate = [], snapshotData = []\<rparr>"

definition Persister_Copy :: "('c, 'b) Persister \<Rightarrow> ('c, 'b) Persister" where
  "Persister_Copy ps = MakePersister\<lparr>raftstate := raftstate ps, snapshotData := snapshotData ps\<rparr>"

definition ReadRaftState :: "('c, 'b) Persister \<Rightarrow> 'c ptok list" where
  "ReadRaftState ps = raftstate ps"

text \<open>The size in bytes: each \<^verbatim>\<open>Encode\<close> appends the bytes of one value, \<^verbatim>\<open>sz\<close> of them.\<close>

definition RaftStateSize :: "('c ptok \<Rightarrow> nat) \<Rightarrow> ('c, 'b) Persister \<Rightarrow> int" where
  "RaftStateSize sz ps = int (sum_list (map sz (raftstate ps)))"

definition SaveRaftState :: "'c ptok list \<Rightarrow> ('c, 'b) Persister \<Rightarrow> ('c, 'b) Persister" where
  "SaveRaftState st ps = ps\<lparr>raftstate := st\<rparr>"

definition Save :: "'c ptok list \<Rightarrow> 'b list \<Rightarrow> ('c, 'b) Persister \<Rightarrow> ('c, 'b) Persister" where
  "Save st snap ps = ps\<lparr>raftstate := st, snapshotData := snap\<rparr>"

definition ReadSnapshot :: "('c, 'b) Persister \<Rightarrow> 'b list" where
  "ReadSnapshot ps = snapshotData ps"

definition SnapshotSize :: "('b \<Rightarrow> nat) \<Rightarrow> ('c, 'b) Persister \<Rightarrow> int" where
  "SnapshotSize sz ps = int (sum_list (map sz (snapshotData ps)))"

section \<open>The peer\<close>

datatype RoleT = LEADER | FOLLOWER | CANDIDATE

record ('c, 'b) Raft =
  peers :: nat
  persister :: "('c, 'b) Persister"
  me :: nat
  dead :: int
  currentTerm :: int
  votedFor :: int
  rlog :: "'c Log"
  snapshotTerm :: int
  snapshotIndex :: int
  snapshot :: "'b list"
  commitIndex :: int
  lastApplied :: int
  applierWaiting :: bool
  nextIndex :: "int list"
  matchIndex :: "int list"
  role :: RoleT
  leaderId :: int
  lastHeartbeat :: int
  heartbeatNotify :: bool

definition GetState :: "('c, 'b) Raft \<Rightarrow> int \<times> bool" where
  "GetState rf = (currentTerm rf, role rf = LEADER)"

definition stateBytes :: "('c, 'b) Raft \<Rightarrow> 'c ptok list" where
  "stateBytes rf = [PInt (currentTerm rf), PInt (votedFor rf), PEntries (entries (rlog rf)),
     PInt (snapshotIndex rf), PInt (snapshotTerm rf)]"

definition persist :: "('c, 'b) Raft \<Rightarrow> ('c, 'b) Raft" where
  "persist rf = rf\<lparr>persister := Save (stateBytes rf) (snapshot rf) (persister rf)\<rparr>"

definition persistSate :: "('c, 'b) Raft \<Rightarrow> ('c, 'b) Raft" where
  "persistSate rf = rf\<lparr>persister := SaveRaftState (stateBytes rf) (persister rf)\<rparr>"

fun decodeInt :: "'c ptok list \<Rightarrow> (int \<times> 'c ptok list) res" where
  "decodeInt (PInt n # d) = Inr (n, d)"
| "decodeInt _ = Inl DecodeFailed"

fun decodeEntries :: "'c ptok list \<Rightarrow> ('c Entry list \<times> 'c ptok list) res" where
  "decodeEntries (PEntries es # d) = Inr (es, d)"
| "decodeEntries _ = Inl DecodeFailed"

definition readPersist :: "'c ptok list \<Rightarrow> ('c, 'b) Raft \<Rightarrow> ('c, 'b) Raft res" where
  "readPersist data rf =
     (if data = [] then Inr rf
      else ebind (decodeInt data) (\<lambda>(currentTerm', d).
           ebind (decodeInt d) (\<lambda>(votedFor', d).
           ebind (decodeEntries d) (\<lambda>(entries', d).
           ebind (decodeInt d) (\<lambda>(snapshotIndex', d).
           ebind (decodeInt d) (\<lambda>(snapshotTerm', d).
           Inr (rf\<lparr>currentTerm := currentTerm', votedFor := votedFor',
                   rlog := \<lparr>entries = entries', index0 = snapshotIndex'\<rparr>,
                   snapshotIndex := snapshotIndex', snapshotTerm := snapshotTerm'\<rparr>)))))))"

definition stepDown :: "int \<Rightarrow> ('c, 'b) Raft \<Rightarrow> ('c, 'b) Raft" where
  "stepDown t rf = persistSate (rf\<lparr>currentTerm := t, role := FOLLOWER, votedFor := - 1\<rparr>)"

definition resetElectionTimer :: "int \<Rightarrow> ('c, 'b) Raft \<Rightarrow> ('c, 'b) Raft" where
  "resetElectionTimer now rf = rf\<lparr>lastHeartbeat := now\<rparr>"

text \<open>\<^verbatim>\<open>rf.applyCond.Broadcast()\<close> and the non-blocking send of \<^verbatim>\<open>notifyHeartbeat\<close>.\<close>

definition applyBroadcast :: "('c, 'b) Raft \<Rightarrow> ('c, 'b) Raft" where
  "applyBroadcast rf = rf\<lparr>applierWaiting := False\<rparr>"

definition notifyHeartbeat :: "('c, 'b) Raft \<Rightarrow> ('c, 'b) Raft" where
  "notifyHeartbeat rf = rf\<lparr>heartbeatNotify := True\<rparr>"

definition Start :: "'c \<Rightarrow> ('c, 'b) Raft \<Rightarrow> (int \<times> int \<times> bool) \<times> ('c, 'b) Raft" where
  "Start command rf =
     (if role rf \<noteq> LEADER then ((0, currentTerm rf, False), rf)
      else let rf1 = rf\<lparr>rlog := log_append [\<lparr>eTerm = currentTerm rf, eCommand = Some command\<rparr>] (rlog rf)\<rparr>
           in ((lastIndex (rlog rf1), currentTerm rf, True), notifyHeartbeat (persistSate rf1)))"

definition Kill :: "('c, 'b) Raft \<Rightarrow> ('c, 'b) Raft" where
  "Kill rf = applyBroadcast (rf\<lparr>dead := 1\<rparr>)"

definition Killed :: "('c, 'b) Raft \<Rightarrow> bool" where
  "Killed rf \<longleftrightarrow> dead rf = 1"

text \<open>
  \<^verbatim>\<open>Make\<close>: fields the code leaves out of its initialisation have Go's zero value. The
  ticker and applier goroutines it starts are steps of the cluster and of the applier.
\<close>

definition Make :: "nat \<Rightarrow> nat \<Rightarrow> ('c, 'b) Persister \<Rightarrow> int \<Rightarrow> ('c, 'b) Raft res" where
  "Make npeers i ps now =
     (let rf = \<lparr>peers = npeers, persister = ps, me = i, dead = 0, currentTerm = 0, votedFor = - 1,
                rlog = makeLog 1 0, snapshotTerm = 0, snapshotIndex = 0, snapshot = [],
                commitIndex = 0, lastApplied = 0, applierWaiting = False, nextIndex = [],
                matchIndex = [], role = FOLLOWER, leaderId = - 1, lastHeartbeat = 0,
                heartbeatNotify = False\<rparr>
      in ebind (readPersist (ReadRaftState ps) rf) (\<lambda>rf.
         Inr (resetElectionTimer now (rf\<lparr>snapshot := ReadSnapshot ps\<rparr>))))"

definition Snapshot :: "int \<Rightarrow> 'b list \<Rightarrow> ('c, 'b) Raft \<Rightarrow> ('c, 'b) Raft res" where
  "Snapshot index snap rf =
     (if index \<le> snapshotIndex rf then Inr rf
      else ebind (entry index (rlog rf)) (\<lambda>e.
           ebind (cutOffHead index (rlog rf)) (\<lambda>l.
           Inr (persist (rf\<lparr>snapshot := snap, snapshotTerm := eTerm e, snapshotIndex := index,
                            rlog := l\<rparr>)))))"

section \<open>Well-formed and durable peers\<close>

text \<open>
  The log starts at the snapshot index and is never empty (the comment in
  \<^verbatim>\<open>Snapshot\<close>: ``the log's length always >= 1'').
\<close>

definition wf_raft :: "('c, 'b) Raft \<Rightarrow> bool" where
  "wf_raft rf \<longleftrightarrow> entries (rlog rf) \<noteq> [] \<and> index0 (rlog rf) = snapshotIndex rf \<and> 0 \<le> snapshotIndex rf"

text \<open>
  What is on stable storage is what is in memory: either nothing was ever saved and the
  peer is in its boot state, or the saved stream is the encoding of the current state.
\<close>

definition booted :: "('c, 'b) Raft \<Rightarrow> bool" where
  "booted rf \<longleftrightarrow> currentTerm rf = 0 \<and> votedFor rf = - 1 \<and> rlog rf = makeLog 1 0 \<and>
     snapshotIndex rf = 0 \<and> snapshotTerm rf = 0"

definition durable :: "('c, 'b) Raft \<Rightarrow> bool" where
  "durable rf \<longleftrightarrow>
     (raftstate (persister rf) = stateBytes rf \<or> raftstate (persister rf) = [] \<and> booted rf) \<and>
     snapshotData (persister rf) = snapshot rf"

named_theorems raft_defs \<open>field-wise unfolding of the peer's elementary updates\<close>
declare persist_def [raft_defs] persistSate_def [raft_defs] SaveRaftState_def [raft_defs]
  Save_def [raft_defs] stepDown_def [raft_defs] resetElectionTimer_def [raft_defs]
  applyBroadcast_def [raft_defs] notifyHeartbeat_def [raft_defs]

lemma stateBytes_cong:
  "currentTerm rf = currentTerm rf' \<Longrightarrow> votedFor rf = votedFor rf' \<Longrightarrow>
   entries (rlog rf) = entries (rlog rf') \<Longrightarrow> snapshotIndex rf = snapshotIndex rf' \<Longrightarrow>
   snapshotTerm rf = snapshotTerm rf' \<Longrightarrow> stateBytes rf = stateBytes rf'"
  by (simp add: stateBytes_def)

lemma durable_persistSate:
  "snapshotData (persister rf) = snapshot rf \<Longrightarrow> durable (persistSate rf)"
  by (simp add: durable_def raft_defs stateBytes_def)

lemma durable_persist: "durable (persist rf)"
  by (simp add: durable_def raft_defs stateBytes_def)

lemma durable_frame:
  assumes "durable rf"
    and "persister rf' = persister rf" "currentTerm rf' = currentTerm rf" "votedFor rf' = votedFor rf"
    and "rlog rf' = rlog rf" "snapshotIndex rf' = snapshotIndex rf" "snapshotTerm rf' = snapshotTerm rf"
    and "snapshot rf' = snapshot rf"
  shows "durable rf'"
  using assms by (simp add: durable_def booted_def stateBytes_def)

lemma durable_snapshotData: "durable rf \<Longrightarrow> snapshotData (persister rf) = snapshot rf"
  by (simp add: durable_def)

lemma wf_raft_frame:
  "wf_raft rf \<Longrightarrow> rlog rf' = rlog rf \<Longrightarrow> snapshotIndex rf' = snapshotIndex rf \<Longrightarrow> wf_raft rf'"
  by (simp add: wf_raft_def)

section \<open>What a handler may do to votes and terms\<close>

text \<open>
  The contract of every handler that is neither a vote nor an election: the term never
  goes back; a new term starts as a follower without a vote; within a term the vote stays,
  except that a candidate may fall back to a follower with its vote cleared
  (\<^verbatim>\<open>AppendEntries\<close> and \<^verbatim>\<open>InstallSnapshot\<close> call \<^verbatim>\<open>stepDown\<close> for a candidate of the same
  term).
\<close>

definition quiet :: "('c, 'b) Raft \<Rightarrow> ('c, 'b) Raft \<Rightarrow> bool" where
  "quiet rf rf' \<longleftrightarrow>
     me rf' = me rf \<and> peers rf' = peers rf \<and> currentTerm rf \<le> currentTerm rf' \<and>
     (currentTerm rf < currentTerm rf' \<longrightarrow> role rf' = FOLLOWER \<and> votedFor rf' = - 1) \<and>
     (currentTerm rf' = currentTerm rf \<longrightarrow>
        role rf' = role rf \<and> votedFor rf' = votedFor rf \<or>
        role rf = CANDIDATE \<and> role rf' = FOLLOWER \<and> votedFor rf' = - 1)"

lemma quiet_refl [simp]: "quiet rf rf"
  by (simp add: quiet_def)

lemma quiet_trans: "quiet rf rf' \<Longrightarrow> quiet rf' rf'' \<Longrightarrow> quiet rf rf''"
  by (auto simp: quiet_def)

lemma quiet_frame:
  assumes "me rf' = me rf" "peers rf' = peers rf" "currentTerm rf' = currentTerm rf"
    and "role rf' = role rf" "votedFor rf' = votedFor rf"
  shows "quiet rf rf'"
  using assms by (simp add: quiet_def)

lemma quiet_stepDown: "currentTerm rf < t \<or> t = currentTerm rf \<and> role rf = CANDIDATE \<Longrightarrow> quiet rf (stepDown t rf)"
  by (auto simp: quiet_def raft_defs)

text \<open>The three facts together: what the cluster relies on of a handler.\<close>

definition handler_ok :: "('c, 'b) Raft \<Rightarrow> ('c, 'b) Raft \<Rightarrow> bool" where
  "handler_ok rf rf' \<longleftrightarrow> quiet rf rf' \<and> (durable rf \<longrightarrow> durable rf') \<and> (wf_raft rf \<longrightarrow> wf_raft rf')"

lemma handler_ok_refl [simp]: "handler_ok rf rf"
  by (simp add: handler_ok_def)

lemma handler_ok_trans: "handler_ok rf rf' \<Longrightarrow> handler_ok rf' rf'' \<Longrightarrow> handler_ok rf rf''"
  by (auto simp: handler_ok_def intro: quiet_trans)

lemma handler_ok_frame:
  assumes "me rf' = me rf" "peers rf' = peers rf" "currentTerm rf' = currentTerm rf"
    and "role rf' = role rf" "votedFor rf' = votedFor rf" "persister rf' = persister rf"
    and "rlog rf' = rlog rf" "snapshotIndex rf' = snapshotIndex rf" "snapshotTerm rf' = snapshotTerm rf"
    and "snapshot rf' = snapshot rf"
  shows "handler_ok rf rf'"
  unfolding handler_ok_def
proof (intro conjI impI)
  show "quiet rf rf'" using assms(1-5) by (rule quiet_frame)
  show "durable rf'" if "durable rf"
    using that assms by (auto intro: durable_frame)
  show "wf_raft rf'" if "wf_raft rf"
    using that assms by (auto intro: wf_raft_frame)
qed

lemma durable_stepDown: "durable rf \<Longrightarrow> durable (stepDown t rf)"
  unfolding stepDown_def by (rule durable_persistSate) (simp add: durable_snapshotData)

lemma wf_stepDown: "wf_raft rf \<Longrightarrow> wf_raft (stepDown t rf)"
  by (simp add: wf_raft_def raft_defs)

lemma handler_ok_stepDown:
  "currentTerm rf < t \<or> t = currentTerm rf \<and> role rf = CANDIDATE \<Longrightarrow> handler_ok rf (stepDown t rf)"
  by (simp add: handler_ok_def quiet_stepDown durable_stepDown wf_stepDown)

lemma handler_ok_log:
  assumes "entries l \<noteq> []" and "index0 l = index0 (rlog rf)"
  shows "handler_ok rf (persistSate (rf\<lparr>rlog := l\<rparr>))"
  unfolding handler_ok_def
proof (intro conjI impI)
  show "quiet rf (persistSate (rf\<lparr>rlog := l\<rparr>))"
    by (rule quiet_frame) (simp_all add: raft_defs)
  show "durable (persistSate (rf\<lparr>rlog := l\<rparr>))" if "durable rf"
    using that by (intro durable_persistSate) (simp add: durable_def)
  show "wf_raft (persistSate (rf\<lparr>rlog := l\<rparr>))" if "wf_raft rf"
    using that assms by (simp add: wf_raft_def raft_defs)
qed

lemma handler_ok_timer [simp]: "handler_ok rf (resetElectionTimer now rf)"
  by (rule handler_ok_frame) (simp_all add: raft_defs)

lemma handler_ok_broadcast [simp]: "handler_ok rf (applyBroadcast rf)"
  by (rule handler_ok_frame) (simp_all add: raft_defs)

lemma handler_ok_notify [simp]: "handler_ok rf (notifyHeartbeat rf)"
  by (rule handler_ok_frame) (simp_all add: raft_defs)

lemma handler_ok_Start: "Start c rf = (r, rf') \<Longrightarrow> handler_ok rf rf'"
  by (auto simp: Start_def Let_def log_append_def split: if_splits
      intro!: handler_ok_trans [OF handler_ok_log handler_ok_notify])

lemma handler_ok_Kill: "handler_ok rf (Kill rf)"
  by (rule handler_ok_frame) (simp_all add: Kill_def raft_defs)

lemma handler_ok_Snapshot:
  assumes "Snapshot index snap rf = Inr rf'"
  shows "handler_ok rf rf'"
proof (cases "index \<le> snapshotIndex rf")
  case True
  with assms show ?thesis by (simp add: Snapshot_def)
next
  case False
  with assms obtain e l where e: "entry index (rlog rf) = Inr e" and l: "cutOffHead index (rlog rf) = Inr l"
    and rf': "rf' = persist (rf\<lparr>snapshot := snap, snapshotTerm := eTerm e, snapshotIndex := index, rlog := l\<rparr>)"
    by (auto simp: Snapshot_def ebind_eq_Inr)
  from e l have "entries l \<noteq> []" and "index0 l = index"
    by (auto simp: entry_Inr_iff in_log_def lastIndex_def cutOffHead_def ebind_eq_Inr slice_from_def
        split: if_splits)
  then have "wf_raft rf'" if "wf_raft rf"
    using that False by (simp add: rf' wf_raft_def raft_defs)
  moreover have "durable rf'" by (simp add: rf' durable_persist)
  moreover have "quiet rf rf'" by (rule quiet_frame) (simp_all add: rf' raft_defs)
  ultimately show ?thesis by (simp add: handler_ok_def)
qed

section \<open>Crash and recovery\<close>

lemma readPersist_stateBytes:
  "readPersist (stateBytes rf) rf0 = Inr (rf0\<lparr>currentTerm := currentTerm rf, votedFor := votedFor rf,
     rlog := \<lparr>entries = entries (rlog rf), index0 = snapshotIndex rf\<rparr>,
     snapshotIndex := snapshotIndex rf, snapshotTerm := snapshotTerm rf\<rparr>)"
  by (simp add: readPersist_def stateBytes_def)

lemma Make_recovers:
  assumes "durable rf" and "wf_raft rf"
  shows "\<exists>rf'. Make n i (persister rf) now = Inr rf' \<and>
    currentTerm rf' = currentTerm rf \<and> votedFor rf' = votedFor rf \<and> rlog rf' = rlog rf \<and>
    snapshotIndex rf' = snapshotIndex rf \<and> snapshotTerm rf' = snapshotTerm rf \<and>
    snapshot rf' = snapshot rf \<and> persister rf' = persister rf \<and>
    role rf' = FOLLOWER \<and> commitIndex rf' = 0 \<and> lastApplied rf' = 0 \<and> me rf' = i \<and> peers rf' = n"
proof -
  have log_eq: "\<lparr>entries = entries (rlog rf), index0 = snapshotIndex rf\<rparr> = rlog rf"
    using assms(2) by (simp add: wf_raft_def)
  from assms(1) consider (saved) "raftstate (persister rf) = stateBytes rf"
    | (fresh) "raftstate (persister rf) = []" "booted rf"
    by (auto simp: durable_def)
  then show ?thesis
  proof cases
    case saved
    with assms(1) log_eq show ?thesis
      by (simp add: Make_def Let_def ReadRaftState_def readPersist_stateBytes ReadSnapshot_def
          resetElectionTimer_def durable_snapshotData)
  next
    case fresh
    with assms(1) show ?thesis
      by (simp add: Make_def Let_def ReadRaftState_def readPersist_def ReadSnapshot_def
          resetElectionTimer_def durable_snapshotData booted_def)
  qed
qed

lemma Make_durable: "Make n i MakePersister now = Inr rf \<Longrightarrow> durable rf \<and> wf_raft rf"
  by (auto simp: Make_def Let_def ReadRaftState_def MakePersister_def readPersist_def ReadSnapshot_def
      resetElectionTimer_def durable_def booted_def wf_raft_def makeLog_def)

text \<open>The state of a peer that boots with an empty persister.\<close>

definition boot_node :: "nat \<Rightarrow> nat \<Rightarrow> ('c, 'b) Raft" where
  "boot_node n i = \<lparr>peers = n, persister = MakePersister, me = i, dead = 0, currentTerm = 0,
     votedFor = - 1, rlog = makeLog 1 0, snapshotTerm = 0, snapshotIndex = 0, snapshot = [],
     commitIndex = 0, lastApplied = 0, applierWaiting = False, nextIndex = [], matchIndex = [],
     role = FOLLOWER, leaderId = - 1, lastHeartbeat = 0, heartbeatNotify = False\<rparr>"

lemma Make_boot: "Make n i MakePersister 0 = Inr (boot_node n i)"
  by (simp add: Make_def boot_node_def Let_def ReadRaftState_def readPersist_def MakePersister_def
      ReadSnapshot_def resetElectionTimer_def)

end
