(* ===== verification/Raft_Election.thy ===== *)
theory Raft_Election
  imports Raft_Node
begin

text \<open>
  Leader election, \<^verbatim>\<open>src/raft/leader_election.go\<close>. \<^verbatim>\<open>leaderElection\<close> releases the mutex
  while it counts votes, so it is split where the code unlocks: the start of an election,
  one received reply of \<^verbatim>\<open>countVotes\<close>, and the decision after the count. Theory
  \<^verbatim>\<open>Raft_Cluster\<close> interleaves the parts; \<^verbatim>\<open>countVotes\<close> is the whole loop on the replies in
  arrival order.
\<close>

section \<open>Messages and handlers\<close>

definition ELECTION_TIMEOUT :: int where
  "ELECTION_TIMEOUT = 300"

record RequestVoteArgs =
  rvTerm :: int
  rvCandidateId :: int
  rvLastLogIndex :: int
  rvLastLogTerm :: int

record RequestVoteReply =
  rrTerm :: int
  rrVoteGranted :: bool

definition upToDate :: "RequestVoteArgs \<Rightarrow> 'c Entry \<Rightarrow> 'c Log \<Rightarrow> bool" where
  "upToDate args e l \<longleftrightarrow> rvLastLogTerm args > eTerm e \<or>
     rvLastLogTerm args = eTerm e \<and> rvLastLogIndex args \<ge> lastIndex l"

definition RequestVote ::
    "int \<Rightarrow> RequestVoteArgs \<Rightarrow> ('c, 'b) Raft \<Rightarrow> (RequestVoteReply \<times> ('c, 'b) Raft) res" where
  "RequestVote now args rf =
     (let reply = \<lparr>rrTerm = currentTerm rf, rrVoteGranted = False\<rparr> in
      if rvTerm args < currentTerm rf then Inr (reply, rf)
      else
        let rf1 = (if rvTerm args > currentTerm rf then stepDown (rvTerm args) rf else rf) in
        if votedFor rf1 = - 1 \<or> votedFor rf1 = rvCandidateId args
        then ebind (lastEntry (rlog rf1)) (\<lambda>e.
             if upToDate args e (rlog rf1)
             then Inr (reply\<lparr>rrVoteGranted := True\<rparr>,
                       persistSate (resetElectionTimer now (rf1\<lparr>votedFor := rvCandidateId args\<rparr>)))
             else Inr (reply, rf1))
        else Inr (reply, rf1))"

definition majority :: "nat \<Rightarrow> int" where
  "majority n = int (n div 2) + 1"

definition becomeLeader :: "('c, 'b) Raft \<Rightarrow> ('c, 'b) Raft" where
  "becomeLeader rf = notifyHeartbeat (rf\<lparr>leaderId := int (me rf), role := LEADER,
     nextIndex := replicate (peers rf) (lastIndex (rlog rf) + 1),
     matchIndex := replicate (peers rf) 0\<rparr>)"

definition leaderElection_start ::
    "int \<Rightarrow> ('c, 'b) Raft \<Rightarrow> (RequestVoteArgs option \<times> ('c, 'b) Raft) res" where
  "leaderElection_start now rf =
     (let rf1 = (if role rf = FOLLOWER \<and> now - lastHeartbeat rf \<ge> ELECTION_TIMEOUT
                 then rf\<lparr>role := CANDIDATE\<rparr> else rf) in
      if role rf1 = CANDIDATE \<and> now - lastHeartbeat rf1 \<ge> ELECTION_TIMEOUT
      then let rf2 = resetElectionTimer now (persistSate
                       (rf1\<lparr>currentTerm := currentTerm rf1 + 1, votedFor := int (me rf1)\<rparr>)) in
           ebind (lastEntry (rlog rf2)) (\<lambda>e.
           Inr (Some \<lparr>rvTerm = currentTerm rf2, rvCandidateId = int (me rf2),
                      rvLastLogIndex = lastIndex (rlog rf2), rvLastLogTerm = eTerm e\<rparr>, rf2))
      else Inr (None, rf1))"

definition leaderElection_finish ::
    "RequestVoteArgs \<Rightarrow> int \<Rightarrow> ('c, 'b) Raft \<Rightarrow> ('c, 'b) Raft" where
  "leaderElection_finish args votesCount rf =
     (if currentTerm rf = rvTerm args \<and> role rf = CANDIDATE \<and> votesCount \<ge> majority (peers rf)
      then becomeLeader rf else rf)"

text \<open>
  One received reply of \<^verbatim>\<open>countVotes\<close> (\<^verbatim>\<open>None\<close> is the nil reply of a failed call): the new
  count, whether the loop breaks, the peer.
\<close>

definition countVotes_reply ::
    "RequestVoteReply option \<Rightarrow> int \<Rightarrow> ('c, 'b) Raft \<Rightarrow> int \<times> bool \<times> ('c, 'b) Raft" where
  "countVotes_reply reply cnt rf =
     (case reply of
        None \<Rightarrow> (cnt, False, rf)
      | Some r \<Rightarrow>
          if rrVoteGranted r then (cnt + 1, False, rf)
          else if rrTerm r > currentTerm rf then (cnt, True, stepDown (rrTerm r) rf)
          else (cnt, False, rf))"

fun countVotes_loop ::
    "RequestVoteReply option list \<Rightarrow> int \<Rightarrow> ('c, 'b) Raft \<Rightarrow> int \<times> ('c, 'b) Raft" where
  "countVotes_loop [] cnt rf = (cnt, rf)"
| "countVotes_loop (r # rs) cnt rf =
     (if cnt < majority (peers rf)
      then case countVotes_reply r cnt rf of
             (cnt', brk, rf') \<Rightarrow> if brk then (cnt', rf') else countVotes_loop rs cnt' rf'
      else (cnt, rf))"

definition countVotes ::
    "RequestVoteReply option list \<Rightarrow> ('c, 'b) Raft \<Rightarrow> int \<times> ('c, 'b) Raft" where
  "countVotes replies rf = countVotes_loop (take (peers rf - 1) replies) 1 rf"

section \<open>Granting a vote\<close>

text \<open>The candidate's last entry is at least as up to date, as a lexicographic order.\<close>

definition log_le :: "int \<times> int \<Rightarrow> int \<times> int \<Rightarrow> bool" where
  "log_le p q \<longleftrightarrow> fst p < fst q \<or> fst p = fst q \<and> snd p \<le> snd q"

abbreviation log_pos :: "('c, 'b) Raft \<Rightarrow> int \<times> int" where
  "log_pos rf \<equiv> (eTerm (last (entries (rlog rf))), lastIndex (rlog rf))"

lemma upToDate_log_le:
  "upToDate args (last (entries l)) l \<longleftrightarrow>
     log_le (eTerm (last (entries l)), lastIndex l) (rvLastLogTerm args, rvLastLogIndex args)"
  by (auto simp: upToDate_def log_le_def)

lemma rlog_stepDown [simp]: "rlog (stepDown t rf) = rlog rf"
  by (simp add: raft_defs)

lemma RequestVote_total:
  assumes "wf_raft rf"
  shows "\<exists>reply rf'. RequestVote now args rf = Inr (reply, rf')"
  using assms by (simp add: RequestVote_def Let_def lastEntry_nonempty wf_raft_def)

lemma RequestVote_granted_conv:
  assumes "wf_raft rf" and "RequestVote now args rf = Inr (reply, rf')"
  shows "rrVoteGranted reply \<longleftrightarrow>
    (currentTerm rf < rvTerm args \<or>
     currentTerm rf = rvTerm args \<and> (votedFor rf = - 1 \<or> votedFor rf = rvCandidateId args)) \<and>
    log_le (log_pos rf) (rvLastLogTerm args, rvLastLogIndex args)"
proof -
  have ne: "entries (rlog rf) \<noteq> []" using assms(1) by (simp add: wf_raft_def)
  have voted: "votedFor (stepDown (rvTerm args) rf) = - 1" by (simp add: raft_defs)
  show ?thesis
    using assms(2) ne voted
    by (auto simp: RequestVote_def Let_def lastEntry_nonempty upToDate_log_le split: if_splits)
qed

lemma RequestVote_denied_ok:
  assumes "RequestVote now args rf = Inr (reply, rf')" and "\<not> rrVoteGranted reply"
  shows "handler_ok rf rf'"
proof -
  from assms have "rf' = rf \<or> rvTerm args > currentTerm rf \<and> rf' = stepDown (rvTerm args) rf"
    by (auto simp: RequestVote_def Let_def ebind_eq_Inr split: if_splits)
  then show ?thesis by (auto intro: handler_ok_stepDown)
qed

text \<open>What a granted vote leaves behind.\<close>

lemma RequestVote_granted_state:
  assumes "RequestVote now args rf = Inr (reply, rf')" and "rrVoteGranted reply"
  shows "currentTerm rf' = rvTerm args \<and> votedFor rf' = rvCandidateId args \<and>
    me rf' = me rf \<and> peers rf' = peers rf \<and> rlog rf' = rlog rf \<and> snapshotIndex rf' = snapshotIndex rf \<and>
    (currentTerm rf < rvTerm args \<and> role rf' = FOLLOWER \<or>
     currentTerm rf = rvTerm args \<and> role rf' = role rf \<and>
       (votedFor rf = - 1 \<or> votedFor rf = rvCandidateId args)) \<and>
    (durable rf \<longrightarrow> durable rf')"
proof -
  let ?rf1 = "if rvTerm args > currentTerm rf then stepDown (rvTerm args) rf else rf"
  from assms have ge: "\<not> rvTerm args < currentTerm rf"
    and vote: "votedFor ?rf1 = - 1 \<or> votedFor ?rf1 = rvCandidateId args"
    and rf': "rf' = persistSate (resetElectionTimer now (?rf1\<lparr>votedFor := rvCandidateId args\<rparr>))"
    by (auto simp: RequestVote_def Let_def ebind_eq_Inr split: if_splits)
  have "durable rf'" if "durable rf"
    using that unfolding rf'
    by (intro durable_persistSate) (simp add: raft_defs durable_snapshotData)
  with ge vote show ?thesis
    by (auto simp: rf' raft_defs)
qed

lemma RequestVote_granted_wf:
  assumes "RequestVote now args rf = Inr (reply, rf')" and "rrVoteGranted reply" and "wf_raft rf"
  shows "wf_raft rf'"
  using RequestVote_granted_state [OF assms(1,2)] assms(3) by (auto intro: wf_raft_frame)

section \<open>Elections\<close>

lemma leaderElection_start_Some:
  assumes "leaderElection_start now rf = Inr (Some args, rf')"
  shows "currentTerm rf' = currentTerm rf + 1 \<and> rvTerm args = currentTerm rf' \<and>
    votedFor rf' = int (me rf) \<and> rvCandidateId args = int (me rf) \<and> role rf' = CANDIDATE \<and>
    role rf \<noteq> LEADER \<and> ELECTION_TIMEOUT \<le> now - lastHeartbeat rf \<and>
    me rf' = me rf \<and> peers rf' = peers rf \<and> rlog rf' = rlog rf \<and> snapshotIndex rf' = snapshotIndex rf \<and>
    (durable rf \<longrightarrow> durable rf')"
proof -
  let ?rf1 = "if role rf = FOLLOWER \<and> now - lastHeartbeat rf \<ge> ELECTION_TIMEOUT
                 then rf\<lparr>role := CANDIDATE\<rparr> else rf"
  let ?rf2 = "resetElectionTimer now (persistSate
                (?rf1\<lparr>currentTerm := currentTerm ?rf1 + 1, votedFor := int (me ?rf1)\<rparr>))"
  from assms have c: "role ?rf1 = CANDIDATE" "now - lastHeartbeat rf \<ge> ELECTION_TIMEOUT"
    and rf': "rf' = ?rf2"
    and args: "rvTerm args = currentTerm ?rf2" "rvCandidateId args = int (me ?rf2)"
    by (auto simp: leaderElection_start_def Let_def ebind_eq_Inr split: if_splits)
  have "durable ?rf2" if "durable rf"
    using that unfolding resetElectionTimer_def
    by (intro durable_frame [OF durable_persistSate]) (simp_all add: durable_snapshotData)
  with c args show ?thesis
    by (auto simp: rf' raft_defs split: if_splits)
qed

lemma leaderElection_start_None:
  assumes "leaderElection_start now rf = Inr (None, rf')"
  shows "rf' = rf"
  using assms by (auto simp: leaderElection_start_def Let_def ebind_eq_Inr split: if_splits)

lemma leaderElection_start_total:
  assumes "wf_raft rf"
  shows "\<exists>r. leaderElection_start now rf = Inr r"
  using assms by (simp add: leaderElection_start_def Let_def raft_defs lastEntry_nonempty wf_raft_def)

lemma countVotes_reply_ok:
  assumes "countVotes_reply reply cnt rf = (cnt', brk, rf')"
  shows "handler_ok rf rf'"
  using assms
  by (auto simp: countVotes_reply_def split: option.splits if_splits intro: handler_ok_stepDown)

lemma countVotes_reply_count:
  assumes "countVotes_reply reply cnt rf = (cnt', brk, rf')"
  shows "cnt' = (if \<exists>r. reply = Some r \<and> rrVoteGranted r then cnt + 1 else cnt)"
  using assms by (auto simp: countVotes_reply_def split: option.splits if_splits)

lemma becomeLeader_frame:
  "me (becomeLeader rf) = me rf \<and> peers (becomeLeader rf) = peers rf \<and>
   currentTerm (becomeLeader rf) = currentTerm rf \<and> votedFor (becomeLeader rf) = votedFor rf \<and>
   role (becomeLeader rf) = LEADER \<and> rlog (becomeLeader rf) = rlog rf \<and>
   snapshotIndex (becomeLeader rf) = snapshotIndex rf \<and>
   (durable rf \<longrightarrow> durable (becomeLeader rf)) \<and> (wf_raft rf \<longrightarrow> wf_raft (becomeLeader rf))"
  by (auto simp: becomeLeader_def raft_defs wf_raft_def intro: durable_frame)

section \<open>Counting votes\<close>

definition grants :: "RequestVoteReply option list \<Rightarrow> nat" where
  "grants rs = length (filter (\<lambda>r. case r of Some x \<Rightarrow> rrVoteGranted x | None \<Rightarrow> False) rs)"

lemma grants_simps [simp]:
  "grants [] = 0"
  "grants (r # rs) = (if \<exists>x. r = Some x \<and> rrVoteGranted x then Suc (grants rs) else grants rs)"
  by (auto simp: grants_def split: option.splits)

lemma countVotes_loop_bounds:
  "countVotes_loop rs cnt rf = (n, rf') \<Longrightarrow> cnt \<le> n \<and> n \<le> cnt + int (grants rs)"
proof (induction rs cnt rf rule: countVotes_loop.induct)
  case (1 cnt rf)
  then show ?case by simp
next
  case (2 r rs cnt rf)
  show ?case
  proof (cases "cnt < majority (peers rf)")
    case True
    obtain c' b r' where s: "countVotes_reply r cnt rf = (c', b, r')"
      by (cases "countVotes_reply r cnt rf") auto
    note c = countVotes_reply_count [OF s]
    show ?thesis
    proof (cases b)
      case True
      with "2.prems" s c \<open>cnt < majority (peers rf)\<close> show ?thesis by (auto split: if_splits)
    next
      case False
      with "2.prems" s \<open>cnt < majority (peers rf)\<close> have "countVotes_loop rs c' r' = (n, rf')"
        by simp
      with "2.IH" [OF True s [symmetric] refl False] c show ?thesis
        by (auto split: if_splits)
    qed
  next
    case False
    with "2.prems" show ?thesis by simp
  qed
qed

text \<open>
  A full round without a higher term: the loop reports a majority exactly when a majority
  of all peers, the candidate included, granted their vote.
\<close>

lemma countVotes_loop_exact:
  assumes "\<forall>r \<in> set rs. \<forall>x. r = Some x \<longrightarrow> rrVoteGranted x \<or> rrTerm x \<le> currentTerm rf"
  shows "countVotes_loop rs cnt rf = (if cnt < majority (peers rf)
    then min (majority (peers rf)) (cnt + int (grants rs)) else cnt, rf)"
  using assms
proof (induction rs arbitrary: cnt)
  case Nil
  then show ?case by simp
next
  case (Cons r rs)
  then have IH: "\<And>c. countVotes_loop rs c rf = (if c < majority (peers rf)
    then min (majority (peers rf)) (c + int (grants rs)) else c, rf)"
    by simp
  show ?case
    using Cons.prems by (auto simp: countVotes_reply_def IH split: option.splits)
qed

section \<open>Properties\<close>

text \<open>
  When a vote is granted. On a well-formed peer \<^verbatim>\<open>RequestVote\<close> never panics. It grants
  the vote exactly when the candidate's term is newer, or is the current one and the peer
  has not voted for anyone else in it, and the candidate's last log position (term, then
  index) is not behind the peer's. A granted vote is recorded for the candidate's term, in
  memory and on stable storage, before the reply.
\<close>

theorem request_vote_decides:
  assumes wf: "wf_raft rf" and dur: "durable rf"
  shows "\<exists>reply rf'. RequestVote now args rf = Inr (reply, rf') \<and> durable rf' \<and> rlog rf' = rlog rf \<and>
    (rrVoteGranted reply \<longleftrightarrow>
      (currentTerm rf < rvTerm args \<or>
       currentTerm rf = rvTerm args \<and> (votedFor rf = - 1 \<or> votedFor rf = rvCandidateId args)) \<and>
      log_le (log_pos rf) (rvLastLogTerm args, rvLastLogIndex args)) \<and>
    (rrVoteGranted reply \<longrightarrow> currentTerm rf' = rvTerm args \<and> votedFor rf' = rvCandidateId args \<and>
      take 2 (raftstate (persister rf')) = [PInt (rvTerm args), PInt (rvCandidateId args)])"
proof -
  obtain reply rf' where rv: "RequestVote now args rf = Inr (reply, rf')" using RequestVote_total [OF wf] by blast
  have log: "rlog rf' = rlog rf"
    using rv by (auto simp: RequestVote_def Let_def ebind_eq_Inr raft_defs split: if_splits)
  have saved: "take 2 (raftstate (persister rf')) = [PInt (rvTerm args), PInt (rvCandidateId args)]"
    if "rrVoteGranted reply"
    using rv that by (auto simp: RequestVote_def Let_def ebind_eq_Inr raft_defs stateBytes_def split: if_splits)
  show ?thesis
  proof (cases "rrVoteGranted reply")
    case True
    then show ?thesis
      using rv log saved RequestVote_granted_state [OF rv True] RequestVote_granted_conv [OF wf rv] dur by blast
  next
    case False
    then show ?thesis
      using rv log RequestVote_denied_ok [OF rv False] RequestVote_granted_conv [OF wf rv] dur
      by (auto simp: handler_ok_def)
  qed
qed

theorem request_vote_decides_witness:
  "\<exists>reply rf'. RequestVote 5 \<lparr>rvTerm = 1, rvCandidateId = 2, rvLastLogIndex = 0, rvLastLogTerm = 0\<rparr>
     (boot_node 3 0 :: (nat, nat) Raft) = Inr (reply, rf') \<and> rrVoteGranted reply \<and> votedFor rf' = 2"
proof -
  have "durable (boot_node 3 0 :: (nat, nat) Raft) \<and> wf_raft (boot_node 3 0 :: (nat, nat) Raft)"
    using Make_durable [OF Make_boot] .
  then show ?thesis
    using request_vote_decides [of "boot_node 3 0 :: (nat, nat) Raft" 5
      "\<lparr>rvTerm = 1, rvCandidateId = 2, rvLastLogIndex = 0, rvLastLogTerm = 0\<rparr>"]
    by (auto simp: boot_node_def log_le_def makeLog_def zeroEntry_def lastIndex_def)
qed

end
