(* ===== verification/Raft_Replication.thy ===== *)
theory Raft_Replication
  imports Raft_Election
begin

text \<open>
  Log replication, \<^verbatim>\<open>src/raft/log_replication.go\<close> (and \<^verbatim>\<open>Min\<close>, \<^verbatim>\<open>Max\<close> of \<^verbatim>\<open>util.go\<close>): the
  two follower handlers, the leader's handling of a reply, the messages of one heartbeat
  round, and the commit rules. The handler of a reply is the part of
  \<^verbatim>\<open>sendAppendEntries\<close>/\<^verbatim>\<open>sendInstallSnapshot\<close> after \<^verbatim>\<open>Call\<close> returned true; a lost message
  changes nothing.
\<close>

section \<open>Messages\<close>

record 'c AppendEntriesArgs =
  aeTerm :: int
  aeLeaderId :: int
  aePrevLogIndex :: int
  aePrevLogTerm :: int
  aeEntries :: "'c Entry list"
  aeLeaderCommitIndex :: int

record AppendEntriesReply =
  arTerm :: int
  arConflictTerm :: int
  arConflictIndex :: int
  arSuccess :: bool

record 'b InstallSnapshotArgs =
  isTerm :: int
  isLeaderId :: int
  isLastIncludedIndex :: int
  isLastIncludedTerm :: int
  isData :: "'b list"

record InstallSnapshotReply =
  irTerm :: int

datatype ('c, 'b) leader_msg = MInstall "'b InstallSnapshotArgs" | MAppend "'c AppendEntriesArgs"

definition Min_go :: "int \<Rightarrow> int \<Rightarrow> int" where
  "Min_go a b = (if a < b then a else b)"

definition Max_go :: "int \<Rightarrow> int \<Rightarrow> int" where
  "Max_go a b = (if a > b then a else b)"

lemma Min_go_min [simp]: "Min_go a b = min a b"
  by (simp add: Min_go_def)

lemma Max_go_max [simp]: "Max_go a b = max a b"
  by (simp add: Max_go_def)

section \<open>Follower handlers\<close>

definition followerCommit :: "int \<Rightarrow> ('c, 'b) Raft \<Rightarrow> ('c, 'b) Raft" where
  "followerCommit leaderCommitIndex rf =
     (if leaderCommitIndex > commitIndex rf
      then applyBroadcast (rf\<lparr>commitIndex := Min_go leaderCommitIndex (lastIndex (rlog rf))\<rparr>)
      else rf)"

text \<open>The part of \<^verbatim>\<open>AppendEntries\<close> after the term check: match, reject or append.\<close>

definition AppendEntries_match ::
    "'c AppendEntriesArgs \<Rightarrow> AppendEntriesReply \<Rightarrow> ('c, 'b) Raft \<Rightarrow>
     (AppendEntriesReply \<times> ('c, 'b) Raft) res" where
  "AppendEntries_match args reply rf =
     (if aePrevLogIndex args > lastIndex (rlog rf)
      then ebind (lastEntry (rlog rf)) (\<lambda>e.
           Inr (reply\<lparr>arConflictTerm := eTerm e, arConflictIndex := lastIndex (rlog rf),
                      arSuccess := False\<rparr>, rf))
      else if aePrevLogIndex args < snapshotIndex rf
      then let i = snapshotIndex rf - aePrevLogIndex args - 1 in
           if int (length (aeEntries args)) > i
           then ebind (nth_go (aeEntries args) i) (\<lambda>e.
                ebind (assert_go (eTerm e = snapshotTerm rf)) (\<lambda>_.
                ebind (slice_from (aeEntries args) i) (\<lambda>a.
                ebind (place (snapshotIndex rf) a (rlog rf)) (\<lambda>l.
                Inr (reply\<lparr>arSuccess := True\<rparr>,
                     followerCommit (aeLeaderCommitIndex args) (persistSate (rf\<lparr>rlog := l\<rparr>)))))))
           else Inr (reply\<lparr>arSuccess := True\<rparr>, rf)
      else ebind (entry (aePrevLogIndex args) (rlog rf)) (\<lambda>e.
           if eTerm e \<noteq> aePrevLogTerm args
           then ebind (cutOffTail (aePrevLogIndex args) (rlog rf)) (\<lambda>l.
                Inr (reply\<lparr>arConflictTerm := eTerm e, arConflictIndex := aePrevLogIndex args,
                           arSuccess := False\<rparr>, persistSate (rf\<lparr>rlog := l\<rparr>)))
           else ebind (place (aePrevLogIndex args + 1) (aeEntries args) (rlog rf)) (\<lambda>l.
                Inr (reply\<lparr>arSuccess := True\<rparr>,
                     followerCommit (aeLeaderCommitIndex args) (persistSate (rf\<lparr>rlog := l\<rparr>))))))"

text \<open>\<^verbatim>\<open>AppendEntries\<close> and \<^verbatim>\<open>InstallSnapshot\<close> share the way a current leader is recognised.\<close>

definition acknowledge :: "int \<Rightarrow> int \<Rightarrow> int \<Rightarrow> ('c, 'b) Raft \<Rightarrow> ('c, 'b) Raft" where
  "acknowledge now t leader rf =
     (let rf1 = (resetElectionTimer now rf)\<lparr>leaderId := leader\<rparr> in
      if t > currentTerm rf1 \<or> role rf1 = CANDIDATE then stepDown t rf1 else rf1)"

definition AppendEntries ::
    "int \<Rightarrow> 'c AppendEntriesArgs \<Rightarrow> ('c, 'b) Raft \<Rightarrow> (AppendEntriesReply \<times> ('c, 'b) Raft) res" where
  "AppendEntries now args rf =
     (let reply = \<lparr>arTerm = currentTerm rf, arConflictTerm = 0, arConflictIndex = 0, arSuccess = False\<rparr> in
      if aeTerm args < currentTerm rf then Inr (reply, rf)
      else AppendEntries_match args reply (acknowledge now (aeTerm args) (aeLeaderId args) rf))"

definition InstallSnapshot ::
    "int \<Rightarrow> 'b InstallSnapshotArgs \<Rightarrow> ('c, 'b) Raft \<Rightarrow> (InstallSnapshotReply \<times> ('c, 'b) Raft) res" where
  "InstallSnapshot now args rf =
     (let reply = \<lparr>irTerm = currentTerm rf\<rparr> in
      if isTerm args < currentTerm rf then Inr (reply, rf)
      else
        let rf1 = acknowledge now (isTerm args) (isLeaderId args) rf in
        if snapshotIndex rf1 \<ge> isLastIncludedIndex args \<or> lastApplied rf1 \<ge> isLastIncludedIndex args
        then Inr (reply, rf1)
        else ebind (if lastIndex (rlog rf1) > isLastIncludedIndex args
                    then cutOffHead (isLastIncludedIndex args) (rlog rf1)
                    else Inr \<lparr>entries = [\<lparr>eTerm = isLastIncludedTerm args, eCommand = None\<rparr>],
                              index0 = isLastIncludedIndex args\<rparr>) (\<lambda>l.
             Inr (reply, applyBroadcast (persist
               (rf1\<lparr>rlog := l, snapshotIndex := isLastIncludedIndex args,
                    snapshotTerm := isLastIncludedTerm args, snapshot := isData args\<rparr>)))))"

section \<open>Leader: commit\<close>

definition getSortedMatchIndex :: "('c, 'b) Raft \<Rightarrow> int list res" where
  "getSortedMatchIndex rf =
     ebind (upd_go (matchIndex rf) (int (me rf)) (lastIndex (rlog rf))) (\<lambda>m. Inr (sort m))"

definition leaderCommit :: "('c, 'b) Raft \<Rightarrow> ('c, 'b) Raft res" where
  "leaderCommit rf =
     ebind (getSortedMatchIndex rf) (\<lambda>serverMatchedIndex.
     ebind (nth_go serverMatchedIndex ((int (length (matchIndex rf)) + 1) div 2 - 1)) (\<lambda>commitIndex'.
     if commitIndex' \<le> snapshotIndex rf then Inr rf
     else ebind (entry commitIndex' (rlog rf)) (\<lambda>e.
          ebind (nth_go serverMatchedIndex 0) (\<lambda>m0.
          if (eTerm e = currentTerm rf \<or> commitIndex' = m0) \<and> commitIndex' > commitIndex rf
          then Inr (applyBroadcast (rf\<lparr>commitIndex := commitIndex'\<rparr>))
          else Inr rf))))"

section \<open>Leader: replies\<close>

definition sendInstallSnapshot_reply ::
    "nat \<Rightarrow> 'b InstallSnapshotArgs \<Rightarrow> InstallSnapshotReply \<Rightarrow> ('c, 'b) Raft \<Rightarrow> ('c, 'b) Raft res" where
  "sendInstallSnapshot_reply server args reply rf =
     (if isTerm args \<noteq> currentTerm rf then Inr rf
      else if irTerm reply > currentTerm rf then Inr (stepDown (irTerm reply) rf)
      else ebind (nth_go (matchIndex rf) (int server)) (\<lambda>m.
           if m < isLastIncludedIndex args
           then ebind (upd_go (matchIndex rf) (int server) (isLastIncludedIndex args)) (\<lambda>mi.
                ebind (upd_go (nextIndex rf) (int server) (isLastIncludedIndex args + 1)) (\<lambda>ni.
                Inr (rf\<lparr>matchIndex := mi, nextIndex := ni\<rparr>)))
           else Inr rf))"

text \<open>The loop that steps over all entries with the conflicting term.\<close>

lemma ebind_cong [fundef_cong]:
  "m = m' \<Longrightarrow> (\<And>x. m' = Inr x \<Longrightarrow> f x = f' x) \<Longrightarrow> ebind m f = ebind m' f'"
  by (cases m') simp_all

function stepOver :: "'c Log \<Rightarrow> int \<Rightarrow> int \<Rightarrow> int res" where
  "stepOver l t n =
     ebind (entry n l) (\<lambda>e. if eTerm e = t \<and> n > log_start l then stepOver l t (n - 1) else Inr n)"
  by pat_completeness auto
termination
  by (relation "measure (\<lambda>(l, t, n). nat (n - log_start l))") auto

declare stepOver.simps [simp del]

definition rollBack :: "AppendEntriesReply \<Rightarrow> ('c, 'b) Raft \<Rightarrow> int res" where
  "rollBack reply rf =
     (if arConflictIndex reply < snapshotIndex rf then Inr (arConflictIndex reply + 1)
      else ebind (entry (arConflictIndex reply) (rlog rf)) (\<lambda>e.
           if eTerm e = arConflictTerm reply then Inr (arConflictIndex reply + 1)
           else ebind (stepOver (rlog rf) (eTerm e) (arConflictIndex reply)) (\<lambda>n. Inr (n + 1))))"

definition sendAppendEntries_reply ::
    "nat \<Rightarrow> 'c AppendEntriesArgs \<Rightarrow> AppendEntriesReply \<Rightarrow> ('c, 'b) Raft \<Rightarrow> ('c, 'b) Raft res" where
  "sendAppendEntries_reply server args reply rf =
     (if aeTerm args \<noteq> currentTerm rf \<or> role rf \<noteq> LEADER then Inr rf
      else if arSuccess reply
      then let matchIndex' = aePrevLogIndex args + int (length (aeEntries args)) in
           ebind (nth_go (matchIndex rf) (int server)) (\<lambda>m.
           ebind (if m < matchIndex'
                  then ebind (upd_go (matchIndex rf) (int server) matchIndex') (\<lambda>mi.
                       leaderCommit (rf\<lparr>matchIndex := mi\<rparr>))
                  else Inr rf) (\<lambda>rf1.
           ebind (nth_go (matchIndex rf1) (int server)) (\<lambda>m1.
           ebind (upd_go (nextIndex rf1) (int server) (m1 + 1)) (\<lambda>ni.
           Inr (rf1\<lparr>nextIndex := ni\<rparr>)))))
      else if arTerm reply > currentTerm rf then Inr (stepDown (arTerm reply) rf)
      else ebind (rollBack reply rf) (\<lambda>newNextIndex.
           ebind (nth_go (matchIndex rf) (int server)) (\<lambda>m.
           ebind (upd_go (nextIndex rf) (int server) (Max_go (m + 1) newNextIndex)) (\<lambda>ni.
           Inr (rf\<lparr>nextIndex := ni\<rparr>)))))"

section \<open>Leader: one heartbeat round\<close>

definition leader_message :: "nat \<Rightarrow> ('c, 'b) Raft \<Rightarrow> ('c, 'b) leader_msg res" where
  "leader_message peerId rf =
     ebind (nth_go (nextIndex rf) (int peerId)) (\<lambda>ni.
     ebind (nth_go (matchIndex rf) (int peerId)) (\<lambda>mi.
     let prevLogIndex = ni - 1 in
     ebind (assert_go (mi \<le> prevLogIndex)) (\<lambda>_.
     if prevLogIndex < snapshotIndex rf
     then Inr (MInstall \<lparr>isTerm = currentTerm rf, isLeaderId = int (me rf),
                 isLastIncludedIndex = snapshotIndex rf, isLastIncludedTerm = snapshotTerm rf,
                 isData = snapshot rf\<rparr>)
     else ebind (entry prevLogIndex (rlog rf)) (\<lambda>e.
          ebind (log_slice (prevLogIndex + 1) (rlog rf)) (\<lambda>es.
          Inr (MAppend \<lparr>aeTerm = currentTerm rf, aeLeaderId = int (me rf),
                 aePrevLogIndex = prevLogIndex, aePrevLogTerm = eTerm e, aeEntries = es,
                 aeLeaderCommitIndex = commitIndex rf\<rparr>))))))"

fun leaderLogReplication_from ::
    "nat list \<Rightarrow> ('c, 'b) Raft \<Rightarrow> (nat \<times> ('c, 'b) leader_msg) list res" where
  "leaderLogReplication_from [] rf = Inr []"
| "leaderLogReplication_from (p # ps) rf =
     (if p = me rf then leaderLogReplication_from ps rf
      else ebind (leader_message p rf) (\<lambda>m.
           ebind (leaderLogReplication_from ps rf) (\<lambda>ms. Inr ((p, m) # ms))))"

definition leaderLogReplication :: "('c, 'b) Raft \<Rightarrow> (nat \<times> ('c, 'b) leader_msg) list res" where
  "leaderLogReplication rf = leaderLogReplication_from [0..<peers rf] rf"

text \<open>
  One turn of the \<^verbatim>\<open>leaderHeartbeats\<close> goroutine after its \<^verbatim>\<open>select\<close> (on the notification if
  \<^verbatim>\<open>notified\<close>, else on the timer): the messages sent, or \<^verbatim>\<open>None\<close> when the loop ends.
\<close>

definition leaderHeartbeats_turn ::
    "bool \<Rightarrow> ('c, 'b) Raft \<Rightarrow> ((nat \<times> ('c, 'b) leader_msg) list option \<times> ('c, 'b) Raft) res" where
  "leaderHeartbeats_turn notified rf =
     (let rf1 = (if notified then rf\<lparr>heartbeatNotify := False\<rparr> else rf) in
      if role rf1 = LEADER
      then ebind (leaderLogReplication rf1) (\<lambda>ms. Inr (Some ms, rf1))
      else Inr (None, rf1))"

end
