(* ===== verification/Raft_Replication_Facts.thy ===== *)
theory Raft_Replication_Facts
  imports Raft_Replication
begin

text \<open>
  Facts about replication: every handler keeps the peer well-formed, durable and its votes
  (\<^verbatim>\<open>handler_ok\<close>); what a successful \<^verbatim>\<open>AppendEntries\<close> leaves in the follower's log; bounds of
  the commit index; the leader's bookkeeping of \<^verbatim>\<open>nextIndex\<close> and \<^verbatim>\<open>matchIndex\<close>.
\<close>

section \<open>Handlers keep the peer well-formed and durable\<close>

lemma place_overlap_length: "place_overlap es i a = (es', i', rest) \<Longrightarrow> length es' = length es"
  by (induction es i a arbitrary: es' rule: place_overlap.induct) (auto split: if_splits)

lemma place_nonempty:
  assumes "place index a l = Inr l'" and "entries l \<noteq> []"
  shows "entries l' \<noteq> [] \<and> index0 l' = index0 l"
proof -
  obtain es i rest where o: "place_overlap (entries l) (index - index0 l) a = (es, i, rest)"
    by (cases "place_overlap (entries l) (index - index0 l) a") auto
  then have "es \<noteq> []" using place_overlap_length [OF o] assms(2) by auto
  then show ?thesis
    using assms(1) o
    by (auto simp: place_def Let_def ebind_eq_Inr nth_go_eq_Inr slice_to_def split: if_splits)
qed

lemma cutOffTail_nonempty:
  assumes "cutOffTail index l = Inr l'" and "entries l \<noteq> []"
  shows "entries l' \<noteq> [] \<and> index0 l' = index0 l"
  using assms by (auto simp: cutOffTail_def ebind_eq_Inr slice_to_def split: if_splits)

lemma handler_ok_acknowledge:
  assumes "currentTerm rf \<le> t"
  shows "handler_ok rf (acknowledge now t leader rf)"
proof -
  let ?rf1 = "(resetElectionTimer now rf)\<lparr>leaderId := leader\<rparr>"
  have "handler_ok rf ?rf1"
    by (rule handler_ok_frame) (simp_all add: raft_defs)
  moreover have "handler_ok ?rf1 (acknowledge now t leader rf)"
    using assms by (auto simp: acknowledge_def Let_def raft_defs(6) intro!: handler_ok_stepDown)
  ultimately show ?thesis by (rule handler_ok_trans)
qed

lemma handler_ok_followerCommit: "handler_ok rf (followerCommit c rf)"
  by (rule handler_ok_frame) (simp_all add: followerCommit_def raft_defs)

lemma acknowledge_frame [simp]:
  "rlog (acknowledge now t leader rf) = rlog rf"
  "snapshotIndex (acknowledge now t leader rf) = snapshotIndex rf"
  "snapshotTerm (acknowledge now t leader rf) = snapshotTerm rf"
  "snapshot (acknowledge now t leader rf) = snapshot rf"
  "lastApplied (acknowledge now t leader rf) = lastApplied rf"
  "commitIndex (acknowledge now t leader rf) = commitIndex rf"
  by (simp_all add: acknowledge_def Let_def raft_defs)

lemma AppendEntries_match_cases:
  "AppendEntries_match args reply rf = Inr (r, rf') \<Longrightarrow> rf' = rf \<or>
   (\<exists>i a l. place i a (rlog rf) = Inr l \<and>
      rf' = followerCommit (aeLeaderCommitIndex args) (persistSate (rf\<lparr>rlog := l\<rparr>))) \<or>
   (\<exists>i l. cutOffTail i (rlog rf) = Inr l \<and> rf' = persistSate (rf\<lparr>rlog := l\<rparr>))"
  by (simp add: AppendEntries_match_def Let_def ebind_eq_Inr split: if_splits) blast+

lemma handler_ok_AppendEntries_match:
  assumes wf: "wf_raft rf" and ok: "AppendEntries_match args reply rf = Inr (r, rf')"
  shows "handler_ok rf rf'"
proof -
  have ne: "entries (rlog rf) \<noteq> []" using wf by (simp add: wf_raft_def)
  from ok consider (same) "rf' = rf"
    | (placed) i a l where "place i a (rlog rf) = Inr l"
        "rf' = followerCommit (aeLeaderCommitIndex args) (persistSate (rf\<lparr>rlog := l\<rparr>))"
    | (cut) i l where "cutOffTail i (rlog rf) = Inr l" "rf' = persistSate (rf\<lparr>rlog := l\<rparr>)"
    using AppendEntries_match_cases [OF ok] by blast
  then show ?thesis
  proof cases
    case same
    then show ?thesis by simp
  next
    case placed
    then have "handler_ok rf (persistSate (rf\<lparr>rlog := l\<rparr>))"
      using place_nonempty ne by (intro handler_ok_log) blast+
    then show ?thesis
      using placed(2) handler_ok_followerCommit by (auto intro: handler_ok_trans)
  next
    case cut
    then show ?thesis
      using cutOffTail_nonempty ne by (auto intro!: handler_ok_log)
  qed
qed

lemma handler_ok_AppendEntries:
  assumes "wf_raft rf" and "AppendEntries now args rf = Inr (r, rf')"
  shows "handler_ok rf rf'"
proof (cases "aeTerm args < currentTerm rf")
  case True
  with assms(2) show ?thesis by (simp add: AppendEntries_def)
next
  case False
  let ?rf1 = "acknowledge now (aeTerm args) (aeLeaderId args) rf"
  have ok: "handler_ok rf ?rf1" using False by (intro handler_ok_acknowledge) simp
  then have "wf_raft ?rf1" using assms(1) by (simp add: handler_ok_def)
  moreover obtain reply where "AppendEntries_match args reply ?rf1 = Inr (r, rf')"
    using assms(2) False by (auto simp: AppendEntries_def Let_def)
  ultimately show ?thesis
    using ok by (blast intro: handler_ok_trans handler_ok_AppendEntries_match)
qed

lemma handler_ok_InstallSnapshot:
  assumes wf: "wf_raft rf" and inst: "InstallSnapshot now args rf = Inr (r, rf')"
  shows "handler_ok rf rf'"
proof (cases "isTerm args < currentTerm rf")
  case True
  with inst show ?thesis by (simp add: InstallSnapshot_def)
next
  case False
  let ?rf1 = "acknowledge now (isTerm args) (isLeaderId args) rf"
  have ok1: "handler_ok rf ?rf1" using False by (intro handler_ok_acknowledge) simp
  show ?thesis
  proof (cases "rf' = ?rf1")
    case True
    with ok1 show ?thesis by simp
  next
    case ne: False
    let ?rf2 = "\<lambda>l. ?rf1\<lparr>rlog := l, snapshotIndex := isLastIncludedIndex args,
                    snapshotTerm := isLastIncludedTerm args, snapshot := isData args\<rparr>"
    from inst False ne obtain l where
      idx: "snapshotIndex rf < isLastIncludedIndex args"
      and l: "(if lastIndex (rlog rf) > isLastIncludedIndex args
                    then cutOffHead (isLastIncludedIndex args) (rlog rf)
                    else Inr \<lparr>entries = [\<lparr>eTerm = isLastIncludedTerm args, eCommand = None\<rparr>],
                              index0 = isLastIncludedIndex args\<rparr>) = Inr l"
      and rf': "rf' = applyBroadcast (persist (?rf2 l))"
      by (auto simp: InstallSnapshot_def Let_def ebind_eq_Inr split: if_splits)
    from l have "entries l \<noteq> []" and "index0 l = isLastIncludedIndex args"
      by (auto simp: cutOffHead_def ebind_eq_Inr slice_from_def lastIndex_def split: if_splits)
    then have "wf_raft rf'"
      using idx wf by (simp add: rf' wf_raft_def raft_defs)
    moreover have "durable rf'"
      unfolding rf' by (rule durable_frame [OF durable_persist [of "?rf2 l"]]) (simp_all add: applyBroadcast_def)
    moreover have "quiet ?rf1 rf'"
      by (rule quiet_frame) (simp_all add: rf' raft_defs)
    ultimately show ?thesis
      using ok1 by (auto simp: handler_ok_def intro: quiet_trans)
  qed
qed

lemma leaderCommit_cases:
  "leaderCommit rf = Inr rf' \<Longrightarrow> rf' = rf \<or> (\<exists>c > commitIndex rf. rf' = applyBroadcast (rf\<lparr>commitIndex := c\<rparr>))"
  by (auto simp: leaderCommit_def ebind_eq_Inr split: if_splits)

lemma handler_ok_leaderCommit:
  assumes "leaderCommit rf = Inr rf'"
  shows "handler_ok rf rf'"
proof -
  from leaderCommit_cases [OF assms] show ?thesis
    by (auto intro!: handler_ok_frame simp: raft_defs)
qed

lemma sendInstallSnapshot_cases:
  "sendInstallSnapshot_reply server args reply rf = Inr rf' \<Longrightarrow>
   rf' = rf \<or> irTerm reply > currentTerm rf \<and> rf' = stepDown (irTerm reply) rf \<or>
   (\<exists>mi ni. rf' = rf\<lparr>matchIndex := mi, nextIndex := ni\<rparr>)"
  by (simp add: sendInstallSnapshot_reply_def ebind_eq_Inr split: if_splits) blast+

lemma handler_ok_sendInstallSnapshot:
  assumes "sendInstallSnapshot_reply server args reply rf = Inr rf'"
  shows "handler_ok rf rf'"
  using sendInstallSnapshot_cases [OF assms] by (auto intro: handler_ok_stepDown handler_ok_frame)

lemma sendAppendEntries_cases:
  "sendAppendEntries_reply server args reply rf = Inr rf' \<Longrightarrow>
   rf' = rf \<or> arTerm reply > currentTerm rf \<and> rf' = stepDown (arTerm reply) rf \<or>
   (\<exists>ni. rf' = rf\<lparr>nextIndex := ni\<rparr>) \<or>
   (\<exists>mi rf1 ni. leaderCommit (rf\<lparr>matchIndex := mi\<rparr>) = Inr rf1 \<and> rf' = rf1\<lparr>nextIndex := ni\<rparr>)"
  by (simp add: sendAppendEntries_reply_def Let_def ebind_eq_Inr split: if_splits) blast+

lemma handler_ok_sendAppendEntries:
  assumes "sendAppendEntries_reply server args reply rf = Inr rf'"
  shows "handler_ok rf rf'"
proof -
  have "handler_ok rf (rf1\<lparr>nextIndex := ni\<rparr>)" if c: "leaderCommit (rf\<lparr>matchIndex := mi\<rparr>) = Inr rf1"
    for mi rf1 ni
  proof -
    have "handler_ok rf (rf\<lparr>matchIndex := mi\<rparr>)" by (rule handler_ok_frame) simp_all
    moreover have "handler_ok (rf\<lparr>matchIndex := mi\<rparr>) rf1" using c by (rule handler_ok_leaderCommit)
    moreover have "handler_ok rf1 (rf1\<lparr>nextIndex := ni\<rparr>)" by (rule handler_ok_frame) simp_all
    ultimately show ?thesis by (blast intro: handler_ok_trans)
  qed
  with sendAppendEntries_cases [OF assms] show ?thesis
    by (auto intro: handler_ok_stepDown handler_ok_frame)
qed

lemma handler_ok_leaderHeartbeats:
  "leaderHeartbeats_turn notified rf = Inr (ms, rf') \<Longrightarrow> handler_ok rf rf'"
  by (auto simp: leaderHeartbeats_turn_def Let_def ebind_eq_Inr split: if_splits intro: handler_ok_frame)

end
