(* ===== verification/Raft_Follower.thy ===== *)
theory Raft_Follower
  imports Raft_Replication_Facts
begin

text \<open>
  The follower side of replication: the three outcomes of \<^verbatim>\<open>AppendEntries\<close> in closed form,
  what a successful call leaves in the log, that terms stay sorted along the log, how far
  the follower commits, and what \<^verbatim>\<open>InstallSnapshot\<close> does to a log whose entry at the
  snapshot index belongs to another leader.
\<close>

section \<open>Reading the result of place\<close>

lemma length_place_result: "k \<le> length es \<Longrightarrow> k + length a \<le> length (place_result k a es)"
  by (simp add: place_result_def Let_def placed_def)

lemma place_result_old: "i < k \<Longrightarrow> k \<le> length es \<Longrightarrow> place_result k a es ! i = es ! i"
  by (simp add: place_result_def Let_def placed_def nth_append)

lemma place_result_new: "j < length a \<Longrightarrow> k \<le> length es \<Longrightarrow> place_result k a es ! (k + j) = a ! j"
  by (simp add: place_result_def Let_def placed_def nth_append)

text \<open>The log holds the entries \<^verbatim>\<open>a\<close> at the indices from \<^verbatim>\<open>i\<close> on.\<close>

definition holds_at :: "'c Log \<Rightarrow> int \<Rightarrow> 'c Entry list \<Rightarrow> bool" where
  "holds_at l i a \<longleftrightarrow> (\<forall>j < length a. in_log (i + int j) l \<and> ent l (i + int j) = a ! j)"

lemma place_result_log:
  fixes l :: "'c Log" and a :: "'c Entry list"
  assumes k: "k \<le> length (entries l)" and l': "l' = l\<lparr>entries := place_result k a (entries l)\<rparr>"
  shows "holds_at l' (index0 l + int k) a"
    and "index0 l \<le> j \<Longrightarrow> j < index0 l + int k \<Longrightarrow> in_log j l' \<and> ent l' j = ent l j"
proof -
  have len: "k + length a \<le> length (entries l')"
    using length_place_result [OF k] by (simp add: l')
  show "holds_at l' (index0 l + int k) a"
    unfolding holds_at_def
  proof (intro allI impI conjI)
    fix j assume "j < length a"
    then show "in_log (index0 l + int k + int j) l'"
      using len by (simp add: in_log_def lastIndex_def l')
    have "nat (index0 l + int k + int j - index0 l') = k + j" by (simp add: l')
    then show "ent l' (index0 l + int k + int j) = a ! j"
      using place_result_new [OF \<open>j < length a\<close> k] by (simp add: ent_def l')
  qed
  assume j: "index0 l \<le> j" "j < index0 l + int k"
  then have "nat (j - index0 l) < k" by simp
  then show "in_log j l' \<and> ent l' j = ent l j"
    using j k len place_result_old [of "nat (j - index0 l)" k "entries l" a]
    by (auto simp: in_log_def lastIndex_def ent_def l')
qed

section \<open>The outcomes of AppendEntries\<close>

abbreviation ae_reply :: "('c, 'b) Raft \<Rightarrow> int \<Rightarrow> int \<Rightarrow> bool \<Rightarrow> AppendEntriesReply" where
  "ae_reply rf t i s \<equiv> \<lparr>arTerm = currentTerm rf, arConflictTerm = t, arConflictIndex = i, arSuccess = s\<rparr>"

abbreviation ack :: "int \<Rightarrow> 'c AppendEntriesArgs \<Rightarrow> ('c, 'b) Raft \<Rightarrow> ('c, 'b) Raft" where
  "ack now args rf \<equiv> acknowledge now (aeTerm args) (aeLeaderId args) rf"

abbreviation offset :: "int \<Rightarrow> ('c, 'b) Raft \<Rightarrow> nat" where
  "offset i rf \<equiv> nat (i - snapshotIndex rf)"

lemma AppendEntries_stale:
  "aeTerm args < currentTerm rf \<Longrightarrow> AppendEntries now args rf = Inr (ae_reply rf 0 0 False, rf)"
  by (simp add: AppendEntries_def)

lemma AppendEntries_short:
  assumes "wf_raft rf" and "currentTerm rf \<le> aeTerm args" and "lastIndex (rlog rf) < aePrevLogIndex args"
  shows "AppendEntries now args rf =
    Inr (ae_reply rf (eTerm (last (entries (rlog rf)))) (lastIndex (rlog rf)) False, ack now args rf)"
  using assms
  by (simp add: AppendEntries_def AppendEntries_match_def Let_def lastEntry_nonempty wf_raft_def)

lemma wf_in_log:
  "wf_raft rf \<Longrightarrow> snapshotIndex rf \<le> i \<Longrightarrow> i \<le> lastIndex (rlog rf) \<Longrightarrow> in_log i (rlog rf)"
  by (simp add: wf_raft_def in_log_def)

lemma wf_last: "wf_raft rf \<Longrightarrow> 0 \<le> snapshotIndex rf \<and> snapshotIndex rf \<le> lastIndex (rlog rf)"
  by (cases "entries (rlog rf)") (simp_all add: wf_raft_def lastIndex_def)

lemma cutOffTail_wf:
  assumes "wf_raft rf" and "snapshotIndex rf \<le> i" and "i \<le> lastIndex (rlog rf)"
  shows "cutOffTail i (rlog rf) = Inr ((rlog rf)\<lparr>entries := take (max 1 (offset i rf)) (entries (rlog rf))\<rparr>)"
proof (cases "i = snapshotIndex rf")
  case True
  with assms(1) show ?thesis
    by (simp add: cutOffTail_def slice_to_def wf_raft_def Suc_leI flip: length_greater_0_conv)
next
  case False
  with assms show ?thesis
    by (auto simp: cutOffTail_def slice_to_def wf_raft_def lastIndex_def max_def nat_eq_iff
        intro!: arg_cong [of _ _ Inr])
qed

lemma AppendEntries_conflict:
  assumes wf: "wf_raft rf" and "currentTerm rf \<le> aeTerm args"
    and i: "snapshotIndex rf \<le> aePrevLogIndex args" "aePrevLogIndex args \<le> lastIndex (rlog rf)"
    and ne: "eTerm (ent (rlog rf) (aePrevLogIndex args)) \<noteq> aePrevLogTerm args"
  shows "AppendEntries now args rf =
    Inr (ae_reply rf (eTerm (ent (rlog rf) (aePrevLogIndex args))) (aePrevLogIndex args) False,
      persistSate ((ack now args rf)\<lparr>rlog := (rlog rf)\<lparr>entries :=
        take (max 1 (offset (aePrevLogIndex args) rf)) (entries (rlog rf))\<rparr>\<rparr>))"
  using assms entry_in_log [OF wf_in_log [OF wf i]] cutOffTail_wf [OF wf i]
  by (simp add: AppendEntries_def AppendEntries_match_def Let_def)

lemma AppendEntries_accept:
  assumes wf: "wf_raft rf" and "currentTerm rf \<le> aeTerm args"
    and i: "snapshotIndex rf \<le> aePrevLogIndex args" "aePrevLogIndex args \<le> lastIndex (rlog rf)"
    and eq: "eTerm (ent (rlog rf) (aePrevLogIndex args)) = aePrevLogTerm args"
  shows "AppendEntries now args rf =
    Inr (ae_reply rf 0 0 True,
      followerCommit (aeLeaderCommitIndex args) (persistSate ((ack now args rf)\<lparr>rlog := (rlog rf)\<lparr>entries :=
        place_result (offset (aePrevLogIndex args + 1) rf) (aeEntries args) (entries (rlog rf))\<rparr>\<rparr>)))"
proof -
  have "place (aePrevLogIndex args + 1) (aeEntries args) (rlog rf) = Inr ((rlog rf)\<lparr>entries :=
        place_result (offset (aePrevLogIndex args + 1) rf) (aeEntries args) (entries (rlog rf))\<rparr>)"
    by (rule place_eq_result) (use wf i in \<open>auto simp: wf_raft_def lastIndex_def\<close>)
  then show ?thesis
    using assms entry_in_log [OF wf_in_log [OF wf i]]
    by (simp add: AppendEntries_def AppendEntries_match_def Let_def)
qed

text \<open>A request that starts before the follower's snapshot.\<close>

lemma AppendEntries_covered:
  assumes wf: "wf_raft rf" and "currentTerm rf \<le> aeTerm args"
    and i: "aePrevLogIndex args < snapshotIndex rf"
    and d: "d = nat (snapshotIndex rf - aePrevLogIndex args - 1)"
    and snap: "d < length (aeEntries args) \<Longrightarrow> eTerm (aeEntries args ! d) = snapshotTerm rf"
  shows "AppendEntries now args rf = Inr (ae_reply rf 0 0 True,
    if d < length (aeEntries args)
    then followerCommit (aeLeaderCommitIndex args) (persistSate ((ack now args rf)\<lparr>rlog := (rlog rf)\<lparr>entries :=
        place_result 0 (drop d (aeEntries args)) (entries (rlog rf))\<rparr>\<rparr>))
    else ack now args rf)"
proof -
  have last: "\<not> aePrevLogIndex args > lastIndex (rlog rf)"
    using wf i by (cases "entries (rlog rf)") (auto simp: wf_raft_def lastIndex_def)
  have d': "snapshotIndex rf - aePrevLogIndex args - 1 = int d" using i by (simp add: d)
  have "place (snapshotIndex rf) (drop d (aeEntries args)) (rlog rf) = Inr ((rlog rf)\<lparr>entries :=
        place_result 0 (drop d (aeEntries args)) (entries (rlog rf))\<rparr>)" if "d < length (aeEntries args)"
    by (rule place_eq_result) (use wf that in \<open>auto simp: wf_raft_def\<close>)
  then show ?thesis
    using assms(2) i snap last
    by (simp add: AppendEntries_def AppendEntries_match_def Let_def d' nth_go_def slice_from_def)
qed

lemma followerCommit_frame [simp]:
  "rlog (followerCommit c rf) = rlog rf" "snapshotIndex (followerCommit c rf) = snapshotIndex rf"
  "currentTerm (followerCommit c rf) = currentTerm rf" "snapshotTerm (followerCommit c rf) = snapshotTerm rf"
  "lastApplied (followerCommit c rf) = lastApplied rf"
  by (simp_all add: followerCommit_def raft_defs)

lemma followerCommit_commit:
  "commitIndex (followerCommit c rf) =
     (if commitIndex rf < c then min c (lastIndex (rlog rf)) else commitIndex rf)"
  by (simp add: followerCommit_def raft_defs)

lemma persistSate_frame [simp]:
  "rlog (persistSate rf) = rlog rf" "snapshotIndex (persistSate rf) = snapshotIndex rf"
  "currentTerm (persistSate rf) = currentTerm rf" "commitIndex (persistSate rf) = commitIndex rf"
  "snapshotTerm (persistSate rf) = snapshotTerm rf" "lastApplied (persistSate rf) = lastApplied rf"
  by (simp_all add: raft_defs)

lemma currentTerm_ack: "currentTerm rf \<le> t \<Longrightarrow> currentTerm (acknowledge now t leader rf) = t"
  by (simp add: acknowledge_def Let_def raft_defs)

section \<open>Terms along the log\<close>

definition terms_ok :: "('c, 'b) Raft \<Rightarrow> bool" where
  "terms_ok rf \<longleftrightarrow> sorted (terms (entries (rlog rf))) \<and> list_all (\<lambda>e. eTerm e \<le> currentTerm rf) (entries (rlog rf))"

definition msg_terms_ok :: "'c AppendEntriesArgs \<Rightarrow> bool" where
  "msg_terms_ok args \<longleftrightarrow> sorted (aePrevLogTerm args # terms (aeEntries args)) \<and>
     list_all (\<lambda>e. eTerm e \<le> aeTerm args) (aeEntries args)"

lemma set_place_result: "set (place_result k a es) \<subseteq> set es \<union> set a"
  by (auto simp: place_result_def Let_def placed_def dest: in_set_takeD in_set_dropD)

lemma terms_ok_mono:
  "terms_ok rf \<Longrightarrow> rlog rf' = rlog rf \<Longrightarrow> currentTerm rf \<le> currentTerm rf' \<Longrightarrow> terms_ok rf'"
  by (fastforce simp: terms_ok_def list_all_iff)

lemma terms_ok_take:
  assumes "terms_ok rf" and "entries (rlog rf') = take m (entries (rlog rf))"
    and "currentTerm rf \<le> currentTerm rf'"
  shows "terms_ok rf'"
  using assms
  by (fastforce simp: terms_ok_def list_all_iff sorted_wrt_take take_map [symmetric] dest: in_set_takeD)

lemma terms_ok_place:
  assumes "terms_ok rf" and a: "sorted (terms a)" "list_all (\<lambda>e. eTerm e \<le> currentTerm rf') a"
    and k: "0 < k + length a" "k \<le> length (entries (rlog rf))"
    and prev: "0 < k \<Longrightarrow> a \<noteq> [] \<Longrightarrow> eTerm (entries (rlog rf) ! (k - 1)) \<le> eTerm (hd a)"
    and rf': "entries (rlog rf') = place_result k a (entries (rlog rf))" "currentTerm rf \<le> currentTerm rf'"
  shows "terms_ok rf'"
proof -
  have "sorted (terms (entries (rlog rf')))"
    unfolding rf'(1) by (rule place_result_sorted) (use assms in \<open>auto simp: terms_ok_def\<close>)
  moreover have "eTerm e \<le> currentTerm rf'" if "e \<in> set (entries (rlog rf'))" for e
    using that set_place_result [of k a "entries (rlog rf)"] assms(1) a(2) rf'
    by (fastforce simp: terms_ok_def list_all_iff)
  ultimately show ?thesis by (simp add: terms_ok_def list_all_iff)
qed

lemma AppendEntries_covered_ok:
  assumes "AppendEntries now args rf = Inr (r, rf')" and "currentTerm rf \<le> aeTerm args" and "wf_raft rf"
    and "aePrevLogIndex args < snapshotIndex rf"
    and "d = nat (snapshotIndex rf - aePrevLogIndex args - 1)" and "d < length (aeEntries args)"
  shows "eTerm (aeEntries args ! d) = snapshotTerm rf"
  using assms
  by (cases "entries (rlog rf)")
     (auto simp: AppendEntries_def AppendEntries_match_def Let_def ebind_eq_Inr nth_go_def wf_raft_def
       lastIndex_def split: if_splits)

text \<open>The case distinction on a call, from which the properties below follow.\<close>

lemma AppendEntries_cases [consumes 2, case_names stale short conflict accept covered]:
  assumes "AppendEntries now args rf = Inr (r, rf')" and "wf_raft rf"
  obtains (stale) "aeTerm args < currentTerm rf" "\<not> arSuccess r" "rf' = rf"
  | (short) "currentTerm rf \<le> aeTerm args" "lastIndex (rlog rf) < aePrevLogIndex args" "\<not> arSuccess r"
      "rf' = ack now args rf"
  | (conflict) "currentTerm rf \<le> aeTerm args" "snapshotIndex rf \<le> aePrevLogIndex args"
      "aePrevLogIndex args \<le> lastIndex (rlog rf)"
      "eTerm (ent (rlog rf) (aePrevLogIndex args)) \<noteq> aePrevLogTerm args" "\<not> arSuccess r"
      "rf' = persistSate ((ack now args rf)\<lparr>rlog := (rlog rf)\<lparr>entries :=
        take (max 1 (offset (aePrevLogIndex args) rf)) (entries (rlog rf))\<rparr>\<rparr>)"
  | (accept) "currentTerm rf \<le> aeTerm args" "snapshotIndex rf \<le> aePrevLogIndex args"
      "aePrevLogIndex args \<le> lastIndex (rlog rf)"
      "eTerm (ent (rlog rf) (aePrevLogIndex args)) = aePrevLogTerm args" "arSuccess r"
      "rf' = followerCommit (aeLeaderCommitIndex args) (persistSate ((ack now args rf)\<lparr>rlog := (rlog rf)\<lparr>entries :=
        place_result (offset (aePrevLogIndex args + 1) rf) (aeEntries args) (entries (rlog rf))\<rparr>\<rparr>))"
  | (covered) d where "currentTerm rf \<le> aeTerm args" "aePrevLogIndex args < snapshotIndex rf" "arSuccess r"
      "d = nat (snapshotIndex rf - aePrevLogIndex args - 1)"
      "rf' = (if d < length (aeEntries args)
        then followerCommit (aeLeaderCommitIndex args) (persistSate ((ack now args rf)\<lparr>rlog := (rlog rf)\<lparr>entries :=
          place_result 0 (drop d (aeEntries args)) (entries (rlog rf))\<rparr>\<rparr>))
        else ack now args rf)"
proof -
  let ?i = "aePrevLogIndex args"
  consider "aeTerm args < currentTerm rf"
    | "currentTerm rf \<le> aeTerm args" "lastIndex (rlog rf) < ?i"
    | "currentTerm rf \<le> aeTerm args" "?i < snapshotIndex rf"
    | "currentTerm rf \<le> aeTerm args" "snapshotIndex rf \<le> ?i" "?i \<le> lastIndex (rlog rf)"
        "eTerm (ent (rlog rf) ?i) \<noteq> aePrevLogTerm args"
    | "currentTerm rf \<le> aeTerm args" "snapshotIndex rf \<le> ?i" "?i \<le> lastIndex (rlog rf)"
        "eTerm (ent (rlog rf) ?i) = aePrevLogTerm args"
    by linarith
  then show thesis
  proof cases
    case 1
    with assms(1) AppendEntries_stale [of args rf now] show thesis by (intro stale) auto
  next
    case 2
    with assms AppendEntries_short [of rf args now] show thesis by (intro short) auto
  next
    case 3
    let ?d = "nat (snapshotIndex rf - ?i - 1)"
    note ok = AppendEntries_covered_ok [OF assms(1) 3(1) assms(2) 3(2) refl]
    from AppendEntries_covered [OF assms(2) 3 refl ok, of now] assms(1) 3
    show thesis by (intro covered [of ?d]) auto
  next
    case 4
    with assms AppendEntries_conflict [of rf args now] show thesis by (intro conflict) auto
  next
    case 5
    with assms AppendEntries_accept [of rf args now] show thesis by (intro accept) auto
  qed
qed

lemma AppendEntries_terms_ok:
  assumes f: "wf_raft f" "terms_ok f" and args: "msg_terms_ok args"
    and ok: "AppendEntries now args f = Inr (r, f')"
  shows "terms_ok f'"
  using ok f(1)
proof (cases rule: AppendEntries_cases)
  case stale
  with f show ?thesis by simp
next
  case short
  with f show ?thesis by (auto intro: terms_ok_mono simp: currentTerm_ack)
next
  case conflict
  then show ?thesis by (intro terms_ok_take [OF f(2)]) (auto simp: currentTerm_ack)
next
  case accept
  let ?k = "offset (aePrevLogIndex args + 1) f"
  have k: "0 < ?k" "?k \<le> length (entries (rlog f))" "entries (rlog f) ! (?k - 1) = ent (rlog f) (aePrevLogIndex args)"
    using accept(2,3) f(1) by (auto simp: wf_raft_def lastIndex_def ent_def nat_diff_distrib' intro!: arg_cong2 [of _ _ _ _ nth])
  have "aePrevLogTerm args \<le> eTerm (hd (aeEntries args))" if "aeEntries args \<noteq> []"
    using that args by (cases "aeEntries args") (auto simp: msg_terms_ok_def)
  then show ?thesis
    using accept k args by (intro terms_ok_place [OF f(2)]) (auto simp: msg_terms_ok_def currentTerm_ack)
next
  case (covered d)
  show ?thesis
  proof (cases "d < length (aeEntries args)")
    case True
    have "sorted (terms (drop d (aeEntries args)))"
      using args by (auto simp: msg_terms_ok_def drop_map [symmetric] sorted_wrt_drop)
    then show ?thesis
      using covered True args
      by (intro terms_ok_place [OF f(2), where k = 0 and a = "drop d (aeEntries args)"])
         (auto simp: msg_terms_ok_def currentTerm_ack list_all_iff dest: in_set_dropD)
  next
    case False
    with covered f show ?thesis by (auto intro: terms_ok_mono simp: currentTerm_ack)
  qed
qed

section \<open>What a leader sends\<close>

lemma leader_message_append:
  assumes "leader_message p rf = Inr (MAppend args)" and "wf_raft rf"
  shows "in_log (aePrevLogIndex args) (rlog rf)"
    and "aePrevLogTerm args = eTerm (ent (rlog rf) (aePrevLogIndex args))"
    and "aeEntries args = drop (offset (aePrevLogIndex args + 1) rf) (entries (rlog rf))"
    and "aeTerm args = currentTerm rf" and "aeLeaderCommitIndex args = commitIndex rf"
    and "aePrevLogIndex args + int (length (aeEntries args)) = lastIndex (rlog rf)"
  using assms
  by (auto simp: leader_message_def Let_def ebind_eq_Inr entry_Inr_iff log_slice_def slice_from_def
      wf_raft_def lastIndex_def in_log_def split: if_splits)

lemma leader_message_entry:
  assumes "leader_message p rf = Inr (MAppend args)" and "wf_raft rf" and "j < length (aeEntries args)"
  shows "aeEntries args ! j = ent (rlog rf) (aePrevLogIndex args + 1 + int j)"
proof -
  have "snapshotIndex rf \<le> aePrevLogIndex args"
    using leader_message_append(1) [OF assms(1,2)] assms(2) by (simp add: in_log_def wf_raft_def)
  then have "offset (aePrevLogIndex args + 1) rf + j = nat (aePrevLogIndex args + 1 + int j - index0 (rlog rf))"
    using assms(2) unfolding wf_raft_def by linarith
  then show ?thesis
    using assms(3) leader_message_append(3) [OF assms(1,2)] by (simp add: ent_def)
qed

lemma leader_message_terms_ok:
  assumes m: "leader_message p rf = Inr (MAppend args)" and wf: "wf_raft rf" and "terms_ok rf"
  shows "msg_terms_ok args"
proof -
  let ?es = "entries (rlog rf)" and ?k = "offset (aePrevLogIndex args) rf"
  note a = leader_message_append [OF m wf]
  have k: "?k < length ?es" "offset (aePrevLogIndex args + 1) rf = Suc ?k"
    using a(1) wf by (auto simp: in_log_def wf_raft_def lastIndex_def)
  then have "aePrevLogTerm args # terms (aeEntries args) = drop ?k (terms ?es)"
    using a(2,3) wf by (simp add: ent_def wf_raft_def drop_map [symmetric] Cons_nth_drop_Suc [symmetric])
  moreover have "sorted (drop ?k (terms ?es))"
    using assms(3) by (intro sorted_wrt_drop) (simp add: terms_ok_def)
  ultimately have "sorted (aePrevLogTerm args # terms (aeEntries args))" by simp
  moreover have "list_all (\<lambda>e. eTerm e \<le> aeTerm args) (aeEntries args)"
    using assms(3) a(3,4) by (auto simp: terms_ok_def list_all_iff dest: in_set_dropD)
  ultimately show ?thesis by (simp add: msg_terms_ok_def)
qed

text \<open>
  After a successful call the follower's log holds every entry of the message that is not
  covered by its snapshot.
\<close>

lemma AppendEntries_success_holds:
  assumes wf: "wf_raft f" and ok: "AppendEntries now args f = Inr (r, f')" and "arSuccess r"
    and j: "j < length (aeEntries args)" "snapshotIndex f \<le> aePrevLogIndex args + 1 + int j"
  shows "in_log (aePrevLogIndex args + 1 + int j) (rlog f') \<and>
    ent (rlog f') (aePrevLogIndex args + 1 + int j) = aeEntries args ! j"
  using ok wf
proof (cases rule: AppendEntries_cases)
  case accept
  let ?k = "offset (aePrevLogIndex args + 1) f"
  have k: "?k \<le> length (entries (rlog f))" "index0 (rlog f) + int ?k = aePrevLogIndex args + 1"
    using accept(2,3) wf by (auto simp: wf_raft_def lastIndex_def)
  from place_result_log(1) [OF k(1) refl, of "aeEntries args", unfolded k(2)] j show ?thesis
    by (simp add: accept(6) holds_at_def)
next
  case (covered d)
  define m where "m = nat (aePrevLogIndex args + 1 + int j - snapshotIndex f)"
  have m: "aePrevLogIndex args + 1 + int j = snapshotIndex f + int m" using j by (simp add: m_def)
  then have jm: "j = d + m" using covered by linarith
  then have "d < length (aeEntries args)" "m < length (drop d (aeEntries args))" using j by auto
  moreover have "drop d (aeEntries args) ! m = aeEntries args ! j" using j jm by simp
  ultimately show ?thesis
    using place_result_log(1) [of 0 "rlog f" _ "drop d (aeEntries args)", OF _ refl] wf covered(5)
    by (auto simp: m holds_at_def wf_raft_def)
qed (use assms in auto)

text \<open>What a call keeps of the log: on success the entries up to \<^verbatim>\<open>PrevLogIndex\<close>, on failure those before it.\<close>

lemma AppendEntries_kept:
  assumes ok: "AppendEntries now args f = Inr (r, f')" and wf: "wf_raft f" and "arSuccess r"
    and j: "snapshotIndex f \<le> j" "j \<le> aePrevLogIndex args"
  shows "in_log j (rlog f') \<and> ent (rlog f') j = ent (rlog f) j"
  using ok wf
proof (cases rule: AppendEntries_cases)
  case accept
  let ?k = "offset (aePrevLogIndex args + 1) f"
  have k: "?k \<le> length (entries (rlog f))" "index0 (rlog f) + int ?k = aePrevLogIndex args + 1"
    "index0 (rlog f) = snapshotIndex f"
    using accept(2,3) wf by (auto simp: wf_raft_def lastIndex_def)
  have l': "rlog f' = (rlog f)\<lparr>entries := place_result ?k (aeEntries args) (entries (rlog f))\<rparr>"
    by (simp add: accept(6))
  show ?thesis using place_result_log(2) [OF k(1) l', of j] j k by simp
qed (use assms in auto)

lemma in_log_take:
  "in_log j l \<Longrightarrow> j < index0 l + int n \<Longrightarrow>
   in_log j (l\<lparr>entries := take n (entries l)\<rparr>) \<and> ent (l\<lparr>entries := take n (entries l)\<rparr>) j = ent l j"
  by (auto simp: in_log_def ent_def lastIndex_def)

lemma AppendEntries_failure_keeps:
  assumes wf: "wf_raft f" and ok: "AppendEntries now args f = Inr (r, f')" and "\<not> arSuccess r"
  shows "(\<exists>n. entries (rlog f') = take n (entries (rlog f))) \<and>
    (\<forall>j. in_log j (rlog f) \<and> j < aePrevLogIndex args \<longrightarrow> in_log j (rlog f') \<and> ent (rlog f') j = ent (rlog f) j)"
proof -
  have old: "\<exists>n. entries (rlog f) = take n (entries (rlog f))"
    by (rule exI [of _ "length (entries (rlog f))"]) simp
  from ok wf show ?thesis
  proof (cases rule: AppendEntries_cases)
    case conflict
    have idx: "index0 (rlog f) = snapshotIndex f" using wf by (simp add: wf_raft_def)
    have "in_log j (rlog f') \<and> ent (rlog f') j = ent (rlog f) j"
      if "in_log j (rlog f)" "j < aePrevLogIndex args" for j
      using in_log_take [OF that(1), of "max 1 (offset (aePrevLogIndex args) f)"] that conflict(2) idx
      by (simp add: conflict(6))
    moreover have "\<exists>n. entries (rlog f') = take n (entries (rlog f))" using conflict(6) by auto
    ultimately show ?thesis by blast
  qed (use assms(3) old in auto)
qed

section \<open>Properties of the follower\<close>

text \<open>A request of the current term fails only in the assertion on the snapshot's entry.\<close>

abbreviation snapshot_mismatch :: "'c AppendEntriesArgs \<Rightarrow> ('c, 'b) Raft \<Rightarrow> bool" where
  "snapshot_mismatch args f \<equiv> aePrevLogIndex args < snapshotIndex f \<and>
     nat (snapshotIndex f - aePrevLogIndex args - 1) < length (aeEntries args) \<and>
     eTerm (aeEntries args ! nat (snapshotIndex f - aePrevLogIndex args - 1)) \<noteq> snapshotTerm f"

lemma AppendEntries_mismatch:
  assumes "wf_raft f" and "currentTerm f \<le> aeTerm args" and "snapshot_mismatch args f"
  shows "AppendEntries now args f = Inl AssertFailed"
proof -
  let ?i = "snapshotIndex f - aePrevLogIndex args - 1"
  have "\<not> aePrevLogIndex args > lastIndex (rlog f)" using wf_last [OF assms(1)] assms(3) by linarith
  moreover have "int (length (aeEntries args)) > ?i" "0 \<le> ?i" using assms(3) by linarith+
  ultimately show ?thesis
    using assms(2,3) by (simp add: AppendEntries_def AppendEntries_match_def Let_def nth_go_def assert_go_def)
qed

lemma AppendEntries_returns:
  assumes wf: "wf_raft f" and "\<not> (currentTerm f \<le> aeTerm args \<and> snapshot_mismatch args f)"
  obtains r f' where "AppendEntries now args f = Inr (r, f')"
proof -
  consider "aeTerm args < currentTerm f"
    | "currentTerm f \<le> aeTerm args" "lastIndex (rlog f) < aePrevLogIndex args"
    | "currentTerm f \<le> aeTerm args" "aePrevLogIndex args < snapshotIndex f" "\<not> snapshot_mismatch args f"
    | "currentTerm f \<le> aeTerm args" "snapshotIndex f \<le> aePrevLogIndex args" "aePrevLogIndex args \<le> lastIndex (rlog f)"
    using assms(2) by linarith
  then show thesis
  proof cases
    case 3
    then show thesis using that AppendEntries_covered [OF wf 3(1,2) refl, of now] by blast
  qed (use that AppendEntries_stale [of args f now] AppendEntries_short [OF wf, of args now]
      AppendEntries_conflict [OF wf, of args now] AppendEntries_accept [OF wf, of args now] in metis)+
qed

text \<open>
  C15: The decision of \<^verbatim>\<open>AppendEntries\<close> on a well-formed peer. The handler panics exactly when
  the term of the request is current, its entries start before the peer's snapshot, and its
  entry at the snapshot's index has another term than the snapshot. In all other cases it
  returns and keeps the peer well-formed. It succeeds exactly when the term is current
  and either the snapshot covers \<^verbatim>\<open>PrevLogIndex\<close> or the peer has an entry with the given term there.
  On success the log holds all entries of the request from the snapshot's index on, is
  unchanged up to \<^verbatim>\<open>PrevLogIndex\<close>, and unchanged altogether when the snapshot covers the
  request; on failure it is a prefix of the old one that keeps everything before \<^verbatim>\<open>PrevLogIndex\<close>.
\<close>

theorem append_entries_decides:
  assumes wf: "wf_raft f"
  shows "if currentTerm f \<le> aeTerm args \<and> aePrevLogIndex args < snapshotIndex f \<and>
      nat (snapshotIndex f - aePrevLogIndex args - 1) < length (aeEntries args) \<and>
      eTerm (aeEntries args ! nat (snapshotIndex f - aePrevLogIndex args - 1)) \<noteq> snapshotTerm f
    then AppendEntries now args f = Inl AssertFailed
    else \<exists>r f'. AppendEntries now args f = Inr (r, f') \<and> wf_raft f' \<and>
      (arSuccess r \<longleftrightarrow> currentTerm f \<le> aeTerm args \<and> (aePrevLogIndex args < snapshotIndex f \<or>
         aePrevLogIndex args \<le> lastIndex (rlog f) \<and> eTerm (ent (rlog f) (aePrevLogIndex args)) = aePrevLogTerm args)) \<and>
      (arSuccess r \<longrightarrow>
         (\<forall>k < length (aeEntries args). snapshotIndex f \<le> aePrevLogIndex args + 1 + int k \<longrightarrow>
            in_log (aePrevLogIndex args + 1 + int k) (rlog f') \<and> ent (rlog f') (aePrevLogIndex args + 1 + int k) = aeEntries args ! k) \<and>
         (\<forall>j. snapshotIndex f \<le> j \<and> j \<le> aePrevLogIndex args \<longrightarrow> in_log j (rlog f') \<and> ent (rlog f') j = ent (rlog f) j) \<and>
         (aePrevLogIndex args + int (length (aeEntries args)) < snapshotIndex f \<longrightarrow> rlog f' = rlog f)) \<and>
      (\<not> arSuccess r \<longrightarrow> (\<exists>n. entries (rlog f') = take n (entries (rlog f))) \<and>
         (\<forall>j. in_log j (rlog f) \<and> j < aePrevLogIndex args \<longrightarrow> in_log j (rlog f') \<and> ent (rlog f') j = ent (rlog f) j))"
proof (cases "currentTerm f \<le> aeTerm args \<and> snapshot_mismatch args f")
  case True
  then show ?thesis using AppendEntries_mismatch [OF wf, of args now] by simp
next
  case False
  then obtain r f' where ok: "AppendEntries now args f = Inr (r, f')" by (rule AppendEntries_returns [OF wf])
  have wf': "wf_raft f'" using handler_ok_AppendEntries [OF wf ok] wf by (simp add: handler_ok_def)
  let ?p = "aePrevLogIndex args"
  have dec: "arSuccess r \<longleftrightarrow> currentTerm f \<le> aeTerm args \<and> (?p < snapshotIndex f \<or>
      ?p \<le> lastIndex (rlog f) \<and> eTerm (ent (rlog f) ?p) = aePrevLogTerm args)"
    using ok wf by (cases rule: AppendEntries_cases) (use wf_last [OF wf] in auto)
  have new: "in_log (?p + 1 + int k) (rlog f') \<and> ent (rlog f') (?p + 1 + int k) = aeEntries args ! k"
    if "arSuccess r" "k < length (aeEntries args)" "snapshotIndex f \<le> ?p + 1 + int k" for k
    using AppendEntries_success_holds [OF wf ok that] .
  have kept: "in_log j (rlog f') \<and> ent (rlog f') j = ent (rlog f) j"
    if "arSuccess r" "snapshotIndex f \<le> j" "j \<le> ?p" for j
    using ok wf by (rule AppendEntries_kept) (use that in auto)
  have same: "rlog f' = rlog f" if "arSuccess r" "?p + int (length (aeEntries args)) < snapshotIndex f"
    using ok wf by (cases rule: AppendEntries_cases) (use that in auto)
  have fail: "(\<exists>n. entries (rlog f') = take n (entries (rlog f))) \<and>
      (\<forall>j. in_log j (rlog f) \<and> j < ?p \<longrightarrow> in_log j (rlog f') \<and> ent (rlog f') j = ent (rlog f) j)" if "\<not> arSuccess r"
    using AppendEntries_failure_keeps [OF wf ok that] .
  show ?thesis using False ok wf' dec new kept same fail by (auto intro!: exI [of _ r] exI [of _ f'])
qed

text \<open>A follower and a request on which the hypotheses hold.\<close>

definition sample_follower :: "(nat, nat) Raft" where
  "sample_follower = (boot_node 3 0)\<lparr>currentTerm := 2,
     rlog := \<lparr>entries = [zeroEntry, \<lparr>eTerm = 1, eCommand = Some 7\<rparr>, \<lparr>eTerm = 1, eCommand = Some 8\<rparr>], index0 = 0\<rparr>\<rparr>"

definition sample_leader :: "(nat, nat) Raft" where
  "sample_leader = (boot_node 3 1)\<lparr>currentTerm := 2, role := LEADER, commitIndex := 1,
     rlog := \<lparr>entries = [zeroEntry, \<lparr>eTerm = 1, eCommand = Some 7\<rparr>, \<lparr>eTerm = 2, eCommand = Some 9\<rparr>], index0 = 0\<rparr>,
     nextIndex := [2, 3, 3], matchIndex := [0, 0, 0]\<rparr>"

definition sample_append :: "nat AppendEntriesArgs" where
  "sample_append = \<lparr>aeTerm = 2, aeLeaderId = 1, aePrevLogIndex = 1, aePrevLogTerm = 1,
     aeEntries = [\<lparr>eTerm = 2, eCommand = Some 9\<rparr>], aeLeaderCommitIndex = 1\<rparr>"

lemma sample_follower_wf: "wf_raft sample_follower" "terms_ok sample_follower"
  by (simp_all add: sample_follower_def boot_node_def wf_raft_def terms_ok_def zeroEntry_def)

lemma sample_leader_wf: "wf_raft sample_leader" "terms_ok sample_leader"
  by (simp_all add: sample_leader_def boot_node_def wf_raft_def terms_ok_def zeroEntry_def)

lemma sample_leader_message: "leader_message 0 sample_leader = Inr (MAppend sample_append)"
  by (simp add: leader_message_def sample_leader_def sample_append_def boot_node_def nth_go_def Let_def
      entry_def log_slice_def slice_from_def)

lemma sample_accepts: "\<exists>r f'. AppendEntries 5 sample_append sample_follower = Inr (r, f')"
  by (subst AppendEntries_accept [OF sample_follower_wf(1)])
     (simp_all add: sample_follower_def sample_append_def boot_node_def lastIndex_def ent_def)

definition compacted_follower :: "(nat, nat) Raft" where
  "compacted_follower = sample_follower\<lparr>snapshotIndex := 2, snapshotTerm := 1, commitIndex := 2, lastApplied := 2,
     rlog := \<lparr>entries = [\<lparr>eTerm = 1, eCommand = Some 8\<rparr>], index0 = 2\<rparr>\<rparr>"

theorem append_entries_decides_witness:
  "(\<exists>r f'. AppendEntries 5 sample_append sample_follower = Inr (r, f') \<and> arSuccess r \<and>
      in_log 2 (rlog f') \<and> ent (rlog f') 2 = \<lparr>eTerm = 2, eCommand = Some 9\<rparr>) \<and>
   AppendEntries 5 sample_append compacted_follower = Inl AssertFailed"
proof
  have d: "currentTerm sample_follower = 2" "snapshotIndex sample_follower = 0" "lastIndex (rlog sample_follower) = 2"
    "eTerm (ent (rlog sample_follower) 1) = 1"
    by (simp_all add: sample_follower_def boot_node_def lastIndex_def ent_def)
  have a: "aeTerm sample_append = 2" "aePrevLogIndex sample_append = 1" "aePrevLogTerm sample_append = 1"
    "aeEntries sample_append = [\<lparr>eTerm = 2, eCommand = Some 9\<rparr>]" by (simp_all add: sample_append_def)
  from append_entries_decides [OF sample_follower_wf(1), of sample_append 5]
  show "\<exists>r f'. AppendEntries 5 sample_append sample_follower = Inr (r, f') \<and> arSuccess r \<and>
      in_log 2 (rlog f') \<and> ent (rlog f') 2 = \<lparr>eTerm = 2, eCommand = Some 9\<rparr>" by (auto simp: d a)
  have c: "currentTerm compacted_follower = 2" "snapshotIndex compacted_follower = 2" "snapshotTerm compacted_follower = 1"
    by (simp_all add: compacted_follower_def d)
  have "wf_raft compacted_follower"
    by (simp add: compacted_follower_def sample_follower_def boot_node_def wf_raft_def)
  from append_entries_decides [OF this, of sample_append 5]
  show "AppendEntries 5 sample_append compacted_follower = Inl AssertFailed" by (simp add: c a)
qed

text \<open>
  Terms never decrease along a log. If the terms in the logs of a leader and of a
  follower are sorted and bounded by the current term, this is still so for the follower
  after it handled (accepted, rejected or truncated on) any \<^verbatim>\<open>AppendEntries\<close> the leader sends.
\<close>

theorem replication_keeps_terms_sorted:
  assumes "wf_raft ld" and "terms_ok ld" and "leader_message p ld = Inr (MAppend args)"
    and "wf_raft f" and "terms_ok f" and "AppendEntries now args f = Inr (r, f')"
  shows "terms_ok f'"
  using assms by (blast intro: AppendEntries_terms_ok leader_message_terms_ok)

theorem replication_keeps_terms_sorted_witness:
  "\<exists>r f'. AppendEntries 5 sample_append sample_follower = Inr (r, f') \<and> terms_ok f'"
  using replication_keeps_terms_sorted [OF sample_leader_wf sample_leader_message sample_follower_wf]
    sample_accepts by blast

text \<open>
  A follower commits only what the leader sent. When a follower handles a message of
  a leader, its commit index never goes back; if it advances then it becomes exactly the
  leader's commit index, and every entry of the message up to it (not covered by the
  follower's snapshot) is in the follower's log as it is in the leader's.
\<close>

theorem follower_commit_covered:
  assumes ld: "wf_raft ld" "commitIndex ld \<le> lastIndex (rlog ld)"
    and m: "leader_message p ld = Inr (MAppend args)"
    and f: "wf_raft f" and ok: "AppendEntries now args f = Inr (r, f')"
  shows "commitIndex f \<le> commitIndex f' \<and>
    (commitIndex f < commitIndex f' \<longrightarrow> arSuccess r \<and> commitIndex f' = commitIndex ld \<and>
       (\<forall>i. aePrevLogIndex args < i \<and> snapshotIndex f \<le> i \<and> i \<le> commitIndex f' \<longrightarrow>
          in_log i (rlog f') \<and> ent (rlog f') i = ent (rlog ld) i))"
proof -
  note a = leader_message_append [OF m ld(1)]
  have same: "in_log i (rlog f') \<and> ent (rlog f') i = ent (rlog ld) i"
    if "arSuccess r" and i: "aePrevLogIndex args < i" "snapshotIndex f \<le> i" "i \<le> lastIndex (rlog ld)" for i
  proof -
    define j where "j = nat (i - aePrevLogIndex args - 1)"
    have j: "i = aePrevLogIndex args + 1 + int j" using i by (simp add: j_def)
    then have "j < length (aeEntries args)" using i a(6) by simp
    with AppendEntries_success_holds [OF f ok that(1), of j] leader_message_entry [OF m ld(1), of j] i
    show ?thesis by (simp add: j)
  qed
  have committed: "commitIndex f \<le> commitIndex f' \<and> (commitIndex f < commitIndex f' \<longrightarrow> commitIndex f' = commitIndex ld)"
    if l: "lastIndex (rlog ld) \<le> lastIndex l" and f': "f' = followerCommit (aeLeaderCommitIndex args) (persistSate ((ack now args f)\<lparr>rlog := l\<rparr>))" for l
    using l ld(2) a(5) by (simp add: f' followerCommit_commit)
  have "commitIndex f \<le> commitIndex f' \<and> (commitIndex f < commitIndex f' \<longrightarrow> arSuccess r \<and> commitIndex f' = commitIndex ld)"
    using ok f
  proof (cases rule: AppendEntries_cases)
    case accept
    let ?k = "offset (aePrevLogIndex args + 1) f"
    let ?l = "(rlog f)\<lparr>entries := place_result ?k (aeEntries args) (entries (rlog f))\<rparr>"
    have k: "?k \<le> length (entries (rlog f))" "index0 (rlog f) + int ?k = aePrevLogIndex args + 1"
      using accept(2,3) f by (auto simp: wf_raft_def lastIndex_def)
    have "lastIndex ?l = index0 (rlog f) + int (length (place_result ?k (aeEntries args) (entries (rlog f)))) - 1"
      by (simp add: lastIndex_def)
    also have "\<dots> \<ge> aePrevLogIndex args + int (length (aeEntries args))"
      using length_place_result [OF k(1), of "aeEntries args"] k(2) by linarith
    finally have "lastIndex (rlog ld) \<le> lastIndex ?l" unfolding a(6) .
    from committed [OF this accept(6)] accept(5) show ?thesis by simp
  next
    case (covered d)
    show ?thesis
    proof (cases "d < length (aeEntries args)")
      case True
      then have f': "f' = followerCommit (aeLeaderCommitIndex args) (persistSate ((ack now args f)\<lparr>rlog :=
          (rlog f)\<lparr>entries := place_result 0 (drop d (aeEntries args)) (entries (rlog f))\<rparr>\<rparr>))"
        using covered(5) by simp
      have "lastIndex (rlog ld) \<le> lastIndex ((rlog f)\<lparr>entries := place_result 0 (drop d (aeEntries args)) (entries (rlog f))\<rparr>)"
        using length_place_result [of 0 "entries (rlog f)" "drop d (aeEntries args)"] a(6) True covered(2,4) f
        by (simp add: lastIndex_def wf_raft_def)
      from committed [OF this f'] covered(3) show ?thesis by simp
    qed (use covered in simp)
  qed simp_all
  with same ld(2) show ?thesis by force
qed

theorem follower_commit_covered_witness:
  "\<exists>r f'. AppendEntries 5 sample_append sample_follower = Inr (r, f') \<and> commitIndex sample_follower \<le> commitIndex f'"
proof -
  have "commitIndex sample_leader \<le> lastIndex (rlog sample_leader)"
    by (simp add: sample_leader_def lastIndex_def)
  from follower_commit_covered [OF sample_leader_wf(1) this sample_leader_message sample_follower_wf(1)]
  show ?thesis using sample_accepts by blast
qed

end
