(* ===== verification/Raft_Applier.thy ===== *)
theory Raft_Applier
  imports Raft_Replication_Facts
begin

text \<open>
  The applier goroutine, \<^verbatim>\<open>src/raft/applier.go\<close>, interleaved with every other handler of
  the peer. One turn of its loop is split where it releases the mutex: \<^verbatim>\<open>applier_poll\<close>
  (choose a message or wait), the send on \<^verbatim>\<open>applyCh\<close>, \<^verbatim>\<open>applier_done\<close> (after the send).
  \<^verbatim>\<open>peer_step\<close> collects the handlers that are neither votes nor elections.
\<close>

section \<open>Messages and the two locked parts of a turn\<close>

record ('c, 'b) ApplyMsg =
  amCommandValid :: bool
  amCommand :: "'c option"
  amCommandIndex :: int
  amSnapshotValid :: bool
  amSnapshot :: "'b list"
  amSnapshotTerm :: int
  amSnapshotIndex :: int

definition applier_poll :: "('c, 'b) Raft \<Rightarrow> (('c, 'b) ApplyMsg option \<times> ('c, 'b) Raft) res" where
  "applier_poll rf =
     (if snapshotIndex rf > lastApplied rf
      then Inr (Some \<lparr>amCommandValid = False, amCommand = None, amCommandIndex = 0,
                  amSnapshotValid = True, amSnapshot = snapshot rf,
                  amSnapshotTerm = snapshotTerm rf, amSnapshotIndex = snapshotIndex rf\<rparr>, rf)
      else if lastApplied rf < commitIndex rf
      then ebind (entry (lastApplied rf + 1) (rlog rf)) (\<lambda>e.
           Inr (Some \<lparr>amCommandValid = True, amCommand = eCommand e,
                  amCommandIndex = lastApplied rf + 1, amSnapshotValid = False, amSnapshot = [],
                  amSnapshotTerm = 0, amSnapshotIndex = 0\<rparr>, rf))
      else Inr (None, rf\<lparr>applierWaiting := True\<rparr>))"

definition applier_done :: "('c, 'b) ApplyMsg \<Rightarrow> ('c, 'b) Raft \<Rightarrow> ('c, 'b) Raft" where
  "applier_done m rf =
     (if amSnapshotValid m
      then if amSnapshotIndex m > lastApplied rf
           then let rf1 = rf\<lparr>lastApplied := amSnapshotIndex m\<rparr> in
                if amSnapshotIndex m > commitIndex rf1
                then rf1\<lparr>commitIndex := amSnapshotIndex m\<rparr> else rf1
           else rf
      else if amCommandIndex m \<ge> lastApplied rf + 1
      then rf\<lparr>lastApplied := amCommandIndex m\<rparr> else rf)"

section \<open>The other handlers of the peer\<close>

inductive peer_step :: "('c, 'b) Raft \<Rightarrow> ('c, 'b) Raft \<Rightarrow> bool" where
  append: "AppendEntries now args rf = Inr (r, rf') \<Longrightarrow> peer_step rf rf'"
| install: "InstallSnapshot now iargs rf = Inr (ir, rf') \<Longrightarrow> peer_step rf rf'"
| append_reply: "sendAppendEntries_reply p args r rf = Inr rf' \<Longrightarrow> peer_step rf rf'"
| install_reply: "sendInstallSnapshot_reply p iargs ir rf = Inr rf' \<Longrightarrow> peer_step rf rf'"
| start: "Start c rf = (res, rf') \<Longrightarrow> peer_step rf rf'"
| kill: "peer_step rf (Kill rf)"
| heartbeat: "leaderHeartbeats_turn notified rf = Inr (ms, rf') \<Longrightarrow> peer_step rf rf'"

lemma peer_step_ok: "peer_step rf rf' \<Longrightarrow> wf_raft rf \<Longrightarrow> handler_ok rf rf'"
  by (induction rule: peer_step.induct)
     (simp_all add: handler_ok_AppendEntries handler_ok_InstallSnapshot handler_ok_sendAppendEntries
       handler_ok_sendInstallSnapshot handler_ok_Start handler_ok_Kill handler_ok_leaderHeartbeats)

lemma handler_ok_applier_poll: "applier_poll rf = Inr (m, rf') \<Longrightarrow> handler_ok rf rf'"
  by (auto simp: applier_poll_def ebind_eq_Inr split: if_splits intro: handler_ok_frame)

lemma handler_ok_applier_done: "handler_ok rf (applier_done m rf)"
  by (rule handler_ok_frame) (simp_all add: applier_done_def Let_def)

section \<open>Waking the applier\<close>

text \<open>
  Work for the applier: a snapshot or a committed entry beyond \<^verbatim>\<open>lastApplied\<close>. A handler
  wakes properly when it leaves \<^verbatim>\<open>lastApplied\<close> alone and, if the applier is still blocked
  afterwards, it was blocked before and there is no more work than before.
\<close>

definition work :: "('c, 'b) Raft \<Rightarrow> bool" where
  "work rf \<longleftrightarrow> snapshotIndex rf > lastApplied rf \<or> lastApplied rf < commitIndex rf"

definition wakes :: "('c, 'b) Raft \<Rightarrow> ('c, 'b) Raft \<Rightarrow> bool" where
  "wakes rf rf' \<longleftrightarrow> lastApplied rf' = lastApplied rf \<and>
     (applierWaiting rf' \<longrightarrow> applierWaiting rf \<and> snapshotIndex rf' = snapshotIndex rf \<and>
        commitIndex rf' = commitIndex rf)"

lemma wakes_refl [simp]: "wakes rf rf"
  by (simp add: wakes_def)

lemma wakes_trans: "wakes rf rf' \<Longrightarrow> wakes rf' rf'' \<Longrightarrow> wakes rf rf''"
  by (auto simp: wakes_def)

lemma wakes_stepDown [simp]: "wakes rf (stepDown t rf)"
  by (simp add: wakes_def raft_defs)

lemma wakes_acknowledge [simp]: "wakes rf (acknowledge now t leader rf)"
  by (simp add: wakes_def acknowledge_def Let_def raft_defs)

lemma wakes_followerCommit [simp]: "wakes rf (followerCommit c rf)"
  by (simp add: wakes_def followerCommit_def raft_defs)

lemma wakes_persist_log [simp]: "wakes rf (persistSate (rf\<lparr>rlog := l\<rparr>))"
  by (simp add: wakes_def raft_defs)

lemma wakes_AppendEntries:
  assumes "AppendEntries now args rf = Inr (r, rf')"
  shows "wakes rf rf'"
proof (cases "aeTerm args < currentTerm rf")
  case True
  with assms show ?thesis by (simp add: AppendEntries_def)
next
  case False
  let ?rf1 = "acknowledge now (aeTerm args) (aeLeaderId args) rf"
  from False assms obtain reply where "AppendEntries_match args reply ?rf1 = Inr (r, rf')"
    by (auto simp: AppendEntries_def Let_def)
  then have "wakes ?rf1 rf'"
    by (auto dest!: AppendEntries_match_cases intro: wakes_trans [OF wakes_persist_log wakes_followerCommit])
  then show ?thesis by (rule wakes_trans [OF wakes_acknowledge])
qed

lemma wakes_InstallSnapshot:
  assumes "InstallSnapshot now args rf = Inr (r, rf')"
  shows "wakes rf rf'"
proof (cases "isTerm args < currentTerm rf")
  case True
  with assms show ?thesis by (simp add: InstallSnapshot_def)
next
  case False
  let ?rf1 = "acknowledge now (isTerm args) (isLeaderId args) rf"
  from False assms have "rf' = ?rf1 \<or> lastApplied rf' = lastApplied ?rf1 \<and> \<not> applierWaiting rf'"
    by (auto simp: InstallSnapshot_def Let_def ebind_eq_Inr raft_defs split: if_splits)
  then have "wakes ?rf1 rf'" by (auto simp: wakes_def)
  then show ?thesis by (rule wakes_trans [OF wakes_acknowledge])
qed

lemma wakes_leaderCommit: "leaderCommit rf = Inr rf' \<Longrightarrow> wakes rf rf'"
  by (drule leaderCommit_cases) (auto simp: wakes_def raft_defs)

lemma wakes_sendAppendEntries: "sendAppendEntries_reply p args r rf = Inr rf' \<Longrightarrow> wakes rf rf'"
  by (drule sendAppendEntries_cases) (auto dest!: wakes_leaderCommit simp: wakes_def raft_defs)

lemma wakes_sendInstallSnapshot: "sendInstallSnapshot_reply p args r rf = Inr rf' \<Longrightarrow> wakes rf rf'"
  by (drule sendInstallSnapshot_cases) (auto simp: wakes_def raft_defs)

lemma wakes_Kill: "wakes rf (Kill rf)"
  by (simp add: Kill_def wakes_def raft_defs)

lemma peer_step_wakes: "peer_step rf rf' \<Longrightarrow> wakes rf rf'"
proof (induction rule: peer_step.induct)
  case (start c rf res rf')
  then show ?case
    by (auto simp: Start_def Let_def wakes_def raft_defs split: if_splits)
next
  case (heartbeat notified rf ms rf')
  then show ?case
    by (auto simp: leaderHeartbeats_turn_def Let_def ebind_eq_Inr wakes_def split: if_splits)
qed (auto intro: wakes_AppendEntries wakes_InstallSnapshot wakes_sendAppendEntries
      wakes_sendInstallSnapshot wakes_Kill)

section \<open>Runs of the applier\<close>

text \<open>
  The program counter of the applier: at the top of its loop, blocked in the send of a
  message, or after the send and before it takes the mutex again. The list is what the
  service received. The service may call \<^verbatim>\<open>Snapshot\<close> for what it has received.
\<close>

datatype ('c, 'b) applier_pc =
  Polling | Sending "('c, 'b) ApplyMsg" | Sent "('c, 'b) ApplyMsg"

definition msg_index :: "('c, 'b) ApplyMsg \<Rightarrow> int" where
  "msg_index m = (if amSnapshotValid m then amSnapshotIndex m else amCommandIndex m)"

definition last_received :: "('c, 'b) ApplyMsg list \<Rightarrow> int" where
  "last_received d = (if d = [] then 0 else msg_index (last d))"

inductive applier_run :: "('c, 'b) Raft \<Rightarrow> ('c, 'b) applier_pc \<Rightarrow> ('c, 'b) ApplyMsg list \<Rightarrow> bool" where
  boot: "Make n i ps now = Inr rf \<Longrightarrow> applier_run rf Polling []"
| poll: "applier_run rf Polling d \<Longrightarrow> \<not> Killed rf \<Longrightarrow> \<not> applierWaiting rf \<Longrightarrow>
    applier_poll rf = Inr (Some m, rf') \<Longrightarrow> applier_run rf' (Sending m) d"
| wait: "applier_run rf Polling d \<Longrightarrow> \<not> Killed rf \<Longrightarrow> \<not> applierWaiting rf \<Longrightarrow>
    applier_poll rf = Inr (None, rf') \<Longrightarrow> applier_run rf' Polling d"
| receive: "applier_run rf (Sending m) d \<Longrightarrow> applier_run rf (Sent m) (d @ [m])"
| finish: "applier_run rf (Sent m) d \<Longrightarrow> applier_run (applier_done m rf) Polling d"
| peer: "applier_run rf pc d \<Longrightarrow> peer_step rf rf' \<Longrightarrow> applier_run rf' pc d"
| snap: "applier_run rf pc d \<Longrightarrow> index \<le> last_received d \<Longrightarrow>
    Snapshot index s rf = Inr rf' \<Longrightarrow> applier_run rf' pc d"
| vote: "applier_run rf pc d \<Longrightarrow> RequestVote now args rf = Inr (r, rf') \<Longrightarrow> applier_run rf' pc d"
| elect: "applier_run rf pc d \<Longrightarrow> leaderElection_start now rf = Inr (a, rf') \<Longrightarrow> applier_run rf' pc d"
| counted: "applier_run rf pc d \<Longrightarrow> countVotes_reply vr c rf = (c', brk, rf') \<Longrightarrow> applier_run rf' pc d"
| elected: "applier_run rf pc d \<Longrightarrow> applier_run (leaderElection_finish a v rf) pc d"

text \<open>The order of what is received: each command is the next index, a snapshot jumps ahead.\<close>

fun ordered_from :: "int \<Rightarrow> ('c, 'b) ApplyMsg list \<Rightarrow> bool" where
  "ordered_from k [] = True"
| "ordered_from k (m # ms) =
     (if amSnapshotValid m then amSnapshotIndex m > k \<and> ordered_from (amSnapshotIndex m) ms
      else amCommandIndex m = k + 1 \<and> ordered_from (k + 1) ms)"

definition follows :: "int \<Rightarrow> ('c, 'b) ApplyMsg \<Rightarrow> bool" where
  "follows k m \<longleftrightarrow> (if amSnapshotValid m then amSnapshotIndex m > k else amCommandIndex m = k + 1)"

lemma ordered_from_snoc:
  "ordered_from k (d @ [m]) \<longleftrightarrow> ordered_from k d \<and> follows (if d = [] then k else msg_index (last d)) m"
  by (induction d arbitrary: k) (auto simp: follows_def msg_index_def)

definition applier_inv :: "('c, 'b) Raft \<Rightarrow> ('c, 'b) applier_pc \<Rightarrow> ('c, 'b) ApplyMsg list \<Rightarrow> bool" where
  "applier_inv rf pc d \<longleftrightarrow> ordered_from 0 d \<and>
     (applierWaiting rf \<longrightarrow> pc = Polling \<and> \<not> work rf) \<and>
     (case pc of
        Polling \<Rightarrow> lastApplied rf = last_received d
      | Sending m \<Rightarrow> lastApplied rf = last_received d \<and> follows (lastApplied rf) m
      | Sent m \<Rightarrow> last_received d = msg_index m \<and> follows (lastApplied rf) m)"

lemma applier_inv_wakes:
  "applier_inv rf pc d \<Longrightarrow> wakes rf rf' \<Longrightarrow> applier_inv rf' pc d"
  by (auto simp: applier_inv_def wakes_def work_def split: applier_pc.splits)

lemma wakes_frame:
  "lastApplied rf' = lastApplied rf \<Longrightarrow> applierWaiting rf' = applierWaiting rf \<Longrightarrow>
   snapshotIndex rf' = snapshotIndex rf \<Longrightarrow> commitIndex rf' = commitIndex rf \<Longrightarrow> wakes rf rf'"
  by (simp add: wakes_def)

lemma wakes_RequestVote: "RequestVote now args rf = Inr (r, rf') \<Longrightarrow> wakes rf rf'"
  by (auto simp: RequestVote_def Let_def ebind_eq_Inr raft_defs split: if_splits intro: wakes_frame)

lemma wakes_leaderElection_start: "leaderElection_start now rf = Inr (a, rf') \<Longrightarrow> wakes rf rf'"
  by (auto simp: leaderElection_start_def Let_def ebind_eq_Inr raft_defs split: if_splits intro: wakes_frame)

lemma wakes_leaderElection_finish: "wakes rf (leaderElection_finish a v rf)"
  by (auto simp: leaderElection_finish_def becomeLeader_def raft_defs intro: wakes_frame)

lemma wakes_countVotes_reply: "countVotes_reply vr c rf = (c', brk, rf') \<Longrightarrow> wakes rf rf'"
  by (auto simp: countVotes_reply_def split: option.splits if_splits)

lemma applier_done_advances:
  "follows (lastApplied rf) m \<Longrightarrow> lastApplied (applier_done m rf) = msg_index m \<and>
   applierWaiting (applier_done m rf) = applierWaiting rf"
  by (auto simp: applier_done_def follows_def msg_index_def Let_def)

lemma applier_run_inv: "applier_run rf pc d \<Longrightarrow> applier_inv rf pc d"
proof (induction rule: applier_run.induct)
  case (boot n i ps now rf)
  then show ?case
    by (auto simp: applier_inv_def Make_def Let_def ebind_eq_Inr readPersist_def resetElectionTimer_def
        last_received_def split: if_splits)
next
  case (poll rf d m rf')
  then have "follows (lastApplied rf) m \<and> rf' = rf"
    by (auto simp: applier_poll_def ebind_eq_Inr follows_def split: if_splits)
  with poll.IH poll.hyps(3) show ?case by (auto simp: applier_inv_def)
next
  case (wait rf d rf')
  then have "\<not> work rf \<and> rf' = rf\<lparr>applierWaiting := True\<rparr>"
    by (auto simp: applier_poll_def ebind_eq_Inr work_def split: if_splits)
  with wait.IH show ?case by (auto simp: applier_inv_def work_def)
next
  case (receive rf m d)
  then show ?case
    by (auto simp: applier_inv_def ordered_from_snoc last_received_def split: if_splits)
next
  case (finish rf m d)
  then show ?case
    using applier_done_advances [of rf m] by (auto simp: applier_inv_def)
next
  case (snap rf pc d index s rf')
  have lr: "last_received d \<le> lastApplied rf" if "applierWaiting rf"
    using that snap.IH by (auto simp: applier_inv_def)
  have "lastApplied rf' = lastApplied rf \<and> applierWaiting rf' = applierWaiting rf \<and>
      commitIndex rf' = commitIndex rf \<and> (rf' = rf \<or> snapshotIndex rf' = index)"
    using snap.hyps(3) by (auto simp: Snapshot_def ebind_eq_Inr raft_defs split: if_splits)
  with snap.IH snap.hyps(2) lr show ?case
    by (auto simp: applier_inv_def work_def split: applier_pc.splits)
qed (auto intro: applier_inv_wakes peer_step_wakes wakes_RequestVote wakes_leaderElection_start
      wakes_countVotes_reply wakes_leaderElection_finish)

text \<open>
  C16: The service receives the log in order. In every run of a peer, whatever handlers
  run between the turns of the applier, each command delivered on the apply channel has the
  index right after the previous delivery, and a snapshot is delivered only if it is ahead
  of everything delivered before it: nothing is skipped, repeated or reordered.
\<close>

theorem applier_delivers_in_order:
  assumes "applier_run rf pc d"
  shows "ordered_from 0 d"
  using applier_run_inv [OF assms] by (simp add: applier_inv_def)

text \<open>A peer that restarts with a snapshot of index 2 delivers it first.\<close>

definition saved_snapshot :: "(nat, nat) Persister" where
  "saved_snapshot = \<lparr>raftstate = [PInt 1, PInt (- 1), PEntries [\<lparr>eTerm = 1, eCommand = Some 7\<rparr>], PInt 2, PInt 1],
     snapshotData = [9]\<rparr>"

definition snapshot_msg :: "(nat, nat) ApplyMsg" where
  "snapshot_msg = \<lparr>amCommandValid = False, amCommand = None, amCommandIndex = 0, amSnapshotValid = True,
     amSnapshot = [9], amSnapshotTerm = 1, amSnapshotIndex = 2\<rparr>"

theorem applier_delivers_in_order_witness:
  "\<exists>rf. applier_run rf (Sent snapshot_msg) [snapshot_msg] \<and> ordered_from 0 [snapshot_msg]"
proof -
  obtain rf where mk: "Make 3 0 saved_snapshot 0 = Inr rf"
    and rf: "snapshotIndex rf = 2" "snapshotTerm rf = 1" "snapshot rf = [9]" "lastApplied rf = 0" "dead rf = 0"
      "\<not> applierWaiting rf"
    by (simp add: Make_def saved_snapshot_def Let_def ReadRaftState_def readPersist_def ReadSnapshot_def
        resetElectionTimer_def)
  have "applier_poll rf = Inr (Some snapshot_msg, rf)"
    using rf by (simp add: applier_poll_def snapshot_msg_def)
  then have "applier_run rf (Sending snapshot_msg) []"
    using rf by (intro applier_run.poll [OF applier_run.boot [OF mk]]) (auto simp: Killed_def)
  then have "applier_run rf (Sent snapshot_msg) [snapshot_msg]"
    by (rule applier_run.receive [where d = "[]", simplified])
  with applier_delivers_in_order [OF this] show ?thesis by blast
qed

text \<open>
  C28: No lost wake-up. Whenever the applier goroutine is blocked on its condition
  variable there is nothing to apply: no snapshot and no committed entry beyond
  \<^verbatim>\<open>lastApplied\<close>. So every handler that commits an entry or installs a snapshot wakes it.
\<close>

theorem applier_no_lost_wakeup:
  assumes "applier_run rf pc d" and "applierWaiting rf"
  shows "snapshotIndex rf \<le> lastApplied rf \<and> commitIndex rf \<le> lastApplied rf"
  using applier_run_inv [OF assms(1)] assms(2) by (auto simp: applier_inv_def work_def)

theorem applier_no_lost_wakeup_witness:
  "\<exists>rf :: (nat, nat) Raft. applier_run rf Polling [] \<and> applierWaiting rf \<and> commitIndex rf \<le> lastApplied rf"
proof -
  let ?rf = "(boot_node 3 0)\<lparr>applierWaiting := True\<rparr> :: (nat, nat) Raft"
  have "applier_run ?rf Polling []"
    by (rule applier_run.wait [OF applier_run.boot [OF Make_boot [of 3 0]]])
       (simp_all add: Killed_def boot_node_def applier_poll_def)
  with applier_no_lost_wakeup [OF this] show ?thesis by fastforce
qed

end
