(* ===== verification/Raft_Leader.thy ===== *)
theory Raft_Leader
  imports Raft_Follower Raft_Applier
begin

text \<open>
  The leader side of replication: what \<^verbatim>\<open>leaderCommit\<close> commits, the bookkeeping of
  \<^verbatim>\<open>nextIndex\<close> and \<^verbatim>\<open>matchIndex\<close> during a whole leadership (so that the program's own
  assertion and every log access hold), the progress a rejected request makes, and the one
  exchange that never makes progress.
\<close>

section \<open>Commit by counting replicas\<close>

text \<open>The number of servers whose log is known to reach an index; the leader's own is its log's end.\<close>

definition matches :: "('c, 'b) Raft \<Rightarrow> int list" where
  "matches rf = (matchIndex rf)[me rf := lastIndex (rlog rf)]"

definition replicated :: "('c, 'b) Raft \<Rightarrow> int \<Rightarrow> nat" where
  "replicated rf i = length (filter (\<lambda>m. i \<le> m) (matches rf))"

text \<open>
  The bookkeeping invariant of a leader: for each peer the matched index is below the next
  index to send, which is at most one beyond the log.
\<close>

definition leader_inv :: "('c, 'b) Raft \<Rightarrow> bool" where
  "leader_inv rf \<longleftrightarrow> role rf = LEADER \<and> wf_raft rf \<and> me rf < peers rf \<and>
     length (nextIndex rf) = peers rf \<and> length (matchIndex rf) = peers rf \<and>
     (\<forall>p < peers rf. 0 \<le> matchIndex rf ! p \<and> matchIndex rf ! p < nextIndex rf ! p \<and>
        nextIndex rf ! p \<le> lastIndex (rlog rf) + 1)"

lemma leader_invD:
  assumes "leader_inv rf"
  shows "role rf = LEADER" "wf_raft rf" "me rf < peers rf" "length (nextIndex rf) = peers rf"
    "length (matchIndex rf) = peers rf"
  using assms by (simp_all add: leader_inv_def)

lemma leader_inv_bounds:
  assumes "leader_inv rf" and "p < peers rf"
  shows "0 \<le> matchIndex rf ! p" "matchIndex rf ! p < nextIndex rf ! p"
    "nextIndex rf ! p \<le> lastIndex (rlog rf) + 1"
  using assms by (simp_all add: leader_inv_def)

text \<open>What \<^verbatim>\<open>leaderCommit\<close> itself relies on.\<close>

definition match_inv :: "('c, 'b) Raft \<Rightarrow> bool" where
  "match_inv rf \<longleftrightarrow> wf_raft rf \<and> me rf < peers rf \<and> length (matchIndex rf) = peers rf \<and>
     (\<forall>m \<in> set (matchIndex rf). m \<le> lastIndex (rlog rf))"

lemma leader_inv_match: "leader_inv rf \<Longrightarrow> match_inv rf"
  by (fastforce simp: leader_inv_def match_inv_def in_set_conv_nth)

lemma match_inv_update:
  "match_inv rf \<Longrightarrow> m \<le> lastIndex (rlog rf) \<Longrightarrow> match_inv (rf\<lparr>matchIndex := (matchIndex rf)[p := m]\<rparr>)"
  by (auto simp: match_inv_def wf_raft_def dest!: set_update_subset_insert [THEN subsetD])

lemma getSortedMatchIndex_eq:
  "match_inv rf \<Longrightarrow> getSortedMatchIndex rf = Inr (sort (matches rf))"
  by (simp add: getSortedMatchIndex_def matches_def upd_go_def match_inv_def)

lemma matches_le_last:
  assumes "match_inv rf" and "m \<in> set (matches rf)"
  shows "m \<le> lastIndex (rlog rf)"
  using assms
  unfolding matches_def match_inv_def by (auto dest!: set_update_subset_insert [THEN subsetD])

lemma replicated_all_iff:
  "replicated rf i = length (matches rf) \<longleftrightarrow> (\<forall>m \<in> set (matches rf). i \<le> m)"
  unfolding replicated_def by (metis filter_True length_filter_less less_irrefl)

text \<open>The median position of the sorted list is what a majority has reached, and no more.\<close>

lemma majority_position:
  fixes xs :: "int list"
  assumes "xs \<noteq> []" and "k = (length xs + 1) div 2 - 1" and "c = sort xs ! k"
  shows "majority (length xs) \<le> int (length (filter (\<lambda>m. c \<le> m) xs))"
    and "c < c' \<Longrightarrow> int (length (filter (\<lambda>m. c' \<le> m) xs)) < majority (length xs)"
proof -
  have pos: "0 < length xs" using assms(1) by simp
  then have k: "k < length (sort xs)" "length xs - k = length xs div 2 + 1"
    unfolding assms(2) length_sort by linarith+
  from sorted_count_ge [OF sorted_sort k(1)] k(2)
  show "majority (length xs) \<le> int (length (filter (\<lambda>m. c \<le> m) xs))"
    by (simp add: majority_def assms(3) length_filter_sort)
  assume "c < c'"
  from sorted_count_gt [OF sorted_sort k(1), of c'] this k(2)
  show "int (length (filter (\<lambda>m. c' \<le> m) xs)) < majority (length xs)"
    by (simp add: majority_def assms(3) length_filter_sort)
qed

lemma leaderCommit_spec:
  assumes inv: "match_inv rf"
  shows "\<exists>c. majority (peers rf) \<le> int (replicated rf c) \<and>
    (\<forall>c' > c. int (replicated rf c') < majority (peers rf)) \<and>
    c \<le> lastIndex (rlog rf) \<and>
    leaderCommit rf = Inr (if snapshotIndex rf < c \<and> commitIndex rf < c \<and>
        (eTerm (ent (rlog rf) c) = currentTerm rf \<or> replicated rf c = peers rf)
      then applyBroadcast (rf\<lparr>commitIndex := c\<rparr>) else rf)"
proof -
  let ?s = "sort (matches rf)"
  have len: "length (matches rf) = peers rf" "length (matchIndex rf) = peers rf" and n: "0 < peers rf"
    using inv by (auto simp: matches_def match_inv_def)
  define k where "k = (peers rf + 1) div 2 - 1"
  define c where "c = ?s ! k"
  have k: "k < length ?s" using n len unfolding k_def length_sort by linarith
  have pos: "(int (length (matchIndex rf)) + 1) div 2 - 1 = int k"
    using n unfolding len(2) k_def by linarith
  have cin: "c \<in> set (matches rf)" using k unfolding c_def by (metis nth_mem set_sort)
  have all: "c = ?s ! 0 \<longleftrightarrow> replicated rf c = peers rf"
  proof -
    have "?s ! 0 \<le> m" if "m \<in> set (matches rf)" for m
      using that sorted_nth_mono [of ?s 0] by (metis in_set_conv_nth le0 set_sort sorted_sort)
    moreover have "?s ! 0 \<in> set (matches rf)" using k by (metis nth_mem set_sort gr_zeroI not_less_zero)
    ultimately show ?thesis
      using cin by (metis antisym len(1) order_refl replicated_all_iff)
  qed
  have "leaderCommit rf = Inr (if snapshotIndex rf < c \<and> commitIndex rf < c \<and>
        (eTerm (ent (rlog rf) c) = currentTerm rf \<or> replicated rf c = peers rf)
      then applyBroadcast (rf\<lparr>commitIndex := c\<rparr>) else rf)"
  proof (cases "c \<le> snapshotIndex rf")
    case False
    then have "entry c (rlog rf) = Inr (ent (rlog rf) c)"
      using matches_le_last [OF inv cin] inv by (intro entry_in_log wf_in_log) (auto simp: match_inv_def)
    with False all k show ?thesis
      unfolding leaderCommit_def getSortedMatchIndex_eq [OF inv] pos
      by (auto simp: nth_go_def c_def [symmetric])
  qed (use k in \<open>auto simp: leaderCommit_def getSortedMatchIndex_eq [OF inv] pos nth_go_def c_def [symmetric]
      simp del: length_sort\<close>)
  moreover have "matches rf \<noteq> []" using n len by auto
  then have "majority (peers rf) \<le> int (replicated rf c)"
    and "\<forall>c' > c. int (replicated rf c') < majority (peers rf)"
    using majority_position [of "matches rf" k c] unfolding replicated_def len(1) k_def c_def by blast+
  ultimately show ?thesis using matches_le_last [OF inv cin] by blast
qed

section \<open>Bookkeeping of one leadership\<close>

lemma stepOver_result:
  assumes "in_log n l"
  shows "\<exists>m. stepOver l t n = Inr m \<and> index0 l \<le> m \<and> m \<le> n \<and>
    (\<forall>i. m < i \<and> i \<le> n \<longrightarrow> eTerm (ent l i) = t) \<and> (eTerm (ent l m) \<noteq> t \<or> m = index0 l)"
  using assms
proof (induction l t n rule: stepOver.induct)
  case (1 l t n)
  show ?case
  proof (cases "eTerm (ent l n) = t \<and> n > index0 l")
    case True
    then have prev: "in_log (n - 1) l" using "1.prems" by (simp add: in_log_def)
    have step: "stepOver l t n = stepOver l t (n - 1)"
      using True "1.prems" by (subst stepOver.simps) (simp add: entry_in_log log_start_def)
    from "1.IH" [OF entry_in_log [OF "1.prems"] _ prev] True
    obtain m where "stepOver l t (n - 1) = Inr m" "index0 l \<le> m" "m \<le> n - 1"
      "\<forall>i. m < i \<and> i \<le> n - 1 \<longrightarrow> eTerm (ent l i) = t" "eTerm (ent l m) \<noteq> t \<or> m = index0 l"
      by (auto simp: log_start_def)
    moreover have "eTerm (ent l i) = t" if "m < i" "i \<le> n" for i
      using that True calculation(4) by (cases "i = n") auto
    ultimately show ?thesis unfolding step by force
  next
    case False
    then have "stepOver l t n = Inr n"
      using "1.prems" by (subst stepOver.simps) (auto simp: entry_in_log log_start_def)
    with False "1.prems" show ?thesis by (force simp: in_log_def)
  qed
qed

text \<open>Where a conflict sends the leader: at most one beyond the conflict, and strictly before an entry it has.\<close>

lemma rollBack_result:
  assumes wf: "wf_raft rf" and c: "0 \<le> arConflictIndex reply" "arConflictIndex reply \<le> lastIndex (rlog rf)"
  shows "\<exists>n. rollBack reply rf = Inr n \<and> 0 < n \<and> n \<le> arConflictIndex reply + 1 \<and>
    (snapshotIndex rf < arConflictIndex reply \<and> eTerm (ent (rlog rf) (arConflictIndex reply)) \<noteq> arConflictTerm reply
       \<longrightarrow> n \<le> arConflictIndex reply)"
proof (cases "arConflictIndex reply < snapshotIndex rf")
  case True
  with c show ?thesis by (simp add: rollBack_def)
next
  case False
  then have in_l: "in_log (arConflictIndex reply) (rlog rf)" using c wf by (intro wf_in_log) auto
  let ?t = "eTerm (ent (rlog rf) (arConflictIndex reply))"
  obtain m where m: "stepOver (rlog rf) ?t (arConflictIndex reply) = Inr m" "snapshotIndex rf \<le> m"
    "m \<le> arConflictIndex reply" "eTerm (ent (rlog rf) m) \<noteq> ?t \<or> m = snapshotIndex rf"
    using stepOver_result [OF in_l, of ?t] wf by (auto simp: wf_raft_def)
  have "0 \<le> snapshotIndex rf" using wf by (simp add: wf_raft_def)
  moreover have "m < arConflictIndex reply" if "snapshotIndex rf < arConflictIndex reply"
    using m(3,4) that by (cases "m = arConflictIndex reply") auto
  ultimately show ?thesis
    using False c m by (auto simp: rollBack_def entry_in_log [OF in_l])
qed

text \<open>What may be in flight: a message the leader built earlier in this leadership.\<close>

fun msg_ok :: "('c, 'b) Raft \<Rightarrow> nat \<times> ('c, 'b) leader_msg \<Rightarrow> bool" where
  "msg_ok rf (p, MAppend args) \<longleftrightarrow> p < peers rf \<and> aeTerm args = currentTerm rf \<and> 0 \<le> aePrevLogIndex args \<and>
     aePrevLogIndex args + int (length (aeEntries args)) \<le> lastIndex (rlog rf)"
| "msg_ok rf (p, MInstall args) \<longleftrightarrow> p < peers rf \<and> isTerm args = currentTerm rf \<and>
     0 \<le> isLastIncludedIndex args \<and> isLastIncludedIndex args \<le> lastIndex (rlog rf)"

lemma msg_ok_mono:
  assumes "msg_ok rf pm" and "peers rf' = peers rf" "currentTerm rf' = currentTerm rf"
    and "lastIndex (rlog rf) \<le> lastIndex (rlog rf')"
  shows "msg_ok rf' pm"
proof -
  obtain p m where "pm = (p, m)" by (cases pm)
  with assms show ?thesis by (cases m) auto
qed

lemma leader_message_ok:
  assumes inv: "leader_inv rf" and p: "p < peers rf"
  shows "\<exists>m. leader_message p rf = Inr m \<and> msg_ok rf (p, m)"
proof (cases "nextIndex rf ! p - 1 < snapshotIndex rf")
  case True
  have "snapshotIndex rf \<le> lastIndex (rlog rf)" "0 \<le> snapshotIndex rf"
    using wf_last leader_invD(2) [OF inv] by blast+
  with True leader_inv_bounds [OF inv p] leader_invD [OF inv] p show ?thesis
    by (simp add: leader_message_def nth_go_def Let_def)
next
  case False
  then have in_l: "in_log (nextIndex rf ! p - 1) (rlog rf)"
    using leader_inv_bounds [OF inv p] leader_invD(2) [OF inv] by (intro wf_in_log) auto
  then have "log_slice (nextIndex rf ! p) (rlog rf) = Inr (drop (offset (nextIndex rf ! p) rf) (entries (rlog rf)))"
    using leader_invD(2) [OF inv] by (simp add: log_slice_def slice_from_def in_log_def lastIndex_def wf_raft_def)
  then show ?thesis
    using False in_l leader_inv_bounds [OF inv p] leader_invD [OF inv] p
    by (auto simp: leader_message_def nth_go_def Let_def entry_in_log in_log_def lastIndex_def wf_raft_def)
qed

lemma leaderLogReplication_ok:
  assumes inv: "leader_inv rf"
  shows "\<exists>ms. leaderLogReplication rf = Inr ms \<and> (\<forall>pm \<in> set ms. msg_ok rf pm) \<and>
    map fst ms = filter (\<lambda>p. p \<noteq> me rf) [0..<peers rf]"
proof -
  have "\<exists>ms. leaderLogReplication_from ps rf = Inr ms \<and> (\<forall>pm \<in> set ms. msg_ok rf pm) \<and>
      map fst ms = filter (\<lambda>p. p \<noteq> me rf) ps" if "\<forall>p \<in> set ps. p < peers rf" for ps
    using that
  proof (induction ps)
    case (Cons p ps)
    then obtain ms where ms: "leaderLogReplication_from ps rf = Inr ms" "\<forall>pm \<in> set ms. msg_ok rf pm"
      "map fst ms = filter (\<lambda>p. p \<noteq> me rf) ps" by auto
    obtain m where "leader_message p rf = Inr m" "msg_ok rf (p, m)"
      using leader_message_ok [OF inv] Cons.prems by auto
    with ms show ?case by auto
  qed simp
  then show ?thesis by (auto simp: leaderLogReplication_def)
qed

lemma leaderCommit_total:
  assumes "match_inv rf"
  shows "\<exists>rf'. leaderCommit rf = Inr rf' \<and> (rf' = rf \<or>
    (\<exists>c. commitIndex rf < c \<and> c \<le> lastIndex (rlog rf) \<and> rf' = applyBroadcast (rf\<lparr>commitIndex := c\<rparr>)))"
  using leaderCommit_spec [OF assms] by (auto split: if_splits)

text \<open>The replies a follower can give to a message.\<close>

definition reply_ok :: "'c AppendEntriesArgs \<Rightarrow> AppendEntriesReply \<Rightarrow> bool" where
  "reply_ok args r \<longleftrightarrow> arSuccess r \<or> aeTerm args < arTerm r \<or>
     0 \<le> arConflictIndex r \<and> arConflictIndex r \<le> aePrevLogIndex args \<and>
       (arConflictIndex r = aePrevLogIndex args \<longrightarrow> arConflictTerm r \<noteq> aePrevLogTerm args)"

lemma AppendEntries_reply_ok:
  assumes wf: "wf_raft f" and ok: "AppendEntries now args f = Inr (r, f')"
  shows "reply_ok args r"
  using ok wf
proof (cases rule: AppendEntries_cases)
  case stale
  with AppendEntries_stale [of args f now] ok show ?thesis by (auto simp: reply_ok_def)
next
  case short
  with AppendEntries_short [OF wf short(1,2), of now] ok wf_last [OF wf] show ?thesis
    by (auto simp: reply_ok_def)
next
  case conflict
  with AppendEntries_conflict [OF wf conflict(1-4), of now] ok wf_last [OF wf] show ?thesis
    by (auto simp: reply_ok_def)
qed (simp_all add: reply_ok_def)

lemma leader_inv_set:
  assumes inv: "leader_inv rf" and "p < peers rf" and "0 \<le> m" "m < n" "n \<le> lastIndex (rlog rf) + 1"
    and mi: "matchIndex rf' = (matchIndex rf)[p := m]" "nextIndex rf' = (nextIndex rf)[p := n]"
    and frame: "role rf' = role rf" "me rf' = me rf" "peers rf' = peers rf" "rlog rf' = rlog rf"
      "snapshotIndex rf' = snapshotIndex rf"
  shows "leader_inv rf'"
  using assms by (auto simp: leader_inv_def nth_list_update intro: wf_raft_frame)

lemma sendAppendEntries_reply_ok:
  assumes inv: "leader_inv rf" and msg: "msg_ok rf (p, MAppend args)" and r: "reply_ok args r"
  shows "\<exists>rf'. sendAppendEntries_reply p args r rf = Inr rf' \<and> peers rf' = peers rf \<and>
    rlog rf' = rlog rf \<and> (role rf' = LEADER \<longrightarrow> leader_inv rf' \<and> currentTerm rf' = currentTerm rf)"
proof -
  from msg have p: "p < peers rf" and t: "aeTerm args = currentTerm rf" by auto
  note lens = leader_invD [OF inv] and b = leader_inv_bounds [OF inv p]
  define m' where "m' = aePrevLogIndex args + int (length (aeEntries args))"
  have m': "0 \<le> m'" "m' \<le> lastIndex (rlog rf)" using msg by (auto simp: m'_def)
  consider "arSuccess r" "matchIndex rf ! p < m'" | "arSuccess r" "m' \<le> matchIndex rf ! p"
    | "\<not> arSuccess r" "currentTerm rf < arTerm r" | "\<not> arSuccess r" "arTerm r \<le> currentTerm rf"
    by linarith
  then show ?thesis
  proof cases
    case 1
    let ?rf1 = "rf\<lparr>matchIndex := (matchIndex rf)[p := m']\<rparr>"
    obtain rf1 where c: "leaderCommit ?rf1 = Inr rf1"
      and rf1: "rf1 = ?rf1 \<or> (\<exists>c. rf1 = applyBroadcast (?rf1\<lparr>commitIndex := c\<rparr>))"
      using leaderCommit_total [OF match_inv_update [OF leader_inv_match [OF inv] m'(2)]] by blast
    then have mi: "matchIndex rf1 = (matchIndex rf)[p := m']" and ni: "nextIndex rf1 = nextIndex rf"
      and fr: "role rf1 = role rf" "me rf1 = me rf" "peers rf1 = peers rf" "rlog rf1 = rlog rf"
        "snapshotIndex rf1 = snapshotIndex rf" "currentTerm rf1 = currentTerm rf"
      by (auto simp: applyBroadcast_def)
    have "sendAppendEntries_reply p args r rf = Inr (rf1\<lparr>nextIndex := (nextIndex rf)[p := m' + 1]\<rparr>)"
      using 1 c t lens p mi ni
      by (simp add: sendAppendEntries_reply_def Let_def nth_go_def upd_go_def m'_def)
    moreover have "leader_inv (rf1\<lparr>nextIndex := (nextIndex rf)[p := m' + 1]\<rparr>)"
      by (rule leader_inv_set [OF inv p m'(1), of "m' + 1" _]) (use m' mi fr in auto)
    ultimately show ?thesis using fr by simp
  next
    case 2
    let ?m = "matchIndex rf ! p"
    have "sendAppendEntries_reply p args r rf = Inr (rf\<lparr>nextIndex := (nextIndex rf)[p := ?m + 1]\<rparr>)"
      using 2 t lens p by (simp add: sendAppendEntries_reply_def Let_def nth_go_def upd_go_def m'_def)
    moreover have "leader_inv (rf\<lparr>nextIndex := (nextIndex rf)[p := ?m + 1]\<rparr>)"
      by (rule leader_inv_set [OF inv p b(1), of "?m + 1" _]) (use b in auto)
    ultimately show ?thesis by simp
  next
    case 3
    then show ?thesis using t lens by (simp add: sendAppendEntries_reply_def raft_defs)
  next
    case 4
    have "0 \<le> arConflictIndex r" "arConflictIndex r \<le> lastIndex (rlog rf)"
      using r 4 t msg by (auto simp: reply_ok_def)
    from rollBack_result [OF lens(2) this] obtain n where n: "rollBack r rf = Inr n" "0 < n" "n \<le> lastIndex (rlog rf) + 1"
      using \<open>arConflictIndex r \<le> lastIndex (rlog rf)\<close> by auto
    let ?n = "max (matchIndex rf ! p + 1) n"
    have "sendAppendEntries_reply p args r rf = Inr (rf\<lparr>nextIndex := (nextIndex rf)[p := ?n]\<rparr>)"
      using 4 t lens p n(1) by (simp add: sendAppendEntries_reply_def nth_go_def upd_go_def)
    moreover have "leader_inv (rf\<lparr>nextIndex := (nextIndex rf)[p := ?n]\<rparr>)"
      by (rule leader_inv_set [OF inv p b(1), of ?n _]) (use b n in auto)
    ultimately show ?thesis by simp
  qed
qed

lemma sendInstallSnapshot_reply_ok:
  assumes inv: "leader_inv rf" and msg: "msg_ok rf (p, MInstall args)"
  shows "\<exists>rf'. sendInstallSnapshot_reply p args r rf = Inr rf' \<and> peers rf' = peers rf \<and>
    rlog rf' = rlog rf \<and> (role rf' = LEADER \<longrightarrow> leader_inv rf' \<and> currentTerm rf' = currentTerm rf)"
proof -
  from msg have p: "p < peers rf" and t: "isTerm args = currentTerm rf"
    and i: "0 \<le> isLastIncludedIndex args" "isLastIncludedIndex args \<le> lastIndex (rlog rf)" by auto
  note lens = leader_invD [OF inv]
  consider "currentTerm rf < irTerm r" | "irTerm r \<le> currentTerm rf" "isLastIncludedIndex args \<le> matchIndex rf ! p"
    | "irTerm r \<le> currentTerm rf" "matchIndex rf ! p < isLastIncludedIndex args"
    by linarith
  then show ?thesis
  proof cases
    case 3
    let ?i = "isLastIncludedIndex args"
    let ?rf' = "rf\<lparr>matchIndex := (matchIndex rf)[p := ?i], nextIndex := (nextIndex rf)[p := ?i + 1]\<rparr>"
    have "sendInstallSnapshot_reply p args r rf = Inr ?rf'"
      using 3 t lens p by (simp add: sendInstallSnapshot_reply_def nth_go_def upd_go_def)
    moreover have "leader_inv ?rf'"
      by (rule leader_inv_set [OF inv p i(1), of "?i + 1" _]) (use i in auto)
    ultimately show ?thesis by simp
  qed (use inv t p lens in \<open>auto simp: sendInstallSnapshot_reply_def nth_go_def raft_defs\<close>)
qed

section \<open>Runs of a leadership\<close>

text \<open>
  A leadership from the election on: the leader's state and the messages it has sent so
  far. A reply comes from any well-formed follower that handled one of these messages, at
  any later time and any number of times. A step that makes the peer step down ends the
  leadership. (A request of another leader of the same term does not occur, by Election
  Safety; one of an older term changes nothing.)
\<close>

inductive leader_run :: "('c, 'b) Raft \<Rightarrow> (nat \<times> ('c, 'b) leader_msg) set \<Rightarrow> bool" where
  elected: "wf_raft rf \<Longrightarrow> me rf < peers rf \<Longrightarrow> leader_run (becomeLeader rf) {}"
| start: "leader_run rf S \<Longrightarrow> Start c rf = (res, rf') \<Longrightarrow> leader_run rf' S"
| snap: "leader_run rf S \<Longrightarrow> Snapshot index s rf = Inr rf' \<Longrightarrow> leader_run rf' S"
| beat: "leader_run rf S \<Longrightarrow> leaderHeartbeats_turn b rf = Inr (Some ms, rf') \<Longrightarrow> leader_run rf' (S \<union> set ms)"
| append_reply: "leader_run rf S \<Longrightarrow> (p, MAppend args) \<in> S \<Longrightarrow> wf_raft (f :: ('c, 'b) Raft) \<Longrightarrow>
    AppendEntries now args f = Inr (r, f') \<Longrightarrow> sendAppendEntries_reply p args r rf = Inr rf' \<Longrightarrow>
    role rf' = LEADER \<Longrightarrow> leader_run rf' S"
| install_reply: "leader_run rf S \<Longrightarrow> (p, MInstall iargs) \<in> S \<Longrightarrow>
    sendInstallSnapshot_reply p iargs ir rf = Inr rf' \<Longrightarrow> role rf' = LEADER \<Longrightarrow> leader_run rf' S"
| vote: "leader_run rf S \<Longrightarrow> RequestVote now vargs rf = Inr (vr, rf') \<Longrightarrow> role rf' = LEADER \<Longrightarrow> leader_run rf' S"
| poll: "leader_run rf S \<Longrightarrow> applier_poll rf = Inr (m, rf') \<Longrightarrow> leader_run rf' S"
| applied: "leader_run rf S \<Longrightarrow> leader_run (applier_done am rf) S"
| kill: "leader_run rf S \<Longrightarrow> leader_run (Kill rf) S"

definition run_inv :: "('c, 'b) Raft \<Rightarrow> (nat \<times> ('c, 'b) leader_msg) set \<Rightarrow> bool" where
  "run_inv rf S \<longleftrightarrow> leader_inv rf \<and> (\<forall>pm \<in> S. msg_ok rf pm)"

lemma leader_inv_grow:
  assumes "leader_inv rf" and "wf_raft rf'" "role rf' = role rf" "me rf' = me rf" "peers rf' = peers rf"
    and "nextIndex rf' = nextIndex rf" "matchIndex rf' = matchIndex rf"
    and "lastIndex (rlog rf) \<le> lastIndex (rlog rf')"
  shows "leader_inv rf'"
  using assms by (fastforce simp: leader_inv_def)

lemma run_inv_grow:
  assumes "run_inv rf S" and "wf_raft rf'" "role rf' = role rf" "me rf' = me rf" "peers rf' = peers rf"
    and "nextIndex rf' = nextIndex rf" "matchIndex rf' = matchIndex rf" "currentTerm rf' = currentTerm rf"
    and "lastIndex (rlog rf) \<le> lastIndex (rlog rf')"
  shows "run_inv rf' S"
  using assms unfolding run_inv_def
  by (blast intro: leader_inv_grow msg_ok_mono)

lemma run_inv_frame:
  assumes "run_inv rf S" and "role rf' = role rf" "me rf' = me rf" "peers rf' = peers rf"
    and "nextIndex rf' = nextIndex rf" "matchIndex rf' = matchIndex rf" "currentTerm rf' = currentTerm rf"
    and "rlog rf' = rlog rf" "snapshotIndex rf' = snapshotIndex rf"
  shows "run_inv rf' S"
  using assms by (intro run_inv_grow [OF assms(1)]) (auto simp: run_inv_def leader_inv_def intro: wf_raft_frame)

lemma run_inv_reply:
  assumes "run_inv rf S" and "leader_inv rf'" "peers rf' = peers rf" "rlog rf' = rlog rf"
    and "currentTerm rf' = currentTerm rf"
  shows "run_inv rf' S"
  using assms msg_ok_mono [of rf _ rf'] by (auto simp: run_inv_def)

lemma Snapshot_frame:
  assumes "Snapshot index s rf = Inr rf'"
  shows "lastIndex (rlog rf') = lastIndex (rlog rf)" "role rf' = role rf" "me rf' = me rf" "peers rf' = peers rf"
    "nextIndex rf' = nextIndex rf" "matchIndex rf' = matchIndex rf" "currentTerm rf' = currentTerm rf"
  using assms
  by (auto simp: Snapshot_def ebind_eq_Inr raft_defs cutOffHead_def slice_from_def lastIndex_def entry_Inr_iff
      in_log_def split: if_splits)

lemma becomeLeader_inv: "wf_raft rf \<Longrightarrow> me rf < peers rf \<Longrightarrow> leader_inv (becomeLeader rf)"
  using wf_last [of rf] by (simp add: leader_inv_def becomeLeader_def raft_defs wf_raft_def)

lemma RequestVote_leader_frame:
  assumes "RequestVote now args rf = Inr (r, rf')" and "role rf' = LEADER"
  shows "role rf = LEADER" "me rf' = me rf" "peers rf' = peers rf" "nextIndex rf' = nextIndex rf"
    "matchIndex rf' = matchIndex rf" "currentTerm rf' = currentTerm rf" "rlog rf' = rlog rf"
    "snapshotIndex rf' = snapshotIndex rf"
  using assms by (auto simp: RequestVote_def Let_def ebind_eq_Inr raft_defs split: if_splits)

lemma leader_run_inv: "leader_run rf S \<Longrightarrow> run_inv rf S"
proof (induction rule: leader_run.induct)
  case (elected rf)
  then show ?case by (simp add: run_inv_def becomeLeader_inv)
next
  case (start rf S c res rf')
  then have wf: "wf_raft rf'"
    using handler_ok_Start [OF start.hyps(2)] by (simp add: run_inv_def leader_inv_def handler_ok_def)
  show ?case
    by (rule run_inv_grow [OF start.IH wf])
       (use start.hyps(2) in \<open>auto simp: Start_def Let_def log_append_def raft_defs lastIndex_def split: if_splits\<close>)
next
  case (snap rf S index s rf')
  then have wf: "wf_raft rf'"
    using handler_ok_Snapshot [OF snap.hyps(2)] by (simp add: run_inv_def leader_inv_def handler_ok_def)
  show ?case
    by (rule run_inv_grow [OF snap.IH wf]) (simp_all add: Snapshot_frame [OF snap.hyps(2)])
next
  case (beat rf S b ms rf')
  let ?rf = "if b then rf\<lparr>heartbeatNotify := False\<rparr> else rf"
  have inv: "run_inv ?rf S" by (rule run_inv_frame [OF beat.IH]) simp_all
  have "rf' = ?rf" and "leaderLogReplication ?rf = Inr ms"
    using beat.hyps(2) unfolding leaderHeartbeats_turn_def Let_def by (auto simp: ebind_eq_Inr split: if_splits)
  with inv leaderLogReplication_ok [of ?rf] show ?case by (auto simp: run_inv_def)
next
  case (append_reply rf S p args f now r f' rf')
  then have "leader_inv rf" "msg_ok rf (p, MAppend args)" by (auto simp: run_inv_def)
  from sendAppendEntries_reply_ok [OF this AppendEntries_reply_ok [OF append_reply.hyps(3,4)]]
  show ?case using append_reply.hyps(5,6) by (intro run_inv_reply [OF append_reply.IH]) auto
next
  case (install_reply rf S p iargs ir rf')
  then have "leader_inv rf" "msg_ok rf (p, MInstall iargs)" by (auto simp: run_inv_def)
  from sendInstallSnapshot_reply_ok [OF this, of ir]
  show ?case using install_reply.hyps(3,4) by (intro run_inv_reply [OF install_reply.IH]) auto
next
  case (vote rf S now vargs vr rf')
  note f = RequestVote_leader_frame [OF vote.hyps(2,3)]
  show ?case by (rule run_inv_frame [OF vote.IH]) (simp_all add: f vote.hyps(3))
next
  case (poll rf S m rf')
  show ?case
    by (rule run_inv_frame [OF poll.IH])
       (use poll.hyps(2) in \<open>auto simp: applier_poll_def ebind_eq_Inr split: if_splits\<close>)
next
  case (applied rf S am)
  show ?case by (rule run_inv_frame [OF applied.IH]) (simp_all add: applier_done_def Let_def)
next
  case (kill rf S)
  show ?case by (rule run_inv_frame [OF kill.IH]) (simp_all add: Kill_def raft_defs)
qed

section \<open>Properties of the leader\<close>

text \<open>
  C14: What a leader commits. With consistent bookkeeping \<^verbatim>\<open>leaderCommit\<close> never panics. It
  considers the greatest index that a majority of the servers has reached, and moves the
  commit index there exactly when this is beyond the commit index and the snapshot and the
  entry is of the current term or every server has reached it.
\<close>

theorem leader_commit_majority:
  assumes "match_inv rf"
  shows "\<exists>c. majority (peers rf) \<le> int (replicated rf c) \<and>
    (\<forall>c' > c. int (replicated rf c') < majority (peers rf)) \<and> c \<le> lastIndex (rlog rf) \<and>
    leaderCommit rf = Inr (if snapshotIndex rf < c \<and> commitIndex rf < c \<and>
        (eTerm (ent (rlog rf) c) = currentTerm rf \<or> replicated rf c = peers rf)
      then applyBroadcast (rf\<lparr>commitIndex := c\<rparr>) else rf)"
  using assms by (rule leaderCommit_spec)

definition sample_commit :: "(nat, nat) Raft" where
  "sample_commit = sample_leader\<lparr>matchIndex := [2, 0, 0]\<rparr>"

theorem leader_commit_majority_witness:
  "leaderCommit sample_commit = Inr (applyBroadcast (sample_commit\<lparr>commitIndex := 2\<rparr>))"
proof -
  have "match_inv sample_commit"
    by (simp add: match_inv_def sample_commit_def sample_leader_def boot_node_def wf_raft_def lastIndex_def)
  from leader_commit_majority [OF this] obtain c where
    c: "majority 3 \<le> int (replicated sample_commit c)" "\<forall>c' > c. int (replicated sample_commit c') < majority 3"
    and r: "leaderCommit sample_commit = Inr (if snapshotIndex sample_commit < c \<and> commitIndex sample_commit < c \<and>
        (eTerm (ent (rlog sample_commit) c) = currentTerm sample_commit \<or> replicated sample_commit c = peers sample_commit)
      then applyBroadcast (sample_commit\<lparr>commitIndex := c\<rparr>) else sample_commit)"
    by (auto simp: sample_commit_def sample_leader_def boot_node_def)
  have rep: "replicated sample_commit i = length (filter (\<lambda>m. i \<le> m) [2, 2, 0])" for i
    by (simp add: replicated_def matches_def sample_commit_def sample_leader_def boot_node_def lastIndex_def)
  have "\<not> c < 2" using c(2) [rule_format, of 2] by (auto simp: rep majority_def)
  moreover have "c \<le> 2" using c(1) by (auto simp: rep majority_def split: if_splits)
  ultimately have "c = 2" by simp
  with r show ?thesis by (simp add: sample_commit_def sample_leader_def boot_node_def ent_def)
qed

text \<open>
  C13: A leader never trips its own assertion. In every state of a leadership, the heartbeat
  round builds one message per other peer without violating
  \<^verbatim>\<open>Assert(matchIndex <= prevLogIndex)\<close> or reading outside the log, and the reply of any
  follower to any message sent so far, however late or repeated, is handled without a panic.
\<close>

theorem leader_never_panics:
  assumes "leader_run rf S"
  shows "(\<exists>ms. leaderLogReplication rf = Inr ms \<and> map fst ms = filter (\<lambda>p. p \<noteq> me rf) [0..<peers rf]) \<and>
    (\<forall>p args f now r f'. (p, MAppend args) \<in> S \<and> wf_raft f \<and>
        AppendEntries now args (f :: ('c, 'b) Raft) = Inr (r, f') \<longrightarrow>
        (\<exists>rf'. sendAppendEntries_reply p args r (rf :: ('c, 'b) Raft) = Inr rf')) \<and>
    (\<forall>p args r. (p, MInstall args) \<in> S \<longrightarrow> (\<exists>rf'. sendInstallSnapshot_reply p args r rf = Inr rf'))"
proof -
  have inv: "leader_inv rf" and msgs: "\<forall>pm \<in> S. msg_ok rf pm"
    using leader_run_inv [OF assms] by (auto simp: run_inv_def)
  show ?thesis
    using leaderLogReplication_ok [OF inv] sendAppendEntries_reply_ok [OF inv bspec [OF msgs] AppendEntries_reply_ok]
      sendInstallSnapshot_reply_ok [OF inv bspec [OF msgs]] by blast
qed

theorem leader_never_panics_witness:
  "\<exists>ms. leaderLogReplication (becomeLeader ((boot_node 3 1) :: (nat, nat) Raft)) = Inr ms \<and> map fst ms = [0, 2]"
proof -
  have "leader_run (becomeLeader ((boot_node 3 1) :: (nat, nat) Raft)) {}"
    by (rule leader_run.elected) (simp_all add: boot_node_def wf_raft_def makeLog_def)
  from leader_never_panics [OF this] show ?thesis
    by (simp add: becomeLeader_def boot_node_def raft_defs upt_rec numeral_eq_Suc)
qed

text \<open>
  A rejection makes progress. When a follower rejects a request because of its log and
  the reply reaches the leader before anything else changed, the next index of that
  follower strictly decreases, unless the request already started at the leader's snapshot
  or at the index the leader believes to be matched.
\<close>

theorem rejection_rolls_back:
  assumes inv: "leader_inv rf" and p: "p < peers rf"
    and m: "leader_message p rf = Inr (MAppend args)" and f: "wf_raft f" "currentTerm f \<le> currentTerm rf"
    and ok: "AppendEntries now args f = Inr (r, f')" and rej: "\<not> arSuccess r"
  shows "\<exists>rf'. sendAppendEntries_reply p args r rf = Inr rf' \<and>
    matchIndex rf ! p < nextIndex rf' ! p \<and> nextIndex rf' ! p \<le> nextIndex rf ! p \<and>
    (nextIndex rf' ! p < nextIndex rf ! p \<or> nextIndex rf ! p = snapshotIndex rf + 1 \<or>
     nextIndex rf ! p = matchIndex rf ! p + 1)"
proof -
  note lens = leader_invD [OF inv] and b = leader_inv_bounds [OF inv p]
  note a = leader_message_append [OF m lens(2)]
  have prev: "aePrevLogIndex args = nextIndex rf ! p - 1"
    using m lens p by (auto simp: leader_message_def Let_def ebind_eq_Inr nth_go_def split: if_splits)
  have c: "0 \<le> arConflictIndex r" "arConflictIndex r \<le> aePrevLogIndex args"
    "arConflictIndex r = aePrevLogIndex args \<Longrightarrow> arConflictTerm r \<noteq> aePrevLogTerm args"
    and t: "arTerm r \<le> currentTerm rf"
  proof -
    have "arTerm r = currentTerm f"
      using ok f(1) by (auto simp: AppendEntries_def AppendEntries_match_def Let_def ebind_eq_Inr split: if_splits)
    then show "arTerm r \<le> currentTerm rf" using f by simp
    then show "0 \<le> arConflictIndex r" "arConflictIndex r \<le> aePrevLogIndex args"
      "arConflictIndex r = aePrevLogIndex args \<Longrightarrow> arConflictTerm r \<noteq> aePrevLogTerm args"
      using AppendEntries_reply_ok [OF f(1) ok] rej a(4) by (auto simp: reply_ok_def)
  qed
  have "arConflictIndex r \<le> lastIndex (rlog rf)" using c(2) a(1) by (simp add: in_log_def)
  from rollBack_result [OF lens(2) c(1) this] obtain n where n: "rollBack r rf = Inr n" "n \<le> arConflictIndex r + 1"
    "snapshotIndex rf < arConflictIndex r \<and> eTerm (ent (rlog rf) (arConflictIndex r)) \<noteq> arConflictTerm r
       \<longrightarrow> n \<le> arConflictIndex r" by blast
  have "sendAppendEntries_reply p args r rf =
      Inr (rf\<lparr>nextIndex := (nextIndex rf)[p := max (matchIndex rf ! p + 1) n]\<rparr>)"
    using rej t a(4) lens p n(1) by (simp add: sendAppendEntries_reply_def nth_go_def upd_go_def)
  moreover have "n < nextIndex rf ! p \<or> nextIndex rf ! p = snapshotIndex rf + 1"
    using c n a(1,2) prev lens(2) by (cases "arConflictIndex r = aePrevLogIndex args") (auto simp: in_log_def wf_raft_def)
  ultimately show ?thesis using lens p b c(2) n(2) prev by auto
qed

definition sample_behind :: "(nat, nat) Raft" where
  "sample_behind = boot_node 3 0"

theorem rejection_rolls_back_witness:
  "\<exists>args r f' rf'. leader_message 0 sample_leader = Inr (MAppend args) \<and>
     AppendEntries 5 args sample_behind = Inr (r, f') \<and>
     sendAppendEntries_reply 0 args r sample_leader = Inr rf' \<and> nextIndex rf' ! 0 < nextIndex sample_leader ! 0"
proof -
  have inv: "leader_inv sample_leader"
    by (auto simp: leader_inv_def sample_leader_def boot_node_def wf_raft_def lastIndex_def less_Suc_eq numeral_3_eq_3)
  have wf: "wf_raft sample_behind" by (simp add: sample_behind_def boot_node_def wf_raft_def makeLog_def)
  have "currentTerm sample_behind \<le> aeTerm sample_append" "lastIndex (rlog sample_behind) < aePrevLogIndex sample_append"
    by (simp_all add: sample_behind_def boot_node_def sample_append_def lastIndex_def makeLog_def)
  from AppendEntries_short [OF wf this, of 5] obtain r f' where
    ok: "AppendEntries 5 sample_append sample_behind = Inr (r, f')" "\<not> arSuccess r" by auto
  have "0 < peers sample_leader" "currentTerm sample_behind \<le> currentTerm sample_leader"
    by (simp_all add: sample_leader_def sample_behind_def boot_node_def)
  from rejection_rolls_back [OF inv this(1) sample_leader_message wf this(2) ok] ok(1) sample_leader_message
  show ?thesis by (auto simp: sample_leader_def boot_node_def)
qed

section \<open>A snapshot over a conflicting log\<close>

text \<open>
  One heartbeat of the leader to one follower, delivered, answered and the answer handled;
  and a sequence of them in which a client command reaches the leader before each.
\<close>

definition exchange :: "int \<Rightarrow> nat \<Rightarrow> ('c, 'b) Raft \<Rightarrow> ('c, 'b) Raft \<Rightarrow> (('c, 'b) Raft \<times> ('c, 'b) Raft) res" where
  "exchange now p ld f =
     ebind (leader_message p ld) (\<lambda>m. case m of
       MAppend args \<Rightarrow>
         ebind (AppendEntries now args f) (\<lambda>(r, f').
         ebind (sendAppendEntries_reply p args r ld) (\<lambda>ld'. Inr (ld', f')))
     | MInstall args \<Rightarrow>
         ebind (InstallSnapshot now args f) (\<lambda>(r, f').
         ebind (sendInstallSnapshot_reply p args r ld) (\<lambda>ld'. Inr (ld', f'))))"

fun rounds :: "int \<Rightarrow> nat \<Rightarrow> 'c list \<Rightarrow> ('c, 'b) Raft \<Rightarrow> ('c, 'b) Raft \<Rightarrow> (('c, 'b) Raft \<times> ('c, 'b) Raft) res" where
  "rounds now p [] ld f = Inr (ld, f)"
| "rounds now p (c # cs) ld f =
     ebind (exchange now p (snd (Start c ld)) f) (\<lambda>(ld', f'). rounds now p cs ld' f')"

text \<open>The leader and the follower have a snapshot of the same index but another entry there.\<close>

definition stuck :: "nat \<Rightarrow> ('c, 'b) Raft \<Rightarrow> ('c, 'b) Raft \<Rightarrow> bool" where
  "stuck p ld f \<longleftrightarrow> leader_inv ld \<and> p < peers ld \<and> wf_raft f \<and> currentTerm f \<le> currentTerm ld \<and>
     snapshotIndex f = snapshotIndex ld \<and> nextIndex ld ! p = snapshotIndex ld + 1 \<and>
     eTerm (hd (entries (rlog f))) \<noteq> eTerm (hd (entries (rlog ld)))"

lemma wf_hd: "wf_raft rf \<Longrightarrow> ent (rlog rf) (snapshotIndex rf) = hd (entries (rlog rf))"
  by (simp add: wf_raft_def ent_def hd_conv_nth)

lemma leader_message_at_snapshot:
  assumes inv: "leader_inv ld" and p: "p < peers ld" and n: "nextIndex ld ! p = snapshotIndex ld + 1"
  shows "\<exists>args. leader_message p ld = Inr (MAppend args) \<and> aePrevLogIndex args = snapshotIndex ld \<and>
    aePrevLogTerm args = eTerm (hd (entries (rlog ld))) \<and> aeTerm args = currentTerm ld"
proof -
  note wf = leader_invD(2) [OF inv]
  obtain m where m: "leader_message p ld = Inr m" using leader_message_ok [OF inv p] by blast
  have "\<exists>args. m = MAppend args \<and> aePrevLogIndex args = snapshotIndex ld"
    using m n leader_invD [OF inv] p
    by (auto simp: leader_message_def Let_def ebind_eq_Inr nth_go_def split: if_splits)
  with m leader_message_append [OF _ wf] wf_hd [OF wf] show ?thesis by fastforce
qed

lemma exchange_stuck:
  assumes "stuck p ld f"
  shows "\<exists>ld' f'. exchange now p ld f = Inr (ld', f') \<and> stuck p ld' f' \<and> rlog ld' = rlog ld \<and>
    matchIndex ld' = matchIndex ld \<and> commitIndex ld' = commitIndex ld \<and>
    entries (rlog f') = [hd (entries (rlog f))]"
proof -
  from assms have inv: "leader_inv ld" and p: "p < peers ld" and wf: "wf_raft f"
    and t: "currentTerm f \<le> currentTerm ld" and si: "snapshotIndex f = snapshotIndex ld"
    and ni: "nextIndex ld ! p = snapshotIndex ld + 1"
    and ne: "eTerm (hd (entries (rlog f))) \<noteq> eTerm (hd (entries (rlog ld)))"
    by (simp_all add: stuck_def)
  note lens = leader_invD [OF inv]
  obtain args where args: "leader_message p ld = Inr (MAppend args)" "aePrevLogIndex args = snapshotIndex f"
    "aePrevLogTerm args = eTerm (hd (entries (rlog ld)))" "aeTerm args = currentTerm ld"
    using leader_message_at_snapshot [OF inv p ni] si by auto
  let ?f' = "persistSate ((ack now args f)\<lparr>rlog := (rlog f)\<lparr>entries :=
        take (max 1 (offset (aePrevLogIndex args) f)) (entries (rlog f))\<rparr>\<rparr>)"
  let ?r = "ae_reply f (eTerm (hd (entries (rlog f)))) (snapshotIndex f) False"
  have ae: "AppendEntries now args f = Inr (?r, ?f')"
    using AppendEntries_conflict [OF wf, of args now] t args ne wf_hd [OF wf] wf_last [OF wf] by simp
  have ents: "entries (rlog ?f') = [hd (entries (rlog f))]"
    using wf args(2) by (cases "entries (rlog f)") (simp_all add: wf_raft_def)
  have in_l: "in_log (snapshotIndex ld) (rlog ld)" using wf_last lens(2) by (blast intro: wf_in_log)
  have so: "stepOver (rlog ld) tm (snapshotIndex ld) = Inr (snapshotIndex ld)" for tm
    using stepOver_result [OF in_l, of tm] lens(2) by (force simp: wf_raft_def)
  have rb: "rollBack ?r ld = Inr (snapshotIndex ld + 1)"
    using ne wf_hd [OF lens(2)] by (simp add: rollBack_def si entry_in_log [OF in_l] so)
  have mb: "matchIndex ld ! p + 1 \<le> snapshotIndex ld + 1"
    using leader_inv_bounds(2) [OF inv p] ni by simp
  have same: "(nextIndex ld)[p := snapshotIndex ld + 1] = nextIndex ld"
    using ni by (metis list_update_id)
  have reply: "sendAppendEntries_reply p args ?r ld = Inr ld"
    using args(4) lens p t rb mb same
    by (simp add: sendAppendEntries_reply_def nth_go_def upd_go_def max_absorb2)
  have "wf_raft ?f'" using wf ents by (simp add: wf_raft_def)
  moreover have "currentTerm ?f' = currentTerm ld" using t args(4) by (simp add: currentTerm_ack)
  ultimately have "stuck p ld ?f'" using assms ents si by (simp add: stuck_def)
  moreover have "exchange now p ld f = Inr (ld, ?f')"
    using args(1) ae reply by (simp add: exchange_def)
  ultimately show ?thesis using ents by blast
qed

lemma stuck_Start: "stuck p ld f \<Longrightarrow> stuck p (snd (Start c ld)) f"
proof -
  assume s: "stuck p ld f"
  then have inv: "leader_inv ld" by (simp add: stuck_def)
  have "leader_inv (snd (Start c ld))"
    using leader_invD [OF inv]
    by (intro leader_inv_grow [OF inv]) (simp_all add: Start_def Let_def log_append_def raft_defs lastIndex_def wf_raft_def)
  with s leader_invD [OF inv] show ?thesis
    by (simp add: stuck_def Start_def Let_def log_append_def raft_defs wf_raft_def)
qed

lemma lastIndex_Start: "role ld = LEADER \<Longrightarrow> lastIndex (rlog (snd (Start c ld))) = lastIndex (rlog ld) + 1"
  by (simp add: Start_def Let_def log_append_def raft_defs lastIndex_def)

lemma rounds_stuck:
  "stuck p ld f \<Longrightarrow> \<exists>ld' f'. rounds now p cs ld f = Inr (ld', f') \<and> stuck p ld' f' \<and>
     lastIndex (rlog ld') = lastIndex (rlog ld) + int (length cs) \<and>
     snapshotIndex ld' = snapshotIndex ld \<and>
     (cs \<noteq> [] \<or> length (entries (rlog f)) = 1 \<longrightarrow> length (entries (rlog f')) = 1)"
proof (induction cs arbitrary: ld f)
  case (Cons c cs)
  let ?ld = "snd (Start c ld)"
  obtain ld1 f1 where 1: "exchange now p ?ld f = Inr (ld1, f1)" "stuck p ld1 f1" "rlog ld1 = rlog ?ld"
    and len: "length (entries (rlog f1)) = 1"
    using exchange_stuck [OF stuck_Start [OF Cons.prems], of now c] by auto
  have "lastIndex (rlog ld1) = lastIndex (rlog ld) + 1" "snapshotIndex ld1 = snapshotIndex ld"
    using 1 lastIndex_Start [of ld c] Cons.prems
    by (auto simp: stuck_def leader_inv_def wf_raft_def Start_def Let_def log_append_def raft_defs)
  with 1 len Cons.IH [OF 1(2)] show ?case by (force simp: algebra_simps)
qed auto

lemma exchange_install_conflict:
  assumes inv: "leader_inv ld" and p: "p < peers ld" and wf: "wf_raft f"
    and t: "currentTerm f \<le> currentTerm ld" and n: "nextIndex ld ! p \<le> snapshotIndex ld"
    and i: "snapshotIndex f < snapshotIndex ld" "lastApplied f < snapshotIndex ld"
      "snapshotIndex ld < lastIndex (rlog f)"
    and ne: "eTerm (ent (rlog f) (snapshotIndex ld)) \<noteq> eTerm (hd (entries (rlog ld)))"
  shows "\<exists>ld1 f1. exchange now p ld f = Inr (ld1, f1) \<and> stuck p ld1 f1 \<and> rlog ld1 = rlog ld"
proof -
  note lens = leader_invD [OF inv] and b = leader_inv_bounds [OF inv p]
  let ?s = "snapshotIndex ld"
  let ?args = "\<lparr>isTerm = currentTerm ld, isLeaderId = int (me ld), isLastIncludedIndex = ?s,
    isLastIncludedTerm = snapshotTerm ld, isData = snapshot ld\<rparr>"
  let ?l = "(rlog f)\<lparr>entries := drop (offset ?s f) (entries (rlog f)), index0 := ?s\<rparr>"
  let ?f1 = "applyBroadcast (persist ((acknowledge now (currentTerm ld) (int (me ld)) f)\<lparr>rlog := ?l,
    snapshotIndex := ?s, snapshotTerm := snapshotTerm ld, snapshot := snapshot ld\<rparr>))"
  let ?ld1 = "ld\<lparr>matchIndex := (matchIndex ld)[p := ?s], nextIndex := (nextIndex ld)[p := ?s + 1]\<rparr>"
  have "cutOffHead ?s (rlog f) = Inr ?l"
    using wf i by (simp add: cutOffHead_def slice_from_def wf_raft_def lastIndex_def)
  then have inst: "InstallSnapshot now ?args f = Inr (\<lparr>irTerm = currentTerm f\<rparr>, ?f1)"
    using t i by (simp add: InstallSnapshot_def Let_def)
  have msg: "leader_message p ld = Inr (MInstall ?args)"
    using n b lens p by (simp add: leader_message_def nth_go_def Let_def)
  have reply: "sendInstallSnapshot_reply p ?args \<lparr>irTerm = currentTerm f\<rparr> ld = Inr ?ld1"
    using t b n lens p by (simp add: sendInstallSnapshot_reply_def nth_go_def upd_go_def)
  have s: "0 \<le> ?s" "?s \<le> lastIndex (rlog ld)" using wf_last [OF lens(2)] by auto
  have inv1: "leader_inv ?ld1"
    by (rule leader_inv_set [OF inv p s(1), of "?s + 1"]) (use s in auto)
  have k: "offset ?s f < length (entries (rlog f))" using wf i by (simp add: wf_raft_def lastIndex_def)
  then have hd: "hd (entries ?l) = ent (rlog f) ?s"
    using wf by (simp add: hd_drop_conv_nth ent_def wf_raft_def)
  have "stuck p ?ld1 ?f1"
    using inv1 p k s(1) ne hd t lens
    by (simp add: stuck_def wf_raft_def persist_def applyBroadcast_def currentTerm_ack)
  moreover have "exchange now p ld f = Inr (?ld1, ?f1)"
    using msg inst reply by (simp add: exchange_def)
  ultimately show ?thesis by fastforce
qed

text \<open>
  A follower can be left behind for good. \<^verbatim>\<open>InstallSnapshot\<close> keeps the follower's log
  from the snapshot index on without comparing the entry there with the snapshot's term. If
  the follower has a longer log of another leader at that index, then from the moment it
  installed the snapshot every further round is rejected: however many commands the leader
  appends and sends, its next index for the follower stays right after the snapshot and the
  follower holds one entry, with the wrong term.
\<close>

theorem install_over_conflict_never_catches_up:
  assumes "leader_inv ld" and "p < peers ld" and "wf_raft f"
    and "currentTerm f \<le> currentTerm ld" and "nextIndex ld ! p \<le> snapshotIndex ld"
    and "snapshotIndex f < snapshotIndex ld" and "lastApplied f < snapshotIndex ld"
    and "snapshotIndex ld < lastIndex (rlog f)"
    and "eTerm (ent (rlog f) (snapshotIndex ld)) \<noteq> eTerm (hd (entries (rlog ld)))"
  shows "\<exists>ld1 f1. exchange now p ld f = Inr (ld1, f1) \<and>
    (\<forall>cs. cs \<noteq> [] \<longrightarrow> (\<exists>ld' f'. rounds now p cs ld1 f1 = Inr (ld', f') \<and>
       lastIndex (rlog ld') = lastIndex (rlog ld) + int (length cs) \<and>
       nextIndex ld' ! p = snapshotIndex ld' + 1 \<and> length (entries (rlog f')) = 1 \<and>
       eTerm (hd (entries (rlog f'))) \<noteq> eTerm (hd (entries (rlog ld')))))"
proof -
  obtain ld1 f1 where ex: "exchange now p ld f = Inr (ld1, f1)" and st: "stuck p ld1 f1" and l: "rlog ld1 = rlog ld"
    using exchange_install_conflict [OF assms] by blast
  have "\<exists>ld' f'. rounds now p cs ld1 f1 = Inr (ld', f') \<and>
       lastIndex (rlog ld') = lastIndex (rlog ld) + int (length cs) \<and>
       nextIndex ld' ! p = snapshotIndex ld' + 1 \<and> length (entries (rlog f')) = 1 \<and>
       eTerm (hd (entries (rlog f'))) \<noteq> eTerm (hd (entries (rlog ld')))" if "cs \<noteq> []" for cs
    using rounds_stuck [OF st, of now cs] that l by (auto simp: stuck_def)
  with ex show ?thesis by blast
qed

text \<open>
  A follower that was a leader of term 1 and appended three entries nobody else has; the
  leader of term 2 has replicated two entries elsewhere and taken a snapshot of both.
\<close>

definition old_leader :: "(nat, nat) Raft" where
  "old_leader = (boot_node 3 0)\<lparr>currentTerm := 1,
     rlog := \<lparr>entries = [zeroEntry, \<lparr>eTerm = 1, eCommand = Some 4\<rparr>, \<lparr>eTerm = 1, eCommand = Some 5\<rparr>,
       \<lparr>eTerm = 1, eCommand = Some 6\<rparr>], index0 = 0\<rparr>\<rparr>"

definition new_leader :: "(nat, nat) Raft" where
  "new_leader = (boot_node 3 1)\<lparr>currentTerm := 2, role := LEADER, commitIndex := 2, lastApplied := 2,
     snapshotIndex := 2, snapshotTerm := 2,
     rlog := \<lparr>entries = [\<lparr>eTerm = 2, eCommand = Some 9\<rparr>], index0 = 2\<rparr>,
     nextIndex := [1, 1, 3], matchIndex := [0, 0, 2]\<rparr>"

theorem install_over_conflict_never_catches_up_witness:
  "\<exists>ld1 f1 ld' f'. exchange 5 0 new_leader old_leader = Inr (ld1, f1) \<and>
     rounds 5 0 [1, 2, 3] ld1 f1 = Inr (ld', f') \<and> lastIndex (rlog ld') = 5 \<and> length (entries (rlog f')) = 1"
proof -
  have inv: "leader_inv new_leader"
    by (auto simp: leader_inv_def new_leader_def boot_node_def wf_raft_def lastIndex_def less_Suc_eq numeral_3_eq_3)
  have wf: "wf_raft old_leader" by (simp add: wf_raft_def old_leader_def boot_node_def)
  have l: "lastIndex (rlog new_leader) = 2" by (simp add: new_leader_def lastIndex_def)
  have "\<exists>ld1 f1. exchange 5 0 new_leader old_leader = Inr (ld1, f1) \<and>
    (\<forall>cs. cs \<noteq> [] \<longrightarrow> (\<exists>ld' f'. rounds 5 0 cs ld1 f1 = Inr (ld', f') \<and>
       lastIndex (rlog ld') = lastIndex (rlog new_leader) + int (length cs) \<and>
       nextIndex ld' ! 0 = snapshotIndex ld' + 1 \<and> length (entries (rlog f')) = 1 \<and>
       eTerm (hd (entries (rlog f'))) \<noteq> eTerm (hd (entries (rlog ld')))))"
    by (rule install_over_conflict_never_catches_up [OF inv _ wf])
       (simp_all add: new_leader_def old_leader_def boot_node_def lastIndex_def ent_def)
  then obtain ld1 f1 where 1: "exchange 5 0 new_leader old_leader = Inr (ld1, f1)"
    and 2: "\<forall>cs. cs \<noteq> [] \<longrightarrow> (\<exists>ld' f'. rounds 5 0 cs ld1 f1 = Inr (ld', f') \<and>
       lastIndex (rlog ld') = 2 + int (length cs) \<and>
       nextIndex ld' ! 0 = snapshotIndex ld' + 1 \<and> length (entries (rlog f')) = 1 \<and>
       eTerm (hd (entries (rlog f'))) \<noteq> eTerm (hd (entries (rlog ld'))))"
    unfolding l by blast
  from 2 [rule_format, of "[1, 2, 3]"] 1 show ?thesis by auto
qed

end
