(* ===== verification/Raft_Cluster.thy ===== *)
theory Raft_Cluster
  imports Raft_Applier
begin

text \<open>
  A cluster of peers running the election code of \<^verbatim>\<open>src/raft/leader_election.go\<close> over a
  network that loses, delays and reorders messages, with crashes and restarts from the
  persister. A running \<^verbatim>\<open>leaderElection\<close> goroutine is an \<^verbatim>\<open>election\<close> record: its arguments,
  the state of the \<^verbatim>\<open>sendRequestVote\<close> call to each peer, the reply channel and the local
  variables of \<^verbatim>\<open>countVotes\<close>. Replication handlers run with arbitrary arguments, so the
  result does not depend on what leaders send.

  The result is Election Safety: at most one leader per term. \<^verbatim>\<open>granted\<close> and \<^verbatim>\<open>won\<close> are
  history variables; no step reads them.
\<close>

section \<open>Quorums\<close>

text \<open>The interface between vote counting and the uniqueness argument.\<close>

locale quorum_votes =
  fixes quorum :: "'a set \<Rightarrow> bool"
  assumes quorum_inter: "quorum Q \<Longrightarrow> quorum R \<Longrightarrow> Q \<inter> R \<noteq> {}"
begin

lemma winner_unique:
  assumes once: "\<And>v c c'. G v c \<Longrightarrow> G v c' \<Longrightarrow> c = c'"
    and i: "quorum Q" "\<forall>q \<in> Q - {i}. G q i" "\<And>c. \<not> G i c"
    and j: "quorum R" "\<forall>q \<in> R - {j}. G q j" "\<And>c. \<not> G j c"
  shows "i = j"
proof (rule ccontr)
  assume ne: "i \<noteq> j"
  from quorum_inter [OF i(1) j(1)] obtain q where q: "q \<in> Q" "q \<in> R" by blast
  consider "q = i" | "q = j" | "q \<noteq> i" "q \<noteq> j" by blast
  then show False
  proof cases
    case 1
    with q j(2) ne i(3) show False by blast
  next
    case 2
    with q i(2) ne j(3) show False by blast
  next
    case 3
    with q i(2) j(2) have "G q i" "G q j" by blast+
    with once ne show False by blast
  qed
qed

end

definition is_quorum :: "nat \<Rightarrow> nat set \<Rightarrow> bool" where
  "is_quorum n Q \<longleftrightarrow> Q \<subseteq> {..<n} \<and> majority n \<le> int (card Q)"

interpretation maj: quorum_votes "is_quorum n" for n
proof
  fix Q R assume Q: "is_quorum n Q" and R: "is_quorum n R"
  show "Q \<inter> R \<noteq> {}"
  proof
    assume disj: "Q \<inter> R = {}"
    have fin: "finite Q" "finite R"
      using Q R by (auto simp: is_quorum_def intro: finite_subset [OF _ finite_lessThan])
    then have "card Q + card R = card (Q \<union> R)"
      using disj by (simp add: card_Un_disjoint)
    also have "\<dots> \<le> card {..<n}"
      using Q R by (intro card_mono) (auto simp: is_quorum_def)
    finally have "card Q + card R \<le> n" by simp
    moreover have "n div 2 + 1 \<le> card Q" "n div 2 + 1 \<le> card R"
      using Q R by (simp_all add: is_quorum_def majority_def)
    ultimately show False by presburger
  qed
qed

section \<open>Cluster states and steps\<close>

datatype rpc = RpcSent | RpcExecuted RequestVoteReply | RpcFinished

record election =
  el_server :: nat
  el_args :: RequestVoteArgs
  el_rpc :: "nat \<Rightarrow> rpc"
  el_replyCh :: "(nat \<times> RequestVoteReply option) list"
  el_i :: nat
  el_count :: int
  el_break :: bool
  el_voters :: "nat set"   \<comment> \<open>history: the peers whose vote is in \<^verbatim>\<open>el_count\<close>\<close>

record ('c, 'b) cluster =
  size_c :: nat
  node :: "nat \<Rightarrow> ('c, 'b) Raft"
  elections :: "nat \<Rightarrow> election option"
  granted :: "(nat \<times> int \<times> nat) set"   \<comment> \<open>history: votes granted by \<^verbatim>\<open>RequestVote\<close>\<close>
  won :: "(nat \<times> int) set"              \<comment> \<open>history: elections won\<close>

definition new_election :: "nat \<Rightarrow> nat \<Rightarrow> RequestVoteArgs \<Rightarrow> election" where
  "new_election n i args = \<lparr>el_server = i, el_args = args,
     el_rpc = (\<lambda>p. if p < n \<and> p \<noteq> i then RpcSent else RpcFinished), el_replyCh = [],
     el_i = 0, el_count = 1, el_break = False, el_voters = {}\<rparr>"

definition initial :: "('c, 'b) cluster \<Rightarrow> bool" where
  "initial s \<longleftrightarrow> (\<forall>i < size_c s. \<exists>now. Make (size_c s) i MakePersister now = Inr (node s i)) \<and>
     (\<forall>k. elections s k = None) \<and> granted s = {} \<and> won s = {}"

definition set_node :: "nat \<Rightarrow> ('c, 'b) Raft \<Rightarrow> ('c, 'b) cluster \<Rightarrow> ('c, 'b) cluster" where
  "set_node i rf s = s\<lparr>node := (node s)(i := rf)\<rparr>"

inductive cluster_step :: "('c, 'b) cluster \<Rightarrow> ('c, 'b) cluster \<Rightarrow> bool" where
  start_election:
    "i < size_c s \<Longrightarrow> elections s k = None \<Longrightarrow>
     leaderElection_start now (node s i) = Inr (Some args, rf) \<Longrightarrow>
     cluster_step s ((set_node i rf s)\<lparr>elections := (elections s)(k \<mapsto> new_election (size_c s) i args)\<rparr>)"
| execute_vote:
    "elections s k = Some e \<Longrightarrow> el_rpc e p = RpcSent \<Longrightarrow>
     RequestVote now (el_args e) (node s p) = Inr (reply, rf) \<Longrightarrow>
     cluster_step s ((set_node p rf s)
       \<lparr>granted := (if rrVoteGranted reply
                    then insert (p, rvTerm (el_args e), el_server e) (granted s) else granted s),
        elections := (elections s)(k \<mapsto> e\<lparr>el_rpc := (el_rpc e)(p := RpcExecuted reply)\<rparr>)\<rparr>)"
| return_vote:
    "elections s k = Some e \<Longrightarrow> el_rpc e p = RpcExecuted reply \<Longrightarrow>
     cluster_step s (s\<lparr>elections := (elections s)(k \<mapsto> e\<lparr>el_rpc := (el_rpc e)(p := RpcFinished),
       el_replyCh := el_replyCh e @ [(p, Some reply)]\<rparr>)\<rparr>)"
| lose_vote:
    "elections s k = Some e \<Longrightarrow> el_rpc e p \<noteq> RpcFinished \<Longrightarrow>
     cluster_step s (s\<lparr>elections := (elections s)(k \<mapsto> e\<lparr>el_rpc := (el_rpc e)(p := RpcFinished),
       el_replyCh := el_replyCh e @ [(p, None)]\<rparr>)\<rparr>)"
| count_vote:
    "elections s k = Some e \<Longrightarrow> \<not> el_break e \<Longrightarrow> el_count e < majority (size_c s) \<Longrightarrow>
     int (el_i e) < int (size_c s) - 1 \<Longrightarrow> el_replyCh e = (p, r) # rs \<Longrightarrow>
     countVotes_reply r (el_count e) (node s (el_server e)) = (c, brk, rf) \<Longrightarrow>
     cluster_step s ((set_node (el_server e) rf s)
       \<lparr>elections := (elections s)(k \<mapsto> e\<lparr>el_replyCh := rs, el_i := Suc (el_i e), el_count := c,
          el_break := brk,
          el_voters := (if \<exists>x. r = Some x \<and> rrVoteGranted x then insert p (el_voters e) else el_voters e)\<rparr>)\<rparr>)"
| finish_election:
    "elections s k = Some e \<Longrightarrow>
     el_break e \<or> \<not> (el_count e < majority (size_c s) \<and> int (el_i e) < int (size_c s) - 1) \<Longrightarrow>
     rf = leaderElection_finish (el_args e) (el_count e) (node s (el_server e)) \<Longrightarrow>
     cluster_step s ((set_node (el_server e) rf s)
       \<lparr>won := (if role (node s (el_server e)) = CANDIDATE \<and> role rf = LEADER
                then insert (el_server e, currentTerm rf) (won s) else won s),
        elections := (elections s)(k := None)\<rparr>)"
| peer:
    "i < size_c s \<Longrightarrow> peer_step (node s i) rf \<Longrightarrow> cluster_step s (set_node i rf s)"
| snap:
    "i < size_c s \<Longrightarrow> Snapshot index b (node s i) = Inr rf \<Longrightarrow> cluster_step s (set_node i rf s)"
| apply_poll:
    "i < size_c s \<Longrightarrow> applier_poll (node s i) = Inr (m, rf) \<Longrightarrow> cluster_step s (set_node i rf s)"
| apply_done:
    "i < size_c s \<Longrightarrow> cluster_step s (set_node i (applier_done am (node s i)) s)"
| restart:
    "i < size_c s \<Longrightarrow> Make (size_c s) i (persister (node s i)) now = Inr rf \<Longrightarrow>
     cluster_step s ((set_node i rf s)
       \<lparr>elections := (\<lambda>k. case elections s k of None \<Rightarrow> None
                       | Some e \<Rightarrow> if el_server e = i then None else Some e)\<rparr>)"

inductive cluster_reachable :: "('c, 'b) cluster \<Rightarrow> bool" where
  init: "initial s \<Longrightarrow> cluster_reachable s"
| step: "cluster_reachable s \<Longrightarrow> cluster_step s t \<Longrightarrow> cluster_reachable t"

section \<open>The invariant\<close>

definition node_inv :: "('c, 'b) cluster \<Rightarrow> nat \<Rightarrow> bool" where
  "node_inv s i \<longleftrightarrow> me (node s i) = i \<and> peers (node s i) = size_c s \<and> wf_raft (node s i) \<and>
     durable (node s i) \<and> 0 \<le> currentTerm (node s i) \<and> (role (node s i) \<noteq> FOLLOWER \<longrightarrow> votedFor (node s i) = int i) \<and>
     (role (node s i) = LEADER \<longrightarrow> (i, currentTerm (node s i)) \<in> won s)"

definition granted_inv :: "('c, 'b) cluster \<Rightarrow> nat \<Rightarrow> int \<Rightarrow> nat \<Rightarrow> bool" where
  "granted_inv s v t c \<longleftrightarrow> v < size_c s \<and> v \<noteq> c \<and> t \<le> currentTerm (node s v) \<and>
     (t = currentTerm (node s v) \<longrightarrow> votedFor (node s v) = int c \<and> role (node s v) = FOLLOWER)"

definition won_inv :: "('c, 'b) cluster \<Rightarrow> nat \<Rightarrow> int \<Rightarrow> bool" where
  "won_inv s v t \<longleftrightarrow> v < size_c s \<and> t \<le> currentTerm (node s v) \<and>
     (t = currentTerm (node s v) \<longrightarrow> votedFor (node s v) = int v \<and> role (node s v) \<noteq> CANDIDATE) \<and>
     (\<forall>c. (v, t, c) \<notin> granted s) \<and>
     (\<exists>Q. is_quorum (size_c s) Q \<and> (\<forall>q \<in> Q - {v}. (q, t, v) \<in> granted s))"

abbreviation has_vote :: "('c, 'b) cluster \<Rightarrow> election \<Rightarrow> nat \<Rightarrow> bool" where
  "has_vote s e p \<equiv> (p, rvTerm (el_args e), el_server e) \<in> granted s"

definition election_inv :: "('c, 'b) cluster \<Rightarrow> election \<Rightarrow> bool" where
  "election_inv s e \<longleftrightarrow>
     el_server e < size_c s \<and> rvCandidateId (el_args e) = int (el_server e) \<and>
     (\<forall>p. el_rpc e p \<noteq> RpcFinished \<longrightarrow> p < size_c s \<and> p \<noteq> el_server e) \<and>
     (\<forall>p r. el_rpc e p = RpcExecuted r \<and> rrVoteGranted r \<longrightarrow> has_vote s e p) \<and>
     distinct (map fst (el_replyCh e)) \<and>
     (\<forall>p r. (p, r) \<in> set (el_replyCh e) \<longrightarrow> el_rpc e p = RpcFinished \<and> p \<notin> el_voters e) \<and>
     (\<forall>p x. (p, Some x) \<in> set (el_replyCh e) \<and> rrVoteGranted x \<longrightarrow> has_vote s e p) \<and>
     finite (el_voters e) \<and>
     (\<forall>p \<in> el_voters e. has_vote s e p \<and> el_rpc e p = RpcFinished) \<and>
     el_count e = 1 + int (card (el_voters e))"

definition cluster_inv :: "('c, 'b) cluster \<Rightarrow> bool" where
  "cluster_inv s \<longleftrightarrow>
     (\<forall>i < size_c s. node_inv s i) \<and>
     (\<forall>(v, t, c) \<in> granted s. granted_inv s v t c) \<and>
     (\<forall>v t c c'. (v, t, c) \<in> granted s \<and> (v, t, c') \<in> granted s \<longrightarrow> c = c') \<and>
     (\<forall>(v, t) \<in> won s. won_inv s v t) \<and>
     (\<forall>k e. elections s k = Some e \<longrightarrow> election_inv s e)"

lemma cluster_invD:
  assumes "cluster_inv s"
  shows "i < size_c s \<Longrightarrow> node_inv s i"
    and "(v, t, c) \<in> granted s \<Longrightarrow> granted_inv s v t c"
    and "(v, t, c) \<in> granted s \<Longrightarrow> (v, t, c') \<in> granted s \<Longrightarrow> c = c'"
    and "(v, t) \<in> won s \<Longrightarrow> won_inv s v t"
    and "elections s k = Some e \<Longrightarrow> election_inv s e"
  using assms by (auto simp: cluster_inv_def)

lemma cluster_invI:
  assumes "\<And>i. i < size_c s \<Longrightarrow> node_inv s i"
    and "\<And>v t c. (v, t, c) \<in> granted s \<Longrightarrow> granted_inv s v t c"
    and "\<And>v t c c'. (v, t, c) \<in> granted s \<Longrightarrow> (v, t, c') \<in> granted s \<Longrightarrow> c = c'"
    and "\<And>v t. (v, t) \<in> won s \<Longrightarrow> won_inv s v t"
    and "\<And>k e. elections s k = Some e \<Longrightarrow> election_inv s e"
  shows "cluster_inv s"
  using assms unfolding cluster_inv_def by blast

lemma set_node_simps [simp]:
  "size_c (set_node i rf s) = size_c s" "elections (set_node i rf s) = elections s"
  "granted (set_node i rf s) = granted s" "won (set_node i rf s) = won s"
  "node (set_node i rf s) = (node s)(i := rf)"
  by (simp_all add: set_node_def)

lemma election_inv_cong:
  "size_c t = size_c s \<Longrightarrow> granted s \<subseteq> granted t \<Longrightarrow> election_inv s e \<Longrightarrow> election_inv t e"
  by (fastforce simp: election_inv_def)

text \<open>
  A peer may change in any way that respects its votes: the term does not go back, a new
  term starts as a follower or as a candidate that votes for itself, and within a term a
  follower keeps its vote.
\<close>

definition vote_safe :: "('c, 'b) Raft \<Rightarrow> ('c, 'b) Raft \<Rightarrow> bool" where
  "vote_safe rf rf' \<longleftrightarrow> currentTerm rf \<le> currentTerm rf' \<and>
     (currentTerm rf' = currentTerm rf \<longrightarrow>
        votedFor rf' = votedFor rf \<and> (role rf' = role rf \<or> role rf' = FOLLOWER) \<or>
        role rf = CANDIDATE)"

lemma cluster_inv_set_node:
  assumes inv: "cluster_inv s" and i: "i < size_c s" and safe: "vote_safe (node s i) rf"
    and node: "node_inv (set_node i rf s) i"
  shows "cluster_inv (set_node i rf s)"
proof -
  have "granted_inv (set_node i rf s) v t c" if "(v, t, c) \<in> granted s" for v t c
    using cluster_invD(2) [OF inv that] safe
    by (auto simp: granted_inv_def vote_safe_def)
  moreover have "won_inv (set_node i rf s) v t" if "(v, t) \<in> won s" for v t
    using cluster_invD(4) [OF inv that] safe
    by (auto simp: won_inv_def vote_safe_def)
  moreover have "node_inv (set_node i rf s) j" if "j < size_c s" for j
    using cluster_invD(1) [OF inv that] node by (cases "j = i") (auto simp: node_inv_def)
  moreover have "election_inv (set_node i rf s) e" if "elections s k = Some e" for k e
    using cluster_invD(5) [OF inv that] by (rule election_inv_cong [rotated 2]) simp_all
  ultimately show ?thesis
    using cluster_invD(3) [OF inv] by (auto simp: cluster_inv_def)
qed

lemma cluster_inv_handler:
  assumes inv: "cluster_inv s" and i: "i < size_c s" and ok: "handler_ok (node s i) rf"
  shows "cluster_inv (set_node i rf s)"
proof (rule cluster_inv_set_node [OF inv i])
  have n: "node_inv s i" using inv i by (rule cluster_invD(1))
  have q: "quiet (node s i) rf" using ok by (simp add: handler_ok_def)
  show "vote_safe (node s i) rf"
    using q by (auto simp: vote_safe_def quiet_def)
  show "node_inv (set_node i rf s) i"
  proof (cases "currentTerm rf = currentTerm (node s i)")
    case True
    with n q ok show ?thesis by (auto simp: node_inv_def handler_ok_def quiet_def)
  next
    case False
    with q have "role rf = FOLLOWER" by (auto simp: quiet_def)
    with n q ok show ?thesis by (auto simp: node_inv_def handler_ok_def quiet_def)
  qed
qed

text \<open>Elections come and go without touching the rest of the invariant.\<close>

lemma cluster_inv_elections:
  assumes "cluster_inv s" and "\<And>k e. el k = Some e \<Longrightarrow> election_inv s e"
  shows "cluster_inv (s\<lparr>elections := el\<rparr>)"
proof -
  have "election_inv (s\<lparr>elections := el\<rparr>) e" if "el k = Some e" for k e
    using assms(2) [OF that] by (rule election_inv_cong [rotated 2]) simp_all
  with assms(1) show ?thesis
    by (auto simp: cluster_inv_def node_inv_def granted_inv_def won_inv_def)
qed

lemma election_inv_new:
  assumes "i < size_c s" and "rvCandidateId args = int i"
  shows "election_inv s (new_election (size_c s) i args)"
  using assms by (auto simp: election_inv_def new_election_def)

section \<open>Every step keeps the invariant\<close>

lemma inv_start_election:
  assumes inv: "cluster_inv s" and i: "i < size_c s"
    and st: "leaderElection_start now (node s i) = Inr (Some args, rf)"
  shows "cluster_inv ((set_node i rf s)\<lparr>elections := (elections s)(k \<mapsto> new_election (size_c s) i args)\<rparr>)"
proof -
  note e = leaderElection_start_Some [OF st]
  have n: "node_inv s i" using inv i by (rule cluster_invD(1))
  have "cluster_inv (set_node i rf s)"
  proof (rule cluster_inv_set_node [OF inv i])
    show "vote_safe (node s i) rf" using e by (auto simp: vote_safe_def)
    show "node_inv (set_node i rf s) i"
      using e n by (auto simp: node_inv_def intro: wf_raft_frame)
  qed
  moreover have "election_inv (set_node i rf s) (new_election (size_c s) i args)"
    using election_inv_new [of i "set_node i rf s" args] e n i by (simp add: node_inv_def)
  ultimately show ?thesis
    using cluster_invD(5) [of "set_node i rf s"]
    by (intro cluster_inv_elections) (auto split: if_splits)
qed

text \<open>A vote granted by \<^verbatim>\<open>RequestVote\<close> is the first one of this peer in that term.\<close>

lemma inv_grant:
  assumes inv: "cluster_inv s" and p: "p < size_c s" and c: "c < size_c s" "c \<noteq> p"
    and cand: "rvCandidateId args = int c"
    and rv: "RequestVote now args (node s p) = Inr (reply, rf)" and g: "rrVoteGranted reply"
  shows "cluster_inv ((set_node p rf s)\<lparr>granted := insert (p, rvTerm args, c) (granted s)\<rparr>)"
    (is "cluster_inv ?s'")
proof -
  let ?t = "rvTerm args" and ?rf = "node s p"
  note gs = RequestVote_granted_state [OF rv g]
  have n: "node_inv s p" using inv p by (rule cluster_invD(1))
  have wf: "wf_raft rf" using RequestVote_granted_wf [OF rv g] n by (simp add: node_inv_def)
  have free: "votedFor ?rf = - 1 \<or> votedFor ?rf = int c" if "currentTerm ?rf = ?t"
    using gs that cand by auto
  have fol: "role rf = FOLLOWER"
    using gs free n c(2) cand by (auto simp: node_inv_def)
  have nowin: "(p, ?t) \<notin> won s"
  proof
    assume "(p, ?t) \<in> won s"
    then have "won_inv s p ?t" by (rule cluster_invD(4) [OF inv])
    with gs free c(2) show False by (auto simp: won_inv_def)
  qed
  have once: "c' = c" if "(p, ?t, c') \<in> granted s" for c'
    using cluster_invD(2) [OF inv that] gs free by (auto simp: granted_inv_def)
  have size: "size_c ?s' = size_c s" and elections: "elections ?s' = elections s" by simp_all
  have "node_inv ?s' j" if "j < size_c s" for j
  proof (cases "j = p")
    case True
    with gs n wf fol show ?thesis by (auto simp: node_inv_def)
  next
    case False
    with cluster_invD(1) [OF inv that] show ?thesis by (auto simp: node_inv_def)
  qed
  moreover have "granted_inv ?s' v u d" if "(v, u, d) \<in> granted ?s'" for v u d
  proof (cases "v = p")
    case True
    show ?thesis
    proof (cases "u = ?t")
      case True
      with \<open>v = p\<close> that once have "d = c" by auto
      with True \<open>v = p\<close> gs fol p c(2) cand show ?thesis by (simp add: granted_inv_def)
    next
      case False
      with \<open>v = p\<close> that have "granted_inv s p u d" using cluster_invD(2) [OF inv] by auto
      with False \<open>v = p\<close> gs show ?thesis by (auto simp: granted_inv_def)
    qed
  next
    case False
    with that have "granted_inv s v u d" using cluster_invD(2) [OF inv] by auto
    with False show ?thesis by (auto simp: granted_inv_def)
  qed
  moreover have "d = d'" if "(v, u, d) \<in> granted ?s'" "(v, u, d') \<in> granted ?s'" for v u d d'
    using that once cluster_invD(3) [OF inv] by auto
  moreover have "won_inv ?s' v u" if "(v, u) \<in> won ?s'" for v u
  proof -
    have w: "won_inv s v u" using that by (intro cluster_invD(4) [OF inv]) simp
    then obtain Q where Q: "is_quorum (size_c s) Q" "\<forall>q \<in> Q - {v}. (q, u, v) \<in> granted s"
      by (auto simp: won_inv_def)
    have "\<exists>Q. is_quorum (size_c s) Q \<and> (\<forall>q \<in> Q - {v}. (q, u, v) \<in> granted ?s')"
      using Q by (intro exI [of _ Q]) auto
    with w that nowin gs show ?thesis
      by (auto simp: won_inv_def)
  qed
  moreover have "election_inv ?s' e" if "elections s k = Some e" for k e
    using cluster_invD(5) [OF inv that] by (rule election_inv_cong [rotated 2]) auto
  ultimately show ?thesis
    by (intro cluster_invI) (simp_all only: size elections cluster.simps)
qed

lemma inv_execute_vote:
  assumes inv: "cluster_inv s" and e: "elections s k = Some e" and rpc: "el_rpc e p = RpcSent"
    and rv: "RequestVote now (el_args e) (node s p) = Inr (reply, rf)"
  shows "cluster_inv ((set_node p rf s)
       \<lparr>granted := (if rrVoteGranted reply
                    then insert (p, rvTerm (el_args e), el_server e) (granted s) else granted s),
        elections := (elections s)(k \<mapsto> e\<lparr>el_rpc := (el_rpc e)(p := RpcExecuted reply)\<rparr>)\<rparr>)"
proof -
  let ?g = "if rrVoteGranted reply
            then insert (p, rvTerm (el_args e), el_server e) (granted s) else granted s"
  let ?s1 = "(set_node p rf s)\<lparr>granted := ?g\<rparr>"
  let ?e = "e\<lparr>el_rpc := (el_rpc e)(p := RpcExecuted reply)\<rparr>"
  have ei: "election_inv s e" using inv e by (rule cluster_invD(5))
  then have p: "p < size_c s" "p \<noteq> el_server e" and i: "el_server e < size_c s"
    and cand: "rvCandidateId (el_args e) = int (el_server e)"
    using rpc by (auto simp: election_inv_def)
  have inv1: "cluster_inv ?s1"
  proof (cases "rrVoteGranted reply")
    case True
    with inv_grant [OF inv p(1) i _ cand rv True] p(2) show ?thesis by simp
  next
    case False
    with cluster_inv_handler [OF inv p(1) RequestVote_denied_ok [OF rv False]]
    show ?thesis by (simp add: set_node_def)
  qed
  have "election_inv ?s1 e"
    using ei by (rule election_inv_cong [rotated 2]) auto
  then have "election_inv ?s1 ?e"
    using rpc p by (cases "rrVoteGranted reply") (auto simp: election_inv_def)
  then have "cluster_inv (?s1\<lparr>elections := (elections s)(k \<mapsto> ?e)\<rparr>)"
    using cluster_invD(5) [OF inv1]
    by (intro cluster_inv_elections [OF inv1]) (auto split: if_splits)
  then show ?thesis .
qed

lemma inv_reply_arrives:
  assumes inv: "cluster_inv s" and e: "elections s k = Some e" and rpc: "el_rpc e p \<noteq> RpcFinished"
    and r: "\<And>x. r = Some x \<Longrightarrow> el_rpc e p = RpcExecuted x"
  shows "cluster_inv (s\<lparr>elections := (elections s)(k \<mapsto> e\<lparr>el_rpc := (el_rpc e)(p := RpcFinished),
       el_replyCh := el_replyCh e @ [(p, r)]\<rparr>)\<rparr>)"
proof -
  let ?e = "e\<lparr>el_rpc := (el_rpc e)(p := RpcFinished), el_replyCh := el_replyCh e @ [(p, r)]\<rparr>"
  have ei: "election_inv s e" using inv e by (rule cluster_invD(5))
  have new: "p \<notin> fst ` set (el_replyCh e)" "p \<notin> el_voters e"
    using ei rpc by (auto simp: election_inv_def)
  have "election_inv s ?e"
    using ei new r rpc by (auto simp: election_inv_def)
  then show ?thesis
    using cluster_invD(5) [OF inv]
    by (intro cluster_inv_elections [OF inv]) (auto split: if_splits)
qed

lemma inv_count_vote:
  assumes inv: "cluster_inv s" and e: "elections s k = Some e"
    and ch: "el_replyCh e = (p, r) # rs"
    and cv: "countVotes_reply r (el_count e) (node s (el_server e)) = (c, brk, rf)"
  shows "cluster_inv ((set_node (el_server e) rf s)
       \<lparr>elections := (elections s)(k \<mapsto> e\<lparr>el_replyCh := rs, el_i := Suc (el_i e), el_count := c,
          el_break := brk,
          el_voters := (if \<exists>x. r = Some x \<and> rrVoteGranted x then insert p (el_voters e) else el_voters e)\<rparr>)\<rparr>)"
    (is "cluster_inv (?s1\<lparr>elections := (elections s)(k \<mapsto> ?e)\<rparr>)")
proof -
  have ei: "election_inv s e" using inv e by (rule cluster_invD(5))
  then have i: "el_server e < size_c s" by (simp add: election_inv_def)
  have inv1: "cluster_inv ?s1"
    using inv i countVotes_reply_ok [OF cv] by (rule cluster_inv_handler)
  have "election_inv ?s1 e"
    using ei by (rule election_inv_cong [rotated 2]) auto
  then have "election_inv ?s1 ?e"
    using ch countVotes_reply_count [OF cv]
    by (auto simp: election_inv_def rev_image_eqI)
  then show ?thesis
    using cluster_invD(5) [OF inv1]
    by (intro cluster_inv_elections [OF inv1]) (auto split: if_splits)
qed

text \<open>
  Winning: the candidate is still in the term of the election, so it granted no other vote
  in it, and it holds the votes of a majority.
\<close>

lemma inv_win:
  assumes inv: "cluster_inv s" and e: "election_inv s e"
    and tm: "currentTerm (node s (el_server e)) = rvTerm (el_args e)"
    and cand: "role (node s (el_server e)) = CANDIDATE"
    and maj: "majority (size_c s) \<le> el_count e"
  shows "cluster_inv ((set_node (el_server e) (becomeLeader (node s (el_server e))) s)
           \<lparr>won := insert (el_server e, rvTerm (el_args e)) (won s)\<rparr>)"
    (is "cluster_inv ?s'")
proof -
  let ?i = "el_server e" and ?t = "rvTerm (el_args e)"
  have i: "?i < size_c s" using e by (simp add: election_inv_def)
  have n: "node_inv s ?i" using inv i by (rule cluster_invD(1))
  note bl = becomeLeader_frame [of "node s ?i"]
  have voters: "\<forall>p \<in> el_voters e. has_vote s e p" "finite (el_voters e)"
    and cnt: "el_count e = 1 + int (card (el_voters e))"
    using e by (auto simp: election_inv_def)
  have vp: "p < size_c s \<and> p \<noteq> ?i" if "p \<in> el_voters e" for p
  proof -
    have "has_vote s e p" using voters that by blast
    then have "granted_inv s p ?t ?i" by (rule cluster_invD(2) [OF inv])
    then show ?thesis by (simp add: granted_inv_def)
  qed
  have "?i \<notin> el_voters e" using vp by blast
  then have "card (insert ?i (el_voters e)) = Suc (card (el_voters e))"
    using voters(2) by simp
  then have quorum: "is_quorum (size_c s) (insert ?i (el_voters e))"
    using vp i maj cnt by (auto simp: is_quorum_def)
  have none: "(?i, ?t, c) \<notin> granted s" for c
  proof
    assume "(?i, ?t, c) \<in> granted s"
    then have "granted_inv s ?i ?t c" by (rule cluster_invD(2) [OF inv])
    with tm cand show False by (simp add: granted_inv_def)
  qed
  have size: "size_c ?s' = size_c s" and elections: "elections ?s' = elections s"
    and granted: "granted ?s' = granted s" by simp_all
  have "node_inv ?s' j" if "j < size_c s" for j
    using cluster_invD(1) [OF inv that] n bl tm cand
    by (cases "j = ?i") (auto simp: node_inv_def)
  moreover have "granted_inv ?s' v u c" if "(v, u, c) \<in> granted s" for v u c
    using cluster_invD(2) [OF inv that] bl cand by (auto simp: granted_inv_def)
  moreover have "won_inv ?s' v u" if "(v, u) \<in> won ?s'" for v u
  proof (cases "(v, u) = (?i, ?t)")
    case True
    have "\<exists>Q. is_quorum (size_c s) Q \<and> (\<forall>q \<in> Q - {?i}. (q, ?t, ?i) \<in> granted s)"
      using quorum voters(1) by (intro exI [of _ "insert ?i (el_voters e)"]) auto
    with True none i bl tm n cand show ?thesis
      by (simp add: won_inv_def node_inv_def)
  next
    case False
    then have "won_inv s v u" using that by (intro cluster_invD(4) [OF inv]) auto
    with bl cand show ?thesis by (auto simp: won_inv_def)
  qed
  moreover have "election_inv ?s' e'" if "elections s k = Some e'" for k e'
    using cluster_invD(5) [OF inv that] by (rule election_inv_cong [rotated 2]) auto
  moreover note cluster_invD(3) [OF inv]
  ultimately show ?thesis
    by (intro cluster_invI) (simp_all only: size elections granted)
qed

lemma inv_finish_election:
  assumes inv: "cluster_inv s" and e: "elections s k = Some e"
    and rf: "rf = leaderElection_finish (el_args e) (el_count e) (node s (el_server e))"
  shows "cluster_inv ((set_node (el_server e) rf s)
       \<lparr>won := (if role (node s (el_server e)) = CANDIDATE \<and> role rf = LEADER
                then insert (el_server e, currentTerm rf) (won s) else won s),
        elections := (elections s)(k := None)\<rparr>)"
    (is "cluster_inv (?s1\<lparr>elections := _\<rparr>)")
proof -
  let ?rf = "node s (el_server e)"
  have ei: "election_inv s e" using inv e by (rule cluster_invD(5))
  then have "peers ?rf = size_c s"
    using cluster_invD(1) [OF inv] by (simp add: election_inv_def node_inv_def)
  have "cluster_inv ?s1"
  proof (cases "currentTerm ?rf = rvTerm (el_args e) \<and> role ?rf = CANDIDATE \<and>
      el_count e \<ge> majority (peers ?rf)")
    case True
    then have "rf = becomeLeader ?rf" by (simp add: rf leaderElection_finish_def)
    with True inv_win [OF inv ei] becomeLeader_frame [of ?rf] \<open>peers ?rf = size_c s\<close>
    show ?thesis by simp
  next
    case False
    then have "rf = ?rf" by (auto simp: rf leaderElection_finish_def)
    with inv show ?thesis by (auto simp: set_node_def)
  qed
  then show ?thesis
    using cluster_invD(5) [of ?s1]
    by (intro cluster_inv_elections) (auto split: if_splits)
qed

lemma inv_restart:
  assumes inv: "cluster_inv s" and i: "i < size_c s"
    and mk: "Make (size_c s) i (persister (node s i)) now = Inr rf"
  shows "cluster_inv ((set_node i rf s)
       \<lparr>elections := (\<lambda>k. case elections s k of None \<Rightarrow> None
                       | Some e \<Rightarrow> if el_server e = i then None else Some e)\<rparr>)"
proof -
  have n: "node_inv s i" using inv i by (rule cluster_invD(1))
  then have rec: "currentTerm rf = currentTerm (node s i) \<and> votedFor rf = votedFor (node s i) \<and>
      rlog rf = rlog (node s i) \<and> snapshotIndex rf = snapshotIndex (node s i) \<and>
      snapshotTerm rf = snapshotTerm (node s i) \<and> snapshot rf = snapshot (node s i) \<and>
      persister rf = persister (node s i) \<and> role rf = FOLLOWER \<and> me rf = i \<and> peers rf = size_c s"
    using Make_recovers [of "node s i" "size_c s" i now] mk by (auto simp: node_inv_def)
  have "durable rf" using n rec by (auto simp: node_inv_def intro: durable_frame)
  moreover have "wf_raft rf" using n rec by (auto simp: node_inv_def intro: wf_raft_frame)
  ultimately have "cluster_inv (set_node i rf s)"
    using rec n by (intro cluster_inv_set_node [OF inv i]) (auto simp: vote_safe_def node_inv_def)
  then show ?thesis
    using cluster_invD(5) [of "set_node i rf s"]
    by (intro cluster_inv_elections) (auto split: option.splits if_splits)
qed

lemma cluster_step_inv: "cluster_step s t \<Longrightarrow> cluster_inv s \<Longrightarrow> cluster_inv t"
proof (induction rule: cluster_step.induct)
  case (start_election i s k now args rf)
  then show ?case by (intro inv_start_election)
next
  case (execute_vote s k e p now reply rf)
  then show ?case by (intro inv_execute_vote)
next
  case (return_vote s k e p reply)
  then show ?case by (intro inv_reply_arrives) auto
next
  case (lose_vote s k e p)
  then show ?case by (intro inv_reply_arrives) auto
next
  case (count_vote s k e p r rs c brk rf)
  then show ?case by (intro inv_count_vote)
next
  case (finish_election s k e rf)
  then show ?case by (intro inv_finish_election)
next
  case (peer i s rf)
  then show ?case
    by (intro cluster_inv_handler peer_step_ok) (auto dest: cluster_invD(1) simp: node_inv_def)
next
  case (snap i s index b rf)
  then show ?case by (blast intro: cluster_inv_handler handler_ok_Snapshot)
next
  case (apply_poll i s m rf)
  then show ?case by (blast intro: cluster_inv_handler handler_ok_applier_poll)
next
  case (apply_done i s am)
  then show ?case by (blast intro: cluster_inv_handler handler_ok_applier_done)
next
  case (restart i s now rf)
  then show ?case by (intro inv_restart)
qed

lemma Make_fresh:
  assumes "Make n i MakePersister now = Inr rf"
  shows "me rf = i \<and> peers rf = n \<and> role rf = FOLLOWER \<and> currentTerm rf = 0"
  using assms
  by (auto simp: Make_def Let_def ReadRaftState_def MakePersister_def readPersist_def resetElectionTimer_def)

lemma initial_inv:
  assumes "initial s"
  shows "cluster_inv s"
proof (rule cluster_invI)
  fix i assume "i < size_c s"
  then obtain now where mk: "Make (size_c s) i MakePersister now = Inr (node s i)"
    using assms by (auto simp: initial_def)
  from Make_fresh [OF mk] Make_durable [OF mk] show "node_inv s i"
    by (simp add: node_inv_def)
qed (use assms in \<open>auto simp: initial_def\<close>)

lemma reachable_inv: "cluster_reachable s \<Longrightarrow> cluster_inv s"
  by (induction rule: cluster_reachable.induct) (auto intro: initial_inv cluster_step_inv)

section \<open>Election Safety\<close>

lemma won_unique:
  assumes inv: "cluster_inv s" and i: "(i, t) \<in> won s" and j: "(j, t) \<in> won s"
  shows "i = j"
proof -
  from cluster_invD(4) [OF inv i] obtain Q where
    Q: "is_quorum (size_c s) Q" "\<forall>q \<in> Q - {i}. (q, t, i) \<in> granted s" "\<And>c. (i, t, c) \<notin> granted s"
    by (auto simp: won_inv_def)
  from cluster_invD(4) [OF inv j] obtain R where
    R: "is_quorum (size_c s) R" "\<forall>q \<in> R - {j}. (q, t, j) \<in> granted s" "\<And>c. (j, t, c) \<notin> granted s"
    by (auto simp: won_inv_def)
  show ?thesis
    by (rule maj.winner_unique [where G = "\<lambda>v c. (v, t, c) \<in> granted s", OF _ Q R])
       (rule cluster_invD(3) [OF inv])
qed

lemma leader_won:
  assumes "cluster_inv s" and "k < size_c s" and "role (node s k) = LEADER"
  shows "(k, currentTerm (node s k)) \<in> won s \<and> 0 \<le> currentTerm (node s k)"
  using cluster_invD(1) [OF assms(1,2)] assms(3) by (simp add: node_inv_def)

lemma won_grows: "cluster_step s t \<Longrightarrow> won s \<subseteq> won t \<and> size_c t = size_c s"
  by (induction rule: cluster_step.induct) auto

text \<open>
  C1: Election Safety. In every reachable state of a cluster, over lossy and reordering
  delivery of votes, arbitrary replication messages, crashes and restarts, at most one
  server has ever won the election of a term; and every peer whose role is leader has won
  the election of its current term. So no term has two leaders, at any two moments.
\<close>

theorem election_safety:
  assumes "cluster_reachable s"
  shows "((i, t) \<in> won s \<longrightarrow> (j, t) \<in> won s \<longrightarrow> i = j) \<and>
    (k < size_c s \<longrightarrow> role (node s k) = LEADER \<longrightarrow> (k, currentTerm (node s k)) \<in> won s)"
  using won_unique [OF reachable_inv [OF assms], of i t j] leader_won [OF reachable_inv [OF assms], of k] by blast

text \<open>A three-server cluster at boot, and a run in which server 0 wins term 1.\<close>

definition boot_cluster :: "nat \<Rightarrow> ('c, 'b) cluster" where
  "boot_cluster n = \<lparr>size_c = n, node = boot_node n, elections = (\<lambda>_. None), granted = {}, won = {}\<rparr>"

lemma initial_boot: "initial (boot_cluster n)"
  by (auto simp: initial_def boot_cluster_def intro: Make_boot)

lemma elected_cluster:
  "\<exists>s :: (unit, unit) cluster. cluster_reachable s \<and> size_c s = 3 \<and> role (node s 0) = LEADER \<and> (0, 1) \<in> won s"
proof -
  let ?s0 = "boot_cluster 3 :: (unit, unit) cluster"
  let ?args = "\<lparr>rvTerm = 1, rvCandidateId = 0, rvLastLogIndex = 0, rvLastLogTerm = 0\<rparr>"
  have r0: "cluster_reachable ?s0" by (intro cluster_reachable.init initial_boot)
  obtain rf0 where st: "leaderElection_start 300 (boot_node 3 0 :: (unit, unit) Raft) = Inr (Some ?args, rf0)"
    by (simp add: leaderElection_start_def ELECTION_TIMEOUT_def boot_node_def Let_def raft_defs
        makeLog_def zeroEntry_def lastEntry_nonempty lastIndex_def)
  note e0 = leaderElection_start_Some [OF st]
  let ?e1 = "new_election 3 0 ?args"
  let ?s1 = "(set_node 0 rf0 ?s0)\<lparr>elections := [0 \<mapsto> ?e1]\<rparr>"
  have "cluster_step ?s0 ?s1"
    using cluster_step.start_election [of 0 ?s0 0 300 ?args rf0] st by (simp add: boot_cluster_def)
  with r0 have r1: "cluster_reachable ?s1" by (rule cluster_reachable.step)
  obtain reply rf1 where rv: "RequestVote 300 ?args (boot_node 3 1 :: (unit, unit) Raft) = Inr (reply, rf1)"
    and g: "rrVoteGranted reply"
    by (simp add: RequestVote_def Let_def boot_node_def raft_defs makeLog_def zeroEntry_def
        lastEntry_nonempty lastIndex_def upToDate_def)
  let ?e2 = "?e1\<lparr>el_rpc := (el_rpc ?e1)(1 := RpcExecuted reply)\<rparr>"
  let ?s2 = "(set_node 1 rf1 ?s1)\<lparr>granted := insert (1, 1, 0) (granted ?s1), elections := [0 \<mapsto> ?e2]\<rparr>"
  have "cluster_step ?s1 ?s2"
    using cluster_step.execute_vote [of ?s1 0 ?e1 1 300 reply rf1] rv g
    by (simp add: boot_cluster_def new_election_def)
  with r1 have r2: "cluster_reachable ?s2" by (rule cluster_reachable.step)
  let ?e3 = "?e2\<lparr>el_rpc := (el_rpc ?e2)(1 := RpcFinished), el_replyCh := [(1, Some reply)]\<rparr>"
  let ?s3 = "?s2\<lparr>elections := [0 \<mapsto> ?e3]\<rparr>"
  have "cluster_step ?s2 ?s3"
    using cluster_step.return_vote [of ?s2 0 ?e2 1 reply] by (simp add: new_election_def)
  with r2 have r3: "cluster_reachable ?s3" by (rule cluster_reachable.step)
  let ?e4 = "?e3\<lparr>el_replyCh := [], el_i := 1, el_count := 2, el_break := False, el_voters := {1}\<rparr>"
  let ?s4 = "(set_node 0 rf0 ?s3)\<lparr>elections := [0 \<mapsto> ?e4]\<rparr>"
  have "cluster_step ?s3 ?s4"
    using cluster_step.count_vote [of ?s3 0 ?e3 1 "Some reply" "[]" 2 False rf0] g
    by (simp add: boot_cluster_def new_election_def majority_def countVotes_reply_def)
  with r3 have r4: "cluster_reachable ?s4" by (rule cluster_reachable.step)
  let ?s5 = "(set_node 0 (becomeLeader rf0) ?s4)\<lparr>won := {(0, 1)}, elections := Map.empty\<rparr>"
  have fin: "leaderElection_finish ?args 2 rf0 = becomeLeader rf0"
    using e0 by (simp add: leaderElection_finish_def majority_def boot_node_def)
  have "cluster_step ?s4 ?s5"
    using cluster_step.finish_election [of ?s4 0 ?e4 "becomeLeader rf0"] fin e0 becomeLeader_frame [of rf0]
    by (simp add: boot_cluster_def new_election_def majority_def boot_node_def)
  with r4 have r5: "cluster_reachable ?s5" by (rule cluster_reachable.step)
  with becomeLeader_frame [of rf0] show ?thesis
    by (intro exI [of _ ?s5]) (simp add: boot_cluster_def)
qed

theorem election_safety_witness:
  "\<exists>s :: (unit, unit) cluster. cluster_reachable s \<and> size_c s = 3 \<and> role (node s 0) = LEADER \<and>
     (0, 1) \<in> won s \<and> (\<forall>j. (j, 1) \<in> won s \<longrightarrow> j = 0)"
proof -
  obtain s :: "(unit, unit) cluster" where s: "cluster_reachable s" "size_c s = 3" "role (node s 0) = LEADER" "(0, 1) \<in> won s"
    using elected_cluster by blast
  have "j = 0" if "(j, 1) \<in> won s" for j
    using election_safety [OF s(1), of j 1 0 0] that s(4) by simp
  with s show ?thesis by blast
qed

text \<open>
  C9: Crash recovery. In every reachable state, a peer that is rebuilt from its persister
  alone has the same term, vote, log, snapshot and snapshot position as the peer in memory
  had, and starts as a follower: every handler saves what it changes before it returns, so
  a crash at any point loses no vote and no log entry.
\<close>

theorem crash_recovery:
  assumes "cluster_reachable s" and "i < size_c s"
  shows "\<exists>rf. Make (size_c s) i (persister (node s i)) now = Inr rf \<and>
    currentTerm rf = currentTerm (node s i) \<and> votedFor rf = votedFor (node s i) \<and>
    rlog rf = rlog (node s i) \<and> snapshotIndex rf = snapshotIndex (node s i) \<and>
    snapshotTerm rf = snapshotTerm (node s i) \<and> snapshot rf = snapshot (node s i) \<and> role rf = FOLLOWER"
proof -
  have "node_inv s i" using reachable_inv [OF assms(1)] assms(2) by (rule cluster_invD(1))
  then have "durable (node s i)" "wf_raft (node s i)" by (simp_all add: node_inv_def)
  from Make_recovers [OF this, of "size_c s" i now] show ?thesis by blast
qed

theorem crash_recovery_witness:
  "\<exists>s rf. cluster_reachable (s :: (unit, unit) cluster) \<and> currentTerm (node s 0) = 1 \<and>
     Make 3 0 (persister (node s 0)) 7 = Inr rf \<and> currentTerm rf = 1 \<and> votedFor rf = 0"
proof -
  let ?s0 = "boot_cluster 3 :: (unit, unit) cluster"
  let ?args = "\<lparr>rvTerm = 1, rvCandidateId = 0, rvLastLogIndex = 0, rvLastLogTerm = 0\<rparr>"
  obtain rf0 where st: "leaderElection_start 300 (boot_node 3 0 :: (unit, unit) Raft) = Inr (Some ?args, rf0)"
    by (simp add: leaderElection_start_def ELECTION_TIMEOUT_def boot_node_def Let_def raft_defs
        makeLog_def zeroEntry_def lastEntry_nonempty lastIndex_def)
  note e0 = leaderElection_start_Some [OF st]
  let ?s1 = "(set_node 0 rf0 ?s0)\<lparr>elections := [0 \<mapsto> new_election 3 0 ?args]\<rparr>"
  have "cluster_step ?s0 ?s1"
    using cluster_step.start_election [of 0 ?s0 0 300 ?args rf0] st by (simp add: boot_cluster_def)
  with initial_boot have r1: "cluster_reachable ?s1" by (blast intro: cluster_reachable.intros)
  have "node ?s1 0 = rf0" "size_c ?s1 = 3" by (simp_all add: boot_cluster_def)
  with crash_recovery [OF r1, of 0 7] r1 e0 show ?thesis
    by (intro exI [of _ ?s1]) (auto simp: boot_node_def)
qed

end
