(* ===== verification/Lab_Gob.thy ===== *)
theory Lab_Gob
  imports Go_Prelude "HOL-Library.Word"
begin

text \<open>
  The wrapper of \<^verbatim>\<open>encoding/gob\<close> in \<^verbatim>\<open>labgob/labgob.go\<close>: it looks at the type of each value for field names that gob would skip, and
  at a variable before a value is decoded into it. Types are numbers into a table, because a type may contain
  itself through pointers, slices and maps; a number outside the table is a basic type. Whether a name begins with
  an upper-case letter (\<^verbatim>\<open>unicode.IsUpper\<close>) is an argument, and so is \<^verbatim>\<open>encoding/gob\<close>.

  Shown: the check of types ends on every table, with a panic exactly for types that contain a lower-case field name; which
  fields the check of variables sees; and that it prints one warning in the life of the process.
\<close>

type_synonym bytes = "8 word list"

text \<open>
  What is used of \<^verbatim>\<open>encoding/gob\<close>: encoding a value, decoding into a variable that has a value, both of which may fail, and the value of a
  fresh variable.
\<close>

record 'v gob =
  gobEncode :: "'v \<Rightarrow> bytes option"
  gobDecode :: "bytes \<Rightarrow> 'v \<Rightarrow> 'v option"
  gobZero :: 'v

section \<open>Types\<close>

datatype gotype = Struct "(string \<times> nat) list" | Slice nat | Array nat | Ptr nat | MapType nat nat | BasicType

definition type_of :: "gotype list \<Rightarrow> nat \<Rightarrow> gotype" where
  "type_of env t = (if t < length env then env ! t else BasicType)"

definition left_types :: "gotype list \<Rightarrow> nat set \<Rightarrow> nat" where
  "left_types env checked = card ({..<length env} - checked)"

lemma left_types_mono: "checked \<subseteq> checked' \<Longrightarrow> left_types env checked' \<le> left_types env checked"
  unfolding left_types_def by (rule card_mono) auto

lemma left_types_insert:
  assumes "t \<notin> checked" and "type_of env t \<noteq> BasicType"
  shows "left_types env (insert t checked) < left_types env checked"
proof -
  have "t < length env" using assms(2) by (simp add: type_of_def split: if_splits)
  then show ?thesis unfolding left_types_def using assms(1) by (intro psubset_card_mono) auto
qed

text \<open>
  \<^verbatim>\<open>checkType\<close>, with the set of types checked so far, which it returns together with the panic if there is one; \<^verbatim>\<open>checkFields\<close> is its
  loop over the fields of a struct.
\<close>

function checkType :: "(string \<Rightarrow> bool) \<Rightarrow> gotype list \<Rightarrow> nat \<Rightarrow> nat set \<Rightarrow> nat set \<times> go_error option"
  and checkFields :: "(string \<Rightarrow> bool) \<Rightarrow> gotype list \<Rightarrow> (string \<times> nat) list \<Rightarrow> nat set \<Rightarrow> nat set \<times> go_error option" where
  "checkType upper env t checked =
     (if t \<in> checked then (checked, None)
      else let checked1 = insert t checked in
           case type_of env t of
             Struct fs \<Rightarrow> checkFields upper env fs checked1
           | Slice u \<Rightarrow> checkType upper env u checked1
           | Array u \<Rightarrow> checkType upper env u checked1
           | Ptr u \<Rightarrow> checkType upper env u checked1
           | MapType k u \<Rightarrow>
               (case checkType upper env u checked1 of
                  (checked2, None) \<Rightarrow> checkType upper env k checked2
                | (checked2, Some e) \<Rightarrow> (checked2, Some e))
           | BasicType \<Rightarrow> (checked1, None))"
| "checkFields upper env [] checked = (checked, None)"
| "checkFields upper env ((name, u) # fs) checked =
     (if \<not> upper name then (checked, Some Panicked)
      else case checkType upper env u checked of
             (checked2, None) \<Rightarrow> checkFields upper env fs checked2
           | (checked2, Some e) \<Rightarrow> (checked2, Some e))"
  by pat_completeness auto

termination
proof (relation "inv_image (less_than <*lex*> less_than)
    (\<lambda>x. case x of Inl (upper, env, t, checked) \<Rightarrow> (left_types env checked, 0) | Inr (upper, env, fs, checked) \<Rightarrow> (left_types env checked, length fs))",
    simp_all add: left_types_insert)
  show "wf (inv_image (less_than <*lex*> less_than) (\<lambda>x. case x of
     Inl (upper :: string \<Rightarrow> bool, env, t :: nat, checked) \<Rightarrow> (left_types env checked, 0)
   | Inr (upper :: string \<Rightarrow> bool, env, fs :: (string \<times> nat) list, checked) \<Rightarrow> (left_types env checked, length fs)))" by auto
  have checked_grows: "checkType_checkFields_dom (Inl (upper, env, t, checked)) \<Longrightarrow> checked \<subseteq> fst (checkType upper env t checked)"
    "checkType_checkFields_dom (Inr (upper, env, fs, checked)) \<Longrightarrow> checked \<subseteq> fst (checkFields upper env fs checked)" for upper env t fs checked
  proof (induction upper env t checked and upper env fs checked rule: checkType_checkFields.pinduct)
    case (1 upper env t checked)
    show ?case
    proof (cases "t \<in> checked")
      case True
      then show ?thesis using 1(1) by (simp add: checkType.psimps)
    next
      case False
      show ?thesis
      proof (cases "type_of env t")
        case (MapType k u)
        obtain c r where c: "checkType upper env u (insert t checked) = (c, r)" by force
        show ?thesis using 1(6) [OF False refl MapType] 1(7) [OF False refl MapType c [symmetric]] 1(1) False MapType c
          by (cases r) (auto simp: checkType.psimps)
      qed (use 1 False in \<open>auto simp: checkType.psimps\<close>)
    qed
  next
    case (2 upper env checked)
    then show ?case by (simp add: checkFields.psimps)
  next
    case (3 upper env name u fs checked)
    obtain c r where c: "checkType upper env u checked = (c, r)" by force
    show ?case
    proof (cases "upper name")
      case True
      then show ?thesis using 3(1) 3(2) 3(3) [OF _ c [symmetric]] c by (cases r) (auto simp: checkFields.psimps)
    qed (use 3(1) in \<open>simp add: checkFields.psimps\<close>)
  qed
  have left_types_grows: "left_types env c \<le> left_types env checked"
    if "(c, r) = checkType upper env t checked" "checkType_checkFields_dom (Inl (upper, env, t, checked))" for upper env t checked c r
    using checked_grows(1) [OF that(2)] that(1) [symmetric] by (intro left_types_mono) simp
  show "left_types env c < left_types env checked"
    if "t \<notin> checked" "type_of env t = MapType k u" "(c, None) = checkType upper env u (insert t checked)"
      "checkType_checkFields_dom (Inl (upper, env, u, insert t checked))" for upper env t checked k u c
    using left_types_grows [OF that(3,4)] left_types_insert [OF that(1), of env] that(2) by simp
  show "left_types env c < left_types env checked \<or> left_types env c = left_types env checked"
    if "(c, None) = checkType upper env u checked" "checkType_checkFields_dom (Inl (upper, env, u, checked))" for upper env u checked c
    using left_types_grows [OF that] by auto
qed

declare checkType.simps [simp del]

section \<open>What the check of types finds\<close>

text \<open>The types a type is made of, and the types with a field that gob would skip.\<close>

fun parts :: "gotype \<Rightarrow> nat list" where
  "parts (Struct fs) = map snd fs"
| "parts (Slice u) = [u]"
| "parts (Array u) = [u]"
| "parts (Ptr u) = [u]"
| "parts (MapType k u) = [u, k]"
| "parts BasicType = []"

definition made_of :: "gotype list \<Rightarrow> nat \<Rightarrow> nat \<Rightarrow> bool" where
  "made_of env = (\<lambda>t u. u \<in> set (parts (type_of env t)))\<^sup>*\<^sup>*"

definition hides_field :: "(string \<Rightarrow> bool) \<Rightarrow> gotype list \<Rightarrow> nat \<Rightarrow> bool" where
  "hides_field upper env t \<longleftrightarrow> (case type_of env t of Struct fs \<Rightarrow> \<exists>f \<in> set fs. \<not> upper (fst f) | _ \<Rightarrow> False)"

lemma made_of_refl [simp]: "made_of env t t"
  by (simp add: made_of_def)

lemma made_of_part: "u \<in> set (parts (type_of env t)) \<Longrightarrow> made_of env u v \<Longrightarrow> made_of env t v"
  unfolding made_of_def by (rule converse_rtranclp_into_rtranclp)

text \<open>A set of types is settled if none of them hides a field and their parts are in the set or left to the caller.\<close>

definition settles :: "(string \<Rightarrow> bool) \<Rightarrow> gotype list \<Rightarrow> nat set \<Rightarrow> nat set \<Rightarrow> bool" where
  "settles upper env S C \<longleftrightarrow> (\<forall>x \<in> S. \<not> hides_field upper env x \<and> set (parts (type_of env x)) \<subseteq> C)"

text \<open>What a check that began with the types \<^verbatim>\<open>C\<close> and ended with \<^verbatim>\<open>C'\<close> has done for the types \<^verbatim>\<open>ts\<close>.\<close>

definition did_check :: "(string \<Rightarrow> bool) \<Rightarrow> gotype list \<Rightarrow> nat set \<Rightarrow> nat set \<Rightarrow> nat set \<Rightarrow> go_error option \<Rightarrow> bool" where
  "did_check upper env ts C C' r \<longleftrightarrow> C \<subseteq> C' \<and> (\<forall>x \<in> C' - C. \<exists>t \<in> ts. made_of env t x) \<and>
     (r = None \<longrightarrow> ts \<subseteq> C' \<and> settles upper env (C' - C) C')"

lemma did_check_parts:
  assumes d: "did_check upper env (set (parts (type_of env t))) (insert t C) C' r" and t: "t \<notin> C" and h: "r = None \<Longrightarrow> \<not> hides_field upper env t"
  shows "did_check upper env {t} C C' r"
proof -
  have "made_of env t x" if x: "x \<in> C' - C" for x
  proof (cases "x = t")
    case False
    then obtain u where "u \<in> set (parts (type_of env t))" "made_of env u x" using d x unfolding did_check_def by blast
    then show ?thesis by (rule made_of_part)
  qed simp
  moreover have "settles upper env (C' - C) C'" if "r = None"
    using d that h by (auto simp: did_check_def settles_def)
  ultimately show ?thesis using d by (auto simp: did_check_def)
qed

lemma did_check_seq:
  assumes "did_check upper env S C C1 None" and "did_check upper env T C1 C2 r"
  shows "did_check upper env (S \<union> T) C C2 r"
proof -
  have "C2 - C = (C2 - C1) \<union> (C1 - C)" using assms by (auto simp: did_check_def)
  then show ?thesis using assms unfolding did_check_def settles_def by (simp add: ball_Un) blast
qed

lemma did_check_sub: "did_check upper env S C C1 (Some e) \<Longrightarrow> S \<subseteq> T \<Longrightarrow> did_check upper env T C C1 (Some e)"
  unfolding did_check_def by blast

lemma check_did:
  "checkType upper env t C = (C', r) \<Longrightarrow> did_check upper env {t} C C' r \<and> (r \<noteq> None \<longrightarrow> (\<exists>x. made_of env t x \<and> hides_field upper env x))"
  "checkFields upper env fs C = (C', r) \<Longrightarrow> did_check upper env (snd ` set fs) C C' r \<and> (r = None \<longrightarrow> (\<forall>f \<in> set fs. upper (fst f))) \<and>
     (r \<noteq> None \<longrightarrow> (\<exists>f \<in> set fs. \<not> upper (fst f)) \<or> (\<exists>f \<in> set fs. \<exists>x. made_of env (snd f) x \<and> hides_field upper env x))"
proof (induction upper env t C and upper env fs C arbitrary: C' r and C' r rule: checkType_checkFields.induct)
  case (1 upper env t C)
  show ?case
  proof (cases "t \<in> C")
    case True
    then show ?thesis using 1(7) by (simp add: checkType.simps [of upper env t C] did_check_def settles_def)
  next
    case False
    have ok: ?thesis if d: "did_check upper env (set (parts (type_of env t))) (insert t C) C' r" and n: "r = None \<Longrightarrow> \<not> hides_field upper env t"
      and s: "r \<noteq> None \<Longrightarrow> hides_field upper env t \<or> (\<exists>u \<in> set (parts (type_of env t)). \<exists>x. made_of env u x \<and> hides_field upper env x)"
      using did_check_parts [OF d False n] s made_of_part made_of_refl by metis
    show ?thesis
    proof (cases "type_of env t")
      case (Struct fs)
      have "checkFields upper env fs (insert t C) = (C', r)" using 1(7) False Struct by (simp add: checkType.simps [of upper env t C] Let_def)
      from 1(1) [OF False refl Struct this] show ?thesis using Struct by (intro ok) (auto simp: hides_field_def)
    next
      case (Slice u)
      have "checkType upper env u (insert t C) = (C', r)" using 1(7) False Slice by (simp add: checkType.simps [of upper env t C] Let_def)
      from 1(2) [OF False refl Slice this] show ?thesis using Slice by (intro ok) (auto simp: hides_field_def)
    next
      case (Array u)
      have "checkType upper env u (insert t C) = (C', r)" using 1(7) False Array by (simp add: checkType.simps [of upper env t C] Let_def)
      from 1(3) [OF False refl Array this] show ?thesis using Array by (intro ok) (auto simp: hides_field_def)
    next
      case (Ptr u)
      have "checkType upper env u (insert t C) = (C', r)" using 1(7) False Ptr by (simp add: checkType.simps [of upper env t C] Let_def)
      from 1(4) [OF False refl Ptr this] show ?thesis using Ptr by (intro ok) (auto simp: hides_field_def)
    next
      case (MapType k u)
      obtain c q where c: "checkType upper env u (insert t C) = (c, q)" by force
      note u = 1(5) [OF False refl MapType c]
      show ?thesis
      proof (cases q)
        case None
        then have k: "checkType upper env k c = (C', r)" using 1(7) False MapType c by (simp add: checkType.simps [of upper env t C] Let_def)
        from 1(6) [OF False refl MapType c [symmetric] None k] did_check_seq [of upper env "{u}" "insert t C" c "{k}" C' r] u None
        show ?thesis using MapType by (intro ok) (auto simp: hides_field_def insert_commute)
      next
        case (Some e)
        then have "(C', r) = (c, Some e)" using 1(7) False MapType c by (simp add: checkType.simps [of upper env t C] Let_def)
        then show ?thesis using u Some MapType did_check_sub [of upper env "{u}" "insert t C" c e "{u, k}"] by (intro ok) auto
      qed
    next
      case BasicType
      then have "(C', r) = (insert t C, None)" using 1(7) False by (simp add: checkType.simps [of upper env t C] Let_def)
      then show ?thesis using BasicType by (intro ok) (auto simp: did_check_def settles_def hides_field_def)
    qed
  qed
next
  case (2 upper env C)
  then show ?case by (simp add: did_check_def settles_def)
next
  case (3 upper env name u fs C)
  obtain c q where c: "checkType upper env u C = (c, q)" by force
  show ?case
  proof (cases "upper name")
    case False
    then show ?thesis using 3(3) by (auto simp: did_check_def)
  next
    case True
    note u = 3(1) [OF _ c]
    show ?thesis
    proof (cases q)
      case None
      then have f: "checkFields upper env fs c = (C', r)" using 3(3) True c by simp
      have "\<not> \<not> upper name" using True by simp
      from 3(2) [OF this c [symmetric] None f] u None did_check_seq [of upper env "{u}" C c "snd ` set fs" C' r] True show ?thesis by auto
    next
      case (Some e)
      then have "(C', r) = (c, Some e)" using 3(3) True c by simp
      then show ?thesis using u Some True did_check_sub [of upper env "{u}" C c e "snd ` set ((name, u) # fs)"] by auto
    qed
  qed
qed

lemma check_grows: "checkType upper env t C = (C', r) \<Longrightarrow> C \<subseteq> C'" "checkFields upper env fs C = (C', r) \<Longrightarrow> C \<subseteq> C'"
  using check_did(1) [of upper env t C C' r] check_did(2) [of upper env fs C C' r] by (auto simp: did_check_def)

lemma check_marks:
  assumes "checkType upper env t C = (C', r)"
  shows "t \<in> C'"
proof (cases "t \<in> C")
  case True
  then show ?thesis using check_grows(1) [OF assms] by auto
next
  case False
  then have e: "checkType upper env t C = (case type_of env t of
        Struct fs \<Rightarrow> checkFields upper env fs (insert t C)
      | Slice u \<Rightarrow> checkType upper env u (insert t C) | Array u \<Rightarrow> checkType upper env u (insert t C) | Ptr u \<Rightarrow> checkType upper env u (insert t C)
      | MapType k u \<Rightarrow> (case checkType upper env u (insert t C) of (c, None) \<Rightarrow> checkType upper env k c | (c, Some e) \<Rightarrow> (c, Some e))
      | BasicType \<Rightarrow> (insert t C, None))" by (simp add: checkType.simps [of upper env t C] Let_def)
  show ?thesis
  proof (cases "type_of env t")
    case (MapType k u)
    obtain c q where c: "checkType upper env u (insert t C) = (c, q)" by force
    then have "t \<in> c" using check_grows(1) [OF c] by auto
    moreover have "c \<subseteq> C'" using assms e MapType c check_grows(1) [of upper env k c] by (cases q) auto
    ultimately show ?thesis by blast
  qed (use assms e check_grows(1) [of upper env _ "insert t C" C' r] check_grows(2) [of upper env _ "insert t C" C' r] in auto)
qed

section \<open>Operations\<close>

text \<open>The package's variables: the types checked, the number of errors, and what was printed.\<close>

record labgob =
  lgChecked :: "nat set"
  lgErrors :: int
  lgPrinted :: "string list"

text \<open>\<^verbatim>\<open>reflect.TypeOf(nil)\<close> is nil, and its \<^verbatim>\<open>Kind\<close> a panic.\<close>

definition checkValue :: "(string \<Rightarrow> bool) \<Rightarrow> gotype list \<Rightarrow> nat option \<Rightarrow> labgob \<Rightarrow> labgob \<times> go_error option" where
  "checkValue upper env t lg =
     (case t of
        None \<Rightarrow> (lg, Some NilPointer)
      | Some t \<Rightarrow> (case checkType upper env t (lgChecked lg) of (C, r) \<Rightarrow> (lg\<lparr>lgChecked := C\<rparr>, r)))"

text \<open>
  A variable as reflection shows it: a struct with its fields, a pointer into the store, a value of a basic type with the name of the type and
  whether it is its zero value, and every other kind.
\<close>

datatype govar = StructVar "(string \<times> govar) list" | PtrVar "nat option" | BasicVar string bool | OtherVar

function checkDefault1 :: "(nat \<Rightarrow> govar) \<Rightarrow> govar \<Rightarrow> int \<Rightarrow> string \<Rightarrow> labgob \<Rightarrow> labgob" where
  "checkDefault1 h var depth name lg =
     (if depth > 3 then lg
      else case var of
             StructVar fs \<Rightarrow> fold (\<lambda>(n, vv) lg. checkDefault1 h vv (depth + 1) (if name \<noteq> '''' then name @ ''.'' @ n else n) lg) fs lg
           | PtrVar None \<Rightarrow> lg
           | PtrVar (Some a) \<Rightarrow> checkDefault1 h (h a) (depth + 1) name lg
           | BasicVar t zero \<Rightarrow>
               if \<not> zero
               then let lg1 = (if lgErrors lg < 1 then lg\<lparr>lgPrinted := lgPrinted lg @ [if name = '''' then t else name]\<rparr> else lg)
                    in lg1\<lparr>lgErrors := lgErrors lg1 + 1\<rparr>
               else lg
           | OtherVar \<Rightarrow> lg)"
  by pat_completeness auto
termination
  by (relation "measure (\<lambda>(h, var, depth, name, lg). nat (4 - depth))") auto

declare checkDefault1.simps [simp del]

text \<open>A nil interface is skipped; \<^verbatim>\<open>Decode\<close> has already looked at its type.\<close>

definition checkDefault :: "(nat \<Rightarrow> govar) \<Rightarrow> govar option \<Rightarrow> labgob \<Rightarrow> labgob" where
  "checkDefault h var lg = (case var of None \<Rightarrow> lg | Some v \<Rightarrow> checkDefault1 h v 1 '''' lg)"

definition Lab_Encode :: "(string \<Rightarrow> bool) \<Rightarrow> gotype list \<Rightarrow> 'v gob \<Rightarrow> nat option \<Rightarrow> 'v \<Rightarrow> labgob \<Rightarrow> labgob \<times> bytes option res" where
  "Lab_Encode upper env g t e lg =
     (case checkValue upper env t lg of
        (lg1, Some err) \<Rightarrow> (lg1, Inl err)
      | (lg1, None) \<Rightarrow> (lg1, Inr (gobEncode g e)))"

definition Lab_Decode :: "(string \<Rightarrow> bool) \<Rightarrow> gotype list \<Rightarrow> (nat \<Rightarrow> govar) \<Rightarrow> 'v gob \<Rightarrow> nat option \<Rightarrow> govar option \<Rightarrow> bytes \<Rightarrow> 'v \<Rightarrow> labgob \<Rightarrow> labgob \<times> 'v option res" where
  "Lab_Decode upper env h g t var b e lg =
     (case checkValue upper env t lg of
        (lg1, Some err) \<Rightarrow> (lg1, Inl err)
      | (lg1, None) \<Rightarrow> (checkDefault h var lg1, Inr (gobDecode g b e)))"

definition Register :: "(string \<Rightarrow> bool) \<Rightarrow> gotype list \<Rightarrow> nat option \<Rightarrow> labgob \<Rightarrow> labgob \<times> unit res" where
  "Register upper env t lg = (case checkValue upper env t lg of (lg1, Some err) \<Rightarrow> (lg1, Inl err) | (lg1, None) \<Rightarrow> (lg1, Inr ()))"

section \<open>Properties\<close>

text \<open>A table with a list type that contains itself and a struct with a lower-case field in a map.\<close>

definition demo_types :: "gotype list" where
  "demo_types = [Struct [(''Val'', 9), (''Next'', 1)], Ptr 0, MapType 9 3, Struct [(''Yes'', 9), (''no'', 9)]]"

definition demo_upper :: "string \<Rightarrow> bool" where
  "demo_upper s \<longleftrightarrow> s \<noteq> [] \<and> 65 \<le> (of_char (hd s) :: nat) \<and> (of_char (hd s) :: nat) \<le> 90"

text \<open>C32: The check of a type ends on every table of types, also if types contain themselves. If the types checked before were in order, it panics exactly if the type is
  made of some type with a lower-case field, and otherwise it has checked exactly the types it is made of. After
  a panic the type counts as checked: a program that recovers and encodes the value again is not told.\<close>

theorem gob_check_decides:
  assumes "settles upper env C C" and "checkType upper env t C = (C', r)"
  shows "(r = None \<longleftrightarrow> (\<forall>x. made_of env t x \<longrightarrow> \<not> hides_field upper env x)) \<and>
    (r = None \<longrightarrow> C' = C \<union> {x. made_of env t x} \<and> settles upper env C' C') \<and> checkType upper env t C' = (C', None)"
proof -
  note d = check_did(1) [OF assms(2)]
  have in_order: "settles upper env C' C'" "{x. made_of env t x} \<subseteq> C'" if r: "r = None"
  proof -
    show s: "settles upper env C' C'" using d r assms(1) unfolding did_check_def settles_def by blast
    have "x \<in> C'" if "made_of env t x" for x
      using that unfolding made_of_def by (induction rule: rtranclp_induct) (use d r s in \<open>auto simp: did_check_def settles_def\<close>)
    then show "{x. made_of env t x} \<subseteq> C'" by blast
  qed
  have "C' \<subseteq> C \<union> {x. made_of env t x}" "C \<subseteq> C'" using d by (auto simp: did_check_def)
  moreover have "checkType upper env t C' = (C', None)" using check_marks [OF assms(2)] by (simp add: checkType.simps)
  moreover have "\<not> hides_field upper env x" if "r = None" "made_of env t x" for x using in_order [OF that(1)] that(2) by (auto simp: settles_def)
  ultimately show ?thesis using in_order d by (cases r) auto
qed

theorem gob_check_decides_witness:
  "\<exists>x. made_of demo_types 2 x \<and> hides_field demo_upper demo_types x"
proof -
  have "type_of demo_types 2 = MapType 9 3" "type_of demo_types 3 = Struct [(''Yes'', 9), (''no'', 9)]" "type_of demo_types 9 = BasicType"
    by (simp_all add: type_of_def demo_types_def)
  then have "checkType demo_upper demo_types 2 {} = ({2, 3, 9}, Some Panicked)"
    by (simp add: checkType.simps demo_upper_def insert_commute)
  from gob_check_decides [OF _ this] show ?thesis by (auto simp: settles_def)
qed

text \<open>The fields of a struct that the check of variables complains about.\<close>

fun flagged :: "string \<times> govar \<Rightarrow> string list" where
  "flagged (n, BasicVar t zero) = (if zero then [] else [if n = '''' then t else n])"
| "flagged (n, v) = []"

definition warned_once :: "labgob \<Rightarrow> bool" where
  "warned_once lg \<longleftrightarrow> 0 \<le> lgErrors lg \<and> length (lgPrinted lg) = (if lgErrors lg > 0 then 1 else 0)"

lemma fold_keeps: "\<forall>x \<in> set xs. \<forall>s. P s \<longrightarrow> P (f x s) \<Longrightarrow> P s \<Longrightarrow> P (fold f xs s)"
  by (induction xs arbitrary: s) simp_all

lemma warned_once_default1: "warned_once lg \<Longrightarrow> warned_once (checkDefault1 h var depth name lg)"
proof (induction h var depth name lg rule: checkDefault1.induct)
  case (1 h var depth name lg)
  show ?case
  proof (cases "depth > 3")
    case True
    then show ?thesis using 1(3) by (simp add: checkDefault1.simps)
  next
    case False
    show ?thesis
    proof (cases var)
      case (StructVar fs)
      have "warned_once (fold (\<lambda>(n, vv) lg. checkDefault1 h vv (depth + 1) (if name \<noteq> '''' then name @ ''.'' @ n else n) lg) fs lg)"
        by (rule fold_keeps) (use 1(1) [OF False StructVar] 1(3) in auto)
      then show ?thesis using False StructVar by (simp add: checkDefault1.simps [of h _ depth])
    next
      case (PtrVar p)
      then show ?thesis using 1(2,3) False by (cases p) (simp_all add: checkDefault1.simps [of h _ depth])
    qed (use 1(3) False in \<open>auto simp: checkDefault1.simps [of h _ depth] warned_once_def Let_def\<close>)
  qed
qed

lemma checkDefault1_field:
  "checkDefault1 h v 3 n lg = lg\<lparr>lgErrors := lgErrors lg + int (length (flagged (n, v))),
     lgPrinted := lgPrinted lg @ (if lgErrors lg < 1 then flagged (n, v) else [])\<rparr>"
proof (cases v)
  case (StructVar fs)
  have "fold (\<lambda>(n', vv) lg. checkDefault1 h vv 4 (if n \<noteq> '''' then n @ ''.'' @ n' else n') lg) fs lg = lg"
    by (rule fold_keeps [where P = "\<lambda>s. s = lg"]) (auto simp: checkDefault1.simps [of h _ 4])
  then show ?thesis using StructVar by (simp add: checkDefault1.simps [of h _ 3])
next
  case (PtrVar p)
  then show ?thesis by (cases p) (simp_all add: checkDefault1.simps)
qed (simp_all add: checkDefault1.simps [of h _ 3])

lemma fold_flagged:
  assumes "0 \<le> lgErrors lg"
  shows "fold (\<lambda>f lg. lg\<lparr>lgErrors := lgErrors lg + int (length (flagged f)), lgPrinted := lgPrinted lg @ (if lgErrors lg < 1 then flagged f else [])\<rparr>) fs lg =
    lg\<lparr>lgErrors := lgErrors lg + int (length (concat (map flagged fs))),
       lgPrinted := lgPrinted lg @ (if lgErrors lg < 1 then take 1 (concat (map flagged fs)) else [])\<rparr>"
  using assms
proof (induction fs arbitrary: lg)
  case (Cons f fs)
  obtain n v where f: "f = (n, v)" by force
  have "flagged (n, v) = [] \<or> (\<exists>x. flagged (n, v) = [x])" by (cases v) auto
  then show ?case using Cons.prems by (auto simp: f Cons.IH)
qed simp

lemma fold_fields: "fold (\<lambda>(n, vv) lg. checkDefault1 h vv 3 n lg) fs lg =
    fold (\<lambda>f lg. lg\<lparr>lgErrors := lgErrors lg + int (length (flagged f)), lgPrinted := lgPrinted lg @ (if lgErrors lg < 1 then flagged f else [])\<rparr>) fs lg"
  by (simp add: checkDefault1_field case_prod_beta' cong: if_cong)

text \<open>What \<^verbatim>\<open>Decode\<close> notices of a variable that is not fresh. For a pointer to a struct, as replies are, each field of a
  basic type that is not zero counts as an error; fields that are structs, pointers, slices or maps are not looked into.
  Only the first error in the life of the process prints a warning.\<close>

theorem gob_default_warns:
  assumes "warned_once lg" and "h a = StructVar fs"
  shows "(let lg' = checkDefault h (Some (PtrVar (Some a))) lg; bad = concat (map flagged fs) in
      lgErrors lg' = lgErrors lg + int (length bad) \<and>
      lgPrinted lg' = lgPrinted lg @ (if lgErrors lg = 0 then take 1 bad else [])) \<and>
    warned_once (checkDefault h var lg)"
proof -
  have "checkDefault h (Some (PtrVar (Some a))) lg = fold (\<lambda>(n, vv) lg. checkDefault1 h vv 3 n lg) fs lg"
    by (simp add: checkDefault_def checkDefault1.simps [of h _ 1] checkDefault1.simps [of h _ 2] assms(2))
  moreover have "0 \<le> lgErrors lg" using assms(1) by (simp add: warned_once_def)
  moreover have "warned_once (checkDefault h var lg)" using assms(1) by (simp add: checkDefault_def warned_once_default1 split: option.splits)
  ultimately show ?thesis by (simp add: fold_fields fold_flagged Let_def)
qed

theorem gob_default_warns_witness:
  "let lg' = checkDefault (\<lambda>_. StructVar [(''Err'', BasicVar ''string'' False), (''Inner'', StructVar [(''X'', BasicVar ''int'' False)])]) (Some (PtrVar (Some 0)))
      \<lparr>lgChecked = {}, lgErrors = 0, lgPrinted = []\<rparr>
   in lgErrors lg' = 1 \<and> lgPrinted lg' = [''Err'']"
  using gob_default_warns [of "\<lparr>lgChecked = {}, lgErrors = 0, lgPrinted = []\<rparr>"
      "\<lambda>_. StructVar [(''Err'', BasicVar ''string'' False), (''Inner'', StructVar [(''X'', BasicVar ''int'' False)])]" 0, OF _ refl]
  by (simp add: warned_once_def Let_def)

end
