(* ===== verification/Rpc_Network.thy ===== *)
theory Rpc_Network
  imports Lab_Gob
begin

text \<open>
  The simulated network of the tests, \<^verbatim>\<open>labrpc/labrpc.go\<close>: client ends, servers with their services, the goroutine that
  accepts requests and the one that processes each of them, and the operations by which a test
  reconfigures the network.

  A server is an address in a list of server objects, because the network compares servers by
  pointer. The encoding \<^verbatim>\<open>encoding/gob\<close> and the handlers of the services are arguments. Random numbers and
  delays are choices of the step relation.
\<close>

section \<open>Names of methods\<close>

text \<open>\<^verbatim>\<open>strings.LastIndex(s, ".")\<close>\<close>

fun last_dot :: "string \<Rightarrow> int" where
  "last_dot [] = - 1"
| "last_dot (c # cs) = (let i = last_dot cs in if i \<noteq> - 1 then i + 1 else if c = CHR ''.'' then 0 else - 1)"

definition split_method :: "string \<Rightarrow> (string \<times> string) res" where
  "split_method svcMeth =
     (let dot = last_dot svcMeth in
      ebind (slice_to svcMeth dot) (\<lambda>serviceName.
      ebind (slice_from svcMeth (dot + 1)) (\<lambda>methodName.
      Inr (serviceName, methodName))))"

section \<open>Services and servers\<close>

text \<open>What \<^verbatim>\<open>MakeService\<close> reads of a method by reflection.\<close>

record rmethod =
  mtName :: string
  mtPkgPath :: string
  mtNumIn :: int
  mtIn2Ptr :: bool
  mtNumOut :: int

record Service =
  svName :: string
  svMethods :: "string \<rightharpoonup> rmethod"

definition suitable :: "rmethod \<Rightarrow> bool" where
  "suitable m \<longleftrightarrow> \<not> (mtPkgPath m \<noteq> '''' \<or> mtNumIn m \<noteq> 3 \<or> \<not> mtIn2Ptr m \<or> mtNumOut m \<noteq> 0)"

definition MakeService :: "string \<Rightarrow> rmethod list \<Rightarrow> Service" where
  "MakeService name ms = \<lparr>svName = name, svMethods = fold (\<lambda>m acc. if suitable m then acc(mtName m \<mapsto> m) else acc) ms Map.empty\<rparr>"

record Server =
  rsServices :: "string \<rightharpoonup> Service"
  rsCount :: int

definition MakeServer :: Server where
  "MakeServer = \<lparr>rsServices = Map.empty, rsCount = 0\<rparr>"

definition AddService :: "Service \<Rightarrow> Server \<Rightarrow> Server" where
  "AddService svc rs = rs\<lparr>rsServices := (rsServices rs)(svName svc \<mapsto> svc)\<rparr>"

definition Server_GetCount :: "Server \<Rightarrow> int" where
  "Server_GetCount rs = rsCount rs"

text \<open>
  Both \<^verbatim>\<open>dispatch\<close> functions up to the call of the method: the server with its count, and the names of the service and the method,
  or the end of the process.
\<close>

definition Service_dispatch :: "string \<Rightarrow> Service \<Rightarrow> rmethod res" where
  "Service_dispatch methname svc = (case svMethods svc methname of Some m \<Rightarrow> Inr m | None \<Rightarrow> Inl FatalError)"

definition Server_dispatch :: "string \<Rightarrow> Server \<Rightarrow> Server \<times> (string \<times> string) res" where
  "Server_dispatch svcMeth rs =
     (rs\<lparr>rsCount := rsCount rs + 1\<rparr>,
      ebind (split_method svcMeth) (\<lambda>(serviceName, methodName).
      case rsServices rs serviceName of
        Some service \<Rightarrow> ebind (Service_dispatch methodName service) (\<lambda>_. Inr (serviceName, methodName))
      | None \<Rightarrow> Inl FatalError))"

section \<open>The network\<close>

record 'e ClientEnd =
  ceName :: 'e

text \<open>
  A missing key of \<^verbatim>\<open>enabled\<close> reads as false; a missing server or connection reads as nil. \<^verbatim>\<open>rnRunning\<close> is the goroutine that
  accepts requests.
\<close>

record ('e, 'n) Network =
  rnReliable :: bool
  rnLongDelays :: bool
  rnLongReordering :: bool
  rnEnds :: "'e \<rightharpoonup> 'e ClientEnd"
  rnEnabled :: "'e \<Rightarrow> bool"
  rnServers :: "'n \<Rightarrow> nat option"
  rnConnections :: "'e \<Rightarrow> 'n option"
  rnDone :: bool
  rnRunning :: bool
  rnCount :: "32 word"
  rnBytes :: "64 word"

definition MakeNetwork :: "('e, 'n) Network" where
  "MakeNetwork = \<lparr>rnReliable = True, rnLongDelays = False, rnLongReordering = False, rnEnds = Map.empty, rnEnabled = (\<lambda>_. False),
     rnServers = (\<lambda>_. None), rnConnections = (\<lambda>_. None), rnDone = False, rnRunning = True, rnCount = 0, rnBytes = 0\<rparr>"

definition Cleanup :: "('e, 'n) Network \<Rightarrow> ('e, 'n) Network" where
  "Cleanup rn = rn\<lparr>rnDone := True\<rparr>"

definition Reliable :: "bool \<Rightarrow> ('e, 'n) Network \<Rightarrow> ('e, 'n) Network" where
  "Reliable yes rn = rn\<lparr>rnReliable := yes\<rparr>"

definition LongReordering :: "bool \<Rightarrow> ('e, 'n) Network \<Rightarrow> ('e, 'n) Network" where
  "LongReordering yes rn = rn\<lparr>rnLongReordering := yes\<rparr>"

definition LongDelays :: "bool \<Rightarrow> ('e, 'n) Network \<Rightarrow> ('e, 'n) Network" where
  "LongDelays yes rn = rn\<lparr>rnLongDelays := yes\<rparr>"

definition readEndnameInfo :: "'e \<Rightarrow> ('e, 'n) Network \<Rightarrow> bool \<times> 'n option \<times> nat option \<times> bool \<times> bool" where
  "readEndnameInfo endname rn =
     (let servername = rnConnections rn endname in
      (rnEnabled rn endname, servername, (case servername of None \<Rightarrow> None | Some n \<Rightarrow> rnServers rn n), rnReliable rn, rnLongReordering rn))"

definition isServerDead :: "'e \<Rightarrow> 'n \<Rightarrow> nat \<Rightarrow> ('e, 'n) Network \<Rightarrow> bool" where
  "isServerDead endname servername server rn \<longleftrightarrow> rnEnabled rn endname = False \<or> rnServers rn servername \<noteq> Some server"

definition MakeEnd :: "'e \<Rightarrow> ('e, 'n) Network \<Rightarrow> ('e ClientEnd \<times> ('e, 'n) Network) res" where
  "MakeEnd endname rn =
     (if rnEnds rn endname \<noteq> None then Inl FatalError
      else let e = \<lparr>ceName = endname\<rparr> in
           Inr (e, rn\<lparr>rnEnds := (rnEnds rn)(endname \<mapsto> e), rnEnabled := (rnEnabled rn)(endname := False),
                      rnConnections := (rnConnections rn)(endname := None)\<rparr>))"

definition AddServer :: "'n \<Rightarrow> nat \<Rightarrow> ('e, 'n) Network \<Rightarrow> ('e, 'n) Network" where
  "AddServer servername rs rn = rn\<lparr>rnServers := (rnServers rn)(servername := Some rs)\<rparr>"

definition DeleteServer :: "'n \<Rightarrow> ('e, 'n) Network \<Rightarrow> ('e, 'n) Network" where
  "DeleteServer servername rn = rn\<lparr>rnServers := (rnServers rn)(servername := None)\<rparr>"

definition Connect :: "'e \<Rightarrow> 'n \<Rightarrow> ('e, 'n) Network \<Rightarrow> ('e, 'n) Network" where
  "Connect endname servername rn = rn\<lparr>rnConnections := (rnConnections rn)(endname := Some servername)\<rparr>"

definition Enable :: "'e \<Rightarrow> bool \<Rightarrow> ('e, 'n) Network \<Rightarrow> ('e, 'n) Network" where
  "Enable endname enabled rn = rn\<lparr>rnEnabled := (rnEnabled rn)(endname := enabled)\<rparr>"

definition GetCount :: "Server list \<Rightarrow> 'n \<Rightarrow> ('e, 'n) Network \<Rightarrow> int res" where
  "GetCount servers servername rn =
     (case rnServers rn servername of None \<Rightarrow> Inl NilPointer | Some a \<Rightarrow> ebind (nth_go servers (int a)) (\<lambda>rs. Inr (Server_GetCount rs)))"

definition GetTotalCount :: "('e, 'n) Network \<Rightarrow> int" where
  "GetTotalCount rn = sint (rnCount rn)"

definition GetTotalBytes :: "('e, 'n) Network \<Rightarrow> int" where
  "GetTotalBytes rn = sint (rnBytes rn)"

section \<open>Which method a name means\<close>

lemma last_dot_none: "CHR ''.'' \<notin> set s \<Longrightarrow> last_dot s = - 1"
  by (induction s) auto

lemma last_dot_append: "CHR ''.'' \<notin> set m \<Longrightarrow> last_dot (s @ CHR ''.'' # m) = int (length s)"
  by (induction s) (simp_all add: last_dot_none Let_def)

lemma split_method_none: "CHR ''.'' \<notin> set s \<Longrightarrow> split_method s = Inl IndexOutOfRange"
  by (simp add: split_method_def last_dot_none slice_to_def)

lemma split_method_append: "CHR ''.'' \<notin> set m \<Longrightarrow> split_method (s @ CHR ''.'' # m) = Inr (s, m)"
  by (simp add: split_method_def last_dot_append slice_to_def slice_from_def Let_def nat_add_distrib)

lemma MakeService_methods:
  "svMethods (MakeService name ms) m \<noteq> None \<longleftrightarrow> (\<exists>x \<in> set ms. suitable x \<and> mtName x = m)"
proof -
  have "fold (\<lambda>m acc. if suitable m then acc(mtName m \<mapsto> m) else acc) ms acc m \<noteq> None \<longleftrightarrow>
      acc m \<noteq> None \<or> (\<exists>x \<in> set ms. suitable x \<and> mtName x = m)" for acc
    by (induction ms arbitrary: acc) auto
  then show ?thesis by (simp add: MakeService_def)
qed

text \<open>
  A request reaches the method it names if the service has a suitable one; an unknown service or method ends the
  process, and a name without a dot is an index panic.
\<close>

lemma dispatch_by_name:
  assumes "CHR ''.'' \<notin> set m" and "rsServices rs s = Some (MakeService s ms)"
  shows "snd (Server_dispatch (s @ CHR ''.'' # m) rs) = (if \<exists>x \<in> set ms. suitable x \<and> mtName x = m then Inr (s, m) else Inl FatalError)"
    "snd (Server_dispatch m rs) = Inl IndexOutOfRange"
  using MakeService_methods [of s ms m] assms
  by (auto simp: Server_dispatch_def split_method_append split_method_none Service_dispatch_def split: option.splits)

lemma GetCount_deleted: "GetCount servers n (DeleteServer n rn) = Inl NilPointer"
  by (simp add: GetCount_def DeleteServer_def)

end
