(* ===== verification/Test_Partition.thy ===== *)
theory Test_Partition
  imports Rpc_Network
begin

text \<open>
  How the tests of the key/value service cut the network, \<^verbatim>\<open>kvraft/config.go\<close>: each server has an end to each server, by a name of its
  own, and \<^verbatim>\<open>connect\<close>, \<^verbatim>\<open>disconnect\<close> and \<^verbatim>\<open>partition\<close> enable and disable these ends; \<^verbatim>\<open>make_partition\<close> chooses the parts. Shown: after a
  partition exactly the ends between servers of one part are enabled, and for an odd number of servers
  \<^verbatim>\<open>make_partition\<close> puts the leader into a minority.
\<close>

section \<open>Definitions\<close>

text \<open>The names of the ends of a server are nil until it is started.\<close>

record kvcfg =
  cfN :: nat
  cfNet :: "(string, int) Network"
  cfEndnames :: "string list option list"

definition names_of :: "string list option \<Rightarrow> string list" where
  "names_of e = (case e of None \<Rightarrow> [] | Some l \<Rightarrow> l)"

text \<open>\<^verbatim>\<open>cfg.endnames[i][j]\<close>\<close>

definition endname :: "kvcfg \<Rightarrow> int \<Rightarrow> int \<Rightarrow> string res" where
  "endname cfg i j = ebind (nth_go (cfEndnames cfg) i) (\<lambda>e. nth_go (names_of e) j)"

definition set_end :: "string \<Rightarrow> bool \<Rightarrow> kvcfg \<Rightarrow> kvcfg" where
  "set_end name b cfg = cfg\<lparr>cfNet := Enable name b (cfNet cfg)\<rparr>"

fun connect_out :: "int \<Rightarrow> int list \<Rightarrow> kvcfg \<Rightarrow> kvcfg res" where
  "connect_out i [] cfg = Inr cfg"
| "connect_out i (t # to) cfg = ebind (endname cfg i t) (\<lambda>e. connect_out i to (set_end e True cfg))"

fun connect_in :: "int \<Rightarrow> int list \<Rightarrow> kvcfg \<Rightarrow> kvcfg res" where
  "connect_in i [] cfg = Inr cfg"
| "connect_in i (t # to) cfg = ebind (endname cfg t i) (\<lambda>e. connect_in i to (set_end e True cfg))"

definition connectUnlocked :: "int \<Rightarrow> int list \<Rightarrow> kvcfg \<Rightarrow> kvcfg res" where
  "connectUnlocked i to cfg = ebind (connect_out i to cfg) (connect_in i to)"

fun disconnect_out :: "int \<Rightarrow> int list \<Rightarrow> kvcfg \<Rightarrow> kvcfg res" where
  "disconnect_out i [] cfg = Inr cfg"
| "disconnect_out i (f # from) cfg =
     ebind (nth_go (cfEndnames cfg) i) (\<lambda>e.
     if e \<noteq> None then ebind (endname cfg i f) (\<lambda>e. disconnect_out i from (set_end e False cfg)) else disconnect_out i from cfg)"

text \<open>The test for nil looks at the names of server \<^verbatim>\<open>j\<close>, the position in the list, and not of server \<^verbatim>\<open>from[j]\<close>.\<close>

fun disconnect_in :: "int \<Rightarrow> int \<Rightarrow> int list \<Rightarrow> kvcfg \<Rightarrow> kvcfg res" where
  "disconnect_in i j [] cfg = Inr cfg"
| "disconnect_in i j (f # from) cfg =
     ebind (nth_go (cfEndnames cfg) j) (\<lambda>e.
     if e \<noteq> None then ebind (endname cfg f i) (\<lambda>e. disconnect_in i (j + 1) from (set_end e False cfg)) else disconnect_in i (j + 1) from cfg)"

definition disconnectUnlocked :: "int \<Rightarrow> int list \<Rightarrow> kvcfg \<Rightarrow> kvcfg res" where
  "disconnectUnlocked i from cfg = ebind (disconnect_out i from cfg) (disconnect_in i 0 from)"

definition All_servers :: "kvcfg \<Rightarrow> int list" where
  "All_servers cfg = map int [0..<cfN cfg]"

fun connect_each :: "int list \<Rightarrow> int list \<Rightarrow> kvcfg \<Rightarrow> kvcfg res" where
  "connect_each to [] cfg = Inr cfg"
| "connect_each to (i # is) cfg = ebind (connectUnlocked i to cfg) (connect_each to is)"

definition ConnectAll :: "kvcfg \<Rightarrow> kvcfg res" where
  "ConnectAll cfg = connect_each (All_servers cfg) (All_servers cfg) cfg"

fun part_loop :: "int list \<Rightarrow> int list \<Rightarrow> int list \<Rightarrow> kvcfg \<Rightarrow> kvcfg res" where
  "part_loop own other [] cfg = Inr cfg"
| "part_loop own other (i # is) cfg =
     ebind (disconnectUnlocked i other cfg) (\<lambda>cfg1. ebind (connectUnlocked i own cfg1) (part_loop own other is))"

definition partition_servers :: "int list \<Rightarrow> int list \<Rightarrow> kvcfg \<Rightarrow> kvcfg res" where
  "partition_servers p1 p2 cfg = ebind (part_loop p1 p2 p1 cfg) (part_loop p2 p1 p2)"

text \<open>A clerk's ends, by server.\<close>

fun ConnectClientUnlocked :: "string list \<Rightarrow> int list \<Rightarrow> kvcfg \<Rightarrow> kvcfg res" where
  "ConnectClientUnlocked endnames [] cfg = Inr cfg"
| "ConnectClientUnlocked endnames (t # to) cfg = ebind (nth_go endnames t) (\<lambda>s. ConnectClientUnlocked endnames to (set_end s True cfg))"

fun DisconnectClientUnlocked :: "string list \<Rightarrow> int list \<Rightarrow> kvcfg \<Rightarrow> kvcfg res" where
  "DisconnectClientUnlocked endnames [] cfg = Inr cfg"
| "DisconnectClientUnlocked endnames (f # from) cfg = ebind (nth_go endnames f) (\<lambda>s. DisconnectClientUnlocked endnames from (set_end s False cfg))"

text \<open>\<^verbatim>\<open>Leader\<close>: the first server whose \<^verbatim>\<open>GetState\<close> says it is the leader.\<close>

fun leader_loop :: "int \<Rightarrow> (int \<times> bool) list \<Rightarrow> bool \<times> int" where
  "leader_loop i [] = (False, 0)"
| "leader_loop i (st # sts) = (if snd st then (True, i) else leader_loop (i + 1) sts)"

definition Leader_of :: "(int \<times> bool) list \<Rightarrow> bool \<times> int" where
  "Leader_of states = leader_loop 0 states"

fun mp_step :: "int \<Rightarrow> int \<Rightarrow> int \<times> int list \<times> int list \<Rightarrow> (int \<times> int list \<times> int list) res" where
  "mp_step l i (j, p1, p2) =
     (if i \<noteq> l
      then if j < int (length p1) then ebind (upd_go p1 j i) (\<lambda>q1. Inr (j + 1, q1, p2))
           else ebind (upd_go p2 (j - int (length p1)) i) (\<lambda>q2. Inr (j + 1, p1, q2))
      else Inr (j, p1, p2))"

fun mp_loop :: "int \<Rightarrow> int list \<Rightarrow> int \<times> int list \<times> int list \<Rightarrow> (int \<times> int list \<times> int list) res" where
  "mp_loop l [] st = Inr st"
| "mp_loop l (i # is) st = ebind (mp_step l i st) (mp_loop l is)"

definition make_partition :: "nat \<Rightarrow> (int \<times> bool) list \<Rightarrow> (int list \<times> int list) res" where
  "make_partition n states =
     (let l = snd (Leader_of states) in
      ebind (mp_loop l (map int [0..<n]) (0, replicate (n div 2 + 1) 0, replicate (n div 2) 0)) (\<lambda>(j, p1, p2).
      ebind (upd_go p2 (int (length p2) - 1) l) (\<lambda>q2. Inr (p1, q2))))"

section \<open>Ends\<close>

text \<open>Every server was started, and no two ends have the same name.\<close>

definition started :: "kvcfg \<Rightarrow> bool" where
  "started cfg \<longleftrightarrow> length (cfEndnames cfg) = cfN cfg \<and> (\<forall>e \<in> set (cfEndnames cfg). e \<noteq> None \<and> length (the e) = cfN cfg) \<and>
     distinct (concat (map names_of (cfEndnames cfg)))"

definition name :: "kvcfg \<Rightarrow> int \<Rightarrow> int \<Rightarrow> string" where
  "name cfg i j = names_of (cfEndnames cfg ! nat i) ! nat j"

definition server :: "kvcfg \<Rightarrow> int \<Rightarrow> bool" where
  "server cfg i \<longleftrightarrow> 0 \<le> i \<and> i < int (cfN cfg)"

lemma endname_name:
  assumes "started cfg" and "server cfg i" and "server cfg j"
  shows "endname cfg i j = Inr (name cfg i j)"
proof -
  have "cfEndnames cfg ! nat i \<in> set (cfEndnames cfg)" using assms by (auto simp: started_def server_def)
  then have "length (names_of (cfEndnames cfg ! nat i)) = cfN cfg" using assms(1) by (auto simp: started_def names_of_def)
  then show ?thesis using assms by (simp add: endname_def nth_go_def name_def started_def server_def)
qed

lemma distinct_concat_nth:
  assumes "distinct (concat xss)" and "a < length xss" and "b < length xss" and "c < length (xss ! a)" and "d < length (xss ! b)"
    and "xss ! a ! c = xss ! b ! d"
  shows "a = b \<and> c = d"
  using assms
proof (induction xss arbitrary: a b)
  case (Cons xs xss)
  have disj: "set xs \<inter> set (concat xss) = {}" and ih: "distinct (concat xss)" and d: "distinct xs" using Cons.prems(1) by auto
  have mem: "xss ! k ! l \<in> set (concat xss)" if "k < length xss" "l < length (xss ! k)" for k l
    unfolding set_concat using nth_mem [OF that(1)] nth_mem [OF that(2)] by blast
  show ?case
  proof (cases a; cases b)
    fix k l assume k: "a = Suc k" "b = Suc l"
    then show ?thesis using Cons.IH [of k l] ih Cons.prems by simp
  next
    assume "a = 0" "b = 0"
    then show ?thesis using Cons.prems d by (simp add: nth_eq_iff_index_eq)
  next
    fix l assume "a = 0" "b = Suc l"
    then have e: "xs ! c = xss ! l ! d" "c < length xs" "xss ! l ! d \<in> set (concat xss)" using Cons.prems mem [of l d] by simp_all
    then have "xs ! c \<in> set xs" "xs ! c \<in> set (concat xss)" using nth_mem [OF e(2)] by (simp_all only:)
    then show ?thesis using disj by blast
  next
    fix k assume "a = Suc k" "b = 0"
    then have e: "xs ! d = xss ! k ! c" "d < length xs" "xss ! k ! c \<in> set (concat xss)" using Cons.prems mem [of k c] by simp_all
    then have "xs ! d \<in> set xs" "xs ! d \<in> set (concat xss)" using nth_mem [OF e(2)] by (simp_all only:)
    then show ?thesis using disj by blast
  qed
qed simp

lemma name_inject:
  assumes "started cfg" and "server cfg i" and "server cfg j" and "server cfg k" and "server cfg l" and "name cfg i j = name cfg k l"
  shows "i = k \<and> j = l"
proof -
  have len: "length (map names_of (cfEndnames cfg) ! nat a) = cfN cfg" if "server cfg a" for a
  proof -
    have "cfEndnames cfg ! nat a \<in> set (cfEndnames cfg)" using assms(1) that by (auto simp: started_def server_def)
    then show ?thesis using assms(1) that by (auto simp: started_def names_of_def server_def)
  qed
  have "nat i = nat k \<and> nat j = nat l"
    using assms len [OF assms(2)] len [OF assms(4)]
    by (intro distinct_concat_nth [of "map names_of (cfEndnames cfg)"]) (auto simp: started_def server_def name_def)
  then show ?thesis using assms by (auto simp: server_def)
qed

text \<open>The network after a set of ends was enabled or disabled.\<close>

definition set_ends :: "string set \<Rightarrow> bool \<Rightarrow> kvcfg \<Rightarrow> kvcfg" where
  "set_ends S b cfg = cfg\<lparr>cfNet := (cfNet cfg)\<lparr>rnEnabled := (\<lambda>x. if x \<in> S then b else rnEnabled (cfNet cfg) x)\<rparr>\<rparr>"

abbreviation enabled :: "kvcfg \<Rightarrow> string \<Rightarrow> bool" where
  "enabled cfg \<equiv> rnEnabled (cfNet cfg)"

lemma enabled_set_ends [simp]: "enabled (set_ends S b cfg) x = (if x \<in> S then b else enabled cfg x)"
  by (simp add: set_ends_def)

lemma set_ends_simps [simp]:
  "started (set_ends S b cfg) = started cfg" "server (set_ends S b cfg) = server cfg" "name (set_ends S b cfg) = name cfg"
  "cfEndnames (set_ends S b cfg) = cfEndnames cfg" "cfN (set_ends S b cfg) = cfN cfg"
  by (simp_all add: set_ends_def started_def server_def [abs_def] name_def [abs_def])

lemma set_end_ends: "set_end x b cfg = set_ends {x} b cfg"
  by (simp add: set_end_def set_ends_def Enable_def fun_upd_def)

lemma set_ends_ends: "set_ends S b (set_ends T b cfg) = set_ends (S \<union> T) b cfg"
proof -
  have "set_ends S b (set_ends T b cfg) = cfg\<lparr>cfNet := (cfNet cfg)\<lparr>rnEnabled := (\<lambda>x. if x \<in> S then b else if x \<in> T then b else enabled cfg x)\<rparr>\<rparr>"
    by (simp add: set_ends_def)
  also have "(\<lambda>x. if x \<in> S then b else if x \<in> T then b else enabled cfg x) = (\<lambda>x. if x \<in> S \<union> T then b else enabled cfg x)" by auto
  finally show ?thesis by (simp only: set_ends_def)
qed

lemma set_ends_empty [simp]: "set_ends {} b cfg = cfg"
  by (simp add: set_ends_def)

lemma connect_out_ends:
  assumes "started cfg" and "server cfg i" and "\<forall>t \<in> set to. server cfg t"
  shows "connect_out i to cfg = Inr (set_ends (name cfg i ` set to) True cfg)"
  using assms by (induction to arbitrary: cfg) (simp_all add: endname_name set_end_ends set_ends_ends)

lemma connect_in_ends:
  assumes "started cfg" and "server cfg i" and "\<forall>t \<in> set to. server cfg t"
  shows "connect_in i to cfg = Inr (set_ends ((\<lambda>t. name cfg t i) ` set to) True cfg)"
  using assms by (induction to arbitrary: cfg) (simp_all add: endname_name set_end_ends set_ends_ends)

lemma endnames_started:
  assumes "started cfg" and "server cfg i"
  shows "\<exists>l. nth_go (cfEndnames cfg) i = Inr (Some l)"
proof -
  have "cfEndnames cfg ! nat i \<in> set (cfEndnames cfg)" using assms by (auto simp: started_def server_def)
  then show ?thesis using assms by (auto simp: started_def server_def nth_go_def)
qed

lemma disconnect_out_ends:
  assumes "started cfg" and "server cfg i" and "\<forall>t \<in> set from. server cfg t"
  shows "disconnect_out i from cfg = Inr (set_ends (name cfg i ` set from) False cfg)"
  using assms
proof (induction "from" arbitrary: cfg)
  case (Cons f fs)
  then show ?case using endnames_started [of cfg i] by (auto simp: endname_name set_end_ends set_ends_ends)
qed simp

lemma disconnect_in_ends:
  assumes "started cfg" and "server cfg i" and "\<forall>t \<in> set from. server cfg t" and "0 \<le> j" and "j + int (length from) \<le> int (cfN cfg)"
  shows "disconnect_in i j from cfg = Inr (set_ends ((\<lambda>t. name cfg t i) ` set from) False cfg)"
  using assms
proof (induction "from" arbitrary: cfg j)
  case (Cons f fs)
  have "server cfg j" using Cons.prems by (simp add: server_def)
  then show ?case using Cons endnames_started [of cfg j] by (auto simp: endname_name set_end_ends set_ends_ends)
qed simp

definition peer_links :: "kvcfg \<Rightarrow> int \<Rightarrow> int list \<Rightarrow> string set" where
  "peer_links cfg i js = name cfg i ` set js \<union> (\<lambda>t. name cfg t i) ` set js"

lemma peer_links_set_ends [simp]: "peer_links (set_ends S b cfg) = peer_links cfg"
  by (simp add: peer_links_def [abs_def])

lemma connectUnlocked_links:
  assumes "started cfg" and "server cfg i" and "\<forall>t \<in> set to. server cfg t"
  shows "connectUnlocked i to cfg = Inr (set_ends (peer_links cfg i to) True cfg)"
  using assms by (simp add: connectUnlocked_def connect_out_ends connect_in_ends set_ends_ends peer_links_def Un_commute)

lemma disconnectUnlocked_links:
  assumes "started cfg" and "server cfg i" and "\<forall>t \<in> set from. server cfg t" and "length from \<le> cfN cfg"
  shows "disconnectUnlocked i from cfg = Inr (set_ends (peer_links cfg i from) False cfg)"
  using assms by (simp add: disconnectUnlocked_def disconnect_out_ends disconnect_in_ends set_ends_ends peer_links_def Un_commute)

lemma peer_links_apart:
  assumes "started cfg" and "\<forall>t \<in> set own \<union> set other. server cfg t" and "set own \<inter> set other = {}" and "i \<in> set own" and "k \<in> set own"
  shows "peer_links cfg i own \<inter> peer_links cfg k other = {}"
proof (rule ccontr)
  assume "peer_links cfg i own \<inter> peer_links cfg k other \<noteq> {}"
  then obtain t u where "t \<in> set own" "u \<in> set other" "name cfg i t = name cfg k u \<or> name cfg i t = name cfg u k \<or> name cfg t i = name cfg k u \<or> name cfg t i = name cfg u k"
    by (fastforce simp: peer_links_def)
  then show False using assms name_inject [OF assms(1)] by (metis Int_iff UnCI empty_iff)
qed

lemma part_loop_links:
  assumes "started cfg" and "\<forall>t \<in> set own \<union> set other. server cfg t" and "set own \<inter> set other = {}" and "length other \<le> cfN cfg" and "set is \<subseteq> set own"
  shows "\<exists>cfg'. part_loop own other is cfg = Inr cfg' \<and> started cfg' \<and> server cfg' = server cfg \<and> name cfg' = name cfg \<and> cfN cfg' = cfN cfg \<and>
    (\<forall>x. enabled cfg' x = (if x \<in> (\<Union>i \<in> set is. peer_links cfg i own) then True else if x \<in> (\<Union>i \<in> set is. peer_links cfg i other) then False else enabled cfg x))"
  using assms(1,2,4,5)
proof (induction "is" arbitrary: cfg)
  case (Cons i "is")
  let ?c1 = "set_ends (peer_links cfg i own) True (set_ends (peer_links cfg i other) False cfg)"
  have i: "i \<in> set own" "server cfg i" using Cons.prems by auto
  have "\<exists>cfg'. part_loop own other is ?c1 = Inr cfg' \<and> started cfg' \<and> server cfg' = server ?c1 \<and> name cfg' = name ?c1 \<and> cfN cfg' = cfN ?c1 \<and>
    (\<forall>x. enabled cfg' x = (if x \<in> (\<Union>i \<in> set is. peer_links ?c1 i own) then True else if x \<in> (\<Union>i \<in> set is. peer_links ?c1 i other) then False else enabled ?c1 x))"
    by (rule Cons.IH) (use Cons.prems in simp_all)
  then obtain cfg' where c: "part_loop own other is ?c1 = Inr cfg'" "started cfg'" "server cfg' = server cfg" "name cfg' = name cfg" "cfN cfg' = cfN cfg"
    "\<forall>x. enabled cfg' x = (if x \<in> (\<Union>i \<in> set is. peer_links cfg i own) then True else if x \<in> (\<Union>i \<in> set is. peer_links cfg i other) then False else enabled ?c1 x)"
    by auto
  have "part_loop own other (i # is) cfg = Inr cfg'"
    using c(1) Cons.prems i by (simp add: disconnectUnlocked_links connectUnlocked_links)
  moreover have apart: "x \<notin> peer_links cfg k other" if "k \<in> set (i # is)" "x \<in> peer_links cfg i own" for k x
    using peer_links_apart [OF Cons.prems(1,2) assms(3) i(1), of k] that Cons.prems(4) by auto
  have "\<forall>x. enabled cfg' x = (if x \<in> (\<Union>i \<in> set (i # is). peer_links cfg i own) then True else if x \<in> (\<Union>i \<in> set (i # is). peer_links cfg i other) then False else enabled cfg x)"
  proof
    fix x
    show "enabled cfg' x = (if x \<in> (\<Union>i \<in> set (i # is). peer_links cfg i own) then True else if x \<in> (\<Union>i \<in> set (i # is). peer_links cfg i other) then False else enabled cfg x)"
      using c(6) [rule_format, of x] apart [of _ x] by (cases "x \<in> peer_links cfg i own") auto
  qed
  ultimately show ?case using c(2-5) by blast
qed simp

section \<open>Partitions\<close>

definition together :: "int list \<Rightarrow> int \<Rightarrow> int \<Rightarrow> bool" where
  "together p i j \<longleftrightarrow> i \<in> set p \<and> j \<in> set p"

definition apart :: "int list \<Rightarrow> int list \<Rightarrow> int \<Rightarrow> int \<Rightarrow> bool" where
  "apart p q i j \<longleftrightarrow> i \<in> set p \<and> j \<in> set q \<or> i \<in> set q \<and> j \<in> set p"

lemma in_links:
  assumes "started cfg" and "server cfg i" and "server cfg j" and "\<forall>t \<in> set own \<union> set other. server cfg t"
  shows "name cfg i j \<in> (\<Union>k \<in> set own. peer_links cfg k other) \<longleftrightarrow> apart own other i j"
proof -
  have eq: "name cfg i j = name cfg k l \<longleftrightarrow> i = k \<and> j = l" if "server cfg k" "server cfg l" for k l
    using name_inject [OF assms(1-3) that] by auto
  show ?thesis
  proof
    assume "name cfg i j \<in> (\<Union>k \<in> set own. peer_links cfg k other)"
    then obtain k t where "k \<in> set own" "t \<in> set other" "name cfg i j = name cfg k t \<or> name cfg i j = name cfg t k" by (auto simp: peer_links_def)
    then show "apart own other i j" using eq [of k t] eq [of t k] assms(4) by (auto simp: apart_def)
  qed (auto simp: apart_def peer_links_def)
qed

lemma partition_ends:
  assumes "started cfg" and "\<forall>t \<in> set p1 \<union> set p2. server cfg t" and "set p1 \<inter> set p2 = {}" and "length p1 \<le> cfN cfg" and "length p2 \<le> cfN cfg"
  shows "\<exists>cfg'. partition_servers p1 p2 cfg = Inr cfg' \<and> (\<forall>i j. server cfg i \<and> server cfg j \<longrightarrow>
    enabled cfg' (name cfg i j) = (if together p1 i j \<or> together p2 i j then True else if apart p1 p2 i j then False else enabled cfg (name cfg i j)))"
proof -
  obtain c1 where c1: "part_loop p1 p2 p1 cfg = Inr c1" "started c1" "server c1 = server cfg" "name c1 = name cfg" "cfN c1 = cfN cfg"
    "\<forall>x. enabled c1 x = (if x \<in> (\<Union>i \<in> set p1. peer_links cfg i p1) then True else if x \<in> (\<Union>i \<in> set p1. peer_links cfg i p2) then False else enabled cfg x)"
    using part_loop_links [OF assms(1-3,5) order_refl] by blast
  have "\<forall>t \<in> set p2 \<union> set p1. server c1 t" "set p2 \<inter> set p1 = {}" "length p1 \<le> cfN c1" using assms c1(3,5) by auto
  from part_loop_links [OF c1(2) this order_refl] obtain c2 where c2: "part_loop p2 p1 p2 c1 = Inr c2"
    "\<forall>x. enabled c2 x = (if x \<in> (\<Union>i \<in> set p2. peer_links c1 i p2) then True else if x \<in> (\<Union>i \<in> set p2. peer_links c1 i p1) then False else enabled c1 x)"
    by blast
  have l: "peer_links c1 = peer_links cfg" by (simp add: peer_links_def [abs_def] c1(4))
  have sets: "\<forall>t \<in> set p1 \<union> set p1. server cfg t" "\<forall>t \<in> set p2 \<union> set p2. server cfg t" "\<forall>t \<in> set p2 \<union> set p1. server cfg t" using assms(2) by auto
  have "enabled c2 (name cfg i j) = (if together p1 i j \<or> together p2 i j then True else if apart p1 p2 i j then False else enabled cfg (name cfg i j))"
    if "server cfg i" "server cfg j" for i j
    using c1(6) [rule_format, of "name cfg i j"] c2(2) [rule_format, of "name cfg i j", unfolded l] assms(3)
      in_links [OF assms(1) that sets(1)] in_links [OF assms(1) that sets(2)] in_links [OF assms(1) that sets(3)] in_links [OF assms(1) that assms(2)]
    by (auto simp: apart_def together_def)
  then show ?thesis using c1(1) c2(1) by (simp add: partition_servers_def)
qed

text \<open>The elements of a list, filled up with zeros.\<close>

definition fill :: "nat \<Rightarrow> int list \<Rightarrow> int list" where
  "fill m xs = take m xs @ replicate (m - length xs) 0"

lemma fill_add:
  assumes "length xs < m"
  shows "(fill m xs)[length xs := x] = fill m (xs @ [x])"
proof -
  have "replicate (m - length xs) (0 :: int) = 0 # replicate (m - Suc (length xs)) 0" using assms by (metis Suc_diff_Suc replicate_Suc)
  then show ?thesis using assms by (simp add: fill_def)
qed

lemma fill_length [simp]: "length (fill m xs) = m"
  by (simp add: fill_def)

lemma mp_loop_fill:
  assumes "length (done @ filter (\<lambda>i. i \<noteq> l) is) \<le> a + b"
  shows "mp_loop l is (int (length done), fill a done, fill b (drop a done)) =
    (let all = done @ filter (\<lambda>i. i \<noteq> l) is in Inr (int (length all), fill a all, fill b (drop a all)))"
  using assms
proof (induction "is" arbitrary: "done")
  case (Cons i "is")
  show ?case
  proof (cases "i = l")
    case True
    then show ?thesis using Cons by simp
  next
    case False
    have len: "length ((done @ [i]) @ filter (\<lambda>i. i \<noteq> l) is) \<le> a + b" using Cons.prems False by simp
    have "mp_step l i (int (length done), fill a done, fill b (drop a done)) = Inr (int (length (done @ [i])), fill a (done @ [i]), fill b (drop a (done @ [i])))"
    proof (cases "length done < a")
      case True
      then show ?thesis using False fill_add [of "done" a i] by (simp add: upd_go_def)
    next
      case ge: False
      then have "length (drop a done) < b" using len by simp
      from fill_add [OF this, of i] ge len show ?thesis using False
        by (simp add: upd_go_def nat_diff_distrib) (simp add: fill_def)
    qed
    then show ?thesis using Cons.IH [OF len] False by simp
  qed
qed simp

lemma leader_index:
  assumes "states \<noteq> []"
  shows "0 \<le> snd (Leader_of states) \<and> snd (Leader_of states) < int (length states)"
proof -
  have "snd (leader_loop i sts) = 0 \<or> i \<le> snd (leader_loop i sts) \<and> snd (leader_loop i sts) < i + int (length sts)" for i sts
    by (induction i sts rule: leader_loop.induct) auto
  from this [of 0 states] show ?thesis using assms by (auto simp: Leader_of_def)
qed

lemma others_of:
  assumes "0 \<le> l" and "l < int n"
  shows "length (filter (\<lambda>i. i \<noteq> l) (map int [0..<n])) = n - 1"
proof -
  have d: "distinct (map int [0..<n])" by (simp add: distinct_map)
  have "set (filter (\<lambda>i. i \<noteq> l) (map int [0..<n])) = set (map int [0..<n]) - {l}" by auto
  moreover have "l \<in> set (map int [0..<n])" using assms by (auto simp: image_iff intro!: bexI [of _ "nat l"])
  ultimately have "card (set (filter (\<lambda>i. i \<noteq> l) (map int [0..<n]))) = card (set (map int [0..<n])) - 1" by (simp only: card_Diff_singleton)
  then show ?thesis using d by (simp only: distinct_card distinct_filter) simp
qed

text \<open>For \<open>2 * m + 1\<close> servers the second part is the last \<open>m - 1\<close> of the others and the leader.\<close>

lemma make_partition_odd:
  assumes "length states = 2 * m + 1" and "0 < m"
  shows "make_partition (2 * m + 1) states =
    (let l = snd (Leader_of states); others = filter (\<lambda>i. i \<noteq> l) (map int [0..<2 * m + 1]) in Inr (take (m + 1) others, drop (m + 1) others @ [l]))"
proof -
  define l where "l = snd (Leader_of states)"
  define others where "others = filter (\<lambda>i. i \<noteq> l) (map int [0..<2 * m + 1])"
  have "states \<noteq> []" using assms(1) by auto
  then have len: "length others = 2 * m" using others_of [of l "2 * m + 1"] leader_index [of states] assms(1) unfolding others_def l_def by simp
  have f0: "fill k [] = replicate k 0" for k by (simp add: fill_def)
  have loop: "mp_loop l (map int [0..<2 * m + 1]) (0, replicate (m + 1) 0, replicate m 0) =
      Inr (int (2 * m), fill (m + 1) others, fill m (drop (m + 1) others))"
    using mp_loop_fill [of "[]" l "map int [0..<2 * m + 1]" "m + 1" m] len unfolding others_def [symmetric] by (simp add: f0 others_def)
  have p1: "fill (m + 1) others = take (m + 1) others" using len assms(2) by (simp add: fill_def)
  have ld: "length (drop (m + 1) others) = m - 1" using len by simp
  then have p2: "fill m (drop (m + 1) others) = drop (m + 1) others @ [0]" using assms(2) by (simp add: fill_def)
  have i: "int (length (drop (m + 1) others @ [0 :: int])) - 1 = int (m - 1)" using ld assms(2) by simp
  have u: "upd_go (drop (m + 1) others @ [0]) (int (m - 1)) l = Inr (drop (m + 1) others @ [l])"
    using ld by (simp add: upd_go_def list_update_append)
  have h: "(2 * m + 1) div 2 = m" by simp
  show ?thesis unfolding make_partition_def Let_def l_def [symmetric] others_def [symmetric]
    by (simp only: h loop p1 p2 ebind_Inr case_prod_conv i u)
qed

text \<open>
  Cutting the network into two parts. When all servers are started and no two ends share a name, then for any two disjoint lists of
  servers, neither longer than the number of servers, \<^verbatim>\<open>partition\<close> returns, and afterwards the end from one server to another is enabled
  when both are in the same part, disabled when they are in different parts, and as before when one of them is in no part.
\<close>

theorem partition_isolates:
  assumes "started cfg" and "\<forall>t \<in> set p1 \<union> set p2. server cfg t" and "set p1 \<inter> set p2 = {}" and "length p1 \<le> cfN cfg" and "length p2 \<le> cfN cfg"
  shows "\<exists>cfg'. partition_servers p1 p2 cfg = Inr cfg' \<and> (\<forall>i j. server cfg i \<and> server cfg j \<longrightarrow>
    enabled cfg' (name cfg i j) = (if together p1 i j \<or> together p2 i j then True else if apart p1 p2 i j then False else enabled cfg (name cfg i j)))"
  using assms by (rule partition_ends)

text \<open>
  C33: The partition the tests make. With an odd number of at least three servers, whatever \<^verbatim>\<open>GetState\<close> says of them, \<^verbatim>\<open>make_partition\<close> returns
  two parts: the first has a majority, the leader that was found (server 0 when none was) is in the second. Passing them to \<^verbatim>\<open>partition\<close>
  returns, and then an end between two servers is enabled exactly when both are in the first part or both are not: the leader can
  reach a minority only.
\<close>

theorem leader_in_minority:
  assumes "started cfg" and "cfN cfg = 2 * m + 1" and "0 < m" and "length states = cfN cfg"
  shows "\<exists>p1 p2 cfg'. make_partition (cfN cfg) states = Inr (p1, p2) \<and> length p1 = m + 1 \<and> length p2 = m \<and> distinct (p1 @ p2) \<and>
    set (p1 @ p2) = {i. server cfg i} \<and> snd (Leader_of states) \<in> set p2 \<and> partition_servers p1 p2 cfg = Inr cfg' \<and>
    (\<forall>i j. server cfg i \<and> server cfg j \<longrightarrow> (enabled cfg' (name cfg i j) \<longleftrightarrow> (i \<in> set p1 \<longleftrightarrow> j \<in> set p1)))"
proof -
  define l where "l = snd (Leader_of states)"
  define others where "others = filter (\<lambda>i. i \<noteq> l) (map int [0..<2 * m + 1])"
  define p1 where "p1 = take (m + 1) others"
  define p2 where "p2 = drop (m + 1) others @ [l]"
  have "states \<noteq> []" using assms by auto
  then have l: "0 \<le> l" "l < int (2 * m + 1)" using leader_index [of states] assms(2,4) by (simp_all add: l_def)
  have len: "length others = 2 * m" using others_of [OF l] by (simp add: others_def)
  have lens: "length p1 = m + 1" "length p2 = m" using len assms(3) by (simp_all add: p1_def p2_def)
  have mp: "make_partition (cfN cfg) states = Inr (p1, p2)"
    using make_partition_odd [of states m] assms(2-4) by (simp only: Let_def p1_def p2_def others_def l_def)
  have app: "p1 @ p2 = others @ [l]" by (simp add: p1_def p2_def)
  have "int ` {0..<2 * m + 1} = {0..<int (2 * m + 1)}" using image_int_atLeastLessThan [of 0 "2 * m + 1"] by simp
  then have "set (map int [0..<2 * m + 1]) = {0..<int (2 * m + 1)}" by (simp only: set_map set_upt)
  then have os: "set others = {0..<int (2 * m + 1)} - {l}" unfolding others_def by (simp only: set_filter) blast
  have "{i. server cfg i} = {0..<int (2 * m + 1)}" using assms(2) by (auto simp: server_def)
  then have cover: "set (p1 @ p2) = {i. server cfg i}" unfolding app using os l by auto
  have "distinct others" unfolding others_def by (intro distinct_filter) (simp only: distinct_map distinct_upt inj_on_of_nat)
  then have dist: "distinct (p1 @ p2)" unfolding app using os by simp
  have dj: "set p1 \<inter> set p2 = {}" using dist by simp
  have sv: "\<forall>t \<in> set p1 \<union> set p2. server cfg t" using cover by auto
  have b: "length p1 \<le> cfN cfg" "length p2 \<le> cfN cfg" using lens assms(2) by simp_all
  obtain cfg' where c: "partition_servers p1 p2 cfg = Inr cfg'" "\<forall>i j. server cfg i \<and> server cfg j \<longrightarrow>
      enabled cfg' (name cfg i j) = (if together p1 i j \<or> together p2 i j then True else if apart p1 p2 i j then False else enabled cfg (name cfg i j))"
    using partition_ends [OF assms(1) sv dj b] by blast
  have either: "i \<in> set p1 \<and> i \<notin> set p2 \<or> i \<notin> set p1 \<and> i \<in> set p2" if "server cfg i" for i using that cover dj by auto
  have "enabled cfg' (name cfg i j) \<longleftrightarrow> (i \<in> set p1 \<longleftrightarrow> j \<in> set p1)" if "server cfg i" "server cfg j" for i j
    using c(2) [rule_format, of i j] that either [OF that(1)] either [OF that(2)] by (auto simp: together_def apart_def)
  moreover have "snd (Leader_of states) \<in> set p2" by (simp add: p2_def l_def)
  ultimately show ?thesis using mp lens dist cover c(1) by blast
qed

text \<open>Three servers that were just started.\<close>

definition trio :: kvcfg where
  "trio = \<lparr>cfN = 3, cfNet = MakeNetwork, cfEndnames = [Some [''aa'', ''ab'', ''ac''], Some [''ba'', ''bb'', ''bc''], Some [''ca'', ''cb'', ''cc'']]\<rparr>"

lemma trio_started: "started trio"
  by (simp add: started_def trio_def names_of_def)

theorem partition_isolates_witness:
  "\<exists>cfg'. partition_servers [0, 2] [1] trio = Inr cfg' \<and> enabled cfg' ''ac'' \<and> enabled cfg' ''ca'' \<and> \<not> enabled cfg' ''ab'' \<and> \<not> enabled cfg' ''cb''"
proof -
  have p: "\<forall>t \<in> set [0, 2] \<union> set [1]. server trio t" "set [0, 2] \<inter> set [1 :: int] = {}" "length [0, 2 :: int] \<le> cfN trio" "length [1 :: int] \<le> cfN trio"
    by (simp_all add: server_def trio_def)
  obtain cfg' where c: "partition_servers [0, 2] [1] trio = Inr cfg'" "\<forall>i j. server trio i \<and> server trio j \<longrightarrow>
      enabled cfg' (name trio i j) = (if together [0, 2] i j \<or> together [1] i j then True else if apart [0, 2] [1] i j then False else enabled trio (name trio i j))"
    using partition_isolates [OF trio_started p] by blast
  show ?thesis using c(1) c(2) [rule_format, of 0 2] c(2) [rule_format, of 2 0] c(2) [rule_format, of 0 1] c(2) [rule_format, of 2 1]
    by (simp add: server_def name_def trio_def names_of_def together_def apart_def)
qed

theorem leader_in_minority_witness:
  "\<exists>cfg'. make_partition 3 [(1, False), (1, True), (1, False)] = Inr ([0, 2], [1]) \<and> partition_servers [0, 2] [1] trio = Inr cfg' \<and> \<not> enabled cfg' ''ba'' \<and> enabled cfg' ''ca''"
proof -
  let ?s = "[(1, False), (1, True), (1, False)] :: (int \<times> bool) list"
  have n: "cfN trio = 2 * 1 + 1" "length ?s = cfN trio" by (simp_all add: trio_def)
  have mp: "make_partition (cfN trio) ?s = Inr ([0, 2], [1])" unfolding trio_def kvcfg.simps by code_simp
  obtain cfg' where c: "partition_servers [0, 2] [1] trio = Inr cfg'"
      "\<forall>i j. server trio i \<and> server trio j \<longrightarrow> (enabled cfg' (name trio i j) \<longleftrightarrow> (i \<in> set [0, 2] \<longleftrightarrow> j \<in> set [0, 2 :: int]))"
    using leader_in_minority [OF trio_started n(1) zero_less_one n(2)] unfolding mp sum.inject prod.inject by blast
  show ?thesis using c(1) mp c(2) [rule_format, of 1 0] c(2) [rule_format, of 2 0]
    by (simp add: server_def name_def trio_def names_of_def)
qed

text \<open>With four servers the leader and server 0 share the second part, and server 0 is in the first part too.\<close>

lemma make_partition_even_overlap:
  "make_partition 4 [(1, False), (1, True), (1, False), (1, False)] = Inr ([0, 2, 3], [0, 1])"
  by code_simp

lemma make_partition_single: "make_partition 1 [(1, True)] = Inl IndexOutOfRange"
  by (simp add: make_partition_def Leader_of_def upd_go_def upt_rec)

end
