(* ===== verification/Raft_Harness.thy ===== *)
theory Raft_Harness
  imports Raft_Cluster Test_Partition
begin

text \<open>
  The harness of the Raft tests, \<^verbatim>\<open>raft/config.go\<close>: how it starts, crashes, connects and disconnects peers, how it checks what
  they send on their apply channels, and the questions it asks about leaders, terms and committed entries. Shown: exactly the
  ends between connected peers carry requests, whatever was crashed and restarted; the check of the apply channels
  refuses exactly the runs in which two peers disagree or a peer skips an index; and \<^verbatim>\<open>checkOneLeader\<close> never
  reports two leaders for this implementation.

  Not in the state: the test object, the wall clock and the statistics. The names of the ends (\<^verbatim>\<open>randstring\<close>), the time and the decoder of
  snapshots are arguments.
\<close>

section \<open>The state of the harness\<close>

text \<open>
  \<^verbatim>\<open>rcPart\<close> holds \<^verbatim>\<open>n\<close>, \<^verbatim>\<open>net\<close> and \<^verbatim>\<open>endnames\<close>. While a peer is up, \<^verbatim>\<open>saved[i]\<close> is the persister the peer writes to. A command is an
  \<^verbatim>\<open>interface{}\<close>, with \<^const>\<open>None\<close> for nil.
\<close>

record ('c, 'b) rconfig =
  rcPart :: kvcfg
  rcRafts :: "('c, 'b) Raft option list"
  rcConnected :: "bool list"
  rcSaved :: "('c, 'b) Persister option list"
  rcLogs :: "(int \<rightharpoonup> 'c option) list"
  rcLastApplied :: "int list"
  rcMaxIndex :: int
  rcServers :: "Server list"

definition on_net :: "((string, int) Network \<Rightarrow> (string, int) Network) \<Rightarrow> ('c, 'b) rconfig \<Rightarrow> ('c, 'b) rconfig" where
  "on_net f cfg = cfg\<lparr>rcPart := (rcPart cfg)\<lparr>cfNet := f (cfNet (rcPart cfg))\<rparr>\<rparr>"

definition indices :: "('c, 'b) rconfig \<Rightarrow> int list" where
  "indices cfg = map int [0..<cfN (rcPart cfg)]"

section \<open>Connections\<close>

fun rconnect_out :: "bool list \<Rightarrow> int \<Rightarrow> int list \<Rightarrow> kvcfg \<Rightarrow> kvcfg res" where
  "rconnect_out conn i [] p = Inr p"
| "rconnect_out conn i (j # js) p =
     ebind (nth_go conn j) (\<lambda>c. if c then ebind (endname p i j) (\<lambda>e. rconnect_out conn i js (set_end e True p)) else rconnect_out conn i js p)"

fun rconnect_in :: "bool list \<Rightarrow> int \<Rightarrow> int list \<Rightarrow> kvcfg \<Rightarrow> kvcfg res" where
  "rconnect_in conn i [] p = Inr p"
| "rconnect_in conn i (j # js) p =
     ebind (nth_go conn j) (\<lambda>c. if c then ebind (endname p j i) (\<lambda>e. rconnect_in conn i js (set_end e True p)) else rconnect_in conn i js p)"

definition raft_connect :: "int \<Rightarrow> ('c, 'b) rconfig \<Rightarrow> ('c, 'b) rconfig res" where
  "raft_connect i cfg =
     ebind (upd_go (rcConnected cfg) i True) (\<lambda>conn.
     ebind (rconnect_out conn i (indices cfg) (rcPart cfg)) (\<lambda>p.
     ebind (rconnect_in conn i (indices cfg) p) (\<lambda>p.
     Inr (cfg\<lparr>rcConnected := conn, rcPart := p\<rparr>))))"

fun rdisconnect_out :: "int \<Rightarrow> int list \<Rightarrow> kvcfg \<Rightarrow> kvcfg res" where
  "rdisconnect_out i [] p = Inr p"
| "rdisconnect_out i (j # js) p =
     ebind (nth_go (cfEndnames p) i) (\<lambda>l.
     if l \<noteq> None then ebind (endname p i j) (\<lambda>e. rdisconnect_out i js (set_end e False p)) else rdisconnect_out i js p)"

fun rdisconnect_in :: "int \<Rightarrow> int list \<Rightarrow> kvcfg \<Rightarrow> kvcfg res" where
  "rdisconnect_in i [] p = Inr p"
| "rdisconnect_in i (j # js) p =
     ebind (nth_go (cfEndnames p) j) (\<lambda>l.
     if l \<noteq> None then ebind (endname p j i) (\<lambda>e. rdisconnect_in i js (set_end e False p)) else rdisconnect_in i js p)"

definition raft_disconnect :: "int \<Rightarrow> ('c, 'b) rconfig \<Rightarrow> ('c, 'b) rconfig res" where
  "raft_disconnect i cfg =
     ebind (upd_go (rcConnected cfg) i False) (\<lambda>conn.
     ebind (rdisconnect_out i (indices cfg) (rcPart cfg)) (\<lambda>p.
     ebind (rdisconnect_in i (indices cfg) p) (\<lambda>p.
     Inr (cfg\<lparr>rcConnected := conn, rcPart := p\<rparr>))))"

definition setunreliable :: "bool \<Rightarrow> ('c, 'b) rconfig \<Rightarrow> ('c, 'b) rconfig" where
  "setunreliable unrel = on_net (Reliable (\<not> unrel))"

definition setlongreordering :: "bool \<Rightarrow> ('c, 'b) rconfig \<Rightarrow> ('c, 'b) rconfig" where
  "setlongreordering longrel = on_net (LongReordering longrel)"

section \<open>What the peers apply\<close>

fun logs_agree :: "int \<Rightarrow> 'c option \<Rightarrow> (int \<rightharpoonup> 'c option) list \<Rightarrow> bool" where
  "logs_agree k v [] = True"
| "logs_agree k v (l # ls) = (case l k of Some old \<Rightarrow> if old \<noteq> v then False else logs_agree k v ls | None \<Rightarrow> logs_agree k v ls)"

text \<open>\<^verbatim>\<open>checkLogs\<close> panics when two values differ; its error string is empty when it returns.\<close>

definition checkLogs :: "int \<Rightarrow> ('c, 'b) ApplyMsg \<Rightarrow> ('c, 'b) rconfig \<Rightarrow> (bool \<times> ('c, 'b) rconfig) res" where
  "checkLogs i m cfg =
     (let v = amCommand m in
      if \<not> logs_agree (amCommandIndex m) v (rcLogs cfg) then Inl Panicked
      else ebind (nth_go (rcLogs cfg) i) (\<lambda>l.
           let prevok = l (amCommandIndex m - 1) \<noteq> None in
           ebind (upd_go (rcLogs cfg) i (l(amCommandIndex m \<mapsto> v))) (\<lambda>ls.
           Inr (prevok, cfg\<lparr>rcLogs := ls, rcMaxIndex := (if amCommandIndex m > rcMaxIndex cfg then amCommandIndex m else rcMaxIndex cfg)\<rparr>))))"

text \<open>One turn of the loop of \<^verbatim>\<open>applier\<close>.\<close>

definition harness_applier :: "int \<Rightarrow> ('c, 'b) ApplyMsg \<Rightarrow> ('c, 'b) rconfig \<Rightarrow> ('c, 'b) rconfig res" where
  "harness_applier i m cfg =
     (if amCommandValid m = False then Inr cfg
      else ebind (checkLogs i m cfg) (\<lambda>(prevok, cfg').
           if amCommandIndex m > 1 \<and> prevok = False then Inl FatalError else Inr cfg'))"

text \<open>\<^verbatim>\<open>ingestSnap\<close>: whether it returns the error string that the index does not match.\<close>

definition ingestSnap :: "('b list \<Rightarrow> (int \<times> 'c option list) option) \<Rightarrow> int \<Rightarrow> 'b list \<Rightarrow> int \<Rightarrow> ('c, 'b) rconfig \<Rightarrow> (bool \<times> ('c, 'b) rconfig) res" where
  "ingestSnap decode i snap index cfg =
     (case decode snap of
        None \<Rightarrow> Inl FatalError
      | Some (lastIncludedIndex, xlog) \<Rightarrow>
          if index \<noteq> - 1 \<and> index \<noteq> lastIncludedIndex then Inr (True, cfg)
          else ebind (upd_go (rcLogs cfg) i (map_of (zip (map int [0..<length xlog]) xlog))) (\<lambda>ls.
               ebind (upd_go (rcLastApplied cfg) i lastIncludedIndex) (\<lambda>la.
               Inr (False, cfg\<lparr>rcLogs := ls, rcLastApplied := la\<rparr>))))"

definition SnapShotInterval :: int where
  "SnapShotInterval = 10"

text \<open>\<^verbatim>\<open>cfg.logs[i][j]\<close>, nil where the map has no entry.\<close>

definition log_at :: "(int \<rightharpoonup> 'c option) \<Rightarrow> int \<Rightarrow> 'c option" where
  "log_at l j = (case l j of Some v \<Rightarrow> v | None \<Rightarrow> None)"

text \<open>
  One turn of the loop of \<^verbatim>\<open>applierSnap\<close>, which holds on to the peer it was started with. The codec of snapshots is \<^verbatim>\<open>encode\<close> and \<^verbatim>\<open>decode\<close>.
  Go's remainder is zero exactly where \<^verbatim>\<open>mod\<close> is.
\<close>

definition applierSnap :: "(int \<Rightarrow> 'c option list \<Rightarrow> 'b list) \<Rightarrow> ('b list \<Rightarrow> (int \<times> 'c option list) option) \<Rightarrow> int \<Rightarrow> ('c, 'b) ApplyMsg \<Rightarrow>
    ('c, 'b) Raft \<times> ('c, 'b) rconfig \<Rightarrow> (('c, 'b) Raft \<times> ('c, 'b) rconfig) res" where
  "applierSnap encode decode i m = (\<lambda>(rf, cfg).
     if amSnapshotValid m
     then ebind (ingestSnap decode i (amSnapshot m) (amSnapshotIndex m) cfg) (\<lambda>(err, cfg').
          if err then Inl FatalError else Inr (rf, cfg'))
     else if amCommandValid m
     then ebind (nth_go (rcLastApplied cfg) i) (\<lambda>la.
          ebind (if amCommandIndex m \<noteq> la + 1 then Inr (True, cfg)
                 else ebind (checkLogs i m cfg) (\<lambda>(prevok, cfg'). Inr (amCommandIndex m > 1 \<and> prevok = False, cfg'))) (\<lambda>(err, cfg1).
          ebind (upd_go (rcLastApplied cfg1) i (amCommandIndex m)) (\<lambda>las.
          let cfg2 = cfg1\<lparr>rcLastApplied := las\<rparr> in
          ebind (if (amCommandIndex m + 1) mod SnapShotInterval = 0
                 then ebind (nth_go (rcLogs cfg2) i) (\<lambda>l.
                      Snapshot (amCommandIndex m) (encode (amCommandIndex m) (map (log_at l) [0..amCommandIndex m])) rf)
                 else Inr rf) (\<lambda>rf'.
          if err then Inl FatalError else Inr (rf', cfg2)))))
     else Inr (rf, cfg))"
section \<open>Starting and crashing peers\<close>

text \<open>The persister behind \<^verbatim>\<open>cfg.saved[i]\<close>.\<close>

definition saved_now :: "('c, 'b) Raft option \<Rightarrow> ('c, 'b) Persister option \<Rightarrow> ('c, 'b) Persister option" where
  "saved_now rf ps = (case rf of Some rf \<Rightarrow> map_option (\<lambda>_. persister rf) ps | None \<Rightarrow> ps)"

text \<open>
  The peer that is killed (its \<^verbatim>\<open>dead\<close> flag is set by \<^verbatim>\<open>Kill\<close>) is no longer part of the configuration, which keeps what it last saved.
\<close>

definition crash1 :: "int \<Rightarrow> ('c, 'b) rconfig \<Rightarrow> ('c, 'b) rconfig res" where
  "crash1 i cfg =
     ebind (raft_disconnect i cfg) (\<lambda>cfg1.
     let cfg2 = on_net (DeleteServer i) cfg1 in
     ebind (nth_go (rcRafts cfg2) i) (\<lambda>rf.
     ebind (nth_go (rcSaved cfg2) i) (\<lambda>ps.
     let copy = map_option Persister_Copy (saved_now rf ps);
         fresh = map_option (\<lambda>ps. Save (ReadRaftState ps) (ReadSnapshot ps) MakePersister) copy in
     ebind (upd_go (rcRafts cfg2) i None) (\<lambda>rafts.
     ebind (upd_go (rcSaved cfg2) i fresh) (\<lambda>saved.
     Inr (cfg2\<lparr>rcRafts := rafts, rcSaved := saved\<rparr>))))))"

fun make_ends :: "string list \<Rightarrow> int list \<Rightarrow> (string, int) Network \<Rightarrow> (string, int) Network res" where
  "make_ends names [] rn = Inr rn"
| "make_ends names (j # js) rn =
     ebind (nth_go names j) (\<lambda>e.
     ebind (MakeEnd e rn) (\<lambda>(_, rn1). make_ends names js (Connect e j rn1)))"

text \<open>The part of \<^verbatim>\<open>start1\<close> that finds the persisted state, and ingests its snapshot.\<close>

definition start_saved :: "('b list \<Rightarrow> (int \<times> 'c option list) option) \<Rightarrow> int \<Rightarrow> ('c, 'b) rconfig \<Rightarrow> (('c, 'b) Persister \<times> ('c, 'b) rconfig) res" where
  "start_saved decode i cfg =
     ebind (nth_go (rcSaved cfg) i) (\<lambda>ps. case ps of
        Some ps \<Rightarrow>
          let ps1 = Persister_Copy ps; snap = ReadSnapshot ps1 in
          ebind (upd_go (rcSaved cfg) i (Some ps1)) (\<lambda>saved.
          if snap \<noteq> []
          then ebind (ingestSnap decode i snap (- 1) (cfg\<lparr>rcSaved := saved\<rparr>)) (\<lambda>(err, cfg1).
               if err then Inl FatalError else Inr (ps1, cfg1))
          else Inr (ps1, cfg\<lparr>rcSaved := saved\<rparr>))
      | None \<Rightarrow>
          ebind (upd_go (rcSaved cfg) i (Some MakePersister)) (\<lambda>saved. Inr (MakePersister, cfg\<lparr>rcSaved := saved\<rparr>)))"

text \<open>\<^verbatim>\<open>names\<close> are the random names of the ends of the peer, \<^verbatim>\<open>svc\<close> is the service made of the peer's methods.\<close>

definition start1 :: "('b list \<Rightarrow> (int \<times> 'c option list) option) \<Rightarrow> Service \<Rightarrow> int \<Rightarrow> (nat \<Rightarrow> string) \<Rightarrow> int \<Rightarrow> ('c, 'b) rconfig \<Rightarrow> ('c, 'b) rconfig res" where
  "start1 decode svc i names now cfg =
     ebind (crash1 i cfg) (\<lambda>cfg1.
     let n = cfN (rcPart cfg1); endnames = map names [0..<n] in
     ebind (upd_go (cfEndnames (rcPart cfg1)) i (Some endnames)) (\<lambda>all.
     ebind (make_ends endnames (indices cfg1) (cfNet (rcPart cfg1))) (\<lambda>rn.
     let cfg2 = cfg1\<lparr>rcPart := (rcPart cfg1)\<lparr>cfEndnames := all, cfNet := rn\<rparr>\<rparr> in
     ebind (upd_go (rcLastApplied cfg2) i 0) (\<lambda>la.
     ebind (start_saved decode i (cfg2\<lparr>rcLastApplied := la\<rparr>)) (\<lambda>(ps, cfg3).
     ebind (Make n (nat i) ps now) (\<lambda>rf.
     ebind (upd_go (rcRafts cfg3) i (Some rf)) (\<lambda>rafts.
     let srv = AddService svc MakeServer in
     Inr (on_net (AddServer i (length (rcServers cfg3))) (cfg3\<lparr>rcRafts := rafts, rcServers := rcServers cfg3 @ [srv]\<rparr>)))))))))"

fun start_all :: "('b list \<Rightarrow> (int \<times> 'c option list) option) \<Rightarrow> Service \<Rightarrow> (int \<Rightarrow> nat \<Rightarrow> string) \<Rightarrow> (int \<Rightarrow> int) \<Rightarrow> int list \<Rightarrow> ('c, 'b) rconfig \<Rightarrow> ('c, 'b) rconfig res" where
  "start_all decode svc names now [] cfg = Inr cfg"
| "start_all decode svc names now (i # is) cfg =
     ebind (upd_go (rcLogs cfg) i Map.empty) (\<lambda>ls.
     ebind (start1 decode svc i (names i) (now i) (cfg\<lparr>rcLogs := ls\<rparr>)) (start_all decode svc names now is))"

fun connect_all :: "int list \<Rightarrow> ('c, 'b) rconfig \<Rightarrow> ('c, 'b) rconfig res" where
  "connect_all [] cfg = Inr cfg"
| "connect_all (i # is) cfg = ebind (raft_connect i cfg) (connect_all is)"

definition empty_config :: "nat \<Rightarrow> ('c, 'b) rconfig" where
  "empty_config n = \<lparr>rcPart = \<lparr>cfN = n, cfNet = MakeNetwork, cfEndnames = replicate n None\<rparr>, rcRafts = replicate n None,
     rcConnected = replicate n False, rcSaved = replicate n None, rcLogs = replicate n Map.empty, rcLastApplied = replicate n 0,
     rcMaxIndex = 0, rcServers = []\<rparr>"

definition make_config :: "('b list \<Rightarrow> (int \<times> 'c option list) option) \<Rightarrow> Service \<Rightarrow> (int \<Rightarrow> nat \<Rightarrow> string) \<Rightarrow> (int \<Rightarrow> int) \<Rightarrow> nat \<Rightarrow> bool \<Rightarrow> ('c, 'b) rconfig res" where
  "make_config decode svc names now n unreliable =
     (let cfg = on_net (LongDelays True) (setunreliable unreliable (empty_config n)) in
      ebind (start_all decode svc names now (indices cfg) cfg) (\<lambda>cfg1. connect_all (indices cfg1) cfg1))"

text \<open>A test: the configuration it makes, and what it does to it, in any order.\<close>

inductive harness_run :: "('b list \<Rightarrow> (int \<times> 'c option list) option) \<Rightarrow> Service \<Rightarrow> ('c, 'b) rconfig \<Rightarrow> bool" for decode svc where
  made: "make_config decode svc names now n unreliable = Inr cfg \<Longrightarrow> harness_run decode svc cfg"
| connect: "harness_run decode svc cfg \<Longrightarrow> raft_connect i cfg = Inr cfg' \<Longrightarrow> harness_run decode svc cfg'"
| disconnect: "harness_run decode svc cfg \<Longrightarrow> raft_disconnect i cfg = Inr cfg' \<Longrightarrow> harness_run decode svc cfg'"
| crash: "harness_run decode svc cfg \<Longrightarrow> crash1 i cfg = Inr cfg' \<Longrightarrow> harness_run decode svc cfg'"
| start: "harness_run decode svc cfg \<Longrightarrow> start1 decode svc i ns now' cfg = Inr cfg' \<Longrightarrow> harness_run decode svc cfg'"
| unreliable: "harness_run decode svc cfg \<Longrightarrow> harness_run decode svc (setunreliable b cfg)"
| reordering: "harness_run decode svc cfg \<Longrightarrow> harness_run decode svc (setlongreordering b cfg)"
| applied: "harness_run decode svc cfg \<Longrightarrow> harness_applier i m cfg = Inr cfg' \<Longrightarrow> harness_run decode svc cfg'"
| applied_snap: "harness_run decode svc cfg \<Longrightarrow> applierSnap encode decode i m (rf, cfg) = Inr (rf', cfg') \<Longrightarrow> harness_run decode svc cfg'"
| peer: "harness_run decode svc cfg \<Longrightarrow> i < length (rcRafts cfg) \<Longrightarrow> rcRafts cfg ! i = Some rf0 \<Longrightarrow> harness_run decode svc (cfg\<lparr>rcRafts := (rcRafts cfg)[i := Some rf]\<rparr>)"

section \<open>Questions about the peers\<close>

text \<open>
  The peers go on while the harness asks them one after the other, so each answer of \<^verbatim>\<open>GetState\<close> is an argument: \<^verbatim>\<open>st i\<close> for peer \<^verbatim>\<open>i\<close>, with
  \<^const>\<open>None\<close> when \<^verbatim>\<open>rafts[i]\<close> is nil. The map from terms to leaders is a list of pairs.
\<close>

fun add_leader :: "int \<Rightarrow> int \<Rightarrow> (int \<times> int list) list \<Rightarrow> (int \<times> int list) list" where
  "add_leader term i [] = [(term, [i])]"
| "add_leader term i ((t, is) # ls) = (if t = term then (t, is @ [i]) # ls else (t, is) # add_leader term i ls)"

fun collect_leaders :: "bool list \<Rightarrow> (int \<Rightarrow> (int \<times> bool) option) \<Rightarrow> int list \<Rightarrow> (int \<times> int list) list \<Rightarrow> (int \<times> int list) list res" where
  "collect_leaders conn st [] leaders = Inr leaders"
| "collect_leaders conn st (i # is) leaders =
     ebind (nth_go conn i) (\<lambda>c.
     if c then case st i of
                 None \<Rightarrow> Inl NilPointer
               | Some (term, leader) \<Rightarrow> collect_leaders conn st is (if leader then add_leader term i leaders else leaders)
     else collect_leaders conn st is leaders)"

text \<open>The range over the map; its order does not matter, because it only looks for a list that is too long and for the highest term.\<close>

fun last_term :: "int \<Rightarrow> (int \<times> int list) list \<Rightarrow> int res" where
  "last_term lastTermWithLeader [] = Inr lastTermWithLeader"
| "last_term lastTermWithLeader ((term, is) # ls) =
     (if int (length is) > 1 then Inl FatalError
      else last_term (if term > lastTermWithLeader then term else lastTermWithLeader) ls)"

definition leaders_at :: "(int \<times> int list) list \<Rightarrow> int \<Rightarrow> int list" where
  "leaders_at leaders t = (case map_of leaders t of Some is \<Rightarrow> is | None \<Rightarrow> [])"

fun one_leader_loop :: "bool list \<Rightarrow> nat \<Rightarrow> (int \<Rightarrow> (int \<times> bool) option) list \<Rightarrow> int res" where
  "one_leader_loop conn n [] = Inl FatalError"
| "one_leader_loop conn n (st # sts) =
     ebind (collect_leaders conn st (map int [0..<n]) []) (\<lambda>leaders.
     ebind (last_term (- 1) leaders) (\<lambda>lastTermWithLeader.
     if length leaders \<noteq> 0 then nth_go (leaders_at leaders lastTermWithLeader) 0
     else one_leader_loop conn n sts))"

text \<open>\<^verbatim>\<open>obs k\<close> are the answers in iteration \<^verbatim>\<open>k\<close>.\<close>

definition checkOneLeader :: "bool list \<Rightarrow> nat \<Rightarrow> (nat \<Rightarrow> int \<Rightarrow> (int \<times> bool) option) \<Rightarrow> int res" where
  "checkOneLeader conn n obs = one_leader_loop conn n (map obs [0..<10])"

fun terms_loop :: "bool list \<Rightarrow> (int \<Rightarrow> (int \<times> bool) option) \<Rightarrow> int list \<Rightarrow> int \<Rightarrow> int res" where
  "terms_loop conn st [] term = Inr term"
| "terms_loop conn st (i # is) term =
     ebind (nth_go conn i) (\<lambda>c.
     if c then case st i of
                 None \<Rightarrow> Inl NilPointer
               | Some (xterm, _) \<Rightarrow>
                   if term = - 1 then terms_loop conn st is xterm
                   else if term \<noteq> xterm then Inl FatalError else terms_loop conn st is term
     else terms_loop conn st is term)"

definition checkTerms :: "bool list \<Rightarrow> nat \<Rightarrow> (int \<Rightarrow> (int \<times> bool) option) \<Rightarrow> int res" where
  "checkTerms conn n st = terms_loop conn st (map int [0..<n]) (- 1)"

fun no_leader_loop :: "bool list \<Rightarrow> (int \<Rightarrow> (int \<times> bool) option) \<Rightarrow> int list \<Rightarrow> unit res" where
  "no_leader_loop conn st [] = Inr ()"
| "no_leader_loop conn st (i # is) =
     ebind (nth_go conn i) (\<lambda>c.
     if c then case st i of
                 None \<Rightarrow> Inl NilPointer
               | Some (_, is_leader) \<Rightarrow> if is_leader then Inl FatalError else no_leader_loop conn st is
     else no_leader_loop conn st is)"

definition checkNoLeader :: "bool list \<Rightarrow> nat \<Rightarrow> (int \<Rightarrow> (int \<times> bool) option) \<Rightarrow> unit res" where
  "checkNoLeader conn n st = no_leader_loop conn st (map int [0..<n])"

text \<open>
  \<^verbatim>\<open>nCommitted\<close>. An error string in \<^verbatim>\<open>applyErr\<close> cannot be seen: \<^verbatim>\<open>log.Fatalf\<close> ends the process before one is stored.
\<close>

fun committed_loop :: "int \<Rightarrow> (int \<rightharpoonup> 'c option) list \<Rightarrow> int \<times> 'c option \<Rightarrow> (int \<times> 'c option) res" where
  "committed_loop index [] st = Inr st"
| "committed_loop index (l # ls) (cnt, cmd) =
     (case l index of
        None \<Rightarrow> committed_loop index ls (cnt, cmd)
      | Some cmd1 \<Rightarrow> if cnt > 0 \<and> cmd \<noteq> cmd1 then Inl FatalError else committed_loop index ls (cnt + 1, cmd1))"

definition nCommitted :: "int \<Rightarrow> ('c, 'b) rconfig \<Rightarrow> (int \<times> 'c option) res" where
  "nCommitted index cfg = committed_loop index (rcLogs cfg) (0, None)"

section \<open>Which ends are enabled\<close>

text \<open>\<^verbatim>\<open>x\<close> is the current name of the end from peer \<^verbatim>\<open>i\<close> to peer \<^verbatim>\<open>j\<close>.\<close>

definition named :: "kvcfg \<Rightarrow> nat \<Rightarrow> nat \<Rightarrow> string \<Rightarrow> bool" where
  "named p i j x \<longleftrightarrow> i < cfN p \<and> j < cfN p \<and> (\<exists>l. cfEndnames p ! i = Some l \<and> l ! j = x)"

definition named_inv :: "kvcfg \<Rightarrow> bool" where
  "named_inv p \<longleftrightarrow> length (cfEndnames p) = cfN p \<and> (\<forall>l. Some l \<in> set (cfEndnames p) \<longrightarrow> length l = cfN p) \<and>
     (\<forall>i j i' j' x. named p i j x \<and> named p i' j' x \<longrightarrow> i = i' \<and> j = j') \<and>
     (\<forall>i j x. named p i j x \<longrightarrow> rnEnds (cfNet p) x \<noteq> None \<and> rnConnections (cfNet p) x = Some (int j))"

definition wired :: "kvcfg \<Rightarrow> bool list \<Rightarrow> bool" where
  "wired p conn \<longleftrightarrow> named_inv p \<and> length conn = cfN p \<and> (\<forall>i < cfN p. conn ! i \<longrightarrow> cfEndnames p ! i \<noteq> None) \<and>
     (\<forall>x. enabled p x \<longleftrightarrow> (\<exists>i j. named p i j x \<and> conn ! i \<and> conn ! j))"

lemma named_set_ends [simp]: "named (set_ends S b p) = named p"
  by (simp add: named_def [abs_def])

lemma named_inv_set_ends [simp]: "named_inv (set_ends S b p) = named_inv p"
  by (simp add: named_inv_def) (simp add: set_ends_def)

lemma endname_named:
  assumes "named_inv p" and "i < cfN p" and "j < cfN p" and "cfEndnames p ! i \<noteq> None"
  shows "\<exists>x. endname p (int i) (int j) = Inr x \<and> named p i j x"
proof -
  obtain l where l: "cfEndnames p ! i = Some l" using assms(4) by blast
  then have "Some l \<in> set (cfEndnames p)" using assms(1,2) nth_mem [of i "cfEndnames p"] by (simp add: named_inv_def)
  then have "length l = cfN p" using assms(1) by (simp add: named_inv_def)
  then show ?thesis using assms l by (simp add: endname_def nth_go_def names_of_def named_def named_inv_def)
qed

lemma named_fun: "named p i j x \<Longrightarrow> named p i j y \<Longrightarrow> x = y"
  by (auto simp: named_def)

lemma named_Some: "named p i j x \<Longrightarrow> i < cfN p \<and> j < cfN p \<and> cfEndnames p ! i \<noteq> None"
  by (auto simp: named_def)

text \<open>A loop that switches one end for each element adds up the ends.\<close>

lemma set_end_named: "named p i j x \<Longrightarrow> set_end x b p = set_ends {y. named p i j y} b p"
  using named_fun by (fastforce simp: set_end_ends intro!: arg_cong [of _ _ "\<lambda>S. set_ends S b p"])

lemma named_step: "{y. \<exists>j \<in> set js. P j \<and> R j y} \<union> (if P k then {y. R k y} else {}) = {y. \<exists>j \<in> set (k # js). P j \<and> R j y}"
  by auto

lemma rconnect_out_named:
  assumes "named_inv p" and "length conn = cfN p" and "i < cfN p" and "cfEndnames p ! i \<noteq> None" and "\<forall>j \<in> set ks. j < cfN p"
  shows "rconnect_out conn (int i) (map int ks) p = Inr (set_ends {x. \<exists>j \<in> set ks. conn ! j \<and> named p i j x} True p)"
  using assms
proof (induction ks arbitrary: p)
  case (Cons k ks)
  obtain x where x: "endname p (int i) (int k) = Inr x" "named p i k x" using endname_named [of p i k] Cons.prems by auto
  show ?case using Cons.IH [of "set_ends {y. named p i k y} True p"] Cons.IH [of p] Cons.prems x named_step [of ks "\<lambda>j. conn ! j" "named p i" k]
    by (cases "conn ! k") (simp_all add: nth_go_def set_end_named [OF x(2)] set_ends_ends)
qed simp

lemma rconnect_in_named:
  assumes "named_inv p" and "length conn = cfN p" and "i < cfN p" and "\<forall>j < cfN p. conn ! j \<longrightarrow> cfEndnames p ! j \<noteq> None" and "\<forall>j \<in> set ks. j < cfN p"
  shows "rconnect_in conn (int i) (map int ks) p = Inr (set_ends {x. \<exists>j \<in> set ks. conn ! j \<and> named p j i x} True p)"
  using assms
proof (induction ks arbitrary: p)
  case (Cons k ks)
  show ?case
  proof (cases "conn ! k")
    case True
    then obtain x where x: "endname p (int k) (int i) = Inr x" "named p k i x" using endname_named [of p k i] Cons.prems by auto
    show ?thesis using Cons.IH [of "set_ends {y. named p k i y} True p"] Cons.prems True x named_step [of ks "\<lambda>j. conn ! j" "\<lambda>j. named p j i" k]
      by (simp add: nth_go_def set_end_named [OF x(2)] set_ends_ends)
  next
    case False
    then show ?thesis using Cons.IH [of p] Cons.prems by (simp add: nth_go_def)
  qed
qed simp

lemma rdisconnect_out_named:
  assumes "named_inv p" and "i < cfN p" and "\<forall>j \<in> set ks. j < cfN p"
  shows "rdisconnect_out (int i) (map int ks) p = Inr (set_ends {x. \<exists>j \<in> set ks. named p i j x} False p)"
  using assms
proof (induction ks arbitrary: p)
  case (Cons k ks)
  have l: "length (cfEndnames p) = cfN p" using Cons.prems(1) by (simp add: named_inv_def)
  show ?case
  proof (cases "cfEndnames p ! i = None")
    case False
    then obtain x where x: "endname p (int i) (int k) = Inr x" "named p i k x" using endname_named [of p i k] Cons.prems by auto
    show ?thesis using Cons.IH [of "set_ends {y. named p i k y} False p"] Cons.prems False l x named_step [of ks "\<lambda>_. True" "named p i" k]
      by (simp add: nth_go_def set_end_named [OF x(2)] set_ends_ends)
  next
    case True
    then have "\<not> named p i k x" for x by (simp add: named_def)
    then show ?thesis using Cons.IH [of p] Cons.prems True l by (simp add: nth_go_def)
  qed
qed simp

lemma rdisconnect_in_named:
  assumes "named_inv p" and "i < cfN p" and "\<forall>j \<in> set ks. j < cfN p"
  shows "rdisconnect_in (int i) (map int ks) p = Inr (set_ends {x. \<exists>j \<in> set ks. named p j i x} False p)"
  using assms
proof (induction ks arbitrary: p)
  case (Cons k ks)
  have l: "length (cfEndnames p) = cfN p" using Cons.prems(1) by (simp add: named_inv_def)
  show ?case
  proof (cases "cfEndnames p ! k = None")
    case False
    then obtain x where x: "endname p (int k) (int i) = Inr x" "named p k i x" using endname_named [of p k i] Cons.prems by auto
    show ?thesis using Cons.IH [of "set_ends {y. named p k i y} False p"] Cons.prems False l x named_step [of ks "\<lambda>_. True" "\<lambda>j. named p j i" k]
      by (simp add: nth_go_def set_end_named [OF x(2)] set_ends_ends)
  next
    case True
    then have "\<not> named p k i x" for x by (simp add: named_def)
    then show ?thesis using Cons.IH [of p] Cons.prems True l by (simp add: nth_go_def)
  qed
qed simp

lemma indices_all: "indices cfg = map int [0..<cfN (rcPart cfg)]"
  by (simp add: indices_def)

lemma named_all:
  "(\<exists>j \<in> set [0..<cfN p]. Q j \<and> named p j i x) \<longleftrightarrow> (\<exists>j. Q j \<and> named p j i x)" "(\<exists>j \<in> set [0..<cfN p]. Q j \<and> named p i j x) \<longleftrightarrow> (\<exists>j. Q j \<and> named p i j x)"
  by (auto simp: named_def)

lemmas named_any = named_all [where Q = "\<lambda>_. True", simplified simp_thms]

lemma connected_pairs:
  "((\<exists>k j. N k j \<and> (k = i \<and> (j = i \<or> C j) \<or> j = i \<and> (k = i \<or> C k))) \<or> (\<exists>k j. N k j \<and> C k \<and> C j)) \<longleftrightarrow> (\<exists>k j. N k j \<and> (k = i \<or> C k) \<and> (j = i \<or> C j))"
  by blast

text \<open>Connecting and disconnecting a peer return, and keep the ends in step with the flags.\<close>

lemma raft_connect_wired:
  assumes "wired (rcPart cfg) (rcConnected cfg)" and "i < cfN (rcPart cfg)" and "cfEndnames (rcPart cfg) ! i \<noteq> None"
  shows "\<exists>cfg'. raft_connect (int i) cfg = Inr cfg' \<and> wired (rcPart cfg') (rcConnected cfg') \<and> rcConnected cfg' = (rcConnected cfg)[i := True] \<and>
    cfEndnames (rcPart cfg') = cfEndnames (rcPart cfg) \<and> cfN (rcPart cfg') = cfN (rcPart cfg)"
proof -
  let ?p = "rcPart cfg" and ?conn = "(rcConnected cfg)[i := True]" and ?ks = "[0..<cfN (rcPart cfg)]"
  have w: "named_inv ?p" "length (rcConnected cfg) = cfN ?p" "\<forall>j < cfN ?p. rcConnected cfg ! j \<longrightarrow> cfEndnames ?p ! j \<noteq> None"
    "\<forall>x. enabled ?p x \<longleftrightarrow> (\<exists>i j. named ?p i j x \<and> rcConnected cfg ! i \<and> rcConnected cfg ! j)"
    using assms(1) by (simp_all add: wired_def)
  have len: "length ?conn = cfN ?p" using w(2) by simp
  have some: "\<forall>j < cfN ?p. ?conn ! j \<longrightarrow> cfEndnames ?p ! j \<noteq> None" using w(2,3) assms(2,3) by (auto simp: nth_list_update)
  let ?S = "{x. \<exists>j \<in> set ?ks. ?conn ! j \<and> named ?p i j x}" and ?T = "{x. \<exists>j \<in> set ?ks. ?conn ! j \<and> named ?p j i x}"
  have o: "rconnect_out ?conn (int i) (map int ?ks) ?p = Inr (set_ends ?S True ?p)"
    using rconnect_out_named [OF w(1) len assms(2,3), of ?ks] by simp
  have n: "rconnect_in ?conn (int i) (map int ?ks) (set_ends ?S True ?p) = Inr (set_ends ?T True (set_ends ?S True ?p))"
    using rconnect_in_named [of "set_ends ?S True ?p" ?conn i ?ks] w(1) len assms(2) some by simp
  let ?cfg = "cfg\<lparr>rcConnected := ?conn, rcPart := set_ends (?T \<union> ?S) True ?p\<rparr>"
  have "raft_connect (int i) cfg = Inr ?cfg"
    using assms(2) w(2) o n by (simp add: raft_connect_def upd_go_def indices_all set_ends_ends)
  moreover have "enabled (set_ends (?T \<union> ?S) True ?p) x \<longleftrightarrow> (\<exists>k j. named ?p k j x \<and> ?conn ! k \<and> ?conn ! j)" for x
  proof -
    have c: "?conn ! k \<longleftrightarrow> k = i \<or> rcConnected cfg ! k" for k using assms(2) w(2) by (cases "k = i") simp_all
    have sub: "x \<in> ?T \<union> ?S \<longleftrightarrow> (\<exists>k j. named ?p k j x \<and> (k = i \<and> ?conn ! j \<or> j = i \<and> ?conn ! k))" unfolding Un_iff mem_Collect_eq named_all by blast
    have en: "enabled ?p x \<longleftrightarrow> (\<exists>i j. named ?p i j x \<and> rcConnected cfg ! i \<and> rcConnected cfg ! j)" using w(4) by blast
    have "enabled (set_ends A True ?p) x \<longleftrightarrow> x \<in> A \<or> enabled ?p x" for A by simp
    from this [of "?T \<union> ?S"] show ?thesis
      using sub [unfolded c] en connected_pairs [of "\<lambda>k j. named ?p k j x" i "\<lambda>k. rcConnected cfg ! k"] unfolding c by argo
  qed
  ultimately show ?thesis using w(1) len some by (intro exI [of _ ?cfg]) (simp add: wired_def)
qed

lemma raft_disconnect_wired:
  assumes "wired (rcPart cfg) (rcConnected cfg)" and "i < cfN (rcPart cfg)"
  shows "\<exists>S. raft_disconnect (int i) cfg = Inr (cfg\<lparr>rcConnected := (rcConnected cfg)[i := False], rcPart := set_ends S False (rcPart cfg)\<rparr>) \<and>
    wired (set_ends S False (rcPart cfg)) ((rcConnected cfg)[i := False])"
proof -
  let ?p = "rcPart cfg" and ?conn = "(rcConnected cfg)[i := False]" and ?ks = "[0..<cfN (rcPart cfg)]"
  have w: "named_inv ?p" "length (rcConnected cfg) = cfN ?p" "\<forall>j < cfN ?p. rcConnected cfg ! j \<longrightarrow> cfEndnames ?p ! j \<noteq> None"
    "\<forall>x. enabled ?p x \<longleftrightarrow> (\<exists>i j. named ?p i j x \<and> rcConnected cfg ! i \<and> rcConnected cfg ! j)"
    using assms(1) by (simp_all add: wired_def)
  let ?S = "{x. \<exists>j \<in> set ?ks. named ?p i j x}" and ?T = "{x. \<exists>j \<in> set ?ks. named ?p j i x}"
  have o: "rdisconnect_out (int i) (map int ?ks) ?p = Inr (set_ends ?S False ?p)"
    using rdisconnect_out_named [OF w(1) assms(2), of ?ks] by simp
  have n: "rdisconnect_in (int i) (map int ?ks) (set_ends ?S False ?p) = Inr (set_ends ?T False (set_ends ?S False ?p))"
    using rdisconnect_in_named [of "set_ends ?S False ?p" i ?ks] w(1) assms(2) by simp
  have "raft_disconnect (int i) cfg = Inr (cfg\<lparr>rcConnected := ?conn, rcPart := set_ends (?T \<union> ?S) False ?p\<rparr>)"
    using assms(2) w(2) o n by (simp add: raft_disconnect_def upd_go_def indices_all set_ends_ends)
  moreover have "enabled (set_ends (?T \<union> ?S) False ?p) x \<longleftrightarrow> (\<exists>k j. named ?p k j x \<and> ?conn ! k \<and> ?conn ! j)" for x
  proof -
    have c: "?conn ! k \<longleftrightarrow> k \<noteq> i \<and> rcConnected cfg ! k" for k using assms(2) w(2) by (auto simp: nth_list_update)
    have inj: "k = k' \<and> j = j'" if "named ?p k j x" "named ?p k' j' x" for k j k' j' using w(1) that unfolding named_inv_def by blast
    have sub: "x \<in> ?T \<union> ?S \<longleftrightarrow> (\<exists>k j. named ?p k j x \<and> (k = i \<or> j = i))" unfolding Un_iff mem_Collect_eq named_any by blast
    show ?thesis unfolding enabled_set_ends sub c using w(4) inj by (auto; blast)
  qed
  moreover have "\<forall>j < cfN ?p. ?conn ! j \<longrightarrow> cfEndnames ?p ! j \<noteq> None" using w(2,3) assms(2) by (auto simp: nth_list_update)
  ultimately show ?thesis using w(1,2) by (intro exI [of _ "?T \<union> ?S"]) (simp add: wired_def)
qed

definition lengths_ok :: "('c, 'b) rconfig \<Rightarrow> bool" where
  "lengths_ok cfg \<longleftrightarrow> length (rcRafts cfg) = cfN (rcPart cfg) \<and> length (rcSaved cfg) = cfN (rcPart cfg) \<and> length (rcLogs cfg) = cfN (rcPart cfg) \<and>
     length (rcLastApplied cfg) = cfN (rcPart cfg)"

definition harness_inv :: "('c, 'b) rconfig \<Rightarrow> bool" where
  "harness_inv cfg \<longleftrightarrow> wired (rcPart cfg) (rcConnected cfg) \<and> lengths_ok cfg"

text \<open>Changes of the network that leave the ends alone.\<close>

lemma wired_net:
  assumes "rnEnds rn = rnEnds (cfNet p)" and "rnConnections rn = rnConnections (cfNet p)" and "rnEnabled rn = rnEnabled (cfNet p)"
  shows "wired (p\<lparr>cfNet := rn\<rparr>) conn = wired p conn"
  using assms by (simp add: wired_def named_inv_def named_def)

lemma harness_inv_on_net:
  assumes "\<And>rn. rnEnds (f rn) = rnEnds rn" and "\<And>rn. rnConnections (f rn) = rnConnections rn" and "\<And>rn. rnEnabled (f rn) = rnEnabled rn"
  shows "harness_inv (on_net f cfg) = harness_inv cfg"
  using wired_net [of "f (cfNet (rcPart cfg))" "rcPart cfg" "rcConnected cfg"] assms
  by (simp add: harness_inv_def on_net_def lengths_ok_def)

lemma harness_inv_settings [simp]:
  "harness_inv (setunreliable b cfg) = harness_inv cfg" "harness_inv (setlongreordering b cfg) = harness_inv cfg"
  "harness_inv (on_net (LongDelays b) cfg) = harness_inv cfg" "harness_inv (on_net (DeleteServer i) cfg) = harness_inv cfg"
  "harness_inv (on_net (AddServer i a) cfg) = harness_inv cfg"
  by (simp_all add: setunreliable_def setlongreordering_def harness_inv_on_net Reliable_def LongReordering_def LongDelays_def DeleteServer_def AddServer_def)

lemma raft_disconnect_inv:
  assumes "harness_inv cfg" and "i < cfN (rcPart cfg)"
  shows "\<exists>cfg'. raft_disconnect (int i) cfg = Inr cfg' \<and> harness_inv cfg' \<and> rcConnected cfg' = (rcConnected cfg)[i := False] \<and>
    cfN (rcPart cfg') = cfN (rcPart cfg) \<and> cfEndnames (rcPart cfg') = cfEndnames (rcPart cfg)"
proof -
  obtain S where S: "raft_disconnect (int i) cfg = Inr (cfg\<lparr>rcConnected := (rcConnected cfg)[i := False], rcPart := set_ends S False (rcPart cfg)\<rparr>)"
    "wired (set_ends S False (rcPart cfg)) ((rcConnected cfg)[i := False])"
    using raft_disconnect_wired [OF _ assms(2)] assms(1) by (auto simp: harness_inv_def)
  then show ?thesis using assms(1) by (simp add: harness_inv_def lengths_ok_def)
qed

lemma raft_connect_inv:
  assumes "harness_inv cfg" and "i < cfN (rcPart cfg)" and "cfEndnames (rcPart cfg) ! i \<noteq> None"
  shows "\<exists>cfg'. raft_connect (int i) cfg = Inr cfg' \<and> harness_inv cfg' \<and> rcConnected cfg' = (rcConnected cfg)[i := True] \<and>
    cfN (rcPart cfg') = cfN (rcPart cfg) \<and> cfEndnames (rcPart cfg') = cfEndnames (rcPart cfg)"
proof -
  obtain cfg' where c: "raft_connect (int i) cfg = Inr cfg'" "wired (rcPart cfg') (rcConnected cfg')" "rcConnected cfg' = (rcConnected cfg)[i := True]"
    "cfN (rcPart cfg') = cfN (rcPart cfg)" "cfEndnames (rcPart cfg') = cfEndnames (rcPart cfg)"
    using raft_connect_wired [OF _ assms(2,3)] assms(1) by (auto simp: harness_inv_def)
  have "lengths_ok cfg'" using c(1,4) assms(1) by (auto simp: raft_connect_def ebind_eq_Inr harness_inv_def lengths_ok_def)
  then show ?thesis using c by (simp add: harness_inv_def)
qed

lemma crash1_inv:
  assumes "harness_inv cfg" and "i < cfN (rcPart cfg)"
  shows "\<exists>cfg'. crash1 (int i) cfg = Inr cfg' \<and> harness_inv cfg' \<and> rcConnected cfg' = (rcConnected cfg)[i := False] \<and>
    cfN (rcPart cfg') = cfN (rcPart cfg) \<and> cfEndnames (rcPart cfg') = cfEndnames (rcPart cfg)"
proof -
  obtain cfg1 where c: "raft_disconnect (int i) cfg = Inr cfg1" "harness_inv cfg1" "rcConnected cfg1 = (rcConnected cfg)[i := False]"
    "cfN (rcPart cfg1) = cfN (rcPart cfg)" "cfEndnames (rcPart cfg1) = cfEndnames (rcPart cfg)"
    using raft_disconnect_inv [OF assms] by blast
  let ?c2 = "on_net (DeleteServer (int i)) cfg1"
  have h: "harness_inv ?c2" using c(2) by simp
  have p: "cfN (rcPart ?c2) = cfN (rcPart cfg)" "cfEndnames (rcPart ?c2) = cfEndnames (rcPart cfg)" "rcConnected ?c2 = (rcConnected cfg)[i := False]"
    using c(3-5) by (simp_all add: on_net_def)
  have l: "length (rcRafts ?c2) = cfN (rcPart cfg)" "length (rcSaved ?c2) = cfN (rcPart cfg)" using h p(1) by (simp_all add: harness_inv_def lengths_ok_def)
  obtain rafts saved where "crash1 (int i) cfg = Inr (?c2\<lparr>rcRafts := rafts, rcSaved := saved\<rparr>)" "length rafts = cfN (rcPart cfg)" "length saved = cfN (rcPart cfg)"
    using c(1) l assms(2) by (simp add: crash1_def nth_go_def upd_go_def Let_def)
  then show ?thesis using h p by (simp add: harness_inv_def lengths_ok_def)
qed

text \<open>Making the ends of a peer returns only if their names are new.\<close>

lemma make_ends_names:
  assumes "make_ends names (map int ks) rn = Inr rn'" and "\<forall>k \<in> set ks. k < length names"
  shows "(\<forall>k \<in> set ks. rnEnds rn (names ! k) = None \<and> rnConnections rn' (names ! k) = Some (int k)) \<and> distinct (map ((!) names) ks) \<and>
    (\<forall>x. (rnEnds rn' x \<noteq> None \<longleftrightarrow> rnEnds rn x \<noteq> None \<or> x \<in> (!) names ` set ks) \<and> (x \<notin> (!) names ` set ks \<longrightarrow> rnConnections rn' x = rnConnections rn x) \<and>
      (rnEnabled rn' x \<longleftrightarrow> rnEnabled rn x \<and> x \<notin> (!) names ` set ks))"
  using assms
proof (induction ks arbitrary: rn)
  case Nil
  then show ?case by simp
next
  case (Cons k ks)
  let ?x = "names ! k"
  let ?rn1 = "Connect ?x (int k) (rn\<lparr>rnEnds := (rnEnds rn)(?x \<mapsto> \<lparr>ceName = ?x\<rparr>), rnEnabled := (rnEnabled rn)(?x := False), rnConnections := (rnConnections rn)(?x := None)\<rparr>)"
  have new: "rnEnds rn ?x = None" and run: "make_ends names (map int ks) ?rn1 = Inr rn'"
    using Cons.prems by (auto simp: nth_go_def MakeEnd_def Let_def split: if_splits)
  have f: "rnEnds ?rn1 = (rnEnds rn)(?x \<mapsto> \<lparr>ceName = ?x\<rparr>)" "rnEnabled ?rn1 = (rnEnabled rn)(?x := False)" "rnConnections ?rn1 = (rnConnections rn)(?x := Some (int k))"
    by (simp_all add: Connect_def)
  have "\<forall>k \<in> set ks. k < length names" using Cons.prems(2) by simp
  note ih = Cons.IH [OF run this, unfolded f]
  have none: "((rnEnds rn)(?x \<mapsto> \<lparr>ceName = ?x\<rparr>)) (names ! j) = None" "rnConnections rn' (names ! j) = Some (int j)" if "j \<in> set ks" for j
    using ih that by blast+
  have diff: "names ! j \<noteq> ?x \<and> rnEnds rn (names ! j) = None" if "j \<in> set ks" for j
    using none(1) [OF that] by (simp split: if_splits)
  then have nk: "?x \<notin> (!) names ` set ks" by fastforce
  have upd: "rnEnds rn' x \<noteq> None \<longleftrightarrow> ((rnEnds rn)(?x \<mapsto> \<lparr>ceName = ?x\<rparr>)) x \<noteq> None \<or> x \<in> (!) names ` set ks"
    "x \<notin> (!) names ` set ks \<longrightarrow> rnConnections rn' x = ((rnConnections rn)(?x := Some (int k))) x"
    "rnEnabled rn' x \<longleftrightarrow> ((rnEnabled rn)(?x := False)) x \<and> x \<notin> (!) names ` set ks" for x
    using ih by blast+
  have c: "rnConnections rn' ?x = Some (int k)" using upd(2) [of ?x] nk by simp
  have d: "distinct (map ((!) names) ks)" using ih by blast
  have at: "(rnEnds rn' x \<noteq> None \<longleftrightarrow> rnEnds rn x \<noteq> None \<or> x \<in> (!) names ` set (k # ks)) \<and>
    (x \<notin> (!) names ` set (k # ks) \<longrightarrow> rnConnections rn' x = rnConnections rn x) \<and>
    (rnEnabled rn' x \<longleftrightarrow> rnEnabled rn x \<and> x \<notin> (!) names ` set (k # ks))" for x
    using upd [of x] by (cases "x = ?x") simp_all
  show ?case using new c none(2) diff nk d at by (intro conjI allI) simp_all
qed

lemma wired_new_ends:
  assumes "wired p conn" and "i < cfN p" and "\<not> conn ! i" and "length l = cfN p" and "make_ends l (map int [0..<cfN p]) (cfNet p) = Inr rn"
  shows "wired (p\<lparr>cfEndnames := (cfEndnames p)[i := Some l], cfNet := rn\<rparr>) conn" (is "wired ?q conn")
proof -
  have w: "named_inv p" "length conn = cfN p" "\<forall>j < cfN p. conn ! j \<longrightarrow> cfEndnames p ! j \<noteq> None"
    "\<forall>x. enabled p x \<longleftrightarrow> (\<exists>i j. named p i j x \<and> conn ! i \<and> conn ! j)"
    using assms(1) by (simp_all add: wired_def)
  have len: "length (cfEndnames p) = cfN p" using w(1) by (simp add: named_inv_def)
  have im: "(!) l ` set [0..<cfN p] = set l" using map_nth [of l] assms(4) by (metis set_map)
  have mk: "\<forall>k < cfN p. rnEnds (cfNet p) (l ! k) = None \<and> rnConnections rn (l ! k) = Some (int k)" "distinct l"
    "\<forall>x. rnEnds rn x \<noteq> None \<longleftrightarrow> rnEnds (cfNet p) x \<noteq> None \<or> x \<in> set l" "\<forall>x. x \<notin> set l \<longrightarrow> rnConnections rn x = rnConnections (cfNet p) x"
    "\<forall>x. rnEnabled rn x \<longleftrightarrow> enabled p x \<and> x \<notin> set l"
    using make_ends_names [OF assms(5)] assms(4) map_nth [of l] unfolding im by simp_all
  have nm: "named ?q k j x \<longleftrightarrow> (if k = i then j < cfN p \<and> l ! j = x else named p k j x)" for k j x
    using assms(2) len by (auto simp: named_def)
  have old: "rnEnds (cfNet p) x \<noteq> None \<and> rnConnections (cfNet p) x = Some (int j)" if "named p k j x" for k j x
    using w(1) that unfolding named_inv_def by blast
  have fresh: "x \<notin> set l" if "named p k j x" for k j x
    using old [OF that] mk(1) assms(4) by (auto simp: in_set_conv_nth)
  have uniq: "k = k' \<and> j = j'" if "named ?q k j x" "named ?q k' j' x" for k j k' j' x
  proof -
    have o: "k = k' \<and> j = j'" if "named p k j x" "named p k' j' x" using w(1) that unfolding named_inv_def by blast
    show ?thesis using that o fresh [of k j x] fresh [of k' j' x] assms(4) nth_eq_iff_index_eq [OF mk(2), of j j'] nth_mem [of j l] nth_mem [of j' l]
      unfolding nm by (cases "k = i"; cases "k' = i") auto
  qed
  have ends: "rnEnds rn x \<noteq> None \<and> rnConnections rn x = Some (int j)" if "named ?q k j x" for k j x
    using that old [of k j x] fresh [of k j x] mk(1,3,4) assms(4) nth_mem [of j l] unfolding nm by (cases "k = i") auto
  have lens: "length l' = cfN p" if "Some l' \<in> set ((cfEndnames p)[i := Some l])" for l'
    using that w(1) assms(4) set_update_subset_insert [of "cfEndnames p" i "Some l"] unfolding named_inv_def by auto
  have qs: "cfN ?q = cfN p" "cfEndnames ?q = (cfEndnames p)[i := Some l]" "cfNet ?q = rn" by simp_all
  have inv: "named_inv ?q" unfolding named_inv_def qs using len lens uniq ends by (metis (no_types, lifting) length_list_update)
  have en: "enabled ?q x \<longleftrightarrow> (\<exists>k j. named ?q k j x \<and> conn ! k \<and> conn ! j)" for x
  proof -
    have "enabled ?q x \<longleftrightarrow> enabled p x" using mk(5) w(4) fresh [of _ _ x] by auto
    also have "\<dots> \<longleftrightarrow> (\<exists>k j. named ?q k j x \<and> conn ! k \<and> conn ! j)" unfolding nm using w(4) assms(3) by metis
    finally show ?thesis .
  qed
  have "\<forall>j < cfN p. conn ! j \<longrightarrow> (cfEndnames p)[i := Some l] ! j \<noteq> None" using w(3) assms(2,3) len by (auto simp: nth_list_update)
  then show ?thesis unfolding wired_def using inv en w(2) by simp
qed

definition keeps_net :: "('c, 'b) rconfig \<Rightarrow> ('c, 'b) rconfig \<Rightarrow> bool" where
  "keeps_net cfg cfg' \<longleftrightarrow> rcPart cfg' = rcPart cfg \<and> rcConnected cfg' = rcConnected cfg \<and> length (rcRafts cfg') = length (rcRafts cfg) \<and>
     length (rcSaved cfg') = length (rcSaved cfg) \<and> length (rcLogs cfg') = length (rcLogs cfg) \<and> length (rcLastApplied cfg') = length (rcLastApplied cfg)"

lemma keeps_net_refl [simp]: "keeps_net cfg cfg"
  by (simp add: keeps_net_def)

lemma keeps_net_trans: "keeps_net a b \<Longrightarrow> keeps_net b c \<Longrightarrow> keeps_net a c"
  by (simp add: keeps_net_def)

lemma keeps_net_inv: "keeps_net cfg cfg' \<Longrightarrow> harness_inv cfg' = harness_inv cfg"
  by (simp add: keeps_net_def harness_inv_def lengths_ok_def)

lemma checkLogs_net: "checkLogs i m cfg = Inr (b, cfg') \<Longrightarrow> keeps_net cfg cfg'"
  by (auto simp: checkLogs_def ebind_eq_Inr upd_go_eq_Inr keeps_net_def Let_def split: if_splits)

lemma harness_applier_net: "harness_applier i m cfg = Inr cfg' \<Longrightarrow> keeps_net cfg cfg'"
  by (auto simp: harness_applier_def ebind_eq_Inr split: if_splits dest: checkLogs_net)

lemma ingestSnap_net: "ingestSnap decode i s k cfg = Inr (b, cfg') \<Longrightarrow> keeps_net cfg cfg'"
  by (auto simp: ingestSnap_def ebind_eq_Inr upd_go_eq_Inr keeps_net_def split: option.splits if_splits)

lemma keeps_net_applied: "keeps_net cfg cfg1 \<Longrightarrow> upd_go (rcLastApplied cfg1) i v = Inr la \<Longrightarrow> keeps_net cfg (cfg1\<lparr>rcLastApplied := la\<rparr>)"
  by (auto simp: upd_go_eq_Inr keeps_net_def)

lemma keeps_net_saved: "keeps_net (cfg\<lparr>rcSaved := saved\<rparr>) cfg1 \<Longrightarrow> upd_go (rcSaved cfg) i p = Inr saved \<Longrightarrow> keeps_net cfg cfg1"
  by (auto simp: upd_go_eq_Inr keeps_net_def)

lemma applierSnap_net:
  assumes "applierSnap encode decode i m (rf, cfg) = Inr (rf', cfg')"
  shows "keeps_net cfg cfg'"
  using assms unfolding applierSnap_def Let_def
  by (auto simp: ebind_eq_Inr split: if_splits dest: ingestSnap_net checkLogs_net intro: keeps_net_applied)

lemma start_saved_net:
  assumes "start_saved decode i cfg = Inr (ps, cfg')"
  shows "keeps_net cfg cfg'"
  using assms unfolding start_saved_def Let_def
  by (auto simp: ebind_eq_Inr split: option.splits if_splits dest!: ingestSnap_net elim: keeps_net_saved intro: keeps_net_saved [OF keeps_net_refl])

lemma start1_inv:
  assumes "harness_inv cfg" and "i < cfN (rcPart cfg)" and "start1 decode svc (int i) names now cfg = Inr cfg'"
  shows "harness_inv cfg' \<and> rcConnected cfg' = (rcConnected cfg)[i := False] \<and> cfN (rcPart cfg') = cfN (rcPart cfg) \<and>
    cfEndnames (rcPart cfg') = (cfEndnames (rcPart cfg))[i := Some (map names [0..<cfN (rcPart cfg)])]"
proof -
  let ?l = "map names [0..<cfN (rcPart cfg)]"
  obtain cfg1 where c1: "crash1 (int i) cfg = Inr cfg1" "harness_inv cfg1" "rcConnected cfg1 = (rcConnected cfg)[i := False]"
    "cfN (rcPart cfg1) = cfN (rcPart cfg)" "cfEndnames (rcPart cfg1) = cfEndnames (rcPart cfg)"
    using crash1_inv [OF assms(1,2)] by blast
  have w: "wired (rcPart cfg1) (rcConnected cfg1)" "lengths_ok cfg1" using c1(2) by (simp_all add: harness_inv_def)
  then have len: "length (cfEndnames (rcPart cfg1)) = cfN (rcPart cfg)" "length (rcConnected cfg1) = cfN (rcPart cfg)"
    using c1(4) by (simp_all add: wired_def named_inv_def)
  obtain rn la ps cfg3 rf where s: "make_ends ?l (map int [0..<cfN (rcPart cfg)]) (cfNet (rcPart cfg1)) = Inr rn"
    "upd_go (rcLastApplied cfg1) (int i) 0 = Inr la"
    "start_saved decode (int i) (cfg1\<lparr>rcPart := (rcPart cfg1)\<lparr>cfEndnames := (cfEndnames (rcPart cfg1))[i := Some ?l], cfNet := rn\<rparr>, rcLastApplied := la\<rparr>) = Inr (ps, cfg3)"
    "cfg' = on_net (AddServer (int i) (length (rcServers cfg3))) (cfg3\<lparr>rcRafts := (rcRafts cfg3)[i := Some rf], rcServers := rcServers cfg3 @ [AddService svc MakeServer]\<rparr>)"
    using assms(2,3) c1 len by (auto simp: start1_def Let_def ebind_eq_Inr upd_go_eq_Inr indices_all)
  let ?p = "(rcPart cfg1)\<lparr>cfEndnames := (cfEndnames (rcPart cfg1))[i := Some ?l], cfNet := rn\<rparr>"
  let ?c2 = "cfg1\<lparr>rcPart := ?p, rcLastApplied := la\<rparr>" and ?c4 = "cfg3\<lparr>rcRafts := (rcRafts cfg3)[i := Some rf], rcServers := rcServers cfg3 @ [AddService svc MakeServer]\<rparr>"
  have "\<not> rcConnected cfg1 ! i" using c1(3) len(2) assms(2) by simp
  then have "wired ?p (rcConnected cfg1)" using wired_new_ends [OF w(1), of i ?l rn] assms(2) c1(4) s(1) by simp
  then have "harness_inv ?c2" using w(2) s(2) by (auto simp: harness_inv_def lengths_ok_def upd_go_eq_Inr)
  moreover have k: "keeps_net ?c2 cfg3" using s(3) by (rule start_saved_net)
  moreover have k4: "keeps_net cfg3 ?c4" by (simp add: keeps_net_def)
  ultimately have "harness_inv ?c4" using keeps_net_inv by blast
  then have "harness_inv cfg'" unfolding s(4) by simp
  moreover have "rcPart ?c4 = ?p" "rcConnected ?c4 = rcConnected cfg1" using k k4 by (simp_all add: keeps_net_def)
  ultimately show ?thesis unfolding s(4) using c1(3-5) by (simp add: on_net_def)
qed

section \<open>Every test keeps the ends in step with the flags\<close>

definition all_named :: "('c, 'b) rconfig \<Rightarrow> bool" where
  "all_named cfg \<longleftrightarrow> (\<forall>i < cfN (rcPart cfg). cfEndnames (rcPart cfg) ! i \<noteq> None)"

lemma empty_config_inv: "harness_inv (empty_config n)"
proof -
  have "\<not> named (rcPart (empty_config n)) i j x" for i j x by (simp add: named_def empty_config_def)
  then show ?thesis by (simp add: harness_inv_def lengths_ok_def wired_def named_inv_def) (simp add: empty_config_def MakeNetwork_def)
qed

lemma endnames_length: "harness_inv cfg \<Longrightarrow> length (cfEndnames (rcPart cfg)) = cfN (rcPart cfg) \<and> length (rcConnected cfg) = cfN (rcPart cfg)"
  by (simp add: harness_inv_def wired_def named_inv_def)

lemma start_all_inv:
  assumes "harness_inv cfg" and "\<forall>k \<in> set ks. k < cfN (rcPart cfg)" and "start_all decode svc names now (map int ks) cfg = Inr cfg'"
  shows "harness_inv cfg' \<and> cfN (rcPart cfg') = cfN (rcPart cfg) \<and>
    (\<forall>i < cfN (rcPart cfg). i \<in> set ks \<or> cfEndnames (rcPart cfg) ! i \<noteq> None \<longrightarrow> cfEndnames (rcPart cfg') ! i \<noteq> None)"
  using assms
proof (induction ks arbitrary: cfg)
  case (Cons k ks)
  obtain ls cfg1 where s: "upd_go (rcLogs cfg) (int k) Map.empty = Inr ls" "start1 decode svc (int k) (names (int k)) (now (int k)) (cfg\<lparr>rcLogs := ls\<rparr>) = Inr cfg1"
    "start_all decode svc names now (map int ks) cfg1 = Inr cfg'"
    using Cons.prems(3) by (auto simp: ebind_eq_Inr)
  have "keeps_net cfg (cfg\<lparr>rcLogs := ls\<rparr>)" using s(1) by (auto simp: upd_go_eq_Inr keeps_net_def)
  then have h: "harness_inv (cfg\<lparr>rcLogs := ls\<rparr>)" using Cons.prems(1) keeps_net_inv by blast
  have k: "k < cfN (rcPart (cfg\<lparr>rcLogs := ls\<rparr>))" using Cons.prems(2) by simp
  note s1 = start1_inv [OF h k s(2)]
  then have ih: "harness_inv cfg' \<and> cfN (rcPart cfg') = cfN (rcPart cfg1) \<and>
    (\<forall>i < cfN (rcPart cfg1). i \<in> set ks \<or> cfEndnames (rcPart cfg1) ! i \<noteq> None \<longrightarrow> cfEndnames (rcPart cfg') ! i \<noteq> None)"
    using Cons.IH [of cfg1] s(3) Cons.prems(2) by simp
  have "cfEndnames (rcPart cfg1) ! i \<noteq> None" if "i < cfN (rcPart cfg)" "i = k \<or> cfEndnames (rcPart cfg) ! i \<noteq> None" for i
    using s1 that endnames_length [OF Cons.prems(1)] by (cases "i = k") auto
  then show ?case using ih s1 by simp
qed simp

lemma connect_all_inv:
  assumes "harness_inv cfg" and "all_named cfg" and "\<forall>k \<in> set ks. k < cfN (rcPart cfg)"
  shows "\<exists>cfg'. connect_all (map int ks) cfg = Inr cfg' \<and> harness_inv cfg' \<and> all_named cfg' \<and> cfN (rcPart cfg') = cfN (rcPart cfg) \<and>
    (\<forall>i < cfN (rcPart cfg). i \<in> set ks \<or> rcConnected cfg ! i \<longrightarrow> rcConnected cfg' ! i)"
  using assms
proof (induction ks arbitrary: cfg)
  case (Cons k ks)
  have k: "k < cfN (rcPart cfg)" using Cons.prems(3) by simp
  then have "cfEndnames (rcPart cfg) ! k \<noteq> None" using Cons.prems(2) by (simp add: all_named_def)
  from raft_connect_inv [OF Cons.prems(1) k this] obtain cfg1 where c: "raft_connect (int k) cfg = Inr cfg1" "harness_inv cfg1"
    "rcConnected cfg1 = (rcConnected cfg)[k := True]" "cfN (rcPart cfg1) = cfN (rcPart cfg)" "cfEndnames (rcPart cfg1) = cfEndnames (rcPart cfg)"
    by blast
  have "all_named cfg1" using Cons.prems(2) c(4,5) by (simp add: all_named_def)
  then obtain cfg' where c': "connect_all (map int ks) cfg1 = Inr cfg'" "harness_inv cfg'" "all_named cfg'" "cfN (rcPart cfg') = cfN (rcPart cfg1)"
    "\<forall>i < cfN (rcPart cfg1). i \<in> set ks \<or> rcConnected cfg1 ! i \<longrightarrow> rcConnected cfg' ! i"
    using Cons.IH [OF c(2)] Cons.prems(3) c(4) by auto
  have "rcConnected cfg1 ! i" if "i < cfN (rcPart cfg)" "i = k \<or> rcConnected cfg ! i" for i
    using that c(3) endnames_length [OF Cons.prems(1)] by (cases "i = k") simp_all
  then show ?case using c c' by (intro exI [of _ cfg']) simp
qed simp

lemma make_config_inv:
  assumes "make_config decode svc names now n unreliable = Inr cfg"
  shows "harness_inv cfg \<and> all_named cfg \<and> cfN (rcPart cfg) = n \<and> (\<forall>i < n. rcConnected cfg ! i)"
proof -
  let ?c0 = "on_net (LongDelays True) (setunreliable unreliable (empty_config n))"
  have h: "harness_inv ?c0" using empty_config_inv by simp
  have n: "cfN (rcPart ?c0) = n" by (simp add: on_net_def setunreliable_def empty_config_def)
  obtain c1 where c1: "start_all decode svc names now (map int [0..<n]) ?c0 = Inr c1" "connect_all (indices c1) c1 = Inr cfg"
    using assms unfolding make_config_def Let_def ebind_eq_Inr indices_all n by auto
  have r: "\<forall>k \<in> set [0..<n]. k < cfN (rcPart ?c0)" unfolding n by simp
  have s: "harness_inv c1" "cfN (rcPart c1) = n" "all_named c1" using start_all_inv [OF h r c1(1), unfolded n] by (simp_all add: all_named_def)
  have "\<forall>k \<in> set [0..<n]. k < cfN (rcPart c1)" using s(2) by simp
  from connect_all_inv [OF s(1,3) this] show ?thesis using c1(2) s(2) by (auto simp: indices_all)
qed

lemma raft_connect_range: "harness_inv cfg \<Longrightarrow> raft_connect i cfg = Inr cfg' \<Longrightarrow> \<exists>k. i = int k \<and> k < cfN (rcPart cfg)"
  using endnames_length [of cfg] by (auto simp: raft_connect_def ebind_eq_Inr upd_go_eq_Inr intro!: exI [of _ "nat i"])

lemma raft_disconnect_range: "harness_inv cfg \<Longrightarrow> raft_disconnect i cfg = Inr cfg' \<Longrightarrow> \<exists>k. i = int k \<and> k < cfN (rcPart cfg)"
  using endnames_length [of cfg] by (auto simp: raft_disconnect_def ebind_eq_Inr upd_go_eq_Inr intro!: exI [of _ "nat i"])

lemma harness_run_inv:
  assumes "harness_run decode svc cfg"
  shows "harness_inv cfg \<and> all_named cfg"
  using assms
proof (induction rule: harness_run.induct)
  case (made names now n unreliable cfg)
  then show ?case using make_config_inv by blast
next
  case (connect cfg i cfg')
  then obtain k where "i = int k" "k < cfN (rcPart cfg)" using raft_connect_range by blast
  then show ?case using raft_connect_inv [of cfg k] connect by (auto simp: all_named_def)
next
  case (disconnect cfg i cfg')
  then obtain k where "i = int k" "k < cfN (rcPart cfg)" using raft_disconnect_range by blast
  then show ?case using raft_disconnect_inv [of cfg k] disconnect by (auto simp: all_named_def)
next
  case (crash cfg i cfg')
  then obtain k where "i = int k" "k < cfN (rcPart cfg)" using raft_disconnect_range [of cfg i] by (auto simp: crash1_def ebind_eq_Inr)
  then show ?case using crash1_inv [of cfg k] crash by (auto simp: all_named_def)
next
  case (start cfg i ns now' cfg')
  then obtain k where k: "i = int k" "k < cfN (rcPart cfg)" using raft_disconnect_range [of cfg i] by (auto simp: start1_def crash1_def ebind_eq_Inr)
  then show ?case using start1_inv [of cfg k] start endnames_length [of cfg] by (auto simp: all_named_def nth_list_update)
next
  case (unreliable cfg b)
  then show ?case by (simp add: all_named_def) (simp add: setunreliable_def on_net_def)
next
  case (reordering cfg b)
  then show ?case by (simp add: all_named_def) (simp add: setlongreordering_def on_net_def)
next
  case (applied cfg i m cfg')
  then have "keeps_net cfg cfg'" by (intro harness_applier_net)
  then show ?case using applied keeps_net_inv [of cfg cfg'] by (simp add: all_named_def keeps_net_def)
next
  case (applied_snap cfg encode i m rf rf' cfg')
  then have "keeps_net cfg cfg'" by (intro applierSnap_net)
  then show ?case using applied_snap keeps_net_inv [of cfg cfg'] by (simp add: all_named_def keeps_net_def)
next
  case (peer cfg i rf0 rf)
  then show ?case by (simp add: all_named_def harness_inv_def lengths_ok_def)
qed

text \<open>
  C20: What a test does to the connections. In every configuration that a test can reach by making it and then connecting, disconnecting, crashing
  and restarting peers in any order, an end is enabled exactly if it is a current end between two peers that are both
  marked connected, so no end of a crashed instance carries a request; every current end leads to the peer it was made for; and
  connecting, disconnecting and crashing any peer return and set the mark of that peer only.
\<close>

theorem harness_connectivity:
  assumes "harness_run decode svc cfg"
  shows "(enabled (rcPart cfg) x \<longleftrightarrow> (\<exists>i j. named (rcPart cfg) i j x \<and> rcConnected cfg ! i \<and> rcConnected cfg ! j)) \<and>
    (named (rcPart cfg) i j x \<longrightarrow> rnConnections (cfNet (rcPart cfg)) x = Some (int j)) \<and>
    (k < cfN (rcPart cfg) \<longrightarrow> (\<exists>c. raft_connect (int k) cfg = Inr c \<and> rcConnected c = (rcConnected cfg)[k := True]) \<and>
      (\<exists>c. raft_disconnect (int k) cfg = Inr c \<and> rcConnected c = (rcConnected cfg)[k := False]) \<and>
      (\<exists>c. crash1 (int k) cfg = Inr c \<and> rcConnected c = (rcConnected cfg)[k := False]))"
proof -
  have h: "harness_inv cfg" and a: "all_named cfg" using harness_run_inv [OF assms] by blast+
  have w: "wired (rcPart cfg) (rcConnected cfg)" using h by (simp add: harness_inv_def)
  have "enabled (rcPart cfg) x \<longleftrightarrow> (\<exists>i j. named (rcPart cfg) i j x \<and> rcConnected cfg ! i \<and> rcConnected cfg ! j)" using w unfolding wired_def by blast
  moreover have "rnConnections (cfNet (rcPart cfg)) x = Some (int j)" if "named (rcPart cfg) i j x" using w that unfolding wired_def named_inv_def by blast
  moreover have "cfEndnames (rcPart cfg) ! k \<noteq> None" if "k < cfN (rcPart cfg)" using a that by (simp add: all_named_def)
  ultimately show ?thesis using raft_connect_inv [OF h, of k] raft_disconnect_inv [OF h, of k] crash1_inv [OF h, of k] by blast
qed

text \<open>Two peers, of which the second is disconnected.\<close>

abbreviation duo_names :: "int \<Rightarrow> nat \<Rightarrow> string" where
  "duo_names i j \<equiv> replicate (nat i) CHR ''a'' @ CHR ''-'' # replicate j CHR ''b''"

definition duo :: "(nat, nat) rconfig res" where
  "duo = make_config (\<lambda>_. None) (MakeService ''Raft'' []) duo_names (\<lambda>_. 0) 2 False"

lemma duo_made: "(case duo of Inl _ \<Rightarrow> False | Inr c \<Rightarrow> cfEndnames (rcPart c) ! 1 = Some [''a-'', ''a-b''])"
  by code_simp

theorem harness_connectivity_witness:
  "\<exists>c :: (nat, nat) rconfig. harness_run (\<lambda>_. None) (MakeService ''Raft'' []) c \<and> enabled (rcPart c) ''a-'' \<and> rnConnections (cfNet (rcPart c)) ''a-'' = Some 0"
proof -
  obtain c where c: "duo = Inr c" "cfEndnames (rcPart c) ! 1 = Some [''a-'', ''a-b'']" using duo_made by (auto split: sum.splits)
  have m: "make_config (\<lambda>_. None) (MakeService ''Raft'' []) duo_names (\<lambda>_. 0) 2 False = Inr c" using c(1) by (simp only: duo_def)
  have r: "harness_run (\<lambda>_. None) (MakeService ''Raft'' []) c" using m by (rule harness_run.made)
  have f: "cfN (rcPart c) = 2" "rcConnected c ! 0" "rcConnected c ! 1" using make_config_inv [OF m] by simp_all
  have n: "named (rcPart c) 1 0 ''a-''" using c(2) f(1) by (simp add: named_def)
  show ?thesis using harness_connectivity [OF r, of "''a-''" 1 0 0] r n f by auto
qed

section \<open>Which deliveries the harness accepts\<close>

text \<open>The appliers of all peers, in the order in which they get the messages.\<close>

fun deliver :: "(int \<times> ('c, 'b) ApplyMsg) list \<Rightarrow> ('c, 'b) rconfig \<Rightarrow> ('c, 'b) rconfig res" where
  "deliver [] cfg = Inr cfg"
| "deliver ((i, m) # ds) cfg = ebind (harness_applier i m cfg) (deliver ds)"

definition said :: "(int \<times> ('c, 'b) ApplyMsg) list \<Rightarrow> int \<Rightarrow> int \<Rightarrow> 'c option \<Rightarrow> bool" where
  "said ds i k v \<longleftrightarrow> (\<exists>m. (i, m) \<in> set ds \<and> amCommandValid m \<and> amCommandIndex m = k \<and> amCommand m = v)"

text \<open>
  A command is in order after what was delivered: nobody got another command at its index, and its peer got the index before it.
\<close>

definition in_order :: "nat \<Rightarrow> (int \<times> ('c, 'b) ApplyMsg) list \<Rightarrow> int \<times> ('c, 'b) ApplyMsg \<Rightarrow> bool" where
  "in_order n ds = (\<lambda>(i, m). amCommandValid m \<longrightarrow> 0 \<le> i \<and> i < int n \<and> (\<forall>j v. said ds j (amCommandIndex m) v \<longrightarrow> v = amCommand m) \<and>
     (amCommandIndex m > 1 \<longrightarrow> (\<exists>v. said ds i (amCommandIndex m - 1) v)))"

definition acceptable :: "nat \<Rightarrow> (int \<times> ('c, 'b) ApplyMsg) list \<Rightarrow> bool" where
  "acceptable n ds \<longleftrightarrow> (\<forall>k < length ds. in_order n (take k ds) (ds ! k))"

lemma acceptable_snoc: "acceptable n (ds @ [x]) \<longleftrightarrow> acceptable n ds \<and> in_order n ds x"
  by (auto simp: acceptable_def nth_append less_Suc_eq)

lemma deliver_snoc: "deliver (ds @ [(i, m)]) cfg = ebind (deliver ds cfg) (harness_applier i m)"
proof (induction ds arbitrary: cfg)
  case Nil
  show ?case by (cases "harness_applier i m cfg") simp_all
next
  case (Cons d ds)
  then show ?case by (cases d; cases "harness_applier (fst d) (snd d) cfg") simp_all
qed

lemma said_snoc: "said (ds @ [(i, m)]) j k v \<longleftrightarrow> said ds j k v \<or> j = i \<and> amCommandValid m \<and> amCommandIndex m = k \<and> amCommand m = v"
  by (auto simp: said_def)

lemma said_Cons [simp]: "said ((i, m) # ds) j k v \<longleftrightarrow> j = i \<and> amCommandValid m \<and> amCommandIndex m = k \<and> amCommand m = v \<or> said ds j k v" "\<not> said [] j k v"
  by (auto simp: said_def)

lemma logs_agree_iff: "logs_agree k v ls \<longleftrightarrow> (\<forall>l \<in> set ls. \<forall>old. l k = Some old \<longrightarrow> old = v)"
  by (induction ls) (auto split: option.splits)

text \<open>The maps of the harness hold what was delivered.\<close>

definition logs_hold :: "nat \<Rightarrow> (int \<times> ('c, 'b) ApplyMsg) list \<Rightarrow> ('c, 'b) rconfig \<Rightarrow> bool" where
  "logs_hold n ds cfg \<longleftrightarrow> length (rcLogs cfg) = n \<and> (\<forall>i < n. \<forall>k v. (rcLogs cfg ! i) k = Some v \<longleftrightarrow> said ds (int i) k v) \<and>
     (\<forall>j k v. said ds j k v \<longrightarrow> 0 \<le> j \<and> j < int n)"

lemma logs_hold_agree:
  assumes "logs_hold n ds cfg"
  shows "logs_agree k v (rcLogs cfg) \<longleftrightarrow> (\<forall>j w. said ds j k w \<longrightarrow> w = v)"
proof
  assume a: "logs_agree k v (rcLogs cfg)"
  show "\<forall>j w. said ds j k w \<longrightarrow> w = v"
  proof (intro allI impI)
    fix j w assume s: "said ds j k w"
    then have "0 \<le> j \<and> j < int n" using assms unfolding logs_hold_def by blast
    then have j: "0 \<le> j" "nat j < n" by auto
    then have "(rcLogs cfg ! nat j) k = Some w" using s assms by (simp add: logs_hold_def)
    moreover have "rcLogs cfg ! nat j \<in> set (rcLogs cfg)" using j assms by (simp add: logs_hold_def)
    ultimately show "w = v" using a unfolding logs_agree_iff by blast
  qed
next
  assume "\<forall>j w. said ds j k w \<longrightarrow> w = v"
  then show "logs_agree k v (rcLogs cfg)" using assms by (auto simp: logs_agree_iff logs_hold_def in_set_conv_nth)
qed

lemma applier_step:
  assumes "logs_hold n ds cfg"
  shows "(\<exists>cfg'. harness_applier i m cfg = Inr cfg') \<longleftrightarrow> in_order n ds (i, m)"
    and "harness_applier i m cfg = Inr cfg' \<Longrightarrow> logs_hold n (ds @ [(i, m)]) cfg'"
proof -
  let ?k = "amCommandIndex m" and ?l = "rcLogs cfg ! nat i"
  have len: "length (rcLogs cfg) = n" using assms by (simp add: logs_hold_def)
  have prev: "?l (?k - 1) = None \<longleftrightarrow> (\<nexists>v. said ds i (?k - 1) v)" if "0 \<le> i" "i < int n"
  proof -
    have "(?l (?k - 1) = Some v) = said ds i (?k - 1) v" for v using assms that by (simp add: logs_hold_def nat_less_iff)
    then show ?thesis by (cases "?l (?k - 1)") auto
  qed
  show "(\<exists>cfg'. harness_applier i m cfg = Inr cfg') \<longleftrightarrow> in_order n ds (i, m)"
    using prev len logs_hold_agree [OF assms, of ?k "amCommand m"]
    by (auto simp: harness_applier_def checkLogs_def in_order_def ebind_eq_Inr nth_go_def upd_go_def Let_def split: if_splits)
  assume r: "harness_applier i m cfg = Inr cfg'"
  show "logs_hold n (ds @ [(i, m)]) cfg'"
  proof (cases "amCommandValid m")
    case True
    then have c: "logs_agree ?k (amCommand m) (rcLogs cfg)" "0 \<le> i" "i < int n" "rcLogs cfg' = (rcLogs cfg)[nat i := ?l(?k \<mapsto> amCommand m)]"
      using r len by (auto simp: harness_applier_def checkLogs_def ebind_eq_Inr nth_go_eq_Inr upd_go_eq_Inr Let_def split: if_splits)
    have same: "w = amCommand m" if "said ds j ?k w" for j w using c(1) that logs_hold_agree [OF assms] by blast
    have "((rcLogs cfg)[nat i := ?l(?k \<mapsto> amCommand m)] ! a) k = Some v \<longleftrightarrow> said (ds @ [(i, m)]) (int a) k v" if "a < n" for a k v
    proof (cases "a = nat i")
      case t: True
      have "(?l k = Some v) = said ds i k v" using assms c(2,3) by (simp add: logs_hold_def nat_less_iff)
      then show ?thesis using t that len c(2) True same [of i v] by (auto simp: said_snoc)
    next
      case False
      have "((rcLogs cfg ! a) k = Some v) = said ds (int a) k v" using assms that by (simp add: logs_hold_def)
      then show ?thesis using False c(2) by (auto simp: said_snoc)
    qed
    then show ?thesis using assms c by (auto simp: logs_hold_def said_snoc)
  next
    case False
    then have "cfg' = cfg" using r by (simp add: harness_applier_def)
    then show ?thesis using assms False by (simp add: logs_hold_def said_snoc)
  qed
qed

lemma deliver_accepts:
  assumes "rcLogs cfg = replicate n Map.empty"
  shows "((\<exists>cfg'. deliver ds cfg = Inr cfg') \<longleftrightarrow> acceptable n ds) \<and> (\<forall>cfg'. deliver ds cfg = Inr cfg' \<longrightarrow> logs_hold n ds cfg')"
proof (induction ds rule: rev_induct)
  case Nil
  then show ?case using assms by (simp add: acceptable_def logs_hold_def said_def)
next
  case (snoc d ds)
  obtain i m where d: "d = (i, m)" by (cases d)
  show ?case
  proof (cases "deliver ds cfg")
    case (Inl e)
    then show ?thesis using snoc by (simp add: d deliver_snoc acceptable_snoc)
  next
    case (Inr c)
    then show ?thesis using snoc applier_step [of n ds c i m] by (simp add: d deliver_snoc acceptable_snoc)
  qed
qed

text \<open>How many peers got an index, and the command they got.\<close>

lemma committed_loop_count:
  assumes "\<forall>l \<in> set ls. \<forall>v. l k = Some v \<longrightarrow> v = w" and "0 \<le> c" and "0 < c \<longrightarrow> cmd = w"
  shows "\<exists>cmd'. committed_loop k ls (c, cmd) = Inr (c + int (length (filter (\<lambda>l. l k \<noteq> None) ls)), cmd') \<and>
    ((0 < c \<or> (\<exists>l \<in> set ls. l k \<noteq> None)) \<longrightarrow> cmd' = w)"
  using assms
proof (induction ls arbitrary: c cmd)
  case (Cons l ls)
  show ?case
  proof (cases "l k")
    case None
    then show ?thesis using Cons.IH [of c cmd] Cons.prems by simp
  next
    case (Some v)
    then have "v = w" using Cons.prems(1) by simp
    then show ?thesis using Cons.IH [of "c + 1" w] Cons.prems Some by (auto simp: algebra_simps)
  qed
qed simp

lemma logs_hold_count:
  assumes "logs_hold n ds cfg"
  shows "length (filter (\<lambda>l. l k \<noteq> None) (rcLogs cfg)) = card {i. \<exists>v. said ds i k v}"
proof -
  let ?A = "{i. i < length (rcLogs cfg) \<and> (rcLogs cfg ! i) k \<noteq> None}"
  have r: "0 \<le> j \<and> j < int n" if "said ds j k v" for j v using assms that unfolding logs_hold_def by blast
  have h: "(rcLogs cfg ! i) k \<noteq> None \<longleftrightarrow> (\<exists>v. said ds (int i) k v)" if "i < n" for i using assms that by (auto simp: logs_hold_def)
  have len: "length (rcLogs cfg) = n" using assms by (simp add: logs_hold_def)
  have "{i. \<exists>v. said ds i k v} = int ` ?A"
  proof (intro equalityI subsetI)
    fix j assume "j \<in> {i. \<exists>v. said ds i k v}"
    then obtain v where v: "said ds j k v" by blast
    then have "nat j \<in> ?A" "j = int (nat j)" using r [OF v] h [of "nat j"] len by auto
    then show "j \<in> int ` ?A" by blast
  qed (use h len in auto)
  then have "card {i. \<exists>v. said ds i k v} = card ?A" by (simp add: card_image)
  then show ?thesis by (simp add: length_filter_conv_card)
qed

text \<open>
  C19: What the harness checks of the apply channels. Starting with empty logs, the appliers accept a sequence of messages to the
  peers exactly if every command goes to one of the peers, differs from no command that any peer got at the same index before, and
  (unless its index is at most 1) comes after the command at the index before it at the same peer; otherwise the test
  panics or ends. After an accepted sequence \<^verbatim>\<open>nCommitted\<close> returns for every index the number of peers that got a command there, and that
  command.
\<close>

theorem applier_check_decides:
  assumes "rcLogs cfg = replicate n Map.empty"
  shows "((\<exists>cfg'. deliver ds cfg = Inr cfg') \<longleftrightarrow> acceptable n ds) \<and>
    (deliver ds cfg = Inr cfg' \<longrightarrow> (\<exists>cmd. nCommitted k cfg' = Inr (int (card {i. \<exists>v. said ds i k v}), cmd) \<and> (\<forall>i v. said ds i k v \<longrightarrow> v = cmd)))"
proof (intro conjI impI)
  show "(\<exists>cfg'. deliver ds cfg = Inr cfg') \<longleftrightarrow> acceptable n ds" using deliver_accepts [OF assms] by blast
  assume r: "deliver ds cfg = Inr cfg'"
  then have h: "logs_hold n ds cfg'" and a: "acceptable n ds" using deliver_accepts [OF assms] by blast+
  have same: "v = v'" if "said ds i k v" "said ds j k v'" for i j v v'
    using a that
  proof (induction ds rule: rev_induct)
    case (snoc d ds)
    obtain a m where d: "d = (a, m)" by (cases d)
    show ?case using snoc unfolding d acceptable_snoc said_snoc in_order_def by auto
  qed (simp add: said_def)
  obtain w where w: "\<And>i v. said ds i k v \<Longrightarrow> v = w" using same by blast
  have "\<forall>l \<in> set (rcLogs cfg'). \<forall>v. l k = Some v \<longrightarrow> v = w"
    using h w by (auto simp: logs_hold_def in_set_conv_nth)
  from committed_loop_count [OF this, of 0 None, unfolded logs_hold_count [OF h]] obtain cmd where cmd:
    "nCommitted k cfg' = Inr (int (card {i. \<exists>v. said ds i k v}), cmd)" "(\<exists>l \<in> set (rcLogs cfg'). l k \<noteq> None) \<longrightarrow> cmd = w"
    unfolding nCommitted_def by (simp only: order_refl less_irrefl simp_thms add_0) blast
  have "v = cmd" if s: "said ds i k v" for i v
  proof -
    have "0 \<le> i \<and> i < int n" using h s unfolding logs_hold_def by blast
    then have "rcLogs cfg' ! nat i \<in> set (rcLogs cfg')" "(rcLogs cfg' ! nat i) k = Some v" using h s by (auto simp: logs_hold_def)
    then show ?thesis using cmd(2) w [OF s] by (metis option.distinct(1))
  qed
  then show "\<exists>cmd. nCommitted k cfg' = Inr (int (card {i. \<exists>v. said ds i k v}), cmd) \<and> (\<forall>i v. said ds i k v \<longrightarrow> v = cmd)"
    using cmd(1) by blast
qed

abbreviation apply_command :: "nat \<Rightarrow> int \<Rightarrow> (nat, nat) ApplyMsg" where
  "apply_command c k \<equiv> \<lparr>amCommandValid = True, amCommand = Some c, amCommandIndex = k, amSnapshotValid = False, amSnapshot = [], amSnapshotTerm = 0, amSnapshotIndex = 0\<rparr>"

lemma acceptable_sample: "acceptable 3 [(0, apply_command 7 1), (2, apply_command 7 1), (0, apply_command 8 2)]"
  by (auto simp: acceptable_def in_order_def said_def less_Suc_eq numeral_3_eq_3)

theorem applier_check_decides_witness:
  "\<exists>cfg' :: (nat, nat) rconfig. deliver [(0, apply_command 7 1), (2, apply_command 7 1), (0, apply_command 8 2)] (empty_config 3) = Inr cfg' \<and>
     nCommitted 1 cfg' = Inr (2, Some 7) \<and> (\<nexists>c. deliver [(0, apply_command 7 1), (1, apply_command 8 1)] (empty_config 3 :: (nat, nat) rconfig) = Inr c)"
proof -
  let ?ds = "[(0, apply_command 7 1), (2, apply_command 7 1), (0, apply_command 8 2)]" and ?c = "empty_config 3 :: (nat, nat) rconfig"
  have e: "rcLogs ?c = replicate 3 Map.empty" by (simp add: empty_config_def)
  obtain cfg' where c: "deliver ?ds ?c = Inr cfg'" using applier_check_decides [OF e, of ?ds] acceptable_sample by blast
  then obtain cmd where cmd: "nCommitted 1 cfg' = Inr (int (card {i. \<exists>v. said ?ds i 1 v}), cmd)" "\<forall>i v. said ?ds i 1 v \<longrightarrow> v = cmd"
    using applier_check_decides [OF e, of ?ds cfg' 1] by blast
  have s: "said ?ds i 1 v \<longleftrightarrow> (i = 0 \<or> i = 2) \<and> v = Some 7" for i v by (simp add: said_Cons) blast
  then have "{i. \<exists>v. said ?ds i 1 v} = {0, 2}" by auto
  then have "nCommitted 1 cfg' = Inr (2, Some 7)" using cmd s by simp
  moreover have "\<not> acceptable 3 [(0, apply_command 7 1), (1, apply_command 8 1)]"
    by (auto simp: acceptable_def in_order_def said_def less_Suc_eq)
  ultimately show ?thesis using c applier_check_decides [OF e, of "[(0, apply_command 7 1), (1, apply_command 8 1)]"] by blast
qed

section \<open>The leader the harness finds\<close>

lemma add_leader_keys: "distinct (map fst ls) \<Longrightarrow> distinct (map fst (add_leader t i ls)) \<and> fst ` set (add_leader t i ls) = insert t (fst ` set ls)"
  by (induction t i ls rule: add_leader.induct) auto

lemma add_leader_at: "leaders_at (add_leader t i ls) u = (if u = t then leaders_at ls t @ [i] else leaders_at ls u)"
  by (induction t i ls rule: add_leader.induct) (auto simp: leaders_at_def)

text \<open>Peers that are connected and say they lead.\<close>

definition leads :: "bool list \<Rightarrow> (int \<Rightarrow> (int \<times> bool) option) \<Rightarrow> int \<Rightarrow> int \<Rightarrow> bool" where
  "leads conn st t i \<longleftrightarrow> 0 \<le> i \<and> conn ! nat i \<and> st i = Some (t, True)"

lemma collect_leaders_at:
  assumes "\<forall>i \<in> set is. 0 \<le> i \<and> i < int (length conn) \<and> (conn ! nat i \<longrightarrow> st i \<noteq> None)" and "distinct (map fst ls)" and "\<forall>t \<in> fst ` set ls. leaders_at ls t \<noteq> []"
  shows "\<exists>ls'. collect_leaders conn st is ls = Inr ls' \<and> distinct (map fst ls') \<and> (\<forall>t \<in> fst ` set ls'. leaders_at ls' t \<noteq> []) \<and>
    (\<forall>t. leaders_at ls' t = leaders_at ls t @ filter (leads conn st t) is)"
  using assms
proof (induction "is" arbitrary: ls)
  case (Cons i "is")
  have i: "0 \<le> i" "i < int (length conn)" using Cons.prems(1) by simp_all
  show ?case
  proof (cases "conn ! nat i")
    case False
    then show ?thesis using Cons i by (simp add: nth_go_def leads_def)
  next
    case True
    then obtain t l where s: "st i = Some (t, l)" using Cons.prems(1) by auto
    show ?thesis
    proof (cases l)
      case l: True
      have "\<forall>u \<in> fst ` set (add_leader t i ls). leaders_at (add_leader t i ls) u \<noteq> []"
        using add_leader_keys [OF Cons.prems(2)] Cons.prems(3) by (auto simp: add_leader_at)
      then obtain ls' where "collect_leaders conn st is (add_leader t i ls) = Inr ls'" "distinct (map fst ls')" "\<forall>t \<in> fst ` set ls'. leaders_at ls' t \<noteq> []"
        "\<forall>u. leaders_at ls' u = leaders_at (add_leader t i ls) u @ filter (leads conn st u) is"
        using Cons.IH [of "add_leader t i ls"] Cons.prems add_leader_keys [OF Cons.prems(2)] by auto
      moreover have "collect_leaders conn st (i # is) ls = collect_leaders conn st is (add_leader t i ls)" using True i s l by (simp add: nth_go_def)
      moreover have "leads conn st u i \<longleftrightarrow> u = t" for u using True i s l by (auto simp: leads_def)
      ultimately show ?thesis by (intro exI [of _ ls']) (simp add: add_leader_at)
    next
      case False
      then show ?thesis using Cons True i s by (simp add: nth_go_def leads_def)
    qed
  qed
qed simp

lemma last_term_max:
  assumes "\<forall>(t, is) \<in> set ls. length is \<le> 1"
  shows "\<exists>t. last_term a ls = Inr t \<and> a \<le> t \<and> (\<forall>u \<in> fst ` set ls. u \<le> t) \<and> (t = a \<or> t \<in> fst ` set ls)"
  using assms
proof (induction a ls rule: last_term.induct)
  case (2 a t "is" ls)
  then obtain u where u: "last_term (if t > a then t else a) ls = Inr u" "(if t > a then t else a) \<le> u" "\<forall>w \<in> fst ` set ls. w \<le> u"
    "u = (if t > a then t else a) \<or> u \<in> fst ` set ls" by auto
  then show ?case using 2 by (auto split: if_splits)
qed simp

text \<open>Answers of one iteration: every connected peer answers, terms are not negative, and no term has two leaders.\<close>

definition plausible :: "bool list \<Rightarrow> nat \<Rightarrow> (int \<Rightarrow> (int \<times> bool) option) \<Rightarrow> bool" where
  "plausible conn n st \<longleftrightarrow> length conn = n \<and> (\<forall>i < n. conn ! i \<longrightarrow> st (int i) \<noteq> None) \<and>
     (\<forall>t i j. i < n \<and> j < n \<and> leads conn st t (int i) \<and> leads conn st t (int j) \<longrightarrow> i = j) \<and>
     (\<forall>t i. i < n \<and> leads conn st t (int i) \<longrightarrow> 0 \<le> t)"

lemma leaders_at_nth: "distinct (map fst ls) \<Longrightarrow> (t, is) \<in> set ls \<Longrightarrow> leaders_at ls t = is"
  by (simp add: leaders_at_def)

lemma leaders_at_none: "t \<notin> fst ` set ls \<Longrightarrow> leaders_at ls t = []"
  by (auto simp: leaders_at_def map_of_eq_None_iff [symmetric])

lemma plausible_one:
  assumes "plausible conn n st"
  shows "length (filter (leads conn st t) (map int [0..<n])) \<le> 1"
proof -
  let ?f = "filter (leads conn st t) (map int [0..<n])"
  have "distinct ?f" by (intro distinct_filter) (simp only: distinct_map distinct_upt inj_on_of_nat)
  then have "length ?f = card (set ?f)" by (rule distinct_card [symmetric])
  moreover have "a = b" if ab: "a \<in> set ?f" "b \<in> set ?f" for a b
  proof -
    obtain i j where "a = int i" "i < n" "leads conn st t (int i)" "b = int j" "j < n" "leads conn st t (int j)" using ab by auto
    then show ?thesis using assms unfolding plausible_def by blast
  qed
  then have "card (set ?f) \<le> Suc 0" unfolding card_le_Suc0_iff_eq [OF finite_set] by blast
  ultimately show ?thesis by simp
qed

text \<open>One iteration finds the leader of the highest term, if there is one.\<close>

lemma one_leader_iteration:
  assumes p: "plausible conn n st"
  shows "\<exists>ls t. collect_leaders conn st (map int [0..<n]) [] = Inr ls \<and> last_term (- 1) ls = Inr t \<and>
    (ls = [] \<longrightarrow> (\<forall>u i. i < n \<longrightarrow> \<not> leads conn st u (int i))) \<and>
    (ls \<noteq> [] \<longrightarrow> (\<exists>i < n. nth_go (leaders_at ls t) 0 = Inr (int i) \<and> leads conn st t (int i) \<and> (\<forall>u j. j < n \<and> leads conn st u (int j) \<longrightarrow> u \<le> t)))"
proof -
  let ?is = "map int [0..<n]"
  have "\<forall>i \<in> set ?is. 0 \<le> i \<and> i < int (length conn) \<and> (conn ! nat i \<longrightarrow> st i \<noteq> None)" using p by (auto simp: plausible_def)
  from collect_leaders_at [OF this, of "[]"] obtain ls where ls: "collect_leaders conn st ?is [] = Inr ls" "distinct (map fst ls)"
    "\<forall>t \<in> fst ` set ls. leaders_at ls t \<noteq> []" "\<And>t. leaders_at ls t = filter (leads conn st t) ?is"
    by (auto simp: leaders_at_def)
  have "length is \<le> 1" if "(t, is) \<in> set ls" for t "is"
    using leaders_at_nth [OF ls(2) that] ls(4) [of t] plausible_one [OF p, of t] by simp
  then obtain t where t: "last_term (- 1) ls = Inr t" "\<forall>u \<in> fst ` set ls. u \<le> t" "t = - 1 \<or> t \<in> fst ` set ls"
    using last_term_max [of ls "- 1"] by auto
  have keys: "u \<in> fst ` set ls" if "i < n" "leads conn st u (int i)" for u i
  proof (rule ccontr)
    assume "u \<notin> fst ` set ls"
    then have "filter (leads conn st u) ?is = []" using ls(4) leaders_at_none by metis
    then show False using that by (auto simp: filter_empty_conv)
  qed
  have some: "\<exists>i < n. hd (leaders_at ls u) = int i \<and> leads conn st u (int i)" if "u \<in> fst ` set ls" for u
  proof -
    have "leaders_at ls u \<noteq> []" using ls(3) that by blast
    then have "hd (leaders_at ls u) \<in> set (filter (leads conn st u) ?is)" using ls(4) [of u] hd_in_set by metis
    then show ?thesis by auto
  qed
  have "\<exists>i < n. nth_go (leaders_at ls t) 0 = Inr (int i) \<and> leads conn st t (int i)" if ne: "ls \<noteq> []"
  proof -
    obtain u where u: "u \<in> fst ` set ls" using ne by (cases ls) auto
    then have "0 \<le> u" using some [OF u] p by (auto simp: plausible_def)
    then have "t \<in> fst ` set ls" using t(2,3) u by fastforce
    then show ?thesis using some [of t] ls(3) by (cases "leaders_at ls t") (auto simp: nth_go_def)
  qed
  moreover have "u \<le> t" if "j < n" "leads conn st u (int j)" for u j using keys [OF that] t(2) by blast
  moreover have "\<not> leads conn st u (int i)" if "ls = []" "i < n" for u i using keys [OF that(2), of u] that(1) by auto
  ultimately show ?thesis using ls(1) t(1) by blast
qed

lemma one_leader_loop_finds:
  assumes "\<forall>st \<in> set sts. plausible conn n st"
  shows "case one_leader_loop conn n sts of
      Inl e \<Rightarrow> e = FatalError \<and> (\<forall>st \<in> set sts. \<forall>t i. i < n \<longrightarrow> \<not> leads conn st t (int i))
    | Inr l \<Rightarrow> \<exists>st \<in> set sts. \<exists>i < n. \<exists>t. l = int i \<and> leads conn st t (int i) \<and> (\<forall>u j. j < n \<and> leads conn st u (int j) \<longrightarrow> u \<le> t)"
  using assms
proof (induction sts)
  case (Cons st sts)
  have p: "plausible conn n st" using Cons.prems by simp
  obtain ls t where i: "collect_leaders conn st (map int [0..<n]) [] = Inr ls" "last_term (- 1) ls = Inr t"
    "ls = [] \<longrightarrow> (\<forall>u i. i < n \<longrightarrow> \<not> leads conn st u (int i))"
    "ls \<noteq> [] \<longrightarrow> (\<exists>i < n. nth_go (leaders_at ls t) 0 = Inr (int i) \<and> leads conn st t (int i) \<and> (\<forall>u j. j < n \<and> leads conn st u (int j) \<longrightarrow> u \<le> t))"
    using one_leader_iteration [OF p] by blast
  show ?case
  proof (cases "ls = []")
    case True
    have "one_leader_loop conn n (st # sts) = one_leader_loop conn n sts" using i(1,2) True by simp
    then show ?thesis using Cons.IH Cons.prems i(3) True by (cases "one_leader_loop conn n sts") auto
  next
    case False
    then obtain k where k: "k < n" "nth_go (leaders_at ls t) 0 = Inr (int k)" "leads conn st t (int k)" "\<forall>u j. j < n \<and> leads conn st u (int j) \<longrightarrow> u \<le> t"
      using i(4) by blast
    have "one_leader_loop conn n (st # sts) = Inr (int k)" using i(1,2) False k(2) by simp
    then show ?thesis using k by auto
  qed
qed simp

text \<open>\<^verbatim>\<open>checkNoLeader\<close> and \<^verbatim>\<open>checkTerms\<close> decide what their comments say.\<close>

lemma check_no_leader:
  assumes "length conn = n" and "\<forall>i < n. conn ! i \<longrightarrow> st (int i) \<noteq> None"
  shows "checkNoLeader conn n st = (if \<exists>i < n. \<exists>t. leads conn st t (int i) then Inl FatalError else Inr ())"
proof -
  have "no_leader_loop conn st (map int ks) = (if \<exists>i \<in> set ks. \<exists>t. leads conn st t (int i) then Inl FatalError else Inr ())" if "\<forall>k \<in> set ks. k < n" for ks
    using that assms by (induction ks) (auto simp: nth_go_def leads_def split: option.splits)
  from this [of "[0..<n]"] show ?thesis by (simp add: checkNoLeader_def)
qed

lemma terms_loop_same:
  assumes "length conn = n" and "\<forall>k \<in> set ks. k < n \<and> (conn ! k \<longrightarrow> (\<exists>x. st (int k) = Some x \<and> 0 \<le> fst x))" and "a = - 1 \<or> 0 \<le> a"
  shows "(\<exists>r. terms_loop conn st (map int ks) a = Inr r) \<longleftrightarrow> (\<exists>t. (0 \<le> a \<longrightarrow> t = a) \<and> (\<forall>k \<in> set ks. conn ! k \<longrightarrow> fst (the (st (int k))) = t))"
  using assms
proof (induction ks arbitrary: a)
  case (Cons k ks)
  show ?case
  proof (cases "conn ! k")
    case True
    then obtain x y where x: "st (int k) = Some (x, y)" "0 \<le> x" using Cons.prems(2) by auto
    have k: "k < length conn" using Cons.prems(1,2) by simp
    show ?thesis
    proof (cases "a = - 1 \<or> a = x")
      case a: True
      have "terms_loop conn st (map int (k # ks)) a = terms_loop conn st (map int ks) x" using True x k a by (auto simp: nth_go_def)
      then show ?thesis using Cons.IH [of x] Cons.prems x True a by auto
    next
      case False
      then show ?thesis using Cons.prems True x k by (auto simp: nth_go_def)
    qed
  next
    case False
    then show ?thesis using Cons.IH [of a] Cons.prems by (simp add: nth_go_def)
  qed
qed auto

lemma check_terms:
  assumes "length conn = n" and "\<forall>k < n. conn ! k \<longrightarrow> (\<exists>x. st (int k) = Some x \<and> 0 \<le> fst x)"
  shows "(\<exists>r. checkTerms conn n st = Inr r) \<longleftrightarrow> (\<exists>t. \<forall>k < n. conn ! k \<longrightarrow> fst (the (st (int k))) = t)"
  using terms_loop_same [OF assms(1), of "[0..<n]" st "- 1"] assms(2) by (auto simp: checkTerms_def)

text \<open>A snapshot that \<^verbatim>\<open>applierSnap\<close> takes gives a peer that ingests it the log up to that index.\<close>

lemma ingest_restores:
  assumes "decode (encode k (map (log_at l) [0..k])) = Some (k, map (log_at l) [0..k])" and "0 \<le> k" and "i < length (rcLogs cfg)" and "i < length (rcLastApplied cfg)"
  shows "\<exists>cfg'. ingestSnap decode (int i) (encode k (map (log_at l) [0..k])) k cfg = Inr (False, cfg') \<and> rcLastApplied cfg' ! i = k \<and>
    (\<forall>j. (rcLogs cfg' ! i) j = (if 0 \<le> j \<and> j \<le> k then Some (log_at l j) else None))"
proof -
  let ?x = "map (log_at l) [0..k]"
  have len: "length ?x = nat (k + 1)" by simp
  have z: "zip (map int [0..<length ?x]) ?x = map (\<lambda>j. (int j, log_at l (int j))) [0..<nat (k + 1)]"
    by (rule nth_equalityI) simp_all
  have "map_of (map (\<lambda>j. (int j, log_at l (int j))) [0..<b]) j = (if 0 \<le> j \<and> j < int b then Some (log_at l j) else None)" for b j
    by (induction b) (auto simp: map_add_def split: option.splits)
  from this [of "nat (k + 1)"] have "map_of (zip (map int [0..<length ?x]) ?x) j = (if 0 \<le> j \<and> j \<le> k then Some (log_at l j) else None)" for j
    unfolding z using assms(2) by simp
  then show ?thesis using assms by (simp add: ingestSnap_def upd_go_def del: length_map)
qed

text \<open>
  A run of the cluster while the harness looks: between one question and the next the peers make any number of steps. In iteration
  \<^verbatim>\<open>k\<close> peer \<^verbatim>\<open>i\<close> is asked at state \<^verbatim>\<open>k * n + i\<close>.
\<close>

definition observed :: "(nat \<Rightarrow> ('c, 'b) cluster) \<Rightarrow> bool" where
  "observed s \<longleftrightarrow> cluster_reachable (s 0) \<and> (\<forall>t. cluster_step\<^sup>*\<^sup>* (s t) (s (Suc t)))"

definition state_answers :: "(nat \<Rightarrow> ('c, 'b) cluster) \<Rightarrow> nat \<Rightarrow> nat \<Rightarrow> int \<Rightarrow> (int \<times> bool) option" where
  "state_answers s n k i = Some (GetState (node (s (k * n + nat i)) (nat i)))"

lemma steps_grow: "cluster_step\<^sup>*\<^sup>* s t \<Longrightarrow> cluster_reachable s \<Longrightarrow> cluster_reachable t \<and> won s \<subseteq> won t \<and> size_c t = size_c s"
proof (induction rule: rtranclp_induct)
  case (step t u)
  then have t: "cluster_reachable t" "won s \<subseteq> won t" "size_c t = size_c s" by simp_all
  have "cluster_reachable u" using t(1) step(2) by (rule cluster_reachable.step)
  then show ?case using won_grows [OF step(2)] t(2,3) by auto
qed simp

lemma observed_grow:
  assumes "observed s"
  shows "cluster_reachable (s (a + b)) \<and> won (s a) \<subseteq> won (s (a + b)) \<and> size_c (s (a + b)) = size_c (s 0)"
proof -
  have r: "cluster_reachable (s t) \<and> size_c (s t) = size_c (s 0)" for t
  proof (induction t)
    case (Suc t)
    then show ?case using assms steps_grow [of "s t" "s (Suc t)"] by (simp add: observed_def)
  qed (use assms in \<open>simp add: observed_def\<close>)
  have "won (s a) \<subseteq> won (s (a + b))"
  proof (induction b)
    case (Suc b)
    then show ?case using assms r [of "a + b"] steps_grow [of "s (a + b)" "s (Suc (a + b))"] by (auto simp: observed_def)
  qed simp
  then show ?thesis using r by blast
qed

lemma state_answers_leads: "leads conn (state_answers s n k) t (int i) \<longleftrightarrow> conn ! i \<and> role (node (s (k * n + i)) i) = LEADER \<and> t = currentTerm (node (s (k * n + i)) i)"
  by (auto simp: leads_def state_answers_def GetState_def)

lemma state_answers_plausible:
  assumes "observed s" and "size_c (s 0) = n" and "length conn = n"
  shows "plausible conn n (state_answers s n k)"
proof -
  have won: "(i, t) \<in> won (s (k * n + n)) \<and> 0 \<le> t" if "i < n" "leads conn (state_answers s n k) t (int i)" for t i
  proof -
    let ?a = "k * n + i"
    have g: "cluster_reachable (s ?a)" "size_c (s ?a) = n" using observed_grow [OF assms(1), of ?a 0] assms(2) by simp_all
    have "(i, t) \<in> won (s ?a) \<and> 0 \<le> t" using leader_won [OF reachable_inv [OF g(1)], of i] g(2) that by (simp add: state_answers_leads)
    moreover have "?a + (n - i) = k * n + n" using that(1) by simp
    then have "won (s ?a) \<subseteq> won (s (k * n + n))" using observed_grow [OF assms(1), of ?a "n - i"] by simp
    ultimately show ?thesis by blast
  qed
  have inv: "cluster_inv (s (k * n + n))" using observed_grow [OF assms(1), of "k * n + n" 0] by (intro reachable_inv) simp
  have "i = j" if "i < n" "leads conn (state_answers s n k) t (int i)" "j < n" "leads conn (state_answers s n k) t (int j)" for t i j
    using won_unique [OF inv] won [OF that(1,2)] won [OF that(3,4)] by blast
  then show ?thesis using won assms(3) unfolding plausible_def by (auto simp: state_answers_def)
qed

text \<open>
  C10: The harness sees one leader. While a cluster of this implementation runs, with crashes, lost messages and restarts between any two questions,
  \<^verbatim>\<open>checkOneLeader\<close> never reports two leaders of one term and never runs into an index out of range: it ends the test only if in none of its ten
  iterations a connected peer said that it leads, and otherwise returns a connected peer that was the leader when it was asked, with the highest term
  among the leaders of that iteration.
\<close>

theorem check_one_leader:
  assumes "observed s" and "size_c (s 0) = n" and "length conn = n"
  shows "case checkOneLeader conn n (state_answers s n) of
      Inl e \<Rightarrow> e = FatalError \<and> (\<forall>k < 10. \<forall>i < n. conn ! i \<longrightarrow> role (node (s (k * n + i)) i) \<noteq> LEADER)
    | Inr l \<Rightarrow> \<exists>k < 10. \<exists>i < n. l = int i \<and> conn ! i \<and> role (node (s (k * n + i)) i) = LEADER \<and>
        (\<forall>j < n. conn ! j \<and> role (node (s (k * n + j)) j) = LEADER \<longrightarrow> currentTerm (node (s (k * n + j)) j) \<le> currentTerm (node (s (k * n + i)) i))"
proof -
  have "\<forall>st \<in> set (map (state_answers s n) [0..<10]). plausible conn n st" using state_answers_plausible [OF assms] by simp
  note f = one_leader_loop_finds [OF this, folded checkOneLeader_def]
  show ?thesis
  proof (cases "checkOneLeader conn n (state_answers s n)")
    case (Inl e)
    have "e = FatalError" using f Inl by simp
    moreover have "\<not> leads conn (state_answers s n k) t (int i)" if "k < 10" "i < n" for k t i using f Inl that by simp
    ultimately show ?thesis using Inl unfolding state_answers_leads by auto
  next
    case (Inr l)
    then obtain k i t where k: "k < 10" "i < n" "l = int i" "leads conn (state_answers s n k) t (int i)"
      "\<forall>u j. j < n \<and> leads conn (state_answers s n k) u (int j) \<longrightarrow> u \<le> t" using f by auto
    then show ?thesis using Inr unfolding state_answers_leads by auto
  qed
qed

text \<open>A cluster at rest in which peer 0 has won term 1: a peer that leads is returned.\<close>

theorem check_one_leader_witness:
  "\<exists>c :: (unit, unit) cluster. cluster_reachable c \<and> (\<exists>i < 3. checkOneLeader [True, True, True] 3 (state_answers (\<lambda>_. c) 3) = Inr (int i) \<and> role (node c i) = LEADER)"
proof -
  obtain c :: "(unit, unit) cluster" where c: "cluster_reachable c" "size_c c = 3" "role (node c 0) = LEADER" using elected_cluster by blast
  have o: "observed (\<lambda>_. c)" using c(1) by (simp add: observed_def)
  note p = check_one_leader [OF o, of 3 "[True, True, True]"]
  show ?thesis
  proof (cases "checkOneLeader [True, True, True] 3 (state_answers (\<lambda>_. c) 3)")
    case (Inl e)
    have "\<forall>k < (10 :: nat). \<forall>i < (3 :: nat). [True, True, True] ! i \<longrightarrow> role (node c i) \<noteq> LEADER" using p c(2) Inl by simp
    from this [rule_format, of 0 0] show ?thesis using c(3) by simp
  next
    case (Inr l)
    have "\<exists>i < (3 :: nat). l = int i \<and> role (node c i) = LEADER" using p c(2) Inr by auto
    then show ?thesis using c(1) Inr by auto
  qed
qed

end
