(* ===== verification/Ctrl_Config.thy ===== *)
theory Ctrl_Config
  imports Go_Prelude "HOL-Library.Finite_Map"
begin

text \<open>
  Configurations of the shard controller, \<^verbatim>\<open>src/shardctrler/common.go\<close>: a configuration
  assigns each of the \<^verbatim>\<open>NShards\<close> shards to a replica group. Go maps are finite maps; the
  code sorts the keys before it iterates, so the model iterates over the sorted keys.
  A slice read outside its bounds is a panic and the loop of \<^verbatim>\<open>ResetShards\<close>, which may run
  forever, a \<^verbatim>\<open>partial_function\<close> whose missing result is \<^verbatim>\<open>NoProgress\<close>.
\<close>

section \<open>Definitions\<close>

definition NShards :: nat where
  "NShards = 10"

type_synonym groups = "(int, string list) fmap"
type_synonym shards_map = "(int, nat list) fmap"

record Config =
  Num :: int
  Shards :: "int list"
  Groups :: groups

definition GetSortedKeysOfGroups :: "(int, 'a) fmap \<Rightarrow> int list" where
  "GetSortedKeysOfGroups m = sorted_list_of_fset (fmdom m)"

text \<open>A map read: the zero value, here the empty slice, for a missing key.\<close>

definition shards_of :: "int \<Rightarrow> shards_map \<Rightarrow> nat list" where
  "shards_of gid m = (case fmlookup m gid of Some s \<Rightarrow> s | None \<Rightarrow> [])"

definition GetGroupShardsMap :: "Config \<Rightarrow> shards_map" where
  "GetGroupShardsMap config =
     fold (\<lambda>(shard, gid) m. fmupd gid (shards_of gid m @ [shard]) m)
       (zip [0..<length (Shards config)] (Shards config))
       (fmmap (\<lambda>_. []) (Groups config))"

fun cmp_loop :: "(nat \<Rightarrow> nat \<Rightarrow> bool) \<Rightarrow> shards_map \<Rightarrow> int list \<Rightarrow> int \<Rightarrow> nat \<Rightarrow> int" where
  "cmp_loop cmp m [] m_gid m_ShardsCount = m_gid"
| "cmp_loop cmp m (gid # gids) m_gid m_ShardsCount =
     (if cmp (length (shards_of gid m)) m_ShardsCount
      then cmp_loop cmp m gids gid (length (shards_of gid m))
      else cmp_loop cmp m gids m_gid m_ShardsCount)"

definition GetGidWithCmpNumShards :: "shards_map \<Rightarrow> (nat \<Rightarrow> nat \<Rightarrow> bool) \<Rightarrow> int" where
  "GetGidWithCmpNumShards m cmp =
     (case GetSortedKeysOfGroups m of
        [] \<Rightarrow> 0
      | gid # gids \<Rightarrow> cmp_loop cmp m gids gid (length (shards_of gid m)))"

definition GetGidWithMinimumShards :: "shards_map \<Rightarrow> int" where
  "GetGidWithMinimumShards m = GetGidWithCmpNumShards m (\<lambda>a b. a < b)"

definition GetGidWithMaximumShards :: "shards_map \<Rightarrow> int" where
  "GetGidWithMaximumShards m =
     (if fmlookup m 0 \<noteq> None then 0 else GetGidWithCmpNumShards m (\<lambda>a b. a > b))"

definition Clone :: "Config \<Rightarrow> Config" where
  "Clone config = \<lparr>Num = Num config, Shards = Shards config, Groups = Groups config\<rparr>"

text \<open>The inner loop of \<^verbatim>\<open>ResetShards\<close>: one pass over the groups from the current shard on.\<close>

fun reset_pass :: "int list \<Rightarrow> int list \<Rightarrow> nat \<Rightarrow> int list \<times> nat" where
  "reset_pass [] shards shard = (shards, shard)"
| "reset_pass (gid # gids) shards shard =
     (let shards = shards[shard := gid]; shard = shard + 1 in
      if shard \<ge> NShards then (shards, shard) else reset_pass gids shards shard)"

partial_function (option) reset_loop :: "int list \<Rightarrow> int list \<Rightarrow> nat \<Rightarrow> int list option" where
  "reset_loop gids shards shard =
     (if shard < NShards
      then (case reset_pass gids shards shard of (shards', shard') \<Rightarrow> reset_loop gids shards' shard')
      else Some shards)"

definition ResetShards :: "Config \<Rightarrow> Config res" where
  "ResetShards config =
     (case reset_loop (GetSortedKeysOfGroups (Groups config)) (Shards config) 0 of
        Some shards \<Rightarrow> Inr (config\<lparr>Shards := shards\<rparr>)
      | None \<Rightarrow> Inl NoProgress)"

text \<open>
  One new group: the loop over \<^verbatim>\<open>cnt\<close>, with the number of its remaining turns first.
\<close>

fun join_loop :: "nat \<Rightarrow> nat \<Rightarrow> int \<Rightarrow> Config \<Rightarrow> Config res" where
  "join_loop 0 cnt new_gid config = Inr config"
| "join_loop (Suc k) cnt new_gid config =
     (let groupShardsMap = fmdrop new_gid (GetGroupShardsMap config);
          maxGid = GetGidWithMaximumShards groupShardsMap;
          maxGroupShards = shards_of maxGid groupShardsMap
      in if cnt \<ge> length maxGroupShards \<and> maxGid \<noteq> 0 then Inr config
         else ebind (nth_go maxGroupShards 0) (\<lambda>shard.
              ebind (upd_go (Shards config) (int shard) new_gid) (\<lambda>shards.
              join_loop k (Suc cnt) new_gid (config\<lparr>Shards := shards\<rparr>))))"

definition JoinGroup :: "int \<Rightarrow> string list \<Rightarrow> Config \<Rightarrow> Config res" where
  "JoinGroup new_gid new_servers config =
     ebind (if fmlookup (Groups config) new_gid = None then join_loop NShards 0 new_gid config else Inr config) (\<lambda>config.
     Inr (config\<lparr>Groups := fmupd new_gid
       ((case fmlookup (Groups config) new_gid of Some s \<Rightarrow> s | None \<Rightarrow> []) @ new_servers) (Groups config)\<rparr>))"

fun join_groups :: "int list \<Rightarrow> groups \<Rightarrow> Config \<Rightarrow> Config res" where
  "join_groups [] groups config = Inr config"
| "join_groups (g # gs) groups config =
     ebind (JoinGroup g (case fmlookup groups g of Some s \<Rightarrow> s | None \<Rightarrow> []) config) (join_groups gs groups)"

definition JoinGroups :: "groups \<Rightarrow> Config \<Rightarrow> Config res" where
  "JoinGroups groups config = join_groups (GetSortedKeysOfGroups groups) groups config"

fun remove_loop :: "nat list \<Rightarrow> int \<Rightarrow> Config \<Rightarrow> Config res" where
  "remove_loop [] gid config = Inr config"
| "remove_loop (rmShard # rest) gid config =
     (let groupShardsMap = fmdrop gid (GetGroupShardsMap config) in
      ebind (upd_go (Shards config) (int rmShard) (GetGidWithMinimumShards groupShardsMap)) (\<lambda>shards.
      remove_loop rest gid (config\<lparr>Shards := shards\<rparr>)))"

fun RemoveGroups :: "int list \<Rightarrow> Config \<Rightarrow> Config res" where
  "RemoveGroups [] config = Inr config"
| "RemoveGroups (gid # gids) config =
     (if fmlookup (Groups config) gid \<noteq> None
      then let removeShards = shards_of gid (GetGroupShardsMap config) in
           ebind (remove_loop removeShards gid (config\<lparr>Groups := fmdrop gid (Groups config)\<rparr>)) (RemoveGroups gids)
      else RemoveGroups gids config)"

definition MoveShard :: "int \<Rightarrow> int \<Rightarrow> Config \<Rightarrow> Config res" where
  "MoveShard shard gid config =
     ebind (upd_go (Shards config) shard gid) (\<lambda>shards. Inr (config\<lparr>Shards := shards\<rparr>))"

section \<open>Loads\<close>

text \<open>The shards of a group, in order, and their number.\<close>

definition shard_list :: "int list \<Rightarrow> int \<Rightarrow> nat list" where
  "shard_list s g = filter (\<lambda>i. s ! i = g) [0..<length s]"

definition load :: "int list \<Rightarrow> int \<Rightarrow> nat" where
  "load s g = length (shard_list s g)"

lemma load_count: "load s g = count (mset s) g"
proof -
  have "map ((!) s) (shard_list s g) = filter (\<lambda>x. x = g) s"
    unfolding shard_list_def by (subst (3) map_nth [symmetric]) (simp add: filter_map comp_def del: map_nth)
  then have "load s g = length (filter (\<lambda>x. x = g) s)" unfolding load_def by (metis length_map)
  also have "\<dots> = count (mset s) g" by (induction s) auto
  finally show ?thesis .
qed

lemma sum_load: "finite A \<Longrightarrow> set s \<subseteq> A \<Longrightarrow> sum (load s) A = length s"
  using size_multiset_overloaded_eq [of "mset s"]
  by (simp add: load_count) (metis (no_types, lifting) count_eq_zero_iff set_mset_mset size_mset sum.mono_neutral_left DiffD2)

lemma shard_list_in: "i \<in> set (shard_list s g) \<longleftrightarrow> i < length s \<and> s ! i = g"
  by (auto simp: shard_list_def)

lemma load_update:
  assumes "i < length s"
  shows "load (s[i := g]) h = (if s ! i = h then load s h - 1 else load s h) + (if g = h then 1 else 0)"
proof -
  have "mset (s[i := g]) = add_mset g (mset s - {#s ! i#})" using assms by (rule mset_update)
  then show ?thesis by (simp add: load_count)
qed

lemma load_pos: "i < length s \<Longrightarrow> 0 < load s (s ! i)"
  by (simp add: load_count)

section \<open>The group-to-shards map\<close>

lemma shard_list_snoc: "shard_list (s @ [x]) g = shard_list s g @ (if x = g then [length s] else [])"
  by (auto simp: shard_list_def nth_append intro: filter_cong)

lemma shard_list_Nil [simp]: "shard_list [] g = []"
  by (simp add: shard_list_def)

lemma shard_list_empty_iff: "shard_list s g = [] \<longleftrightarrow> g \<notin> set s"
  by (auto simp: shard_list_def filter_empty_conv in_set_conv_nth)

lemma gsm_fold:
  "fmlookup (fold (\<lambda>(shard, gid) m. fmupd gid (shards_of gid m @ [shard]) m)
     (zip [0..<length s] s) (fmmap (\<lambda>_. []) G)) g =
   (if g |\<in>| fmdom G \<or> g \<in> set s then Some (shard_list s g) else None)"
proof (induction s arbitrary: g rule: rev_induct)
  case Nil
  then show ?case by (auto simp: fmlookup_dom_iff split: option.splits)
next
  case (snoc x s)
  let ?m = "fold (\<lambda>(shard, gid) m. fmupd gid (shards_of gid m @ [shard]) m) (zip [0..<length s] s) (fmmap (\<lambda>_. []) G)"
  have "shards_of x ?m = shard_list s x"
    using shard_list_empty_iff [of s x] by (auto simp: shards_of_def [of x] snoc)
  then show ?case by (simp add: snoc shard_list_snoc)
qed

lemma fmlookup_gsm:
  "fmlookup (GetGroupShardsMap c) g =
     (if g |\<in>| fmdom (Groups c) \<or> g \<in> set (Shards c) then Some (shard_list (Shards c) g) else None)"
  unfolding GetGroupShardsMap_def by (rule gsm_fold)

lemma shards_of_gsm [simp]: "shards_of g (GetGroupShardsMap c) = shard_list (Shards c) g"
  using shard_list_empty_iff [of "Shards c" g] by (auto simp add: shards_of_def fmlookup_gsm)

lemma shards_of_drop: "shards_of g (fmdrop h m) = (if g = h then [] else shards_of g m)"
  by (simp add: shards_of_def)

lemma fmdom_gsm: "fset (fmdom (GetGroupShardsMap c)) = fset (fmdom (Groups c)) \<union> set (Shards c)"
  by (auto simp: fmlookup_dom_iff fmlookup_gsm split: if_splits)

section \<open>The group with the fewest and the most shards\<close>

lemma cmp_loop_min:
  assumes "c0 = length (shards_of g0 m)"
  shows "cmp_loop (\<lambda>a b. a < b) m gs g0 c0 \<in> insert g0 (set gs) \<and>
    (\<forall>g \<in> insert g0 (set gs). length (shards_of (cmp_loop (\<lambda>a b. a < b) m gs g0 c0) m) \<le> length (shards_of g m))"
  using assms by (induction gs arbitrary: g0 c0) (fastforce simp: not_less)+

lemma cmp_loop_max:
  assumes "c0 = length (shards_of g0 m)"
  shows "cmp_loop (\<lambda>a b. a > b) m gs g0 c0 \<in> insert g0 (set gs) \<and>
    (\<forall>g \<in> insert g0 (set gs). length (shards_of g m) \<le> length (shards_of (cmp_loop (\<lambda>a b. a > b) m gs g0 c0) m))"
  using assms by (induction gs arbitrary: g0 c0) (fastforce simp: not_less)+

lemma sortedKeys_set [simp]: "set (GetSortedKeysOfGroups m) = fset (fmdom m)"
  by (simp add: GetSortedKeysOfGroups_def)

lemma GetGidWithMinimumShards_spec:
  assumes "fmdom m \<noteq> {||}"
  shows "GetGidWithMinimumShards m |\<in>| fmdom m \<and>
    (\<forall>g \<in> fset (fmdom m). length (shards_of (GetGidWithMinimumShards m) m) \<le> length (shards_of g m))"
proof -
  obtain g gs where gs: "GetSortedKeysOfGroups m = g # gs"
    using assms sortedKeys_set [of m] by (cases "GetSortedKeysOfGroups m") auto
  then have "fset (fmdom m) = insert g (set gs)" by (metis list.simps(15) sortedKeys_set)
  with gs cmp_loop_min [of "length (shards_of g m)" g m gs] show ?thesis
    by (simp add: GetGidWithMinimumShards_def GetGidWithCmpNumShards_def)
qed

lemma GetGidWithMaximumShards_spec:
  assumes "fmdom m \<noteq> {||}" and "0 |\<notin>| fmdom m"
  shows "GetGidWithMaximumShards m |\<in>| fmdom m \<and>
    (\<forall>g \<in> fset (fmdom m). length (shards_of g m) \<le> length (shards_of (GetGidWithMaximumShards m) m))"
proof -
  obtain g gs where gs: "GetSortedKeysOfGroups m = g # gs"
    using assms sortedKeys_set [of m] by (cases "GetSortedKeysOfGroups m") auto
  then have "fset (fmdom m) = insert g (set gs)" by (metis list.simps(15) sortedKeys_set)
  moreover have "fmlookup m 0 = None" using assms(2) by (simp add: fmdom_notD)
  ultimately show ?thesis
    using gs cmp_loop_max [of "length (shards_of g m)" g m gs]
    by (simp add: GetGidWithMaximumShards_def GetGidWithCmpNumShards_def)
qed

section \<open>Valid and balanced configurations\<close>

text \<open>
  Group 0 is the invalid group. In a valid configuration every shard belongs to an existing
  group, or there is no group and every shard belongs to group 0.
\<close>

definition valid_config :: "Config \<Rightarrow> bool" where
  "valid_config c \<longleftrightarrow> length (Shards c) = NShards \<and> 0 |\<notin>| fmdom (Groups c) \<and>
     (if fmdom (Groups c) = {||} then set (Shards c) \<subseteq> {0} else set (Shards c) \<subseteq> fset (fmdom (Groups c)))"

definition even_on :: "int set \<Rightarrow> int list \<Rightarrow> bool" where
  "even_on A s \<longleftrightarrow> (\<forall>g \<in> A. \<forall>h \<in> A. load s g \<le> load s h + 1)"

definition balanced :: "Config \<Rightarrow> bool" where
  "balanced c \<longleftrightarrow> even_on (fset (fmdom (Groups c))) (Shards c)"

text \<open>A shard changes its group only towards a group of \<^verbatim>\<open>A\<close>.\<close>

definition moves_into :: "int set \<Rightarrow> int list \<Rightarrow> int list \<Rightarrow> bool" where
  "moves_into A s s' \<longleftrightarrow> length s' = length s \<and> (\<forall>i < length s. s' ! i = s ! i \<or> s' ! i \<in> A)"

lemma moves_into_refl [simp]: "moves_into A s s"
  by (simp add: moves_into_def)

lemma moves_into_trans: "moves_into A s s' \<Longrightarrow> moves_into B s' s'' \<Longrightarrow> moves_into (A \<union> B) s s''"
  by (fastforce simp: moves_into_def)

lemma moves_into_update: "g \<in> A \<Longrightarrow> moves_into A s (s[i := g])"
  by (cases "i < length s") (auto simp: moves_into_def nth_list_update)

lemma moves_into_mono: "moves_into A s s' \<Longrightarrow> A \<subseteq> B \<Longrightarrow> moves_into B s s'"
  by (fastforce simp: moves_into_def)

lemma hd_shard_list:
  assumes "0 < load s g"
  shows "shard_list s g = shard_list s g ! 0 # tl (shard_list s g)" "shard_list s g ! 0 < length s" "s ! (shard_list s g ! 0) = g"
proof -
  from assms have ne: "shard_list s g \<noteq> []" by (simp add: load_def)
  then have "shard_list s g ! 0 \<in> set (shard_list s g)" by simp
  then show "shard_list s g ! 0 < length s" "s ! (shard_list s g ! 0) = g" by (auto simp: shard_list_in)
  from ne show "shard_list s g = shard_list s g ! 0 # tl (shard_list s g)" by (metis hd_conv_nth list.collapse)
qed

lemma set_update_groups: "set s \<subseteq> A \<Longrightarrow> g \<in> A \<Longrightarrow> set (s[i := g]) \<subseteq> A"
  using set_update_subset_insert [of s i g] by blast

section \<open>Joining\<close>

lemma max_other:
  assumes D: "D = fset (fmdom (Groups c))" "D \<noteq> {}" "0 \<notin> D" "n \<notin> D" and s: "set (Shards c) \<subseteq> insert n D"
    and M: "M = GetGidWithMaximumShards (fmdrop n (GetGroupShardsMap c))"
  shows "M \<in> D" "\<forall>g \<in> D. load (Shards c) g \<le> load (Shards c) M" "M \<noteq> 0" "M \<noteq> n"
    "shards_of M (fmdrop n (GetGroupShardsMap c)) = shard_list (Shards c) M"
proof -
  let ?m = "fmdrop n (GetGroupShardsMap c)"
  have dom: "fset (fmdom ?m) = D" using s D by (auto simp: fmdom_gsm)
  then have "fmdom ?m \<noteq> {||}" "0 |\<notin>| fmdom ?m" using D by auto
  from GetGidWithMaximumShards_spec [OF this] M dom
  have MD: "M \<in> D" and le: "\<forall>g \<in> D. length (shards_of g ?m) \<le> length (shards_of M ?m)" by auto
  then show "M \<in> D" "M \<noteq> 0" "M \<noteq> n" using D by auto
  then show "shards_of M ?m = shard_list (Shards c) M" by (simp add: shards_of_drop)
  show "\<forall>g \<in> D. load (Shards c) g \<le> load (Shards c) M"
  proof
    fix g assume g: "g \<in> D"
    then have "g \<noteq> n" using D by auto
    with le g \<open>M \<noteq> n\<close> show "load (Shards c) g \<le> load (Shards c) M"
      by (auto simp: shards_of_drop load_def)
  qed
qed

text \<open>The loop for one new group over existing groups: it ends early, with the loads even.\<close>

lemma join_loop_even:
  assumes D: "D = fset (fmdom (Groups c))" "D \<noteq> {}" "0 \<notin> D" "n \<notin> D"
    and s: "length s = NShards" "set s \<subseteq> insert n D"
    and even: "even_on D s" and cnt: "load s n = cnt" "\<forall>g \<in> D. cnt \<le> load s g + 1"
    and k: "k + cnt = NShards"
  shows "\<exists>s'. join_loop k cnt n (c\<lparr>Shards := s\<rparr>) = Inr (c\<lparr>Shards := s'\<rparr>) \<and> set s' \<subseteq> insert n D \<and>
    even_on (insert n D) s' \<and> moves_into {n} s s'"
  using s even cnt k
proof (induction k arbitrary: cnt s)
  case 0
  have fin: "finite (insert n D)" using D(1) by simp
  from D(2) obtain g where g: "g \<in> D" by blast
  have "load s n + load s g \<le> sum (load s) (insert n D)"
    using g D(4) fin by (auto simp: member_le_sum)
  also have "\<dots> = NShards" using sum_load [OF fin "0.prems"(2)] "0.prems"(1) by simp
  finally have "load s g = 0" using "0.prems" by simp
  with g "0.prems"(5,6) have "NShards \<le> 1" by fastforce
  then show ?case by (simp add: NShards_def)
next
  case (Suc k)
  let ?c = "c\<lparr>Shards := s\<rparr>"
  define M where "M = GetGidWithMaximumShards (fmdrop n (GetGroupShardsMap ?c))"
  have Dc: "D = fset (fmdom (Groups ?c))" and sc: "set (Shards ?c) \<subseteq> insert n D" using D(1) Suc.prems(2) by auto
  note M = max_other [OF Dc D(2-4) sc M_def, simplified]
  show ?case
  proof (cases "load s M \<le> cnt")
    case True
    have "even_on (insert n D) s"
      unfolding even_on_def
    proof (intro ballI)
      fix g h assume "g \<in> insert n D" "h \<in> insert n D"
      then show "load s g \<le> load s h + 1"
        using Suc.prems(3,4,5) M(2) True by (fastforce simp: even_on_def)
    qed
    moreover have "join_loop (Suc k) cnt n ?c = Inr ?c"
      using True M by (simp add: Let_def M_def [symmetric] load_def)
    ultimately show ?thesis using Suc.prems by fastforce
  next
    case False
    let ?i = "shard_list s M ! 0" let ?s = "s[?i := n]"
    have pos: "0 < load s M" using False by simp
    note i = hd_shard_list [OF pos]
    have step: "join_loop (Suc k) cnt n ?c = join_loop k (Suc cnt) n (c\<lparr>Shards := ?s\<rparr>)"
      using False M i pos by (simp add: Let_def M_def [symmetric] load_def nth_go_def upd_go_def)
    have ld: "load ?s h = (if h = M then load s M - 1 else if h = n then cnt + 1 else load s h)" for h
      using load_update [OF i(2), of n h] i(3) M(4) Suc.prems(4) by auto
    have "even_on D ?s"
      using Suc.prems(3) M(2) pos D(4) unfolding even_on_def ld by (auto simp: le_Suc_eq) fastforce+
    moreover have "\<forall>g \<in> D. Suc cnt \<le> load ?s g + 1"
    proof
      fix g assume g: "g \<in> D"
      with Suc.prems(3) M(1) have "load s M \<le> load s g + 1" by (simp add: even_on_def)
      then show "Suc cnt \<le> load ?s g + 1" using False D(4) g by (auto simp: ld)
    qed
    moreover have "set ?s \<subseteq> insert n D" using Suc.prems(2) by (intro set_update_groups) auto
    ultimately obtain s' where s': "join_loop k (Suc cnt) n (c\<lparr>Shards := ?s\<rparr>) = Inr (c\<lparr>Shards := s'\<rparr>)"
      "set s' \<subseteq> insert n D" "even_on (insert n D) s'" "moves_into {n} ?s s'"
      using Suc.IH [of ?s "Suc cnt"] Suc.prems M(4) by (auto simp: ld)
    with step moves_into_trans [OF moves_into_update [of n "{n}"] s'(4)] show ?thesis by auto
  qed
qed

text \<open>The loop for the first group: all shards leave the invalid group.\<close>

lemma join_loop_first:
  assumes D: "fmdom (Groups c) = {||}" and n: "n \<noteq> 0"
    and s: "length s = NShards" "set s \<subseteq> {n, 0}" and cnt: "load s n = cnt" and k: "k + cnt = NShards"
  shows "\<exists>s'. join_loop k cnt n (c\<lparr>Shards := s\<rparr>) = Inr (c\<lparr>Shards := s'\<rparr>) \<and> set s' \<subseteq> {n} \<and> moves_into {n} s s'"
  using s cnt k
proof (induction k arbitrary: cnt s)
  case 0
  then have "0 \<notin> set s"
    using sum_load [of "{n, 0}" s] n by (auto simp: load_count)
  with "0.prems" show ?case by (intro exI [of _ s]) auto
next
  case (Suc k)
  let ?c = "c\<lparr>Shards := s\<rparr>"
  have pos: "0 < load s 0" using sum_load [of "{n, 0}" s] n Suc.prems by auto
  note i = hd_shard_list [OF pos]
  let ?i = "shard_list s 0 ! 0" let ?s = "s[?i := n]"
  have "0 \<in> set s" using i(2,3) by (metis nth_mem)
  then have "GetGidWithMaximumShards (fmdrop n (GetGroupShardsMap ?c)) = 0"
    using n by (simp add: GetGidWithMaximumShards_def fmlookup_gsm)
  then have step: "join_loop (Suc k) cnt n ?c = join_loop k (Suc cnt) n (c\<lparr>Shards := ?s\<rparr>)"
    using i pos n by (simp add: Let_def nth_go_def upd_go_def shards_of_drop load_def)
  have "load ?s n = Suc cnt" using load_update [OF i(2), of n n] i(3) n Suc.prems by auto
  moreover have "set ?s \<subseteq> {n, 0}" using Suc.prems(2) by (intro set_update_groups) auto
  ultimately obtain s' where s': "join_loop k (Suc cnt) n (c\<lparr>Shards := ?s\<rparr>) = Inr (c\<lparr>Shards := s'\<rparr>)"
    "set s' \<subseteq> {n}" "moves_into {n} ?s s'"
    using Suc.IH [of ?s "Suc cnt"] Suc.prems by auto
  with step moves_into_trans [OF moves_into_update [of n "{n}"] s'(3)] show ?case by auto
qed

text \<open>
  When the new group owns a shard already and nobody else does, the loop has more turns than
  the invalid group has shards: after the last of them it reads the first shard of no group.
\<close>

lemma join_loop_panics:
  assumes D: "fmdom (Groups c) = {||}" and n: "n \<noteq> 0" and s: "set s \<subseteq> {n, 0}" and k: "load s 0 < k"
  shows "join_loop k cnt n (c\<lparr>Shards := s\<rparr>) = Inl IndexOutOfRange"
  using s k
proof (induction k arbitrary: cnt s)
  case (Suc k)
  let ?c = "c\<lparr>Shards := s\<rparr>" let ?m = "fmdrop n (GetGroupShardsMap ?c)"
  show ?case
  proof (cases "0 \<in> set s")
    case True
    then have pos: "0 < load s 0" by (simp add: load_count)
    note i = hd_shard_list [OF pos]
    let ?i = "shard_list s 0 ! 0" let ?s = "s[?i := n]"
    have "GetGidWithMaximumShards ?m = 0"
      using True n by (simp add: GetGidWithMaximumShards_def fmlookup_gsm)
    then have step: "join_loop (Suc k) cnt n ?c = join_loop k (Suc cnt) n (c\<lparr>Shards := ?s\<rparr>)"
      using i pos n by (simp add: Let_def nth_go_def upd_go_def shards_of_drop load_def)
    have "load ?s 0 < k" using load_update [OF i(2), of n 0] i(3) n pos Suc.prems by auto
    moreover have "set ?s \<subseteq> {n, 0}" using Suc.prems(1) by (intro set_update_groups) auto
    ultimately show ?thesis using step Suc.IH [of ?s "Suc cnt"] by simp
  next
    case False
    have "fmdom ?m = {||}" using False D Suc.prems(1) fmdom_gsm [of ?c] by (auto simp: fset_eq_iff)
    then have "GetSortedKeysOfGroups ?m = []"
      by (metis bot_fset.rep_eq set_empty sortedKeys_set)
    then have "GetGidWithMaximumShards ?m = 0"
      by (simp add: GetGidWithMaximumShards_def GetGidWithCmpNumShards_def)
    moreover have "shard_list s 0 = []" using False by (simp add: shard_list_empty_iff)
    ultimately show ?thesis using n by (simp add: Let_def shards_of_drop nth_go_def ebind_def)
  qed
qed simp

lemma JoinGroups_panics:
  assumes D: "fmdom (Groups c) = {||}" and n: "n \<noteq> 0" and s: "set (Shards c) \<subseteq> {n, 0}" "n \<in> set (Shards c)"
    and len: "length (Shards c) = NShards" and g: "GetSortedKeysOfGroups groups = n # gs"
  shows "JoinGroups groups c = Inl IndexOutOfRange"
proof -
  have "load (Shards c) n + load (Shards c) 0 = NShards"
    using sum_load [of "{n, 0}" "Shards c"] s n len by simp
  moreover have "0 < load (Shards c) n" using s(2) by (simp add: load_count)
  ultimately have "join_loop NShards 0 n (c\<lparr>Shards := Shards c\<rparr>) = Inl IndexOutOfRange"
    by (intro join_loop_panics [OF D n s(1)]) linarith
  moreover have "fmlookup (Groups c) n = None" using D by (simp add: fmdom_notD)
  ultimately show ?thesis by (simp add: JoinGroups_def g JoinGroup_def ebind_def)
qed

lemma JoinGroup_spec:
  assumes v: "valid_config c" and b: "balanced c" and n: "n \<noteq> 0"
  shows "\<exists>c'. JoinGroup n srv c = Inr c' \<and> valid_config c' \<and> balanced c' \<and> Num c' = Num c \<and>
    fmdom (Groups c') = finsert n (fmdom (Groups c)) \<and> moves_into ({n} - fset (fmdom (Groups c))) (Shards c) (Shards c')"
proof -
  let ?D = "fset (fmdom (Groups c))"
  have c: "c\<lparr>Shards := Shards c\<rparr> = c" by simp
  consider (old) "n \<in> ?D" | (first) "n \<notin> ?D" "?D = {}" | (new) "n \<notin> ?D" "?D \<noteq> {}" by blast
  then show ?thesis
  proof cases
    case old
    then obtain srv0 where "fmlookup (Groups c) n = Some srv0" by (auto simp: fmlookup_dom_iff)
    moreover have "finsert n (fmdom (Groups c)) = fmdom (Groups c)" using old by auto
    ultimately show ?thesis
      using v b by (auto simp: JoinGroup_def valid_config_def balanced_def)
  next
    case first
    then have D: "fmdom (Groups c) = {||}" by (metis bot_fset.rep_eq fset_inject)
    have "set (Shards c) \<subseteq> {0}" "length (Shards c) = NShards" using v D by (auto simp: valid_config_def)
    moreover from this have "load (Shards c) n = 0" using n by (auto simp: load_count count_eq_zero_iff)
    ultimately obtain s' where s': "join_loop NShards 0 n c = Inr (c\<lparr>Shards := s'\<rparr>)" "set s' \<subseteq> {n}"
      "moves_into {n} (Shards c) s'"
      using join_loop_first [OF D n, of "Shards c" 0 NShards] c by auto
    moreover have "fmlookup (Groups c) n = None" using first(1) by (simp add: fmdom_notD)
    ultimately show ?thesis
      using v n D by (auto simp: JoinGroup_def valid_config_def balanced_def even_on_def moves_into_def)
  next
    case new
    have v': "length (Shards c) = NShards" "0 \<notin> ?D" "set (Shards c) \<subseteq> ?D"
      using v new(2) by (auto simp: valid_config_def split: if_splits)
    then have ld: "load (Shards c) n = 0" using new(1) by (auto simp: load_count count_eq_zero_iff)
    have "\<exists>s'. join_loop NShards 0 n (c\<lparr>Shards := Shards c\<rparr>) = Inr (c\<lparr>Shards := s'\<rparr>) \<and> set s' \<subseteq> insert n ?D \<and>
      even_on (insert n ?D) s' \<and> moves_into {n} (Shards c) s'"
      by (rule join_loop_even [OF refl new(2) v'(2) new(1) v'(1)])
         (use v'(3) b ld in \<open>auto simp: balanced_def\<close>)
    then obtain s' where s': "join_loop NShards 0 n c = Inr (c\<lparr>Shards := s'\<rparr>)" "set s' \<subseteq> insert n ?D"
      "even_on (insert n ?D) s'" "moves_into {n} (Shards c) s'" using c by auto
    moreover have "fmlookup (Groups c) n = None" using new(1) by (simp add: fmdom_notD)
    moreover have "{n} - ?D = {n}" using new(1) by blast
    moreover have "length s' = length (Shards c)" using s'(4) by (simp add: moves_into_def)
    ultimately show ?thesis
      using v' n by (auto simp: JoinGroup_def valid_config_def balanced_def)
  qed
qed

lemma join_groups_spec:
  assumes "valid_config c" and "balanced c" and "0 \<notin> set gs"
  shows "\<exists>c'. join_groups gs G c = Inr c' \<and> valid_config c' \<and> balanced c' \<and> Num c' = Num c \<and>
    fset (fmdom (Groups c')) = set gs \<union> fset (fmdom (Groups c)) \<and>
    moves_into (set gs - fset (fmdom (Groups c))) (Shards c) (Shards c')"
  using assms
proof (induction gs arbitrary: c)
  case (Cons g gs)
  let ?srv = "case fmlookup G g of Some s \<Rightarrow> s | None \<Rightarrow> []"
  obtain c1 where c1: "JoinGroup g ?srv c = Inr c1" "valid_config c1" "balanced c1" "Num c1 = Num c"
    "fmdom (Groups c1) = finsert g (fmdom (Groups c))" "moves_into ({g} - fset (fmdom (Groups c))) (Shards c) (Shards c1)"
    using JoinGroup_spec [OF Cons.prems(1,2), of g ?srv] Cons.prems(3) by auto
  obtain c2 where c2: "join_groups gs G c1 = Inr c2" "valid_config c2" "balanced c2" "Num c2 = Num c1"
    "fset (fmdom (Groups c2)) = set gs \<union> fset (fmdom (Groups c1))"
    "moves_into (set gs - fset (fmdom (Groups c1))) (Shards c1) (Shards c2)"
    using Cons.IH [OF c1(2,3)] Cons.prems(3) by auto
  have "moves_into (set (g # gs) - fset (fmdom (Groups c))) (Shards c) (Shards c2)"
    by (rule moves_into_mono [OF moves_into_trans [OF c1(6) c2(6)]]) (auto simp: c1(5))
  with c1 c2 show ?case by auto
qed auto

section \<open>Leaving\<close>

lemma min_other:
  assumes D: "D = fset (fmdom (Groups c))" and n: "n \<notin> D" and s: "set (Shards c) \<subseteq> insert n D"
    and m: "m = GetGidWithMinimumShards (fmdrop n (GetGroupShardsMap c))" and ne: "D \<noteq> {}"
  shows "m \<in> D" "\<forall>g \<in> D. load (Shards c) m \<le> load (Shards c) g"
proof -
  let ?m = "fmdrop n (GetGroupShardsMap c)"
  have dom: "fset (fmdom ?m) = D" using s D n by (auto simp: fmdom_gsm)
  then have "fmdom ?m \<noteq> {||}" using ne by auto
  from GetGidWithMinimumShards_spec [OF this] m dom
  have mD: "m \<in> D" and le: "\<forall>g \<in> D. length (shards_of m ?m) \<le> length (shards_of g ?m)" by auto
  then show "m \<in> D" by simp
  show "\<forall>g \<in> D. load (Shards c) m \<le> load (Shards c) g"
  proof
    fix g assume g: "g \<in> D"
    then have "g \<noteq> n" "m \<noteq> n" using n mD by auto
    with le g show "load (Shards c) m \<le> load (Shards c) g" by (auto simp: shards_of_drop load_def)
  qed
qed

text \<open>The orphaned shards go one by one to the least loaded group, or to group 0 if none is left.\<close>

lemma remove_loop_spec:
  assumes D: "D = fset (fmdom (Groups c))" "0 \<notin> D" "n \<notin> D" "n \<noteq> 0"
    and s: "length s = NShards" "set s \<subseteq> insert n (if D = {} then {0} else D)" and even: "even_on D s"
    and rm: "\<forall>i < length s. s ! i = n \<longrightarrow> i \<in> set rm" "\<forall>i \<in> set rm. i < length s \<and> s ! i = n" "distinct rm"
  shows "\<exists>s'. remove_loop rm n (c\<lparr>Shards := s\<rparr>) = Inr (c\<lparr>Shards := s'\<rparr>) \<and> length s' = NShards \<and>
    set s' \<subseteq> (if D = {} then {0} else D) \<and> even_on D s' \<and> (\<forall>i < NShards. s ! i \<noteq> n \<longrightarrow> s' ! i = s ! i)"
  using s even rm
proof (induction rm arbitrary: s)
  case Nil
  then have "n \<notin> set s" by (auto simp: in_set_conv_nth)
  then have "set s \<subseteq> (if D = {} then {0} else D)" using Nil.prems(2) by blast
  with Nil.prems(1,3) show ?case by (intro exI [of _ s]) (simp del: if_split)
next
  case (Cons r rm)
  let ?c = "c\<lparr>Shards := s\<rparr>"
  define m where "m = GetGidWithMinimumShards (fmdrop n (GetGroupShardsMap ?c))"
  have r: "r < length s" "s ! r = n" using Cons.prems(5) by auto
  have Dc: "D = fset (fmdom (Groups ?c))" using D(1) by simp
  have m0: "m = 0" if "D = {}"
  proof -
    have "set (GetSortedKeysOfGroups (fmdrop n (GetGroupShardsMap ?c))) \<subseteq> {0}"
      using Cons.prems(2) that Dc by (auto simp: fmdom_gsm)
    then show ?thesis
      using cmp_loop_min [of _ 0 "fmdrop n (GetGroupShardsMap ?c)", OF refl]
      by (cases "GetSortedKeysOfGroups (fmdrop n (GetGroupShardsMap ?c))")
         (fastforce simp: m_def GetGidWithMinimumShards_def GetGidWithCmpNumShards_def)+
  qed
  have mD: "m \<in> (if D = {} then {0} else D)"
    using m0 min_other(1) [OF Dc D(3) _ m_def] Cons.prems(2) by (cases "D = {}") simp_all
  moreover have "n \<notin> (if D = {} then {0} else D)" using D(3,4) by simp
  ultimately have mn: "m \<noteq> n" by metis
  let ?s = "s[r := m]"
  have step: "remove_loop (r # rm) n ?c = remove_loop rm n (c\<lparr>Shards := ?s\<rparr>)"
    using r by (simp add: Let_def m_def [symmetric] upd_go_def)
  have ld: "load ?s h = (if h = n then load s n - 1 else if h = m then load s h + 1 else load s h)" for h
    using load_update [OF r(1), of m h] r(2) mn by auto
  have len: "length ?s = NShards" and dist: "distinct rm" using Cons.prems(1,6) by auto
  have ev: "even_on D ?s"
  proof (cases "D = {}")
    case False
    then have "\<forall>g \<in> D. load s m \<le> load s g"
      using min_other(2) [OF Dc D(3) _ m_def False] Cons.prems(2) by simp
    then show ?thesis using Cons.prems(3) D(3) by (fastforce simp: even_on_def ld)
  qed (simp add: even_on_def)
  have sub: "set ?s \<subseteq> insert n (if D = {} then {0} else D)"
    using Cons.prems(2) mD by (intro set_update_groups) blast+
  have r1: "\<forall>i < length ?s. ?s ! i = n \<longrightarrow> i \<in> set rm"
    using Cons.prems(4) mn r(1) by (auto simp: nth_list_update split: if_splits)
  have r2: "\<forall>i \<in> set rm. i < length ?s \<and> ?s ! i = n"
    using Cons.prems(5,6) by (auto simp: nth_list_update)
  from Cons.IH [OF len sub ev r1 r2 dist] obtain s' where s': "remove_loop rm n (c\<lparr>Shards := ?s\<rparr>) = Inr (c\<lparr>Shards := s'\<rparr>)"
    "length s' = NShards" "set s' \<subseteq> (if D = {} then {0} else D)" "even_on D s'"
    "\<forall>i < NShards. ?s ! i \<noteq> n \<longrightarrow> s' ! i = ?s ! i"
    by blast
  have "s' ! i = s ! i" if "i < NShards" "s ! i \<noteq> n" for i
    using s'(5) that r(2) by (metis nth_list_update_neq)
  with s'(2-4) show ?case unfolding step s'(1) by blast
qed

lemma RemoveGroups_spec:
  assumes "valid_config c" and "balanced c"
  shows "\<exists>c'. RemoveGroups gids c = Inr c' \<and> valid_config c' \<and> balanced c' \<and> Num c' = Num c \<and>
    fset (fmdom (Groups c')) = fset (fmdom (Groups c)) - set gids \<and>
    (\<forall>i < NShards. Shards c ! i \<notin> set gids \<longrightarrow> Shards c' ! i = Shards c ! i)"
  using assms
proof (induction gids arbitrary: c)
  case (Cons g gids)
  show ?case
  proof (cases "g |\<in>| fmdom (Groups c)")
    case False
    then have "fmlookup (Groups c) g = None" by (simp add: fmdom_notD)
    moreover obtain c' where "RemoveGroups gids c = Inr c'" "valid_config c'" "balanced c'" "Num c' = Num c"
      "fset (fmdom (Groups c')) = fset (fmdom (Groups c)) - set gids"
      "\<forall>i < NShards. Shards c ! i \<notin> set gids \<longrightarrow> Shards c' ! i = Shards c ! i"
      using Cons.IH [OF Cons.prems] by blast
    ultimately show ?thesis using False by auto
  next
    case True
    let ?c = "c\<lparr>Groups := fmdrop g (Groups c)\<rparr>" let ?s = "Shards c"
    define D where "D = fset (fmdom (Groups ?c))"
    have D: "D = fset (fmdom (Groups c)) - {g}" by (simp add: D_def)
    have v: "length ?s = NShards" "0 |\<notin>| fmdom (Groups c)" "set ?s \<subseteq> insert g D"
      using Cons.prems(1) True by (auto simp: valid_config_def D split: if_splits)
    have g0: "g \<noteq> 0" "0 \<notin> D" "g \<notin> D" using v True by (auto simp: D)
    have sub: "set ?s \<subseteq> insert g (if D = {} then {0} else D)" using v(3) by auto
    have ev: "even_on D ?s" using Cons.prems(2) by (auto simp: balanced_def even_on_def D)
    have "\<exists>s'. remove_loop (shard_list ?s g) g (?c\<lparr>Shards := ?s\<rparr>) = Inr (?c\<lparr>Shards := s'\<rparr>) \<and> length s' = NShards \<and>
      set s' \<subseteq> (if D = {} then {0} else D) \<and> even_on D s' \<and> (\<forall>i < NShards. ?s ! i \<noteq> g \<longrightarrow> s' ! i = ?s ! i)"
      by (rule remove_loop_spec [OF D_def g0(2,3,1) v(1) sub ev]) (auto simp: shard_list_in shard_list_def)
    then obtain s' where rl: "remove_loop (shard_list ?s g) g ?c = Inr (?c\<lparr>Shards := s'\<rparr>)" and s': "length s' = NShards"
      "set s' \<subseteq> (if D = {} then {0} else D)" "even_on D s'" "\<forall>i < NShards. ?s ! i \<noteq> g \<longrightarrow> s' ! i = ?s ! i"
      by auto
    let ?c1 = "?c\<lparr>Shards := s'\<rparr>"
    have dom: "fset (fmdom (Groups ?c1)) = D" by (simp add: D_def)
    have e: "fmdom (Groups ?c1) = {||} \<longleftrightarrow> D = {}" unfolding dom [symmetric] by auto
    have len: "length (Shards ?c1) = NShards" and sh: "set (Shards ?c1) \<subseteq> (if D = {} then {0} else D)"
      using s'(1,2) by simp_all
    have "valid_config ?c1"
      unfolding valid_config_def e dom by (intro conjI len g0(2)) (use sh in \<open>cases "D = {}"; simp\<close>)
    moreover have "balanced ?c1" using s'(3) unfolding balanced_def dom by simp
    ultimately obtain c' where c': "RemoveGroups gids ?c1 = Inr c'" "valid_config c'" "balanced c'"
      "Num c' = Num c" "fset (fmdom (Groups c')) = D - set gids"
      "\<forall>i < NShards. s' ! i \<notin> set gids \<longrightarrow> Shards c' ! i = s' ! i"
      using Cons.IH [of ?c1, unfolded dom] by fastforce
    have "RemoveGroups (g # gids) c = RemoveGroups gids ?c1"
      using True rl by (auto simp: fmlookup_dom_iff simp del: D)
    moreover have "\<forall>i < NShards. ?s ! i \<notin> set (g # gids) \<longrightarrow> Shards c' ! i = ?s ! i"
      using s'(4) c'(6) by simp
    moreover have "D - set gids = fset (fmdom (Groups c)) - set (g # gids)" by (auto simp: D)
    ultimately show ?thesis using c' by (intro exI [of _ c']) simp
  qed
qed auto

section \<open>The first assignment\<close>

lemma reset_pass_spec:
  assumes "length s = NShards" and "k < NShards"
  shows "\<exists>s'. reset_pass gids s k = (s', min (k + length gids) NShards) \<and> length s' = NShards \<and>
    (\<forall>i < NShards. s' ! i = (if k \<le> i \<and> i < k + length gids then gids ! (i - k) else s ! i))"
  using assms
proof (induction gids arbitrary: s k)
  case (Cons g gids)
  show ?case
  proof (cases "Suc k < NShards")
    case True
    from Cons.IH [of "s[k := g]" "Suc k"] True Cons.prems obtain s' where
      s': "reset_pass gids (s[k := g]) (Suc k) = (s', min (Suc k + length gids) NShards)" "length s' = NShards"
      "\<forall>i < NShards. s' ! i = (if Suc k \<le> i \<and> i < Suc k + length gids then gids ! (i - Suc k) else s[k := g] ! i)"
      by auto
    have "s' ! i = (if k \<le> i \<and> i < k + length (g # gids) then (g # gids) ! (i - k) else s ! i)" if "i < NShards" for i
    proof (cases "i = k")
      case True
      with s'(3) that Cons.prems show ?thesis by simp
    next
      case False
      then have "k \<le> i \<longleftrightarrow> Suc k \<le> i" by auto
      moreover have "Suc k \<le> i \<Longrightarrow> i - k = Suc (i - Suc k)" by simp
      ultimately show ?thesis using s'(3) that False by auto
    qed
    with s' True show ?thesis by (auto simp: Let_def)
  next
    case False
    then have "NShards = Suc k" using Cons.prems by simp
    with Cons.prems show ?thesis
      by (intro exI [of _ "s[k := g]"]) (auto simp: Let_def nth_list_update less_Suc_eq)
  qed
qed auto

lemma reset_loop_done:
  assumes "gids \<noteq> []" and "length s = NShards" and "k \<le> NShards"
    and "k = NShards \<or> k mod length gids = 0" and "\<forall>i < k. s ! i = gids ! (i mod length gids)"
  shows "reset_loop gids s k = Some (map (\<lambda>i. gids ! (i mod length gids)) [0..<NShards])"
  using assms
proof (induction "NShards - k" arbitrary: s k rule: less_induct)
  case less
  let ?n = "length gids"
  show ?case
  proof (cases "k < NShards")
    case False
    then have "k = NShards" using less.prems by simp
    moreover from this have "s = map (\<lambda>i. gids ! (i mod ?n)) [0..<NShards]"
      using less.prems by (intro nth_equalityI) auto
    ultimately show ?thesis by (subst reset_loop.simps) simp
  next
    case True
    obtain s' where s': "reset_pass gids s k = (s', min (k + ?n) NShards)" "length s' = NShards"
      "\<forall>i < NShards. s' ! i = (if k \<le> i \<and> i < k + ?n then gids ! (i - k) else s ! i)"
      using reset_pass_spec [OF less.prems(2) True] by blast
    have n: "0 < ?n" using less.prems(1) by simp
    have km: "k mod ?n = 0" using less.prems(4) True by simp
    have "s' ! i = gids ! (i mod ?n)" if "i < min (k + ?n) NShards" for i
    proof (cases "k \<le> i")
      case k: True
      then have "i mod ?n = (i - k) mod ?n" using km by (metis add_cancel_left_left le_add_diff_inverse mod_add_left_eq)
      also have "\<dots> = i - k" using that k by (intro mod_less) linarith
      finally show ?thesis using s'(3) that k by simp
    next
      case False
      with s'(3) that True less.prems(5) show ?thesis by simp
    qed
    moreover have "min (k + ?n) NShards = NShards \<or> min (k + ?n) NShards mod ?n = 0" using km by (simp add: min_def)
    moreover have "NShards - min (k + ?n) NShards < NShards - k" using True n by linarith
    ultimately have "reset_loop gids s' (min (k + ?n) NShards) = Some (map (\<lambda>i. gids ! (i mod ?n)) [0..<NShards])"
      using s'(2) by (intro less.hyps less.prems(1)) auto
    with True s'(1) show ?thesis by (subst reset_loop.simps) simp
  qed
qed

text \<open>Without groups the loop makes no progress.\<close>

lemma reset_loop_result: "reset_loop gids s k = Some r \<Longrightarrow> gids \<noteq> [] \<or> NShards \<le> k"
proof (induction rule: reset_loop.raw_induct [rotated 1, consumes 1])
  case (1 f gids s k r)
  show ?case
  proof (cases "gids = [] \<and> k < NShards")
    case True
    then have "f gids s k = Some r" using 1(2) by simp
    from 1(1) [OF this] show ?thesis .
  qed auto
qed

lemma mod_shift_iff:
  assumes "j < (n :: nat)"
  shows "x mod n = 0 \<longleftrightarrow> (x + j) mod n = j"
proof
  assume "(x + j) mod n = j"
  then have r: "(x mod n + j) mod n = j" by (simp add: mod_add_left_eq)
  have lt: "x mod n < n" using assms by simp
  show "x mod n = 0"
  proof (cases "x mod n + j < n")
    case True
    with r show ?thesis by simp
  next
    case False
    then have "(x mod n + j) mod n = (x mod n + j - n) mod n" by (simp only: le_mod_geq not_less)
    also have "\<dots> = x mod n + j - n" using lt assms by (intro mod_less) linarith
    finally have "(x mod n + j) mod n = x mod n + j - n" .
    with r lt False show ?thesis by linarith
  qed
next
  assume "x mod n = 0"
  moreover have "(x + j) mod n = (x mod n + j) mod n" by (simp only: mod_add_left_eq)
  ultimately show "(x + j) mod n = j" using assms by simp
qed

lemma load_snoc: "load (s @ [x]) g = load s g + (if x = g then 1 else 0)"
  by (simp add: load_def shard_list_snoc)

text \<open>Round robin over distinct groups is even.\<close>

lemma round_robin_load:
  assumes "distinct gids" and "j < length gids"
  shows "load (map (\<lambda>i. gids ! (i mod length gids)) [0..<N]) (gids ! j) = (N + length gids - 1 - j) div length gids"
proof (induction N)
  case 0
  then show ?case using assms(2) by (simp add: load_def)
next
  case (Suc N)
  let ?n = "length gids"
  have n: "0 < ?n" using assms(2) by auto
  have same: "gids ! (N mod ?n) = gids ! j \<longleftrightarrow> N mod ?n = j"
    using assms n by (simp add: nth_eq_iff_index_eq)
  have A: "Suc N + ?n - 1 - j = Suc (N + ?n - 1 - j)" using assms(2) by simp
  have B: "Suc (N + ?n - 1 - j) mod ?n = 0 \<longleftrightarrow> N mod ?n = j"
  proof -
    have e: "Suc (N + ?n - 1 - j) + j = N + ?n" using assms(2) by simp
    have "Suc (N + ?n - 1 - j) mod ?n = 0 \<longleftrightarrow> (Suc (N + ?n - 1 - j) + j) mod ?n = j"
      by (rule mod_shift_iff [OF assms(2)])
    also have "\<dots> \<longleftrightarrow> N mod ?n = j" unfolding e by simp
    finally show ?thesis .
  qed
  have "load (map (\<lambda>i. gids ! (i mod ?n)) [0..<Suc N]) (gids ! j) =
      (N + ?n - 1 - j) div ?n + (if N mod ?n = j then 1 else 0)"
    using same Suc by (simp add: load_snoc)
  also have "\<dots> = (Suc N + ?n - 1 - j) div ?n"
    unfolding A div_Suc B by simp
  finally show ?case .
qed

lemma reset_deals:
  assumes len: "length (Shards c) = NShards" and z: "0 |\<notin>| fmdom (Groups c)"
  shows "if fmdom (Groups c) = {||} then ResetShards c = Inl NoProgress
    else \<exists>c'. ResetShards c = Inr c' \<and> valid_config c' \<and> balanced c' \<and> Groups c' = Groups c"
proof (cases "fmdom (Groups c) = {||}")
  case True
  then have "GetSortedKeysOfGroups (Groups c) = []"
    by (metis bot_fset.rep_eq set_empty sortedKeys_set)
  moreover have "reset_loop [] (Shards c) 0 = None"
    using reset_loop_result [of "[]" "Shards c" 0] by (cases "reset_loop [] (Shards c) 0") (auto simp: NShards_def)
  ultimately show ?thesis using True by (simp add: ResetShards_def)
next
  case False
  let ?g = "GetSortedKeysOfGroups (Groups c)" let ?n = "length ?g"
  define s where "s = map (\<lambda>i. ?g ! (i mod ?n)) [0..<NShards]"
  have ne: "?g \<noteq> []" using False sortedKeys_set [of "Groups c"] by (metis fset_inject bot_fset.rep_eq set_empty)
  have dist: "distinct ?g" by (simp add: GetSortedKeysOfGroups_def sorted_list_of_fset.rep_eq)
  have "reset_loop ?g (Shards c) 0 = Some s" unfolding s_def using ne len by (intro reset_loop_done) auto
  then have r: "ResetShards c = Inr (c\<lparr>Shards := s\<rparr>)" by (simp add: ResetShards_def)
  have "?g ! (i mod ?n) \<in> fset (fmdom (Groups c))" for i
  proof -
    have "i mod ?n < ?n" using ne by simp
    then have "?g ! (i mod ?n) \<in> set ?g" by (rule nth_mem)
    then show ?thesis by simp
  qed
  then have "set s \<subseteq> fset (fmdom (Groups c))" and "length s = NShards" unfolding s_def by auto
  then have v: "valid_config (c\<lparr>Shards := s\<rparr>)" using False z by (simp add: valid_config_def)
  have "load s g \<le> load s h + 1" if "g \<in> fset (fmdom (Groups c))" "h \<in> fset (fmdom (Groups c))" for g h
  proof -
    have "g \<in> set ?g" "h \<in> set ?g" using that by simp_all
    then obtain i j where i: "i < ?n" "g = ?g ! i" and j: "j < ?n" "h = ?g ! j"
      unfolding in_set_conv_nth by blast
    have "(NShards + ?n - 1 - i) div ?n \<le> (NShards + ?n - 1 - j + ?n) div ?n"
      using i(1) j(1) by (intro div_le_mono) linarith
    also have "\<dots> = (NShards + ?n - 1 - j) div ?n + 1" using j(1) by (subst div_add_self2) auto
    finally show ?thesis
      unfolding s_def i(2) j(2) round_robin_load [OF dist i(1)] round_robin_load [OF dist j(1)] .
  qed
  then have "balanced (c\<lparr>Shards := s\<rparr>)" by (simp add: balanced_def even_on_def)
  with r v False show ?thesis by auto
qed

section \<open>The number of shards\<close>

text \<open>\<^verbatim>\<open>Shards\<close> is an array of \<^verbatim>\<open>NShards\<close> elements in the code: no operation changes its length.\<close>

lemma join_loop_length: "join_loop k cnt n c = Inr c' \<Longrightarrow> length (Shards c') = length (Shards c)"
  by (induction k cnt n c rule: join_loop.induct)
     (fastforce simp: Let_def ebind_eq_Inr upd_go_eq_Inr split: if_splits)+

lemma join_groups_length: "join_groups gs groups c = Inr c' \<Longrightarrow> length (Shards c') = length (Shards c)"
proof (induction gs groups c rule: join_groups.induct)
  case (2 g gs groups c)
  then obtain c1 where c1: "JoinGroup g (case fmlookup groups g of Some s \<Rightarrow> s | None \<Rightarrow> []) c = Inr c1"
    "join_groups gs groups c1 = Inr c'" by (auto simp: ebind_eq_Inr)
  have "length (Shards c1) = length (Shards c)"
    using c1(1) by (auto simp: JoinGroup_def ebind_eq_Inr dest: join_loop_length split: if_splits)
  with "2.IH" [OF c1(2)] show ?case by simp
qed simp

lemma remove_loop_length: "remove_loop rs g c = Inr c' \<Longrightarrow> length (Shards c') = length (Shards c)"
  by (induction rs g c rule: remove_loop.induct) (fastforce simp: Let_def ebind_eq_Inr upd_go_eq_Inr)+

lemma RemoveGroups_length: "RemoveGroups gs c = Inr c' \<Longrightarrow> length (Shards c') = length (Shards c)"
  by (induction gs c rule: RemoveGroups.induct)
     (fastforce simp: Let_def ebind_eq_Inr dest: remove_loop_length split: if_splits)+

lemma reset_pass_length: "length (fst (reset_pass gids s k)) = length s"
  by (induction gids s k rule: reset_pass.induct) (simp_all add: Let_def)

lemma reset_loop_length: "reset_loop gids s k = Some r \<Longrightarrow> length r = length s"
proof (induction rule: reset_loop.raw_induct [rotated 1, consumes 1])
  case (1 f gids s k r)
  obtain s' k' where p: "reset_pass gids s k = (s', k')" by fastforce
  have "length s' = length s" using reset_pass_length [of gids s k] p by simp
  with 1 p show ?case by (fastforce split: if_splits)
qed

lemma ResetShards_length: "ResetShards c = Inr c' \<Longrightarrow> length (Shards c') = length (Shards c)"
  by (auto simp: ResetShards_def dest: reset_loop_length split: option.splits)

section \<open>Properties\<close>

text \<open>
  Joining keeps the assignment balanced. From a valid configuration whose groups'
  loads differ by at most one, \<^verbatim>\<open>JoinGroups\<close> with proper group numbers does not panic and
  gives a valid configuration of the old and new groups whose loads differ by at most one;
  a shard that changes its group goes to a group that was not there before.
\<close>

theorem join_keeps_balance:
  assumes "valid_config c" and "balanced c" and "0 |\<notin>| fmdom G"
  shows "\<exists>c'. JoinGroups G c = Inr c' \<and> valid_config c' \<and> balanced c' \<and> Num c' = Num c \<and>
    fset (fmdom (Groups c')) = fset (fmdom G) \<union> fset (fmdom (Groups c)) \<and>
    moves_into (fset (fmdom G) - fset (fmdom (Groups c))) (Shards c) (Shards c')"
  using join_groups_spec [OF assms(1,2), of "GetSortedKeysOfGroups G" G] assms(3)
  by (simp add: JoinGroups_def)

text \<open>
  Leaving keeps the assignment balanced. From a valid balanced configuration
  \<^verbatim>\<open>RemoveGroups\<close> never panics, for any list of group numbers, and gives a valid balanced
  configuration without these groups; only shards of removed groups change their group, and
  when no group is left every shard is in group 0.
\<close>

theorem leave_keeps_balance:
  assumes "valid_config c" and "balanced c"
  shows "\<exists>c'. RemoveGroups gids c = Inr c' \<and> valid_config c' \<and> balanced c' \<and> Num c' = Num c \<and>
    fset (fmdom (Groups c')) = fset (fmdom (Groups c)) - set gids \<and>
    (\<forall>i < NShards. Shards c ! i \<notin> set gids \<longrightarrow> Shards c' ! i = Shards c ! i)"
  using assms by (rule RemoveGroups_spec)

text \<open>
  The first assignment. With at least one group \<^verbatim>\<open>ResetShards\<close> terminates with the
  shards dealt round robin over the sorted groups, which is valid and balanced; without a
  group its loop never ends.
\<close>

theorem reset_deals_or_hangs:
  assumes "length (Shards c) = NShards" and "0 |\<notin>| fmdom (Groups c)"
  shows "if fmdom (Groups c) = {||} then ResetShards c = Inl NoProgress
    else \<exists>c'. ResetShards c = Inr c' \<and> valid_config c' \<and> balanced c' \<and> Groups c' = Groups c"
  using assms by (rule reset_deals)

text \<open>
  What \<^verbatim>\<open>Move\<close> checks. It panics exactly when the shard number is out of range; the
  configuration stays valid exactly when the target group exists or, without groups, is 0.
\<close>

theorem move_checks_only_the_shard:
  assumes "valid_config c"
  shows "(MoveShard shard gid c = Inl IndexOutOfRange \<longleftrightarrow> \<not> (0 \<le> shard \<and> shard < int NShards)) \<and>
    (0 \<le> shard \<and> shard < int NShards \<longrightarrow> (\<exists>c'. MoveShard shard gid c = Inr c' \<and>
       Shards c' ! nat shard = gid \<and>
       (valid_config c' \<longleftrightarrow> gid |\<in>| fmdom (Groups c) \<or> fmdom (Groups c) = {||} \<and> gid = 0)))"
proof -
  have len: "length (Shards c) = NShards" using assms by (simp add: valid_config_def)
  have "valid_config (c\<lparr>Shards := (Shards c)[nat shard := gid]\<rparr>) \<longleftrightarrow>
      gid |\<in>| fmdom (Groups c) \<or> fmdom (Groups c) = {||} \<and> gid = 0" if "0 \<le> shard" "shard < int NShards"
  proof -
    have "gid \<in> set ((Shards c)[nat shard := gid])" using that len by (intro set_update_memI) simp
    then have key: "set ((Shards c)[nat shard := gid]) \<subseteq> A \<longleftrightarrow> gid \<in> A" if "set (Shards c) \<subseteq> A" for A
      using that set_update_subset_insert [of "Shards c" "nat shard" gid] by blast
    show ?thesis
      using assms by (cases "fmdom (Groups c) = {||}") (simp_all add: valid_config_def key)
  qed
  with len show ?thesis by (auto simp: MoveShard_def upd_go_def nth_list_update)
qed

text \<open>Five groups with two shards each.\<close>

declare reset_loop.simps [code]

definition five_groups :: Config where
  "five_groups = \<lparr>Num = 1, Shards = [1, 2, 3, 4, 5, 1, 2, 3, 4, 5],
     Groups = fmap_of_list [(1, [''a'']), (2, [''b'']), (3, [''c'']), (4, [''d'']), (5, [''e''])]\<rparr>"

lemma five_groups_dom: "fset (fmdom (Groups five_groups)) = {1, 2, 3, 4, 5}"
  by (simp add: five_groups_def)

lemma five_groups_valid: "valid_config five_groups" "balanced five_groups"
proof -
  have "fmdom (Groups five_groups) \<noteq> {||}" using five_groups_dom by auto
  then show "valid_config five_groups"
    using five_groups_dom by (simp add: valid_config_def) (simp add: five_groups_def NShards_def)
  show "balanced five_groups"
    unfolding balanced_def even_on_def five_groups_dom load_count by (simp add: five_groups_def)
qed

theorem join_keeps_balance_witness:
  "\<exists>c'. JoinGroups (fmap_of_list [(6, [''f''])]) five_groups = Inr c' \<and> balanced c' \<and> 6 |\<in>| fmdom (Groups c')"
proof -
  have "0 |\<notin>| fmdom (fmap_of_list [(6 :: int, [''f''])])" by simp
  from join_keeps_balance [OF five_groups_valid this] show ?thesis by auto
qed

theorem leave_keeps_balance_witness:
  "\<exists>c'. RemoveGroups [3, 9] five_groups = Inr c' \<and> balanced c' \<and> fset (fmdom (Groups c')) = {1, 2, 4, 5}"
proof -
  from leave_keeps_balance [OF five_groups_valid, of "[3, 9]"] obtain c' where
    "RemoveGroups [3, 9] five_groups = Inr c'" "balanced c'" "fset (fmdom (Groups c')) = {1, 2, 3, 4, 5} - set [3, 9]"
    unfolding five_groups_dom by blast
  moreover have "{1, 2, 3, 4, 5} - set [3, 9] = {1, 2, 4, 5 :: int}" by auto
  ultimately show ?thesis by auto
qed

theorem reset_deals_or_hangs_witness:
  "ResetShards \<lparr>Num = 0, Shards = replicate NShards 0, Groups = fmempty\<rparr> = Inl NoProgress \<and>
   (\<exists>c'. ResetShards five_groups = Inr c' \<and> balanced c')"
proof -
  have "fmdom (Groups five_groups) \<noteq> {||}" "0 |\<notin>| fmdom (Groups five_groups)" using five_groups_dom by auto
  moreover have "length (Shards five_groups) = NShards" by (simp add: five_groups_def NShards_def)
  ultimately show ?thesis
    using reset_deals_or_hangs [of five_groups]
      reset_deals_or_hangs [of "\<lparr>Num = 0, Shards = replicate NShards 0, Groups = fmempty\<rparr>"] by auto
qed

theorem move_checks_only_the_shard_witness:
  "MoveShard 10 1 five_groups = Inl IndexOutOfRange \<and> (\<exists>c'. MoveShard 0 7 five_groups = Inr c' \<and> \<not> valid_config c')"
proof -
  have "7 |\<notin>| fmdom (Groups five_groups)" "fmdom (Groups five_groups) \<noteq> {||}" using five_groups_dom by auto
  then show ?thesis
    using move_checks_only_the_shard [OF five_groups_valid(1), of 10 1]
      move_checks_only_the_shard [OF five_groups_valid(1), of 0 7] by (auto simp: NShards_def)
qed

text \<open>The number of shards that change their group.\<close>

definition moved :: "int list \<Rightarrow> int list \<Rightarrow> nat" where
  "moved s s' = length (filter (\<lambda>(a, b). a \<noteq> b) (zip s s'))"

text \<open>
  Joining can move more shards than needed. When a sixth group joins five groups with
  two shards each, \<^verbatim>\<open>JoinGroups\<close> moves two shards, although moving one gives a valid and
  balanced assignment of the same groups.
\<close>

theorem join_moves_more_than_needed:
  "\<exists>c' s. JoinGroups (fmap_of_list [(6, [''f''])]) five_groups = Inr c' \<and> moved (Shards five_groups) (Shards c') = 2 \<and>
     moved (Shards five_groups) s = 1 \<and> valid_config (c'\<lparr>Shards := s\<rparr>) \<and> balanced (c'\<lparr>Shards := s\<rparr>)"
proof -
  let ?c = "\<lparr>Num = 1, Shards = [6, 6, 3, 4, 5, 1, 2, 3, 4, 5],
     Groups = fmupd 6 [''f''] (Groups five_groups)\<rparr>" and ?s = "[6, 2, 3, 4, 5, 1, 2, 3, 4, 5] :: int list"
  have "join_loop NShards 0 6 five_groups = Inr (five_groups\<lparr>Shards := Shards ?c\<rparr>)"
    by code_simp
  moreover have "fmlookup (Groups five_groups) 6 = None" by (simp add: five_groups_def)
  moreover have "GetSortedKeysOfGroups (fmap_of_list [(6 :: int, [''f''])]) = [6]" by code_simp
  ultimately have j: "JoinGroups (fmap_of_list [(6, [''f''])]) five_groups = Inr ?c"
    by (simp add: JoinGroups_def JoinGroup_def five_groups_def)
  have dom: "fset (fmdom (Groups ?c)) = {1, 2, 3, 4, 5, 6}" using five_groups_dom by auto
  then have ne: "fmdom (Groups (?c\<lparr>Shards := ?s\<rparr>)) \<noteq> {||}" by auto
  have "valid_config (?c\<lparr>Shards := ?s\<rparr>)"
    using dom ne by (simp add: valid_config_def NShards_def)
  moreover have "balanced (?c\<lparr>Shards := ?s\<rparr>)"
    using dom by (simp add: balanced_def even_on_def load_count)
  moreover have "moved (Shards five_groups) (Shards ?c) = 2" "moved (Shards five_groups) ?s = 1"
    by (simp_all add: moved_def five_groups_def)
  ultimately show ?thesis using j by blast
qed

end
