(* ===== verification/Service.thy ===== *)
theory Service
  imports Go_Prelude "HOL-Library.Sublist"
begin

text \<open>
  What the three replicated services (\<^verbatim>\<open>kvraft\<close>, \<^verbatim>\<open>shardctrler\<close>, \<^verbatim>\<open>shardkv\<close>) share: each
  applies the committed operations in order, skips an operation whose sequence number its
  client status already reached, and (two of them) restores a snapshot. The interfaces are
  locales; each service interprets them on its own definitions.
\<close>

section \<open>Running a list of operations\<close>

fun run_res :: "('op \<Rightarrow> 's \<Rightarrow> 's res) \<Rightarrow> 'op list \<Rightarrow> 's \<Rightarrow> 's res" where
  "run_res f [] s = Inr s"
| "run_res f (x # xs) s = ebind (f x s) (run_res f xs)"

lemma run_res_append: "run_res f (xs @ ys) s = ebind (run_res f xs s) (run_res f ys)"
proof (induction xs arbitrary: s)
  case (Cons x xs)
  then show ?case by (cases "f x s") simp_all
qed simp

lemma run_res_snoc: "run_res f (xs @ [x]) s = ebind (run_res f xs s) (f x)"
  by (cases "run_res f xs s") (simp_all add: run_res_append ebind_def split: sum.splits)

section \<open>Sessions: each request takes effect once\<close>

text \<open>
  The operations that take effect when a list of operations is applied, given the last
  sequence number applied for each client.
\<close>

fun fresh :: "('op \<Rightarrow> int) \<Rightarrow> ('op \<Rightarrow> int) \<Rightarrow> (int \<Rightarrow> int) \<Rightarrow> 'op list \<Rightarrow> 'op list" where
  "fresh seq cid m [] = []"
| "fresh seq cid m (x # xs) =
     (if seq x \<le> m (cid x) then fresh seq cid m xs else x # fresh seq cid (m(cid x := seq x)) xs)"

text \<open>The last sequence numbers after the list.\<close>

fun last_seqs :: "('op \<Rightarrow> int) \<Rightarrow> ('op \<Rightarrow> int) \<Rightarrow> (int \<Rightarrow> int) \<Rightarrow> 'op list \<Rightarrow> int \<Rightarrow> int" where
  "last_seqs seq cid m [] = m"
| "last_seqs seq cid m (x # xs) = last_seqs seq cid (m(cid x := max (m (cid x)) (seq x))) xs"

text \<open>
  A client that has one request outstanding at a time: each request enters the log after
  the earlier ones of its client did. Repetitions may come at any later time.
\<close>

definition in_session_order :: "('op \<Rightarrow> int) \<Rightarrow> ('op \<Rightarrow> int) \<Rightarrow> 'op list \<Rightarrow> bool" where
  "in_session_order seq cid xs \<longleftrightarrow>
     (\<forall>i < length xs. \<forall>j < i. cid (xs ! j) = cid (xs ! i) \<and> seq (xs ! i) < seq (xs ! j) \<longrightarrow>
        (\<exists>k < i. cid (xs ! k) = cid (xs ! i) \<and> seq (xs ! k) = seq (xs ! i)))"

lemma fresh_above: "x \<in> set (fresh seq cid m xs) \<Longrightarrow> m (cid x) < seq x"
  by (induction xs arbitrary: m) (force split: if_splits)+

lemma fresh_subseq: "subseq (fresh seq cid m xs) xs"
  by (induction xs arbitrary: m) (auto split: if_splits)

lemma fresh_set: "set (fresh seq cid m xs) \<subseteq> set xs"
  by (induction xs arbitrary: m) (auto split: if_splits)

lemma fresh_distinct: "distinct (map (\<lambda>x. (cid x, seq x)) (fresh seq cid m xs))"
proof (induction xs arbitrary: m)
  case (Cons x xs)
  have "(cid x, seq x) \<notin> (\<lambda>x. (cid x, seq x)) ` set (fresh seq cid (m(cid x := seq x)) xs)"
    using fresh_above [of _ seq cid "m(cid x := seq x)" xs] by force
  with Cons show ?case by simp
qed simp

lemma last_seqs_mono: "m c \<le> last_seqs seq cid m xs c"
proof (induction xs arbitrary: m)
  case (Cons x xs)
  have "m c \<le> (m(cid x := max (m (cid x)) (seq x))) c" by simp
  also have "\<dots> \<le> last_seqs seq cid (m(cid x := max (m (cid x)) (seq x))) xs c" by (rule Cons)
  finally show ?case by simp
qed simp

lemma last_seqs_ge: "x \<in> set xs \<Longrightarrow> seq x \<le> last_seqs seq cid m xs (cid x)"
proof (induction xs arbitrary: m)
  case (Cons y ys)
  show ?case
  proof (cases "x = y")
    case True
    have "seq x \<le> (m(cid x := max (m (cid x)) (seq x))) (cid x)" by simp
    also have "\<dots> \<le> last_seqs seq cid (m(cid x := max (m (cid x)) (seq x))) ys (cid x)"
      by (rule last_seqs_mono)
    finally show ?thesis using True by simp
  next
    case False
    with Cons show ?thesis by simp
  qed
qed simp

lemma last_seqs_reached:
  "last_seqs seq cid m xs c = m c \<or> (\<exists>x \<in> set xs. cid x = c \<and> seq x = last_seqs seq cid m xs c)"
proof (induction xs arbitrary: m)
  case (Cons x xs)
  define m' where "m' = m(cid x := max (m (cid x)) (seq x))"
  have "last_seqs seq cid m (x # xs) = last_seqs seq cid m' xs" by (simp add: m'_def)
  moreover have "m' c = m c \<or> cid x = c \<and> seq x = m' c" by (auto simp: m'_def max_def)
  ultimately show ?case using Cons [of m'] by auto
qed simp

text \<open>The last number of a client, unless it is the initial one, is that of a command that took effect.\<close>

lemma last_seqs_fresh:
  "last_seqs seq cid m xs c = m c \<or> (\<exists>x \<in> set (fresh seq cid m xs). cid x = c \<and> seq x = last_seqs seq cid m xs c)"
proof (induction xs arbitrary: m)
  case (Cons x xs)
  show ?case
  proof (cases "seq x \<le> m (cid x)")
    case True
    then have "m(cid x := max (m (cid x)) (seq x)) = m" by (simp add: max_absorb1)
    with Cons [of m] True show ?thesis by simp
  next
    case False
    define m' where "m' = m(cid x := seq x)"
    have "m(cid x := max (m (cid x)) (seq x)) = m'" using False by (simp add: m'_def)
    then have e: "last_seqs seq cid m (x # xs) = last_seqs seq cid m' xs"
      "fresh seq cid m (x # xs) = x # fresh seq cid m' xs" using False by (simp_all add: m'_def)
    have "m' c = m c \<or> cid x = c \<and> seq x = m' c" by (simp add: m'_def)
    then show ?thesis unfolding e using Cons [of m'] by auto
  qed
qed simp

lemma fresh_append:
  "fresh seq cid m (xs @ ys) = fresh seq cid m xs @ fresh seq cid (last_seqs seq cid m xs) ys"
proof (induction xs arbitrary: m)
  case (Cons x xs)
  show ?case
  proof (cases "seq x \<le> m (cid x)")
    case True
    then have "m(cid x := max (m (cid x)) (seq x)) = m" by auto
    with True show ?thesis by (simp add: Cons del: fun_upd_apply)
  next
    case False
    then have "max (m (cid x)) (seq x) = seq x" by simp
    with False show ?thesis by (simp add: Cons del: fun_upd_apply)
  qed
qed simp

text \<open>The first occurrence of a request takes effect if the log is in session order.\<close>

lemma first_occurrence:
  assumes "in_session_order seq cid xs" and "i < length xs" and "m (cid (xs ! i)) < seq (xs ! i)"
    and "\<forall>k < i. cid (xs ! k) = cid (xs ! i) \<longrightarrow> seq (xs ! k) \<noteq> seq (xs ! i)"
  shows "last_seqs seq cid m (take i xs) (cid (xs ! i)) < seq (xs ! i)"
proof (rule ccontr)
  assume "\<not> ?thesis"
  with last_seqs_reached [of seq cid m "take i xs" "cid (xs ! i)"] assms(3)
  obtain y where "y \<in> set (take i xs)" "cid y = cid (xs ! i)" "seq (xs ! i) \<le> seq y" by force
  then obtain j where "j < i" "cid (xs ! j) = cid (xs ! i)" "seq (xs ! i) \<le> seq (xs ! j)"
    using assms(2) by (auto simp: in_set_conv_nth)
  with assms(1,2,4) show False unfolding in_session_order_def by (metis order_le_imp_less_or_eq)
qed

lemma fresh_complete:
  assumes "in_session_order seq cid xs" and "x \<in> set xs" and "m (cid x) < seq x"
  shows "(cid x, seq x) \<in> (\<lambda>x. (cid x, seq x)) ` set (fresh seq cid m xs)"
proof -
  let ?P = "\<lambda>i. i < length xs \<and> cid (xs ! i) = cid x \<and> seq (xs ! i) = seq x"
  define i where "i = (LEAST i. ?P i)"
  have "\<exists>i. ?P i" using assms(2) by (auto simp: in_set_conv_nth)
  then have i: "?P i" unfolding i_def by (rule LeastI_ex)
  have "\<forall>k < i. \<not> ?P k" unfolding i_def using not_less_Least by blast
  with i have "\<forall>k < i. cid (xs ! k) = cid (xs ! i) \<longrightarrow> seq (xs ! k) \<noteq> seq (xs ! i)" by auto
  from first_occurrence [OF assms(1) _ _ this] i assms(3)
  have "last_seqs seq cid m (take i xs) (cid (xs ! i)) < seq (xs ! i)" by simp
  moreover have "xs = take i xs @ xs ! i # drop (Suc i) xs" using i id_take_nth_drop by blast
  ultimately have "xs ! i \<in> set (fresh seq cid m xs)"
    by (metis fresh_append fresh.simps(2) not_le Un_iff list.set_intros(1) set_append)
  then have "(cid (xs ! i), seq (xs ! i)) \<in> (\<lambda>x. (cid x, seq x)) ` set (fresh seq cid m xs)" by (rule imageI)
  with i show ?thesis by simp
qed

text \<open>
  The interface: \<^verbatim>\<open>step\<close> applies one operation, \<^verbatim>\<open>effect\<close> is what the operation means for the
  data. The laws are the two branches of the code's test on the client status.
\<close>

locale session_machine =
  fixes seq :: "'op \<Rightarrow> int" and cid :: "'op \<Rightarrow> int"
    and step :: "'op \<Rightarrow> 'st \<Rightarrow> 'st res" and last_seq :: "'st \<Rightarrow> int \<Rightarrow> int"
    and view :: "'st \<Rightarrow> 'd" and effect :: "'op \<Rightarrow> 'd \<Rightarrow> 'd res"
  assumes step_done: "seq x \<le> last_seq s (cid x) \<Longrightarrow>
      \<exists>s'. step x s = Inr s' \<and> view s' = view s \<and> last_seq s' = last_seq s"
    and step_new: "last_seq s (cid x) < seq x \<Longrightarrow> effect x (view s) = Inr d \<Longrightarrow>
      \<exists>s'. step x s = Inr s' \<and> view s' = d \<and> last_seq s' = (last_seq s)(cid x := seq x)"
    and step_fails: "last_seq s (cid x) < seq x \<Longrightarrow> effect x (view s) = Inl e \<Longrightarrow> step x s = Inl e"
begin

lemma step_cases:
  obtains (old) s' where "seq x \<le> last_seq s (cid x)" "step x s = Inr s'" "view s' = view s" "last_seq s' = last_seq s"
  | (new) s' d where "last_seq s (cid x) < seq x" "effect x (view s) = Inr d" "step x s = Inr s'" "view s' = d"
      "last_seq s' = (last_seq s)(cid x := seq x)"
  | (fail) e where "last_seq s (cid x) < seq x" "effect x (view s) = Inl e" "step x s = Inl e"
proof (cases "seq x \<le> last_seq s (cid x)")
  case True
  then show thesis using step_done old by blast
next
  case False
  then show thesis using step_new [of s x] step_fails [of s x] new fail
    by (cases "effect x (view s)") (auto simp: not_le)
qed

lemma exactly_once:
  "case run_res effect (fresh seq cid (last_seq s) xs) (view s) of
     Inl e \<Rightarrow> run_res step xs s = Inl e
   | Inr d \<Rightarrow> \<exists>s'. run_res step xs s = Inr s' \<and> view s' = d \<and> last_seq s' = last_seqs seq cid (last_seq s) xs"
proof (induction xs arbitrary: s)
  case (Cons x xs)
  show ?case
  proof (cases x s rule: step_cases)
    case (old s')
    then have "(last_seq s)(cid x := max (last_seq s (cid x)) (seq x)) = last_seq s" by auto
    with old Cons [of s'] show ?thesis by (simp split: sum.splits)
  next
    case (new s' d)
    have "max (last_seq s (cid x)) (seq x) = seq x" using new(1) by simp
    then have "last_seqs seq cid (last_seq s) (x # xs) = last_seqs seq cid (last_seq s') xs"
      unfolding last_seqs.simps new(5) by simp
    moreover have "fresh seq cid (last_seq s) (x # xs) = x # fresh seq cid (last_seq s') xs"
      using new(1) by (simp add: new(5))
    moreover have "run_res effect (x # ys) (view s) = run_res effect ys (view s')" for ys
      using new by simp
    moreover have "run_res step (x # xs) s = run_res step xs s'" using new by simp
    ultimately show ?thesis using Cons [of s'] by presburger
  next
    case (fail e)
    then show ?thesis by simp
  qed
qed simp

lemma run_view:
  assumes "run_res step xs s = Inr s'"
  shows "run_res effect (fresh seq cid (last_seq s) xs) (view s) = Inr (view s')"
    and "last_seq s' = last_seqs seq cid (last_seq s) xs"
  using exactly_once [of xs s] assms by (auto split: sum.splits)

lemma run_ok:
  assumes "run_res effect (fresh seq cid (last_seq s) xs) (view s) = Inr d"
  shows "\<exists>s'. run_res step xs s = Inr s' \<and> view s' = d \<and> last_seq s' = last_seqs seq cid (last_seq s) xs"
  using exactly_once [of xs s] assms by simp

text \<open>Two replicas that agree before the same operations agree afterwards.\<close>

lemma replicas_agree:
  assumes "view s = view t" and "last_seq s = last_seq t"
    and "run_res step xs s = Inr s'" and "run_res step xs t = Inr t'"
  shows "view s' = view t' \<and> last_seq s' = last_seq t'"
  using run_view [OF assms(3)] run_view [OF assms(4)] assms(1,2) by auto

text \<open>A request that is already applied is ignored however often it is repeated later.\<close>

lemma repeat_ignored:
  assumes "run_res step xs s = Inr s'" and "x \<in> set xs"
  shows "\<exists>s''. step x s' = Inr s'' \<and> view s'' = view s' \<and> last_seq s'' = last_seq s'"
proof -
  have "seq x \<le> last_seq s' (cid x)"
    using run_view(2) [OF assms(1)] last_seqs_ge [OF assms(2)] by simp
  then show ?thesis by (rule step_done)
qed

end

section \<open>Snapshots\<close>

text \<open>
  A session machine with snapshots: restoring the snapshot of a state that is ahead of the
  replica (reached from it by some operations) gives that state.
\<close>

locale snapshot_machine = session_machine seq cid step last_seq view effect
  for seq :: "'op \<Rightarrow> int" and cid and step :: "'op \<Rightarrow> 'st \<Rightarrow> 'st res" and last_seq and view :: "'st \<Rightarrow> 'd" and effect +
  fixes snap :: "int \<Rightarrow> 'st \<Rightarrow> 'b" and restore :: "'b \<Rightarrow> int \<Rightarrow> 'st \<Rightarrow> 'st res"
  assumes restore_snap: "(\<And>c. 0 \<le> last_seq t c \<and> last_seq t c \<le> last_seq s c) \<Longrightarrow>
      \<exists>t'. restore (snap i s) i t = Inr t' \<and> view t' = view s \<and> last_seq t' = last_seq s"
begin

text \<open>
  A lagging replica that jumps to a snapshot and goes on from there ends where a replica
  that applied every operation ends.
\<close>

lemma catch_up:
  assumes "run_res step xs s = Inr s1" and "last_seq t = last_seq s" and "\<And>c. 0 \<le> last_seq s c"
  shows "\<exists>t1. restore (snap i s1) i t = Inr t1 \<and> view t1 = view s1 \<and> last_seq t1 = last_seq s1"
  by (rule restore_snap) (use run_view(2) [OF assms(1)] assms(2,3) last_seqs_mono in metis)

lemma catch_up_and_run:
  assumes "run_res step xs s = Inr s1" and "run_res step ys s1 = Inr s2"
    and "last_seq t = last_seq s" and "\<And>c. 0 \<le> last_seq s c"
  shows "\<exists>t1 t2. restore (snap i s1) i t = Inr t1 \<and> run_res step ys t1 = Inr t2 \<and>
    view t2 = view s2 \<and> last_seq t2 = last_seq s2"
proof -
  obtain t1 where t1: "restore (snap i s1) i t = Inr t1" "view t1 = view s1" "last_seq t1 = last_seq s1"
    using catch_up [OF assms(1,3,4)] by blast
  have "run_res effect (fresh seq cid (last_seq t1) ys) (view t1) = Inr (view s2)"
    using run_view(1) [OF assms(2)] t1 by simp
  from run_ok [OF this] t1 run_view(2) [OF assms(2)] show ?thesis by auto
qed

end

end
