(* ===== verification/Ctrl_Server.thy ===== *)
theory Ctrl_Server
  imports Ctrl_Config Service Raft_Applier
begin

text \<open>
  The shard controller server, \<^verbatim>\<open>src/shardctrler/server.go\<close> and the argument types of
  \<^verbatim>\<open>common.go\<close>, and its clerk \<^verbatim>\<open>client.go\<close>. The server keeps every configuration it ever had,
  indexed by its number, and the last sequence number of each client; it never takes a
  snapshot. A blocked call is an entry of \<^verbatim>\<open>scBlocked\<close>, as in theory \<^verbatim>\<open>KV_Server\<close>.
\<close>

section \<open>Data\<close>

datatype SCErr = SC_OK | SC_WrongLeader

record JoinArgs =
  jaGroups :: groups
  jaSeqNum :: int
  jaClientId :: int

record LeaveArgs =
  laGIDs :: "int list"
  laSeqNum :: int
  laClientId :: int

record MoveArgs =
  maShard :: int
  maGID :: int
  maSeqNum :: int
  maClientId :: int

record QueryArgs =
  qaNum :: int
  qaSeqNum :: int
  qaClientId :: int

text \<open>The \<^verbatim>\<open>Args\<close> of an operation is an interface value of one of the four types.\<close>

datatype sc_args = AJoin JoinArgs | ALeave LeaveArgs | AMove MoveArgs | AQuery QueryArgs

definition JOIN :: string where "JOIN = ''JOIN''"
definition LEAVE :: string where "LEAVE = ''LEAVE''"
definition MOVE :: string where "MOVE = ''MOVE''"
definition QUERY :: string where "QUERY = ''QUERY''"

record SCOp =
  scType :: string
  scArgs :: sc_args

record SCReply =
  srErr :: SCErr

record QueryReply =
  qrErr :: SCErr
  qrConfig :: Config

record SCClientStatus =
  scLastSeqNum :: int

section \<open>The list of configurations\<close>

definition configs_init :: "Config list" where
  "configs_init = [\<lparr>Num = 0, Shards = replicate NShards 0, Groups = fmempty\<rparr>]"

definition configs_append :: "Config \<Rightarrow> Config list \<Rightarrow> Config list" where
  "configs_append config cs = cs @ [config\<lparr>Num := int (length cs)\<rparr>]"

definition getConfig :: "int \<Rightarrow> Config list \<Rightarrow> Config res" where
  "getConfig index cs =
     (if index \<ge> 0 \<and> index < int (length cs) then nth_go cs index else nth_go cs (int (length cs) - 1))"

definition getLatestConfig :: "Config list \<Rightarrow> Config res" where
  "getLatestConfig cs = nth_go cs (int (length cs) - 1)"

section \<open>The server\<close>

record ShardCtrler =
  scMe :: nat
  scRf :: "(SCOp, unit) Raft"
  configs :: "Config list"
  scClients :: "int \<rightharpoonup> SCClientStatus"
  scBlocked :: "(int \<times> int) list"    \<comment> \<open>client and sequence number of each call in \<^verbatim>\<open>Wait\<close>\<close>
  scWoken :: "(int \<times> int) list"

definition sc_done :: "int \<Rightarrow> SCClientStatus \<Rightarrow> bool" where
  "sc_done seqNum cs \<longleftrightarrow> scLastSeqNum cs \<ge> seqNum"

definition sc_getClientStatus :: "int \<Rightarrow> ShardCtrler \<Rightarrow> SCClientStatus \<times> ShardCtrler" where
  "sc_getClientStatus clientId sc =
     (case scClients sc clientId of
        Some cs \<Rightarrow> (cs, sc)
      | None \<Rightarrow> (\<lparr>scLastSeqNum = 0\<rparr>, sc\<lparr>scClients := (scClients sc)(clientId \<mapsto> \<lparr>scLastSeqNum = 0\<rparr>)\<rparr>))"

definition sc_updateSeqNum :: "int \<Rightarrow> int \<Rightarrow> ShardCtrler \<Rightarrow> ShardCtrler" where
  "sc_updateSeqNum clientId seqNum sc =
     sc\<lparr>scClients := (scClients sc)(clientId \<mapsto> \<lparr>scLastSeqNum = seqNum\<rparr>),
        scBlocked := filter (\<lambda>x. fst x \<noteq> clientId) (scBlocked sc),
        scWoken := scWoken sc @ filter (\<lambda>x. fst x = clientId) (scBlocked sc)\<rparr>"

definition sc_operate :: "string \<Rightarrow> int \<Rightarrow> int \<Rightarrow> sc_args \<Rightarrow> ShardCtrler \<Rightarrow> bool option \<times> ShardCtrler" where
  "sc_operate opType clientId seqNum args sc =
     (case sc_getClientStatus clientId sc of (cs, sc1) \<Rightarrow>
      if sc_done seqNum cs then (Some True, sc1)
      else case Start \<lparr>scType = opType, scArgs = args\<rparr> (scRf sc1) of ((_, _, ok), rf) \<Rightarrow>
           if ok then (None, sc1\<lparr>scRf := rf, scBlocked := scBlocked sc1 @ [(clientId, seqNum)]\<rparr>)
           else (Some False, sc1\<lparr>scRf := rf\<rparr>))"

definition sc_operate_resume :: "int \<Rightarrow> int \<Rightarrow> ShardCtrler \<Rightarrow> bool option \<times> ShardCtrler" where
  "sc_operate_resume clientId seqNum sc =
     (case sc_getClientStatus clientId (sc\<lparr>scWoken := remove1 (clientId, seqNum) (scWoken sc)\<rparr>) of (cs, sc1) \<Rightarrow>
      if sc_done seqNum cs then (Some True, sc1)
      else (None, sc1\<lparr>scBlocked := scBlocked sc1 @ [(clientId, seqNum)]\<rparr>))"

definition sc_Join :: "JoinArgs \<Rightarrow> ShardCtrler \<Rightarrow> bool option \<times> ShardCtrler" where
  "sc_Join args sc = sc_operate JOIN (jaClientId args) (jaSeqNum args) (AJoin args) sc"

definition sc_Leave :: "LeaveArgs \<Rightarrow> ShardCtrler \<Rightarrow> bool option \<times> ShardCtrler" where
  "sc_Leave args sc = sc_operate LEAVE (laClientId args) (laSeqNum args) (ALeave args) sc"

definition sc_Move :: "MoveArgs \<Rightarrow> ShardCtrler \<Rightarrow> bool option \<times> ShardCtrler" where
  "sc_Move args sc = sc_operate MOVE (maClientId args) (maSeqNum args) (AMove args) sc"

definition sc_Query :: "QueryArgs \<Rightarrow> ShardCtrler \<Rightarrow> bool option \<times> ShardCtrler" where
  "sc_Query args sc = sc_operate QUERY (qaClientId args) (qaSeqNum args) (AQuery args) sc"

text \<open>What the handlers put into the reply when \<^verbatim>\<open>operate\<close> returns.\<close>

definition sc_reply :: "bool \<Rightarrow> SCReply" where
  "sc_reply isLeader = \<lparr>srErr = (if isLeader then SC_OK else SC_WrongLeader)\<rparr>"

definition sc_query_reply :: "QueryArgs \<Rightarrow> bool \<Rightarrow> ShardCtrler \<Rightarrow> QueryReply res" where
  "sc_query_reply args isLeader sc =
     (if isLeader
      then ebind (getConfig (qaNum args) (configs sc)) (\<lambda>c. Inr \<lparr>qrErr = SC_OK, qrConfig = c\<rparr>)
      else Inr \<lparr>qrErr = SC_WrongLeader, qrConfig = \<lparr>Num = 0, Shards = replicate NShards 0, Groups = fmempty\<rparr>\<rparr>)"

section \<open>Applying\<close>

text \<open>What an operation does to the configurations.\<close>

fun sc_effect :: "sc_args \<Rightarrow> Config list \<Rightarrow> Config list res" where
  "sc_effect (AJoin args) cs =
     ebind (getLatestConfig cs) (\<lambda>latest.
     let config = Clone latest in
     ebind (if Num config = 0 then ResetShards (config\<lparr>Groups := jaGroups args\<rparr>)
            else JoinGroups (jaGroups args) config) (\<lambda>config.
     Inr (configs_append config cs)))"
| "sc_effect (ALeave args) cs =
     ebind (getLatestConfig cs) (\<lambda>latest.
     ebind (RemoveGroups (laGIDs args) (Clone latest)) (\<lambda>config. Inr (configs_append config cs)))"
| "sc_effect (AMove args) cs =
     ebind (getLatestConfig cs) (\<lambda>latest.
     ebind (MoveShard (maShard args) (maGID args) (Clone latest)) (\<lambda>config. Inr (configs_append config cs)))"
| "sc_effect (AQuery args) cs = Inr cs"

fun args_client :: "sc_args \<Rightarrow> int" where
  "args_client (AJoin a) = jaClientId a" | "args_client (ALeave a) = laClientId a"
| "args_client (AMove a) = maClientId a" | "args_client (AQuery a) = qaClientId a"

fun args_seq :: "sc_args \<Rightarrow> int" where
  "args_seq (AJoin a) = jaSeqNum a" | "args_seq (ALeave a) = laSeqNum a"
| "args_seq (AMove a) = maSeqNum a" | "args_seq (AQuery a) = qaSeqNum a"

text \<open>The four cases of the applier's switch have the same shape.\<close>

definition sc_apply_args :: "sc_args \<Rightarrow> ShardCtrler \<Rightarrow> ShardCtrler res" where
  "sc_apply_args args sc =
     (case sc_getClientStatus (args_client args) sc of (cs, sc1) \<Rightarrow>
      if \<not> sc_done (args_seq args) cs
      then ebind (sc_effect args (configs sc1)) (\<lambda>cfgs.
           Inr (sc_updateSeqNum (args_client args) (args_seq args) (sc1\<lparr>configs := cfgs\<rparr>)))
      else Inr sc1)"

fun args_type :: "sc_args \<Rightarrow> string" where
  "args_type (AJoin a) = JOIN" | "args_type (ALeave a) = LEAVE"
| "args_type (AMove a) = MOVE" | "args_type (AQuery a) = QUERY"

text \<open>The switch: a type assertion on the wrong type panics, an unknown type is fatal.\<close>

definition sc_apply_op :: "SCOp \<Rightarrow> ShardCtrler \<Rightarrow> ShardCtrler res" where
  "sc_apply_op x sc =
     (if scType x \<in> {JOIN, LEAVE, MOVE, QUERY}
      then if scType x = args_type (scArgs x) then sc_apply_args (scArgs x) sc else Inl AssertFailed
      else Inl FatalError)"

definition sc_applier :: "(SCOp, unit) ApplyMsg \<Rightarrow> ShardCtrler \<Rightarrow> ShardCtrler res" where
  "sc_applier m sc =
     (if amCommandValid m
      then case amCommand m of None \<Rightarrow> Inl AssertFailed | Some x \<Rightarrow> sc_apply_op x sc
      else Inr sc)"

definition sc_Kill :: "ShardCtrler \<Rightarrow> ShardCtrler" where
  "sc_Kill sc = sc\<lparr>scRf := Kill (scRf sc)\<rparr>"

definition sc_StartServer :: "nat \<Rightarrow> nat \<Rightarrow> (SCOp, unit) Persister \<Rightarrow> int \<Rightarrow> ShardCtrler res" where
  "sc_StartServer n i ps now =
     ebind (Make n i ps now) (\<lambda>rf.
     Inr \<lparr>scMe = i, scRf = rf, configs = configs_init, scClients = Map.empty, scBlocked = [], scWoken = []\<rparr>)"

section \<open>The session contract\<close>

definition scLast :: "ShardCtrler \<Rightarrow> int \<Rightarrow> int" where
  "scLast sc c = (case scClients sc c of Some cs \<Rightarrow> scLastSeqNum cs | None \<Rightarrow> 0)"

lemma sc_getClientStatus_spec:
  assumes "sc_getClientStatus c sc = (cs, sc1)"
  shows "scLastSeqNum cs = scLast sc c" "scLast sc1 = scLast sc" "configs sc1 = configs sc" "scRf sc1 = scRf sc"
    "scBlocked sc1 = scBlocked sc" "scWoken sc1 = scWoken sc"
  using assms
  by (auto simp: sc_getClientStatus_def scLast_def fun_eq_iff split: option.splits if_splits)

lemma scLast_update: "scLast (sc_updateSeqNum c n sc) = (scLast sc)(c := n)"
  by (auto simp: sc_updateSeqNum_def scLast_def fun_eq_iff)

lemma scLast_frame [simp]:
  "scLast (sc\<lparr>configs := x\<rparr>) = scLast sc" "scLast (sc\<lparr>scRf := r\<rparr>) = scLast sc"
  "scLast (sc\<lparr>scBlocked := b\<rparr>) = scLast sc" "scLast (sc\<lparr>scWoken := b\<rparr>) = scLast sc"
  by (simp_all add: scLast_def fun_eq_iff)

lemma configs_update [simp]: "configs (sc_updateSeqNum c n sc) = configs sc"
  by (simp add: sc_updateSeqNum_def)

interpretation ctrl: session_machine args_seq args_client sc_apply_args scLast configs sc_effect
proof unfold_locales
  fix x sc
  obtain cs sc1 where g: "sc_getClientStatus (args_client x) sc = (cs, sc1)" by fastforce
  note s = sc_getClientStatus_spec [OF g]
  show "\<exists>s'. sc_apply_args x sc = Inr s' \<and> configs s' = configs sc \<and> scLast s' = scLast sc"
    if "args_seq x \<le> scLast sc (args_client x)"
    using that s by (simp add: sc_apply_args_def g sc_done_def)
  show "\<exists>s'. sc_apply_args x sc = Inr s' \<and> configs s' = d \<and> scLast s' = (scLast sc)(args_client x := args_seq x)"
    if "scLast sc (args_client x) < args_seq x" "sc_effect x (configs sc) = Inr d" for d
    using that s by (simp add: sc_apply_args_def g sc_done_def scLast_update)
  show "sc_apply_args x sc = Inl e"
    if "scLast sc (args_client x) < args_seq x" "sc_effect x (configs sc) = Inl e" for e
    using that s by (simp add: sc_apply_args_def g sc_done_def)
qed

section \<open>The life of a controller\<close>

definition sc_msg :: "nat \<Rightarrow> sc_args \<Rightarrow> (SCOp, unit) ApplyMsg" where
  "sc_msg n a = \<lparr>amCommandValid = True, amCommand = Some \<lparr>scType = args_type a, scArgs = a\<rparr>, amCommandIndex = int n,
     amSnapshotValid = False, amSnapshot = [], amSnapshotTerm = 0, amSnapshotIndex = 0\<rparr>"

lemma sc_applier_msg [simp]: "sc_applier (sc_msg n a) sc = sc_apply_args a sc"
  by (cases a) (simp_all add: sc_applier_def sc_msg_def sc_apply_op_def)

inductive sc_run :: "sc_args list \<Rightarrow> nat \<Rightarrow> ShardCtrler \<Rightarrow> bool" for log where
  boot: "sc_StartServer np i ps now = Inr sc \<Longrightarrow> sc_run log 0 sc"
| command: "sc_run log n sc \<Longrightarrow> n < length log \<Longrightarrow>
    sc_applier (sc_msg (Suc n) (log ! n)) sc = Inr sc' \<Longrightarrow> sc_run log (Suc n) sc'"
| call: "sc_run log n sc \<Longrightarrow> sc_operate t c q a sc = (res, sc') \<Longrightarrow> sc_run log n sc'"
| resume: "sc_run log n sc \<Longrightarrow> sc_operate_resume c q sc = (res, sc') \<Longrightarrow> sc_run log n sc'"
| raft: "sc_run log n sc \<Longrightarrow> sc_run log n (sc\<lparr>scRf := rf\<rparr>)"

definition sc_fresh :: "sc_args list \<Rightarrow> sc_args list" where
  "sc_fresh xs = fresh args_seq args_client (\<lambda>_. 0) xs"

abbreviation sc_seqs :: "sc_args list \<Rightarrow> int \<Rightarrow> int" where
  "sc_seqs xs \<equiv> last_seqs args_seq args_client (\<lambda>_. 0) xs"

definition sc_inv :: "sc_args list \<Rightarrow> nat \<Rightarrow> ShardCtrler \<Rightarrow> bool" where
  "sc_inv log n sc \<longleftrightarrow> n \<le> length log \<and>
     run_res sc_effect (sc_fresh (take n log)) configs_init = Inr (configs sc) \<and>
     scLast sc = sc_seqs (take n log) \<and>
     (\<forall>x \<in> set (scBlocked sc). scLast sc (fst x) < snd x)"

lemma sc_inv_frame:
  assumes "sc_inv log n sc" and "configs sc' = configs sc" "scLast sc' = scLast sc"
    and "\<forall>x \<in> set (scBlocked sc'). scLast sc (fst x) < snd x"
  shows "sc_inv log n sc'"
  using assms unfolding sc_inv_def by auto

definition sc_zero :: "(SCOp, unit) Raft \<Rightarrow> ShardCtrler" where
  "sc_zero rf = \<lparr>scMe = 0, scRf = rf, configs = configs_init, scClients = Map.empty, scBlocked = [], scWoken = []\<rparr>"

lemma sc_snoc:
  assumes "run_res sc_effect (sc_fresh xs) configs_init = Inr (configs sc)" and "scLast sc = sc_seqs xs"
    and "sc_apply_args x sc = Inr sc'"
  shows "run_res sc_effect (sc_fresh (xs @ [x])) configs_init = Inr (configs sc')" "scLast sc' = sc_seqs (xs @ [x])"
proof -
  let ?e = "sc_zero (scRf sc)"
  have e: "configs ?e = configs_init" "scLast ?e = (\<lambda>_. 0)"
    by (simp_all add: sc_zero_def scLast_def fun_eq_iff)
  have "run_res sc_effect (fresh args_seq args_client (scLast ?e) xs) (configs ?e) = Inr (configs sc)"
    using assms(1) unfolding e sc_fresh_def .
  from ctrl.run_ok [OF this] obtain t where
    t: "run_res sc_apply_args xs ?e = Inr t" "configs t = configs sc" "scLast t = scLast sc"
    unfolding e using assms(2) by auto
  have "sc_effect x (configs sc) = Inr d \<Longrightarrow> \<exists>t'. sc_apply_args x t = Inr t'" for d
    using ctrl.step_new [of t x d] ctrl.step_done [of x t] t(2) by (cases "args_seq x \<le> scLast t (args_client x)") auto
  moreover have "args_seq x \<le> scLast t (args_client x) \<or> (\<exists>d. sc_effect x (configs sc) = Inr d)"
    using assms(3) ctrl.step_fails [of sc x] t(3)
    by (cases "sc_effect x (configs sc)"; cases "args_seq x \<le> scLast sc (args_client x)") (auto simp: not_le)
  ultimately obtain t' where t': "sc_apply_args x t = Inr t'" using ctrl.step_done [of x t] by blast
  then have run: "run_res sc_apply_args (xs @ [x]) ?e = Inr t'" using t(1) by (simp add: run_res_snoc)
  have "configs sc' = configs t' \<and> scLast sc' = scLast t'"
    by (rule ctrl.replicas_agree [of sc t "[x]"]) (use t t' assms(3) in simp_all)
  with ctrl.run_view [OF run] show "run_res sc_effect (sc_fresh (xs @ [x])) configs_init = Inr (configs sc')"
    "scLast sc' = sc_seqs (xs @ [x])"
    unfolding e sc_fresh_def by simp_all
qed

lemma sc_blocked_apply:
  assumes "\<forall>y \<in> set (scBlocked sc). scLast sc (fst y) < snd y" and "sc_apply_args x sc = Inr sc'"
  shows "\<forall>y \<in> set (scBlocked sc'). scLast sc' (fst y) < snd y"
proof -
  obtain cs sc1 where g: "sc_getClientStatus (args_client x) sc = (cs, sc1)" by fastforce
  note s = sc_getClientStatus_spec [OF g]
  show ?thesis
    using assms s
    by (auto simp: sc_apply_args_def g sc_done_def ebind_eq_Inr scLast_update split: if_splits)
       (auto simp: sc_updateSeqNum_def)
qed

lemma sc_run_inv: "sc_run log n sc \<Longrightarrow> sc_inv log n sc"
proof (induction rule: sc_run.induct)
  case (boot np i ps now sc)
  then show ?case
    by (auto simp: sc_StartServer_def ebind_eq_Inr sc_inv_def sc_fresh_def scLast_def fun_eq_iff)
next
  case (command n sc sc')
  have ap: "sc_apply_args (log ! n) sc = Inr sc'" using command.hyps(3) by simp
  have tk: "take (Suc n) log = take n log @ [log ! n]" using command.hyps(2) by (rule take_Suc_conv_app_nth)
  have i: "run_res sc_effect (sc_fresh (take n log)) configs_init = Inr (configs sc)" "scLast sc = sc_seqs (take n log)"
    "\<forall>y \<in> set (scBlocked sc). scLast sc (fst y) < snd y"
    using command.IH unfolding sc_inv_def by blast+
  show ?case
    using sc_snoc [OF i(1,2) ap] sc_blocked_apply [OF i(3) ap] command.hyps(2) unfolding sc_inv_def tk by auto
next
  case (call n sc t c q a res sc')
  obtain cs sc1 where g: "sc_getClientStatus c sc = (cs, sc1)" by fastforce
  note s = sc_getClientStatus_spec [OF g]
  obtain x y ok rf where st: "Start \<lparr>scType = t, scArgs = a\<rparr> (scRf sc) = ((x, y, ok), rf)" by (metis prod.exhaust)
  show ?case
    by (rule sc_inv_frame [OF call.IH])
       (use call.hyps(2) call.IH s in \<open>auto simp: sc_operate_def g st sc_inv_def sc_done_def split: if_splits\<close>)
next
  case (resume n sc c q res sc')
  obtain cs sc1 where g: "sc_getClientStatus c (sc\<lparr>scWoken := remove1 (c, q) (scWoken sc)\<rparr>) = (cs, sc1)" by fastforce
  note s = sc_getClientStatus_spec [OF g]
  show ?case
    by (rule sc_inv_frame [OF resume.IH])
       (use resume.hyps(2) resume.IH s in \<open>auto simp: sc_operate_resume_def g sc_inv_def sc_done_def split: if_splits\<close>)
next
  case (raft n sc rf)
  then show ?case by (intro sc_inv_frame [OF raft.IH]) (auto simp: sc_inv_def)
qed

section \<open>Configurations over time\<close>

text \<open>Every operation keeps the list and adds at most one configuration, numbered by its position.\<close>

definition numbered :: "Config list \<Rightarrow> bool" where
  "numbered cs \<longleftrightarrow> cs \<noteq> [] \<and> (\<forall>i < length cs. Num (cs ! i) = int i)"

lemma getLatestConfig_numbered: "cs \<noteq> [] \<Longrightarrow> getLatestConfig cs = Inr (last cs)"
  by (simp add: getLatestConfig_def nth_go_def last_conv_nth nat_diff_distrib' Suc_leI)

lemma sc_effect_extends:
  assumes "sc_effect x cs = Inr cs'"
  shows "cs' = cs \<or> (\<exists>c. cs' = configs_append c cs)"
  using assms by (cases x) (auto simp: ebind_eq_Inr Let_def)

lemma numbered_append: "numbered cs \<Longrightarrow> numbered (configs_append c cs)"
  by (auto simp: numbered_def configs_append_def nth_append)

lemma sc_effects_extend:
  assumes "run_res sc_effect xs cs = Inr cs'" and "numbered cs"
  shows "numbered cs' \<and> (\<exists>ys. cs' = cs @ ys)"
  using assms
proof (induction xs arbitrary: cs)
  case (Cons x xs)
  then obtain c1 where c1: "sc_effect x cs = Inr c1" "run_res sc_effect xs c1 = Inr cs'" by (auto simp: ebind_eq_Inr)
  from sc_effect_extends [OF c1(1)] have "numbered c1 \<and> (\<exists>ys. c1 = cs @ ys)"
    using Cons.prems(2) numbered_append by (auto simp: configs_append_def)
  with Cons.IH [OF c1(2)] show ?case by auto
qed simp

lemma numbered_init: "numbered configs_init"
  by (simp add: numbered_def configs_init_def)

text \<open>Well-behaved administration: proper group numbers, and groups in the first \<^verbatim>\<open>Join\<close>.\<close>

fun sane :: "sc_args \<Rightarrow> bool" where
  "sane (AJoin a) \<longleftrightarrow> 0 |\<notin>| fmdom (jaGroups a) \<and> fmdom (jaGroups a) \<noteq> {||}"
| "sane (AMove a) \<longleftrightarrow> False"
| "sane _ \<longleftrightarrow> True"

definition good :: "Config \<Rightarrow> bool" where
  "good c \<longleftrightarrow> valid_config c \<and> balanced c"

lemma good_Num [simp]: "good (c\<lparr>Num := n\<rparr>) = good c"
  by (simp add: good_def valid_config_def balanced_def)

lemma Clone_id: "Clone c = c"
  by (simp add: Clone_def)

lemma sc_effect_sane:
  assumes "numbered cs" and "\<forall>c \<in> set cs. good c" and "sane x"
  shows "\<exists>cs'. sc_effect x cs = Inr cs' \<and> (\<forall>c \<in> set cs'. good c)"
proof -
  have ne: "cs \<noteq> []" and lg: "good (last cs)" using assms(1,2) by (auto simp: numbered_def)
  have app: "\<forall>c \<in> set (configs_append c' cs). good c" if "good c'" for c'
    using that assms(2) by (simp add: configs_append_def)
  show ?thesis
  proof (cases x)
    case (AJoin a)
    have "\<exists>c'. (if Num (last cs) = 0 then ResetShards ((last cs)\<lparr>Groups := jaGroups a\<rparr>)
            else JoinGroups (jaGroups a) (last cs)) = Inr c' \<and> good c'"
    proof (cases "Num (last cs) = 0")
      case True
      have "length (Shards (last cs)) = NShards" using lg by (simp add: good_def valid_config_def)
      then show ?thesis
        using True reset_deals [of "(last cs)\<lparr>Groups := jaGroups a\<rparr>"] assms(3) AJoin by (auto simp: good_def)
    next
      case False
      then show ?thesis
        using join_groups_spec [of "last cs" "GetSortedKeysOfGroups (jaGroups a)" "jaGroups a"] lg assms(3) AJoin
        by (auto simp: good_def JoinGroups_def)
    qed
    then obtain c' where c': "(if Num (last cs) = 0 then ResetShards ((last cs)\<lparr>Groups := jaGroups a\<rparr>)
            else JoinGroups (jaGroups a) (last cs)) = Inr c'" "good c'" by blast
    have "sc_effect x cs = Inr (configs_append c' cs)"
      unfolding AJoin sc_effect.simps getLatestConfig_numbered [OF ne] Let_def ebind_Inr Clone_id c'(1) ..
    with app [OF c'(2)] show ?thesis by blast
  next
    case (ALeave a)
    obtain c' where c': "RemoveGroups (laGIDs a) (last cs) = Inr c'" "good c'"
      using RemoveGroups_spec [of "last cs" "laGIDs a"] lg unfolding good_def by blast
    have "sc_effect x cs = Inr (configs_append c' cs)"
      unfolding ALeave sc_effect.simps getLatestConfig_numbered [OF ne] ebind_Inr Clone_id c'(1) ..
    with app [OF c'(2)] show ?thesis by blast
  next
    case (AMove a)
    with assms(3) show ?thesis by simp
  next
    case (AQuery a)
    with assms(2) show ?thesis by simp
  qed
qed

lemma good_init: "\<forall>c \<in> set configs_init. good c"
  by (simp add: configs_init_def good_def valid_config_def balanced_def even_on_def set_replicate_conv_if)

lemma sc_effects_sane:
  assumes "\<forall>x \<in> set xs. sane x" and "numbered cs" and "\<forall>c \<in> set cs. good c"
  shows "\<exists>cs'. run_res sc_effect xs cs = Inr cs' \<and> numbered cs' \<and> (\<forall>c \<in> set cs'. good c)"
  using assms
proof (induction xs arbitrary: cs)
  case (Cons x xs)
  then obtain c1 where c1: "sc_effect x cs = Inr c1" "\<forall>c \<in> set c1. good c" using sc_effect_sane [of cs x] by auto
  have "numbered c1" using sc_effect_extends [OF c1(1)] Cons.prems(2) numbered_append by auto
  with Cons.IH [of c1] Cons.prems(1) c1(2) obtain cs' where
    "run_res sc_effect xs c1 = Inr cs'" "numbered cs'" "\<forall>c \<in> set cs'. good c" by (meson list.set_intros(2))
  with c1(1) show ?case by simp
qed simp

section \<open>Properties\<close>

text \<open>
  C11: The controller executes each administrative request once, in order. The
  configurations of a replica are those of an abstract controller, a list of configurations
  changed by one operation at a time, that executes a subsequence of the committed
  requests: one per client and sequence number, and every request if each client has one
  outstanding at a time. Two replicas with the same number of commands have the same list.
\<close>

theorem ctrl_refines_sequential:
  assumes "sc_run log n sc"
  shows "(\<exists>xs. run_res sc_effect xs configs_init = Inr (configs sc) \<and> subseq xs (take n log) \<and>
      distinct (map (\<lambda>x. (args_client x, args_seq x)) xs) \<and>
      (in_session_order args_seq args_client (take n log) \<longrightarrow>
        (\<forall>x \<in> set (take n log). 0 < args_seq x \<longrightarrow>
           (args_client x, args_seq x) \<in> (\<lambda>x. (args_client x, args_seq x)) ` set xs))) \<and>
    (\<forall>sc'. sc_run log n sc' \<longrightarrow> configs sc' = configs sc)"
proof -
  let ?xs = "sc_fresh (take n log)"
  have eff: "run_res sc_effect ?xs configs_init = Inr (configs sc')" if "sc_run log n sc'" for sc'
    using sc_run_inv [OF that] by (simp add: sc_inv_def)
  have "\<exists>xs. run_res sc_effect xs configs_init = Inr (configs sc) \<and> subseq xs (take n log) \<and>
      distinct (map (\<lambda>x. (args_client x, args_seq x)) xs) \<and>
      (in_session_order args_seq args_client (take n log) \<longrightarrow>
        (\<forall>x \<in> set (take n log). 0 < args_seq x \<longrightarrow>
           (args_client x, args_seq x) \<in> (\<lambda>x. (args_client x, args_seq x)) ` set xs))"
    using eff [OF assms] fresh_subseq fresh_distinct fresh_complete
    by (intro exI [of _ ?xs] conjI impI ballI; unfold sc_fresh_def) blast+
  moreover have "configs sc' = configs sc" if "sc_run log n sc'" for sc'
    using eff [OF that] eff [OF assms] by simp
  ultimately show ?thesis by blast
qed

lemma sc_history:
  assumes "sc_run log n sc" and "sc_run log k sc'" and "n \<le> k"
  shows "numbered (configs sc)" "\<exists>ys. configs sc' = configs sc @ ys"
proof -
  have i: "run_res sc_effect (sc_fresh (take n log)) configs_init = Inr (configs sc)"
    "run_res sc_effect (sc_fresh (take k log)) configs_init = Inr (configs sc')"
    using sc_run_inv [OF assms(1)] sc_run_inv [OF assms(2)] by (simp_all add: sc_inv_def)
  show n: "numbered (configs sc)" using sc_effects_extend [OF i(1) numbered_init] by blast
  obtain d where k: "k = n + d" using assms(3) le_Suc_ex by blast
  obtain ys where "sc_fresh (take k log) = sc_fresh (take n log) @ ys"
    unfolding sc_fresh_def k take_add fresh_append by blast
  with i have "run_res sc_effect ys (configs sc) = Inr (configs sc')" by (simp add: run_res_append)
  from sc_effects_extend [OF this n] show "\<exists>ys. configs sc' = configs sc @ ys" by blast
qed

text \<open>
  Configurations are numbered and never change. A replica's configurations are numbered
  by their position; a replica that has consumed more of the log has the same configurations
  and possibly more. So a query for a number that exists is answered alike by every replica
  at every later time, with a configuration of that number.
\<close>

theorem ctrl_history_immutable:
  assumes "sc_run log n sc" and "sc_run log k sc'" and "n \<le> k"
  shows "(\<exists>ys. configs sc' = configs sc @ ys) \<and>
    (\<forall>q. 0 \<le> q \<and> q < int (length (configs sc)) \<longrightarrow>
      (\<exists>c. getConfig q (configs sc) = Inr c \<and> getConfig q (configs sc') = Inr c \<and> Num c = q))"
proof (intro conjI allI impI)
  show e: "\<exists>ys. configs sc' = configs sc @ ys" by (rule sc_history(2) [OF assms])
  fix q assume q: "0 \<le> q \<and> q < int (length (configs sc))"
  then obtain i where i: "q = int i" "i < length (configs sc)" using zero_le_imp_eq_int by force
  from e obtain ys where ys: "configs sc' = configs sc @ ys" by blast
  have "Num (configs sc ! i) = int i" using sc_history(1) [OF assms] i(2) by (simp add: numbered_def)
  then show "\<exists>c. getConfig q (configs sc) = Inr c \<and> getConfig q (configs sc') = Inr c \<and> Num c = q"
    using i ys by (simp add: getConfig_def nth_go_def nth_append)
qed

lemma sane_configs:
  assumes "\<forall>x \<in> set log. sane x" and "sc_run log n sc"
  shows "(\<forall>c \<in> set (configs sc). good c) \<and>
    (n < length log \<longrightarrow> (\<exists>sc'. sc_applier (sc_msg (Suc n) (log ! n)) sc = Inr sc'))"
proof (intro conjI impI)
  have i: "run_res sc_effect (sc_fresh (take n log)) configs_init = Inr (configs sc)"
    using sc_run_inv [OF assms(2)] by (simp add: sc_inv_def)
  have "set (sc_fresh (take n log)) \<subseteq> set log"
    unfolding sc_fresh_def by (rule order_trans [OF fresh_set set_take_subset])
  then have "\<forall>x \<in> set (sc_fresh (take n log)). sane x" using assms(1) by fast
  from sc_effects_sane [OF this numbered_init good_init] i
  have num: "numbered (configs sc)" and g: "\<forall>c \<in> set (configs sc). good c" by auto
  from g show "\<forall>c \<in> set (configs sc). good c" .
  assume "n < length log"
  then have "sane (log ! n)" using assms(1) by simp
  from sc_effect_sane [OF num g this] obtain cs where "sc_effect (log ! n) (configs sc) = Inr cs" by blast
  then show "\<exists>sc'. sc_applier (sc_msg (Suc n) (log ! n)) sc = Inr sc'"
    using ctrl.step_done [of "log ! n" sc] ctrl.step_new [of sc "log ! n"]
    by (cases "args_seq (log ! n) \<le> scLast sc (args_client (log ! n))") auto
qed

text \<open>A controller that has just started.\<close>

definition sc_boot :: ShardCtrler where
  "sc_boot = \<lparr>scMe = 0, scRf = boot_node 3 0, configs = configs_init, scClients = Map.empty, scBlocked = [], scWoken = []\<rparr>"

lemma sc_boot_run: "sc_run log 0 sc_boot"
  by (rule sc_run.boot [of 3 0 MakePersister 0]) (simp add: sc_StartServer_def Make_boot sc_boot_def)

lemma sane_run:
  assumes "\<forall>x \<in> set log. sane x" and "n \<le> length log"
  shows "\<exists>sc. sc_run log n sc"
  using assms(2)
proof (induction n)
  case 0
  show ?case using sc_boot_run by blast
next
  case (Suc n)
  then obtain sc where "sc_run log n sc" by auto
  then show ?case using sane_configs [OF assms(1), of n sc] Suc.prems sc_run.command by fastforce
qed

text \<open>
  C21: Well-behaved administration keeps the service balanced. If the log holds no
  \<^verbatim>\<open>Move\<close>, and every \<^verbatim>\<open>Join\<close> names at least one group and not group 0, then every
  configuration of every replica assigns each shard to an existing group (all to group 0
  when there is none) with loads that differ by at most one, and applying the next command
  never panics or loops.
\<close>

theorem ctrl_balanced_while_sane:
  assumes "\<forall>x \<in> set log. sane x" and "sc_run log n sc"
  shows "(\<forall>c \<in> set (configs sc). valid_config c \<and> balanced c) \<and>
    (n < length log \<longrightarrow> (\<exists>sc'. sc_applier (sc_msg (Suc n) (log ! n)) sc = Inr sc'))"
  using sane_configs [OF assms] unfolding good_def .

text \<open>Two requests of an administrator that a controller accepts and cannot execute.\<close>

definition move_unknown :: sc_args where
  "move_unknown = AMove \<lparr>maShard = 3, maGID = 5, maSeqNum = 1, maClientId = 9\<rparr>"

definition join_five :: sc_args where
  "join_five = AJoin \<lparr>jaGroups = fmap_of_list [(5, [''s''])], jaSeqNum = 2, jaClientId = 9\<rparr>"

definition join_none :: sc_args where
  "join_none = AJoin \<lparr>jaGroups = fmempty, jaSeqNum = 1, jaClientId = 9\<rparr>"

lemma move_unknown_ok:
  "sc_effect move_unknown configs_init = Inr (configs_init @ [\<lparr>Num = 1, Shards = (replicate NShards 0)[3 := 5], Groups = fmempty\<rparr>])"
  by code_simp

lemma sc_run_stops:
  assumes "sc_run log n sc" and "run_res sc_effect (sc_fresh xs) configs_init = Inl e" and "log = xs @ ys"
  shows "n < length xs"
proof (rule ccontr)
  assume "\<not> n < length xs"
  then have "take n log = xs @ take (n - length xs) ys" using assms(3) by simp
  then obtain zs where "sc_fresh (take n log) = sc_fresh xs @ zs" by (simp add: sc_fresh_def fresh_append)
  then have "run_res sc_effect (sc_fresh (take n log)) configs_init = Inl e"
    using assms(2) by (simp add: run_res_append)
  with sc_run_inv [OF assms(1)] show False by (simp add: sc_inv_def)
qed

lemma sc_effect_shards:
  assumes "sc_effect x cs = Inr cs'" and "cs \<noteq> []" and "\<forall>c \<in> set cs. length (Shards c) = NShards"
  shows "\<forall>c \<in> set cs'. length (Shards c) = NShards"
proof -
  have l: "length (Shards (last cs)) = NShards" using assms(2,3) by simp
  have "cs' = cs \<or> (\<exists>c. cs' = configs_append c cs \<and> length (Shards c) = NShards)"
    using assms(1,2) l
    by (cases x) (auto simp: ebind_eq_Inr Let_def getLatestConfig_numbered Clone_id JoinGroups_def MoveShard_def upd_go_eq_Inr
        dest: join_groups_length RemoveGroups_length ResetShards_length split: if_splits)
  then show ?thesis using assms(3) by (auto simp: configs_append_def)
qed

lemma sc_effects_shards:
  "run_res sc_effect xs cs = Inr cs' \<Longrightarrow> numbered cs \<Longrightarrow> \<forall>c \<in> set cs. length (Shards c) = NShards \<Longrightarrow>
   \<forall>c \<in> set cs'. length (Shards c) = NShards"
proof (induction xs arbitrary: cs)
  case (Cons x xs)
  then obtain c1 where c1: "sc_effect x cs = Inr c1" "run_res sc_effect xs c1 = Inr cs'" by (auto simp: ebind_eq_Inr)
  have "numbered c1" using sc_effect_extends [OF c1(1)] Cons.prems(2) numbered_append by auto
  then show ?case
    using Cons.IH [OF c1(2)] sc_effect_shards [OF c1(1)] Cons.prems by (auto simp: numbered_def)
qed simp

lemma sc_run_configs:
  assumes "sc_run log n sc"
  shows "numbered (configs sc)" "\<forall>c \<in> set (configs sc). length (Shards c) = NShards"
proof -
  have r: "run_res sc_effect (sc_fresh (take n log)) configs_init = Inr (configs sc)"
    using sc_run_inv [OF assms] by (simp add: sc_inv_def)
  from sc_effects_extend [OF r numbered_init] show "numbered (configs sc)" by simp
  have "\<forall>c \<in> set configs_init. length (Shards c) = NShards" by (simp add: configs_init_def)
  from sc_effects_shards [OF r numbered_init this]
  show "\<forall>c \<in> set (configs sc). length (Shards c) = NShards" .
qed

text \<open>A request that fails once is never passed: every replica of every life fails on it.\<close>

lemma sc_request_fatal:
  assumes run: "sc_run log n sc" and n: "n < length log" and new: "scLast sc (args_client (log ! n)) < args_seq (log ! n)"
    and e: "sc_effect (log ! n) (configs sc) = Inl e"
  shows "sc_applier (sc_msg (Suc n) (log ! n)) sc = Inl e" "\<forall>k sc'. sc_run log k sc' \<longrightarrow> k \<le> n"
proof -
  show "sc_applier (sc_msg (Suc n) (log ! n)) sc = Inl e" using ctrl.step_fails [OF new e] by simp
  note tk = take_Suc_conv_app_nth [OF n]
  have i: "run_res sc_effect (sc_fresh (take n log)) configs_init = Inr (configs sc)" "scLast sc = sc_seqs (take n log)"
    using sc_run_inv [OF run] by (simp_all add: sc_inv_def)
  have "sc_fresh (take (Suc n) log) = sc_fresh (take n log) @ [log ! n]"
    using new i(2) by (simp add: tk sc_fresh_def fresh_append)
  then have "run_res sc_effect (sc_fresh (take (Suc n) log)) configs_init = Inl e"
    using i(1) e by (simp add: run_res_append)
  then have "k < Suc n" if "sc_run log k sc'" for k sc'
    using sc_run_stops [OF that, of "take (Suc n) log" e "drop (Suc n) log"] n by simp
  then show "\<forall>k sc'. sc_run log k sc' \<longrightarrow> k \<le> n" by (auto simp: less_Suc_eq_le)
qed

lemma join_without_groups:
  assumes "numbered cs" and "\<forall>c \<in> set cs. length (Shards c) = NShards" and "Groups (last cs) = fmempty"
  shows "Num (last cs) = 0 \<Longrightarrow> jaGroups args = fmempty \<Longrightarrow> sc_effect (AJoin args) cs = Inl NoProgress"
    and "Num (last cs) \<noteq> 0 \<Longrightarrow> GetSortedKeysOfGroups (jaGroups args) = g # gs \<Longrightarrow> g \<noteq> 0 \<Longrightarrow> g \<in> set (Shards (last cs)) \<Longrightarrow>
      set (Shards (last cs)) \<subseteq> {g, 0} \<Longrightarrow> sc_effect (AJoin args) cs = Inl IndexOutOfRange"
proof -
  have ne: "cs \<noteq> []" using assms(1) by (simp add: numbered_def)
  then have len: "length (Shards (last cs)) = NShards" using assms(2) by simp
  show "sc_effect (AJoin args) cs = Inl NoProgress" if "Num (last cs) = 0" "jaGroups args = fmempty"
    using reset_deals [of "(last cs)\<lparr>Groups := fmempty\<rparr>"] that len ne
    by (simp add: getLatestConfig_numbered Clone_id)
  show "sc_effect (AJoin args) cs = Inl IndexOutOfRange"
    if "Num (last cs) \<noteq> 0" "GetSortedKeysOfGroups (jaGroups args) = g # gs" "g \<noteq> 0" "g \<in> set (Shards (last cs))"
      "set (Shards (last cs)) \<subseteq> {g, 0}"
    using JoinGroups_panics [OF _ that(3,5,4) len that(2)] assms(3) that(1) ne
    by (simp add: getLatestConfig_numbered Clone_id)
qed

text \<open>
  C37: Requests that stop the controller for good. Let a replica be about to apply a new
  \<^verbatim>\<open>Join\<close> while its latest configuration has no group. If that is the initial configuration and
  the request names no group, then \<^verbatim>\<open>ResetShards\<close> never ends. If it is a later one in which
  every shard belongs to group 0 or to \<^verbatim>\<open>g\<close>, and \<^verbatim>\<open>g\<close> (which a \<^verbatim>\<open>Move\<close> may have named) has a
  shard and is the least group of the request, then \<^verbatim>\<open>JoinGroups\<close> panics. Since the request is
  in the replicated log, no replica of any life (a restart replays the log) ever gets past
  it, whatever follows.
\<close>

theorem ctrl_poisonous_requests:
  assumes "sc_run log n sc" and "n < length log" and "log ! n = AJoin args"
    and "scLast sc (jaClientId args) < jaSeqNum args" and "Groups (last (configs sc)) = fmempty"
    and "Num (last (configs sc)) = 0 \<and> jaGroups args = fmempty \<and> e = NoProgress \<or>
      Num (last (configs sc)) \<noteq> 0 \<and> GetSortedKeysOfGroups (jaGroups args) = g # gs \<and> g \<noteq> 0 \<and>
      g \<in> set (Shards (last (configs sc))) \<and> set (Shards (last (configs sc))) \<subseteq> {g, 0} \<and> e = IndexOutOfRange"
  shows "sc_applier (sc_msg (Suc n) (AJoin args)) sc = Inl e \<and> (\<forall>k sc'. sc_run log k sc' \<longrightarrow> k \<le> n)"
proof -
  have "sc_effect (log ! n) (configs sc) = Inl e"
    using join_without_groups [OF sc_run_configs [OF assms(1)] assms(5)] assms(3,6) by auto
  from sc_request_fatal [OF assms(1,2) _ this] assms(3,4) show ?thesis by simp
qed

lemma sc_sample_run: "\<exists>sc. sc_run (move_unknown # log) 1 sc \<and> length (configs sc) = 2"
proof -
  have "scLast sc_boot (args_client move_unknown) < args_seq move_unknown"
    by (simp add: scLast_def sc_boot_def move_unknown_def)
  from ctrl.step_new [OF this] move_unknown_ok obtain sc where
    "sc_applier (sc_msg (Suc 0) ((move_unknown # log) ! 0)) sc_boot = Inr sc" "length (configs sc) = 2"
    by (force simp: sc_boot_def configs_init_def)
  with sc_run.command [OF sc_boot_run, of "move_unknown # log" sc] show ?thesis by auto
qed

theorem ctrl_refines_sequential_witness:
  "\<exists>sc xs. sc_run [move_unknown] 1 sc \<and> run_res sc_effect xs configs_init = Inr (configs sc) \<and> subseq xs [move_unknown] \<and>
     (9, 1) \<in> (\<lambda>x. (args_client x, args_seq x)) ` set xs"
proof -
  obtain sc where run: "sc_run [move_unknown] 1 sc" using sc_sample_run by blast
  have tk: "take 1 [move_unknown] = [move_unknown]" by simp
  have so: "in_session_order args_seq args_client [move_unknown]" by (simp add: in_session_order_def)
  have m: "args_client move_unknown = 9" "args_seq move_unknown = 1" by (simp_all add: move_unknown_def)
  obtain xs where "run_res sc_effect xs configs_init = Inr (configs sc)" "subseq xs [move_unknown]"
    "\<forall>x \<in> set [move_unknown]. 0 < args_seq x \<longrightarrow> (args_client x, args_seq x) \<in> (\<lambda>x. (args_client x, args_seq x)) ` set xs"
    using ctrl_refines_sequential [OF run] so unfolding tk by blast
  with run m show ?thesis by (intro exI [of _ sc] exI [of _ xs]) (simp del: image_iff)
qed

theorem ctrl_history_immutable_witness:
  "\<exists>sc. sc_run [move_unknown] 1 sc \<and> (\<exists>c. getConfig 0 configs_init = Inr c \<and> getConfig 0 (configs sc) = Inr c \<and> Num c = 0)"
proof -
  obtain sc where run: "sc_run [move_unknown] 1 sc" using sc_sample_run by blast
  have "configs sc_boot = configs_init" "length configs_init = 1" by (simp_all add: sc_boot_def configs_init_def)
  with ctrl_history_immutable [OF sc_boot_run run] run show ?thesis by auto
qed

theorem ctrl_balanced_while_sane_witness:
  "\<exists>sc'. sc_applier (sc_msg 1 join_five) sc_boot = Inr sc'"
proof -
  have "\<forall>x \<in> set [join_five]. sane x" by (simp add: join_five_def)
  from ctrl_balanced_while_sane [OF this sc_boot_run] show ?thesis by simp
qed

theorem ctrl_poisonous_requests_witness:
  "sc_run [join_none] 0 sc_boot \<and> sc_applier (sc_msg 1 join_none) sc_boot = Inl NoProgress \<and>
   (\<exists>sc. sc_run [move_unknown, join_five] 1 sc \<and> sc_applier (sc_msg 2 join_five) sc = Inl IndexOutOfRange \<and>
     (\<forall>k sc'. sc_run [move_unknown, join_five] k sc' \<longrightarrow> k \<le> 1))"
proof -
  let ?none = "\<lparr>jaGroups = fmempty, jaSeqNum = 1, jaClientId = 9\<rparr>"
  let ?five = "\<lparr>jaGroups = fmap_of_list [(5, [''s''])], jaSeqNum = 2, jaClientId = 9\<rparr>"
  have boot: "configs sc_boot = configs_init" "scLast sc_boot 9 = 0" by (simp_all add: sc_boot_def scLast_def)
  have one: "sc_applier (sc_msg 1 join_none) sc_boot = Inl NoProgress"
    using ctrl_poisonous_requests [OF sc_boot_run, of "[join_none]" ?none NoProgress] boot
    by (simp add: join_none_def configs_init_def)
  obtain sc where run: "sc_run [move_unknown, join_five] 1 sc" using sc_sample_run by blast
  have "sc_fresh [move_unknown] = [move_unknown]" by (simp add: sc_fresh_def move_unknown_def)
  then have c: "Inr (configs sc) = sc_effect move_unknown configs_init" "scLast sc 9 = 1"
    using sc_run_inv [OF run] unfolding sc_inv_def by (auto simp: move_unknown_def ebind_def split: sum.splits)
  have l: "last (configs sc) = \<lparr>Num = 1, Shards = (replicate NShards 0)[3 := 5], Groups = fmempty\<rparr>"
    using c(1) move_unknown_ok by simp
  have sh: "set ((replicate NShards 0)[3 := 5 :: int]) = {5, 0}" by (simp add: NShards_def numeral_eq_Suc insert_commute)
  have ks: "GetSortedKeysOfGroups (fmap_of_list [(5 :: int, [''s''])]) = [5]" by code_simp
  have ks': "GetSortedKeysOfGroups (fmupd (5 :: int) [''s''] fmempty) = [5]" using ks by simp
  have "sc_applier (sc_msg (Suc 1) (AJoin ?five)) sc = Inl IndexOutOfRange \<and>
    (\<forall>k sc'. sc_run [move_unknown, join_five] k sc' \<longrightarrow> k \<le> 1)"
    using ctrl_poisonous_requests [OF run, of ?five IndexOutOfRange 5 "[]"] c(2)
    by (simp add: l sh ks' join_five_def)
  with one run sc_boot_run show ?thesis by (auto simp: join_five_def numeral_2_eq_2)
qed

end
