(* ===== verification/KV_Server.thy ===== *)
theory KV_Server
  imports Service Raft_Applier
begin

text \<open>
  The fault-tolerant key/value server, \<^verbatim>\<open>src/kvraft/server.go\<close> and \<^verbatim>\<open>common.go\<close>, on top of
  the Raft peer. A handler goroutine that waits for its operation is an entry of
  \<^verbatim>\<open>blocked\<close>; the broadcast of \<^verbatim>\<open>updateSeqNum\<close> moves it to \<^verbatim>\<open>woken\<close>, from where it
  rechecks its condition. A snapshot is the list of the values encoded into it.

  \<^verbatim>\<open>kv_run\<close> is the life of one replica over a committed log: boot, commands in order,
  snapshots taken by other replicas, client calls at any time. That all replicas receive
  the same log in order is Raft's contract.
\<close>

section \<open>Data\<close>

definition PUT :: string where "PUT = ''Put''"
definition APPEND :: string where "APPEND = ''Append''"
definition GET :: string where "GET = ''Get''"

datatype Err = OK | ErrNoKey | ErrWrongLeader

record PutAppendArgs =
  paKey :: string
  paValue :: string
  paOp :: string
  paSeqNum :: int
  paClientId :: int

record PutAppendReply =
  paErr :: Err

record GetArgs =
  gaKey :: string
  gaSeqNum :: int
  gaClientId :: int

record GetReply =
  grErr :: Err
  grValue :: string

record Op =
  opType :: string
  opKey :: string
  opValue :: string
  opSeqNum :: int
  opClientId :: int

record ClientStatus =
  lastSeqNum :: int

record Store =
  kvData :: "string \<rightharpoonup> string"

datatype ktok = KInt int | KStore "string \<rightharpoonup> string" | KSeqs "int \<rightharpoonup> int"

record KVServer =
  kvMe :: nat
  kvRf :: "(Op, ktok) Raft"
  kvDead :: int
  maxraftstate :: int
  kvStore :: Store
  clientsStatus :: "int \<rightharpoonup> ClientStatus"
  blocked :: "Op list"
  woken :: "Op list"

section \<open>Client status\<close>

definition cs_init :: ClientStatus where
  "cs_init = \<lparr>lastSeqNum = 0\<rparr>"

definition cs_done :: "int \<Rightarrow> ClientStatus \<Rightarrow> bool" where
  "cs_done seqNum cs \<longleftrightarrow> lastSeqNum cs \<ge> seqNum"

definition updateSeqNum :: "int \<Rightarrow> int \<Rightarrow> KVServer \<Rightarrow> KVServer" where
  "updateSeqNum clientId seqNum kv =
     kv\<lparr>clientsStatus := (clientsStatus kv)(clientId \<mapsto> \<lparr>lastSeqNum = seqNum\<rparr>),
        blocked := filter (\<lambda>x. opClientId x \<noteq> clientId) (blocked kv),
        woken := woken kv @ filter (\<lambda>x. opClientId x = clientId) (blocked kv)\<rparr>"

definition getClientStatus :: "int \<Rightarrow> KVServer \<Rightarrow> ClientStatus \<times> KVServer" where
  "getClientStatus clientId kv =
     (case clientsStatus kv clientId of
        Some cs \<Rightarrow> (cs, kv)
      | None \<Rightarrow> (cs_init, kv\<lparr>clientsStatus := (clientsStatus kv)(clientId \<mapsto> cs_init)\<rparr>))"

definition clientsSeqNum :: "KVServer \<Rightarrow> int \<rightharpoonup> int" where
  "clientsSeqNum kv = (\<lambda>c. map_option lastSeqNum (clientsStatus kv c))"

section \<open>Store\<close>

definition store_init :: Store where
  "store_init = \<lparr>kvData = Map.empty\<rparr>"

definition setData :: "(string \<rightharpoonup> string) \<Rightarrow> Store \<Rightarrow> Store" where
  "setData d s = s\<lparr>kvData := d\<rparr>"

definition cloneData :: "Store \<Rightarrow> string \<rightharpoonup> string" where
  "cloneData s = kvData s"

text \<open>\<^verbatim>\<open>get\<close> returns the zero value, the empty string, for a missing key.\<close>

definition store_get :: "string \<Rightarrow> Store \<Rightarrow> string \<times> bool" where
  "store_get key s = (case kvData s key of Some v \<Rightarrow> (v, True) | None \<Rightarrow> ('''', False))"

definition store_put :: "string \<Rightarrow> string \<Rightarrow> Store \<Rightarrow> Store" where
  "store_put key val s = s\<lparr>kvData := (kvData s)(key \<mapsto> val)\<rparr>"

definition store_append :: "string \<Rightarrow> string \<Rightarrow> Store \<Rightarrow> Store" where
  "store_append key val s =
     (case kvData s key of
        Some v \<Rightarrow> s\<lparr>kvData := (kvData s)(key \<mapsto> v @ val)\<rparr>
      | None \<Rightarrow> s\<lparr>kvData := (kvData s)(key \<mapsto> val)\<rparr>)"

section \<open>Client operations\<close>

text \<open>
  \<^verbatim>\<open>operate\<close> up to its return or its first \<^verbatim>\<open>Wait\<close> (\<^verbatim>\<open>None\<close>), and what a woken call does.
\<close>

definition operate :: "Op \<Rightarrow> KVServer \<Rightarrow> bool option \<times> KVServer" where
  "operate x kv =
     (case getClientStatus (opClientId x) kv of (cs, kv1) \<Rightarrow>
      if cs_done (opSeqNum x) cs then (Some True, kv1)
      else case Start x (kvRf kv1) of ((_, _, ok), rf) \<Rightarrow>
           if ok then (None, kv1\<lparr>kvRf := rf, blocked := blocked kv1 @ [x]\<rparr>)
           else (Some False, kv1\<lparr>kvRf := rf\<rparr>))"

definition operate_resume :: "Op \<Rightarrow> KVServer \<Rightarrow> bool option \<times> KVServer" where
  "operate_resume x kv =
     (case getClientStatus (opClientId x) (kv\<lparr>woken := remove1 x (woken kv)\<rparr>) of (cs, kv1) \<Rightarrow>
      if cs_done (opSeqNum x) cs then (Some True, kv1)
      else (None, kv1\<lparr>blocked := blocked kv1 @ [x]\<rparr>))"

definition Get_op :: "GetArgs \<Rightarrow> Op" where
  "Get_op args = \<lparr>opType = GET, opKey = gaKey args, opValue = '''', opSeqNum = gaSeqNum args,
     opClientId = gaClientId args\<rparr>"

definition Get_reply :: "GetArgs \<Rightarrow> bool \<Rightarrow> KVServer \<Rightarrow> GetReply" where
  "Get_reply args isLeader kv =
     (if isLeader then \<lparr>grErr = OK, grValue = fst (store_get (gaKey args) (kvStore kv))\<rparr>
      else \<lparr>grErr = ErrWrongLeader, grValue = ''''\<rparr>)"

definition PutAppend_op :: "PutAppendArgs \<Rightarrow> Op" where
  "PutAppend_op args = \<lparr>opType = paOp args, opKey = paKey args, opValue = paValue args,
     opSeqNum = paSeqNum args, opClientId = paClientId args\<rparr>"

definition PutAppend_reply :: "bool \<Rightarrow> PutAppendReply" where
  "PutAppend_reply isLeader = \<lparr>paErr = (if isLeader then OK else ErrWrongLeader)\<rparr>"

section \<open>Applying\<close>

definition applyOp :: "Op \<Rightarrow> KVServer \<Rightarrow> KVServer" where
  "applyOp x kv =
     (case getClientStatus (opClientId x) kv of (cs, kv1) \<Rightarrow>
      if \<not> cs_done (opSeqNum x) cs
      then let kv2 = (if opType x = PUT then kv1\<lparr>kvStore := store_put (opKey x) (opValue x) (kvStore kv1)\<rparr>
                      else if opType x = APPEND
                      then kv1\<lparr>kvStore := store_append (opKey x) (opValue x) (kvStore kv1)\<rparr>
                      else kv1)
           in updateSeqNum (opClientId x) (opSeqNum x) kv2
      else kv1)"

definition snapshotBytes :: "int \<Rightarrow> KVServer \<Rightarrow> ktok list" where
  "snapshotBytes logIndex kv = [KInt logIndex, KStore (kvData (kvStore kv)), KSeqs (clientsSeqNum kv)]"

definition kv_snapshot :: "int \<Rightarrow> KVServer \<Rightarrow> KVServer res" where
  "kv_snapshot logIndex kv =
     ebind (Snapshot logIndex (snapshotBytes logIndex kv) (kvRf kv)) (\<lambda>rf. Inr (kv\<lparr>kvRf := rf\<rparr>))"

text \<open>
  The loop of \<^verbatim>\<open>applySnap\<close> over the decoded map sets the status of each of its clients;
  the order does not matter, so it is written for all of them at once.
\<close>

definition restoreClients :: "(int \<rightharpoonup> int) \<Rightarrow> KVServer \<Rightarrow> KVServer" where
  "restoreClients seqs kv =
     kv\<lparr>clientsStatus := (\<lambda>c. case seqs c of Some n \<Rightarrow> Some \<lparr>lastSeqNum = n\<rparr> | None \<Rightarrow> clientsStatus kv c),
        blocked := filter (\<lambda>x. seqs (opClientId x) = None) (blocked kv),
        woken := woken kv @ filter (\<lambda>x. seqs (opClientId x) \<noteq> None) (blocked kv)\<rparr>"

fun applySnap :: "ktok list \<Rightarrow> int \<Rightarrow> KVServer \<Rightarrow> KVServer res" where
  "applySnap (KInt lastIncludedIndex # KStore d # KSeqs seqs # rest) index kv =
     (if index \<noteq> - 1 \<and> index \<noteq> lastIncludedIndex then Inl FatalError
      else Inr (restoreClients seqs (kv\<lparr>kvStore := setData d (kvStore kv)\<rparr>)))"
| "applySnap _ index kv = Inl FatalError"

text \<open>One turn of the applier; \<^verbatim>\<open>sz\<close> is the encoded size of a value of Raft's state.\<close>

definition kv_applier :: "(Op ptok \<Rightarrow> nat) \<Rightarrow> (Op, ktok) ApplyMsg \<Rightarrow> KVServer \<Rightarrow> KVServer res" where
  "kv_applier sz m kv =
     (if amSnapshotValid m then applySnap (amSnapshot m) (amSnapshotIndex m) kv
      else if amCommandValid m
      then case amCommand m of
             None \<Rightarrow> Inl AssertFailed
           | Some x \<Rightarrow>
               let kv1 = applyOp x kv in
               if maxraftstate kv1 > 0 \<and> RaftStateSize sz (persister (kvRf kv1)) \<ge> maxraftstate kv1
               then kv_snapshot (amCommandIndex m) kv1 else Inr kv1
      else Inr kv)"

definition KV_Kill :: "KVServer \<Rightarrow> KVServer" where
  "KV_Kill kv = kv\<lparr>kvDead := 1, kvRf := Kill (kvRf kv)\<rparr>"

definition kv_killed :: "KVServer \<Rightarrow> bool" where
  "kv_killed kv \<longleftrightarrow> kvDead kv = 1"

definition StartKVServer :: "nat \<Rightarrow> nat \<Rightarrow> (Op, ktok) Persister \<Rightarrow> int \<Rightarrow> int \<Rightarrow> KVServer res" where
  "StartKVServer n i ps maxstate now =
     ebind (Make n i ps now) (\<lambda>rf.
     Inr \<lparr>kvMe = i, kvRf = rf, kvDead = 0, maxraftstate = maxstate, kvStore = store_init,
          clientsStatus = Map.empty, blocked = [], woken = []\<rparr>)"

section \<open>The session contract\<close>

definition lastSeq :: "KVServer \<Rightarrow> int \<Rightarrow> int" where
  "lastSeq kv c = (case clientsStatus kv c of Some cs \<Rightarrow> lastSeqNum cs | None \<Rightarrow> 0)"

abbreviation kv_data :: "KVServer \<Rightarrow> string \<rightharpoonup> string" where
  "kv_data kv \<equiv> kvData (kvStore kv)"

text \<open>
  What an operation means: \<^verbatim>\<open>Put\<close> overwrites, \<^verbatim>\<open>Append\<close> extends (a missing key counts as
  empty), \<^verbatim>\<open>Get\<close> changes nothing.
\<close>

definition kv_effect :: "Op \<Rightarrow> (string \<rightharpoonup> string) \<Rightarrow> string \<rightharpoonup> string" where
  "kv_effect x d =
     (if opType x = PUT then d(opKey x \<mapsto> opValue x)
      else if opType x = APPEND
      then d(opKey x \<mapsto> (case d (opKey x) of Some v \<Rightarrow> v | None \<Rightarrow> '''') @ opValue x)
      else d)"

lemma getClientStatus_spec:
  assumes "getClientStatus c kv = (cs, kv1)"
  shows "lastSeqNum cs = lastSeq kv c" "lastSeq kv1 = lastSeq kv" "kvStore kv1 = kvStore kv" "kvRf kv1 = kvRf kv"
    "blocked kv1 = blocked kv" "woken kv1 = woken kv" "maxraftstate kv1 = maxraftstate kv"
  using assms
  by (auto simp: getClientStatus_def lastSeq_def fun_eq_iff cs_init_def split: option.splits if_splits)

lemma lastSeq_updateSeqNum: "lastSeq (updateSeqNum c n kv) = (lastSeq kv)(c := n)"
  by (auto simp: updateSeqNum_def lastSeq_def fun_eq_iff)

lemma kvStore_updateSeqNum [simp]: "kvStore (updateSeqNum c n kv) = kvStore kv"
  by (simp add: updateSeqNum_def)

lemma applyOp_old:
  assumes "opSeqNum x \<le> lastSeq kv (opClientId x)"
  shows "kv_data (applyOp x kv) = kv_data kv" "lastSeq (applyOp x kv) = lastSeq kv"
  using assms
  by (auto simp: applyOp_def cs_done_def getClientStatus_spec split: prod.splits)

lemma lastSeq_store [simp]: "lastSeq (kv\<lparr>kvStore := s\<rparr>) = lastSeq kv"
  by (simp add: lastSeq_def fun_eq_iff)

lemma applyOp_new:
  assumes "lastSeq kv (opClientId x) < opSeqNum x"
  shows "kv_data (applyOp x kv) = kv_effect x (kv_data kv)"
    "lastSeq (applyOp x kv) = (lastSeq kv)(opClientId x := opSeqNum x)"
proof -
  obtain cs kv1 where g: "getClientStatus (opClientId x) kv = (cs, kv1)" by fastforce
  note s = getClientStatus_spec [OF g]
  show "kv_data (applyOp x kv) = kv_effect x (kv_data kv)"
    using assms s
    by (auto simp: applyOp_def g cs_done_def Let_def store_put_def store_append_def kv_effect_def split: option.splits)
  show "lastSeq (applyOp x kv) = (lastSeq kv)(opClientId x := opSeqNum x)"
    using assms s by (auto simp: applyOp_def g cs_done_def Let_def lastSeq_updateSeqNum)
qed

lemma lastSeq_restoreClients:
  "lastSeq (restoreClients m kv) c = (case m c of Some n \<Rightarrow> n | None \<Rightarrow> lastSeq kv c)"
  by (simp add: restoreClients_def lastSeq_def split: option.splits)

lemma applySnap_snapshotBytes:
  "applySnap (snapshotBytes i s) i t =
     Inr (restoreClients (clientsSeqNum s) (t\<lparr>kvStore := setData (kv_data s) (kvStore t)\<rparr>))"
  by (simp add: snapshotBytes_def)

lemma applySnap_restores:
  assumes "\<And>c. 0 \<le> lastSeq t c \<and> lastSeq t c \<le> lastSeq s c"
  shows "\<exists>t'. applySnap (snapshotBytes i s) i t = Inr t' \<and> kv_data t' = kv_data s \<and> lastSeq t' = lastSeq s"
proof -
  let ?t = "restoreClients (clientsSeqNum s) (t\<lparr>kvStore := setData (kv_data s) (kvStore t)\<rparr>)"
  have "lastSeq ?t c = lastSeq s c" for c
    using assms [of c]
    unfolding lastSeq_restoreClients by (auto simp: clientsSeqNum_def lastSeq_def split: option.splits)
  moreover have "kv_data ?t = kv_data s" by (simp add: restoreClients_def setData_def)
  ultimately show ?thesis unfolding applySnap_snapshotBytes by (auto simp: fun_eq_iff)
qed

interpretation kvs: snapshot_machine opSeqNum opClientId "\<lambda>x kv. Inr (applyOp x kv)" lastSeq kv_data
  "\<lambda>x d. Inr (kv_effect x d)" snapshotBytes applySnap
proof unfold_locales
  fix x :: Op and kv assume "opSeqNum x \<le> lastSeq kv (opClientId x)"
  then show "\<exists>s'. Inr (applyOp x kv) = Inr s' \<and> kv_data s' = kv_data kv \<and> lastSeq s' = lastSeq kv"
    by (auto simp: applyOp_old)
next
  fix kv d and x :: Op assume "lastSeq kv (opClientId x) < opSeqNum x" "Inr (kv_effect x (kv_data kv)) = Inr d"
  then show "\<exists>s'. Inr (applyOp x kv) = Inr s' \<and> kv_data s' = d \<and> lastSeq s' = (lastSeq kv)(opClientId x := opSeqNum x)"
    by (auto simp: applyOp_new)
next
  fix t s i assume "\<And>c. 0 \<le> lastSeq t c \<and> lastSeq t c \<le> lastSeq s c"
  then show "\<exists>t'. applySnap (snapshotBytes i s) i t = Inr t' \<and> kv_data t' = kv_data s \<and> lastSeq t' = lastSeq s"
    by (rule applySnap_restores)
qed simp

section \<open>The life of a replica\<close>

definition command_msg :: "nat \<Rightarrow> Op \<Rightarrow> (Op, ktok) ApplyMsg" where
  "command_msg n x = \<lparr>amCommandValid = True, amCommand = Some x, amCommandIndex = int n,
     amSnapshotValid = False, amSnapshot = [], amSnapshotTerm = 0, amSnapshotIndex = 0\<rparr>"

definition snap_msg :: "nat \<Rightarrow> int \<Rightarrow> ktok list \<Rightarrow> (Op, ktok) ApplyMsg" where
  "snap_msg k t b = \<lparr>amCommandValid = False, amCommand = None, amCommandIndex = 0,
     amSnapshotValid = True, amSnapshot = b, amSnapshotTerm = t, amSnapshotIndex = int k\<rparr>"

text \<open>
  \<^verbatim>\<open>kv_run sz log n kv\<close>: the replica \<^verbatim>\<open>kv\<close> has consumed the first \<^verbatim>\<open>n\<close> commands of the
  committed log, directly or through a snapshot that some replica took at that index.
\<close>

inductive kv_run :: "(Op ptok \<Rightarrow> nat) \<Rightarrow> Op list \<Rightarrow> nat \<Rightarrow> KVServer \<Rightarrow> bool" for sz log where
  boot: "StartKVServer np i ps mx now = Inr kv \<Longrightarrow> kv_run sz log 0 kv"
| command: "kv_run sz log n kv \<Longrightarrow> n < length log \<Longrightarrow>
    kv_applier sz (command_msg (Suc n) (log ! n)) kv = Inr kv' \<Longrightarrow> kv_run sz log (Suc n) kv'"
| install: "kv_run sz log n kv \<Longrightarrow> kv_run sz log k kv0 \<Longrightarrow> n \<le> k \<Longrightarrow>
    kv_applier sz (snap_msg k t (snapshotBytes (int k) kv0)) kv = Inr kv' \<Longrightarrow> kv_run sz log k kv'"
| call: "kv_run sz log n kv \<Longrightarrow> operate x kv = (res, kv') \<Longrightarrow> kv_run sz log n kv'"
| resume: "kv_run sz log n kv \<Longrightarrow> x \<in> set (woken kv) \<Longrightarrow> operate_resume x kv = (res, kv') \<Longrightarrow> kv_run sz log n kv'"
| raft: "kv_run sz log n kv \<Longrightarrow> kv_run sz log n (kv\<lparr>kvRf := rf\<rparr>)"
| kill: "kv_run sz log n kv \<Longrightarrow> kv_run sz log n (KV_Kill kv)"

text \<open>What a replica holds is determined by the log: the effects of the fresh operations, in order.\<close>

definition kv_state :: "Op list \<Rightarrow> string \<rightharpoonup> string" where
  "kv_state xs = fold kv_effect (fresh opSeqNum opClientId (\<lambda>_. 0) xs) Map.empty"

abbreviation kv_seqs :: "Op list \<Rightarrow> int \<Rightarrow> int" where
  "kv_seqs xs \<equiv> last_seqs opSeqNum opClientId (\<lambda>_. 0) xs"

definition kv_inv :: "Op list \<Rightarrow> nat \<Rightarrow> KVServer \<Rightarrow> bool" where
  "kv_inv log n kv \<longleftrightarrow> n \<le> length log \<and> kv_data kv = kv_state (take n log) \<and> lastSeq kv = kv_seqs (take n log) \<and>
     (\<forall>x \<in> set (blocked kv). lastSeq kv (opClientId x) < opSeqNum x)"

lemma kv_invD:
  assumes "kv_inv log n kv"
  shows "n \<le> length log" "kv_data kv = kv_state (take n log)" "lastSeq kv = kv_seqs (take n log)"
    "\<forall>x \<in> set (blocked kv). lastSeq kv (opClientId x) < opSeqNum x"
  using assms unfolding kv_inv_def by blast+

lemma kv_inv_frame:
  assumes "kv_inv log n kv" and "kvStore kv' = kvStore kv" "clientsStatus kv' = clientsStatus kv" "blocked kv' = blocked kv"
  shows "kv_inv log n kv'"
proof -
  have "lastSeq kv' = lastSeq kv" using assms(3) by (simp add: lastSeq_def fun_eq_iff)
  with assms show ?thesis unfolding kv_inv_def by auto
qed

lemma run_res_Inr: "run_res (\<lambda>x s. Inr (f x s)) xs s = Inr (fold f xs s)"
  by (induction xs arbitrary: s) simp_all

lemma kv_snoc:
  assumes "kv_data kv = kv_state xs" and "lastSeq kv = kv_seqs xs"
  shows "kv_data (applyOp x kv) = kv_state (xs @ [x])" "lastSeq (applyOp x kv) = kv_seqs (xs @ [x])"
proof -
  let ?e = "\<lparr>kvMe = 0, kvRf = kvRf kv, kvDead = 0, maxraftstate = 0, kvStore = store_init,
          clientsStatus = Map.empty, blocked = [], woken = []\<rparr>"
  have e: "kv_data ?e = Map.empty" "lastSeq ?e = (\<lambda>_. 0)"
    by (simp_all add: store_init_def lastSeq_def fun_eq_iff)
  have all: "kv_data (fold applyOp ys ?e) = kv_state ys \<and> lastSeq (fold applyOp ys ?e) = kv_seqs ys" for ys
    using kvs.run_view [of ys ?e "fold applyOp ys ?e"]
    unfolding e run_res_Inr by (simp add: kv_state_def)
  have "kv_data (applyOp x kv) = kv_data (applyOp x (fold applyOp xs ?e)) \<and>
      lastSeq (applyOp x kv) = lastSeq (applyOp x (fold applyOp xs ?e))"
    by (rule kvs.replicas_agree [of kv "fold applyOp xs ?e" "[x]"]) (use all [of xs] assms in simp_all)
  then show "kv_data (applyOp x kv) = kv_state (xs @ [x])" "lastSeq (applyOp x kv) = kv_seqs (xs @ [x])"
    using all [of "xs @ [x]"] by simp_all
qed

lemma blocked_updateSeqNum: "blocked (updateSeqNum c n kv) = filter (\<lambda>x. opClientId x \<noteq> c) (blocked kv)"
  by (simp add: updateSeqNum_def)

lemma blocked_applyOp:
  assumes "\<forall>y \<in> set (blocked kv). lastSeq kv (opClientId y) < opSeqNum y"
  shows "\<forall>y \<in> set (blocked (applyOp x kv)). lastSeq (applyOp x kv) (opClientId y) < opSeqNum y"
proof -
  obtain cs kv1 where g: "getClientStatus (opClientId x) kv = (cs, kv1)" by fastforce
  note s = getClientStatus_spec [OF g]
  show ?thesis
    using assms s
    by (auto simp: applyOp_def g cs_done_def Let_def lastSeq_updateSeqNum blocked_updateSeqNum)
qed

lemma lastSeq_kvRf [simp]: "lastSeq (kv\<lparr>kvRf := rf\<rparr>) = lastSeq kv"
  by (simp add: lastSeq_def fun_eq_iff)

lemma lastSeq_blocked [simp]: "lastSeq (kv\<lparr>blocked := b\<rparr>) = lastSeq kv" "lastSeq (kv\<lparr>woken := w\<rparr>) = lastSeq kv"
  by (simp_all add: lastSeq_def fun_eq_iff)

lemma kv_applier_command:
  assumes "kv_applier sz (command_msg n x) kv = Inr kv'"
  shows "\<exists>rf. kv' = (applyOp x kv)\<lparr>kvRf := rf\<rparr>"
proof -
  have "kv_snapshot i kv1 = Inr kv' \<Longrightarrow> \<exists>rf. kv' = kv1\<lparr>kvRf := rf\<rparr>" for i kv1
    by (auto simp: kv_snapshot_def ebind_eq_Inr)
  moreover have "\<exists>rf. kv1 = kv1\<lparr>kvRf := rf\<rparr>" for kv1 :: KVServer
    by (rule exI [of _ "kvRf kv1"]) simp
  ultimately show ?thesis
    using assms by (auto simp: kv_applier_def command_msg_def Let_def split: if_splits)
qed

lemma kv_seqs_take_mono: "n \<le> k \<Longrightarrow> kv_seqs (take n log) c \<le> kv_seqs (take k log) c"
proof -
  assume "n \<le> k"
  then obtain d where k: "k = n + d" using le_Suc_ex by blast
  have "last_seqs opSeqNum opClientId m (xs @ ys) = last_seqs opSeqNum opClientId (last_seqs opSeqNum opClientId m xs) ys"
    for m and xs ys :: "Op list" by (induction xs arbitrary: m) simp_all
  with k last_seqs_mono show ?thesis by (simp add: take_add)
qed

lemma kv_inv_operate:
  assumes "kv_inv log n kv" and "operate x kv = (res, kv')"
  shows "kv_inv log n kv'"
proof -
  obtain cs kv1 where g: "getClientStatus (opClientId x) kv = (cs, kv1)" by fastforce
  note s = getClientStatus_spec [OF g]
  obtain a b ok rf where st: "Start x (kvRf kv) = ((a, b, ok), rf)" by (metis prod.exhaust)
  show ?thesis
    using assms s
    by (auto simp: operate_def g st kv_inv_def cs_done_def split: if_splits)
qed

lemma kv_inv_resume:
  assumes "kv_inv log n kv" and "operate_resume x kv = (res, kv')"
  shows "kv_inv log n kv'"
proof -
  obtain cs kv1 where g: "getClientStatus (opClientId x) (kv\<lparr>woken := remove1 x (woken kv)\<rparr>) = (cs, kv1)" by fastforce
  note s = getClientStatus_spec [OF g]
  show ?thesis
    using assms s by (auto simp: operate_resume_def g kv_inv_def cs_done_def split: if_splits)
qed

lemma kv_inv_install:
  assumes t: "kv_inv log n kv" and s: "kv_inv log k kv0" and le: "n \<le> k"
    and ap: "applySnap (snapshotBytes (int k) kv0) (int k) kv = Inr kv'"
  shows "kv_inv log k kv'"
proof -
  have pos: "0 \<le> lastSeq kv c \<and> lastSeq kv c \<le> lastSeq kv0 c" for c
    using t s kv_seqs_take_mono [OF le, of log c] last_seqs_mono [of "\<lambda>_. 0" c opSeqNum opClientId "take n log"]
    by (simp add: kv_inv_def)
  from applySnap_restores [OF pos, of "int k"] ap
  have d: "kv_data kv' = kv_data kv0" "lastSeq kv' = lastSeq kv0" by auto
  have "lastSeq kv' (opClientId x) < opSeqNum x" if "x \<in> set (blocked kv')" for x
  proof -
    have "x \<in> set (blocked kv)" "clientsStatus kv0 (opClientId x) = None"
      using that ap unfolding applySnap_snapshotBytes by (auto simp: restoreClients_def clientsSeqNum_def)
    then have "lastSeq kv0 (opClientId x) = 0" and "lastSeq kv (opClientId x) < opSeqNum x"
      using kv_invD(4) [OF t] by (simp add: lastSeq_def [of kv0], blast)
    with pos [of "opClientId x"] show ?thesis unfolding d(2) by linarith
  qed
  with s d show ?thesis by (simp add: kv_inv_def)
qed

lemma kv_run_inv: "kv_run sz log n kv \<Longrightarrow> kv_inv log n kv"
proof (induction rule: kv_run.induct)
  case (boot np i ps mx now kv)
  then show ?case
    by (auto simp: StartKVServer_def ebind_eq_Inr kv_inv_def kv_state_def store_init_def lastSeq_def fun_eq_iff)
next
  case (command n kv kv')
  then obtain rf where kv': "kv' = (applyOp (log ! n) kv)\<lparr>kvRf := rf\<rparr>"
    using kv_applier_command by blast
  have tk: "take (Suc n) log = take n log @ [log ! n]" using command.hyps(2) by (rule take_Suc_conv_app_nth)
  have d: "kv_data kv = kv_state (take n log)" "lastSeq kv = kv_seqs (take n log)"
    using kv_invD [OF command.IH] by blast+
  have "\<forall>y \<in> set (blocked (applyOp (log ! n) kv)). lastSeq (applyOp (log ! n) kv) (opClientId y) < opSeqNum y"
    by (rule blocked_applyOp [OF kv_invD(4) [OF command.IH]])
  with command.hyps(2) kv_snoc [OF d, of "log ! n"] show ?case
    by (simp add: kv_inv_def kv' tk)
next
  case (install n kv k kv0 t kv')
  then show ?case by (auto intro: kv_inv_install simp: kv_applier_def snap_msg_def)
next
  case (raft n kv rf)
  show ?case by (rule kv_inv_frame [OF raft.IH]) simp_all
next
  case (kill n kv)
  show ?case by (rule kv_inv_frame [OF kill.IH]) (simp_all add: KV_Kill_def)
qed (auto intro: kv_inv_operate kv_inv_resume)

section \<open>Properties\<close>

text \<open>
  C5: Each request takes effect exactly once. In every life of a replica its data is what
  the committed commands it consumed mean, with every repetition of a request left out: the
  commands that take effect come in the order of the log, one per request (client and
  sequence number), and if each client has one request outstanding at a time no request is
  missing.
\<close>

theorem kv_exactly_once:
  assumes "kv_run sz log n kv"
  shows "\<exists>xs. kv_data kv = fold kv_effect xs Map.empty \<and> subseq xs (take n log) \<and>
    distinct (map (\<lambda>x. (opClientId x, opSeqNum x)) xs) \<and>
    (in_session_order opSeqNum opClientId (take n log) \<longrightarrow>
      (\<forall>x \<in> set (take n log). 0 < opSeqNum x \<longrightarrow>
         (opClientId x, opSeqNum x) \<in> (\<lambda>x. (opClientId x, opSeqNum x)) ` set xs))"
proof -
  let ?xs = "fresh opSeqNum opClientId (\<lambda>_. 0) (take n log)"
  have "kv_data kv = fold kv_effect ?xs Map.empty"
    using kv_invD(2) [OF kv_run_inv [OF assms]] by (simp add: kv_state_def)
  then show ?thesis
    using fresh_subseq fresh_distinct fresh_complete
    by (intro exI [of _ ?xs] conjI impI ballI) blast+
qed

text \<open>
  Replicas agree. Two replicas that consumed the same number of commands of the log,
  one command by command and the other through snapshots, with calls of clients in any
  order in between, hold the same data and the same sequence number for every client; so they
  answer every \<^verbatim>\<open>Get\<close> alike.
\<close>

theorem kv_replicas_agree:
  assumes "kv_run sz log n kv" and "kv_run sz' log n kv'"
  shows "kv_data kv = kv_data kv' \<and> lastSeq kv = lastSeq kv' \<and>
    Get_reply args True kv = Get_reply args True kv'"
  using kv_invD [OF kv_run_inv [OF assms(1)]] kv_invD [OF kv_run_inv [OF assms(2)]]
  by (simp add: Get_reply_def store_get_def)

text \<open>
  C29: Calls neither hang nor return early. A call blocked in its condition variable waits
  for an operation that is not applied yet: as soon as the replica has applied an operation
  of the same client with this or a later sequence number, the call is awake. When a call
  returns as leader, an operation of its client with this or a later number is among the
  consumed commands whose effects make up the replica's data; and if the client has sent
  nothing newer (it has one call at a time), that operation is the call's own request.
\<close>

theorem kv_calls_complete:
  assumes run: "kv_run sz log n kv"
  shows "(\<forall>x \<in> set (blocked kv). \<forall>y \<in> set (take n log). opClientId y = opClientId x \<longrightarrow> opSeqNum y < opSeqNum x) \<and>
    (\<exists>xs. kv_data kv = fold kv_effect xs Map.empty \<and> subseq xs (take n log) \<and>
      (\<forall>x kv'. operate x kv = (Some True, kv') \<or> operate_resume x kv = (Some True, kv') \<longrightarrow> 0 < opSeqNum x \<longrightarrow>
         (\<exists>y \<in> set xs. opClientId y = opClientId x \<and> opSeqNum x \<le> opSeqNum y \<and>
            ((\<forall>z \<in> set (take n log). opClientId z = opClientId x \<longrightarrow> opSeqNum z \<le> opSeqNum x) \<longrightarrow>
               opSeqNum y = opSeqNum x))))"
proof (intro conjI ballI allI impI exI)
  note inv = kv_invD [OF kv_run_inv [OF run]]
  let ?xs = "fresh opSeqNum opClientId (\<lambda>_. 0) (take n log)"
  show "opSeqNum y < opSeqNum x"
    if "x \<in> set (blocked kv)" "y \<in> set (take n log)" "opClientId y = opClientId x" for x y
    using inv(3,4) that last_seqs_ge [OF that(2), of opSeqNum opClientId "\<lambda>_. 0"] by force
  show "kv_data kv = fold kv_effect ?xs Map.empty" using inv(2) by (simp add: kv_state_def)
  show sub: "subseq ?xs (take n log)" by (rule fresh_subseq)
  fix x kv'
  assume ret: "operate x kv = (Some True, kv') \<or> operate_resume x kv = (Some True, kv')" and pos: "0 < opSeqNum x"
  from ret have "opSeqNum x \<le> lastSeq kv (opClientId x)"
    by (auto simp: operate_def operate_resume_def cs_done_def getClientStatus_spec split: prod.splits if_splits)
  then have "opSeqNum x \<le> kv_seqs (take n log) (opClientId x)" by (simp add: inv(3))
  with last_seqs_fresh [of opSeqNum opClientId "\<lambda>_. 0" "take n log" "opClientId x"] pos
  obtain y where y: "y \<in> set ?xs" "opClientId y = opClientId x" "opSeqNum x \<le> opSeqNum y" by force
  moreover have "y \<in> set (take n log)" using y(1) sub by (meson subseq_order.trans subseq_singleton_left)
  ultimately show "\<exists>y \<in> set ?xs. opClientId y = opClientId x \<and> opSeqNum x \<le> opSeqNum y \<and>
      ((\<forall>z \<in> set (take n log). opClientId z = opClientId x \<longrightarrow> opSeqNum z \<le> opSeqNum x) \<longrightarrow> opSeqNum y = opSeqNum x)"
    by force
qed

text \<open>
  The price of one sequence number per client. If a later request of a client is
  applied first (two calls on one clerk at a time), the earlier one is never applied, yet
  its call returns success at once. A clerk must therefore be used by one caller at a time.
\<close>

theorem kv_overtaken_request_dropped:
  assumes "opClientId x = opClientId y" and "opSeqNum x \<le> opSeqNum y"
  shows "kv_data (applyOp x (applyOp y kv)) = kv_data (applyOp y kv) \<and>
    fst (operate x (applyOp y kv)) = Some True"
proof -
  have "opSeqNum x \<le> lastSeq (applyOp y kv) (opClientId x)"
    using assms applyOp_old(2) [of y kv] applyOp_new(2) [of kv y]
    by (cases "opSeqNum y \<le> lastSeq kv (opClientId y)") auto
  moreover obtain cs kv1 where g: "getClientStatus (opClientId x) (applyOp y kv) = (cs, kv1)" by fastforce
  ultimately show ?thesis
    using getClientStatus_spec [OF g] by (simp add: applyOp_old operate_def g cs_done_def)
qed

text \<open>A replica without snapshots whose log holds an \<^verbatim>\<open>Append\<close> twice, as after a retry.\<close>

definition append_x :: Op where
  "append_x = \<lparr>opType = APPEND, opKey = ''k'', opValue = ''x'', opSeqNum = 1, opClientId = 7\<rparr>"

definition kv_boot :: KVServer where
  "kv_boot = \<lparr>kvMe = 0, kvRf = boot_node 3 0, kvDead = 0, maxraftstate = - 1, kvStore = store_init,
     clientsStatus = Map.empty, blocked = [], woken = []\<rparr>"

lemma kv_boot_run: "kv_run sz log 0 kv_boot"
  by (rule kv_run.boot [of 3 0 MakePersister "- 1" 0]) (simp add: StartKVServer_def Make_boot kv_boot_def)

lemma kv_retry_run:
  "kv_run sz [append_x, append_x] 2 (applyOp append_x (applyOp append_x kv_boot))"
proof -
  have mx: "maxraftstate (applyOp x kv) = maxraftstate kv" for x kv
    by (auto simp: applyOp_def Let_def getClientStatus_spec updateSeqNum_def split: prod.splits)
  have one: "kv_applier sz (command_msg n x) kv = Inr (applyOp x kv)" if "maxraftstate kv = - 1" for n x kv
    using that by (simp add: kv_applier_def command_msg_def Let_def mx)
  have b: "maxraftstate kv_boot = - 1" by (simp add: kv_boot_def)
  have "kv_run sz [append_x, append_x] (Suc 0) (applyOp append_x kv_boot)"
    by (rule kv_run.command [OF kv_boot_run]) (simp_all add: one b)
  then have "kv_run sz [append_x, append_x] (Suc (Suc 0)) (applyOp append_x (applyOp append_x kv_boot))"
    by (rule kv_run.command) (simp_all add: one mx b)
  then show ?thesis by (simp add: numeral_2_eq_2)
qed

theorem kv_exactly_once_witness:
  "\<exists>xs. kv_data (applyOp append_x (applyOp append_x kv_boot)) = fold kv_effect xs Map.empty \<and>
     distinct (map (\<lambda>x. (opClientId x, opSeqNum x)) xs) \<and>
     (7, 1) \<in> (\<lambda>x. (opClientId x, opSeqNum x)) ` set xs \<and> subseq xs [append_x, append_x]"
proof -
  have "in_session_order opSeqNum opClientId [append_x, append_x]"
    by (auto simp: in_session_order_def nth_Cons')
  moreover have "0 < opSeqNum append_x" "opClientId append_x = 7" "opSeqNum append_x = 1"
    by (simp_all add: append_x_def)
  ultimately show ?thesis
    using kv_exactly_once [OF kv_retry_run [of "\<lambda>_. 0"]] by (fastforce simp: take_Suc)
qed

theorem kv_replicas_agree_witness:
  "kv_data (applyOp append_x (applyOp append_x kv_boot)) =
   kv_data (KV_Kill (applyOp append_x (applyOp append_x kv_boot)))"
  using kv_replicas_agree [OF kv_retry_run [of "\<lambda>_. 0"] kv_run.kill [OF kv_retry_run [of "\<lambda>_. 0"]]]
  by blast

theorem kv_calls_complete_witness:
  "\<exists>kv. kv_run (\<lambda>_. 0) [append_x] 0 kv \<and> blocked kv = [append_x] \<and>
     (\<forall>y \<in> set (take 0 [append_x]). opClientId y = 7 \<longrightarrow> opSeqNum y < 1) \<and>
   (\<exists>kv xs y kv'. kv_run (\<lambda>_. 0) [append_x, append_x] 2 kv \<and> operate append_x kv = (Some True, kv') \<and>
      kv_data kv = fold kv_effect xs Map.empty \<and> y \<in> set xs \<and> opClientId y = 7 \<and> opSeqNum y = 1)"
proof -
  let ?kv0 = "kv_boot\<lparr>kvRf := (boot_node 3 0)\<lparr>role := LEADER\<rparr>\<rparr>"
  have r0: "kv_run (\<lambda>_. 0) [append_x] 0 ?kv0" by (rule kv_run.raft [OF kv_boot_run])
  obtain kv where kv: "operate append_x ?kv0 = (None, kv)" "blocked kv = [append_x]"
    by (simp add: operate_def getClientStatus_def kv_boot_def append_x_def cs_init_def cs_done_def
        Start_def boot_node_def Let_def raft_defs)
  have r1: "kv_run (\<lambda>_. 0) [append_x] 0 kv" by (rule kv_run.call [OF r0 kv(1)])
  let ?kv2 = "applyOp append_x (applyOp append_x kv_boot)"
  note r2 = kv_retry_run [of "\<lambda>_. 0"]
  have l2: "take 2 [append_x, append_x] = [append_x, append_x]" by simp
  have x: "opClientId append_x = 7" "opSeqNum append_x = 1" by (simp_all add: append_x_def)
  have "opSeqNum append_x \<le> lastSeq ?kv2 (opClientId append_x)"
    using kv_invD(3) [OF kv_run_inv [OF r2]] last_seqs_ge [of append_x "[append_x, append_x]" opSeqNum opClientId "\<lambda>_. 0"]
    by (simp add: l2)
  then obtain kv' where ret: "operate append_x ?kv2 = (Some True, kv')"
    using getClientStatus_spec(1) by (force simp: operate_def cs_done_def split: prod.splits)
  obtain xs where "kv_data ?kv2 = fold kv_effect xs Map.empty" "\<exists>y \<in> set xs. opClientId y = 7 \<and> opSeqNum y = 1"
    using kv_calls_complete [OF r2] ret x unfolding l2 by (metis (no_types, lifting) empty_iff empty_set insert_iff list.simps(15) order_refl zero_less_one)
  then have "\<exists>kv xs y kv'. kv_run (\<lambda>_. 0) [append_x, append_x] 2 kv \<and> operate append_x kv = (Some True, kv') \<and>
      kv_data kv = fold kv_effect xs Map.empty \<and> y \<in> set xs \<and> opClientId y = 7 \<and> opSeqNum y = 1"
    using r2 ret by blast
  with kv_calls_complete [OF r1] kv(2) r1 show ?thesis by (auto simp: append_x_def)
qed

theorem kv_overtaken_request_dropped_witness:
  "fst (operate append_x (applyOp (append_x\<lparr>opSeqNum := 2\<rparr>) kv_boot)) = Some True"
  using kv_overtaken_request_dropped [of append_x "append_x\<lparr>opSeqNum := 2\<rparr>" kv_boot]
  by (simp add: append_x_def)

end
