(* ===== verification/KV_Client.thy ===== *)
theory KV_Client
  imports KV_Server
begin

text \<open>
  The key/value clerk, \<^verbatim>\<open>src/kvraft/client.go\<close>. \<^verbatim>\<open>call\<close> tries the servers round robin
  from the last known leader; each turn of its loop sends to one more server and then
  either receives a result (of this or of an earlier attempt) or times out. The sequence of
  these events is the argument of the model; running out of events is a call that waits for
  the answer to its last attempt.
\<close>

section \<open>The retry loop\<close>

type_synonym 'r event = "(int \<times> 'r) option"   \<comment> \<open>\<^verbatim>\<open>None\<close>: the timer fired\<close>

datatype 'r call_result = Running | Answered int 'r

text \<open>The loop: the servers contacted, and the result with the server it came from.\<close>

fun call_loop :: "nat \<Rightarrow> ('r \<Rightarrow> bool) \<Rightarrow> int \<Rightarrow> nat \<Rightarrow> 'r event list \<Rightarrow> (int list \<times> 'r call_result) res" where
  "call_loop n wrong ld off [] =
     (if n = 0 then Inl DivideByZero else Inr ([(ld + int off) mod int n], Running))"
| "call_loop n wrong ld off (e # es) =
     (if n = 0 then Inl DivideByZero
      else let srv = (ld + int off) mod int n in
           case e of
             Some (j, r) \<Rightarrow>
               if wrong r
               then ebind (call_loop n wrong ld (Suc off) es) (\<lambda>(ids, x). Inr (srv # ids, x))
               else Inr ([srv], Answered j r)
           | None \<Rightarrow> ebind (call_loop n wrong ld (Suc off) es) (\<lambda>(ids, x). Inr (srv # ids, x)))"

section \<open>The clerk\<close>

record Clerk =
  ckServers :: nat
  ckSeqNum :: int
  ckClientId :: int
  ckLeaderId :: int

text \<open>\<^verbatim>\<open>nrand\<close> draws from \<^verbatim>\<open>crypto/rand\<close>; the number drawn is an argument.\<close>

definition nrand_range :: "int \<Rightarrow> bool" where
  "nrand_range x \<longleftrightarrow> 0 \<le> x \<and> x < 2 ^ 62"

definition MakeClerk :: "nat \<Rightarrow> int \<Rightarrow> Clerk" where
  "MakeClerk servers r = \<lparr>ckServers = servers, ckSeqNum = 0, ckClientId = r, ckLeaderId = 0\<rparr>"

definition call :: "('r \<Rightarrow> bool) \<Rightarrow> 'r event list \<Rightarrow> Clerk \<Rightarrow> (int list \<times> 'r call_result \<times> Clerk) res" where
  "call wrong es ck =
     ebind (call_loop (ckServers ck) wrong (ckLeaderId ck) 0 es) (\<lambda>(ids, x).
     Inr (ids, x, case x of Running \<Rightarrow> ck | Answered j r \<Rightarrow> ck\<lparr>ckLeaderId := j\<rparr>))"

definition nextSeq :: "Clerk \<Rightarrow> Clerk" where
  "nextSeq ck = ck\<lparr>ckSeqNum := ckSeqNum ck + 1\<rparr>"

definition Clerk_GetArgs :: "string \<Rightarrow> Clerk \<Rightarrow> GetArgs" where
  "Clerk_GetArgs key ck = \<lparr>gaKey = key, gaSeqNum = ckSeqNum ck + 1, gaClientId = ckClientId ck\<rparr>"

definition Clerk_Get :: "string \<Rightarrow> GetReply event list \<Rightarrow> Clerk \<Rightarrow> (string option \<times> Clerk) res" where
  "Clerk_Get key es ck =
     ebind (call (\<lambda>r. grErr r = ErrWrongLeader) es (nextSeq ck)) (\<lambda>(ids, x, ck').
     Inr (case x of Running \<Rightarrow> None
          | Answered j r \<Rightarrow> Some (if grErr r = OK then grValue r else ''''), ck'))"

definition Clerk_PutAppendArgs :: "string \<Rightarrow> string \<Rightarrow> string \<Rightarrow> Clerk \<Rightarrow> PutAppendArgs" where
  "Clerk_PutAppendArgs key val op ck = \<lparr>paKey = key, paValue = val, paOp = op,
     paSeqNum = ckSeqNum ck + 1, paClientId = ckClientId ck\<rparr>"

text \<open>\<^verbatim>\<open>panic(reply.Err)\<close> for any other error.\<close>

definition Clerk_PutAppend :: "PutAppendReply event list \<Rightarrow> Clerk \<Rightarrow> (unit option \<times> Clerk) res" where
  "Clerk_PutAppend es ck =
     ebind (call (\<lambda>r. paErr r = ErrWrongLeader) es (nextSeq ck)) (\<lambda>(ids, x, ck').
     case x of Running \<Rightarrow> Inr (None, ck')
     | Answered j r \<Rightarrow> if paErr r = OK then Inr (Some (), ck') else Inl FatalError)"

definition Clerk_Put :: "string \<Rightarrow> string \<Rightarrow> Clerk \<Rightarrow> PutAppendArgs" where
  "Clerk_Put key val ck = Clerk_PutAppendArgs key val ''Put'' ck"

definition Clerk_Append :: "string \<Rightarrow> string \<Rightarrow> Clerk \<Rightarrow> PutAppendArgs" where
  "Clerk_Append key val ck = Clerk_PutAppendArgs key val ''Append'' ck"

section \<open>Facts\<close>

definition useful :: "('r \<Rightarrow> bool) \<Rightarrow> 'r event \<Rightarrow> bool" where
  "useful wrong e \<longleftrightarrow> (\<exists>j r. e = Some (j, r) \<and> \<not> wrong r)"

text \<open>The answer is the first event that is a reply and not a refusal.\<close>

lemma call_loop_spec:
  assumes "0 < n"
  shows "call_loop n wrong ld off es =
    (let k = length (takeWhile (\<lambda>e. \<not> useful wrong e) es) in
     Inr (map (\<lambda>i. (ld + int i) mod int n) [off..<off + Suc k],
       if k < length es then case es ! k of Some (j, r) \<Rightarrow> Answered j r | None \<Rightarrow> Running else Running))"
proof (induction es arbitrary: off)
  case (Cons e es)
  show ?case
  proof (cases "useful wrong e")
    case True
    with assms show ?thesis by (auto simp: useful_def)
  next
    case False
    then have "call_loop n wrong ld off (e # es) =
        ebind (call_loop n wrong ld (Suc off) es) (\<lambda>(ids, x). Inr ((ld + int off) mod int n # ids, x))"
      using assms by (auto simp: useful_def Let_def split: option.splits)
    moreover have "[off..<off + Suc (Suc k)] = off # [Suc off..<Suc off + Suc k]" for k
      by (simp add: upt_conv_Cons del: upt_Suc)
    ultimately show ?thesis using False by (simp add: Cons Let_def del: upt_Suc)
  qed
qed (use assms in simp)

lemma call_spec:
  assumes "0 < ckServers ck"
  shows "\<exists>ids x ck'. call wrong es ck = Inr (ids, x, ck') \<and>
    (\<forall>i < length ids. ids ! i = (ckLeaderId ck + int i) mod int (ckServers ck)) \<and>
    (case x of Running \<Rightarrow> \<not> (\<exists>e \<in> set es. useful wrong e) \<and> length ids = Suc (length es) \<and> ck' = ck
     | Answered j r \<Rightarrow> \<not> wrong r \<and> Some (j, r) \<in> set es \<and> ck' = ck\<lparr>ckLeaderId := j\<rparr>)"
proof -
  let ?k = "length (takeWhile (\<lambda>e. \<not> useful wrong e) es)"
  have none: "\<not> (\<exists>e \<in> set es. useful wrong e)" if "\<not> ?k < length es"
  proof -
    have "length (takeWhile (\<lambda>e. \<not> useful wrong e) es) = length es"
      using that length_takeWhile_le [of "\<lambda>e. \<not> useful wrong e" es] by linarith
    then have "takeWhile (\<lambda>e. \<not> useful wrong e) es = es" by (metis takeWhile_eq_take take_all order_refl)
    then show ?thesis by (metis takeWhile_eq_all_conv)
  qed
  have hit: "\<exists>j r. es ! ?k = Some (j, r) \<and> \<not> wrong r" if "?k < length es"
    using nth_length_takeWhile [OF that] by (auto simp: useful_def)
  show ?thesis
  proof (cases "?k < length es")
    case True
    then obtain j r where jr: "es ! ?k = Some (j, r)" "\<not> wrong r" using hit by blast
    moreover have "Some (j, r) \<in> set es" using jr(1) True by (metis nth_mem)
    ultimately show ?thesis
      using True call_loop_spec [OF assms, of wrong "ckLeaderId ck" 0 es]
      by (simp add: call_def Let_def del: upt_Suc)
  next
    case False
    then have "?k = length es" using length_takeWhile_le [of "\<lambda>e. \<not> useful wrong e" es] by linarith
    with False none call_loop_spec [OF assms, of wrong "ckLeaderId ck" 0 es] show ?thesis
      by (simp add: call_def Let_def del: upt_Suc)
  qed
qed

section \<open>Properties\<close>

text \<open>
  The clerk tries every server. A call with at least one server never panics; its
  attempts go round robin from the last leader, so any sequence of as many attempts as
  there are servers reaches each of them; it returns as soon as a server that is not
  refusing answers, with that answer, and remembers the server.
\<close>

theorem clerk_call_complete:
  assumes n: "0 < ckServers ck"
  shows "\<exists>ids x ck'. call wrong es ck = Inr (ids, x, ck') \<and>
    (x = Running \<longleftrightarrow> \<not> (\<exists>e \<in> set es. useful wrong e)) \<and>
    (x = Running \<and> ckServers ck \<le> Suc (length es) \<longrightarrow> set ids = {0..<int (ckServers ck)}) \<and>
    (\<forall>j r. x = Answered j r \<longrightarrow> \<not> wrong r \<and> Some (j, r) \<in> set es \<and> ckLeaderId ck' = j)"
proof -
  let ?n = "int (ckServers ck)"
  obtain ids x ck' where c: "call wrong es ck = Inr (ids, x, ck')"
    and ids: "\<forall>i < length ids. ids ! i = (ckLeaderId ck + int i) mod ?n"
    and x: "case x of Running \<Rightarrow> \<not> (\<exists>e \<in> set es. useful wrong e) \<and> length ids = Suc (length es) \<and> ck' = ck
     | Answered j r \<Rightarrow> \<not> wrong r \<and> Some (j, r) \<in> set es \<and> ck' = ck\<lparr>ckLeaderId := j\<rparr>"
    using call_spec [OF n, of wrong es] by auto
  have all: "set ids = {0..<?n}" if "x = Running" "ckServers ck \<le> Suc (length es)"
  proof
    show "set ids \<subseteq> {0..<?n}" using ids n by (auto simp: in_set_conv_nth)
    show "{0..<?n} \<subseteq> set ids"
    proof
      fix s assume s: "s \<in> {0..<?n}"
      let ?i = "nat ((s - ckLeaderId ck) mod ?n)"
      have "(s - ckLeaderId ck) mod ?n < int (Suc (length es))"
        using pos_mod_bound [of ?n "s - ckLeaderId ck"] n that(2) by linarith
      then have "?i < length ids" using that x n by (simp add: nat_less_iff)
      moreover from this have "ids ! ?i = s"
        using ids n s by (simp add: mod_add_right_eq)
      ultimately show "s \<in> set ids" by (metis nth_mem)
    qed
  qed
  have "x = Running \<longleftrightarrow> \<not> (\<exists>e \<in> set es. useful wrong e)"
    using x by (cases x) (auto simp: useful_def)
  then show ?thesis using c all x by (intro exI [of _ ids] exI [of _ x] exI [of _ ck']) auto
qed

theorem clerk_call_complete_witness:
  "\<exists>ids ck'. call (\<lambda>b. b) [None, Some (1, True), Some (2, False)] (MakeClerk 3 5) = Inr (ids, Answered 2 False, ck') \<and>
     ckLeaderId ck' = 2"
proof -
  have "0 < ckServers (MakeClerk 3 5)" by (simp add: MakeClerk_def)
  from clerk_call_complete [OF this, of "\<lambda>b. b" "[None, Some (1, True), Some (2, False)]"]
  obtain ids x ck' where c: "call (\<lambda>b. b) [None, Some (1, True), Some (2, False)] (MakeClerk 3 5) = Inr (ids, x, ck')"
    and x: "x \<noteq> Running" "\<And>j r. x = Answered j r \<Longrightarrow> \<not> r \<and> Some (j, r) \<in> {None, Some (1, True), Some (2, False)} \<and> ckLeaderId ck' = j"
    by (auto simp: useful_def)
  from x(1) obtain j r where "x = Answered j r" by (cases x) auto
  with x(2) [OF this] c show ?thesis by auto
qed

end
