(* ===== verification/Ctrl_Client.thy ===== *)
theory Ctrl_Client
  imports Ctrl_Server KV_Client
begin

text \<open>
  The clerk of the shard controller, \<^verbatim>\<open>src/shardctrler/client.go\<close>. Its struct and its retry
  loop are those of the key/value clerk (theory \<^verbatim>\<open>KV_Client\<close>), with two types of reply; as
  there, the replies and timeouts of a call are a list of events.
\<close>

type_synonym SCClerk = Clerk

datatype sc_answer = ACommon SCReply | AConfig QueryReply

fun sc_refused :: "sc_answer \<Rightarrow> bool" where
  "sc_refused (ACommon r) \<longleftrightarrow> srErr r = SC_WrongLeader"
| "sc_refused (AConfig r) \<longleftrightarrow> qrErr r = SC_WrongLeader"

definition sc_MakeClerk :: "nat \<Rightarrow> int \<Rightarrow> SCClerk" where
  "sc_MakeClerk servers r = \<lparr>ckServers = servers, ckSeqNum = 0, ckClientId = r, ckLeaderId = 0\<rparr>"

definition sc_call :: "sc_answer event list \<Rightarrow> SCClerk \<Rightarrow> (int list \<times> sc_answer call_result \<times> SCClerk) res" where
  "sc_call es ck =
     ebind (call_loop (ckServers ck) sc_refused (ckLeaderId ck) 0 es) (\<lambda>(ids, x).
     Inr (ids, x, case x of Running \<Rightarrow> ck | Answered j r \<Rightarrow> ck\<lparr>ckLeaderId := j\<rparr>))"

definition ck_QueryArgs :: "int \<Rightarrow> SCClerk \<Rightarrow> QueryArgs" where
  "ck_QueryArgs num ck = \<lparr>qaNum = num, qaSeqNum = ckSeqNum ck + 1, qaClientId = ckClientId ck\<rparr>"

text \<open>The type assertion on the reply panics for a reply of the other type.\<close>

definition ck_Query :: "sc_answer event list \<Rightarrow> SCClerk \<Rightarrow> (Config option \<times> SCClerk) res" where
  "ck_Query es ck =
     ebind (sc_call es (nextSeq ck)) (\<lambda>(ids, x, ck').
     case x of Running \<Rightarrow> Inr (None, ck')
     | Answered j (AConfig r) \<Rightarrow> Inr (Some (qrConfig r), ck')
     | Answered j (ACommon r) \<Rightarrow> Inl AssertFailed)"

definition ck_JoinArgs :: "groups \<Rightarrow> SCClerk \<Rightarrow> JoinArgs" where
  "ck_JoinArgs gs ck = \<lparr>jaGroups = gs, jaSeqNum = ckSeqNum ck + 1, jaClientId = ckClientId ck\<rparr>"

definition ck_LeaveArgs :: "int list \<Rightarrow> SCClerk \<Rightarrow> LeaveArgs" where
  "ck_LeaveArgs gids ck = \<lparr>laGIDs = gids, laSeqNum = ckSeqNum ck + 1, laClientId = ckClientId ck\<rparr>"

definition ck_MoveArgs :: "int \<Rightarrow> int \<Rightarrow> SCClerk \<Rightarrow> MoveArgs" where
  "ck_MoveArgs shard gid ck = \<lparr>maShard = shard, maGID = gid, maSeqNum = ckSeqNum ck + 1, maClientId = ckClientId ck\<rparr>"

text \<open>\<^verbatim>\<open>Join\<close>, \<^verbatim>\<open>Leave\<close> and \<^verbatim>\<open>Move\<close> ignore the reply.\<close>

definition ck_command :: "sc_answer event list \<Rightarrow> SCClerk \<Rightarrow> (unit option \<times> SCClerk) res" where
  "ck_command es ck =
     ebind (sc_call es (nextSeq ck)) (\<lambda>(ids, x, ck').
     Inr (case x of Running \<Rightarrow> None | Answered j r \<Rightarrow> Some (), ck'))"

lemma sc_call_eq: "sc_call es ck = call sc_refused es ck"
  by (simp add: sc_call_def call_def)

text \<open>
  A query returns the controller's answer. If the replies a clerk receives to a query
  are what replicas of the controller send, the query never panics, and when it returns it
  returns a configuration that some replica had: the one asked for if that replica had it
  and otherwise its latest.
\<close>

theorem clerk_query_answers:
  assumes "0 < ckServers ck"
    and "\<forall>e \<in> set es. \<forall>j r. e = Some (j, r) \<longrightarrow>
      (\<exists>b sc q n. sc_run log n sc \<and> sc_query_reply (ck_QueryArgs num ck) b sc = Inr q \<and> r = AConfig q)"
  shows "\<exists>v ck'. ck_Query es ck = Inr (v, ck') \<and> ckSeqNum ck' = ckSeqNum ck + 1 \<and>
    (v = None \<longleftrightarrow> \<not> (\<exists>e \<in> set es. useful sc_refused e)) \<and>
    (\<forall>c. v = Some c \<longrightarrow> (\<exists>n sc. sc_run log n sc \<and>
       (if 0 \<le> num \<and> num < int (length (configs sc)) then c = configs sc ! nat num \<and> Num c = num
        else c = last (configs sc))))"
proof -
  have n: "0 < ckServers (nextSeq ck)" using assms(1) by (simp add: nextSeq_def)
  obtain ids x ck' where c: "sc_call es (nextSeq ck) = Inr (ids, x, ck')"
    and x: "case x of Running \<Rightarrow> \<not> (\<exists>e \<in> set es. useful sc_refused e) \<and> length ids = Suc (length es) \<and> ck' = nextSeq ck
     | Answered j r \<Rightarrow> \<not> sc_refused r \<and> Some (j, r) \<in> set es \<and> ck' = (nextSeq ck)\<lparr>ckLeaderId := j\<rparr>"
    using call_spec [OF n, of sc_refused es] unfolding sc_call_eq by auto
  show ?thesis
  proof (cases x)
    case Running
    with c x show ?thesis by (simp add: ck_Query_def nextSeq_def)
  next
    case (Answered j r)
    with x assms(2) obtain b sc q k where r: "sc_run log k sc" "sc_query_reply (ck_QueryArgs num ck) b sc = Inr q" "r = AConfig q"
      by fastforce
    with x Answered have b: "b" by (cases b) (auto simp: sc_query_reply_def)
    have num: "numbered (configs sc)" using sc_history(1) [OF r(1) r(1)] by simp
    then have ne: "configs sc \<noteq> []" by (simp add: numbered_def)
    have q: "if 0 \<le> num \<and> num < int (length (configs sc)) then qrConfig q = configs sc ! nat num \<and> Num (qrConfig q) = num
        else qrConfig q = last (configs sc)"
    proof (cases "0 \<le> num \<and> num < int (length (configs sc))")
      case True
      with r(2) b num show ?thesis
        by (auto simp: sc_query_reply_def ck_QueryArgs_def getConfig_def nth_go_def numbered_def ebind_eq_Inr nat_less_iff)
    next
      case False
      then have "getConfig num (configs sc) = getLatestConfig (configs sc)"
        by (auto simp: getConfig_def getLatestConfig_def)
      with False r(2) b getLatestConfig_numbered [OF ne] show ?thesis
        by (auto simp: sc_query_reply_def ck_QueryArgs_def)
    qed
    have "\<exists>n sc. sc_run log n sc \<and> (if 0 \<le> num \<and> num < int (length (configs sc))
        then qrConfig q = configs sc ! nat num \<and> Num (qrConfig q) = num else qrConfig q = last (configs sc))"
      using r(1) q by blast
    moreover have "\<exists>e \<in> set es. useful sc_refused e"
      using x Answered by (intro bexI [of _ "Some (j, r)"]) (auto simp: useful_def)
    moreover have "ck_Query es ck = Inr (Some (qrConfig q), ck')" "ckSeqNum ck' = ckSeqNum ck + 1"
      using c x Answered r(3) by (simp_all add: ck_Query_def nextSeq_def)
    ultimately show ?thesis by simp
  qed
qed

theorem clerk_query_answers_witness:
  "\<exists>v ck'. ck_Query [None, Some (1, AConfig \<lparr>qrErr = SC_OK, qrConfig = hd configs_init\<rparr>)] (sc_MakeClerk 3 5) = Inr (v, ck') \<and>
     v \<noteq> None \<and> ckSeqNum ck' = 1"
proof -
  let ?q = "\<lparr>qrErr = SC_OK, qrConfig = hd configs_init\<rparr>" and ?ck = "sc_MakeClerk 3 5"
  have "sc_query_reply (ck_QueryArgs (- 1) ?ck) True sc_boot = Inr ?q"
    by (simp add: sc_query_reply_def ck_QueryArgs_def getConfig_def nth_go_def sc_boot_def configs_init_def)
  then have "\<forall>e \<in> set [None, Some (1, AConfig ?q)]. \<forall>j r. e = Some (j, r) \<longrightarrow>
      (\<exists>b sc q n. sc_run [] n sc \<and> sc_query_reply (ck_QueryArgs (- 1) ?ck) b sc = Inr q \<and> r = AConfig q)"
    using sc_boot_run by auto
  from clerk_query_answers [OF _ this] show ?thesis by (auto simp: sc_MakeClerk_def useful_def)
qed

end
