(* ===== verification/Shard_Store.thy ===== *)
theory Shard_Store
  imports Ctrl_Client
begin

text \<open>
  The state of a sharded key/value server, \<^verbatim>\<open>src/shardkv/common.go\<close> and the first part of
  \<^verbatim>\<open>server.go\<close>: one store per shard, the configuration that says which shards the group
  serves, the last sequence number of each client, and the operations on them. The array
  types of Go, \<^verbatim>\<open>[NShards]int\<close> and the store, are lists; \<^verbatim>\<open>wf_skv\<close> says that they have the
  length of the type.
\<close>

section \<open>Data\<close>

datatype SKErr = SK_OK | SK_ErrNoKey | SK_ErrWrongGroup | SK_ErrWrongLeader

text \<open>The strings of \<^verbatim>\<open>Put\<close>, \<^verbatim>\<open>Append\<close> and \<^verbatim>\<open>Get\<close> are those of theory \<^verbatim>\<open>KV_Server\<close>.\<close>

definition SET_CONFIG :: string where "SET_CONFIG = ''SetConfig''"
definition GET_SHARDS :: string where "GET_SHARDS = ''GetShards''"
definition PUT_SHARDS :: string where "PUT_SHARDS = ''PutShards''"
definition DELETE_SHARDS :: string where "DELETE_SHARDS = ''DeleteShards''"

type_synonym shard_data = "string \<rightharpoonup> string"
type_synonym shard_bag = "(int, shard_data) fmap"

record SKPutAppendArgs =
  spKey :: string
  spValue :: string
  spOp :: string
  spSeqNum :: int
  spClientId :: int

record SKReply =
  skErr :: SKErr

record SKGetArgs =
  sgKey :: string
  sgSeqNum :: int
  sgClientId :: int

record SKGetReply =
  sgErr :: SKErr
  sgValue :: string

record GetShardsArgs =
  gsConfigNum :: int
  gsShards :: "int list"
  gsSeqNum :: int
  gsClientId :: int

record GetShardsReply =
  grsErr :: SKErr
  grsShards :: shard_bag
  grsSeqNums :: "int \<rightharpoonup> int"

record PutShardsArgs =
  psShards :: shard_bag
  psSeqNums :: "int \<rightharpoonup> int"
  psSeqNum :: int
  psClientId :: int

record SetConfigArgs =
  cfConfig :: Config
  cfSeqNum :: int
  cfClientId :: int

record DeleteShardsArgs =
  dsConfigNum :: int
  dsShards :: "int list"
  dsSeqNum :: int
  dsClientId :: int

text \<open>The \<^verbatim>\<open>Args\<close> of an operation is an interface value of one of these types.\<close>

datatype sk_args =
    SPutAppend SKPutAppendArgs
  | SGet SKGetArgs
  | SGetShards GetShardsArgs
  | SPutShards PutShardsArgs
  | SDeleteShards DeleteShardsArgs
  | SSetConfig SetConfigArgs

record SKOp =
  skType :: string
  skArgs :: sk_args

record SKClientStatus =
  skLastSeqNum :: int

text \<open>The encoded values of a snapshot.\<close>

datatype sktok = TInt int | TStore "shard_data list" | TConfig Config | TSeqs "int \<rightharpoonup> int"

text \<open>
  The server. \<^verbatim>\<open>skProcessing\<close> is \<^verbatim>\<open>configInPrecessingMap\<close>, \<^verbatim>\<open>skLeaders\<close> is \<^verbatim>\<open>groupLeaderMap\<close>;
  calls blocked in the condition variable of their client are in \<^verbatim>\<open>skBlocked\<close>, calls of
  \<^verbatim>\<open>GetShards\<close> that wait for a configuration in \<^verbatim>\<open>skWaiting\<close>.
\<close>

record ShardKV =
  skMe :: nat
  skRf :: "(SKOp, sktok) Raft"
  skGid :: int
  skMaxState :: int
  skConfig :: Config
  skNextConfig :: Config
  skStore :: "shard_data list"
  skCtrl :: SCClerk
  skClients :: "int \<rightharpoonup> SKClientStatus"
  skSeqNum :: int
  skClientId :: int
  skLeaders :: "int \<rightharpoonup> int"
  skProcessing :: "int \<Rightarrow> bool"
  skServers :: nat
  skBlocked :: "(int \<times> int) list"
  skWoken :: "(int \<times> int) list"
  skWaiting :: "GetShardsArgs list"
  skReady :: "GetShardsArgs list"

text \<open>The shard of a key, from its first byte.\<close>

definition key2shard :: "string \<Rightarrow> nat" where
  "key2shard key = (case key of [] \<Rightarrow> 0 | c # cs \<Rightarrow> of_char c) mod NShards"

section \<open>Client status\<close>

definition sk_done :: "int \<Rightarrow> SKClientStatus \<Rightarrow> bool" where
  "sk_done seqNum cs \<longleftrightarrow> skLastSeqNum cs \<ge> seqNum"

definition sk_status :: "int \<Rightarrow> ShardKV \<Rightarrow> SKClientStatus \<times> ShardKV" where
  "sk_status clientId kv =
     (case skClients kv clientId of
        Some cs \<Rightarrow> (cs, kv)
      | None \<Rightarrow> (\<lparr>skLastSeqNum = 0\<rparr>, kv\<lparr>skClients := (skClients kv)(clientId \<mapsto> \<lparr>skLastSeqNum = 0\<rparr>)\<rparr>))"

definition skLast :: "ShardKV \<Rightarrow> int \<Rightarrow> int" where
  "skLast kv c = (case skClients kv c of Some cs \<Rightarrow> skLastSeqNum cs | None \<Rightarrow> 0)"

text \<open>
  \<^verbatim>\<open>updateSeqNum\<close> of the status of a client: unlike in the other services the number only
  grows, and only then are the waiting calls woken.
\<close>

definition sk_updateSeqNum :: "int \<Rightarrow> int \<Rightarrow> ShardKV \<Rightarrow> ShardKV" where
  "sk_updateSeqNum clientId seqNum kv =
     (if seqNum > skLast kv clientId
      then kv\<lparr>skClients := (skClients kv)(clientId \<mapsto> \<lparr>skLastSeqNum = seqNum\<rparr>),
              skBlocked := filter (\<lambda>x. fst x \<noteq> clientId) (skBlocked kv),
              skWoken := skWoken kv @ filter (\<lambda>x. fst x = clientId) (skBlocked kv)\<rparr>
      else kv)"

definition getClientSeqNumMap :: "ShardKV \<Rightarrow> int \<rightharpoonup> int" where
  "getClientSeqNumMap kv = (\<lambda>c. map_option skLastSeqNum (skClients kv c))"

text \<open>
  \<^verbatim>\<open>putClientSeqNumMap\<close>: \<^verbatim>\<open>updateSeqNum\<close> for each client of the map, which creates the missing
  ones. The iterations concern different clients, so the order does not matter and the
  loop is written for all clients at once.
\<close>

definition putClientSeqNumMap :: "(int \<rightharpoonup> int) \<Rightarrow> ShardKV \<Rightarrow> ShardKV" where
  "putClientSeqNumMap m kv =
     kv\<lparr>skClients := (\<lambda>c. case m c of
          Some n \<Rightarrow> Some \<lparr>skLastSeqNum = (if n > skLast kv c then n else skLast kv c)\<rparr>
        | None \<Rightarrow> skClients kv c),
        skBlocked := filter (\<lambda>x. case m (fst x) of Some n \<Rightarrow> \<not> n > skLast kv (fst x) | None \<Rightarrow> True) (skBlocked kv),
        skWoken := skWoken kv @
          filter (\<lambda>x. case m (fst x) of Some n \<Rightarrow> n > skLast kv (fst x) | None \<Rightarrow> False) (skBlocked kv)\<rparr>"

section \<open>Configurations in progress\<close>

definition processing_put :: "int \<Rightarrow> ShardKV \<Rightarrow> bool \<times> ShardKV" where
  "processing_put num kv =
     (if skProcessing kv num then (False, kv) else (True, kv\<lparr>skProcessing := (skProcessing kv)(num := True)\<rparr>))"

definition processing_get :: "int \<Rightarrow> ShardKV \<Rightarrow> bool" where
  "processing_get num kv = skProcessing kv num"

section \<open>The store\<close>

definition initStore :: "shard_data list" where
  "initStore = replicate NShards Map.empty"

definition sk_get :: "string \<Rightarrow> ShardKV \<Rightarrow> (string \<times> SKErr) res" where
  "sk_get key kv =
     (let shard = int (key2shard key) in
      ebind (nth_go (Shards (skConfig kv)) shard) (\<lambda>g.
      if skGid kv \<noteq> g then Inr ('''', SK_ErrWrongGroup)
      else ebind (nth_go (skStore kv) shard) (\<lambda>d.
           Inr (case d key of None \<Rightarrow> ('''', SK_ErrNoKey) | Some v \<Rightarrow> (v, SK_OK)))))"

definition sk_put :: "string \<Rightarrow> string \<Rightarrow> ShardKV \<Rightarrow> (SKErr \<times> ShardKV) res" where
  "sk_put key val kv =
     (let shard = int (key2shard key) in
      ebind (nth_go (Shards (skConfig kv)) shard) (\<lambda>g.
      if skGid kv \<noteq> g then Inr (SK_ErrWrongGroup, kv)
      else ebind (nth_go (skStore kv) shard) (\<lambda>d.
           ebind (upd_go (skStore kv) shard (d(key \<mapsto> val))) (\<lambda>st.
           Inr (SK_OK, kv\<lparr>skStore := st\<rparr>)))))"

definition sk_append :: "string \<Rightarrow> string \<Rightarrow> ShardKV \<Rightarrow> (SKErr \<times> ShardKV) res" where
  "sk_append key val kv =
     (let shard = int (key2shard key) in
      ebind (nth_go (Shards (skConfig kv)) shard) (\<lambda>g.
      if skGid kv \<noteq> g then Inr (SK_ErrWrongGroup, kv)
      else ebind (nth_go (skStore kv) shard) (\<lambda>d.
           ebind (upd_go (skStore kv) shard (case d key of Some v \<Rightarrow> d(key \<mapsto> v @ val) | None \<Rightarrow> d(key \<mapsto> val))) (\<lambda>st.
           Inr (SK_OK, kv\<lparr>skStore := st\<rparr>)))))"

text \<open>The decoded store is copied into a new one; the configuration comes with it.\<close>

definition setStore :: "shard_data list \<Rightarrow> Config \<Rightarrow> ShardKV \<Rightarrow> ShardKV" where
  "setStore st config kv = kv\<lparr>skStore := map2 (++) initStore st, skConfig := Clone config\<rparr>"

text \<open>
  \<^verbatim>\<open>putShards\<close> iterates over a Go map; the model goes through the keys in order
  (lemma \<^verbatim>\<open>put_shards_order\<close>: any order gives the same).
\<close>

fun put_shards :: "int list \<Rightarrow> shard_bag \<Rightarrow> ShardKV \<Rightarrow> ShardKV res" where
  "put_shards [] m kv = Inr kv"
| "put_shards (shard # ks) m kv =
     ebind (nth_go (Shards (skConfig kv)) shard) (\<lambda>g.
     if g = skGid kv then put_shards ks m kv
     else ebind (upd_go (skStore kv) shard (case fmlookup m shard of Some d \<Rightarrow> d | None \<Rightarrow> Map.empty)) (\<lambda>st.
          ebind (upd_go (Shards (skConfig kv)) shard (skGid kv)) (\<lambda>sh.
          put_shards ks m (kv\<lparr>skStore := st, skConfig := (skConfig kv)\<lparr>Shards := sh\<rparr>\<rparr>))))"

definition putShards :: "shard_bag \<Rightarrow> ShardKV \<Rightarrow> ShardKV res" where
  "putShards m kv = put_shards (GetSortedKeysOfGroups m) m kv"

fun getShards :: "int list \<Rightarrow> shard_bag \<Rightarrow> ShardKV \<Rightarrow> shard_bag res" where
  "getShards [] m kv = Inr m"
| "getShards (shard # shards) m kv =
     ebind (nth_go (skStore kv) shard) (\<lambda>d. getShards shards (fmupd shard d m) kv)"

fun deleteShards :: "int list \<Rightarrow> ShardKV \<Rightarrow> ShardKV res" where
  "deleteShards [] kv = Inr kv"
| "deleteShards (shard # shards) kv =
     ebind (nth_go (Shards (skConfig kv)) shard) (\<lambda>g.
     ebind (nth_go (Shards (skNextConfig kv)) shard) (\<lambda>g'.
     if g \<noteq> skGid kv \<and> g' \<noteq> skGid kv
     then ebind (upd_go (skStore kv) shard Map.empty) (\<lambda>st. deleteShards shards (kv\<lparr>skStore := st\<rparr>))
     else deleteShards shards kv))"

definition setConfig :: "Config \<Rightarrow> ShardKV \<Rightarrow> ShardKV" where
  "setConfig config kv =
     (if Num config > Num (skConfig kv)
      then kv\<lparr>skConfig := config, skWaiting := [], skReady := skReady kv @ skWaiting kv\<rparr>
      else kv)"

section \<open>Well-formed servers and the effect of each operation\<close>

definition wf_config :: "Config \<Rightarrow> bool" where
  "wf_config c \<longleftrightarrow> length (Shards c) = NShards"

definition wf_skv :: "ShardKV \<Rightarrow> bool" where
  "wf_skv kv \<longleftrightarrow> wf_config (skConfig kv) \<and> wf_config (skNextConfig kv) \<and> length (skStore kv) = NShards"

named_theorems skv_wf \<open>the lengths of the arrays\<close>
declare wf_skv_def [skv_wf] wf_config_def [skv_wf]

definition in_range :: "int set \<Rightarrow> bool" where
  "in_range ks \<longleftrightarrow> ks \<subseteq> {0..<int NShards}"

lemma key2shard_less: "key2shard key < NShards"
  by (simp add: key2shard_def NShards_def)

abbreviation owns :: "ShardKV \<Rightarrow> nat \<Rightarrow> bool" where
  "owns kv i \<equiv> Shards (skConfig kv) ! i = skGid kv"

lemma nth_key2shard:
  assumes "length xs = NShards"
  shows "nth_go xs (int (key2shard key)) = Inr (xs ! key2shard key)"
    "upd_go xs (int (key2shard key)) v = Inr (xs[key2shard key := v])"
  using assms key2shard_less [of key] by (simp_all add: go_slice)

lemma sk_get_wf:
  assumes "wf_skv kv"
  shows "sk_get key kv = Inr (if owns kv (key2shard key)
    then case (skStore kv ! key2shard key) key of None \<Rightarrow> ('''', SK_ErrNoKey) | Some v \<Rightarrow> (v, SK_OK)
    else ('''', SK_ErrWrongGroup))"
  using assms by (auto simp: sk_get_def nth_key2shard skv_wf)

text \<open>\<^verbatim>\<open>put\<close> and \<^verbatim>\<open>append\<close> change the store of the key's shard; \<^verbatim>\<open>write_data\<close> is what they write.\<close>

definition write_data :: "string \<Rightarrow> string \<Rightarrow> string \<Rightarrow> shard_data \<Rightarrow> shard_data" where
  "write_data t key val d =
     d(key \<mapsto> (if t = APPEND then (case d key of Some v \<Rightarrow> v | None \<Rightarrow> '''') @ val else val))"

definition sk_written :: "string \<Rightarrow> string \<Rightarrow> string \<Rightarrow> ShardKV \<Rightarrow> ShardKV" where
  "sk_written t key val kv =
     kv\<lparr>skStore := (skStore kv)[key2shard key := write_data t key val (skStore kv ! key2shard key)]\<rparr>"

lemma sk_write_wf:
  assumes "wf_skv kv"
  shows "sk_put key val kv = Inr (if owns kv (key2shard key) then (SK_OK, sk_written PUT key val kv) else (SK_ErrWrongGroup, kv))"
    "sk_append key val kv = Inr (if owns kv (key2shard key) then (SK_OK, sk_written APPEND key val kv) else (SK_ErrWrongGroup, kv))"
  using assms
  by (auto simp: sk_put_def sk_append_def sk_written_def write_data_def nth_key2shard skv_wf PUT_def APPEND_def split: option.splits)

text \<open>What \<^verbatim>\<open>putShards\<close>, \<^verbatim>\<open>getShards\<close> and \<^verbatim>\<open>deleteShards\<close> do, shard by shard.\<close>

definition put_store :: "int \<Rightarrow> int set \<Rightarrow> shard_bag \<Rightarrow> int list \<Rightarrow> shard_data list \<Rightarrow> shard_data list" where
  "put_store gid ks m sh st = map (\<lambda>i. if int i \<in> ks \<and> sh ! i \<noteq> gid
     then (case fmlookup m (int i) of Some d \<Rightarrow> d | None \<Rightarrow> Map.empty) else st ! i) [0..<NShards]"

definition put_owner :: "int \<Rightarrow> int set \<Rightarrow> int list \<Rightarrow> int list" where
  "put_owner gid ks sh = map (\<lambda>i. if int i \<in> ks then gid else sh ! i) [0..<NShards]"

definition shards_put :: "int set \<Rightarrow> shard_bag \<Rightarrow> ShardKV \<Rightarrow> ShardKV" where
  "shards_put ks m kv =
     kv\<lparr>skStore := put_store (skGid kv) ks m (Shards (skConfig kv)) (skStore kv),
        skConfig := (skConfig kv)\<lparr>Shards := put_owner (skGid kv) ks (Shards (skConfig kv))\<rparr>\<rparr>"

lemma put_owner_insert:
  "length sh = NShards \<Longrightarrow> j < NShards \<Longrightarrow> put_owner gid (insert (int j) ks) sh = put_owner gid ks (sh[j := gid])"
  by (auto simp: put_owner_def nth_list_update)

lemma put_store_insert:
  assumes "length sh = NShards" "length st = NShards" "j < NShards" "sh ! j \<noteq> gid"
  shows "put_store gid (insert (int j) ks) m sh st =
    put_store gid ks m (sh[j := gid]) (st[j := case fmlookup m (int j) of Some d \<Rightarrow> d | None \<Rightarrow> Map.empty])"
  using assms by (auto simp: put_store_def nth_list_update)

lemma put_store_owned: "sh ! j = gid \<Longrightarrow> put_store gid (insert (int j) ks) m sh st = put_store gid ks m sh st"
  by (auto simp: put_store_def)

lemma shards_put_empty:
  assumes "wf_skv kv"
  shows "shards_put {} m kv = kv"
proof -
  have "map ((!) (skStore kv)) [0..<NShards] = skStore kv" "map ((!) (Shards (skConfig kv))) [0..<NShards] = Shards (skConfig kv)"
    using assms by (metis wf_skv_def map_nth, metis wf_skv_def wf_config_def map_nth)
  then show ?thesis by (simp add: shards_put_def put_store_def put_owner_def)
qed

lemma shards_put_insert:
  assumes "wf_skv kv" and "0 \<le> k" "k < int NShards"
  shows "shards_put (insert k ks) m kv = shards_put ks m
    (if owns kv (nat k) then kv
     else kv\<lparr>skStore := (skStore kv)[nat k := case fmlookup m k of Some d \<Rightarrow> d | None \<Rightarrow> Map.empty],
             skConfig := (skConfig kv)\<lparr>Shards := (Shards (skConfig kv))[nat k := skGid kv]\<rparr>\<rparr>)"
proof -
  obtain j where j: "k = int j" "j < NShards" using assms(2,3) by (metis nat_0_le nat_less_iff)
  have l: "length (Shards (skConfig kv)) = NShards" "length (skStore kv) = NShards" using assms(1) by (simp_all add: skv_wf)
  show ?thesis
  proof (cases "owns kv j")
    case True
    then have "(Shards (skConfig kv))[j := skGid kv] = Shards (skConfig kv)" by (metis list_update_id)
    with True show ?thesis
      unfolding j(1) shards_put_def using put_owner_insert [OF l(1) j(2)] by (simp add: put_store_owned)
  next
    case False
    then show ?thesis
      unfolding j(1) shards_put_def using put_owner_insert [OF l(1) j(2)] put_store_insert [OF l j(2) False] by simp
  qed
qed

lemma put_shards_wf:
  assumes "wf_skv kv" and "in_range (set ks)"
  shows "put_shards ks m kv = Inr (shards_put (set ks) m kv)"
  using assms
proof (induction ks arbitrary: kv)
  case (Cons k ks)
  let ?kv = "if owns kv (nat k) then kv
     else kv\<lparr>skStore := (skStore kv)[nat k := case fmlookup m k of Some d \<Rightarrow> d | None \<Rightarrow> Map.empty],
             skConfig := (skConfig kv)\<lparr>Shards := (Shards (skConfig kv))[nat k := skGid kv]\<rparr>\<rparr>"
  have k: "0 \<le> k" "k < int NShards" and ks: "in_range (set ks)" using Cons.prems(2) by (auto simp: in_range_def)
  have "wf_skv ?kv" using Cons.prems(1) by (simp add: skv_wf)
  from Cons.IH [OF this ks] have "put_shards ks m ?kv = Inr (shards_put (set (k # ks)) m kv)"
    using shards_put_insert [OF Cons.prems(1) k] by simp
  moreover have "put_shards (k # ks) m kv = put_shards ks m ?kv"
    using Cons.prems(1) k by (simp add: go_slice skv_wf)
  ultimately show ?case by simp
qed (simp add: shards_put_empty)

lemma put_shards_order:
  assumes "wf_skv kv" and "set ks = fset (fmdom m)" and "in_range (set ks)"
  shows "put_shards ks m kv = putShards m kv"
  using assms put_shards_wf [OF assms(1), of ks m] put_shards_wf [OF assms(1), of "GetSortedKeysOfGroups m" m]
  by (simp add: putShards_def sortedKeys_set)

definition delete_store :: "int set \<Rightarrow> (nat \<Rightarrow> bool) \<Rightarrow> shard_data list \<Rightarrow> shard_data list" where
  "delete_store ks keep st = map (\<lambda>i. if int i \<in> ks \<and> \<not> keep i then Map.empty else st ! i) [0..<NShards]"

definition shards_deleted :: "int set \<Rightarrow> ShardKV \<Rightarrow> ShardKV" where
  "shards_deleted ks kv =
     kv\<lparr>skStore := delete_store ks (\<lambda>i. owns kv i \<or> Shards (skNextConfig kv) ! i = skGid kv) (skStore kv)\<rparr>"

lemma delete_store_insert:
  assumes "length st = NShards" "j < NShards"
  shows "delete_store (insert (int j) ks) keep st = delete_store ks keep (if keep j then st else st[j := Map.empty])"
  using assms by (auto simp: delete_store_def nth_list_update)

lemma shards_deleted_insert:
  assumes "wf_skv kv" and "0 \<le> k" "k < int NShards"
  shows "shards_deleted (insert k ks) kv = shards_deleted ks
    (if \<not> owns kv (nat k) \<and> Shards (skNextConfig kv) ! nat k \<noteq> skGid kv then kv\<lparr>skStore := (skStore kv)[nat k := Map.empty]\<rparr> else kv)"
proof -
  obtain j where j: "k = int j" "j < NShards" using assms(2,3) by (metis nat_0_le nat_less_iff)
  have "length (skStore kv) = NShards" using assms(1) by (simp add: skv_wf)
  from delete_store_insert [OF this j(2)] show ?thesis by (simp add: j(1) shards_deleted_def)
qed

lemma deleteShards_wf:
  assumes "wf_skv kv" and "in_range (set ks)"
  shows "deleteShards ks kv = Inr (shards_deleted (set ks) kv)"
  using assms
proof (induction ks arbitrary: kv)
  case (Cons k ks)
  let ?kv = "if \<not> owns kv (nat k) \<and> Shards (skNextConfig kv) ! nat k \<noteq> skGid kv
    then kv\<lparr>skStore := (skStore kv)[nat k := Map.empty]\<rparr> else kv"
  have k: "0 \<le> k" "k < int NShards" and ks: "in_range (set ks)" using Cons.prems(2) by (auto simp: in_range_def)
  have "wf_skv ?kv" using Cons.prems(1) by (simp add: skv_wf)
  from Cons.IH [OF this ks] have "deleteShards ks ?kv = Inr (shards_deleted (set (k # ks)) kv)"
    using shards_deleted_insert [OF Cons.prems(1) k] by simp
  moreover have "deleteShards (k # ks) kv = deleteShards ks ?kv"
    using Cons.prems(1) k by (simp add: go_slice skv_wf)
  ultimately show ?case by simp
next
  case Nil
  have "map ((!) (skStore kv)) [0..<NShards] = skStore kv" using Nil by (metis wf_skv_def map_nth)
  then show ?case by (simp add: shards_deleted_def delete_store_def)
qed

lemma getShards_wf:
  assumes "wf_skv kv" and "in_range (set ks)"
  shows "\<exists>m'. getShards ks m kv = Inr m' \<and>
    (\<forall>k. fmlookup m' k = (if k \<in> set ks then Some (skStore kv ! nat k) else fmlookup m k))"
  using assms(2)
proof (induction ks arbitrary: m)
  case (Cons k ks)
  have k: "nth_go (skStore kv) k = Inr (skStore kv ! nat k)" and ks: "in_range (set ks)"
    using Cons.prems assms(1) by (auto simp: in_range_def go_slice skv_wf)
  from Cons.IH [OF ks, of "fmupd k (skStore kv ! nat k) m"] k show ?case by auto
qed simp

end
