(* ===== verification/Shard_Server.thy ===== *)
theory Shard_Server
  imports Shard_Store
begin

text \<open>
  The handlers, the applier and the snapshots of the sharded key/value server,
  \<^verbatim>\<open>src/shardkv/server.go\<close>, with the specification of one replica group: a configuration,
  a store per shard and a sequence number per client, changed by one operation at a time.
\<close>

section \<open>Client operations\<close>

definition sk_operate :: "string \<Rightarrow> int \<Rightarrow> int \<Rightarrow> sk_args \<Rightarrow> ShardKV \<Rightarrow> SKErr option \<times> ShardKV" where
  "sk_operate ty clientId seqNum args kv =
     (case sk_status clientId kv of (cs, kv1) \<Rightarrow>
      if sk_done seqNum cs then (Some SK_OK, kv1)
      else case Start \<lparr>skType = ty, skArgs = args\<rparr> (skRf kv1) of ((_, _, ok), rf) \<Rightarrow>
           if ok then (None, kv1\<lparr>skRf := rf, skBlocked := skBlocked kv1 @ [(clientId, seqNum)]\<rparr>)
           else (Some SK_ErrWrongLeader, kv1\<lparr>skRf := rf\<rparr>))"

definition sk_operate_resume :: "int \<Rightarrow> int \<Rightarrow> ShardKV \<Rightarrow> SKErr option \<times> ShardKV" where
  "sk_operate_resume clientId seqNum kv =
     (case sk_status clientId (kv\<lparr>skWoken := remove1 (clientId, seqNum) (skWoken kv)\<rparr>) of (cs, kv1) \<Rightarrow>
      if sk_done seqNum cs then (Some SK_OK, kv1)
      else (None, kv1\<lparr>skBlocked := skBlocked kv1 @ [(clientId, seqNum)]\<rparr>))"

text \<open>
  The handlers: the call of \<^verbatim>\<open>operate\<close>, and the reply once it returned an \<^verbatim>\<open>Err\<close>.
\<close>

definition sk_Get :: "SKGetArgs \<Rightarrow> ShardKV \<Rightarrow> SKErr option \<times> ShardKV" where
  "sk_Get args kv = sk_operate GET (sgClientId args) (sgSeqNum args) (SGet args) kv"

definition sk_Get_reply :: "SKGetArgs \<Rightarrow> SKErr \<Rightarrow> ShardKV \<Rightarrow> SKGetReply res" where
  "sk_Get_reply args err kv =
     (if err = SK_OK then ebind (sk_get (sgKey args) kv) (\<lambda>(v, e). Inr \<lparr>sgErr = e, sgValue = v\<rparr>)
      else Inr \<lparr>sgErr = err, sgValue = ''''\<rparr>)"

definition sk_PutAppend :: "SKPutAppendArgs \<Rightarrow> ShardKV \<Rightarrow> SKErr option \<times> ShardKV" where
  "sk_PutAppend args kv = sk_operate (spOp args) (spClientId args) (spSeqNum args) (SPutAppend args) kv"

definition sk_SetConfig :: "SetConfigArgs \<Rightarrow> ShardKV \<Rightarrow> SKErr option \<times> ShardKV" where
  "sk_SetConfig args kv = sk_operate SET_CONFIG (cfClientId args) (cfSeqNum args) (SSetConfig args) kv"

text \<open>
  \<^verbatim>\<open>GetShards\<close> first waits until the server has reached the configuration of the request;
  a waiting call is in \<^verbatim>\<open>skWaiting\<close> and goes through the same test when it is woken.
\<close>

definition sk_GetShards :: "GetShardsArgs \<Rightarrow> ShardKV \<Rightarrow> SKErr option \<times> ShardKV" where
  "sk_GetShards args kv =
     (if Num (skConfig kv) < gsConfigNum args then (None, kv\<lparr>skWaiting := skWaiting kv @ [args]\<rparr>)
      else sk_operate GET_SHARDS (gsClientId args) (gsSeqNum args) (SGetShards args) kv)"

definition sk_GetShards_resume :: "GetShardsArgs \<Rightarrow> ShardKV \<Rightarrow> SKErr option \<times> ShardKV" where
  "sk_GetShards_resume args kv = sk_GetShards args (kv\<lparr>skReady := remove1 args (skReady kv)\<rparr>)"

definition sk_GetShards_reply :: "GetShardsArgs \<Rightarrow> SKErr \<Rightarrow> ShardKV \<Rightarrow> GetShardsReply res" where
  "sk_GetShards_reply args err kv =
     (if err \<noteq> SK_OK then Inr \<lparr>grsErr = err, grsShards = fmempty, grsSeqNums = Map.empty\<rparr>
      else ebind (getShards (gsShards args) fmempty kv) (\<lambda>m.
           Inr \<lparr>grsErr = err, grsShards = m, grsSeqNums = getClientSeqNumMap kv\<rparr>))"

definition sk_PutShards :: "PutShardsArgs \<Rightarrow> ShardKV \<Rightarrow> SKErr option \<times> ShardKV" where
  "sk_PutShards args kv = sk_operate PUT_SHARDS (psClientId args) (psSeqNum args) (SPutShards args) kv"

definition sk_DeleteShards :: "DeleteShardsArgs \<Rightarrow> ShardKV \<Rightarrow> SKErr option \<times> ShardKV" where
  "sk_DeleteShards args kv = sk_operate DELETE_SHARDS (dsClientId args) (dsSeqNum args) (SDeleteShards args) kv"

section \<open>Applying\<close>

text \<open>
  The cases of the switch of \<^verbatim>\<open>applyOp\<close>. A read or write in a shard the group does not own
  leaves the client status as it is.
\<close>

definition apply_write :: "(string \<Rightarrow> string \<Rightarrow> ShardKV \<Rightarrow> (SKErr \<times> ShardKV) res) \<Rightarrow> SKPutAppendArgs \<Rightarrow> ShardKV \<Rightarrow> ShardKV res" where
  "apply_write wr args kv =
     (case sk_status (spClientId args) kv of (cs, kv1) \<Rightarrow>
      if \<not> sk_done (spSeqNum args) cs
      then ebind (wr (spKey args) (spValue args) kv1) (\<lambda>(err, kv2).
           Inr (if err \<noteq> SK_ErrWrongGroup then sk_updateSeqNum (spClientId args) (spSeqNum args) kv2 else kv2))
      else Inr kv1)"

definition apply_get :: "SKGetArgs \<Rightarrow> ShardKV \<Rightarrow> ShardKV res" where
  "apply_get args kv =
     (case sk_status (sgClientId args) kv of (cs, kv1) \<Rightarrow>
      if \<not> sk_done (sgSeqNum args) cs
      then ebind (sk_get (sgKey args) kv1) (\<lambda>(v, err).
           Inr (if err \<noteq> SK_ErrWrongGroup then sk_updateSeqNum (sgClientId args) (sgSeqNum args) kv1 else kv1))
      else Inr kv1)"

definition apply_get_shards :: "GetShardsArgs \<Rightarrow> ShardKV \<Rightarrow> ShardKV res" where
  "apply_get_shards args kv =
     (case sk_status (gsClientId args) kv of (cs, kv1) \<Rightarrow>
      Inr (if \<not> sk_done (gsSeqNum args) cs then sk_updateSeqNum (gsClientId args) (gsSeqNum args) kv1 else kv1))"

definition apply_put_shards :: "PutShardsArgs \<Rightarrow> ShardKV \<Rightarrow> ShardKV res" where
  "apply_put_shards args kv =
     (case sk_status (psClientId args) kv of (cs, kv1) \<Rightarrow>
      if \<not> sk_done (psSeqNum args) cs
      then ebind (putShards (psShards args) kv1) (\<lambda>kv2.
           Inr (sk_updateSeqNum (psClientId args) (psSeqNum args) (putClientSeqNumMap (psSeqNums args) kv2)))
      else Inr kv1)"

definition apply_delete_shards :: "DeleteShardsArgs \<Rightarrow> ShardKV \<Rightarrow> ShardKV res" where
  "apply_delete_shards args kv =
     (case sk_status (dsClientId args) kv of (cs, kv1) \<Rightarrow>
      if \<not> sk_done (dsSeqNum args) cs
      then ebind (deleteShards (dsShards args) kv1) (\<lambda>kv2. Inr (sk_updateSeqNum (dsClientId args) (dsSeqNum args) kv2))
      else Inr kv1)"

definition apply_set_config :: "SetConfigArgs \<Rightarrow> ShardKV \<Rightarrow> ShardKV res" where
  "apply_set_config args kv =
     (case sk_status (cfClientId args) kv of (cs, kv1) \<Rightarrow>
      Inr (if \<not> sk_done (cfSeqNum args) cs
           then sk_updateSeqNum (cfClientId args) (cfSeqNum args) (setConfig (Clone (cfConfig args)) kv1)
           else kv1))"

definition sk_types :: "string set" where
  "sk_types = {PUT, APPEND, GET, GET_SHARDS, PUT_SHARDS, DELETE_SHARDS, SET_CONFIG}"

text \<open>The switch: a failed type assertion panics, an unknown type is fatal.\<close>

definition sk_applyOp :: "SKOp \<Rightarrow> ShardKV \<Rightarrow> ShardKV res" where
  "sk_applyOp x kv =
     (if skType x \<notin> sk_types then Inl FatalError
      else case skArgs x of
        SPutAppend a \<Rightarrow> if skType x = PUT then apply_write sk_put a kv
                        else if skType x = APPEND then apply_write sk_append a kv else Inl AssertFailed
      | SGet a \<Rightarrow> if skType x = GET then apply_get a kv else Inl AssertFailed
      | SGetShards a \<Rightarrow> if skType x = GET_SHARDS then apply_get_shards a kv else Inl AssertFailed
      | SPutShards a \<Rightarrow> if skType x = PUT_SHARDS then apply_put_shards a kv else Inl AssertFailed
      | SDeleteShards a \<Rightarrow> if skType x = DELETE_SHARDS then apply_delete_shards a kv else Inl AssertFailed
      | SSetConfig a \<Rightarrow> if skType x = SET_CONFIG then apply_set_config a kv else Inl AssertFailed)"

definition sk_snapshotBytes :: "int \<Rightarrow> ShardKV \<Rightarrow> sktok list" where
  "sk_snapshotBytes logIndex kv =
     [TInt logIndex, TStore (skStore kv), TConfig (skConfig kv), TSeqs (getClientSeqNumMap kv)]"

definition sk_snapshot :: "int \<Rightarrow> ShardKV \<Rightarrow> ShardKV res" where
  "sk_snapshot logIndex kv =
     ebind (Snapshot logIndex (sk_snapshotBytes logIndex kv) (skRf kv)) (\<lambda>rf. Inr (kv\<lparr>skRf := rf\<rparr>))"

text \<open>
  The loop at the end of \<^verbatim>\<open>applySnap\<close> calls \<^verbatim>\<open>updateSeqNum\<close> for each client of the snapshot,
  which is what \<^verbatim>\<open>putClientSeqNumMap\<close> does.
\<close>

fun sk_applySnap :: "sktok list \<Rightarrow> int \<Rightarrow> ShardKV \<Rightarrow> ShardKV res" where
  "sk_applySnap (TInt lastIncludedIndex # TStore st # TConfig config # TSeqs seqs # rest) index kv =
     (if index \<noteq> - 1 \<and> index \<noteq> lastIncludedIndex then Inl FatalError
      else Inr (putClientSeqNumMap seqs (setStore st config kv)))"
| "sk_applySnap _ index kv = Inl FatalError"

definition sk_apply :: "(SKOp ptok \<Rightarrow> nat) \<Rightarrow> (SKOp, sktok) ApplyMsg \<Rightarrow> ShardKV \<Rightarrow> ShardKV res" where
  "sk_apply sz m kv =
     (if amSnapshotValid m then sk_applySnap (amSnapshot m) (amSnapshotIndex m) kv
      else if amCommandValid m
      then case amCommand m of
             None \<Rightarrow> Inl AssertFailed
           | Some x \<Rightarrow>
               ebind (sk_applyOp x kv) (\<lambda>kv1.
               if skMaxState kv1 > 0 \<and> RaftStateSize sz (persister (skRf kv1)) \<ge> skMaxState kv1
               then sk_snapshot (amCommandIndex m) kv1 else Inr kv1)
      else Inr kv)"

definition sk_Kill :: "ShardKV \<Rightarrow> ShardKV" where
  "sk_Kill kv = kv\<lparr>skRf := Kill (skRf kv)\<rparr>"

definition sk_Killed :: "ShardKV \<Rightarrow> bool" where
  "sk_Killed kv = Killed (skRf kv)"

text \<open>One turn of the applier; \<^verbatim>\<open>None\<close> when the server is killed.\<close>

definition sk_applier :: "(SKOp ptok \<Rightarrow> nat) \<Rightarrow> (SKOp, sktok) ApplyMsg \<Rightarrow> ShardKV \<Rightarrow> ShardKV option res" where
  "sk_applier sz m kv = (if sk_Killed kv then Inr None else ebind (sk_apply sz m kv) (\<lambda>kv'. Inr (Some kv')))"

definition zero_config :: Config where
  "zero_config = \<lparr>Num = 0, Shards = replicate NShards 0, Groups = fmempty\<rparr>"

text \<open>
  \<^verbatim>\<open>StartServer\<close>; the two random numbers are the client numbers of the clerk of the
  controller and of the server itself.
\<close>

definition sk_StartServer :: "nat \<Rightarrow> nat \<Rightarrow> (SKOp, sktok) Persister \<Rightarrow> int \<Rightarrow> int \<Rightarrow> nat \<Rightarrow> int \<Rightarrow> int \<Rightarrow> int \<Rightarrow> ShardKV res" where
  "sk_StartServer n i ps maxstate gid ctrlers r1 r2 now =
     ebind (Make n i ps now) (\<lambda>rf.
     Inr \<lparr>skMe = i, skRf = rf, skGid = gid, skMaxState = maxstate, skConfig = zero_config, skNextConfig = zero_config,
          skStore = initStore, skCtrl = sc_MakeClerk ctrlers r1, skClients = Map.empty, skSeqNum = 0, skClientId = r2,
          skLeaders = Map.empty(gid \<mapsto> int i), skProcessing = (\<lambda>_. False), skServers = n,
          skBlocked = [], skWoken = [], skWaiting = [], skReady = []\<rparr>)"

section \<open>The specification of a group\<close>

record gstate =
  gConfig :: Config
  gStore :: "shard_data list"
  gSeqs :: "int \<Rightarrow> int"

definition sk_abs :: "ShardKV \<Rightarrow> gstate" where
  "sk_abs kv = \<lparr>gConfig = skConfig kv, gStore = skStore kv, gSeqs = skLast kv\<rparr>"

fun op_client :: "sk_args \<Rightarrow> int" where
  "op_client (SPutAppend a) = spClientId a" | "op_client (SGet a) = sgClientId a"
| "op_client (SGetShards a) = gsClientId a" | "op_client (SPutShards a) = psClientId a"
| "op_client (SDeleteShards a) = dsClientId a" | "op_client (SSetConfig a) = cfClientId a"

fun op_seq :: "sk_args \<Rightarrow> int" where
  "op_seq (SPutAppend a) = spSeqNum a" | "op_seq (SGet a) = sgSeqNum a"
| "op_seq (SGetShards a) = gsSeqNum a" | "op_seq (SPutShards a) = psSeqNum a"
| "op_seq (SDeleteShards a) = dsSeqNum a" | "op_seq (SSetConfig a) = cfSeqNum a"

text \<open>
  Whether the group accepts an operation: reads and writes only in its own shards.
\<close>

fun g_accepts :: "int \<Rightarrow> sk_args \<Rightarrow> gstate \<Rightarrow> bool" where
  "g_accepts gid (SPutAppend a) g \<longleftrightarrow> Shards (gConfig g) ! key2shard (spKey a) = gid"
| "g_accepts gid (SGet a) g \<longleftrightarrow> Shards (gConfig g) ! key2shard (sgKey a) = gid"
| "g_accepts gid _ g \<longleftrightarrow> True"

text \<open>
  What an accepted operation does to the configuration and the stores. \<^verbatim>\<open>keep\<close> are the
  shards that \<^verbatim>\<open>DeleteShards\<close> must spare although the group does not own them.
\<close>

fun g_effect :: "int \<Rightarrow> (nat \<Rightarrow> bool) \<Rightarrow> SKOp \<Rightarrow> gstate \<Rightarrow> gstate" where
  "g_effect gid keep \<lparr>skType = t, skArgs = SPutAppend a\<rparr> g =
     g\<lparr>gStore := (gStore g)[key2shard (spKey a) :=
         write_data t (spKey a) (spValue a) (gStore g ! key2shard (spKey a))]\<rparr>"
| "g_effect gid keep \<lparr>skType = t, skArgs = SPutShards a\<rparr> g =
     g\<lparr>gStore := put_store gid (fset (fmdom (psShards a))) (psShards a) (Shards (gConfig g)) (gStore g),
       gConfig := (gConfig g)\<lparr>Shards := put_owner gid (fset (fmdom (psShards a))) (Shards (gConfig g))\<rparr>,
       gSeqs := (\<lambda>c. case psSeqNums a c of Some n \<Rightarrow> max n (gSeqs g c) | None \<Rightarrow> gSeqs g c)\<rparr>"
| "g_effect gid keep \<lparr>skType = t, skArgs = SDeleteShards a\<rparr> g =
     g\<lparr>gStore := delete_store (set (dsShards a)) (\<lambda>i. Shards (gConfig g) ! i = gid \<or> keep i) (gStore g)\<rparr>"
| "g_effect gid keep \<lparr>skType = t, skArgs = SSetConfig a\<rparr> g =
     (if Num (cfConfig a) > Num (gConfig g) then g\<lparr>gConfig := cfConfig a\<rparr> else g)"
| "g_effect gid keep x g = g"

definition g_step :: "int \<Rightarrow> (nat \<Rightarrow> bool) \<Rightarrow> SKOp \<Rightarrow> gstate \<Rightarrow> gstate" where
  "g_step gid keep x g =
     (if op_seq (skArgs x) \<le> gSeqs g (op_client (skArgs x)) \<or> \<not> g_accepts gid (skArgs x) g then g
      else let g' = g_effect gid keep x g in
           g'\<lparr>gSeqs := (gSeqs g')(op_client (skArgs x) := max (op_seq (skArgs x)) (gSeqs g' (op_client (skArgs x))))\<rparr>)"

text \<open>The operations that servers and clerks put into the log: type and arguments fit, shards exist.\<close>

fun args_ok :: "string \<Rightarrow> sk_args \<Rightarrow> bool" where
  "args_ok t (SPutAppend a) \<longleftrightarrow> t = PUT \<or> t = APPEND"
| "args_ok t (SGet a) \<longleftrightarrow> t = GET"
| "args_ok t (SGetShards a) \<longleftrightarrow> t = GET_SHARDS"
| "args_ok t (SPutShards a) \<longleftrightarrow> t = PUT_SHARDS \<and> in_range (fset (fmdom (psShards a)))"
| "args_ok t (SDeleteShards a) \<longleftrightarrow> t = DELETE_SHARDS \<and> in_range (set (dsShards a))"
| "args_ok t (SSetConfig a) \<longleftrightarrow> t = SET_CONFIG \<and> wf_config (cfConfig a)"

definition op_ok :: "SKOp \<Rightarrow> bool" where
  "op_ok x \<longleftrightarrow> args_ok (skType x) (skArgs x)"

section \<open>Refinement\<close>

lemma sk_status_spec:
  assumes "sk_status c kv = (cs, kv1)"
  shows "skLastSeqNum cs = skLast kv c" "skLast kv1 = skLast kv" "skClients kv1 c \<noteq> None"
    "\<exists>f. kv1 = kv\<lparr>skClients := f\<rparr>"
proof -
  have "\<exists>f. kv = kv\<lparr>skClients := f\<rparr>" by (rule exI [of _ "skClients kv"]) simp
  then show "skLastSeqNum cs = skLast kv c" "skLast kv1 = skLast kv" "skClients kv1 c \<noteq> None"
    "\<exists>f. kv1 = kv\<lparr>skClients := f\<rparr>"
    using assms by (auto simp: sk_status_def skLast_def fun_eq_iff split: option.splits if_splits)
qed

lemma skLast_frame [simp]:
  "skLast (kv\<lparr>skStore := a\<rparr>) = skLast kv" "skLast (kv\<lparr>skConfig := b\<rparr>) = skLast kv" "skLast (kv\<lparr>skRf := r\<rparr>) = skLast kv"
  "skLast (kv\<lparr>skBlocked := d\<rparr>) = skLast kv" "skLast (kv\<lparr>skWoken := d\<rparr>) = skLast kv"
  "skLast (kv\<lparr>skWaiting := e\<rparr>) = skLast kv" "skLast (kv\<lparr>skReady := e\<rparr>) = skLast kv"
  by (simp_all add: skLast_def fun_eq_iff)

lemma skLast_update: "skLast (sk_updateSeqNum c n kv) = (skLast kv)(c := max n (skLast kv c))"
  by (auto simp: sk_updateSeqNum_def skLast_def fun_eq_iff)

lemma skLast_putMap:
  "skLast (putClientSeqNumMap m kv) = (\<lambda>c. case m c of Some n \<Rightarrow> max n (skLast kv c) | None \<Rightarrow> skLast kv c)"
  by (auto simp: putClientSeqNumMap_def skLast_def fun_eq_iff split: option.splits)

text \<open>The fields that the client status does not touch.\<close>

lemma updateSeqNum_frame [simp]:
  "skStore (sk_updateSeqNum c n kv) = skStore kv" "skConfig (sk_updateSeqNum c n kv) = skConfig kv"
  "skNextConfig (sk_updateSeqNum c n kv) = skNextConfig kv" "skGid (sk_updateSeqNum c n kv) = skGid kv"
  "skMaxState (sk_updateSeqNum c n kv) = skMaxState kv"
  by (simp_all add: sk_updateSeqNum_def)

lemma putMap_frame [simp]:
  "skStore (putClientSeqNumMap m kv) = skStore kv" "skConfig (putClientSeqNumMap m kv) = skConfig kv"
  "skNextConfig (putClientSeqNumMap m kv) = skNextConfig kv" "skGid (putClientSeqNumMap m kv) = skGid kv"
  "skMaxState (putClientSeqNumMap m kv) = skMaxState kv"
  by (simp_all add: putClientSeqNumMap_def)

lemmas sk_type_defs = PUT_def APPEND_def GET_def GET_SHARDS_def PUT_SHARDS_def DELETE_SHARDS_def SET_CONFIG_def

text \<open>The shards a server spares when it deletes.\<close>

abbreviation spared :: "ShardKV \<Rightarrow> nat \<Rightarrow> bool" where
  "spared kv \<equiv> (\<lambda>i. Shards (skNextConfig kv) ! i = skGid kv)"

text \<open>
  What one case of the switch has to show: it returns a well-formed server of the same
  group whose abstraction is the given one.
\<close>

definition goes_to :: "ShardKV \<Rightarrow> ShardKV res \<Rightarrow> gstate \<Rightarrow> bool" where
  "goes_to kv r g \<longleftrightarrow> (\<exists>kv'. r = Inr kv' \<and> wf_skv kv' \<and> sk_abs kv' = g \<and>
     skGid kv' = skGid kv \<and> skNextConfig kv' = skNextConfig kv \<and> skMaxState kv' = skMaxState kv)"

lemma goes_toI:
  assumes "r = Inr kv'" "wf_skv kv'" "sk_abs kv' = g" "skGid kv' = skGid kv" "skNextConfig kv' = skNextConfig kv"
    "skMaxState kv' = skMaxState kv"
  shows "goes_to kv r g"
  using assms unfolding goes_to_def by blast

lemma sk_status_wf:
  assumes "wf_skv kv" and "sk_status c kv = (cs, kv1)"
  shows "wf_skv kv1" "sk_abs kv1 = sk_abs kv" "skGid kv1 = skGid kv" "skNextConfig kv1 = skNextConfig kv"
    "skStore kv1 = skStore kv" "skConfig kv1 = skConfig kv" "skLast kv1 = skLast kv"
    "sk_done n cs \<longleftrightarrow> n \<le> skLast kv c" "skMaxState kv1 = skMaxState kv" "skBlocked kv1 = skBlocked kv" "skWoken kv1 = skWoken kv"
  using assms(1) sk_status_spec [OF assms(2)] by (auto simp: sk_abs_def skv_wf sk_done_def)

lemma apply_write_refines:
  assumes wf: "wf_skv kv" and t: "(t = PUT \<and> wr = sk_put) \<or> (t = APPEND \<and> wr = sk_append)"
  shows "goes_to kv (apply_write wr a kv) (g_step (skGid kv) (spared kv) \<lparr>skType = t, skArgs = SPutAppend a\<rparr> (sk_abs kv))"
proof -
  obtain cs kv1 where g: "sk_status (spClientId a) kv = (cs, kv1)" by fastforce
  note s = sk_status_wf [OF wf g]
  have w: "wr (spKey a) (spValue a) kv1 = Inr (if owns kv1 (key2shard (spKey a))
      then (SK_OK, sk_written t (spKey a) (spValue a) kv1) else (SK_ErrWrongGroup, kv1))"
    using t sk_write_wf [OF s(1)] by auto
  show ?thesis
  proof (cases "spSeqNum a \<le> skLast kv (spClientId a) \<or> \<not> owns kv (key2shard (spKey a))")
    case True
    then have "apply_write wr a kv = Inr kv1"
      using s by (auto simp: apply_write_def g w)
    moreover have "g_step (skGid kv) (spared kv) \<lparr>skType = t, skArgs = SPutAppend a\<rparr> (sk_abs kv) = sk_abs kv"
      using True by (auto simp: g_step_def sk_abs_def)
    ultimately show ?thesis using s by (intro goes_toI [of _ kv1]) simp_all
  next
    case False
    let ?kv = "sk_updateSeqNum (spClientId a) (spSeqNum a) (sk_written t (spKey a) (spValue a) kv1)"
    have "apply_write wr a kv = Inr ?kv" using False s by (simp add: apply_write_def g w)
    moreover have "sk_abs ?kv = g_step (skGid kv) (spared kv) \<lparr>skType = t, skArgs = SPutAppend a\<rparr> (sk_abs kv)"
      using False s by (simp add: g_step_def sk_abs_def skLast_update sk_written_def)
    moreover have "wf_skv ?kv" using s(1) by (simp add: skv_wf sk_written_def)
    ultimately show ?thesis using s by (intro goes_toI [of _ ?kv]) (simp_all add: sk_written_def)
  qed
qed

lemma apply_get_refines:
  assumes wf: "wf_skv kv"
  shows "goes_to kv (apply_get a kv) (g_step (skGid kv) (spared kv) \<lparr>skType = GET, skArgs = SGet a\<rparr> (sk_abs kv))"
proof -
  obtain cs kv1 where g: "sk_status (sgClientId a) kv = (cs, kv1)" by fastforce
  note s = sk_status_wf [OF wf g]
  show ?thesis
  proof (cases "sgSeqNum a \<le> skLast kv (sgClientId a) \<or> \<not> owns kv (key2shard (sgKey a))")
    case True
    then have "apply_get a kv = Inr kv1"
      using s by (auto simp: apply_get_def g sk_get_wf [OF s(1)])
    moreover have "g_step (skGid kv) (spared kv) \<lparr>skType = GET, skArgs = SGet a\<rparr> (sk_abs kv) = sk_abs kv"
      using True by (auto simp: g_step_def sk_abs_def)
    ultimately show ?thesis using s by (intro goes_toI [of _ kv1]) simp_all
  next
    case False
    let ?kv = "sk_updateSeqNum (sgClientId a) (sgSeqNum a) kv1"
    have "apply_get a kv = Inr ?kv"
      using False s by (auto simp: apply_get_def g sk_get_wf [OF s(1)] split: option.splits)
    moreover have "sk_abs ?kv = g_step (skGid kv) (spared kv) \<lparr>skType = GET, skArgs = SGet a\<rparr> (sk_abs kv)"
      using False s by (simp add: g_step_def sk_abs_def skLast_update)
    moreover have "wf_skv ?kv" using s(1) by (simp add: skv_wf)
    ultimately show ?thesis using s by (intro goes_toI [of _ ?kv]) simp_all
  qed
qed

lemma apply_get_shards_refines:
  assumes wf: "wf_skv kv"
  shows "goes_to kv (apply_get_shards a kv)
    (g_step (skGid kv) (spared kv) \<lparr>skType = GET_SHARDS, skArgs = SGetShards a\<rparr> (sk_abs kv))"
proof -
  obtain cs kv1 where g: "sk_status (gsClientId a) kv = (cs, kv1)" by fastforce
  note s = sk_status_wf [OF wf g]
  let ?kv = "if gsSeqNum a \<le> skLast kv (gsClientId a) then kv1 else sk_updateSeqNum (gsClientId a) (gsSeqNum a) kv1"
  have "apply_get_shards a kv = Inr ?kv" using s(8) by (simp add: apply_get_shards_def g)
  moreover have "sk_abs ?kv = g_step (skGid kv) (spared kv) \<lparr>skType = GET_SHARDS, skArgs = SGetShards a\<rparr> (sk_abs kv)"
    using s by (simp add: g_step_def sk_abs_def skLast_update)
  moreover have "wf_skv ?kv" using s(1) by (simp add: skv_wf)
  ultimately show ?thesis using s by (intro goes_toI [of _ ?kv]) simp_all
qed

lemma apply_put_shards_refines:
  assumes wf: "wf_skv kv" and r: "in_range (fset (fmdom (psShards a)))"
  shows "goes_to kv (apply_put_shards a kv)
    (g_step (skGid kv) (spared kv) \<lparr>skType = PUT_SHARDS, skArgs = SPutShards a\<rparr> (sk_abs kv))"
proof -
  obtain cs kv1 where g: "sk_status (psClientId a) kv = (cs, kv1)" by fastforce
  note s = sk_status_wf [OF wf g]
  have p: "putShards (psShards a) kv1 = Inr (shards_put (fset (fmdom (psShards a))) (psShards a) kv1)"
    using put_shards_wf [OF s(1), of "GetSortedKeysOfGroups (psShards a)"] r by (simp add: putShards_def)
  let ?kv = "if psSeqNum a \<le> skLast kv (psClientId a) then kv1
    else sk_updateSeqNum (psClientId a) (psSeqNum a) (putClientSeqNumMap (psSeqNums a)
      (shards_put (fset (fmdom (psShards a))) (psShards a) kv1))"
  have "apply_put_shards a kv = Inr ?kv" using s(8) by (simp add: apply_put_shards_def g p)
  moreover have "sk_abs ?kv = g_step (skGid kv) (spared kv) \<lparr>skType = PUT_SHARDS, skArgs = SPutShards a\<rparr> (sk_abs kv)"
    using s by (simp add: g_step_def sk_abs_def skLast_update skLast_putMap shards_put_def cong: option.case_cong)
  moreover have "wf_skv ?kv" using s(1) by (simp add: skv_wf shards_put_def put_store_def put_owner_def)
  ultimately show ?thesis using s by (intro goes_toI [of _ ?kv]) (simp_all add: shards_put_def)
qed

lemma apply_delete_shards_refines:
  assumes wf: "wf_skv kv" and r: "in_range (set (dsShards a))"
  shows "goes_to kv (apply_delete_shards a kv)
    (g_step (skGid kv) (spared kv) \<lparr>skType = DELETE_SHARDS, skArgs = SDeleteShards a\<rparr> (sk_abs kv))"
proof -
  obtain cs kv1 where g: "sk_status (dsClientId a) kv = (cs, kv1)" by fastforce
  note s = sk_status_wf [OF wf g]
  let ?kv = "if dsSeqNum a \<le> skLast kv (dsClientId a) then kv1
    else sk_updateSeqNum (dsClientId a) (dsSeqNum a) (shards_deleted (set (dsShards a)) kv1)"
  have "apply_delete_shards a kv = Inr ?kv" using s(8) deleteShards_wf [OF s(1) r] by (simp add: apply_delete_shards_def g)
  moreover have "sk_abs ?kv = g_step (skGid kv) (spared kv) \<lparr>skType = DELETE_SHARDS, skArgs = SDeleteShards a\<rparr> (sk_abs kv)"
    using s by (simp add: g_step_def sk_abs_def skLast_update shards_deleted_def)
  moreover have "wf_skv ?kv" using s(1) by (simp add: skv_wf shards_deleted_def delete_store_def)
  ultimately show ?thesis using s by (intro goes_toI [of _ ?kv]) (simp_all add: shards_deleted_def)
qed

lemma apply_set_config_refines:
  assumes wf: "wf_skv kv" and r: "wf_config (cfConfig a)"
  shows "goes_to kv (apply_set_config a kv)
    (g_step (skGid kv) (spared kv) \<lparr>skType = SET_CONFIG, skArgs = SSetConfig a\<rparr> (sk_abs kv))"
proof -
  obtain cs kv1 where g: "sk_status (cfClientId a) kv = (cs, kv1)" by fastforce
  note s = sk_status_wf [OF wf g]
  let ?kv = "if cfSeqNum a \<le> skLast kv (cfClientId a) then kv1
    else sk_updateSeqNum (cfClientId a) (cfSeqNum a) (setConfig (cfConfig a) kv1)"
  have "apply_set_config a kv = Inr ?kv" using s(8) by (simp add: apply_set_config_def g Clone_id)
  moreover have "sk_abs ?kv = g_step (skGid kv) (spared kv) \<lparr>skType = SET_CONFIG, skArgs = SSetConfig a\<rparr> (sk_abs kv)"
    using s by (simp add: g_step_def sk_abs_def skLast_update setConfig_def)
  moreover have "wf_skv ?kv" using s(1) r by (simp add: skv_wf setConfig_def)
  ultimately show ?thesis using s by (intro goes_toI [of _ ?kv]) (simp_all add: setConfig_def)
qed

lemmas apply_refines = apply_write_refines apply_get_refines apply_get_shards_refines apply_put_shards_refines
  apply_delete_shards_refines apply_set_config_refines

lemma applyOp_refines:
  assumes wf: "wf_skv kv" and x: "op_ok x"
  shows "goes_to kv (sk_applyOp x kv) (g_step (skGid kv) (spared kv) x (sk_abs kv))"
proof -
  obtain t a where xe: "x = \<lparr>skType = t, skArgs = a\<rparr>" by (cases x)
  have ok: "args_ok t a" using x by (simp add: xe op_ok_def)
  show ?thesis
  proof (cases a)
    case (SPutAppend b)
    with ok have t: "t = PUT \<or> t = APPEND" by simp
    then show ?thesis
    proof
      assume "t = PUT"
      with apply_write_refines [OF wf, of t sk_put b] show ?thesis by (simp add: xe SPutAppend sk_applyOp_def sk_types_def)
    next
      assume "t = APPEND"
      with apply_write_refines [OF wf, of t sk_append b] show ?thesis
        by (simp add: xe SPutAppend sk_applyOp_def sk_types_def sk_type_defs)
    qed
  qed (use wf ok in \<open>simp_all add: xe sk_applyOp_def sk_types_def apply_refines\<close>)
qed

end
