(* ===== verification/Shard_Group.thy ===== *)
theory Shard_Group
  imports Shard_Server
begin

text \<open>
  The life of the replicas of one shard group: every interleaving of commands, installed
  snapshots, calls of clients and the goroutines that change configurations. Replicas follow
  the specification of the group; the properties say what that gives and where it ends.
\<close>

section \<open>Runs of a replica\<close>

definition sk_msg :: "nat \<Rightarrow> SKOp \<Rightarrow> (SKOp, sktok) ApplyMsg" where
  "sk_msg n x = \<lparr>amCommandValid = True, amCommand = Some x, amCommandIndex = int n,
     amSnapshotValid = False, amSnapshot = [], amSnapshotTerm = 0, amSnapshotIndex = 0\<rparr>"

definition sk_snap_msg :: "nat \<Rightarrow> int \<Rightarrow> sktok list \<Rightarrow> (SKOp, sktok) ApplyMsg" where
  "sk_snap_msg k t b = \<lparr>amCommandValid = False, amCommand = None, amCommandIndex = 0,
     amSnapshotValid = True, amSnapshot = b, amSnapshotTerm = t, amSnapshotIndex = int k\<rparr>"

text \<open>
  \<^verbatim>\<open>sk_run sz gid log n kv\<close>: the replica \<^verbatim>\<open>kv\<close> of group \<^verbatim>\<open>gid\<close> has consumed the first \<^verbatim>\<open>n\<close>
  commands of the group's log. The rule \<^verbatim>\<open>poll\<close> stands for the goroutines \<^verbatim>\<open>pollConfig\<close> and
  \<^verbatim>\<open>migration\<close>, which change only the fields it names (theory \<^verbatim>\<open>Shard_Migration\<close>).
\<close>

inductive sk_run :: "(SKOp ptok \<Rightarrow> nat) \<Rightarrow> int \<Rightarrow> SKOp list \<Rightarrow> nat \<Rightarrow> ShardKV \<Rightarrow> bool" for sz gid log where
  boot: "sk_StartServer np i ps mx gid nc r1 r2 now = Inr kv \<Longrightarrow> sk_run sz gid log 0 kv"
| command: "sk_run sz gid log n kv \<Longrightarrow> n < length log \<Longrightarrow>
    sk_apply sz (sk_msg (Suc n) (log ! n)) kv = Inr kv' \<Longrightarrow> sk_run sz gid log (Suc n) kv'"
| install: "sk_run sz gid log n kv \<Longrightarrow> sk_run sz gid log k kv0 \<Longrightarrow> n \<le> k \<Longrightarrow>
    sk_apply sz (sk_snap_msg k t (sk_snapshotBytes (int k) kv0)) kv = Inr kv' \<Longrightarrow> sk_run sz gid log k kv'"
| call: "sk_run sz gid log n kv \<Longrightarrow> sk_operate ty c q a kv = (res, kv') \<Longrightarrow> sk_run sz gid log n kv'"
| resume: "sk_run sz gid log n kv \<Longrightarrow> sk_operate_resume c q kv = (res, kv') \<Longrightarrow> sk_run sz gid log n kv'"
| get_shards: "sk_run sz gid log n kv \<Longrightarrow> sk_GetShards a kv = (res, kv') \<Longrightarrow> sk_run sz gid log n kv'"
| get_shards_resume: "sk_run sz gid log n kv \<Longrightarrow> sk_GetShards_resume a kv = (res, kv') \<Longrightarrow> sk_run sz gid log n kv'"
| raft: "sk_run sz gid log n kv \<Longrightarrow> sk_run sz gid log n (kv\<lparr>skRf := rf\<rparr>)"
| poll: "sk_run sz gid log n kv \<Longrightarrow> wf_config c \<Longrightarrow>
    sk_run sz gid log n (kv\<lparr>skNextConfig := c, skSeqNum := q, skLeaders := l, skProcessing := p, skCtrl := ck\<rparr>)"

section \<open>The run of the specification\<close>

definition g_init :: gstate where
  "g_init = \<lparr>gConfig = zero_config, gStore = initStore, gSeqs = (\<lambda>_. 0)\<rparr>"

definition g_run :: "int \<Rightarrow> SKOp list \<Rightarrow> gstate" where
  "g_run gid xs = fold (g_step gid (\<lambda>_. False)) xs g_init"

fun is_delete :: "sk_args \<Rightarrow> bool" where
  "is_delete (SDeleteShards a) \<longleftrightarrow> True"
| "is_delete _ \<longleftrightarrow> False"

definition no_deletes :: "SKOp list \<Rightarrow> bool" where
  "no_deletes xs \<longleftrightarrow> (\<forall>x \<in> set xs. \<not> is_delete (skArgs x))"

text \<open>Two group states with the same configuration and sequence numbers and, if \<^verbatim>\<open>b\<close>, the same stores.\<close>

definition similar :: "bool \<Rightarrow> gstate \<Rightarrow> gstate \<Rightarrow> bool" where
  "similar b g h \<longleftrightarrow> gConfig g = gConfig h \<and> gSeqs g = gSeqs h \<and> (b \<longrightarrow> gStore g = gStore h)"

lemma g_accepts_similar: "gConfig g = gConfig h \<Longrightarrow> g_accepts gid a g = g_accepts gid a h"
  by (cases a) simp_all

lemma g_effect_similar:
  assumes "similar b g h" and "b \<longrightarrow> \<not> is_delete (skArgs x)"
  shows "similar b (g_effect gid k x g) (g_effect gid k' x h)"
proof -
  obtain t a where x: "x = \<lparr>skType = t, skArgs = a\<rparr>" by (cases x)
  show ?thesis using assms by (cases a) (auto simp: x similar_def cong: option.case_cong)
qed

lemma g_step_similar:
  assumes "similar b g h" and "b \<longrightarrow> \<not> is_delete (skArgs x)"
  shows "similar b (g_step gid k x g) (g_step gid k' x h)"
proof -
  have eq: "gSeqs g = gSeqs h" "g_accepts gid (skArgs x) g = g_accepts gid (skArgs x) h"
    using assms(1) g_accepts_similar unfolding similar_def by blast+
  show ?thesis
    using assms(1) g_effect_similar [OF assms, of gid k k'] by (simp add: g_step_def eq) (auto simp: similar_def Let_def)
qed

lemma similar_weaken: "similar b g h \<Longrightarrow> (b' \<longrightarrow> b) \<Longrightarrow> similar b' g h"
  by (auto simp: similar_def)

lemma g_effect_seqs: "gSeqs g c \<le> gSeqs (g_effect gid keep x g) c"
proof -
  obtain t a where x: "x = \<lparr>skType = t, skArgs = a\<rparr>" by (cases x)
  show ?thesis by (cases a) (auto simp: x split: option.splits)
qed

lemma g_step_seqs: "gSeqs g c \<le> gSeqs (g_step gid keep x g) c"
  using g_effect_seqs [of g c gid keep x] by (auto simp: g_step_def Let_def max_def)

lemma g_run_seqs_mono: "gSeqs (g_run gid xs) c \<le> gSeqs (g_run gid (xs @ ys)) c"
proof (induction ys rule: rev_induct)
  case (snoc y ys)
  have "g_run gid (xs @ ys @ [y]) = g_step gid (\<lambda>_. False) y (g_run gid (xs @ ys))" by (simp add: g_run_def)
  with snoc g_step_seqs [of "g_run gid (xs @ ys)" c gid "\<lambda>_. False" y] show ?case by simp
qed simp

lemma g_run_take_mono: "n \<le> k \<Longrightarrow> gSeqs (g_run gid (take n log)) c \<le> gSeqs (g_run gid (take k log)) c"
proof -
  assume "n \<le> k"
  then obtain d where "k = n + d" using le_Suc_ex by blast
  then show ?thesis using g_run_seqs_mono [of gid "take n log" c] by (simp add: take_add)
qed

lemma g_run_seqs_nonneg: "0 \<le> gSeqs (g_run gid xs) c"
  using g_run_seqs_mono [of gid "[]" c xs] by (simp add: g_run_def g_init_def)

lemma g_run_snoc: "g_run gid (xs @ [x]) = g_step gid (\<lambda>_. False) x (g_run gid xs)"
  by (simp add: g_run_def)

text \<open>Consuming an accepted operation leaves its sequence number, or a later one, recorded.\<close>

lemma g_step_records:
  "g_accepts gid (skArgs x) g \<Longrightarrow> op_seq (skArgs x) \<le> gSeqs (g_step gid keep x g) (op_client (skArgs x))"
  by (simp add: g_step_def Let_def)

section \<open>The invariant of a run\<close>

definition sk_inv :: "int \<Rightarrow> SKOp list \<Rightarrow> nat \<Rightarrow> ShardKV \<Rightarrow> bool" where
  "sk_inv gid log n kv \<longleftrightarrow> n \<le> length log \<and> wf_skv kv \<and> skGid kv = gid \<and>
     similar (no_deletes (take n log)) (sk_abs kv) (g_run gid (take n log))"

lemma sk_invD:
  assumes "sk_inv gid log n kv"
  shows "n \<le> length log" "wf_skv kv" "skGid kv = gid"
    "skConfig kv = gConfig (g_run gid (take n log))" "skLast kv = gSeqs (g_run gid (take n log))"
    "no_deletes (take n log) \<Longrightarrow> skStore kv = gStore (g_run gid (take n log))"
  using assms by (auto simp: sk_inv_def similar_def sk_abs_def)

lemma sk_inv_frame:
  assumes "sk_inv gid log n kv" and "sk_abs kv' = sk_abs kv" "skGid kv' = skGid kv" "wf_config (skNextConfig kv')"
  shows "sk_inv gid log n kv'"
  using assms by (auto simp: sk_inv_def sk_abs_def skv_wf)

lemma setStore_wf: "length st = NShards \<Longrightarrow> map2 (++) initStore st = st"
  by (rule nth_equalityI) (simp_all add: initStore_def)

lemma sk_applySnap_restores:
  assumes s: "wf_skv s" and le: "\<And>c. 0 \<le> skLast t c \<and> skLast t c \<le> skLast s c"
  shows "\<exists>t'. sk_applySnap (sk_snapshotBytes i s) i t = Inr t' \<and> sk_abs t' = sk_abs s \<and>
    skGid t' = skGid t \<and> skNextConfig t' = skNextConfig t"
proof -
  let ?t = "putClientSeqNumMap (getClientSeqNumMap s) (setStore (skStore s) (skConfig s) t)"
  have "skLast ?t c = skLast s c" for c
  proof -
    have "skLast s c = 0" if "skClients s c = None" using that by (simp add: skLast_def)
    with le [of c] show ?thesis
      by (auto simp: skLast_putMap getClientSeqNumMap_def setStore_def split: option.splits)
        (auto simp: skLast_def)
  qed
  then have "skLast ?t = skLast s" by blast
  then have "sk_abs ?t = sk_abs s"
    using s by (simp add: sk_abs_def setStore_def setStore_wf skv_wf Clone_id)
  then show ?thesis by (simp add: sk_snapshotBytes_def setStore_def)
qed

lemma sk_apply_command:
  assumes "sk_apply sz (sk_msg n x) kv = Inr kv'"
  obtains kv1 rf where "sk_applyOp x kv = Inr kv1" "kv' = kv1\<lparr>skRf := rf\<rparr>"
proof -
  have id: "\<exists>rf. kv1 = kv1\<lparr>skRf := rf\<rparr>" for kv1 :: ShardKV by (rule exI [of _ "skRf kv1"]) simp
  obtain kv1 where kv1: "sk_applyOp x kv = Inr kv1" "kv' = kv1 \<or> sk_snapshot (int n) kv1 = Inr kv'"
    using assms by (auto simp: sk_apply_def sk_msg_def ebind_eq_Inr split: if_splits)
  then have "\<exists>rf. kv' = kv1\<lparr>skRf := rf\<rparr>"
    using id [of kv1] by (auto simp: sk_snapshot_def ebind_eq_Inr)
  with kv1(1) that show thesis by blast
qed

lemma sk_abs_frame [simp]:
  "sk_abs (kv\<lparr>skRf := r\<rparr>) = sk_abs kv" "sk_abs (kv\<lparr>skBlocked := d\<rparr>) = sk_abs kv" "sk_abs (kv\<lparr>skWoken := d\<rparr>) = sk_abs kv"
  "sk_abs (kv\<lparr>skWaiting := e\<rparr>) = sk_abs kv" "sk_abs (kv\<lparr>skReady := e\<rparr>) = sk_abs kv"
  by (simp_all add: sk_abs_def)

lemma sk_inv_operate:
  assumes "sk_inv gid log n kv" and "sk_operate ty c q a kv = (res, kv')"
  shows "sk_inv gid log n kv'"
proof -
  obtain cs kv1 where g: "sk_status c kv = (cs, kv1)" by fastforce
  note s = sk_status_wf [OF sk_invD(2) [OF assms(1)] g]
  have "\<exists>rf b. kv' = kv1 \<or> kv' = kv1\<lparr>skRf := rf, skBlocked := b\<rparr> \<or> kv' = kv1\<lparr>skRf := rf\<rparr>"
    using assms(2) by (auto simp: sk_operate_def g split: if_splits prod.splits)
  then have "sk_abs kv' = sk_abs kv" "skGid kv' = skGid kv" "skNextConfig kv' = skNextConfig kv" using s(2-4) by auto
  with sk_invD(2) [OF assms(1)] show ?thesis by (intro sk_inv_frame [OF assms(1)]) (simp_all add: wf_skv_def)
qed

lemma sk_inv_resume:
  assumes "sk_inv gid log n kv" and "sk_operate_resume c q kv = (res, kv')"
  shows "sk_inv gid log n kv'"
proof -
  obtain cs kv1 where g: "sk_status c (kv\<lparr>skWoken := remove1 (c, q) (skWoken kv)\<rparr>) = (cs, kv1)" by fastforce
  have "wf_skv (kv\<lparr>skWoken := remove1 (c, q) (skWoken kv)\<rparr>)" using sk_invD(2) [OF assms(1)] by (simp add: skv_wf)
  note s = sk_status_wf [OF this g]
  have "\<exists>b. kv' = kv1 \<or> kv' = kv1\<lparr>skBlocked := b\<rparr>"
    using assms(2) by (auto simp: sk_operate_resume_def g split: if_splits)
  then have "sk_abs kv' = sk_abs kv" "skGid kv' = skGid kv" "skNextConfig kv' = skNextConfig kv" using s(2-4) by auto
  with sk_invD(2) [OF assms(1)] show ?thesis by (intro sk_inv_frame [OF assms(1)]) (simp_all add: wf_skv_def)
qed

lemma sk_inv_get_shards:
  assumes "sk_inv gid log n kv" and "sk_GetShards a kv = (res, kv')"
  shows "sk_inv gid log n kv'"
proof (cases "Num (skConfig kv) < gsConfigNum a")
  case True
  with assms sk_invD(2) [OF assms(1)] show ?thesis
    by (intro sk_inv_frame [OF assms(1)]) (auto simp: sk_GetShards_def wf_skv_def)
next
  case False
  with assms show ?thesis by (auto simp: sk_GetShards_def intro: sk_inv_operate)
qed

lemma sk_inv_command:
  assumes i: "sk_inv gid log n kv" and n: "n < length log" and ok: "op_ok (log ! n)"
    and ap: "sk_apply sz (sk_msg (Suc n) (log ! n)) kv = Inr kv'"
  shows "sk_inv gid log (Suc n) kv'"
proof -
  note d = sk_invD [OF i]
  obtain kv1 rf where kv1: "sk_applyOp (log ! n) kv = Inr kv1" "kv' = kv1\<lparr>skRf := rf\<rparr>" using ap by (rule sk_apply_command)
  from applyOp_refines [OF d(2) ok] kv1(1)
  have r: "wf_skv kv1" "sk_abs kv1 = g_step gid (spared kv) (log ! n) (sk_abs kv)" "skGid kv1 = gid"
    unfolding goes_to_def d(3) by auto
  let ?b = "no_deletes (take (Suc n) log)"
  have tk: "take (Suc n) log = take n log @ [log ! n]" using n by (rule take_Suc_conv_app_nth)
  then have b: "?b \<longrightarrow> no_deletes (take n log) \<and> \<not> is_delete (skArgs (log ! n))" by (auto simp: no_deletes_def)
  have "similar ?b (sk_abs kv) (g_run gid (take n log))"
    using i b similar_weaken unfolding sk_inv_def by blast
  from g_step_similar [OF this, of "log ! n" gid "spared kv" "\<lambda>_. False"] b r(2)
  have "similar ?b (sk_abs kv1) (g_run gid (take (Suc n) log))"
    by (simp add: tk g_run_def)
  then show ?thesis using r n by (simp add: sk_inv_def kv1(2) skv_wf)
qed

lemma sk_inv_install:
  assumes t: "sk_inv gid log n kv" and s: "sk_inv gid log k kv0" and le: "n \<le> k"
    and ap: "sk_apply sz (sk_snap_msg k tm (sk_snapshotBytes (int k) kv0)) kv = Inr kv'"
  shows "sk_inv gid log k kv'"
proof -
  have "0 \<le> skLast kv c \<and> skLast kv c \<le> skLast kv0 c" for c
    unfolding sk_invD(5) [OF t] sk_invD(5) [OF s]
    using g_run_take_mono [OF le, of gid log c] g_run_seqs_mono [of gid "[]" c "take n log"]
    by (simp add: g_run_def g_init_def)
  from sk_applySnap_restores [OF sk_invD(2) [OF s] this, of "int k"] ap
  have "sk_abs kv' = sk_abs kv0" "skGid kv' = skGid kv0" "skNextConfig kv' = skNextConfig kv"
    using sk_invD(3) [OF t] sk_invD(3) [OF s] by (auto simp: sk_apply_def sk_snap_msg_def)
  with sk_invD(2) [OF t] show ?thesis by (intro sk_inv_frame [OF s]) (simp_all add: wf_skv_def)
qed

lemma sk_run_inv:
  assumes "sk_run sz gid log n kv" and ok: "\<forall>x \<in> set log. op_ok x"
  shows "sk_inv gid log n kv"
  using assms(1)
proof (induction rule: sk_run.induct)
  case (boot np i ps mx nc r1 r2 now kv)
  then show ?case
    by (auto simp: sk_StartServer_def ebind_eq_Inr sk_inv_def similar_def sk_abs_def g_run_def g_init_def skv_wf
        zero_config_def initStore_def skLast_def fun_eq_iff)
next
  case (command n kv kv')
  show ?case by (rule sk_inv_command [OF command.IH command.hyps(2) _ command.hyps(3)]) (use ok command.hyps(2) in simp)
next
  case (install n kv k kv0 t kv')
  show ?case by (rule sk_inv_install [OF install.IH install.hyps(3,4)])
next
  case (get_shards_resume n kv a res kv')
  have "sk_inv gid log n (kv\<lparr>skReady := remove1 a (skReady kv)\<rparr>)"
    using sk_invD(2) [OF get_shards_resume.IH]
    by (intro sk_inv_frame [OF get_shards_resume.IH]) (simp_all add: wf_skv_def)
  from sk_inv_get_shards [OF this] get_shards_resume.hyps(2) show ?case unfolding sk_GetShards_resume_def by blast
next
  case (raft n kv rf)
  then show ?case using sk_invD(2) [OF raft.IH] by (intro sk_inv_frame [OF raft.IH]) (simp_all add: wf_skv_def)
next
  case (poll n kv c q l p ck)
  then show ?case by (intro sk_inv_frame [OF poll.IH]) (simp_all add: sk_abs_def skLast_def fun_eq_iff)
next
  case (call n kv ty c q a res kv')
  show ?case by (rule sk_inv_operate [OF call.IH call.hyps(2)])
next
  case (resume n kv c q res kv')
  show ?case by (rule sk_inv_resume [OF resume.IH resume.hyps(2)])
next
  case (get_shards n kv a res kv')
  show ?case by (rule sk_inv_get_shards [OF get_shards.IH get_shards.hyps(2)])
qed

section \<open>Replaying a log\<close>

lemma sk_run_step:
  assumes r: "sk_run sz gid log n kv" and n: "n < length log" and ok: "\<forall>x \<in> set log. op_ok x" and mx: "skMaxState kv \<le> 0"
  shows "\<exists>kv'. sk_run sz gid log (Suc n) kv' \<and> sk_abs kv' = g_step gid (spared kv) (log ! n) (sk_abs kv) \<and>
    skGid kv' = skGid kv \<and> skNextConfig kv' = skNextConfig kv \<and> skMaxState kv' = skMaxState kv"
proof -
  note d = sk_invD [OF sk_run_inv [OF r ok]]
  from applyOp_refines [OF d(2), of "log ! n"] ok n obtain kv' where
    kv': "sk_applyOp (log ! n) kv = Inr kv'" "sk_abs kv' = g_step gid (spared kv) (log ! n) (sk_abs kv)"
    "skGid kv' = skGid kv" "skNextConfig kv' = skNextConfig kv" "skMaxState kv' = skMaxState kv"
    unfolding goes_to_def d(3) by auto
  then have "sk_apply sz (sk_msg (Suc n) (log ! n)) kv = Inr kv'" using mx by (simp add: sk_apply_def sk_msg_def)
  from sk_run.command [OF r n this] kv' show ?thesis by blast
qed

lemma sk_run_steps:
  assumes "sk_run sz gid log n kv" and "n \<le> k" "k \<le> length log" and ok: "\<forall>x \<in> set log. op_ok x" and "skMaxState kv \<le> 0"
  shows "\<exists>kv'. sk_run sz gid log k kv' \<and>
    sk_abs kv' = fold (g_step gid (\<lambda>i. Shards (skNextConfig kv) ! i = gid)) (take (k - n) (drop n log)) (sk_abs kv) \<and>
    skNextConfig kv' = skNextConfig kv \<and> skMaxState kv' = skMaxState kv"
  using assms(2,3)
proof (induction k rule: dec_induct)
  case base
  show ?case using assms(1) by (intro exI [of _ kv]) simp
next
  case (step m)
  then obtain kv1 where kv1: "sk_run sz gid log m kv1"
    "sk_abs kv1 = fold (g_step gid (\<lambda>i. Shards (skNextConfig kv) ! i = gid)) (take (m - n) (drop n log)) (sk_abs kv)"
    "skNextConfig kv1 = skNextConfig kv" "skMaxState kv1 = skMaxState kv" by auto
  have g: "skGid kv1 = gid" using sk_invD(3) [OF sk_run_inv [OF kv1(1) ok]] .
  have m: "m < length log" and "Suc m - n = Suc (m - n)" using step by simp_all
  then have "take (Suc m - n) (drop n log) = take (m - n) (drop n log) @ [log ! m]"
    using step(1) by (simp add: take_Suc_conv_app_nth)
  moreover have "skMaxState kv1 \<le> 0" using kv1(4) assms(5) by simp
  ultimately show ?case using sk_run_step [OF kv1(1) m ok] kv1 g by auto
qed

definition sk_boot :: ShardKV where
  "sk_boot = \<lparr>skMe = 0, skRf = boot_node 3 0, skGid = 1, skMaxState = - 1, skConfig = zero_config, skNextConfig = zero_config,
     skStore = initStore, skCtrl = sc_MakeClerk 3 5, skClients = Map.empty, skSeqNum = 0, skClientId = 6,
     skLeaders = Map.empty(1 \<mapsto> 0), skProcessing = (\<lambda>_. False), skServers = 3,
     skBlocked = [], skWoken = [], skWaiting = [], skReady = []\<rparr>"

lemma sk_boot_run: "sk_run sz 1 log 0 sk_boot"
  by (rule sk_run.boot [of 3 0 MakePersister "- 1" 1 3 5 6 0]) (simp add: sk_StartServer_def Make_boot sk_boot_def)

lemma sk_boot_abs: "sk_abs sk_boot = g_init"
  by (simp add: sk_abs_def g_init_def sk_boot_def skLast_def fun_eq_iff)

lemma sk_get_cong:
  "skConfig kv = skConfig kv' \<Longrightarrow> skGid kv = skGid kv' \<Longrightarrow> skStore kv = skStore kv' \<Longrightarrow> sk_get key kv = sk_get key kv'"
  by (simp add: sk_get_def cong: if_cong)

lemma sk_operate_answers: "fst (sk_operate ty c q a kv) \<in> {None, Some SK_OK, Some SK_ErrWrongLeader}"
proof -
  obtain cs kv1 where g: "sk_status c kv = (cs, kv1)" by fastforce
  obtain r rf where st: "Start \<lparr>skType = ty, skArgs = a\<rparr> (skRf kv1) = (r, rf)" by fastforce
  show ?thesis by (cases r) (simp add: sk_operate_def g st)
qed

section \<open>Properties\<close>

text \<open>
  C8: Every replica implements the specification of its group. Applying a well-formed
  operation to a well-formed server never panics, keeps it well-formed, and does to its
  configuration, stores and sequence numbers exactly what the specification says: nothing
  for a repeated request or a read or write in a foreign shard, and otherwise the effect of
  the operation, with the shards of the next configuration spared by \<^verbatim>\<open>DeleteShards\<close>.
\<close>

theorem shard_refines_spec:
  assumes "wf_skv kv" and "op_ok x"
  shows "\<exists>kv'. sk_applyOp x kv = Inr kv' \<and> wf_skv kv' \<and>
    sk_abs kv' = g_step (skGid kv) (\<lambda>i. Shards (skNextConfig kv) ! i = skGid kv) x (sk_abs kv)"
  using applyOp_refines [OF assms] unfolding goes_to_def by blast

text \<open>
  C17: Replicas of a group agree on what they own. Two replicas that consumed the same number of
  commands of the group's log, through commands or snapshots and with any calls and
  configuration polling in between, have the same configuration and the same sequence
  numbers, and the same stores as long as no \<^verbatim>\<open>DeleteShards\<close> was among the commands. So without
  deletions they answer every read alike.
\<close>

theorem shard_replicas_agree:
  assumes "\<forall>x \<in> set log. op_ok x" and "sk_run sz gid log n kv" and "sk_run sz' gid log n kv'"
  shows "skConfig kv = skConfig kv' \<and> skLast kv = skLast kv' \<and>
    (no_deletes (take n log) \<longrightarrow> skStore kv = skStore kv' \<and> sk_Get_reply args err kv = sk_Get_reply args err kv')"
proof -
  note a = sk_invD [OF sk_run_inv [OF assms(2,1)]] and b = sk_invD [OF sk_run_inv [OF assms(3,1)]]
  have "skConfig kv = skConfig kv'" "skLast kv = skLast kv'" "skGid kv = skGid kv'" using a(3-5) b(3-5) by simp_all
  moreover have "skStore kv = skStore kv'" if "no_deletes (take n log)" using a(6) b(6) that by simp
  ultimately show ?thesis using sk_get_cong [of kv kv'] by (simp add: sk_Get_reply_def)
qed

text \<open>
  The types hold in every life of a replica: the arrays have \<^verbatim>\<open>NShards\<close> entries, the group
  number never changes, and so no command panics on an index.
\<close>

theorem shard_types_hold:
  assumes "\<forall>x \<in> set log. op_ok x" and "sk_run sz gid log n kv"
  shows "length (Shards (skConfig kv)) = NShards \<and> length (Shards (skNextConfig kv)) = NShards \<and>
    length (skStore kv) = NShards \<and> skGid kv = gid \<and>
    (n < length log \<longrightarrow> (\<exists>kv'. sk_applyOp (log ! n) kv = Inr kv'))"
proof -
  note d = sk_invD [OF sk_run_inv [OF assms(2,1)]]
  have "\<exists>kv'. sk_applyOp (log ! n) kv = Inr kv'" if "n < length log"
    using applyOp_refines [OF d(2), of "log ! n"] assms(1) that unfolding goes_to_def by auto
  with d(2,3) show ?thesis by (simp add: skv_wf)
qed

text \<open>
  A snapshot restores the state it was taken from. A server that has not seen more than
  the snapshot takes over the configuration, stores and sequence numbers of the server that
  encoded it; with the wrong index the decoder stops the server.
\<close>

theorem shard_snapshot_roundtrip:
  assumes "wf_skv s" and "\<forall>c. 0 \<le> skLast t c \<and> skLast t c \<le> skLast s c"
  shows "(\<exists>t'. sk_applySnap (sk_snapshotBytes i s) i t = Inr t' \<and> skConfig t' = skConfig s \<and>
      skStore t' = skStore s \<and> skLast t' = skLast s) \<and>
    (j \<noteq> i \<and> j \<noteq> - 1 \<longrightarrow> sk_applySnap (sk_snapshotBytes i s) j t = Inl FatalError)"
proof -
  obtain t' where "sk_applySnap (sk_snapshotBytes i s) i t = Inr t'" "sk_abs t' = sk_abs s"
    using sk_applySnap_restores [OF assms(1), of t i] assms(2) by auto
  then show ?thesis by (simp add: sk_abs_def sk_snapshotBytes_def)
qed

text \<open>
  A request for a foreign shard is dropped without an answer. When a read or write of a
  shard that the group does not own is applied, nothing changes and no waiting call is woken;
  and the handler of \<^verbatim>\<open>PutAppend\<close> returns only \<^verbatim>\<open>OK\<close> or \<^verbatim>\<open>ErrWrongLeader\<close>, never the
  \<^verbatim>\<open>ErrWrongGroup\<close> that a clerk would need to look for the right group.
\<close>

theorem shard_foreign_request_waits:
  assumes wf: "wf_skv kv" and ok: "op_ok x" and foreign: "\<not> g_accepts (skGid kv) (skArgs x) (sk_abs kv)"
  shows "(\<exists>kv'. sk_applyOp x kv = Inr kv' \<and> sk_abs kv' = sk_abs kv \<and> skBlocked kv' = skBlocked kv \<and> skWoken kv' = skWoken kv) \<and>
    fst (sk_PutAppend a kv) \<in> {None, Some SK_OK, Some SK_ErrWrongLeader} \<and>
    fst (sk_operate_resume c q kv) \<in> {None, Some SK_OK}"
proof (intro conjI)
  obtain t b where x: "x = \<lparr>skType = t, skArgs = b\<rparr>" by (cases x)
  from foreign have cases: "(\<exists>a. b = SPutAppend a) \<or> (\<exists>a. b = SGet a)" by (cases b) (auto simp: x)
  show "\<exists>kv'. sk_applyOp x kv = Inr kv' \<and> sk_abs kv' = sk_abs kv \<and> skBlocked kv' = skBlocked kv \<and> skWoken kv' = skWoken kv"
    using cases
  proof
    assume "\<exists>a. b = SPutAppend a"
    then obtain a where b: "b = SPutAppend a" by blast
    obtain cs kv1 where g: "sk_status (spClientId a) kv = (cs, kv1)" by fastforce
    note s = sk_status_wf [OF wf g]
    have "\<not> owns kv1 (key2shard (spKey a))" using foreign s(3,6) by (simp add: x b sk_abs_def)
    then have "apply_write sk_put a kv = Inr kv1" "apply_write sk_append a kv = Inr kv1"
      using sk_write_wf [OF s(1)] by (simp_all add: apply_write_def g)
    moreover have "t = PUT \<or> t = APPEND" using ok by (simp add: x b op_ok_def)
    ultimately have "sk_applyOp x kv = Inr kv1" unfolding x b sk_applyOp_def by (elim disjE) (simp_all add: sk_types_def)
    with s(2,10,11) show ?thesis by blast
  next
    assume "\<exists>a. b = SGet a"
    then obtain a where b: "b = SGet a" by blast
    obtain cs kv1 where g: "sk_status (sgClientId a) kv = (cs, kv1)" by fastforce
    note s = sk_status_wf [OF wf g]
    have "\<not> owns kv1 (key2shard (sgKey a))" using foreign s(3,6) by (simp add: x b sk_abs_def)
    then have "apply_get a kv = Inr kv1" using sk_get_wf [OF s(1)] by (simp add: apply_get_def g)
    then have "sk_applyOp x kv = Inr kv1" using ok by (simp add: x b op_ok_def sk_applyOp_def sk_types_def)
    with s(2,10,11) show ?thesis by blast
  qed
  show "fst (sk_PutAppend a kv) \<in> {None, Some SK_OK, Some SK_ErrWrongLeader}"
    unfolding sk_PutAppend_def by (rule sk_operate_answers)
  show "fst (sk_operate_resume c q kv) \<in> {None, Some SK_OK}"
    by (cases "sk_status c (kv\<lparr>skWoken := remove1 (c, q) (skWoken kv)\<rparr>)") (simp add: sk_operate_resume_def)
qed

text \<open>
  C38: A late \<^verbatim>\<open>PutShards\<close> takes a shard back. \<^verbatim>\<open>PutShards\<close> carries no configuration number: when
  one with a fresh sequence number is applied after the group has given the shard away, the
  group owns the shard again under its current configuration number and serves reads of it
  from the shipped data, although the configuration of the controller names another group.
\<close>

theorem late_put_shards_takes_shard_back:
  assumes wf: "wf_skv kv" and r: "in_range (fset (fmdom (psShards a)))" and new: "skLast kv (psClientId a) < psSeqNum a"
    and lost: "Shards (skConfig kv) ! key2shard key \<noteq> skGid kv"
    and d: "fmlookup (psShards a) (int (key2shard key)) = Some d" "d key = Some v"
  shows "sk_get key kv = Inr ('''', SK_ErrWrongGroup) \<and>
    (\<exists>kv'. sk_applyOp \<lparr>skType = PUT_SHARDS, skArgs = SPutShards a\<rparr> kv = Inr kv' \<and>
      Num (skConfig kv') = Num (skConfig kv) \<and> sk_get key kv' = Inr (v, SK_OK))"
proof
  show "sk_get key kv = Inr ('''', SK_ErrWrongGroup)" using sk_get_wf [OF wf] lost by simp
  let ?x = "\<lparr>skType = PUT_SHARDS, skArgs = SPutShards a\<rparr>" and ?i = "key2shard key"
  have "op_ok ?x" using r by (simp add: op_ok_def)
  from applyOp_refines [OF wf this] obtain kv' where
    kv': "sk_applyOp ?x kv = Inr kv'" "wf_skv kv'" "skGid kv' = skGid kv" "sk_abs kv' = g_step (skGid kv) (spared kv) ?x (sk_abs kv)"
    unfolding goes_to_def by blast
  have dom: "int ?i \<in> fset (fmdom (psShards a))" using d(1) by (meson fmdomI)
  have abs: "skConfig kv' = gConfig (sk_abs kv')" "skStore kv' = gStore (sk_abs kv')" by (simp_all add: sk_abs_def)
  have st: "g_step (skGid kv) (spared kv) ?x (sk_abs kv) = (let g' = g_effect (skGid kv) (spared kv) ?x (sk_abs kv) in
      g'\<lparr>gSeqs := (gSeqs g')(psClientId a := max (psSeqNum a) (gSeqs g' (psClientId a)))\<rparr>)"
    using new by (simp add: g_step_def sk_abs_def)
  have c: "skConfig kv' = (skConfig kv)\<lparr>Shards := put_owner (skGid kv) (fset (fmdom (psShards a))) (Shards (skConfig kv))\<rparr>"
    "skStore kv' = put_store (skGid kv) (fset (fmdom (psShards a))) (psShards a) (Shards (skConfig kv)) (skStore kv)"
    unfolding abs kv'(4) st by (simp_all add: Let_def sk_abs_def)
  have "Num (skConfig kv') = Num (skConfig kv)" "Shards (skConfig kv') ! ?i = skGid kv" "skStore kv' ! ?i = d"
    using lost d(1) dom key2shard_less [of key] unfolding c by (simp_all add: put_owner_def put_store_def)
  moreover from this have "sk_get key kv' = Inr (v, SK_OK)" using sk_get_wf [OF kv'(2), of key] kv'(3) d(2) by simp
  ultimately show "\<exists>kv'. sk_applyOp ?x kv = Inr kv' \<and> Num (skConfig kv') = Num (skConfig kv) \<and> sk_get key kv' = Inr (v, SK_OK)"
    using kv'(1) by blast
qed

text \<open>A log of group 1: it owns every shard, writes a key, gives all shards away and gets them back.\<close>

definition all_to :: "int \<Rightarrow> int \<Rightarrow> Config" where
  "all_to n g = \<lparr>Num = n, Shards = replicate NShards g, Groups = fmempty\<rparr>"

definition set_config_op :: "int \<Rightarrow> int \<Rightarrow> SKOp" where
  "set_config_op n g = \<lparr>skType = SET_CONFIG, skArgs = SSetConfig \<lparr>cfConfig = all_to n g, cfSeqNum = n, cfClientId = 6\<rparr>\<rparr>"

definition put_op :: SKOp where
  "put_op = \<lparr>skType = PUT, skArgs = SPutAppend \<lparr>spKey = ''k'', spValue = ''x'', spOp = PUT, spSeqNum = 1, spClientId = 7\<rparr>\<rparr>"

definition delete_op :: SKOp where
  "delete_op = \<lparr>skType = DELETE_SHARDS,
     skArgs = SDeleteShards \<lparr>dsConfigNum = 2, dsShards = [int (key2shard ''k'')], dsSeqNum = 1, dsClientId = 8\<rparr>\<rparr>"

definition leave_and_rejoin :: "SKOp list" where
  "leave_and_rejoin = [set_config_op 1 1, put_op, set_config_op 2 2, set_config_op 3 0, delete_op, set_config_op 4 1]"

lemma leave_and_rejoin_ok: "\<forall>x \<in> set leave_and_rejoin. op_ok x"
  using key2shard_less [of "''k''"]
  by (simp add: leave_and_rejoin_def op_ok_def set_config_op_def put_op_def delete_op_def all_to_def wf_config_def in_range_def)

lemma first_four:
  "fold (g_step 1 keep) [set_config_op 1 1, put_op, set_config_op 2 2, set_config_op 3 0] g_init =
     \<lparr>gConfig = all_to 3 0, gStore = initStore[key2shard ''k'' := [''k'' \<mapsto> ''x'']],
      gSeqs = (\<lambda>_. 0)(7 := 1, 6 := 3)\<rparr>"
  using key2shard_less [of "''k''"]
  by (simp add: g_step_def g_init_def set_config_op_def put_op_def all_to_def zero_config_def write_data_def
      initStore_def sk_type_defs fun_upd_twist)

lemma last_two:
  "fold (g_step 1 keep) [delete_op, set_config_op 4 1]
     \<lparr>gConfig = all_to 3 0, gStore = initStore[key2shard ''k'' := [''k'' \<mapsto> ''x'']], gSeqs = (\<lambda>_. 0)(7 := 1, 6 := 3)\<rparr> =
     \<lparr>gConfig = all_to 4 1, gStore = delete_store {int (key2shard ''k'')} keep (initStore[key2shard ''k'' := [''k'' \<mapsto> ''x'']]),
      gSeqs = (\<lambda>_. 0)(7 := 1, 6 := 4, 8 := 1)\<rparr>"
  using key2shard_less [of "''k''"]
  by (simp add: g_step_def set_config_op_def delete_op_def all_to_def fun_upd_twist delete_store_def)

lemma get_after_rejoin:
  assumes "wf_skv kv" and "skGid kv = 1"
    and "sk_abs kv = fold (g_step 1 keep) [delete_op, set_config_op 4 1]
     \<lparr>gConfig = all_to 3 0, gStore = initStore[key2shard ''k'' := [''k'' \<mapsto> ''x'']], gSeqs = (\<lambda>_. 0)(7 := 1, 6 := 3)\<rparr>"
  shows "sk_get ''k'' kv = Inr (if keep (key2shard ''k'') then (''x'', SK_OK) else ('''', SK_ErrNoKey))"
proof -
  have "skConfig kv = all_to 4 1"
    "skStore kv = delete_store {int (key2shard ''k'')} keep (initStore[key2shard ''k'' := [''k'' \<mapsto> ''x'']])"
    using assms(3) unfolding last_two sk_abs_def by simp_all
  then show ?thesis
    using key2shard_less [of "''k''"] assms(2) sk_get_wf [OF assms(1), of "''k''"]
    by (simp add: all_to_def delete_store_def initStore_def)
qed

text \<open>
  C39: Replicas of a group can diverge. \<^verbatim>\<open>DeleteShards\<close> spares the shards of \<^verbatim>\<open>nextConfig\<close>, which
  only the replica that polls the controller has. There is a log of well-formed operations
  and two replicas that consumed all of it, one of which had polled the next configuration
  before the deletion, that answer a read of the same key differently: one with the value,
  one that there is none.
\<close>

theorem delete_shards_diverges:
  "\<exists>log kv kv'. (\<forall>x \<in> set log. op_ok x) \<and> sk_run sz 1 log (length log) kv \<and> sk_run sz 1 log (length log) kv' \<and>
     skConfig kv = skConfig kv' \<and> sk_get ''k'' kv = Inr (''x'', SK_OK) \<and> sk_get ''k'' kv' = Inr ('''', SK_ErrNoKey)"
proof -
  let ?log = leave_and_rejoin
  note ok = leave_and_rejoin_ok
  have len: "length ?log = 6" by (simp add: leave_and_rejoin_def)
  have tk: "take 4 ?log = [set_config_op 1 1, put_op, set_config_op 2 2, set_config_op 3 0]"
    "take 2 (drop 4 ?log) = [delete_op, set_config_op 4 1]" by (simp_all add: leave_and_rejoin_def)
  have z: "(\<lambda>i. Shards (skNextConfig sk_boot) ! i = 1) (key2shard ''k'') = False"
    using key2shard_less [of "''k''"] by (simp add: sk_boot_def zero_config_def)
  have mx: "skMaxState sk_boot \<le> 0" by (simp add: sk_boot_def)
  from sk_run_steps [OF sk_boot_run _ _ ok mx, of 4 sz] len obtain kv1 where
    kv1: "sk_run sz 1 ?log 4 kv1" "skNextConfig kv1 = skNextConfig sk_boot" "skMaxState kv1 = skMaxState sk_boot"
    "sk_abs kv1 = fold (g_step 1 (\<lambda>i. Shards (skNextConfig sk_boot) ! i = 1)) (take 4 ?log) g_init"
    by (auto simp: sk_boot_abs)
  let ?kv = "kv1\<lparr>skNextConfig := all_to 4 1, skSeqNum := 0, skLeaders := Map.empty, skProcessing := (\<lambda>_. False), skCtrl := skCtrl kv1\<rparr>"
  have p: "sk_run sz 1 ?log 4 ?kv" by (rule sk_run.poll [OF kv1(1)]) (simp add: all_to_def wf_config_def)
  have pa: "sk_abs ?kv = sk_abs kv1" by (simp add: sk_abs_def skLast_def fun_eq_iff)
  have end_state: "\<exists>kv'. sk_run sz 1 ?log 6 kv' \<and>
      sk_get ''k'' kv' = Inr (if Shards (skNextConfig k0) ! key2shard ''k'' = 1 then (''x'', SK_OK) else ('''', SK_ErrNoKey))"
    if k0: "sk_run sz 1 ?log 4 k0" "sk_abs k0 = sk_abs kv1" "skMaxState k0 = skMaxState kv1" for k0
  proof -
    from sk_run_steps [OF k0(1) _ _ ok, of 6] len mx k0(3) kv1(3) obtain k' where
      k': "sk_run sz 1 ?log 6 k'"
      "sk_abs k' = fold (g_step 1 (\<lambda>i. Shards (skNextConfig k0) ! i = 1)) (take 2 (drop 4 ?log)) (sk_abs k0)"
      by auto
    note d = sk_invD [OF sk_run_inv [OF k'(1) ok]]
    have "sk_abs k' = fold (g_step 1 (\<lambda>i. Shards (skNextConfig k0) ! i = 1)) [delete_op, set_config_op 4 1]
       \<lparr>gConfig = all_to 3 0, gStore = initStore[key2shard ''k'' := [''k'' \<mapsto> ''x'']], gSeqs = (\<lambda>_. 0)(7 := 1, 6 := 3)\<rparr>"
      unfolding k'(2) k0(2) kv1(4) tk first_four ..
    from get_after_rejoin [OF d(2,3) this] k'(1) show ?thesis by blast
  qed
  obtain a b where a: "sk_run sz 1 ?log 6 a" "sk_get ''k'' a = Inr (''x'', SK_OK)"
    and b: "sk_run sz 1 ?log 6 b" "sk_get ''k'' b = Inr ('''', SK_ErrNoKey)"
    using end_state [OF p pa] end_state [OF kv1(1)] z kv1(2) key2shard_less [of "''k''"] by (auto simp: all_to_def)
  have "skConfig a = skConfig b"
    using sk_invD(4) [OF sk_run_inv [OF a(1) ok]] sk_invD(4) [OF sk_run_inv [OF b(1) ok]] by simp
  with a b ok len show ?thesis by (intro exI [of _ ?log] exI [of _ a] exI [of _ b]) simp
qed

section \<open>Witnesses\<close>

lemma sk_boot_wf: "wf_skv sk_boot"
  by (simp add: sk_boot_def skv_wf zero_config_def initStore_def)

theorem delete_shards_diverges_witness:
  "\<exists>log kv kv'. sk_run (\<lambda>_. 0) 1 log (length log) kv \<and> sk_run (\<lambda>_. 0) 1 log (length log) kv' \<and> sk_get ''k'' kv \<noteq> sk_get ''k'' kv'"
proof -
  obtain log kv kv' where "sk_run (\<lambda>_. 0) 1 log (length log) kv" "sk_run (\<lambda>_. 0) 1 log (length log) kv'"
    "sk_get ''k'' kv = Inr (''x'', SK_OK)" "sk_get ''k'' kv' = Inr ('''', SK_ErrNoKey)"
    using delete_shards_diverges [of "\<lambda>_. 0"] by blast
  then show ?thesis by (intro exI [of _ log] exI [of _ kv] exI [of _ kv']) simp
qed

lemma put_op_ok: "op_ok put_op"
  by (simp add: op_ok_def put_op_def)

lemma rejoin_run: "\<exists>kv. sk_run sz 1 leave_and_rejoin 2 kv \<and> skLast kv 7 = 1"
proof -
  have mx: "skMaxState sk_boot \<le> 0" by (simp add: sk_boot_def)
  have tk: "take 2 leave_and_rejoin = [set_config_op 1 1, put_op]" "length leave_and_rejoin = 6"
    by (simp_all add: leave_and_rejoin_def)
  from sk_run_steps [OF sk_boot_run _ _ leave_and_rejoin_ok mx, of 2 sz] tk(2) obtain kv where
    kv: "sk_run sz 1 leave_and_rejoin 2 kv" by auto
  note d = sk_invD(5) [OF sk_run_inv [OF kv leave_and_rejoin_ok]]
  have "gSeqs (g_run 1 [set_config_op 1 1, put_op]) 7 = 1"
    using key2shard_less [of "''k''"]
    by (simp add: g_run_def g_step_def g_init_def set_config_op_def put_op_def all_to_def zero_config_def)
  with d kv show ?thesis unfolding tk(1) by auto
qed

theorem shard_refines_spec_witness:
  "\<exists>kv'. sk_applyOp put_op sk_boot = Inr kv' \<and> sk_abs kv' = g_init"
proof -
  have "g_step (skGid sk_boot) keep put_op g_init = g_init" for keep
    using key2shard_less [of "''k''"] by (simp add: g_step_def g_init_def put_op_def sk_boot_def zero_config_def)
  with shard_refines_spec [OF sk_boot_wf put_op_ok] show ?thesis by (auto simp: sk_boot_abs)
qed

theorem shard_replicas_agree_witness:
  "\<exists>kv kv'. sk_run (\<lambda>_. 0) 1 leave_and_rejoin 2 kv \<and> sk_run (\<lambda>_. 1) 1 leave_and_rejoin 2 kv' \<and> skStore kv = skStore kv'"
proof -
  obtain kv kv' where r: "sk_run (\<lambda>_. 0) 1 leave_and_rejoin 2 kv" "sk_run (\<lambda>_. 1) 1 leave_and_rejoin 2 kv'"
    using rejoin_run by blast
  have "no_deletes (take 2 leave_and_rejoin)"
    by (simp add: no_deletes_def leave_and_rejoin_def set_config_op_def put_op_def)
  with shard_replicas_agree [OF leave_and_rejoin_ok r] r show ?thesis by blast
qed

theorem shard_types_hold_witness:
  "length (Shards (skConfig sk_boot)) = NShards \<and> (\<exists>kv'. sk_applyOp (leave_and_rejoin ! 0) sk_boot = Inr kv')"
  using shard_types_hold [OF leave_and_rejoin_ok sk_boot_run] by (simp add: leave_and_rejoin_def)

theorem shard_snapshot_roundtrip_witness:
  "\<exists>t'. sk_applySnap (sk_snapshotBytes 4 sk_boot) 4 sk_boot = Inr t' \<and> skConfig t' = zero_config"
proof -
  have c: "\<forall>c. 0 \<le> skLast sk_boot c \<and> skLast sk_boot c \<le> skLast sk_boot c" "skConfig sk_boot = zero_config"
    by (simp_all add: sk_boot_def skLast_def)
  from shard_snapshot_roundtrip [OF sk_boot_wf c(1), of 4] c(2) show ?thesis by auto
qed

theorem shard_foreign_request_waits_witness:
  "\<exists>kv'. sk_applyOp put_op sk_boot = Inr kv' \<and> sk_abs kv' = sk_abs sk_boot"
proof -
  have "\<not> g_accepts (skGid sk_boot) (skArgs put_op) (sk_abs sk_boot)"
    using key2shard_less [of "''k''"] unfolding sk_boot_abs
    by (simp add: put_op_def g_init_def sk_boot_def zero_config_def)
  from shard_foreign_request_waits [OF sk_boot_wf put_op_ok this] show ?thesis by blast
qed

theorem late_put_shards_takes_shard_back_witness:
  "\<exists>kv'. sk_applyOp \<lparr>skType = PUT_SHARDS, skArgs = SPutShards
       \<lparr>psShards = fmap_of_list [(int (key2shard ''k''), [''k'' \<mapsto> ''old''])], psSeqNums = Map.empty, psSeqNum = 9, psClientId = 4\<rparr>\<rparr>
       (sk_boot\<lparr>skConfig := all_to 5 2\<rparr>) = Inr kv' \<and> sk_get ''k'' kv' = Inr (''old'', SK_OK)"
proof -
  let ?a = "\<lparr>psShards = fmap_of_list [(int (key2shard ''k''), [''k'' \<mapsto> ''old''])], psSeqNums = Map.empty, psSeqNum = 9, psClientId = 4\<rparr>"
    and ?kv = "sk_boot\<lparr>skConfig := all_to 5 2\<rparr>"
  have wf: "wf_skv ?kv" using sk_boot_wf by (simp add: skv_wf all_to_def)
  have "in_range (fset (fmdom (psShards ?a)))" using key2shard_less [of "''k''"] by (simp add: in_range_def)
  moreover have "skLast ?kv (psClientId ?a) < psSeqNum ?a" by (simp add: skLast_def sk_boot_def)
  moreover have "Shards (skConfig ?kv) ! key2shard ''k'' \<noteq> skGid ?kv"
    using key2shard_less [of "''k''"] by (simp add: all_to_def sk_boot_def)
  ultimately show ?thesis
    using late_put_shards_takes_shard_back [OF wf, of ?a "''k''" "[''k'' \<mapsto> ''old'']" "''old''"] by auto
qed

end
