(* ===== verification/Shard_Migration.thy ===== *)
theory Shard_Migration
  imports Shard_Group
begin

text \<open>
  How a shard group follows the controller, the second part of \<^verbatim>\<open>src/shardkv/server.go\<close>:
  the leader polls the next configuration, fetches from the other groups the shards it gains
  (\<^verbatim>\<open>GetShards\<close>), replicates them in its own group (\<^verbatim>\<open>PutShards\<close>), lets the other groups
  delete them (\<^verbatim>\<open>DeleteShards\<close>) and finally replicates the configuration (\<^verbatim>\<open>SetConfig\<close>).
\<close>

section \<open>Which shards to fetch\<close>

fun contains :: "nat list \<Rightarrow> nat \<Rightarrow> bool" where
  "contains [] x \<longleftrightarrow> False"
| "contains (v # arr) x \<longleftrightarrow> (if v = x then True else contains arr x)"

fun migration_groups :: "int \<Rightarrow> int list \<Rightarrow> nat list \<Rightarrow> (int, nat list) fmap \<Rightarrow> (int, nat list) fmap res" where
  "migration_groups own old [] m = Inr m"
| "migration_groups own old (shard # shards) m =
     ebind (nth_go old (int shard)) (\<lambda>gid.
     ebind (assert_go (gid \<noteq> own)) (\<lambda>_.
     migration_groups own old shards (if gid \<noteq> 0 then fmupd gid (shards_of gid m @ [shard]) m else m)))"

definition getMigrationFromGroupShardsMap :: "Config \<Rightarrow> Config \<Rightarrow> ShardKV \<Rightarrow> (int, nat list) fmap res" where
  "getMigrationFromGroupShardsMap oldConfig newConfig kv =
     (let oldShards = shards_of (skGid kv) (GetGroupShardsMap oldConfig);
          newShards = shards_of (skGid kv) (GetGroupShardsMap newConfig);
          migrationShards = filter (\<lambda>s. \<not> contains oldShards s) newShards
      in migration_groups (skGid kv) (Shards oldConfig) migrationShards fmempty)"

section \<open>Calling a group\<close>

definition leaders_get :: "int \<Rightarrow> (int \<rightharpoonup> int) \<Rightarrow> int" where
  "leaders_get gid m = (case m gid of Some l \<Rightarrow> l | None \<Rightarrow> 0)"

definition leaders_put :: "int \<Rightarrow> int \<Rightarrow> (int \<rightharpoonup> int) \<Rightarrow> int \<rightharpoonup> int" where
  "leaders_put gid leader m = m(gid \<mapsto> leader)"

text \<open>
  \<^verbatim>\<open>callOtherGroup\<close>: to its own group a server uses its own list of servers, to another one
  the list of the configuration; replies and timeouts are the events.
\<close>

definition sk_callOtherGroup :: "('r \<Rightarrow> bool) \<Rightarrow> int \<Rightarrow> string list \<Rightarrow> 'r event list \<Rightarrow> ShardKV \<Rightarrow>
    (int list \<times> 'r call_result \<times> ShardKV) res" where
  "sk_callOtherGroup wrong gid servers es kv =
     ebind (if gid = skGid kv then ebind (assert_go (skServers kv > 0)) (\<lambda>_. Inr (skServers kv))
            else Inr (length servers)) (\<lambda>n.
     ebind (call_loop n wrong (leaders_get gid (skLeaders kv)) 0 es) (\<lambda>(ids, x).
     Inr (ids, x, case x of Running \<Rightarrow> kv | Answered j r \<Rightarrow> kv\<lparr>skLeaders := leaders_put gid j (skLeaders kv)\<rparr>)))"

definition callGetShardsFromGroup :: "int \<Rightarrow> string list \<Rightarrow> GetShardsReply event list \<Rightarrow> ShardKV \<Rightarrow>
    (int list \<times> GetShardsReply call_result \<times> ShardKV) res" where
  "callGetShardsFromGroup gid servers es kv = sk_callOtherGroup (\<lambda>r. grsErr r = SK_ErrWrongLeader) gid servers es kv"

text \<open>\<^verbatim>\<open>callDeleteShardsFromGroup\<close>, \<^verbatim>\<open>callPutShardsToGroup\<close> and \<^verbatim>\<open>callSetConfigToGroup\<close>.\<close>

definition callGroup :: "int \<Rightarrow> string list \<Rightarrow> SKReply event list \<Rightarrow> ShardKV \<Rightarrow> (int list \<times> SKReply call_result \<times> ShardKV) res" where
  "callGroup gid servers es kv = sk_callOtherGroup (\<lambda>r. skErr r = SK_ErrWrongLeader) gid servers es kv"

section \<open>Changing the configuration\<close>

text \<open>
  \<^verbatim>\<open>changeConfig\<close> up to the migration; \<^verbatim>\<open>ans\<close> is what the controller answers to the query for the
  next number, if the query is made. \<^verbatim>\<open>None\<close>: there is nothing to do.
\<close>

definition changeConfig_begin :: "Config \<Rightarrow> ShardKV \<Rightarrow> ((Config \<times> Config) option \<times> ShardKV) res" where
  "changeConfig_begin ans kv =
     (let oldConfig = skConfig kv;
          kv1 = (if Num (skNextConfig kv) \<le> Num oldConfig then kv\<lparr>skNextConfig := ans\<rparr> else kv);
          newConfig = skNextConfig kv1
      in if Num newConfig = Num oldConfig then Inr (None, kv1)
         else case processing_put (Num newConfig) kv1 of (ok, kv2) \<Rightarrow>
              if \<not> ok then Inr (None, kv2)
              else ebind (assert_go (Num newConfig > Num oldConfig)) (\<lambda>_. Inr (Some (oldConfig, newConfig), kv2)))"

text \<open>The first configuration needs no migration: \<^verbatim>\<open>migration\<close> is skipped.\<close>

definition migration_sources :: "Config \<Rightarrow> Config \<Rightarrow> ShardKV \<Rightarrow> (int, nat list) fmap res" where
  "migration_sources oldConfig newConfig kv =
     (if Num oldConfig > 0 then getMigrationFromGroupShardsMap oldConfig newConfig kv else Inr fmempty)"

text \<open>One turn of \<^verbatim>\<open>pollConfig\<close>; \<^verbatim>\<open>None\<close> when the server is killed.\<close>

definition pollConfig :: "Config \<Rightarrow> ShardKV \<Rightarrow> ((Config \<times> Config) option \<times> ShardKV) option res" where
  "pollConfig ans kv =
     (if sk_Killed kv then Inr None
      else case GetState (skRf kv) of (_, isLeader) \<Rightarrow>
           if isLeader then ebind (changeConfig_begin ans kv) (\<lambda>r. Inr (Some r)) else Inr (Some (None, kv)))"

definition sk_nextSeq :: "ShardKV \<Rightarrow> ShardKV" where
  "sk_nextSeq kv = kv\<lparr>skSeqNum := skSeqNum kv + 1\<rparr>"

text \<open>The arguments of the four requests; each draws the next sequence number of the server.\<close>

definition migration_get :: "Config \<Rightarrow> int list \<Rightarrow> ShardKV \<Rightarrow> GetShardsArgs \<times> ShardKV" where
  "migration_get newConfig shards kv =
     (\<lparr>gsConfigNum = Num newConfig, gsShards = shards, gsSeqNum = skSeqNum kv + 1, gsClientId = skClientId kv\<rparr>, sk_nextSeq kv)"

definition migration_put :: "GetShardsReply \<Rightarrow> ShardKV \<Rightarrow> PutShardsArgs \<times> ShardKV" where
  "migration_put reply kv =
     (\<lparr>psShards = grsShards reply, psSeqNums = grsSeqNums reply, psSeqNum = skSeqNum kv + 1, psClientId = skClientId kv\<rparr>, sk_nextSeq kv)"

definition migration_delete :: "Config \<Rightarrow> int list \<Rightarrow> ShardKV \<Rightarrow> DeleteShardsArgs \<times> ShardKV" where
  "migration_delete newConfig shards kv =
     (\<lparr>dsConfigNum = Num newConfig, dsShards = shards, dsSeqNum = skSeqNum kv + 1, dsClientId = skClientId kv\<rparr>, sk_nextSeq kv)"

definition changeConfig_set :: "Config \<Rightarrow> ShardKV \<Rightarrow> SetConfigArgs \<times> ShardKV" where
  "changeConfig_set newConfig kv =
     (\<lparr>cfConfig = newConfig, cfSeqNum = skSeqNum kv + 1, cfClientId = skClientId kv\<rparr>, sk_nextSeq kv)"

text \<open>
  The events of one \<^verbatim>\<open>changeConfig\<close> and the order the code gives them: a goroutine per source
  group sends \<^verbatim>\<open>GetShards\<close>; the main loop takes one answer at a time, waits until its
  \<^verbatim>\<open>PutShards\<close> is answered and only then starts the goroutine that deletes; the
  configuration is set after every deletion was answered.
\<close>

datatype mig_event =
    AskShards int | GotShards int | ShardsPut int | AskDelete int | Deleted int | ConfigSet

text \<open>Where the work for one source group is.\<close>

datatype stage =
    ToAsk        \<comment> \<open>its goroutine has not called yet\<close>
  | Asked
  | Received     \<comment> \<open>the answer waits in \<^verbatim>\<open>ch1\<close>\<close>
  | Replicated   \<comment> \<open>\<^verbatim>\<open>PutShards\<close> was answered, the goroutine that deletes has not called yet\<close>
  | Deleting
  | Finished     \<comment> \<open>the answer was received from \<^verbatim>\<open>ch2\<close>\<close>

record mig =
  mStage :: "int \<Rightarrow> stage"
  mSet :: bool

definition mig_init :: mig where
  "mig_init = \<lparr>mStage = (\<lambda>_. ToAsk), mSet = False\<rparr>"

inductive mig_step :: "int set \<Rightarrow> mig \<Rightarrow> mig_event \<Rightarrow> mig \<Rightarrow> bool" for gs where
  ask: "g \<in> gs \<Longrightarrow> mStage m g = ToAsk \<Longrightarrow> mig_step gs m (AskShards g) (m\<lparr>mStage := (mStage m)(g := Asked)\<rparr>)"
| got: "g \<in> gs \<Longrightarrow> mStage m g = Asked \<Longrightarrow> mig_step gs m (GotShards g) (m\<lparr>mStage := (mStage m)(g := Received)\<rparr>)"
| put: "g \<in> gs \<Longrightarrow> mStage m g = Received \<Longrightarrow> mig_step gs m (ShardsPut g) (m\<lparr>mStage := (mStage m)(g := Replicated)\<rparr>)"
| delete: "g \<in> gs \<Longrightarrow> mStage m g = Replicated \<Longrightarrow> mig_step gs m (AskDelete g) (m\<lparr>mStage := (mStage m)(g := Deleting)\<rparr>)"
| deleted: "g \<in> gs \<Longrightarrow> mStage m g = Deleting \<Longrightarrow> mig_step gs m (Deleted g) (m\<lparr>mStage := (mStage m)(g := Finished)\<rparr>)"
| set: "\<forall>g \<in> gs. mStage m g = Finished \<Longrightarrow> \<not> mSet m \<Longrightarrow> mig_step gs m ConfigSet (m\<lparr>mSet := True\<rparr>)"

inductive mig_run :: "int set \<Rightarrow> mig_event list \<Rightarrow> mig \<Rightarrow> bool" for gs where
  start: "mig_run gs [] mig_init"
| step: "mig_run gs es m \<Longrightarrow> mig_step gs m e m' \<Longrightarrow> mig_run gs (es @ [e]) m'"

section \<open>Facts\<close>

lemma contains_iff: "contains xs x \<longleftrightarrow> x \<in> set xs"
  by (induction xs) auto

lemma shards_of_fmupd: "shards_of g (fmupd h xs m) = (if g = h then xs else shards_of g m)"
  by (simp add: shards_of_def)

lemma migration_groups_spec:
  assumes "\<forall>s \<in> set shards. s < length old \<and> old ! s \<noteq> own"
  shows "\<exists>m'. migration_groups own old shards m = Inr m' \<and>
    (\<forall>g. shards_of g m' = shards_of g m @ (if g = 0 then [] else filter (\<lambda>s. old ! s = g) shards)) \<and>
    fset (fmdom m') = fset (fmdom m) \<union> ((!) old ` set shards - {0})"
  using assms
proof (induction shards arbitrary: m)
  case (Cons s ss)
  define m1 where "m1 = (if old ! s \<noteq> 0 then fmupd (old ! s) (shards_of (old ! s) m @ [s]) m else m)"
  have "migration_groups own old (s # ss) m = migration_groups own old ss m1"
    using Cons.prems by (simp add: nth_go_def m1_def)
  moreover obtain m' where "migration_groups own old ss m1 = Inr m'"
    "\<forall>g. shards_of g m' = shards_of g m1 @ (if g = 0 then [] else filter (\<lambda>s. old ! s = g) ss)"
    "fset (fmdom m') = fset (fmdom m1) \<union> ((!) old ` set ss - {0})"
    using Cons by (metis list.set_intros(2))
  ultimately show ?case by (intro exI [of _ m']) (auto simp: m1_def shards_of_fmupd)
qed simp

fun about :: "mig_event \<Rightarrow> int option" where
  "about (AskShards g) = Some g" | "about (GotShards g) = Some g" | "about (ShardsPut g) = Some g"
| "about (AskDelete g) = Some g" | "about (Deleted g) = Some g" | "about ConfigSet = None"

text \<open>What has happened for a group when its work is at a stage.\<close>

fun history :: "int \<Rightarrow> stage \<Rightarrow> mig_event list" where
  "history g ToAsk = []"
| "history g Asked = [AskShards g]"
| "history g Received = [AskShards g, GotShards g]"
| "history g Replicated = [AskShards g, GotShards g, ShardsPut g]"
| "history g Deleting = [AskShards g, GotShards g, ShardsPut g, AskDelete g]"
| "history g Finished = [AskShards g, GotShards g, ShardsPut g, AskDelete g, Deleted g]"

definition mig_inv :: "int set \<Rightarrow> mig_event list \<Rightarrow> mig \<Rightarrow> bool" where
  "mig_inv gs es m \<longleftrightarrow> (\<forall>g. filter (\<lambda>e. about e = Some g) es = history g (mStage m g)) \<and>
     (mSet m \<longrightarrow> (\<forall>g \<in> gs. mStage m g = Finished) \<and> es \<noteq> [] \<and> last es = ConfigSet) \<and>
     filter (\<lambda>e. e = ConfigSet) es = (if mSet m then [ConfigSet] else [])"

lemma mig_run_inv: "mig_run gs es m \<Longrightarrow> mig_inv gs es m"
proof (induction rule: mig_run.induct)
  case start
  then show ?case by (simp add: mig_inv_def mig_init_def)
next
  case (step es m e m')
  from step.hyps(2) step.IH show ?case
    by (cases rule: mig_step.cases) (auto simp: mig_inv_def)
qed

section \<open>The data of one source group\<close>

text \<open>
  What a server of the source group answers to \<^verbatim>\<open>GetShards\<close>, and what replicating the answer
  does in the destination group.
\<close>

lemma getShards_reply_wf:
  assumes "wf_skv src" and "in_range (set (gsShards a))"
  shows "\<exists>r. sk_GetShards_reply a SK_OK src = Inr r \<and> grsErr r = SK_OK \<and> grsSeqNums r = getClientSeqNumMap src \<and>
    (\<forall>k. fmlookup (grsShards r) k = (if k \<in> set (gsShards a) then Some (skStore src ! nat k) else None))"
  using getShards_wf [OF assms, of fmempty] by (auto simp: sk_GetShards_reply_def)

lemma put_shards_effect:
  assumes wf: "wf_skv dst" and r: "in_range (fset (fmdom (psShards a)))" and new: "skLast dst (psClientId a) < psSeqNum a"
  obtains dst' where "sk_applyOp \<lparr>skType = PUT_SHARDS, skArgs = SPutShards a\<rparr> dst = Inr dst'" "wf_skv dst'" "skGid dst' = skGid dst"
    "skConfig dst' = (skConfig dst)\<lparr>Shards := put_owner (skGid dst) (fset (fmdom (psShards a))) (Shards (skConfig dst))\<rparr>"
    "skStore dst' = put_store (skGid dst) (fset (fmdom (psShards a))) (psShards a) (Shards (skConfig dst)) (skStore dst)"
    "\<And>c. skLast dst c \<le> skLast dst' c" "\<And>c n. psSeqNums a c = Some n \<Longrightarrow> n \<le> skLast dst' c"
proof -
  let ?x = "\<lparr>skType = PUT_SHARDS, skArgs = SPutShards a\<rparr>" and ?gid = "skGid dst"
  define g where "g = g_effect ?gid (spared dst) ?x (sk_abs dst)"
  have "op_ok ?x" using r by (simp add: op_ok_def)
  from applyOp_refines [OF wf this] obtain dst' where
    d: "sk_applyOp ?x dst = Inr dst'" "wf_skv dst'" "skGid dst' = ?gid" "sk_abs dst' = g_step ?gid (spared dst) ?x (sk_abs dst)"
    unfolding goes_to_def by blast
  have st: "sk_abs dst' = g\<lparr>gSeqs := (gSeqs g)(psClientId a := max (psSeqNum a) (gSeqs g (psClientId a)))\<rparr>"
    using new unfolding d(4) g_def by (simp add: g_step_def sk_abs_def Let_def)
  have abs: "skConfig dst' = gConfig (sk_abs dst')" "skStore dst' = gStore (sk_abs dst')" "skLast dst' = gSeqs (sk_abs dst')"
    by (simp_all add: sk_abs_def)
  have c: "skConfig dst' = gConfig g" "skStore dst' = gStore g"
    "skLast dst' = (gSeqs g)(psClientId a := max (psSeqNum a) (gSeqs g (psClientId a)))"
    unfolding abs st by simp_all
  have q: "gSeqs g = (\<lambda>c. case psSeqNums a c of Some n \<Rightarrow> max n (skLast dst c) | None \<Rightarrow> skLast dst c)"
    by (simp add: g_def sk_abs_def cong: option.case_cong)
  have le: "gSeqs g c \<le> skLast dst' c" for c unfolding c(3) by simp
  show thesis
  proof (rule that [OF d(1-3)])
    show "skConfig dst' = (skConfig dst)\<lparr>Shards := put_owner ?gid (fset (fmdom (psShards a))) (Shards (skConfig dst))\<rparr>"
      "skStore dst' = put_store ?gid (fset (fmdom (psShards a))) (psShards a) (Shards (skConfig dst)) (skStore dst)"
      unfolding c(1,2) g_def by (simp_all add: sk_abs_def)
    show "skLast dst ca \<le> skLast dst' ca" for ca
      using le [of ca] unfolding q by (auto split: option.splits)
    show "n \<le> skLast dst' ca" if "psSeqNums a ca = Some n" for ca n
      using le [of ca] that unfolding q by simp
  qed
qed

lemma fetch_map:
  assumes "wf_config old" and "wf_config new"
  shows "\<exists>m. getMigrationFromGroupShardsMap old new kv = Inr m \<and>
    (\<forall>g. shards_of g m = (if g = 0 \<or> g = skGid kv then []
       else filter (\<lambda>i. Shards new ! i = skGid kv \<and> Shards old ! i = g) [0..<NShards])) \<and>
    fset (fmdom m) = {Shards old ! i | i. i < NShards \<and> Shards new ! i = skGid kv \<and> Shards old ! i \<notin> {0, skGid kv}}"
proof -
  let ?g = "skGid kv" and ?ss = "filter (\<lambda>i. Shards new ! i = skGid kv \<and> Shards old ! i \<noteq> skGid kv) [0..<NShards]"
  have len: "length (Shards old) = NShards" "length (Shards new) = NShards" using assms by (simp_all add: wf_config_def)
  have "filter (\<lambda>s. \<not> contains (shard_list (Shards old) ?g) s) (shard_list (Shards new) ?g) = ?ss"
    unfolding shard_list_def [of "Shards new"] filter_filter len
    by (rule filter_cong) (auto simp: contains_iff shard_list_in len)
  then have "getMigrationFromGroupShardsMap old new kv = migration_groups ?g (Shards old) ?ss fmempty"
    by (simp add: getMigrationFromGroupShardsMap_def)
  moreover obtain m where m: "migration_groups ?g (Shards old) ?ss fmempty = Inr m"
    "\<forall>g. shards_of g m = shards_of g fmempty @ (if g = 0 then [] else filter (\<lambda>s. Shards old ! s = g) ?ss)"
    "fset (fmdom m) = fset (fmdom (fmempty :: shards_map)) \<union> ((!) (Shards old) ` set ?ss - {0})"
    using migration_groups_spec [of ?ss "Shards old" ?g fmempty] len by auto
  have "shards_of g m = (if g = 0 \<or> g = ?g then [] else filter (\<lambda>i. Shards new ! i = ?g \<and> Shards old ! i = g) [0..<NShards])" for g
    using m(2) [rule_format, of g] by (auto simp: shards_of_def [of _ fmempty] intro: filter_cong)
  moreover have "fset (fmdom m) = {Shards old ! i | i. i < NShards \<and> Shards new ! i = ?g \<and> Shards old ! i \<notin> {0, ?g}}"
    unfolding m(3) by auto
  ultimately show ?thesis using m(1) by simp
qed

section \<open>Properties\<close>

text \<open>
  A group fetches exactly the shards it gains. For two configurations of the right
  length the computation never fails its assertion, and the shards to fetch from a group
  are those that group owned before and this group owns now, in order; nothing is fetched
  from group 0 or from the group itself, nor before the first configuration.
\<close>

theorem migration_fetches_gained_shards:
  assumes "wf_config old" and "wf_config new"
  shows "\<exists>m. migration_sources old new kv = Inr m \<and>
    (\<forall>g. shards_of g m = (if Num old \<le> 0 \<or> g = 0 \<or> g = skGid kv then []
       else filter (\<lambda>i. Shards new ! i = skGid kv \<and> Shards old ! i = g) [0..<NShards])) \<and>
    (0 < Num old \<longrightarrow>
       fset (fmdom m) = {Shards old ! i | i. i < NShards \<and> Shards new ! i = skGid kv \<and> Shards old ! i \<notin> {0, skGid kv}})"
proof (cases "0 < Num old")
  case True
  with fetch_map [OF assms, of kv] show ?thesis unfolding migration_sources_def by simp
qed (simp add: migration_sources_def shards_of_def)

text \<open>
  Migration happens in order. For each source group the events of a migration are a
  prefix of: ask for the shards, receive them, replicate them, ask for the deletion, have it
  confirmed. So nothing is deleted at the source before it is replicated at the destination;
  the configuration is set once, at the end, when all of this has happened for every group.
\<close>

theorem migration_in_order:
  assumes "mig_run gs es m"
  shows "prefix (filter (\<lambda>e. about e = Some g) es) [AskShards g, GotShards g, ShardsPut g, AskDelete g, Deleted g] \<and>
    (ConfigSet \<in> set es \<longrightarrow> last es = ConfigSet \<and>
       (\<forall>g \<in> gs. filter (\<lambda>e. about e = Some g) es = [AskShards g, GotShards g, ShardsPut g, AskDelete g, Deleted g]))"
proof -
  note inv = mig_run_inv [OF assms, unfolded mig_inv_def]
  have "prefix (history g (mStage m g)) [AskShards g, GotShards g, ShardsPut g, AskDelete g, Deleted g]"
    by (cases "mStage m g") simp_all
  moreover have "mSet m" if "ConfigSet \<in> set es" using inv that by (metis (full_types) filter_empty_conv)
  ultimately show ?thesis using inv by auto
qed

text \<open>
  C18: Migration moves the data and the duplicate table. Let the source group have given the
  shards up, the destination not own them yet, and the leader of the destination replicate
  with a fresh sequence number the answer of the source to \<^verbatim>\<open>GetShards\<close>. Afterwards the
  destination answers every read of the moved shards as the source did when it owned them,
  answers all other reads as before, and ignores every request that the source (or the
  destination itself) has already executed.
\<close>

theorem migration_moves_shards:
  assumes src: "wf_skv src" and dst: "wf_skv dst" and rng: "in_range (set (gsShards a))"
    and not_yet: "\<forall>s \<in> set (gsShards a). Shards (skConfig dst) ! nat s \<noteq> skGid dst"
    and new: "skLast dst (skClientId kv) \<le> skSeqNum kv" and pos: "\<forall>c. 0 \<le> skLast dst c"
    and owner: "wf_skv (src\<lparr>skConfig := before\<rparr>)" "\<forall>s \<in> set (gsShards a). Shards before ! nat s = skGid src"
  shows "\<exists>r dst'. sk_GetShards_reply a SK_OK src = Inr r \<and>
    sk_applyOp \<lparr>skType = PUT_SHARDS, skArgs = SPutShards (fst (migration_put r kv))\<rparr> dst = Inr dst' \<and>
    (\<forall>key. sk_get key dst' = (if int (key2shard key) \<in> set (gsShards a) then sk_get key (src\<lparr>skConfig := before\<rparr>) else sk_get key dst)) \<and>
    (\<forall>x. op_ok x \<and> op_seq (skArgs x) \<le> max (skLast src (op_client (skArgs x))) (skLast dst (op_client (skArgs x))) \<longrightarrow>
       (\<exists>dst''. sk_applyOp x dst' = Inr dst'' \<and> sk_abs dst'' = sk_abs dst'))"
proof -
  obtain r where r: "sk_GetShards_reply a SK_OK src = Inr r" "grsSeqNums r = getClientSeqNumMap src"
    "\<forall>k. fmlookup (grsShards r) k = (if k \<in> set (gsShards a) then Some (skStore src ! nat k) else None)"
    using getShards_reply_wf [OF src rng] by blast
  let ?p = "fst (migration_put r kv)"
  have p: "psShards ?p = grsShards r" "psSeqNums ?p = getClientSeqNumMap src" "skLast dst (psClientId ?p) < psSeqNum ?p"
    using new r(2) by (simp_all add: migration_put_def)
  have dom: "fset (fmdom (grsShards r)) = set (gsShards a)" using r(3) by (auto simp: fmlookup_dom_iff split: if_splits)
  have "in_range (fset (fmdom (psShards ?p)))" using rng dom p(1) by simp
  from put_shards_effect [OF dst this p(3)] obtain dst' where
    d: "sk_applyOp \<lparr>skType = PUT_SHARDS, skArgs = SPutShards ?p\<rparr> dst = Inr dst'" "wf_skv dst'" "skGid dst' = skGid dst"
    and c: "skConfig dst' = (skConfig dst)\<lparr>Shards := put_owner (skGid dst) (set (gsShards a)) (Shards (skConfig dst))\<rparr>"
    "skStore dst' = put_store (skGid dst) (set (gsShards a)) (grsShards r) (Shards (skConfig dst)) (skStore dst)"
    and q: "\<And>c. skLast dst c \<le> skLast dst' c" "\<And>c n. getClientSeqNumMap src c = Some n \<Longrightarrow> n \<le> skLast dst' c"
    unfolding p(1,2) dom by metis
  have get: "sk_get key dst' = (if int (key2shard key) \<in> set (gsShards a) then sk_get key (src\<lparr>skConfig := before\<rparr>) else sk_get key dst)" for key
  proof (cases "int (key2shard key) \<in> set (gsShards a)")
    case True
    then have o: "Shards before ! key2shard key = skGid src" "Shards (skConfig dst) ! key2shard key \<noteq> skGid dst"
      using owner(2) not_yet by (metis nat_int)+
    have "Shards (skConfig dst') ! key2shard key = skGid dst'" "skStore dst' ! key2shard key = skStore src ! key2shard key"
      using True o(2) key2shard_less [of key] r(3) d(3) unfolding c by (simp_all add: put_owner_def put_store_def)
    with True o(1) sk_get_wf [OF d(2), of key] sk_get_wf [OF owner(1), of key] show ?thesis by simp
  next
    case False
    have "Shards (skConfig dst') ! key2shard key = Shards (skConfig dst) ! key2shard key"
      "skStore dst' ! key2shard key = skStore dst ! key2shard key"
      using False key2shard_less [of key] unfolding c by (simp_all add: put_owner_def put_store_def)
    with False sk_get_wf [OF d(2), of key] sk_get_wf [OF dst, of key] d(3) show ?thesis by simp
  qed
  have seqs: "max (skLast src c) (skLast dst c) \<le> skLast dst' c" for c
  proof -
    have "0 \<le> skLast dst' c" using q(1) [of c] pos by (meson order_trans)
    then have "skLast src c \<le> skLast dst' c"
      using q(2) [of c] by (cases "skClients src c") (simp_all add: skLast_def [of src] getClientSeqNumMap_def)
    with q(1) [of c] show ?thesis by simp
  qed
  have "\<exists>dst''. sk_applyOp x dst' = Inr dst'' \<and> sk_abs dst'' = sk_abs dst'"
    if x: "op_ok x" "op_seq (skArgs x) \<le> max (skLast src (op_client (skArgs x))) (skLast dst (op_client (skArgs x)))" for x
  proof -
    have "op_seq (skArgs x) \<le> gSeqs (sk_abs dst') (op_client (skArgs x))"
      using order_trans [OF x(2) seqs [of "op_client (skArgs x)"]] by (simp add: sk_abs_def)
    then have "g_step (skGid dst') (spared dst') x (sk_abs dst') = sk_abs dst'" by (simp add: g_step_def)
    with applyOp_refines [OF d(2) x(1)] show ?thesis unfolding goes_to_def by auto
  qed
  with r(1) d(1) get show ?thesis by blast
qed

section \<open>Requests are executed once\<close>

text \<open>
  \<^verbatim>\<open>executed logs c q gid n\<close>: a request of client \<^verbatim>\<open>c\<close> with number \<^verbatim>\<open>q\<close> or a later one is behind the
  group \<^verbatim>\<open>gid\<close> once it has consumed \<^verbatim>\<open>n\<close> commands of its log. Either the group accepted the
  request when it consumed it, or it consumed with a fresh sequence number the \<^verbatim>\<open>PutShards\<close> with
  the answer to \<^verbatim>\<open>GetShards\<close> of a replica of a group that has the request behind it.
\<close>

inductive executed :: "(int \<Rightarrow> SKOp list) \<Rightarrow> int \<Rightarrow> int \<Rightarrow> int \<Rightarrow> nat \<Rightarrow> bool" for logs c q where
  here: "sk_run sz gid (logs gid) n kv \<Longrightarrow> n < length (logs gid) \<Longrightarrow> g_accepts gid (skArgs (logs gid ! n)) (sk_abs kv) \<Longrightarrow>
    op_client (skArgs (logs gid ! n)) = c \<Longrightarrow> q \<le> op_seq (skArgs (logs gid ! n)) \<Longrightarrow> executed logs c q gid (Suc n)"
| moved: "executed logs c q gid n \<Longrightarrow> n \<le> k \<Longrightarrow> sk_run sz gid (logs gid) k src \<Longrightarrow> sk_GetShards_reply a SK_OK src = Inr r \<Longrightarrow>
    sk_run sz' gid' (logs gid') m dst \<Longrightarrow> m < length (logs gid') \<Longrightarrow>
    logs gid' ! m = \<lparr>skType = PUT_SHARDS, skArgs = SPutShards (fst (migration_put r mk))\<rparr> \<Longrightarrow>
    skLast dst (skClientId mk) \<le> skSeqNum mk \<Longrightarrow> executed logs c q gid' (Suc m)"

lemma put_shards_records:
  assumes "gSeqs g (psClientId p) < psSeqNum p" and "psSeqNums p c = Some s"
  shows "s \<le> gSeqs (g_step gid keep \<lparr>skType = PUT_SHARDS, skArgs = SPutShards p\<rparr> g) c"
  using assms by (auto simp: g_step_def Let_def)

lemma executed_recorded:
  assumes "executed logs c q gid n" and ok: "\<forall>g. \<forall>x \<in> set (logs g). op_ok x"
  shows "q \<le> gSeqs (g_run gid (take n (logs gid))) c"
  using assms(1)
proof (induction rule: executed.induct)
  case (here sz gid n kv)
  have "skConfig kv = gConfig (g_run gid (take n (logs gid)))"
    using sk_invD(4) [OF sk_run_inv [OF here(1)]] ok by blast
  then have "g_accepts gid (skArgs (logs gid ! n)) (g_run gid (take n (logs gid)))"
    using here(3) g_accepts_similar [of "sk_abs kv"] by (simp add: sk_abs_def)
  from g_step_records [OF this] here(4,5) show ?case
    by (simp add: take_Suc_conv_app_nth [OF here(2)] g_run_snoc) (meson order_trans)
next
  case (moved gid n k sz src a r sz' gid' m dst mk)
  let ?g = "g_run gid' (take m (logs gid'))"
  have last: "skLast src = gSeqs (g_run gid (take k (logs gid)))" "skLast dst = gSeqs ?g"
    using sk_invD(5) [OF sk_run_inv [OF moved(3)]] sk_invD(5) [OF sk_run_inv [OF moved(5)]] ok by blast+
  have "q \<le> skLast src c" using order_trans [OF moved.IH g_run_take_mono [OF moved(2)]] by (simp add: last(1))
  moreover have "psSeqNums (fst (migration_put r mk)) = getClientSeqNumMap src"
    using moved(4) by (auto simp: sk_GetShards_reply_def ebind_eq_Inr migration_put_def)
  moreover have "gSeqs ?g (psClientId (fst (migration_put r mk))) < psSeqNum (fst (migration_put r mk))"
    using moved(8) by (simp add: last(2) migration_put_def)
  note put_shards_records [OF this, of c _ gid' "\<lambda>_. False"]
  moreover have "g_run gid' (take (Suc m) (logs gid')) =
      g_step gid' (\<lambda>_. False) \<lparr>skType = PUT_SHARDS, skArgs = SPutShards (fst (migration_put r mk))\<rparr> ?g"
    by (simp only: take_Suc_conv_app_nth [OF moved(6)] g_run_snoc moved(7))
  moreover have "0 \<le> gSeqs (g_run gid' (take (Suc m) (logs gid'))) c" by (rule g_run_seqs_nonneg)
  ultimately show ?case
    by (cases "skClients src c") (force simp: getClientSeqNumMap_def skLast_def)+
qed

text \<open>
  C27: A request takes effect at most once, wherever its shard goes. Once a group has consumed
  a request that it accepts, a repetition of the request (or an earlier request of the
  client) changes nothing at any replica of the group that has consumed as much of the
  log, in any life; and nothing at any replica of a group that has since received shards from it,
  directly or through other groups.
\<close>

theorem shard_request_once:
  assumes "executed logs c q gid n" and "\<forall>g. \<forall>x \<in> set (logs g). op_ok x"
    and "sk_run sz gid (logs gid) k kv" and "n \<le> k" and "op_ok y" "op_client (skArgs y) = c" "op_seq (skArgs y) \<le> q"
  shows "\<exists>kv'. sk_applyOp y kv = Inr kv' \<and> sk_abs kv' = sk_abs kv"
proof -
  have "\<forall>x \<in> set (logs gid). op_ok x" using assms(2) by blast
  note d = sk_invD [OF sk_run_inv [OF assms(3) this]]
  have "q \<le> skLast kv c"
    unfolding d(5) by (rule order_trans [OF executed_recorded [OF assms(1,2)] g_run_take_mono [OF assms(4)]])
  then have "g_step gid (spared kv) y (sk_abs kv) = sk_abs kv"
    using assms(6,7) by (simp add: g_step_def sk_abs_def)
  with applyOp_refines [OF d(2) assms(5)] show ?thesis unfolding goes_to_def d(3) by auto
qed

section \<open>Following the controller\<close>

lemma changeConfig_begin_spec:
  assumes num: "numbered cs" and k: "k < length cs" "Num (skConfig kv) = int k"
    and nxt: "Num (skNextConfig kv) \<le> int k \<or> Suc k < length cs \<and> skNextConfig kv = cs ! Suc k"
    and ans: "getConfig (int k + 1) cs = Inr ans"
  shows "\<exists>act nc p. changeConfig_begin ans kv = Inr (act, kv\<lparr>skNextConfig := nc, skProcessing := p\<rparr>) \<and>
    (Num nc \<le> int k \<or> Suc k < length cs \<and> nc = cs ! Suc k) \<and>
    (act = None \<or> Suc k < length cs \<and> act = Some (skConfig kv, cs ! Suc k) \<and> Num (cs ! Suc k) = int k + 1 \<and>
       \<not> skProcessing kv (int k + 1) \<and> p (int k + 1)) \<and>
    (\<forall>j. skProcessing kv j \<longrightarrow> p j)"
proof -
  define nc where "nc = (if Num (skNextConfig kv) \<le> int k then ans else skNextConfig kv)"
  have a: "if Suc k < length cs then ans = cs ! Suc k else Num ans = int k"
  proof (cases "Suc k < length cs")
    case True
    with ans have "nth_go cs (int k + 1) = Inr ans" by (simp add: getConfig_def)
    then show ?thesis using True by (simp add: nth_go_eq_Inr nat_add_distrib)
  next
    case False
    then have "length cs = Suc k" using k(1) by simp
    with ans False num show ?thesis by (simp add: getConfig_def nth_go_eq_Inr numbered_def)
  qed
  have n: "Suc k < length cs \<Longrightarrow> Num (cs ! Suc k) = int k + 1" using num by (simp add: numbered_def)
  have nc: "Num nc = int k \<or> Suc k < length cs \<and> nc = cs ! Suc k"
    using a nxt by (auto simp: nc_def split: if_splits)
  have kv1: "(if Num (skNextConfig kv) \<le> int k then kv\<lparr>skNextConfig := ans\<rparr> else kv) = kv\<lparr>skNextConfig := nc\<rparr>"
    by (simp add: nc_def)
  show ?thesis
  proof (cases "Num nc = int k \<or> skProcessing kv (int k + 1)")
    case True
    then have "changeConfig_begin ans kv = Inr (None, kv\<lparr>skNextConfig := nc, skProcessing := skProcessing kv\<rparr>)"
      using nc n by (auto simp: changeConfig_begin_def k(2) kv1 processing_put_def Let_def)
    then show ?thesis using nc by (intro exI [of _ None] exI [of _ nc] exI [of _ "skProcessing kv"]) auto
  next
    case False
    let ?p = "(skProcessing kv)(int k + 1 := True)"
    have "changeConfig_begin ans kv = Inr (Some (skConfig kv, nc), kv\<lparr>skNextConfig := nc, skProcessing := ?p\<rparr>)"
      using False nc n by (auto simp: changeConfig_begin_def k(2) kv1 processing_put_def Let_def)
    then show ?thesis using False nc n
      by (intro exI [of _ "Some (skConfig kv, nc)"] exI [of _ nc] exI [of _ ?p]) auto
  qed
qed

text \<open>
  C35: A group goes through the configurations one by one. Let the controller have
  configurations numbered by position, and let the server be at number \<^verbatim>\<open>k\<close> with a \<^verbatim>\<open>nextConfig\<close>
  that is old or number \<^verbatim>\<open>k + 1\<close>. Then a turn of \<^verbatim>\<open>pollConfig\<close> never fails its assertion, keeps
  this relation, changes nothing but \<^verbatim>\<open>nextConfig\<close> and the set of numbers in progress, and only a
  leader starts work, from the current configuration to number \<^verbatim>\<open>k + 1\<close>, and only once.
\<close>

theorem config_changes_one_by_one:
  assumes "numbered cs" and "k < length cs" and "Num (skConfig kv) = int k"
    and nxt: "Num (skNextConfig kv) \<le> int k \<or> Suc k < length cs \<and> skNextConfig kv = cs ! Suc k"
    and "getConfig (int k + 1) cs = Inr ans" and alive: "\<not> sk_Killed kv"
  shows "\<exists>act nc p. pollConfig ans kv = Inr (Some (act, kv\<lparr>skNextConfig := nc, skProcessing := p\<rparr>)) \<and>
    (Num nc \<le> int k \<or> Suc k < length cs \<and> nc = cs ! Suc k) \<and>
    (act = None \<or> role (skRf kv) = LEADER \<and> Suc k < length cs \<and> act = Some (skConfig kv, cs ! Suc k) \<and>
       Num (cs ! Suc k) = int k + 1 \<and> \<not> skProcessing kv (int k + 1) \<and> p (int k + 1)) \<and>
    (\<forall>j. skProcessing kv j \<longrightarrow> p j)"
proof (cases "role (skRf kv) = LEADER")
  case True
  obtain act nc p where h: "changeConfig_begin ans kv = Inr (act, kv\<lparr>skNextConfig := nc, skProcessing := p\<rparr>)"
    "Num nc \<le> int k \<or> Suc k < length cs \<and> nc = cs ! Suc k"
    "act = None \<or> Suc k < length cs \<and> act = Some (skConfig kv, cs ! Suc k) \<and> Num (cs ! Suc k) = int k + 1 \<and>
       \<not> skProcessing kv (int k + 1) \<and> p (int k + 1)" "\<forall>j. skProcessing kv j \<longrightarrow> p j"
    using changeConfig_begin_spec [OF assms(1-5)] by blast
  have "pollConfig ans kv = Inr (Some (act, kv\<lparr>skNextConfig := nc, skProcessing := p\<rparr>))"
    using True alive h(1) by (simp add: pollConfig_def GetState_def)
  with h(2-4) True show ?thesis by blast
next
  case False
  with alive have "pollConfig ans kv = Inr (Some (None, kv\<lparr>skNextConfig := skNextConfig kv, skProcessing := skProcessing kv\<rparr>))"
    by (simp add: pollConfig_def GetState_def)
  with nxt show ?thesis by blast
qed

section \<open>Migration and the controller\<close>

text \<open>Group \<^verbatim>\<open>g\<close> fetches shards from group \<^verbatim>\<open>h\<close> when it goes from one configuration to the next.\<close>

definition fetches :: "Config \<Rightarrow> Config \<Rightarrow> int \<Rightarrow> int \<Rightarrow> bool" where
  "fetches c c' g h \<longleftrightarrow> (\<exists>i < NShards. Shards c ! i = h \<and> Shards c' ! i = g \<and> h \<noteq> 0 \<and> h \<noteq> g)"

definition no_chain :: "Config \<Rightarrow> Config \<Rightarrow> bool" where
  "no_chain c c' \<longleftrightarrow> (\<forall>g h k. fetches c c' g h \<longrightarrow> \<not> fetches c c' h k)"

lemma no_chain_Num [simp]: "no_chain c (c'\<lparr>Num := n\<rparr>) = no_chain c c'"
  by (simp add: no_chain_def fetches_def)

lemma no_chain_join:
  assumes v: "valid_config c" and m: "moves_into (A - fset (fmdom (Groups c))) (Shards c) (Shards c')"
  shows "no_chain c c'"
  unfolding no_chain_def
proof (intro allI impI notI)
  fix g h k assume "fetches c c' g h" and "fetches c c' h k"
  then obtain i j where i: "i < NShards" "Shards c ! i = h" "h \<noteq> 0" and j: "j < NShards" "Shards c' ! j = h" "Shards c ! j \<noteq> h"
    by (auto simp: fetches_def)
  have len: "length (Shards c) = NShards" using v by (simp add: valid_config_def)
  have "h \<in> set (Shards c)" using i len by auto
  then have "h \<in> fset (fmdom (Groups c))" using v i(3) by (auto simp: valid_config_def split: if_splits)
  moreover have "h \<in> A - fset (fmdom (Groups c))" using m j len unfolding moves_into_def by metis
  ultimately show False by simp
qed

lemma no_chain_leave:
  assumes v: "valid_config c'" and d: "fset (fmdom (Groups c')) = fset (fmdom (Groups c)) - set gids"
    and keep: "\<forall>i < NShards. Shards c ! i \<notin> set gids \<longrightarrow> Shards c' ! i = Shards c ! i"
  shows "no_chain c c'"
  unfolding no_chain_def
proof (intro allI impI notI)
  fix g h k assume "fetches c c' g h" and "fetches c c' h k"
  then obtain i j where i: "i < NShards" "Shards c ! i = h" "Shards c' ! i \<noteq> h" "h \<noteq> 0" and j: "j < NShards" "Shards c' ! j = h"
    by (auto simp: fetches_def)
  have "h \<in> set gids" using keep i by metis
  moreover have "h \<in> set (Shards c')" using j v by (auto simp: valid_config_def)
  then have "h \<in> fset (fmdom (Groups c'))" using v i(4) by (auto simp: valid_config_def split: if_splits)
  ultimately show False using d by simp
qed

text \<open>Each configuration of the controller follows from the one before without a chain.\<close>

definition chain_free :: "Config list \<Rightarrow> bool" where
  "chain_free cs \<longleftrightarrow> (\<forall>i. Suc i < length cs \<longrightarrow> no_chain (cs ! i) (cs ! Suc i))"

lemma chain_free_append:
  assumes "chain_free cs" and "cs \<noteq> []" and "no_chain (last cs) c"
  shows "chain_free (configs_append c cs)"
  using assms unfolding chain_free_def configs_append_def
  by (auto simp: nth_append last_conv_nth less_Suc_eq) (metis diff_Suc_1 One_nat_def)

lemma sc_effect_chain_free:
  assumes inv: "numbered cs" "\<forall>c \<in> set cs. good c" "chain_free cs" "cs ! 0 = hd configs_init"
    and x: "sane x" "sc_effect x cs = Inr cs'"
  shows "chain_free cs' \<and> cs' ! 0 = hd configs_init"
proof -
  have ne: "cs \<noteq> []" and lg: "valid_config (last cs)" "balanced (last cs)"
    using inv(1,2) by (auto simp: numbered_def good_def)
  have step: "?thesis" if "cs' = configs_append c' cs" "no_chain (last cs) c'" for c'
    using chain_free_append [OF inv(3) ne] that inv(4) ne by (auto simp: configs_append_def nth_append)
  note lt = getLatestConfig_numbered [OF ne]
  show ?thesis
  proof (cases x)
    case (AJoin a)
    show ?thesis
    proof (cases "Num (last cs) = 0")
      case True
      then have "length cs = 1" using inv(1) ne by (cases "length cs") (auto simp: numbered_def last_conv_nth)
      then have "last cs = hd configs_init" using inv(4) by (cases cs) auto
      then have "Shards (last cs) = replicate NShards 0" by (simp add: configs_init_def)
      then have "no_chain (last cs) c'" for c' by (simp add: no_chain_def fetches_def)
      moreover obtain c' where "cs' = configs_append c' cs"
        using x(2) by (auto simp: AJoin lt Clone_id ebind_eq_Inr Let_def)
      ultimately show ?thesis using step by blast
    next
      case False
      then obtain c' where c': "JoinGroups (jaGroups a) (last cs) = Inr c'" "cs' = configs_append c' cs"
        using x(2) by (auto simp: AJoin lt Clone_id ebind_eq_Inr Let_def)
      have "0 \<notin> set (GetSortedKeysOfGroups (jaGroups a))" using x(1) by (simp add: AJoin)
      from join_groups_spec [OF lg this, of "jaGroups a"] c'(1) have
        "moves_into (set (GetSortedKeysOfGroups (jaGroups a)) - fset (fmdom (Groups (last cs)))) (Shards (last cs)) (Shards c')"
        by (auto simp: JoinGroups_def)
      from step [OF c'(2) no_chain_join [OF lg(1) this]] show ?thesis .
    qed
  next
    case (ALeave a)
    then obtain c' where c': "RemoveGroups (laGIDs a) (last cs) = Inr c'" "cs' = configs_append c' cs"
      using x(2) by (auto simp: lt Clone_id ebind_eq_Inr)
    from RemoveGroups_spec [OF lg, of "laGIDs a"] c'(1) have
      "valid_config c'" "fset (fmdom (Groups c')) = fset (fmdom (Groups (last cs))) - set (laGIDs a)"
      "\<forall>i < NShards. Shards (last cs) ! i \<notin> set (laGIDs a) \<longrightarrow> Shards c' ! i = Shards (last cs) ! i" by auto
    from step [OF c'(2) no_chain_leave [OF this]] show ?thesis .
  qed (use x inv in auto)
qed

lemma sc_effects_chain_free:
  assumes "run_res sc_effect xs cs = Inr cs'" and "\<forall>x \<in> set xs. sane x"
    and "numbered cs" "\<forall>c \<in> set cs. good c" "chain_free cs" "cs ! 0 = hd configs_init"
  shows "chain_free cs'"
  using assms
proof (induction xs arbitrary: cs)
  case (Cons x xs)
  then obtain c1 where c1: "sc_effect x cs = Inr c1" "run_res sc_effect xs c1 = Inr cs'" by (auto simp: ebind_eq_Inr)
  have x: "sane x" using Cons.prems(2) by simp
  have "numbered c1" using sc_effect_extends [OF c1(1)] Cons.prems(3) numbered_append by auto
  moreover have "\<forall>c \<in> set c1. good c" using sc_effect_sane [OF Cons.prems(3,4) x] c1(1) by auto
  moreover have "chain_free c1 \<and> c1 ! 0 = hd configs_init"
    by (rule sc_effect_chain_free [OF Cons.prems(3-6) x c1(1)])
  ultimately show ?case using Cons.IH [OF c1(2)] Cons.prems(2) by simp
qed simp

text \<open>
  C26: Groups cannot wait for each other in a circle. A group may answer \<^verbatim>\<open>GetShards\<close> only when it
  has reached the new configuration, for which it may have to fetch shards itself. Between
  consecutive configurations of a controller that is administered with \<^verbatim>\<open>Join\<close> and \<^verbatim>\<open>Leave\<close>, a
  group from which shards are fetched never fetches shards itself, so the groups that must
  wait wait for groups that need not.
\<close>

theorem migration_never_deadlocks:
  assumes "\<forall>x \<in> set log. sane x" and "sc_run log n sc" and "Suc i < length (configs sc)"
    and "fetches (configs sc ! i) (configs sc ! Suc i) g h"
  shows "\<not> (\<exists>k. fetches (configs sc ! i) (configs sc ! Suc i) h k) \<and>
    (\<forall>kv. skGid kv = h \<longrightarrow> getMigrationFromGroupShardsMap (configs sc ! i) (configs sc ! Suc i) kv = Inr fmempty)"
proof -
  have r: "run_res sc_effect (sc_fresh (take n log)) configs_init = Inr (configs sc)"
    using sc_run_inv [OF assms(2)] by (simp add: sc_inv_def)
  have "set (sc_fresh (take n log)) \<subseteq> set log"
    unfolding sc_fresh_def by (rule order_trans [OF fresh_set set_take_subset])
  then have sane: "\<forall>x \<in> set (sc_fresh (take n log)). sane x" using assms(1) by fast
  from sc_effects_chain_free [OF r this numbered_init good_init]
  have "chain_free (configs sc)" by (simp add: chain_free_def configs_init_def)
  then have none: "\<not> fetches (configs sc ! i) (configs sc ! Suc i) h k" for k
    using assms(3,4) unfolding chain_free_def no_chain_def by blast
  moreover have "getMigrationFromGroupShardsMap (configs sc ! i) (configs sc ! Suc i) kv = Inr fmempty"
    if h: "skGid kv = h" for kv
  proof -
    have "\<forall>c \<in> set (configs sc). good c" using sc_effects_sane [OF sane numbered_init good_init] r by auto
    then have wf: "wf_config (configs sc ! i)" "wf_config (configs sc ! Suc i)"
      using assms(3) by (simp_all add: good_def valid_config_def wf_config_def)
    obtain m where m: "getMigrationFromGroupShardsMap (configs sc ! i) (configs sc ! Suc i) kv = Inr m"
      "fset (fmdom m) = {Shards (configs sc ! i) ! j | j. j < NShards \<and> Shards (configs sc ! Suc i) ! j = skGid kv \<and>
         Shards (configs sc ! i) ! j \<notin> {0, skGid kv}}"
      using fetch_map [OF wf, of kv] by blast
    have "fset (fmdom m) = {}" using none unfolding m(2) h by (auto simp: fetches_def)
    then have "m = fmempty" by (metis bot_fset.rep_eq fmrestrict_fset_dom fmrestrict_fset_null fset_inject)
    with m(1) show ?thesis by simp
  qed
  ultimately show ?thesis by blast
qed

section \<open>Witnesses\<close>

theorem migration_fetches_gained_shards_witness:
  "\<exists>m. migration_sources (all_to 1 2) (all_to 2 1) sk_boot = Inr m \<and> shards_of 2 m = [0..<NShards]"
proof -
  have g: "skGid sk_boot = 1" by (simp add: sk_boot_def)
  have wf: "wf_config (all_to 1 2)" "wf_config (all_to 2 1)" by (simp_all add: all_to_def wf_config_def)
  have n: "0 < Num (all_to 1 2)" by (simp add: all_to_def)
  obtain m where m: "migration_sources (all_to 1 2) (all_to 2 1) sk_boot = Inr m"
    "shards_of 2 m = filter (\<lambda>i. Shards (all_to 2 1) ! i = 1 \<and> Shards (all_to 1 2) ! i = 2) [0..<NShards]"
    using migration_fetches_gained_shards [OF wf, of sk_boot] n unfolding g by auto
  have "filter (\<lambda>i. Shards (all_to 2 1) ! i = 1 \<and> Shards (all_to 1 2) ! i = 2) [0..<NShards] = [0..<NShards]"
    by (simp add: all_to_def)
  with m show ?thesis by simp
qed

theorem migration_in_order_witness:
  "prefix (filter (\<lambda>e. about e = Some 2) [AskShards 2, GotShards 2]) [AskShards 2, GotShards 2, ShardsPut 2, AskDelete 2, Deleted 2]"
proof -
  have a: "mig_run {2} ([] @ [AskShards 2]) (mig_init\<lparr>mStage := (mStage mig_init)(2 := Asked)\<rparr>)"
    by (rule mig_run.step [OF mig_run.start mig_step.ask]) (simp_all add: mig_init_def)
  let ?m = "mig_init\<lparr>mStage := (mStage mig_init)(2 := Asked)\<rparr>"
  have "mig_run {2} (([] @ [AskShards 2]) @ [GotShards 2]) (?m\<lparr>mStage := (mStage ?m)(2 := Received)\<rparr>)"
    by (rule mig_run.step [OF a mig_step.got]) simp_all
  from migration_in_order [OF this, of 2] show ?thesis by simp
qed

text \<open>A group 2 that gave away every shard at configuration 2, with a value in one of them.\<close>

definition source_group :: ShardKV where
  "source_group = sk_boot\<lparr>skGid := 2, skConfig := all_to 2 1, skStore := initStore[key2shard ''k'' := [''k'' \<mapsto> ''x'']]\<rparr>"

theorem migration_moves_shards_witness:
  "\<exists>r dst'. sk_GetShards_reply \<lparr>gsConfigNum = 2, gsShards = [int (key2shard ''k'')], gsSeqNum = 1, gsClientId = 6\<rparr> SK_OK source_group = Inr r \<and>
     sk_applyOp \<lparr>skType = PUT_SHARDS, skArgs = SPutShards (fst (migration_put r sk_boot))\<rparr> (sk_boot\<lparr>skConfig := all_to 1 2\<rparr>) = Inr dst' \<and>
     sk_get ''k'' dst' = Inr (''x'', SK_OK)"
proof -
  let ?a = "\<lparr>gsConfigNum = 2, gsShards = [int (key2shard ''k'')], gsSeqNum = 1, gsClientId = 6\<rparr>"
    and ?dst = "sk_boot\<lparr>skConfig := all_to 1 2\<rparr>" and ?before = "source_group\<lparr>skConfig := all_to 1 2\<rparr>"
  note k = key2shard_less [of "''k''"]
  have wf: "wf_skv source_group" "wf_skv ?dst" "wf_skv ?before"
    using sk_boot_wf by (simp_all add: source_group_def skv_wf all_to_def initStore_def)
  have "in_range (set (gsShards ?a))" using k by (simp add: in_range_def)
  moreover have "\<forall>s \<in> set (gsShards ?a). Shards (skConfig ?dst) ! nat s \<noteq> skGid ?dst"
    "\<forall>s \<in> set (gsShards ?a). Shards (all_to 1 2) ! nat s = skGid source_group"
    using k by (simp_all add: all_to_def sk_boot_def source_group_def)
  moreover have "skLast ?dst (skClientId sk_boot) \<le> skSeqNum sk_boot" "\<forall>c. 0 \<le> skLast ?dst c"
    by (simp_all add: skLast_def sk_boot_def)
  moreover have "sk_get ''k'' ?before = Inr (''x'', SK_OK)"
    using k sk_get_wf [OF wf(3), of "''k''"] by (simp add: source_group_def all_to_def initStore_def)
  ultimately show ?thesis
    using migration_moves_shards [OF wf(1,2), of ?a sk_boot "all_to 1 2"] wf(3) by force
qed

theorem config_changes_one_by_one_witness:
  "\<exists>act nc p. pollConfig (hd configs_init) sk_boot = Inr (Some (act, sk_boot\<lparr>skNextConfig := nc, skProcessing := p\<rparr>))"
proof -
  have "getConfig (int 0 + 1) configs_init = Inr (hd configs_init)" "0 < length configs_init"
    "Num (skConfig sk_boot) = int 0" "Num (skNextConfig sk_boot) \<le> int 0" "\<not> sk_Killed sk_boot"
    by (simp_all add: getConfig_def nth_go_def configs_init_def sk_boot_def zero_config_def sk_Killed_def Killed_def boot_node_def)
  from config_changes_one_by_one [OF numbered_init this(2,3) _ this(1,5)] this(4) show ?thesis by blast
qed

theorem shard_request_once_witness:
  "\<exists>logs kv kv'. executed logs 7 1 2 1 \<and> sk_run (\<lambda>_. 0) 2 (logs 2) 1 kv \<and> sk_applyOp put_op kv = Inr kv' \<and> sk_abs kv' = sk_abs kv"
proof -
  let ?sz = "\<lambda>_ :: SKOp ptok. 0 :: nat"
  let ?a = "\<lparr>gsConfigNum = 2, gsShards = [int (key2shard ''k'')], gsSeqNum = 1, gsClientId = 6\<rparr>"
  note k = key2shard_less [of "''k''"]
  have tk: "take 1 leave_and_rejoin = [set_config_op 1 1]" "length leave_and_rejoin = 6" "leave_and_rejoin ! 1 = put_op"
    by (simp_all add: leave_and_rejoin_def)
  have mx: "skMaxState sk_boot \<le> 0" by (simp add: sk_boot_def)
  obtain kv1 where kv1: "sk_run ?sz 1 leave_and_rejoin 1 kv1"
    using sk_run_steps [OF sk_boot_run _ _ leave_and_rejoin_ok mx, of 1 ?sz] tk(2) by auto
  have acc: "g_accepts 1 (skArgs put_op) (sk_abs kv1)"
    using sk_invD(4) [OF sk_run_inv [OF kv1 leave_and_rejoin_ok]] k unfolding tk(1)
    by (simp add: sk_abs_def put_op_def g_run_def g_step_def g_init_def set_config_op_def all_to_def zero_config_def)
  obtain src where src: "sk_run ?sz 1 leave_and_rejoin 2 src" using rejoin_run by blast
  have "wf_skv src" using sk_invD(2) [OF sk_run_inv [OF src leave_and_rejoin_ok]] .
  with getShards_reply_wf [of src ?a] k obtain r where r: "sk_GetShards_reply ?a SK_OK src = Inr r"
    "\<forall>i. fmlookup (grsShards r) i = (if i \<in> set (gsShards ?a) then Some (skStore src ! nat i) else None)"
    by (auto simp: in_range_def)
  let ?put = "\<lparr>skType = PUT_SHARDS, skArgs = SPutShards (fst (migration_put r sk_boot))\<rparr>"
  define logs where "logs = (\<lambda>g :: int. if g = 2 then [?put] else leave_and_rejoin)"
  have l: "logs 1 = leave_and_rejoin" "logs 2 = [?put]" by (simp_all add: logs_def)
  have "fset (fmdom (grsShards r)) \<subseteq> {int (key2shard ''k'')}" using r(2) by (auto simp: fmlookup_dom_iff split: if_splits)
  then have "op_ok ?put" using k by (auto simp: op_ok_def migration_put_def in_range_def)
  then have ok: "\<forall>g. \<forall>x \<in> set (logs g). op_ok x" using leave_and_rejoin_ok by (simp add: logs_def)
  obtain dst where dst: "sk_StartServer 3 0 MakePersister (- 1) 2 3 5 6 0 = Inr dst" "skMaxState dst \<le> 0" "skLast dst 6 = 0"
    by (simp add: sk_StartServer_def Make_boot skLast_def)
  have run0: "sk_run ?sz 2 (logs 2) 0 dst" by (rule sk_run.boot [OF dst(1)])
  have e1: "executed logs 7 1 1 (Suc 1)"
    by (rule executed.here [of ?sz 1 logs 1 kv1]) (use kv1 acc tk in \<open>simp_all add: l put_op_def\<close>)
  have e2: "executed logs 7 1 2 (Suc 0)"
    by (rule executed.moved [OF e1 _ _ r(1) run0, of 2 ?sz sk_boot]) (use src dst(3) in \<open>simp_all add: l sk_boot_def\<close>)
  have "0 < length (logs 2)" "\<forall>x \<in> set (logs 2). op_ok x" using ok by (simp add: l, blast)
  from sk_run_step [OF run0 this dst(2)] obtain kv where kv: "sk_run ?sz 2 (logs 2) (Suc 0) kv" by blast
  from shard_request_once [OF e2 ok kv order_refl put_op_ok] obtain kv' where
    "sk_applyOp put_op kv = Inr kv'" "sk_abs kv' = sk_abs kv" by (auto simp: put_op_def)
  with e2 kv show ?thesis by (intro exI [of _ logs] exI [of _ kv] exI [of _ kv']) simp
qed

definition join_six :: sc_args where
  "join_six = AJoin \<lparr>jaGroups = fmap_of_list [(6, [''t''])], jaSeqNum = 3, jaClientId = 9\<rparr>"

lemma join_five_six:
  "\<exists>c1 c2. run_res sc_effect [join_five, join_six] configs_init = Inr (configs_init @ [c1, c2]) \<and>
     Shards c1 ! 0 = 5 \<and> Shards c2 ! 0 = 6"
proof -
  let ?c1 = "\<lparr>Num = 1, Shards = replicate NShards 5, Groups = fmap_of_list [(5, [''s''])]\<rparr>"
  let ?c2 = "\<lparr>Num = 2, Shards = [6, 6, 6, 6, 6, 5, 5, 5, 5, 5], Groups = fmap_of_list [(5, [''s'']), (6, [''t''])]\<rparr>"
  have "run_res sc_effect [join_five, join_six] configs_init = Inr (configs_init @ [?c1, ?c2])" by code_simp
  moreover have "Shards ?c1 ! 0 = 5" by (simp add: NShards_def)
  ultimately show ?thesis by (intro exI [of _ ?c1] exI [of _ ?c2]) simp
qed

theorem migration_never_deadlocks_witness:
  "\<exists>sc. sc_run [join_five, join_six] 2 sc \<and> fetches (configs sc ! 1) (configs sc ! Suc 1) 6 5 \<and>
     \<not> (\<exists>k. fetches (configs sc ! 1) (configs sc ! Suc 1) 5 k)"
proof -
  have sane: "\<forall>x \<in> set [join_five, join_six]. sane x" by (simp add: join_five_def join_six_def)
  obtain sc where sc: "sc_run [join_five, join_six] 2 sc" using sane_run [OF sane, of 2] by auto
  have "sc_fresh (take 2 [join_five, join_six]) = [join_five, join_six]"
    by (simp add: sc_fresh_def join_five_def join_six_def)
  then have "run_res sc_effect [join_five, join_six] configs_init = Inr (configs sc)"
    using sc_run_inv [OF sc] unfolding sc_inv_def by simp
  with join_five_six obtain c1 c2 where c: "configs sc = configs_init @ [c1, c2]" "Shards c1 ! 0 = 5" "Shards c2 ! 0 = 6" by auto
  then have l: "Suc 1 < length (configs sc)" and n: "configs sc ! 1 = c1" "configs sc ! Suc 1 = c2"
    by (simp_all add: configs_init_def)
  have "fetches (configs sc ! 1) (configs sc ! Suc 1) 6 5"
    unfolding n fetches_def using c by (intro exI [of _ 0]) (simp add: NShards_def)
  with migration_never_deadlocks [OF sane sc l this] sc show ?thesis by blast
qed

end
