(* ===== verification/Shard_Client.thy ===== *)
theory Shard_Client
  imports Shard_Migration
begin

text \<open>
  The clerk of the sharded service, \<^verbatim>\<open>src/shardkv/client.go\<close>. It sends a request to the group
  that its configuration names for the key, tries the servers of the group once each, and
  between rounds asks the controller for the latest configuration. The replies and timeouts
  of a round and of the query after it are the events of the model.
\<close>

section \<open>The clerk\<close>

record SKClerk =
  kcCtrl :: SCClerk
  kcConfig :: Config
  kcSeqNum :: int
  kcClientId :: int
  kcLeaders :: "int \<rightharpoonup> int"

definition kc_MakeClerk :: "nat \<Rightarrow> int \<Rightarrow> int \<Rightarrow> SKClerk" where
  "kc_MakeClerk ctrlers r1 r2 =
     \<lparr>kcCtrl = sc_MakeClerk ctrlers r1, kcConfig = zero_config, kcSeqNum = 0, kcClientId = r2, kcLeaders = Map.empty\<rparr>"

text \<open>
  The loop of \<^verbatim>\<open>callOtherGroup\<close> over the \<^verbatim>\<open>n\<close> servers of a group. \<^verbatim>\<open>r\<close> is the last result
  received, also a refusal; it is what the call returns when the servers are exhausted.
\<close>

datatype 'r group_result = Waiting | Done "(int \<times> 'r) option"

fun group_loop :: "nat \<Rightarrow> ('r \<Rightarrow> bool) \<Rightarrow> int \<Rightarrow> nat \<Rightarrow> (int \<times> 'r) option \<Rightarrow> 'r event list \<Rightarrow> int list \<times> 'r group_result" where
  "group_loop n wrong ld off r [] =
     (if off < n then ([(ld + int off) mod int n], Waiting) else ([], Done r))"
| "group_loop n wrong ld off r (e # es) =
     (if off < n
      then let si = (ld + int off) mod int n in
           case e of
             Some (j, reply) \<Rightarrow>
               if wrong reply
               then (case group_loop n wrong ld (Suc off) (Some (j, reply)) es of (ids, x) \<Rightarrow> (si # ids, x))
               else ([si], Done (Some (j, reply)))
           | None \<Rightarrow> (case group_loop n wrong ld (Suc off) r es of (ids, x) \<Rightarrow> (si # ids, x))
      else ([], Done r))"

text \<open>The result is stored as the leader of the group: server 0 if there was none.\<close>

definition kc_callOtherGroup :: "('r \<Rightarrow> bool) \<Rightarrow> int \<Rightarrow> string list \<Rightarrow> 'r event list \<Rightarrow> SKClerk \<Rightarrow> 'r group_result \<times> SKClerk" where
  "kc_callOtherGroup wrong gid servers es ck =
     (case snd (group_loop (length servers) wrong (leaders_get gid (kcLeaders ck)) 0 None es) of
        Waiting \<Rightarrow> (Waiting, ck)
      | Done r \<Rightarrow> (Done r, ck\<lparr>kcLeaders := leaders_put gid (case r of Some (j, _) \<Rightarrow> j | None \<Rightarrow> 0) (kcLeaders ck)\<rparr>))"

text \<open>
  The endless loop shared by \<^verbatim>\<open>Get\<close> and \<^verbatim>\<open>PutAppend\<close>: \<^verbatim>\<open>ok\<close> extracts the result from a
  reply that ends it. \<^verbatim>\<open>None\<close> as result: the loop has not returned yet.
\<close>

fun kc_loop :: "('r \<Rightarrow> bool) \<Rightarrow> ('r \<Rightarrow> 'v option) \<Rightarrow> string \<Rightarrow> ('r event list \<times> sc_answer event list) list \<Rightarrow>
    SKClerk \<Rightarrow> ('v option \<times> SKClerk) res" where
  "kc_loop wrong ok key [] ck = Inr (None, ck)"
| "kc_loop wrong ok key ((es, qs) # rounds) ck =
     ebind (nth_go (Shards (kcConfig ck)) (int (key2shard key))) (\<lambda>gid.
     case (case fmlookup (Groups (kcConfig ck)) gid of
             Some servers \<Rightarrow> kc_callOtherGroup wrong gid servers es ck
           | None \<Rightarrow> (Done None, ck)) of
       (Waiting, ck1) \<Rightarrow> Inr (None, ck1)
     | (Done r, ck1) \<Rightarrow>
         (case Option.bind r (\<lambda>(j, reply). ok reply) of
            Some v \<Rightarrow> Inr (Some v, ck1)
          | None \<Rightarrow>
              ebind (ck_Query qs (kcCtrl ck1)) (\<lambda>(c, ctrl).
              case c of None \<Rightarrow> Inr (None, ck1\<lparr>kcCtrl := ctrl\<rparr>)
              | Some config \<Rightarrow> kc_loop wrong ok key rounds (ck1\<lparr>kcCtrl := ctrl, kcConfig := config\<rparr>))))"

definition kc_nextSeq :: "SKClerk \<Rightarrow> SKClerk" where
  "kc_nextSeq ck = ck\<lparr>kcSeqNum := kcSeqNum ck + 1\<rparr>"

definition kc_GetArgs :: "string \<Rightarrow> SKClerk \<Rightarrow> SKGetArgs" where
  "kc_GetArgs key ck = \<lparr>sgKey = key, sgSeqNum = kcSeqNum ck + 1, sgClientId = kcClientId ck\<rparr>"

definition kc_Get :: "string \<Rightarrow> (SKGetReply event list \<times> sc_answer event list) list \<Rightarrow> SKClerk \<Rightarrow> (string option \<times> SKClerk) res" where
  "kc_Get key rounds ck =
     kc_loop (\<lambda>r. sgErr r = SK_ErrWrongLeader) (\<lambda>r. if sgErr r = SK_OK then Some (sgValue r) else None) key rounds (kc_nextSeq ck)"

definition kc_PutAppendArgs :: "string \<Rightarrow> string \<Rightarrow> string \<Rightarrow> SKClerk \<Rightarrow> SKPutAppendArgs" where
  "kc_PutAppendArgs key val op ck =
     \<lparr>spKey = key, spValue = val, spOp = op, spSeqNum = kcSeqNum ck + 1, spClientId = kcClientId ck\<rparr>"

definition kc_PutAppend :: "string \<Rightarrow> (SKReply event list \<times> sc_answer event list) list \<Rightarrow> SKClerk \<Rightarrow> (unit option \<times> SKClerk) res" where
  "kc_PutAppend key rounds ck =
     kc_loop (\<lambda>r. skErr r = SK_ErrWrongLeader) (\<lambda>r. if skErr r = SK_OK then Some () else None) key rounds (kc_nextSeq ck)"

definition kc_Put :: "string \<Rightarrow> string \<Rightarrow> SKClerk \<Rightarrow> SKPutAppendArgs" where
  "kc_Put key val ck = kc_PutAppendArgs key val PUT ck"

definition kc_Append :: "string \<Rightarrow> string \<Rightarrow> SKClerk \<Rightarrow> SKPutAppendArgs" where
  "kc_Append key val ck = kc_PutAppendArgs key val APPEND ck"

section \<open>Facts\<close>

lemma group_loop_result:
  "snd (group_loop n wrong ld off r es) = Done (Some (j, x)) \<Longrightarrow> r = Some (j, x) \<or> Some (j, x) \<in> set es"
proof (induction es arbitrary: off r)
  case (Cons e es)
  show ?case
  proof (cases "off < n")
    case True
    show ?thesis
    proof (cases e)
      case None
      with Cons.prems True have "snd (group_loop n wrong ld (Suc off) r es) = Done (Some (j, x))"
        by (simp add: Let_def split: prod.splits)
      with Cons.IH show ?thesis by fastforce
    next
      case (Some p)
      obtain i y where p: "p = (i, y)" by fastforce
      show ?thesis
      proof (cases "wrong y")
        case w: True
        with Cons.prems True Some p have "snd (group_loop n wrong ld (Suc off) (Some (i, y)) es) = Done (Some (j, x))"
          by (simp add: Let_def split: prod.splits)
        with Cons.IH Some p show ?thesis by fastforce
      next
        case False
        with Cons.prems True Some p show ?thesis by (simp add: Let_def)
      qed
    qed
  next
    case False
    with Cons.prems show ?thesis by simp
  qed
qed (simp split: if_splits)

lemma kc_loop_result:
  assumes "kc_loop wrong ok key rounds ck = Inr (Some v, ck')"
  shows "\<exists>(es, qs) \<in> set rounds. \<exists>j r. Some (j, r) \<in> set es \<and> ok r = Some v"
  using assms
proof (induction rounds arbitrary: ck)
  case (Cons a rounds)
  obtain es qs where a: "a = (es, qs)" by fastforce
  obtain gid where g: "nth_go (Shards (kcConfig ck)) (int (key2shard key)) = Inr gid"
    using Cons.prems by (auto simp: a ebind_eq_Inr)
  define res where "res = (case fmlookup (Groups (kcConfig ck)) gid of
             Some servers \<Rightarrow> kc_callOtherGroup wrong gid servers es ck
           | None \<Rightarrow> (Done None, ck))"
  obtain r0 ck1 where res: "res = (r0, ck1)" by fastforce
  have from_es: "Some (j, x) \<in> set es" if r0: "r0 = Done (Some (j, x))" for j x
  proof -
    have "\<exists>n ld. snd (group_loop n wrong ld 0 None es) = Done (Some (j, x))"
      using res r0 unfolding res_def kc_callOtherGroup_def
      by (auto split: option.splits group_result.splits)
    with group_loop_result show ?thesis by fastforce
  qed
  show ?case
  proof (cases "\<exists>j x. r0 = Done (Some (j, x)) \<and> ok x = Some v")
    case True
    with from_es show ?thesis by (auto simp: a)
  next
    case False
    then have "\<exists>ck2. kc_loop wrong ok key rounds ck2 = Inr (Some v, ck')"
      using Cons.prems
      by (auto simp: a g res_def [symmetric] res ebind_eq_Inr split: group_result.splits option.splits bind_splits)
    with Cons.IH show ?thesis by fastforce
  qed
qed simp

section \<open>Properties\<close>

text \<open>
  C36: A clerk returns only stored values. If the replies to a \<^verbatim>\<open>Get\<close> come from well-formed servers,
  then when the call returns, some server of the group that owns the key's shard had the
  returned value under the key. So \<^verbatim>\<open>Get\<close> of a key that no server holds never returns, however
  long the clerk goes on: it does not take \<^verbatim>\<open>ErrNoKey\<close> for an answer.
\<close>

theorem clerk_get_returns_stored_value:
  assumes "\<forall>(es, qs) \<in> set rounds. \<forall>j r. Some (j, r) \<in> set es \<longrightarrow>
      (\<exists>kv \<in> S. \<exists>err. wf_skv kv \<and> sk_Get_reply (kc_GetArgs key ck) err kv = Inr r)"
    and "kc_Get key rounds ck = Inr (v, ck')"
  shows "(\<forall>x. v = Some x \<longrightarrow> (\<exists>kv \<in> S. owns kv (key2shard key) \<and> (skStore kv ! key2shard key) key = Some x)) \<and>
    ((\<forall>kv \<in> S. (skStore kv ! key2shard key) key = None) \<longrightarrow> v = None)"
proof -
  have "\<exists>kv \<in> S. owns kv (key2shard key) \<and> (skStore kv ! key2shard key) key = Some x" if v: "v = Some x" for x
  proof -
    obtain es qs j r where r: "(es, qs) \<in> set rounds" "Some (j, r) \<in> set es" "sgErr r = SK_OK" "sgValue r = x"
      using kc_loop_result [OF assms(2) [unfolded kc_Get_def v]] by (auto split: if_splits)
    then obtain kv err where kv: "kv \<in> S" "wf_skv kv" "sk_Get_reply (kc_GetArgs key ck) err kv = Inr r" using assms(1) by fast
    from kv(3) r(3) have "err = SK_OK" by (auto simp: sk_Get_reply_def split: if_splits)
    then have "sk_get key kv = Inr (x, SK_OK)"
      using kv(3) r(3,4) by (auto simp: sk_Get_reply_def kc_GetArgs_def ebind_eq_Inr)
    then have "owns kv (key2shard key) \<and> (skStore kv ! key2shard key) key = Some x"
      using sk_get_wf [OF kv(2), of key] by (auto split: if_splits option.splits)
    with kv(1) show ?thesis by blast
  qed
  then show ?thesis by (cases v) auto
qed

definition serving :: ShardKV where
  "serving = sk_boot\<lparr>skConfig := all_to 1 1, skStore := initStore[key2shard ''k'' := [''k'' \<mapsto> ''x'']]\<rparr>"

definition informed_clerk :: SKClerk where
  "informed_clerk = (kc_MakeClerk 3 8 9)\<lparr>kcConfig := (all_to 1 1)\<lparr>Groups := fmap_of_list [(1, [''a''])]\<rparr>\<rparr>"

theorem clerk_get_returns_stored_value_witness:
  "\<exists>ck'. kc_Get ''k'' [([Some (0, \<lparr>sgErr = SK_OK, sgValue = ''x''\<rparr>)], [])] informed_clerk = Inr (Some ''x'', ck') \<and>
     (\<exists>kv \<in> {serving}. owns kv (key2shard ''k'') \<and> (skStore kv ! key2shard ''k'') ''k'' = Some ''x'')"
proof -
  let ?r = "\<lparr>sgErr = SK_OK, sgValue = ''x''\<rparr>" and ?rounds = "[([Some (0, \<lparr>sgErr = SK_OK, sgValue = ''x''\<rparr>)], [] :: sc_answer event list)]"
  note k = key2shard_less [of "''k''"]
  have wf: "wf_skv serving" using sk_boot_wf by (simp add: serving_def skv_wf all_to_def initStore_def)
  have "sk_get ''k'' serving = Inr (''x'', SK_OK)"
    using k sk_get_wf [OF wf, of "''k''"] by (simp add: serving_def sk_boot_def all_to_def initStore_def)
  then have "sk_Get_reply (kc_GetArgs ''k'' informed_clerk) SK_OK serving = Inr ?r"
    by (simp add: sk_Get_reply_def kc_GetArgs_def)
  with wf have a: "\<forall>(es, qs) \<in> set ?rounds. \<forall>j r. Some (j, r) \<in> set es \<longrightarrow>
      (\<exists>kv \<in> {serving}. \<exists>err. wf_skv kv \<and> sk_Get_reply (kc_GetArgs ''k'' informed_clerk) err kv = Inr r)" by auto
  have n: "nth_go (replicate NShards (1 :: int)) (int (key2shard ''k'')) = Inr 1" using k by (simp add: nth_go_def)
  obtain ck' where g: "kc_Get ''k'' ?rounds informed_clerk = Inr (Some ''x'', ck')"
    by (simp add: kc_Get_def kc_nextSeq_def informed_clerk_def all_to_def n kc_callOtherGroup_def)
  from clerk_get_returns_stored_value [OF a g] g show ?thesis by blast
qed

end
