(* ===== verification/MR_Worker.thy ===== *)
theory MR_Worker
  imports Go_Prelude "HOL-Library.Word" "HOL-Library.Char_ord" "HOL-Library.List_Lexorder"
begin

text \<open>
  The MapReduce worker, \<^verbatim>\<open>src/mr/worker.go\<close>, and the sequential program
  \<^verbatim>\<open>src/main/mrsequential.go\<close> it must agree with. The intermediate files are a map from the
  number of the map task and of the reduce task to the pairs that are decoded from the file
  (JSON keeps a string only if it is valid UTF-8, \<^verbatim>\<open>json_string\<close>); the application's \<^verbatim>\<open>mapf\<close> and \<^verbatim>\<open>reducef\<close> and the input
  files are arguments. \<^verbatim>\<open>sort.Sort\<close> is not stable, so it is an argument too: any function
  that gives a sorted permutation (\<^verbatim>\<open>is_sort\<close>).
\<close>

unbundle bit_operations_syntax

section \<open>Definitions\<close>

record KeyValue =
  kKey :: string
  kVal :: string

text \<open>The number of bytes \<^verbatim>\<open>utf8.DecodeRuneInString\<close> reads: one for a byte that does not begin a valid encoding.\<close>

definition byte_in :: "nat \<Rightarrow> nat \<Rightarrow> char \<Rightarrow> bool" where
  "byte_in lo hi c \<longleftrightarrow> lo \<le> of_char c \<and> of_char c \<le> hi"

definition second_ok :: "char \<Rightarrow> char \<Rightarrow> bool" where
  "second_ok c d =
     (if of_char c = (0xE0 :: nat) then byte_in 0xA0 0xBF d else if of_char c = (0xED :: nat) then byte_in 0x80 0x9F d
      else if of_char c = (0xF0 :: nat) then byte_in 0x90 0xBF d else if of_char c = (0xF4 :: nat) then byte_in 0x80 0x8F d
      else byte_in 0x80 0xBF d)"

definition rune_len :: "string \<Rightarrow> nat" where
  "rune_len s =
     (let size = (if byte_in 0xC2 0xDF (hd s) then 2 else if byte_in 0xE0 0xEF (hd s) then 3 else if byte_in 0xF0 0xF4 (hd s) then 4 else 1) in
      if size \<le> length s \<and> (size \<ge> 2 \<longrightarrow> second_ok (hd s) (s ! 1)) \<and> (\<forall>i \<in> set [2..<size]. byte_in 0x80 0xBF (s ! i)) then size else 1)"

function runes :: "string \<Rightarrow> string list" where
  "runes s = (if s = [] then [] else take (rune_len s) s # runes (drop (rune_len s) s))"
  by pat_completeness auto
termination
  by (relation "measure length") (auto simp: rune_len_def Let_def split: if_splits)

declare runes.simps [simp del]

text \<open>
  What a string becomes on its way through an intermediate file: \<^verbatim>\<open>encoding/json\<close> writes each
  byte that is not part of a valid encoding as U+FFFD, and the decoder gives back all else as
  it was written.
\<close>

definition invalid_rune :: "string \<Rightarrow> bool" where
  "invalid_rune r \<longleftrightarrow> length r = 1 \<and> 0x80 \<le> (of_char (hd r) :: nat)"

definition json_rune :: "string \<Rightarrow> string" where
  "json_rune r = (if invalid_rune r then [CHR 0xEF, CHR 0xBF, CHR 0xBD] else r)"

definition json_string :: "string \<Rightarrow> string" where
  "json_string s = concat (map json_rune (runes s))"

definition json_pair :: "KeyValue \<Rightarrow> KeyValue" where
  "json_pair kv = \<lparr>kKey = json_string (kKey kv), kVal = json_string (kVal kv)\<rparr>"

text \<open>FNV-1a on 32 bits, as \<^verbatim>\<open>hash/fnv\<close> computes it, and the mask of \<^verbatim>\<open>ihash\<close>.\<close>

definition fnv32a :: "string \<Rightarrow> 32 word" where
  "fnv32a s = fold (\<lambda>c h. (h XOR of_nat (of_char c)) * 16777619) s 2166136261"

definition ihash :: "string \<Rightarrow> int" where
  "ihash key = uint (fnv32a key AND 0x7fffffff)"

text \<open>The loop that deals the pairs to the \<^verbatim>\<open>NReduce\<close> slices.\<close>

fun omap_loop :: "nat \<Rightarrow> KeyValue list \<Rightarrow> KeyValue list list \<Rightarrow> KeyValue list list res" where
  "omap_loop n [] omap = Inr omap"
| "omap_loop n (kv # kva) omap =
     (if n = 0 then Inl DivideByZero
      else let i = ihash (kKey kv) mod int n in
           ebind (nth_go omap i) (\<lambda>xs.
           ebind (upd_go omap i (xs @ [kv])) (\<lambda>omap'. omap_loop n kva omap')))"

type_synonym files = "nat \<times> nat \<rightharpoonup> KeyValue list"

text \<open>The tasks, as the coordinator keeps them and sends them to a worker.\<close>

datatype TaskState = WAITTING | STARTED | FINISHED

record MapTask =
  mtId :: nat
  mtFileName :: string
  mtNReduce :: nat
  mtState :: TaskState

record ReduceTask =
  rtId :: nat
  rtNMap :: nat
  rtState :: TaskState

text \<open>The slices a map task computes; a missing input file is fatal.\<close>

definition map_slices :: "(string \<rightharpoonup> string) \<Rightarrow> (string \<Rightarrow> string \<Rightarrow> KeyValue list) \<Rightarrow> MapTask \<Rightarrow> KeyValue list list res" where
  "map_slices input mapf task =
     (case input (mtFileName task) of
        None \<Rightarrow> Inl FatalError
      | Some content \<Rightarrow> omap_loop (mtNReduce task) (mapf (mtFileName task) content) (replicate (mtNReduce task) []))"

text \<open>The loop over the slices: each is encoded into a temporary file, which is renamed.\<close>

fun write_slices :: "nat \<Rightarrow> nat \<Rightarrow> KeyValue list list \<Rightarrow> files \<Rightarrow> files" where
  "write_slices taskId i [] fs = fs"
| "write_slices taskId i (ikva # omap) fs = write_slices taskId (Suc i) omap (fs((taskId, i) \<mapsto> map json_pair ikva))"

definition doMapTask :: "(string \<rightharpoonup> string) \<Rightarrow> (string \<Rightarrow> string \<Rightarrow> KeyValue list) \<Rightarrow> MapTask \<Rightarrow> files \<Rightarrow> files res" where
  "doMapTask input mapf task fs =
     ebind (map_slices input mapf task) (\<lambda>omap. Inr (write_slices (mtId task) 0 omap fs))"

fun collect :: "files \<Rightarrow> nat \<Rightarrow> nat \<Rightarrow> nat \<Rightarrow> KeyValue list res" where
  "collect fs r i 0 = Inr []"
| "collect fs r i (Suc n) =
     (case fs (i, r) of
        None \<Rightarrow> Inl FatalError
      | Some kva \<Rightarrow> ebind (collect fs r (Suc i) n) (\<lambda>rest. Inr (kva @ rest)))"

text \<open>The loop over runs of equal keys, one output line each.\<close>

definition out_line :: "string \<Rightarrow> string \<Rightarrow> string" where
  "out_line key out = key @ '' '' @ out @ [CHR 0x0A]"

function (sequential) reduce_loop :: "(string \<Rightarrow> string list \<Rightarrow> string) \<Rightarrow> KeyValue list \<Rightarrow> string list" where
  "reduce_loop reducef [] = []"
| "reduce_loop reducef (kv # rest) =
     (let same = takeWhile (\<lambda>x. kKey x = kKey kv) rest;
          values = map kVal (kv # same)
      in out_line (kKey kv) (reducef (kKey kv) values) # reduce_loop reducef (dropWhile (\<lambda>x. kKey x = kKey kv) rest))"
  by pat_completeness auto
termination
  by (relation "measure (\<lambda>(_, xs). length xs)") (simp_all add: less_Suc_eq_le length_dropWhile_le)

definition doReduceTask :: "(KeyValue list \<Rightarrow> KeyValue list) \<Rightarrow> (string \<Rightarrow> string list \<Rightarrow> string) \<Rightarrow> ReduceTask \<Rightarrow> files \<Rightarrow> string list res" where
  "doReduceTask srt reducef task fs =
     ebind (collect fs (rtId task) 0 (rtNMap task)) (\<lambda>intermediate. Inr (reduce_loop reducef (srt intermediate)))"

text \<open>\<^verbatim>\<open>mrsequential\<close>: all pairs in one slice.\<close>

fun map_all :: "(string \<rightharpoonup> string) \<Rightarrow> (string \<Rightarrow> string \<Rightarrow> KeyValue list) \<Rightarrow> string list \<Rightarrow> KeyValue list res" where
  "map_all input mapf [] = Inr []"
| "map_all input mapf (f # fs) =
     (case input f of
        None \<Rightarrow> Inl FatalError
      | Some content \<Rightarrow> ebind (map_all input mapf fs) (\<lambda>rest. Inr (mapf f content @ rest)))"

definition mrsequential :: "(KeyValue list \<Rightarrow> KeyValue list) \<Rightarrow> (string \<rightharpoonup> string) \<Rightarrow> (string \<Rightarrow> string \<Rightarrow> KeyValue list) \<Rightarrow>
    (string \<Rightarrow> string list \<Rightarrow> string) \<Rightarrow> string list \<Rightarrow> string list res" where
  "mrsequential srt input mapf reducef fs =
     ebind (map_all input mapf fs) (\<lambda>intermediate. Inr (reduce_loop reducef (srt intermediate)))"

section \<open>Strings in JSON\<close>

lemma rune_len_pos: "s \<noteq> [] \<Longrightarrow> 0 < rune_len s"
  by (simp add: rune_len_def Let_def)

lemma concat_runes: "concat (runes s) = s"
  by (induction s rule: runes.induct) (simp add: runes.simps)

lemma runes_nonempty: "r \<in> set (runes s) \<Longrightarrow> r \<noteq> []"
proof (induction s rule: runes.induct)
  case (1 s)
  then show ?case using rune_len_pos [of s] by (auto simp: runes.simps [of s] split: if_splits)
qed

lemma rune_len_take:
  assumes "s \<noteq> []"
  shows "take (rune_len s) s \<noteq> []" "rune_len (take (rune_len s) s) = length (take (rune_len s) s)"
proof -
  show "take (rune_len s) s \<noteq> []" using assms rune_len_pos by auto
  show "rune_len (take (rune_len s) s) = length (take (rune_len s) s)"
    using assms by (cases s) (fastforce simp: rune_len_def Let_def)+
qed

lemma runes_whole:
  assumes "r \<in> set (runes s)"
  shows "r \<noteq> [] \<and> rune_len r = length r"
  using assms
proof (induction s rule: runes.induct)
  case (1 s)
  show ?case
  proof (cases "s = []")
    case False
    with 1 rune_len_take [OF False] show ?thesis by (auto simp: runes.simps [of s])
  qed (use "1.prems" in \<open>simp add: runes.simps\<close>)
qed

text \<open>The encoding of a rune is found again whatever follows it.\<close>

lemma rune_len_append:
  assumes "r \<noteq> []" and "rune_len r = length r" and "\<not> invalid_rune r"
  shows "rune_len (r @ t) = length r"
proof (cases "length r = 1")
  case True
  then obtain c where "r = [c]" by (auto simp: length_Suc_conv)
  with assms(3) show ?thesis by (simp add: invalid_rune_def rune_len_def byte_in_def Let_def)
next
  case False
  then have "1 < length r" using assms(1) by (cases r) auto
  with assms(1,2) show ?thesis by (auto simp: rune_len_def Let_def nth_append split: if_splits)
qed

lemma runes_concat: "\<forall>r \<in> set rs. r \<noteq> [] \<and> rune_len r = length r \<and> \<not> invalid_rune r \<Longrightarrow> runes (concat rs) = rs"
  by (induction rs) (auto simp: runes.simps [of "[]"] runes.simps [of "_ @ _"] rune_len_append)

definition valid_utf8 :: "string \<Rightarrow> bool" where
  "valid_utf8 s \<longleftrightarrow> (\<forall>r \<in> set (runes s). \<not> invalid_rune r)"

lemma json_string_valid: "valid_utf8 s \<Longrightarrow> json_string s = s"
proof -
  assume "valid_utf8 s"
  then have "map json_rune (runes s) = runes s" by (intro map_idI) (simp add: valid_utf8_def json_rune_def)
  then show ?thesis by (simp add: json_string_def concat_runes)
qed

lemma valid_utf8_concat:
  assumes "\<forall>r \<in> set rs. r \<in> set (runes s) \<and> \<not> invalid_rune r"
  shows "valid_utf8 (concat rs)"
proof -
  have "runes (concat rs) = rs" by (rule runes_concat) (use assms runes_whole in blast)
  with assms show ?thesis by (simp add: valid_utf8_def)
qed

lemma ascii_valid:
  assumes "\<forall>c \<in> set s. of_char c < (0x80 :: nat)"
  shows "valid_utf8 s"
  unfolding valid_utf8_def
proof
  fix r assume r: "r \<in> set (runes s)"
  then have "set r \<subseteq> set s" using concat_runes [of s] by (metis UN_upper set_concat)
  with assms hd_in_set [OF runes_nonempty [OF r]] have "of_char (hd r) < (0x80 :: nat)" by blast
  then show "\<not> invalid_rune r" by (simp add: invalid_rune_def)
qed

text \<open>A byte that is not UTF-8 does not survive: two keys can become one.\<close>

lemma json_string_lossy: "json_string [CHR 0xFF] = [CHR 0xEF, CHR 0xBF, CHR 0xBD] \<and> json_string [CHR 0xFE] = json_string [CHR 0xFF]"
  by code_simp

section \<open>Hashing and slices\<close>

lemma ihash_range: "0 \<le> ihash key \<and> ihash key < 2 ^ 31"
proof -
  have m: "(0x7fffffff :: 32 word) = mask 31" by (simp add: mask_eq_exp_minus_1)
  have "uint (fnv32a key AND mask 31) < 2 ^ 31"
    unfolding take_bit_eq_mask [symmetric] unsigned_take_bit_eq using take_bit_int_less_exp by blast
  then show ?thesis by (simp add: ihash_def m)
qed

definition slot :: "nat \<Rightarrow> KeyValue \<Rightarrow> nat" where
  "slot n kv = nat (ihash (kKey kv) mod int n)"

lemma slot_less: "0 < n \<Longrightarrow> slot n kv < n"
  using pos_mod_bound [of "int n" "ihash (kKey kv)"] pos_mod_sign [of "int n" "ihash (kKey kv)"]
  by (simp add: slot_def nat_less_iff)

lemma omap_loop_spec:
  assumes "0 < n" and "length omap = n"
  shows "\<exists>omap'. omap_loop n kva omap = Inr omap' \<and> length omap' = n \<and>
    (\<forall>i < n. omap' ! i = omap ! i @ filter (\<lambda>kv. slot n kv = i) kva)"
  using assms(2)
proof (induction kva arbitrary: omap)
  case (Cons kv kva)
  let ?i = "slot n kv"
  have i: "?i < n" by (rule slot_less [OF assms(1)])
  have "ihash (kKey kv) mod int n = int ?i" using assms(1) by (simp add: slot_def)
  then have "omap_loop n (kv # kva) omap = omap_loop n kva (omap[?i := omap ! ?i @ [kv]])"
    using assms(1) Cons.prems i by (simp add: go_slice)
  moreover obtain omap' where "omap_loop n kva (omap[?i := omap ! ?i @ [kv]]) = Inr omap'" "length omap' = n"
    "\<forall>j < n. omap' ! j = omap[?i := omap ! ?i @ [kv]] ! j @ filter (\<lambda>kv. slot n kv = j) kva"
    using Cons.IH [of "omap[?i := omap ! ?i @ [kv]]"] Cons.prems by auto
  ultimately show ?case using i Cons.prems by (intro exI [of _ omap']) (auto simp: nth_list_update)
qed simp

lemma omap_loop_0: "kva \<noteq> [] \<Longrightarrow> omap_loop 0 kva omap = Inl DivideByZero"
  by (cases kva) simp_all

text \<open>The pairs a reduce task reads from a map task: those of its slice, decoded.\<close>

definition slice_of :: "(string \<rightharpoonup> string) \<Rightarrow> (string \<Rightarrow> string \<Rightarrow> KeyValue list) \<Rightarrow> nat \<Rightarrow> string \<Rightarrow> nat \<Rightarrow> KeyValue list" where
  "slice_of input mapf n f r = map json_pair (filter (\<lambda>kv. slot n kv = r) (mapf f (the (input f))))"

lemma map_slices_spec:
  assumes "0 < mtNReduce task" and "input (mtFileName task) \<noteq> None"
  shows "\<exists>omap. map_slices input mapf task = Inr omap \<and> length omap = mtNReduce task \<and>
    (\<forall>r < mtNReduce task. map json_pair (omap ! r) = slice_of input mapf (mtNReduce task) (mtFileName task) r)"
proof -
  obtain content where c: "input (mtFileName task) = Some content" using assms(2) by blast
  from omap_loop_spec [OF assms(1), of "replicate (mtNReduce task) []" "mapf (mtFileName task) content"] obtain omap where
    "omap_loop (mtNReduce task) (mapf (mtFileName task) content) (replicate (mtNReduce task) []) = Inr omap"
    "length omap = mtNReduce task" "\<forall>r < mtNReduce task. omap ! r = filter (\<lambda>kv. slot (mtNReduce task) kv = r) (mapf (mtFileName task) content)"
    by auto
  then show ?thesis using c by (simp add: map_slices_def slice_of_def)
qed

lemma write_slices_lookup:
  "write_slices t i omap fs (a, b) = (if a = t \<and> i \<le> b \<and> b < i + length omap then Some (map json_pair (omap ! (b - i))) else fs (a, b))"
proof (induction omap arbitrary: i fs)
  case (Cons x omap)
  have "b - i = Suc (b - Suc i)" if "Suc i \<le> b" using that by simp
  then show ?case unfolding write_slices.simps Cons by (auto simp: not_less_eq_eq)
qed auto

lemma collect_spec:
  "(\<forall>j < n. fs (i + j, r) \<noteq> None) \<Longrightarrow> collect fs r i n = Inr (concat (map (\<lambda>j. the (fs (i + j, r))) [0..<n]))"
proof (induction n arbitrary: i)
  case (Suc n)
  obtain kva where k: "fs (i, r) = Some kva" using Suc.prems by (metis add.right_neutral not_None_eq zero_less_Suc)
  have "\<forall>j < n. fs (Suc i + j, r) \<noteq> None" using Suc.prems by (metis Suc_less_eq add_Suc_shift)
  from Suc.IH [OF this] have "collect fs r (Suc i) n = Inr (concat (map (\<lambda>j. the (fs (Suc i + j, r))) [0..<n]))" .
  moreover have "[0..<Suc n] = 0 # map Suc [0..<n]" by (simp add: map_Suc_upt upt_conv_Cons del: upt_Suc)
  ultimately show ?case using k by (simp add: comp_def del: upt_Suc)
qed simp

section \<open>Reducing\<close>

definition is_sort :: "(KeyValue list \<Rightarrow> KeyValue list) \<Rightarrow> bool" where
  "is_sort srt \<longleftrightarrow> (\<forall>xs. mset (srt xs) = mset xs \<and> sorted (map kKey (srt xs)))"

text \<open>\<^verbatim>\<open>reducef\<close> does not depend on the order of the values.\<close>

definition order_free :: "(string \<Rightarrow> string list \<Rightarrow> string) \<Rightarrow> bool" where
  "order_free reducef \<longleftrightarrow> (\<forall>k xs ys. mset xs = mset ys \<longrightarrow> reducef k xs = reducef k ys)"

text \<open>What the output lines of a bag of pairs are: one per key, from all values of the key.\<close>

definition values_of :: "string \<Rightarrow> KeyValue multiset \<Rightarrow> string multiset" where
  "values_of k M = image_mset kVal (filter_mset (\<lambda>x. kKey x = k) M)"

definition reduced :: "(string \<Rightarrow> string list \<Rightarrow> string) \<Rightarrow> KeyValue multiset \<Rightarrow> string multiset" where
  "reduced reducef M = image_mset (\<lambda>k. out_line k (reducef k (sorted_list_of_multiset (values_of k M))))
     (mset_set (kKey ` set_mset M))"

lemma sorted_run:
  assumes "sorted (map kKey (kv # rest))"
  shows "\<forall>x \<in> set (dropWhile (\<lambda>x. kKey x = kKey kv) rest). kKey x \<noteq> kKey kv"
proof (intro ballI notI)
  let ?d = "dropWhile (\<lambda>x. kKey x = kKey kv) rest"
  fix x assume x: "x \<in> set ?d" "kKey x = kKey kv"
  then have ne: "?d \<noteq> []" by (metis empty_iff list.set(1))
  then have hd: "kKey (hd ?d) \<noteq> kKey kv" using hd_dropWhile [of "\<lambda>x. kKey x = kKey kv" rest] by blast
  have "sorted (map kKey ?d)" using assms unfolding dropWhile_eq_drop drop_map [symmetric] by (simp add: sorted_wrt_drop)
  then have "kKey (hd ?d) \<le> kKey x" using x(1) ne by (cases ?d) auto
  moreover have "hd ?d \<in> set rest" using ne by (meson hd_in_set set_dropWhileD)
  then have "kKey kv \<le> kKey (hd ?d)" using assms by simp
  ultimately show False using hd x(2) by auto
qed

lemma filter_mset_empty: "(\<And>x. x \<in># M \<Longrightarrow> \<not> P x) \<Longrightarrow> filter_mset P M = {#}"
  by (induction M) auto

lemma image_sum: "image_mset f (\<Sum>r < (n :: nat). g r) = (\<Sum>r < n. image_mset f (g r))"
  by (induction n) simp_all

lemma values_of_other: "k \<noteq> kKey x \<Longrightarrow> values_of k (add_mset x M) = values_of k M"
  by (simp add: values_of_def)

lemma reduced_cong:
  assumes "kKey ` set_mset M = K" and "\<And>k. k \<in> K \<Longrightarrow> reducef k (sorted_list_of_multiset (values_of k M)) = f k" and "finite K"
  shows "reduced reducef M = image_mset (\<lambda>k. out_line k (f k)) (mset_set K)"
  unfolding reduced_def assms(1) by (rule image_mset_cong) (use assms(2,3) in simp)

lemma reduce_loop_mset:
  "order_free reducef \<Longrightarrow> sorted (map kKey xs) \<Longrightarrow> mset (reduce_loop reducef xs) = reduced reducef (mset xs)"
proof (induction reducef xs rule: reduce_loop.induct)
  case (1 reducef)
  then show ?case by (simp add: reduced_def)
next
  case (2 reducef kv rest)
  define same where "same = takeWhile (\<lambda>x. kKey x = kKey kv) rest"
  define d where "d = dropWhile (\<lambda>x. kKey x = kKey kv) rest"
  let ?k = "kKey kv" and ?K = "kKey ` set d" and ?M = "mset (kv # rest)"
  have rest: "rest = same @ d" by (simp add: same_def d_def)
  have same: "\<forall>x \<in> set same. kKey x = ?k" unfolding same_def by (meson set_takeWhileD)
  have d: "\<forall>x \<in> set d. kKey x \<noteq> ?k" using sorted_run [OF 2(3)] unfolding d_def by blast
  have "sorted (map kKey d)" using 2(3) rest by (simp add: sorted_append)
  then have IH: "mset (reduce_loop reducef d) = reduced reducef (mset d)"
    using 2(1) [OF refl refl 2(2)] unfolding d_def same_def by blast
  have here: "values_of ?k ?M = mset (map kVal (kv # same))"
  proof -
    have "filter_mset (\<lambda>x. kKey x = ?k) (mset same) = mset same" using same by (simp add: filter_mset_eq_conv)
    moreover have "filter_mset (\<lambda>x. kKey x = ?k) (mset d) = {#}" using d by (auto intro: filter_mset_empty)
    ultimately show ?thesis by (simp add: values_of_def rest)
  qed
  have there: "values_of k ?M = values_of k (mset d)" if "k \<in> ?K" for k
  proof -
    have "k \<noteq> ?k" using that d by auto
    moreover from this have "filter_mset (\<lambda>x. kKey x = k) (mset same) = {#}" using same by (auto intro: filter_mset_empty)
    ultimately show ?thesis by (simp add: values_of_def rest)
  qed
  let ?f = "\<lambda>k. reducef k (sorted_list_of_multiset (values_of k ?M))"
  have keys: "kKey ` set_mset ?M = insert ?k ?K" using same by (auto simp: rest)
  have "?k \<notin> ?K" using d by auto
  then have "reduced reducef ?M = add_mset (out_line ?k (?f ?k)) (image_mset (\<lambda>k. out_line k (?f k)) (mset_set ?K))"
    unfolding reduced_cong [OF keys refl finite.insertI [OF finite_imageI [OF finite_set]]] by simp
  also have "image_mset (\<lambda>k. out_line k (?f k)) (mset_set ?K) = reduced reducef (mset d)"
    unfolding reduced_def set_mset_mset by (rule image_mset_cong) (use there in simp)
  also have "?f ?k = reducef ?k (map kVal (kv # same))"
  proof -
    have "mset (sorted_list_of_multiset (values_of ?k ?M)) = mset (map kVal (kv # same))"
      unfolding here by (rule mset_sorted_list_of_multiset)
    with 2(2) show ?thesis unfolding order_free_def by blast
  qed
  finally show ?case using IH by (simp add: Let_def d_def same_def)
qed

lemma mset_set_split:
  fixes h :: "'a \<Rightarrow> nat"
  assumes "finite K" and "\<And>k. h k < n"
  shows "(\<Sum>r < n. mset_set {k \<in> K. h k = r}) = mset_set K"
proof (rule multiset_eqI)
  fix x
  have "count (\<Sum>r < n. mset_set {k \<in> K. h k = r}) x = (\<Sum>r < n. if r = h x then (if x \<in> K then 1 else 0) else 0)"
    unfolding count_sum using assms(1) by (intro sum.cong) (auto simp: count_mset_set')
  also have "\<dots> = (if x \<in> K then 1 else 0)"
    using assms(2) [of x] by (subst sum.delta) simp_all
  also have "\<dots> = count (mset_set K) x" using assms(1) by (simp add: count_mset_set')
  finally show "count (\<Sum>r < n. mset_set {k \<in> K. h k = r}) x = count (mset_set K) x" .
qed

lemma reduced_split:
  assumes "0 < n"
  shows "(\<Sum>r < n. reduced reducef (filter_mset (\<lambda>x. slot n x = r) M)) = reduced reducef M"
proof -
  define h where "h k = nat (ihash k mod int n)" for k
  have h: "h k < n" for k using slot_less [OF assms, of "\<lparr>kKey = k, kVal = []\<rparr>"] by (simp add: slot_def h_def)
  let ?K = "kKey ` set_mset M" and ?f = "\<lambda>k. reducef k (sorted_list_of_multiset (values_of k M))"
  have "reduced reducef (filter_mset (\<lambda>x. slot n x = r) M) = image_mset (\<lambda>k. out_line k (?f k)) (mset_set {k \<in> ?K. h k = r})" for r
  proof (rule reduced_cong)
    show "kKey ` set_mset (filter_mset (\<lambda>x. slot n x = r) M) = {k \<in> ?K. h k = r}" by (auto simp: slot_def h_def)
    show "reducef k (sorted_list_of_multiset (values_of k (filter_mset (\<lambda>x. slot n x = r) M))) = ?f k" if "k \<in> {k \<in> ?K. h k = r}" for k
    proof -
      have "filter_mset (\<lambda>x. kKey x = k) (filter_mset (\<lambda>x. slot n x = r) M) = filter_mset (\<lambda>x. kKey x = k) M"
        using that unfolding filter_filter_mset by (intro filter_mset_cong) (auto simp: slot_def h_def)
      then show ?thesis by (simp add: values_of_def)
    qed
  qed simp
  then have "(\<Sum>r < n. reduced reducef (filter_mset (\<lambda>x. slot n x = r) M)) =
      image_mset (\<lambda>k. out_line k (?f k)) (\<Sum>r < n. mset_set {k \<in> ?K. h k = r})"
    by (simp add: image_sum)
  then show ?thesis using mset_set_split [of ?K h n] h by (simp add: reduced_def)
qed

section \<open>Distributed and sequential runs\<close>

lemma map_all_spec:
  "(\<forall>f \<in> set fs. input f \<noteq> None) \<Longrightarrow> map_all input mapf fs = Inr (concat (map (\<lambda>f. mapf f (the (input f))) fs))"
  by (induction fs) auto

text \<open>The pairs of a map function whose strings are all valid UTF-8; JSON keeps them.\<close>

definition writes_utf8 :: "(string \<rightharpoonup> string) \<Rightarrow> (string \<Rightarrow> string \<Rightarrow> KeyValue list) \<Rightarrow> string list \<Rightarrow> bool" where
  "writes_utf8 input mapf fs \<longleftrightarrow>
     (\<forall>f \<in> set fs. \<forall>kv \<in> set (mapf f (the (input f))). valid_utf8 (kKey kv) \<and> valid_utf8 (kVal kv))"

lemma slice_of_utf8:
  "writes_utf8 input mapf fs \<Longrightarrow> f \<in> set fs \<Longrightarrow> slice_of input mapf n f r = filter (\<lambda>kv. slot n kv = r) (mapf f (the (input f)))"
  unfolding slice_of_def by (intro map_idI) (auto simp: writes_utf8_def json_pair_def json_string_valid)

lemma mset_slices:
  "writes_utf8 input mapf fs \<Longrightarrow> mset (concat (map (\<lambda>f. slice_of input mapf n f r) fs)) =
   filter_mset (\<lambda>x. slot n x = r) (mset (concat (map (\<lambda>f. mapf f (the (input f))) fs)))"
proof (induction fs)
  case (Cons f fs)
  have "writes_utf8 input mapf fs" using Cons.prems by (simp add: writes_utf8_def)
  with Cons.IH slice_of_utf8 [OF Cons.prems, of f] show ?case by (simp add: mset_filter)
qed simp

text \<open>The intermediate files of all map tasks are there, with the slices of the map function.\<close>

definition files_done :: "(string \<rightharpoonup> string) \<Rightarrow> (string \<Rightarrow> string \<Rightarrow> KeyValue list) \<Rightarrow> string list \<Rightarrow> nat \<Rightarrow> files \<Rightarrow> bool" where
  "files_done input mapf inputs n fs \<longleftrightarrow>
     (\<forall>i < length inputs. \<forall>r < n. fs (i, r) = Some (slice_of input mapf n (inputs ! i) r))"

text \<open>What reduce task \<^verbatim>\<open>r\<close> writes once all intermediate files are there.\<close>

definition reduce_output :: "(KeyValue list \<Rightarrow> KeyValue list) \<Rightarrow> (string \<rightharpoonup> string) \<Rightarrow> (string \<Rightarrow> string \<Rightarrow> KeyValue list) \<Rightarrow>
    (string \<Rightarrow> string list \<Rightarrow> string) \<Rightarrow> string list \<Rightarrow> nat \<Rightarrow> nat \<Rightarrow> string list" where
  "reduce_output srt input mapf reducef inputs n r =
     reduce_loop reducef (srt (concat (map (\<lambda>f. slice_of input mapf n f r) inputs)))"

lemma doReduceTask_done:
  assumes "files_done input mapf inputs n fs" and "rtId task < n" and "rtNMap task = length inputs"
  shows "doReduceTask srt reducef task fs = Inr (reduce_output srt input mapf reducef inputs n (rtId task))"
proof -
  let ?r = "rtId task"
  have "\<forall>j < length inputs. fs (0 + j, ?r) \<noteq> None" using assms by (simp add: files_done_def)
  from collect_spec [OF this] have "collect fs ?r 0 (length inputs) = Inr (concat (map (\<lambda>j. the (fs (j, ?r))) [0..<length inputs]))"
    by simp
  moreover have "map (\<lambda>j. the (fs (j, ?r))) [0..<length inputs] = map (\<lambda>f. slice_of input mapf n f ?r) inputs"
    using assms by (intro nth_equalityI) (simp_all add: files_done_def)
  ultimately show ?thesis by (simp add: doReduceTask_def reduce_output_def assms(3))
qed

lemma outputs_equal_sequential:
  assumes "0 < n" and srt: "is_sort srt" and red: "order_free reducef" and inp: "\<forall>f \<in> set inputs. input f \<noteq> None"
    and utf8: "writes_utf8 input mapf inputs"
  shows "\<exists>out. mrsequential srt input mapf reducef inputs = Inr out \<and>
    (\<Sum>r < n. mset (reduce_output srt input mapf reducef inputs n r)) = mset out \<and>
    mset out = reduced reducef (mset (concat (map (\<lambda>f. mapf f (the (input f))) inputs)))"
proof -
  let ?xs = "concat (map (\<lambda>f. mapf f (the (input f))) inputs)"
  have lines: "mset (reduce_loop reducef (srt xs)) = reduced reducef (mset xs)" for xs
  proof -
    have s: "sorted (map kKey (srt xs))" "mset (srt xs) = mset xs" using srt unfolding is_sort_def by blast+
    show ?thesis using reduce_loop_mset [OF red s(1)] s(2) by simp
  qed
  have "(\<Sum>r < n. mset (reduce_output srt input mapf reducef inputs n r)) = reduced reducef (mset ?xs)"
    unfolding reduce_output_def lines mset_slices [OF utf8] by (rule reduced_split [OF assms(1)])
  moreover have "mrsequential srt input mapf reducef inputs = Inr (reduce_loop reducef (srt ?xs))"
    unfolding mrsequential_def map_all_spec [OF inp] by simp
  ultimately show ?thesis using lines by simp
qed

text \<open>With a key that is not valid UTF-8 the outputs differ.\<close>

lemma invalid_key_differs:
  "\<exists>out. mrsequential (sort_key kKey) [''f'' \<mapsto> ''c''] (\<lambda>f c. [\<lparr>kKey = [CHR 0xFF], kVal = ''1''\<rparr>]) (\<lambda>k vs. ''1'') [''f''] = Inr out \<and>
     reduce_output (sort_key kKey) [''f'' \<mapsto> ''c''] (\<lambda>f c. [\<lparr>kKey = [CHR 0xFF], kVal = ''1''\<rparr>]) (\<lambda>k vs. ''1'') [''f''] 1 0 \<noteq> out"
proof -
  have "slot 1 kv = 0" for kv using slot_less [of 1 kv] by simp
  then show ?thesis
    using json_string_lossy by (simp add: mrsequential_def reduce_output_def slice_of_def json_pair_def out_line_def Let_def)
qed

section \<open>Properties\<close>

text \<open>
  A map task hashes every pair into range. \<^verbatim>\<open>ihash\<close> is between 0 and 2 to the 31; with at
  least one reduce task \<^verbatim>\<open>doMapTask\<close> on an existing file never panics, writes one file per
  reduce task and no other, and file \<^verbatim>\<open>r\<close> holds in order the pairs whose key hashes to \<^verbatim>\<open>r\<close>, as
  JSON gives them back, so no pair is lost or duplicated; with no reduce task it panics on the first pair.
\<close>

theorem map_task_partitions:
  assumes "input (mtFileName task) = Some content"
  shows "(0 < mtNReduce task \<longrightarrow> (\<exists>fs'. doMapTask input mapf task fs = Inr fs' \<and>
      (\<forall>i r. fs' (i, r) = (if i = mtId task \<and> r < mtNReduce task
         then Some (map json_pair (filter (\<lambda>kv. ihash (kKey kv) mod int (mtNReduce task) = int r) (mapf (mtFileName task) content)))
         else fs (i, r))))) \<and>
    (mtNReduce task = 0 \<and> mapf (mtFileName task) content \<noteq> [] \<longrightarrow> doMapTask input mapf task fs = Inl DivideByZero) \<and>
    0 \<le> ihash key \<and> ihash key < 2 ^ 31"
proof (intro conjI impI)
  assume n: "0 < mtNReduce task"
  obtain omap where o: "map_slices input mapf task = Inr omap" "length omap = mtNReduce task"
    "\<forall>r < mtNReduce task. map json_pair (omap ! r) = slice_of input mapf (mtNReduce task) (mtFileName task) r"
    using map_slices_spec [OF n, of input mapf] assms by auto
  have "(slot (mtNReduce task) kv = r) = (ihash (kKey kv) mod int (mtNReduce task) = int r)" for kv r
    using n by (auto simp: slot_def)
  then have "slice_of input mapf (mtNReduce task) (mtFileName task) r =
      map json_pair (filter (\<lambda>kv. ihash (kKey kv) mod int (mtNReduce task) = int r) (mapf (mtFileName task) content))" for r
    using assms by (simp add: slice_of_def)
  with o show "\<exists>fs'. doMapTask input mapf task fs = Inr fs' \<and>
      (\<forall>i r. fs' (i, r) = (if i = mtId task \<and> r < mtNReduce task
         then Some (map json_pair (filter (\<lambda>kv. ihash (kKey kv) mod int (mtNReduce task) = int r) (mapf (mtFileName task) content)))
         else fs (i, r)))"
    by (simp add: doMapTask_def write_slices_lookup)
next
  assume "mtNReduce task = 0 \<and> mapf (mtFileName task) content \<noteq> []"
  then show "doMapTask input mapf task fs = Inl DivideByZero"
    using assms by (simp add: doMapTask_def map_slices_def omap_loop_0)
qed (use ihash_range in simp_all)

theorem map_task_partitions_witness:
  "\<exists>fs'. doMapTask [''f'' \<mapsto> ''c''] (\<lambda>f c. [\<lparr>kKey = ''a'', kVal = c\<rparr>]) \<lparr>mtId = 0, mtFileName = ''f'', mtNReduce = 2, mtState = STARTED\<rparr> Map.empty = Inr fs' \<and>
     fs' (0, 2) = None"
  using map_task_partitions [of "[''f'' \<mapsto> ''c'']" "\<lparr>mtId = 0, mtFileName = ''f'', mtNReduce = 2, mtState = STARTED\<rparr>" "''c''"
      "\<lambda>f c. [\<lparr>kKey = ''a'', kVal = c\<rparr>]" Map.empty "''a''"] by auto

end
