(* ===== verification/MR_Coordinator.thy ===== *)
theory MR_Coordinator
  imports MR_Worker
begin

text \<open>
  The MapReduce coordinator, \<^verbatim>\<open>src/mr/coordinator.go\<close>, and the whole job: the coordinator hands
  out map tasks, then reduce tasks; a task that is not reported finished within ten seconds
  is handed out again, so several workers may run it. The timers of started tasks and the
  workers blocked in the condition variable are part of the state.
\<close>

section \<open>The coordinator\<close>

record Coordinator =
  mapTasksDone :: bool
  allDone :: bool                  \<comment> \<open>the field \<^verbatim>\<open>done\<close>\<close>
  MapTasks :: "MapTask list"
  ReduceTasks :: "ReduceTask list"
  mapTimers :: "nat list"          \<comment> \<open>recovery goroutines that wait for their ten seconds\<close>
  reduceTimers :: "nat list"
  sleeping :: nat                  \<comment> \<open>workers in \<^verbatim>\<open>Cond.Wait\<close>\<close>

datatype FetchTaskReply = AllDone | GiveMap MapTask | GiveReduce ReduceTask

fun find_waiting :: "('t \<Rightarrow> TaskState) \<Rightarrow> nat \<Rightarrow> 't list \<Rightarrow> nat option" where
  "find_waiting st i [] = None"
| "find_waiting st i (t # ts) = (if st t = WAITTING then Some i else find_waiting st (Suc i) ts)"

definition fetchMapTask :: "Coordinator \<Rightarrow> nat option" where
  "fetchMapTask c = find_waiting mtState 0 (MapTasks c)"

definition fetchReduceTask :: "Coordinator \<Rightarrow> nat option" where
  "fetchReduceTask c = find_waiting rtState 0 (ReduceTasks c)"

definition setMapState :: "nat \<Rightarrow> TaskState \<Rightarrow> Coordinator \<Rightarrow> Coordinator" where
  "setMapState i s c = c\<lparr>MapTasks := (MapTasks c)[i := (MapTasks c ! i)\<lparr>mtState := s\<rparr>]\<rparr>"

definition setReduceState :: "nat \<Rightarrow> TaskState \<Rightarrow> Coordinator \<Rightarrow> Coordinator" where
  "setReduceState i s c = c\<lparr>ReduceTasks := (ReduceTasks c)[i := (ReduceTasks c ! i)\<lparr>rtState := s\<rparr>]\<rparr>"

definition mapTaskStarted :: "nat \<Rightarrow> Coordinator \<Rightarrow> Coordinator" where
  "mapTaskStarted i c = (setMapState i STARTED c)\<lparr>mapTimers := mapTimers c @ [i]\<rparr>"

definition reduceTaskStarted :: "nat \<Rightarrow> Coordinator \<Rightarrow> Coordinator" where
  "reduceTaskStarted i c = (setReduceState i STARTED c)\<lparr>reduceTimers := reduceTimers c @ [i]\<rparr>"

text \<open>\<^verbatim>\<open>MapTasksDone\<close> and \<^verbatim>\<open>Done\<close> remember a positive answer.\<close>

definition MapTasksDone :: "Coordinator \<Rightarrow> bool \<times> Coordinator" where
  "MapTasksDone c =
     (if mapTasksDone c then (True, c)
      else if \<exists>t \<in> set (MapTasks c). mtState t \<noteq> FINISHED then (False, c)
      else (True, c\<lparr>mapTasksDone := True\<rparr>))"

definition Done_job :: "Coordinator \<Rightarrow> bool \<times> Coordinator" where
  "Done_job c =
     (if allDone c then (True, c)
      else if \<exists>t \<in> set (ReduceTasks c). rtState t \<noteq> FINISHED then (False, c)
      else (True, c\<lparr>allDone := True\<rparr>))"

text \<open>
  \<^verbatim>\<open>FetchTask\<close> up to its answer, or up to \<^verbatim>\<open>Wait\<close> (\<^verbatim>\<open>None\<close>, and the worker sleeps). A woken
  worker goes through the same tests again: in the first loop if it slept there, and in the
  second loop the first loop's test holds for good.
\<close>

definition FetchTask :: "Coordinator \<Rightarrow> FetchTaskReply option \<times> Coordinator" where
  "FetchTask c =
     (case MapTasksDone c of (mdone, c1) \<Rightarrow>
      if \<not> mdone
      then (case fetchMapTask c1 of
              Some i \<Rightarrow> (let c2 = mapTaskStarted i c1 in (Some (GiveMap (MapTasks c2 ! i)), c2))
            | None \<Rightarrow> (None, c1\<lparr>sleeping := Suc (sleeping c1)\<rparr>))
      else case Done_job c1 of (rdone, c2) \<Rightarrow>
           if rdone then (Some AllDone, c2)
           else (case fetchReduceTask c2 of
                   Some i \<Rightarrow> (let c3 = reduceTaskStarted i c2 in (Some (GiveReduce (ReduceTasks c3 ! i)), c3))
                 | None \<Rightarrow> (None, c2\<lparr>sleeping := Suc (sleeping c2)\<rparr>)))"

definition Broadcast :: "Coordinator \<Rightarrow> Coordinator" where
  "Broadcast c = c\<lparr>sleeping := 0\<rparr>"

text \<open>The recovery goroutine of a task, when its time is over.\<close>

definition mapTimer :: "nat \<Rightarrow> Coordinator \<Rightarrow> Coordinator" where
  "mapTimer i c =
     (let c1 = c\<lparr>mapTimers := remove1 i (mapTimers c)\<rparr> in
      if mtState (MapTasks c1 ! i) \<noteq> FINISHED then Broadcast (setMapState i WAITTING c1) else c1)"

definition reduceTimer :: "nat \<Rightarrow> Coordinator \<Rightarrow> Coordinator" where
  "reduceTimer i c =
     (let c1 = c\<lparr>reduceTimers := remove1 i (reduceTimers c)\<rparr> in
      if rtState (ReduceTasks c1 ! i) \<noteq> FINISHED then Broadcast (setReduceState i WAITTING c1) else c1)"

definition MapTaskFinished :: "int \<Rightarrow> Coordinator \<Rightarrow> Coordinator res" where
  "MapTaskFinished taskId c =
     ebind (nth_go (MapTasks c) taskId) (\<lambda>_.
     case MapTasksDone (setMapState (nat taskId) FINISHED c) of (mdone, c1) \<Rightarrow>
     Inr (if mdone then Broadcast c1 else c1))"

definition ReduceTaskFinished :: "int \<Rightarrow> Coordinator \<Rightarrow> Coordinator res" where
  "ReduceTaskFinished taskId c =
     ebind (nth_go (ReduceTasks c) taskId) (\<lambda>_.
     case Done_job (setReduceState (nat taskId) FINISHED c) of (rdone, c1) \<Rightarrow>
     Inr (if rdone then Broadcast c1 else c1))"

definition MakeCoordinator :: "string list \<Rightarrow> nat \<Rightarrow> Coordinator" where
  "MakeCoordinator inputs nReduce =
     \<lparr>mapTasksDone = False, allDone = False,
      MapTasks = map (\<lambda>i. \<lparr>mtId = i, mtFileName = inputs ! i, mtNReduce = nReduce, mtState = WAITTING\<rparr>) [0..<length inputs],
      ReduceTasks = map (\<lambda>i. \<lparr>rtId = i, rtNMap = length inputs, rtState = WAITTING\<rparr>) [0..<nReduce],
      mapTimers = [], reduceTimers = [], sleeping = 0\<rparr>"


section \<open>The job\<close>

text \<open>
  The state of a job: the coordinator, the intermediate files, the output files, and the tasks
  that were ever handed out. Each of them may be run by any number of workers at any time,
  a worker may stop at any point, and a report of success comes only after the files of the
  task were written. The main program polls \<^verbatim>\<open>Done\<close> without the mutex; as a finished task stays
  finished, an answer true means the same as one computed at once (rule \<^verbatim>\<open>poll\<close>).
\<close>

record job =
  jCoord :: Coordinator
  jFiles :: files
  jOuts :: "nat \<rightharpoonup> string list"
  jMaps :: "nat set"
  jReduces :: "nat set"

fun note_reply :: "FetchTaskReply option \<Rightarrow> job \<Rightarrow> job" where
  "note_reply (Some (GiveMap t)) j = j\<lparr>jMaps := insert (mtId t) (jMaps j)\<rparr>"
| "note_reply (Some (GiveReduce t)) j = j\<lparr>jReduces := insert (rtId t) (jReduces j)\<rparr>"
| "note_reply _ j = j"

definition job_start :: "string list \<Rightarrow> nat \<Rightarrow> job" where
  "job_start inputs n = \<lparr>jCoord = MakeCoordinator inputs n, jFiles = Map.empty, jOuts = Map.empty, jMaps = {}, jReduces = {}\<rparr>"

inductive mr_run :: "(string \<rightharpoonup> string) \<Rightarrow> (string \<Rightarrow> string \<Rightarrow> KeyValue list) \<Rightarrow> (string \<Rightarrow> string list \<Rightarrow> string) \<Rightarrow>
    (KeyValue list \<Rightarrow> KeyValue list) \<Rightarrow> string list \<Rightarrow> nat \<Rightarrow> job \<Rightarrow> bool"
  for input mapf reducef srt inputs n where
  start: "mr_run input mapf reducef srt inputs n (job_start inputs n)"
| fetch: "mr_run input mapf reducef srt inputs n j \<Longrightarrow> FetchTask (jCoord j) = (reply, c) \<Longrightarrow>
    mr_run input mapf reducef srt inputs n (note_reply reply (j\<lparr>jCoord := c\<rparr>))"
| map_timer: "mr_run input mapf reducef srt inputs n j \<Longrightarrow> i \<in> set (mapTimers (jCoord j)) \<Longrightarrow>
    mr_run input mapf reducef srt inputs n (j\<lparr>jCoord := mapTimer i (jCoord j)\<rparr>)"
| reduce_timer: "mr_run input mapf reducef srt inputs n j \<Longrightarrow> i \<in> set (reduceTimers (jCoord j)) \<Longrightarrow>
    mr_run input mapf reducef srt inputs n (j\<lparr>jCoord := reduceTimer i (jCoord j)\<rparr>)"
| map_write: "mr_run input mapf reducef srt inputs n j \<Longrightarrow> i \<in> jMaps j \<Longrightarrow>
    map_slices input mapf (MapTasks (jCoord j) ! i) = Inr omap \<Longrightarrow> r < length omap \<Longrightarrow>
    mr_run input mapf reducef srt inputs n (j\<lparr>jFiles := (jFiles j)((i, r) \<mapsto> map json_pair (omap ! r))\<rparr>)"
| map_finish: "mr_run input mapf reducef srt inputs n j \<Longrightarrow> i \<in> jMaps j \<Longrightarrow> \<forall>r < n. jFiles j (i, r) \<noteq> None \<Longrightarrow>
    MapTaskFinished (int i) (jCoord j) = Inr c \<Longrightarrow> mr_run input mapf reducef srt inputs n (j\<lparr>jCoord := c\<rparr>)"
| reduce_write: "mr_run input mapf reducef srt inputs n j \<Longrightarrow> r \<in> jReduces j \<Longrightarrow>
    doReduceTask srt reducef (ReduceTasks (jCoord j) ! r) (jFiles j) = Inr out \<Longrightarrow>
    mr_run input mapf reducef srt inputs n (j\<lparr>jOuts := (jOuts j)(r \<mapsto> out)\<rparr>)"
| reduce_finish: "mr_run input mapf reducef srt inputs n j \<Longrightarrow> r \<in> jReduces j \<Longrightarrow> jOuts j r \<noteq> None \<Longrightarrow>
    ReduceTaskFinished (int r) (jCoord j) = Inr c \<Longrightarrow> mr_run input mapf reducef srt inputs n (j\<lparr>jCoord := c\<rparr>)"
| poll: "mr_run input mapf reducef srt inputs n j \<Longrightarrow> Done_job (jCoord j) = (b, c) \<Longrightarrow>
    mr_run input mapf reducef srt inputs n (j\<lparr>jCoord := c\<rparr>)"

section \<open>The invariant of the coordinator\<close>

text \<open>The tasks are those of the job; their states are the only thing that changes.\<close>

definition tasks_ok :: "string list \<Rightarrow> nat \<Rightarrow> Coordinator \<Rightarrow> bool" where
  "tasks_ok inputs n c \<longleftrightarrow> length (MapTasks c) = length inputs \<and> length (ReduceTasks c) = n \<and>
     (\<forall>i < length inputs. mtId (MapTasks c ! i) = i \<and> mtFileName (MapTasks c ! i) = inputs ! i \<and> mtNReduce (MapTasks c ! i) = n) \<and>
     (\<forall>i < n. rtId (ReduceTasks c ! i) = i \<and> rtNMap (ReduceTasks c ! i) = length inputs)"

abbreviation map_state :: "Coordinator \<Rightarrow> nat \<Rightarrow> TaskState" where
  "map_state c i \<equiv> mtState (MapTasks c ! i)"

abbreviation reduce_state :: "Coordinator \<Rightarrow> nat \<Rightarrow> TaskState" where
  "reduce_state c i \<equiv> rtState (ReduceTasks c ! i)"

text \<open>
  The remembered flags are true, every started task has a timer, and workers sleep only
  while there is nothing to hand out but something to wait for.
\<close>

definition coord_inv :: "string list \<Rightarrow> nat \<Rightarrow> Coordinator \<Rightarrow> bool" where
  "coord_inv inputs n c \<longleftrightarrow> tasks_ok inputs n c \<and>
     (mapTasksDone c \<longrightarrow> (\<forall>i < length inputs. map_state c i = FINISHED)) \<and>
     (allDone c \<longrightarrow> (\<forall>i < n. reduce_state c i = FINISHED)) \<and>
     (\<forall>i < length inputs. map_state c i = STARTED \<longrightarrow> i \<in> set (mapTimers c)) \<and>
     (\<forall>i < n. reduce_state c i = STARTED \<longrightarrow> i \<in> set (reduceTimers c)) \<and>
     set (mapTimers c) \<subseteq> {..<length inputs} \<and> set (reduceTimers c) \<subseteq> {..<n} \<and>
     (0 < sleeping c \<longrightarrow>
        (if mapTasksDone c then (\<forall>i < n. reduce_state c i \<noteq> WAITTING) \<and> (\<exists>i < n. reduce_state c i \<noteq> FINISHED)
         else (\<forall>i < length inputs. map_state c i \<noteq> WAITTING) \<and> (\<exists>i < length inputs. map_state c i \<noteq> FINISHED)))"

lemma find_waiting_Some: "find_waiting st k ts = Some i \<Longrightarrow> k \<le> i \<and> i < k + length ts \<and> st (ts ! (i - k)) = WAITTING"
proof (induction ts arbitrary: k)
  case (Cons t ts)
  show ?case
  proof (cases "st t = WAITTING")
    case False
    then have "Suc k \<le> i \<and> i < Suc k + length ts \<and> st (ts ! (i - Suc k)) = WAITTING"
      using Cons.IH [of "Suc k"] Cons.prems by simp
    moreover from this have "i - k = Suc (i - Suc k)" by (metis Suc_diff_Suc Suc_le_lessD)
    ultimately show ?thesis by simp
  qed (use Cons.prems in auto)
qed simp

lemma find_waiting_None: "find_waiting st k ts = None \<Longrightarrow> t \<in> set ts \<Longrightarrow> st t \<noteq> WAITTING"
  by (induction ts arbitrary: k) (auto split: if_splits)

lemma set_state_tasks:
  assumes "tasks_ok inputs n c"
  shows "tasks_ok inputs n (setMapState i s c)" "tasks_ok inputs n (setReduceState i s c)"
proof -
  show "tasks_ok inputs n (setMapState i s c)"
    using assms by (cases "i < length inputs") (simp_all add: tasks_ok_def setMapState_def nth_list_update)
  show "tasks_ok inputs n (setReduceState i s c)"
    using assms by (cases "i < n") (simp_all add: tasks_ok_def setReduceState_def nth_list_update)
qed

lemma set_state_nth:
  assumes "tasks_ok inputs n c"
  shows "i < length inputs \<Longrightarrow> map_state (setMapState i s c) k = (if k = i then s else map_state c k)"
    "i < n \<Longrightarrow> reduce_state (setReduceState i s c) k = (if k = i then s else reduce_state c k)"
    "reduce_state (setMapState i s c) k = reduce_state c k" "map_state (setReduceState i s c) k = map_state c k"
  using assms by (simp_all add: tasks_ok_def setMapState_def setReduceState_def nth_list_update)

lemma set_state_frame [simp]:
  "mapTasksDone (setMapState i s c) = mapTasksDone c" "allDone (setMapState i s c) = allDone c"
  "mapTimers (setMapState i s c) = mapTimers c" "reduceTimers (setMapState i s c) = reduceTimers c"
  "sleeping (setMapState i s c) = sleeping c"
  "mapTasksDone (setReduceState i s c) = mapTasksDone c" "allDone (setReduceState i s c) = allDone c"
  "mapTimers (setReduceState i s c) = mapTimers c" "reduceTimers (setReduceState i s c) = reduceTimers c"
  "sleeping (setReduceState i s c) = sleeping c"
  by (simp_all add: setMapState_def setReduceState_def)

lemma tasks_ok_frame [simp]:
  "tasks_ok inputs n (c\<lparr>mapTasksDone := a\<rparr>) = tasks_ok inputs n c" "tasks_ok inputs n (c\<lparr>allDone := a\<rparr>) = tasks_ok inputs n c"
  "tasks_ok inputs n (c\<lparr>mapTimers := t\<rparr>) = tasks_ok inputs n c" "tasks_ok inputs n (c\<lparr>reduceTimers := t\<rparr>) = tasks_ok inputs n c"
  "tasks_ok inputs n (c\<lparr>sleeping := k\<rparr>) = tasks_ok inputs n c"
  by (simp_all add: tasks_ok_def)

lemma bex_set_nth: "(\<exists>t \<in> set ts. P t) \<longleftrightarrow> (\<exists>i < length ts. P (ts ! i))"
  by (metis in_set_conv_nth)

lemma MapTasksDone_spec:
  assumes "tasks_ok inputs n c"
  shows "MapTasksDone c = (let d = mapTasksDone c \<or> (\<forall>i < length inputs. map_state c i = FINISHED) in (d, c\<lparr>mapTasksDone := d\<rparr>))"
proof -
  have "(\<exists>t \<in> set (MapTasks c). mtState t \<noteq> FINISHED) \<longleftrightarrow> (\<exists>i < length inputs. map_state c i \<noteq> FINISHED)"
    using assms unfolding bex_set_nth by (simp add: tasks_ok_def)
  then show ?thesis by (auto simp: MapTasksDone_def Let_def)
qed

lemma Done_job_spec:
  assumes "tasks_ok inputs n c"
  shows "Done_job c = (let d = allDone c \<or> (\<forall>i < n. reduce_state c i = FINISHED) in (d, c\<lparr>allDone := d\<rparr>))"
proof -
  have "(\<exists>t \<in> set (ReduceTasks c). rtState t \<noteq> FINISHED) \<longleftrightarrow> (\<exists>i < n. reduce_state c i \<noteq> FINISHED)"
    using assms unfolding bex_set_nth by (simp add: tasks_ok_def)
  then show ?thesis by (auto simp: Done_job_def Let_def)
qed

lemma coord_invD:
  assumes "coord_inv inputs n c"
  shows "tasks_ok inputs n c" "mapTasksDone c \<Longrightarrow> i < length inputs \<Longrightarrow> map_state c i = FINISHED"
    "allDone c \<Longrightarrow> r < n \<Longrightarrow> reduce_state c r = FINISHED"
    "i < length inputs \<Longrightarrow> map_state c i = STARTED \<Longrightarrow> i \<in> set (mapTimers c)"
    "r < n \<Longrightarrow> reduce_state c r = STARTED \<Longrightarrow> r \<in> set (reduceTimers c)"
  using assms unfolding coord_inv_def by blast+

lemma coord_inv_start: "coord_inv inputs n (MakeCoordinator inputs n)"
  by (simp add: coord_inv_def tasks_ok_def MakeCoordinator_def)

lemma coord_inv_MapTasksDone:
  assumes "coord_inv inputs n c" and "MapTasksDone c = (d, c')"
  shows "coord_inv inputs n c' \<and> d = mapTasksDone c' \<and> (\<not> d \<longrightarrow> c' = c) \<and> (\<exists>a. c' = c\<lparr>mapTasksDone := a\<rparr>)"
proof -
  note t = coord_invD(1) [OF assms(1)]
  have "c' = c\<lparr>mapTasksDone := d\<rparr>" "d = (mapTasksDone c \<or> (\<forall>i < length inputs. map_state c i = FINISHED))"
    using assms(2) unfolding MapTasksDone_spec [OF t] by (auto simp: Let_def)
  then show ?thesis using assms(1) unfolding coord_inv_def by (cases "mapTasksDone c"; cases d) auto
qed

lemma coord_inv_Done:
  assumes "coord_inv inputs n c" and "Done_job c = (d, c')"
  shows "coord_inv inputs n c' \<and> d = allDone c' \<and> (\<exists>a. c' = c\<lparr>allDone := a\<rparr>) \<and>
    (\<not> d \<longrightarrow> (\<exists>i < n. reduce_state c i \<noteq> FINISHED))"
proof -
  note t = coord_invD(1) [OF assms(1)]
  have "c' = c\<lparr>allDone := d\<rparr>" "d = (allDone c \<or> (\<forall>i < n. reduce_state c i = FINISHED))"
    using assms(2) unfolding Done_job_spec [OF t] by (auto simp: Let_def)
  then show ?thesis using assms(1) unfolding coord_inv_def by auto
qed


text \<open>What an operation may change: a task becomes finished only when it is reported, and the map phase ends once.\<close>

definition keeps_phase :: "string list \<Rightarrow> nat \<Rightarrow> nat set \<Rightarrow> nat set \<Rightarrow> Coordinator \<Rightarrow> Coordinator \<Rightarrow> bool" where
  "keeps_phase inputs n ms rs c c' \<longleftrightarrow> coord_inv inputs n c' \<and> (mapTasksDone c \<longrightarrow> mapTasksDone c') \<and>
     (\<forall>i < length inputs. map_state c' i = FINISHED \<longrightarrow> map_state c i = FINISHED \<or> i \<in> ms) \<and>
     (\<forall>r < n. reduce_state c' r = FINISHED \<longrightarrow> reduce_state c r = FINISHED \<or> r \<in> rs)"

lemma MapTasksDone_phase:
  assumes "coord_inv inputs n c" and "MapTasksDone c = (d, c')"
  shows "keeps_phase inputs n {} {} c c'"
  using coord_inv_MapTasksDone [OF assms] unfolding keeps_phase_def by auto

lemma Done_phase:
  assumes "coord_inv inputs n c" and "Done_job c = (d, c')"
  shows "keeps_phase inputs n {} {} c c'"
  using coord_inv_Done [OF assms] unfolding keeps_phase_def by auto

lemma keeps_phase_trans:
  "keeps_phase inputs n ms rs c c1 \<Longrightarrow> keeps_phase inputs n {} {} c1 c2 \<Longrightarrow> keeps_phase inputs n ms rs c c2"
  unfolding keeps_phase_def by blast

lemma mapTaskStarted_phase:
  assumes "coord_inv inputs n c" and "\<not> mapTasksDone c" and "i < length inputs" and "map_state c i = WAITTING"
  shows "keeps_phase inputs n {} {} c (mapTaskStarted i c)"
proof -
  note t = coord_invD(1) [OF assms(1)]
  have s: "sleeping c = 0" using assms unfolding coord_inv_def by auto
  show ?thesis using assms s set_state_tasks(1) [OF t] set_state_nth [OF t]
    unfolding keeps_phase_def coord_inv_def mapTaskStarted_def by auto
qed

lemma reduceTaskStarted_phase:
  assumes "coord_inv inputs n c" and "mapTasksDone c" and "i < n" and "reduce_state c i = WAITTING"
  shows "keeps_phase inputs n {} {} c (reduceTaskStarted i c)"
proof -
  note t = coord_invD(1) [OF assms(1)]
  have s: "sleeping c = 0" "\<not> allDone c" using assms unfolding coord_inv_def by auto
  show ?thesis using assms s set_state_tasks(2) [OF t] set_state_nth [OF t]
    unfolding keeps_phase_def coord_inv_def reduceTaskStarted_def by auto
qed

lemma wait_phase:
  assumes "coord_inv inputs n c"
    and "if mapTasksDone c then (\<forall>i < n. reduce_state c i \<noteq> WAITTING) \<and> (\<exists>i < n. reduce_state c i \<noteq> FINISHED)
         else (\<forall>i < length inputs. map_state c i \<noteq> WAITTING) \<and> (\<exists>i < length inputs. map_state c i \<noteq> FINISHED)"
  shows "keeps_phase inputs n {} {} c (c\<lparr>sleeping := Suc (sleeping c)\<rparr>)"
  using assms unfolding keeps_phase_def coord_inv_def by simp

lemma mapTimer_phase:
  assumes "coord_inv inputs n c" and "i < length inputs"
  shows "keeps_phase inputs n {} {} c (mapTimer i c)"
proof (cases "map_state c i = FINISHED")
  case True
  then have "mapTimer i c = c\<lparr>mapTimers := remove1 i (mapTimers c)\<rparr>" by (simp add: mapTimer_def Let_def)
  moreover have "k \<in> set (remove1 i (mapTimers c))" if "k < length inputs" "map_state c k = STARTED" for k
    using coord_invD(4) [OF assms(1) that] that(2) True by (metis TaskState.distinct(5) in_set_remove1)
  moreover have "set (remove1 i (mapTimers c)) \<subseteq> set (mapTimers c)" by (rule set_remove1_subset)
  ultimately show ?thesis using assms(1) unfolding keeps_phase_def coord_inv_def by auto
next
  case False
  let ?c = "c\<lparr>mapTimers := remove1 i (mapTimers c)\<rparr>"
  have t: "tasks_ok inputs n ?c" using coord_invD(1) [OF assms(1)] by simp
  have "mapTimer i c = Broadcast (setMapState i WAITTING ?c)" using False by (simp add: mapTimer_def Let_def)
  moreover have "k \<in> set (remove1 i (mapTimers c))" if "k < length inputs" "map_state c k = STARTED" "k \<noteq> i" for k
    using coord_invD(4) [OF assms(1) that(1,2)] that(3) by simp
  moreover have "set (remove1 i (mapTimers c)) \<subseteq> set (mapTimers c)" by (rule set_remove1_subset)
  moreover have "\<not> mapTasksDone c" using coord_invD(2) [OF assms(1)] assms(2) False by blast
  ultimately show ?thesis using assms set_state_tasks(1) [OF t] set_state_nth [OF t]
    unfolding keeps_phase_def coord_inv_def Broadcast_def by auto
qed

lemma reduceTimer_phase:
  assumes "coord_inv inputs n c" and "i < n"
  shows "keeps_phase inputs n {} {} c (reduceTimer i c)"
proof (cases "reduce_state c i = FINISHED")
  case True
  then have "reduceTimer i c = c\<lparr>reduceTimers := remove1 i (reduceTimers c)\<rparr>" by (simp add: reduceTimer_def Let_def)
  moreover have "k \<in> set (remove1 i (reduceTimers c))" if "k < n" "reduce_state c k = STARTED" for k
    using coord_invD(5) [OF assms(1) that] that(2) True by (metis TaskState.distinct(5) in_set_remove1)
  moreover have "set (remove1 i (reduceTimers c)) \<subseteq> set (reduceTimers c)" by (rule set_remove1_subset)
  ultimately show ?thesis using assms(1) unfolding keeps_phase_def coord_inv_def by auto
next
  case False
  let ?c = "c\<lparr>reduceTimers := remove1 i (reduceTimers c)\<rparr>"
  have t: "tasks_ok inputs n ?c" using coord_invD(1) [OF assms(1)] by simp
  have "reduceTimer i c = Broadcast (setReduceState i WAITTING ?c)" using False by (simp add: reduceTimer_def Let_def)
  moreover have "k \<in> set (remove1 i (reduceTimers c))" if "k < n" "reduce_state c k = STARTED" "k \<noteq> i" for k
    using coord_invD(5) [OF assms(1) that(1,2)] that(3) by simp
  moreover have "set (remove1 i (reduceTimers c)) \<subseteq> set (reduceTimers c)" by (rule set_remove1_subset)
  moreover have "\<not> allDone c" using coord_invD(3) [OF assms(1)] assms(2) False by blast
  ultimately show ?thesis using assms set_state_tasks(2) [OF t] set_state_nth [OF t]
    unfolding keeps_phase_def coord_inv_def Broadcast_def by auto
qed


lemma MapTaskFinished_phase:
  assumes "coord_inv inputs n c" and "i < length inputs"
  shows "\<exists>c'. MapTaskFinished (int i) c = Inr c' \<and> keeps_phase inputs n {i} {} c c' \<and> map_state c' i = FINISHED \<and>
    (mapTasksDone c' \<longrightarrow> sleeping c' = 0)"
proof -
  note t = coord_invD(1) [OF assms(1)]
  let ?c = "setMapState i FINISHED c"
  define d where "d = (mapTasksDone c \<or> (\<forall>k < length inputs. map_state ?c k = FINISHED))"
  define c' where "c' = (if d then Broadcast (?c\<lparr>mapTasksDone := d\<rparr>) else ?c\<lparr>mapTasksDone := d\<rparr>)"
  note nth = set_state_nth(1) [OF t assms(2), of FINISHED] set_state_nth(3) [OF t]
  have "length (MapTasks c) = length inputs" using t by (simp add: tasks_ok_def)
  then have "MapTaskFinished (int i) c = Inr c'"
    using assms(2) MapTasksDone_spec [OF set_state_tasks(1) [OF t], of i FINISHED]
    by (auto simp: MapTaskFinished_def go_slice c'_def d_def Let_def)
  moreover have "coord_inv inputs n c'"
  proof (cases d)
    case True
    then have "k < length inputs \<Longrightarrow> map_state ?c k = FINISHED" for k
      using coord_invD(2) [OF assms(1)] nth unfolding d_def by auto
    then show ?thesis using True assms(1) nth set_state_tasks(1) [OF t, of i FINISHED]
      unfolding coord_inv_def c'_def Broadcast_def by auto
  next
    case False
    then have "\<not> mapTasksDone c" "\<exists>k < length inputs. map_state ?c k \<noteq> FINISHED" unfolding d_def by auto
    then show ?thesis using False assms(1) nth set_state_tasks(1) [OF t, of i FINISHED]
      unfolding coord_inv_def c'_def by auto
  qed
  moreover have "map_state c' k = map_state ?c k" "reduce_state c' k = reduce_state ?c k" "mapTasksDone c' = d" for k
    by (simp_all add: c'_def Broadcast_def)
  moreover have "d \<longrightarrow> sleeping c' = 0" by (simp add: c'_def Broadcast_def)
  ultimately show ?thesis using nth unfolding keeps_phase_def d_def by auto
qed

lemma ReduceTaskFinished_phase:
  assumes "coord_inv inputs n c" and "i < n"
  shows "\<exists>c'. ReduceTaskFinished (int i) c = Inr c' \<and> keeps_phase inputs n {} {i} c c' \<and> reduce_state c' i = FINISHED \<and>
    (allDone c' \<longrightarrow> sleeping c' = 0)"
proof -
  note t = coord_invD(1) [OF assms(1)]
  let ?c = "setReduceState i FINISHED c"
  define d where "d = (allDone c \<or> (\<forall>k < n. reduce_state ?c k = FINISHED))"
  define c' where "c' = (if d then Broadcast (?c\<lparr>allDone := d\<rparr>) else ?c\<lparr>allDone := d\<rparr>)"
  note nth = set_state_nth(2) [OF t assms(2), of FINISHED] set_state_nth(4) [OF t]
  have "length (ReduceTasks c) = n" using t by (simp add: tasks_ok_def)
  then have "ReduceTaskFinished (int i) c = Inr c'"
    using assms(2) Done_job_spec [OF set_state_tasks(2) [OF t], of i FINISHED]
    by (auto simp: ReduceTaskFinished_def go_slice c'_def d_def Let_def)
  moreover have "coord_inv inputs n c'"
  proof (cases d)
    case True
    then have "k < n \<Longrightarrow> reduce_state ?c k = FINISHED" for k
      using coord_invD(3) [OF assms(1)] nth unfolding d_def by auto
    then show ?thesis using True assms(1) nth set_state_tasks(2) [OF t, of i FINISHED]
      unfolding coord_inv_def c'_def Broadcast_def by auto
  next
    case False
    then have "\<not> allDone c" "\<exists>k < n. reduce_state ?c k \<noteq> FINISHED" unfolding d_def by auto
    then show ?thesis using False assms(1) nth set_state_tasks(2) [OF t, of i FINISHED]
      unfolding coord_inv_def c'_def by auto
  qed
  moreover have "map_state c' k = map_state ?c k" "reduce_state c' k = reduce_state ?c k"
    "mapTasksDone c' = mapTasksDone c" "allDone c' = d" for k
    by (simp_all add: c'_def Broadcast_def)
  moreover have "d \<longrightarrow> sleeping c' = 0" by (simp add: c'_def Broadcast_def)
  ultimately show ?thesis using nth unfolding keeps_phase_def d_def by auto
qed

text \<open>The answers of \<^verbatim>\<open>FetchTask\<close>: what is handed out, and when the worker is sent home.\<close>

fun reply_ok :: "string list \<Rightarrow> nat \<Rightarrow> Coordinator \<Rightarrow> FetchTaskReply option \<Rightarrow> bool" where
  "reply_ok inputs n c (Some (GiveMap t)) = (mtId t < length inputs \<and> t = MapTasks c ! mtId t \<and> mtState t = STARTED)"
| "reply_ok inputs n c (Some (GiveReduce t)) =
     (rtId t < n \<and> t = ReduceTasks c ! rtId t \<and> rtState t = STARTED \<and> mapTasksDone c)"
| "reply_ok inputs n c (Some AllDone) = (mapTasksDone c \<and> allDone c)"
| "reply_ok inputs n c None = (0 < sleeping c)"

lemma fetchMapTask_spec:
  assumes "tasks_ok inputs n c"
  shows "fetchMapTask c = Some i \<Longrightarrow> i < length inputs \<and> map_state c i = WAITTING"
    "fetchMapTask c = None \<Longrightarrow> k < length inputs \<Longrightarrow> map_state c k \<noteq> WAITTING"
proof -
  have l: "length (MapTasks c) = length inputs" using assms by (simp add: tasks_ok_def)
  show "fetchMapTask c = Some i \<Longrightarrow> i < length inputs \<and> map_state c i = WAITTING"
    using find_waiting_Some [of mtState 0 "MapTasks c" i] l by (simp add: fetchMapTask_def)
  show "fetchMapTask c = None \<Longrightarrow> k < length inputs \<Longrightarrow> map_state c k \<noteq> WAITTING"
    using find_waiting_None [of mtState 0 "MapTasks c"] l unfolding fetchMapTask_def by (metis nth_mem)
qed

lemma fetchReduceTask_spec:
  assumes "tasks_ok inputs n c"
  shows "fetchReduceTask c = Some i \<Longrightarrow> i < n \<and> reduce_state c i = WAITTING"
    "fetchReduceTask c = None \<Longrightarrow> k < n \<Longrightarrow> reduce_state c k \<noteq> WAITTING"
proof -
  have l: "length (ReduceTasks c) = n" using assms by (simp add: tasks_ok_def)
  show "fetchReduceTask c = Some i \<Longrightarrow> i < n \<and> reduce_state c i = WAITTING"
    using find_waiting_Some [of rtState 0 "ReduceTasks c" i] l by (simp add: fetchReduceTask_def)
  show "fetchReduceTask c = None \<Longrightarrow> k < n \<Longrightarrow> reduce_state c k \<noteq> WAITTING"
    using find_waiting_None [of rtState 0 "ReduceTasks c"] l unfolding fetchReduceTask_def by (metis nth_mem)
qed

lemma started_nth:
  assumes "tasks_ok inputs n c"
  shows "i < length inputs \<Longrightarrow> mtId (MapTasks (mapTaskStarted i c) ! i) = i \<and> map_state (mapTaskStarted i c) i = STARTED"
    "r < n \<Longrightarrow> rtId (ReduceTasks (reduceTaskStarted r c) ! r) = r \<and> reduce_state (reduceTaskStarted r c) r = STARTED \<and>
       mapTasksDone (reduceTaskStarted r c) = mapTasksDone c"
  using assms by (simp_all add: mapTaskStarted_def setMapState_def reduceTaskStarted_def setReduceState_def tasks_ok_def)


lemma FetchTask_phase:
  assumes inv: "coord_inv inputs n c" and fetch: "FetchTask c = (reply, c')"
  shows "keeps_phase inputs n {} {} c c' \<and> reply_ok inputs n c' reply"
proof -
  obtain d c1 where d: "MapTasksDone c = (d, c1)" by (metis surj_pair)
  have inv1: "coord_inv inputs n c1" and dc: "d = mapTasksDone c1" and c1: "\<not> d \<longrightarrow> c1 = c"
    using coord_inv_MapTasksDone [OF inv d] by blast+
  note ph1 = MapTasksDone_phase [OF inv d] and t1 = coord_invD(1) [OF inv1]
  show ?thesis
  proof (cases d)
    case False
    then have nd: "\<not> mapTasksDone c1" using dc by simp
    show ?thesis
    proof (cases "fetchMapTask c1")
      case (Some i)
      note i = fetchMapTask_spec(1) [OF t1 Some]
      have "c' = mapTaskStarted i c1" "reply = Some (GiveMap (MapTasks c' ! i))"
        using fetch False Some d by (auto simp: FetchTask_def Let_def)
      then show ?thesis using keeps_phase_trans [OF ph1 mapTaskStarted_phase [OF inv1 nd]] started_nth(1) [OF t1] i by simp
    next
      case None
      have "\<exists>i < length inputs. map_state c1 i \<noteq> FINISHED"
        using d False c1 MapTasksDone_spec [OF coord_invD(1) [OF inv]] by (auto simp: Let_def)
      moreover have "c' = c1\<lparr>sleeping := Suc (sleeping c1)\<rparr>" "reply = None"
        using fetch False None d by (auto simp: FetchTask_def)
      ultimately show ?thesis
        using keeps_phase_trans [OF ph1 wait_phase [OF inv1]] fetchMapTask_spec(2) [OF t1 None] nd by simp
    qed
  next
    case True
    then have md: "mapTasksDone c1" using dc by simp
    obtain e c2 where e: "Done_job c1 = (e, c2)" by (metis surj_pair)
    obtain a where inv2: "coord_inv inputs n c2" and ec: "e = allDone c2" and c2: "c2 = c1\<lparr>allDone := a\<rparr>"
      and open_task: "\<not> e \<longrightarrow> (\<exists>i < n. reduce_state c1 i \<noteq> FINISHED)"
      using coord_inv_Done [OF inv1 e] by blast
    note ph2 = keeps_phase_trans [OF ph1 Done_phase [OF inv1 e]] and t2 = coord_invD(1) [OF inv2]
    have md2: "mapTasksDone c2" using md c2 by simp
    show ?thesis
    proof (cases e)
      case rdone: True
      have "c' = c2" "reply = Some AllDone" using fetch True rdone d e by (auto simp: FetchTask_def)
      then show ?thesis using ph2 md2 ec rdone by simp
    next
      case rdone: False
      show ?thesis
      proof (cases "fetchReduceTask c2")
        case (Some i)
        note i = fetchReduceTask_spec(1) [OF t2 Some]
        have "c' = reduceTaskStarted i c2" "reply = Some (GiveReduce (ReduceTasks c' ! i))"
          using fetch True rdone Some d e by (auto simp: FetchTask_def Let_def)
        then show ?thesis
          using keeps_phase_trans [OF ph2 reduceTaskStarted_phase [OF inv2 md2]] started_nth(2) [OF t2] i md2 by simp
      next
        case None
        have "c' = c2\<lparr>sleeping := Suc (sleeping c2)\<rparr>" "reply = None"
          using fetch True rdone None d e by (auto simp: FetchTask_def)
        moreover have "\<exists>i < n. reduce_state c2 i \<noteq> FINISHED" using open_task rdone c2 by simp
        ultimately show ?thesis
          using keeps_phase_trans [OF ph2 wait_phase [OF inv2]] fetchReduceTask_spec(2) [OF t2 None] md2 by simp
      qed
    qed
  qed
qed

section \<open>The invariant of the job\<close>

text \<open>
  Only tasks of the job are handed out, and reduce tasks only after all map tasks; whatever
  file or output is there has the right contents; a finished task's files are there.
\<close>

definition job_inv :: "(string \<rightharpoonup> string) \<Rightarrow> (string \<Rightarrow> string \<Rightarrow> KeyValue list) \<Rightarrow> (string \<Rightarrow> string list \<Rightarrow> string) \<Rightarrow>
    (KeyValue list \<Rightarrow> KeyValue list) \<Rightarrow> string list \<Rightarrow> nat \<Rightarrow> job \<Rightarrow> bool" where
  "job_inv input mapf reducef srt inputs n j \<longleftrightarrow> coord_inv inputs n (jCoord j) \<and>
     jMaps j \<subseteq> {..<length inputs} \<and> jReduces j \<subseteq> {..<n} \<and> (jReduces j \<noteq> {} \<longrightarrow> mapTasksDone (jCoord j)) \<and>
     (\<forall>i < length inputs. \<forall>r < n. jFiles j (i, r) \<in> {None, Some (slice_of input mapf n (inputs ! i) r)}) \<and>
     (\<forall>i < length inputs. map_state (jCoord j) i = FINISHED \<longrightarrow> (\<forall>r < n. jFiles j (i, r) \<noteq> None)) \<and>
     (\<forall>r < n. jOuts j r \<in> {None, Some (reduce_output srt input mapf reducef inputs n r)}) \<and>
     (\<forall>r < n. reduce_state (jCoord j) r = FINISHED \<longrightarrow> jOuts j r \<noteq> None)"

lemma job_invD:
  assumes "job_inv input mapf reducef srt inputs n j"
  shows "coord_inv inputs n (jCoord j)" "i \<in> jMaps j \<Longrightarrow> i < length inputs" "r \<in> jReduces j \<Longrightarrow> r < n"
    "r \<in> jReduces j \<Longrightarrow> mapTasksDone (jCoord j)"
  using assms unfolding job_inv_def by auto

lemma job_inv_files_done:
  assumes "job_inv input mapf reducef srt inputs n j" and "mapTasksDone (jCoord j)"
  shows "files_done input mapf inputs n (jFiles j)"
  unfolding files_done_def
proof (intro allI impI)
  fix i r assume i: "i < length inputs" "r < n"
  have "map_state (jCoord j) i = FINISHED" using coord_invD(2) [OF job_invD(1) [OF assms(1)] assms(2) i(1)] .
  then show "jFiles j (i, r) = Some (slice_of input mapf n (inputs ! i) r)"
    using assms(1) i unfolding job_inv_def by blast
qed

text \<open>A step of the coordinator that finishes only tasks whose files are there keeps the invariant.\<close>

lemma job_inv_coord:
  assumes "job_inv input mapf reducef srt inputs n j" and "keeps_phase inputs n ms rs (jCoord j) c"
    and "\<forall>i \<in> ms. \<forall>r < n. jFiles j (i, r) \<noteq> None" and "\<forall>r \<in> rs. jOuts j r \<noteq> None"
  shows "job_inv input mapf reducef srt inputs n (j\<lparr>jCoord := c\<rparr>)"
proof -
  have maps: "\<forall>i < length inputs. map_state (jCoord j) i = FINISHED \<longrightarrow> (\<forall>r < n. jFiles j (i, r) \<noteq> None)"
    and reds: "\<forall>r < n. reduce_state (jCoord j) r = FINISHED \<longrightarrow> jOuts j r \<noteq> None"
    using assms(1) unfolding job_inv_def by simp_all
  have c: "coord_inv inputs n c" "mapTasksDone (jCoord j) \<longrightarrow> mapTasksDone c"
    and fm: "\<And>i. i < length inputs \<Longrightarrow> map_state c i = FINISHED \<Longrightarrow> map_state (jCoord j) i = FINISHED \<or> i \<in> ms"
    and fr: "\<And>r. r < n \<Longrightarrow> reduce_state c r = FINISHED \<Longrightarrow> reduce_state (jCoord j) r = FINISHED \<or> r \<in> rs"
    using assms(2) unfolding keeps_phase_def by simp_all
  have "\<forall>i < length inputs. map_state c i = FINISHED \<longrightarrow> (\<forall>r < n. jFiles j (i, r) \<noteq> None)"
    using maps fm assms(3) by meson
  moreover have "\<forall>r < n. reduce_state c r = FINISHED \<longrightarrow> jOuts j r \<noteq> None"
    using reds fr assms(4) by meson
  ultimately show ?thesis using assms(1) c unfolding job_inv_def by simp
qed

lemma job_inv_reply:
  assumes "job_inv input mapf reducef srt inputs n j" and "reply_ok inputs n (jCoord j) reply"
  shows "job_inv input mapf reducef srt inputs n (note_reply reply j)"
  using assms by (cases "(reply, j)" rule: note_reply.cases) (auto simp: job_inv_def)


lemma job_inv_start: "job_inv input mapf reducef srt inputs n (job_start inputs n)"
  using coord_inv_start [of inputs n] by (simp add: job_inv_def job_start_def MakeCoordinator_def)

lemma job_inv_map_write:
  assumes "0 < n" and inv: "job_inv input mapf reducef srt inputs n j" and i: "i \<in> jMaps j"
    and omap: "map_slices input mapf (MapTasks (jCoord j) ! i) = Inr omap" and r: "r < length omap"
  shows "job_inv input mapf reducef srt inputs n (j\<lparr>jFiles := (jFiles j)((i, r) \<mapsto> map json_pair (omap ! r))\<rparr>)"
proof -
  let ?t = "MapTasks (jCoord j) ! i"
  have t: "mtFileName ?t = inputs ! i" "mtNReduce ?t = n"
    using coord_invD(1) [OF job_invD(1) [OF inv]] job_invD(2) [OF inv i] by (simp_all add: tasks_ok_def)
  have "input (mtFileName ?t) \<noteq> None" using omap by (auto simp: map_slices_def split: option.splits)
  with map_slices_spec [of ?t input mapf] omap r assms(1) t
  have "r < n" "map json_pair (omap ! r) = slice_of input mapf n (inputs ! i) r" by auto
  then show ?thesis using inv unfolding job_inv_def by auto
qed

lemma job_inv_reduce_write:
  assumes inv: "job_inv input mapf reducef srt inputs n j" and r: "r \<in> jReduces j"
    and out: "doReduceTask srt reducef (ReduceTasks (jCoord j) ! r) (jFiles j) = Inr out"
  shows "job_inv input mapf reducef srt inputs n (j\<lparr>jOuts := (jOuts j)(r \<mapsto> out)\<rparr>)"
proof -
  let ?t = "ReduceTasks (jCoord j) ! r"
  have t: "rtId ?t = r" "rtNMap ?t = length inputs"
    using coord_invD(1) [OF job_invD(1) [OF inv]] job_invD(3) [OF inv r] by (simp_all add: tasks_ok_def)
  have "out = reduce_output srt input mapf reducef inputs n r"
    using doReduceTask_done [OF job_inv_files_done [OF inv job_invD(4) [OF inv r]], of ?t] job_invD(3) [OF inv r] t out by simp
  then show ?thesis using inv unfolding job_inv_def by auto
qed

lemma mr_run_inv:
  assumes "mr_run input mapf reducef srt inputs n j" and n: "0 < n"
  shows "job_inv input mapf reducef srt inputs n j"
  using assms(1)
proof induction
  case start
  show ?case by (rule job_inv_start)
next
  case (fetch j reply c)
  note f = FetchTask_phase [OF job_invD(1) [OF fetch.IH] fetch.hyps(2)]
  show ?case by (rule job_inv_reply [OF job_inv_coord [OF fetch.IH]]) (use f in auto)
next
  case (map_timer j i)
  have "i < length inputs" using map_timer.hyps(2) job_invD(1) [OF map_timer.IH] unfolding coord_inv_def by auto
  from mapTimer_phase [OF job_invD(1) [OF map_timer.IH] this] show ?case by (rule job_inv_coord [OF map_timer.IH]) simp_all
next
  case (reduce_timer j i)
  have "i < n" using reduce_timer.hyps(2) job_invD(1) [OF reduce_timer.IH] unfolding coord_inv_def by auto
  from reduceTimer_phase [OF job_invD(1) [OF reduce_timer.IH] this] show ?case by (rule job_inv_coord [OF reduce_timer.IH]) simp_all
next
  case (map_write j i omap r)
  show ?case by (rule job_inv_map_write [OF n map_write.IH map_write.hyps(2-4)])
next
  case (map_finish j i c)
  obtain c' where c': "MapTaskFinished (int i) (jCoord j) = Inr c'" "keeps_phase inputs n {i} {} (jCoord j) c'"
    using MapTaskFinished_phase [OF job_invD(1) [OF map_finish.IH] job_invD(2) [OF map_finish.IH map_finish.hyps(2)]] by blast
  then have "c' = c" using map_finish.hyps(4) by simp
  with c' show ?case by (intro job_inv_coord [OF map_finish.IH]) (use map_finish.hyps(3) in auto)
next
  case (reduce_write j r out)
  show ?case by (rule job_inv_reduce_write [OF reduce_write.IH reduce_write.hyps(2,3)])
next
  case (reduce_finish j r c)
  obtain c' where c': "ReduceTaskFinished (int r) (jCoord j) = Inr c'" "keeps_phase inputs n {} {r} (jCoord j) c'"
    using ReduceTaskFinished_phase [OF job_invD(1) [OF reduce_finish.IH] job_invD(3) [OF reduce_finish.IH reduce_finish.hyps(2)]] by blast
  then have "c' = c" using reduce_finish.hyps(4) by simp
  with c' show ?case by (intro job_inv_coord [OF reduce_finish.IH]) (use reduce_finish.hyps(3) in auto)
next
  case (poll j b c)
  show ?case by (rule job_inv_coord [OF poll.IH Done_phase [OF job_invD(1) [OF poll.IH] poll.hyps(2)]]) simp_all
qed

lemma job_done_outputs:
  assumes "job_inv input mapf reducef srt inputs n j" and "fst (Done_job (jCoord j)) \<or> fst (FetchTask (jCoord j)) = Some AllDone"
    and "r < n"
  shows "jOuts j r = Some (reduce_output srt input mapf reducef inputs n r)"
proof -
  note inv = job_invD(1) [OF assms(1)]
  have "reduce_state (jCoord j) r = FINISHED"
  proof (cases "fst (Done_job (jCoord j))")
    case True
    then show ?thesis using Done_job_spec [OF coord_invD(1) [OF inv]] coord_invD(3) [OF inv _ assms(3)] assms(3)
      by (auto simp: Let_def)
  next
    case False
    obtain reply c where f: "FetchTask (jCoord j) = (reply, c)" by (metis surj_pair)
    then have "keeps_phase inputs n {} {} (jCoord j) c" "allDone c"
      using FetchTask_phase [OF inv f] assms(2) False by auto
    then show ?thesis using coord_invD(3) [of inputs n c] assms(3) unfolding keeps_phase_def by blast
  qed
  then show ?thesis using assms(1,3) unfolding job_inv_def by blast
qed


lemma sleeping_has_timer:
  assumes "coord_inv inputs n c" and "0 < sleeping c"
  shows "if mapTasksDone c then \<exists>r < n. r \<in> set (reduceTimers c) \<and> reduce_state c r = STARTED
    else \<exists>i < length inputs. i \<in> set (mapTimers c) \<and> map_state c i = STARTED"
proof (cases "mapTasksDone c")
  case True
  then obtain r where "r < n" "reduce_state c r \<noteq> WAITTING" "reduce_state c r \<noteq> FINISHED"
    using assms unfolding coord_inv_def by auto
  then have "r < n" "reduce_state c r = STARTED" using TaskState.exhaust by blast+
  then show ?thesis using True coord_invD(5) [OF assms(1)] by auto
next
  case False
  then obtain i where "i < length inputs" "map_state c i \<noteq> WAITTING" "map_state c i \<noteq> FINISHED"
    using assms unfolding coord_inv_def by auto
  then have "i < length inputs" "map_state c i = STARTED" using TaskState.exhaust by blast+
  then show ?thesis using False coord_invD(4) [OF assms(1)] by auto
qed

lemma FetchTask_map:
  assumes t: "tasks_ok inputs n c" and "\<not> mapTasksDone c" and "i < length inputs" and "map_state c i = WAITTING"
    and "\<And>k. k < length inputs \<Longrightarrow> k \<noteq> i \<Longrightarrow> map_state c k \<noteq> WAITTING"
  shows "FetchTask c = (Some (GiveMap (MapTasks (mapTaskStarted i c) ! i)), mapTaskStarted i c)"
proof -
  have "fetchMapTask c = Some i" using fetchMapTask_spec [OF t] assms(3-5) by (metis not_None_eq)
  moreover have "\<exists>t \<in> set (MapTasks c). mtState t \<noteq> FINISHED"
    unfolding bex_set_nth using t assms(3,4) by (intro exI [of _ i]) (simp add: tasks_ok_def)
  then have "MapTasksDone c = (False, c)" using assms(2) by (simp add: MapTasksDone_def)
  ultimately show ?thesis by (simp add: FetchTask_def Let_def)
qed

lemma FetchTask_reduce:
  assumes t: "tasks_ok inputs n c" and "mapTasksDone c" and "\<not> allDone c" and "r < n" and "reduce_state c r = WAITTING"
    and "\<And>k. k < n \<Longrightarrow> k \<noteq> r \<Longrightarrow> reduce_state c k \<noteq> WAITTING"
  shows "FetchTask c = (Some (GiveReduce (ReduceTasks (reduceTaskStarted r c) ! r)), reduceTaskStarted r c)"
proof -
  have "fetchReduceTask c = Some r" using fetchReduceTask_spec [OF t] assms(4-6) by (metis not_None_eq)
  moreover have "\<exists>t \<in> set (ReduceTasks c). rtState t \<noteq> FINISHED"
    unfolding bex_set_nth using t assms(4,5) by (intro exI [of _ r]) (simp add: tasks_ok_def)
  then have "Done_job c = (False, c)" using assms(3) by (simp add: Done_job_def)
  moreover have "MapTasksDone c = (True, c)" using assms(2) by (simp add: MapTasksDone_def)
  ultimately show ?thesis by (simp add: FetchTask_def Let_def)
qed

text \<open>When the timer of the only task worth waiting for goes off, the next worker gets that task.\<close>

lemma map_timer_hands_out:
  assumes inv: "coord_inv inputs n c" and "0 < sleeping c" and "\<not> mapTasksDone c" and i: "i < length inputs" and "map_state c i = STARTED"
  shows "sleeping (mapTimer i c) = 0 \<and> (\<exists>t c'. FetchTask (mapTimer i c) = (Some (GiveMap t), c') \<and> mtId t = i)"
proof -
  let ?c1 = "c\<lparr>mapTimers := remove1 i (mapTimers c)\<rparr>" and ?c = "mapTimer i c"
  have t1: "tasks_ok inputs n ?c1" using coord_invD(1) [OF inv] by simp
  have c: "?c = Broadcast (setMapState i WAITTING ?c1)" using assms(5) by (simp add: mapTimer_def Let_def)
  have t: "tasks_ok inputs n ?c" using mapTimer_phase [OF inv i] unfolding keeps_phase_def coord_inv_def by blast
  have "map_state ?c k = (if k = i then WAITTING else map_state c k)" for k
    using set_state_nth(1) [OF t1 i, of WAITTING] by (simp add: c Broadcast_def)
  moreover have "k < length inputs \<Longrightarrow> map_state c k \<noteq> WAITTING" for k using inv assms(2,3) unfolding coord_inv_def by auto
  ultimately have "FetchTask ?c = (Some (GiveMap (MapTasks (mapTaskStarted i ?c) ! i)), mapTaskStarted i ?c)"
    by (intro FetchTask_map [OF t _ i]) (use assms(3) in \<open>simp_all add: c Broadcast_def\<close>)
  moreover have "mtId (MapTasks (mapTaskStarted i ?c) ! i) = i" using started_nth(1) [OF t i] by blast
  ultimately show ?thesis by (simp add: c Broadcast_def)
qed

lemma reduce_timer_hands_out:
  assumes inv: "coord_inv inputs n c" and "0 < sleeping c" and "mapTasksDone c" and r: "r < n" and "reduce_state c r = STARTED"
  shows "sleeping (reduceTimer r c) = 0 \<and> (\<exists>t c'. FetchTask (reduceTimer r c) = (Some (GiveReduce t), c') \<and> rtId t = r)"
proof -
  let ?c1 = "c\<lparr>reduceTimers := remove1 r (reduceTimers c)\<rparr>" and ?c = "reduceTimer r c"
  have t1: "tasks_ok inputs n ?c1" using coord_invD(1) [OF inv] by simp
  have c: "?c = Broadcast (setReduceState r WAITTING ?c1)" using assms(5) by (simp add: reduceTimer_def Let_def)
  have t: "tasks_ok inputs n ?c" using reduceTimer_phase [OF inv r] unfolding keeps_phase_def coord_inv_def by blast
  have "reduce_state ?c k = (if k = r then WAITTING else reduce_state c k)" for k
    using set_state_nth(2) [OF t1 r, of WAITTING] by (simp add: c Broadcast_def)
  moreover have "k < n \<Longrightarrow> reduce_state c k \<noteq> WAITTING" for k using inv assms(2,3) unfolding coord_inv_def by auto
  moreover have "\<not> allDone c" using coord_invD(3) [OF inv _ r] assms(5) by auto
  ultimately have "FetchTask ?c = (Some (GiveReduce (ReduceTasks (reduceTaskStarted r ?c) ! r)), reduceTaskStarted r ?c)"
    by (intro FetchTask_reduce [OF t _ _ r]) (use assms(3) in \<open>simp_all add: c Broadcast_def\<close>)
  moreover have "rtId (ReduceTasks (reduceTaskStarted r ?c) ! r) = r" using started_nth(2) [OF t r] by blast
  ultimately show ?thesis by (simp add: c Broadcast_def)
qed

section \<open>A sample job\<close>

text \<open>One file, one reduce task, one word; the sort is the library's.\<close>

definition sample_map :: "string \<Rightarrow> string \<Rightarrow> KeyValue list" where
  "sample_map f content = [\<lparr>kKey = content, kVal = ''1''\<rparr>]"

definition sample_reduce :: "string \<Rightarrow> string list \<Rightarrow> string" where
  "sample_reduce k vs = concat (replicate (length vs) ''1'')"

lemma sample_ok: "is_sort (sort_key kKey)" "order_free sample_reduce"
  by (auto simp: is_sort_def order_free_def sample_reduce_def dest: mset_eq_length)


abbreviation sample_input :: "string \<rightharpoonup> string" where
  "sample_input \<equiv> [''f'' \<mapsto> ''a'']"

abbreviation sample_run :: "(string \<Rightarrow> string \<Rightarrow> KeyValue list) \<Rightarrow> (string \<Rightarrow> string list \<Rightarrow> string) \<Rightarrow> job \<Rightarrow> bool" where
  "sample_run mapf reducef \<equiv> mr_run sample_input mapf reducef (sort_key kKey) [''f''] 1"

text \<open>A second worker asks while the map task is running, and sleeps.\<close>

definition sample_sleep :: job where
  "sample_sleep = \<lparr>jCoord = \<lparr>mapTasksDone = False, allDone = False,
       MapTasks = [\<lparr>mtId = 0, mtFileName = ''f'', mtNReduce = 1, mtState = STARTED\<rparr>],
       ReduceTasks = [\<lparr>rtId = 0, rtNMap = 1, rtState = WAITTING\<rparr>], mapTimers = [0], reduceTimers = [], sleeping = 1\<rparr>,
     jFiles = Map.empty, jOuts = Map.empty, jMaps = {0}, jReduces = {}\<rparr>"

lemmas coord_eval = FetchTask_def MapTasksDone_def Done_job_def fetchMapTask_def fetchReduceTask_def mapTaskStarted_def
  reduceTaskStarted_def setMapState_def setReduceState_def MapTaskFinished_def ReduceTaskFinished_def Broadcast_def Let_def

lemma sample_sleep_run: "sample_run mapf reducef sample_sleep"
proof -
  have s: "job_start [''f''] 1 = \<lparr>jCoord = \<lparr>mapTasksDone = False, allDone = False,
       MapTasks = [\<lparr>mtId = 0, mtFileName = ''f'', mtNReduce = 1, mtState = WAITTING\<rparr>],
       ReduceTasks = [\<lparr>rtId = 0, rtNMap = 1, rtState = WAITTING\<rparr>], mapTimers = [], reduceTimers = [], sleeping = 0\<rparr>,
     jFiles = Map.empty, jOuts = Map.empty, jMaps = {}, jReduces = {}\<rparr>"
    by (simp add: job_start_def MakeCoordinator_def)
  from mr_run.fetch [OF mr_run.start [of sample_input mapf reducef "sort_key kKey" "[''f'']" 1, unfolded s] surjective_pairing]
  have "sample_run mapf reducef (sample_sleep\<lparr>jCoord := (jCoord sample_sleep)\<lparr>sleeping := 0\<rparr>\<rparr>)"
    by (simp add: sample_sleep_def coord_eval)
  from mr_run.fetch [OF this surjective_pairing] show ?thesis by (simp add: sample_sleep_def coord_eval)
qed

text \<open>The map task wrote one pair with the value \<^verbatim>\<open>v\<close>; the reduce task wrote the result \<^verbatim>\<open>w\<close>.\<close>

definition sample_mapped :: "string \<Rightarrow> job" where
  "sample_mapped v = \<lparr>jCoord = \<lparr>mapTasksDone = True, allDone = False,
       MapTasks = [\<lparr>mtId = 0, mtFileName = ''f'', mtNReduce = 1, mtState = FINISHED\<rparr>],
       ReduceTasks = [\<lparr>rtId = 0, rtNMap = 1, rtState = STARTED\<rparr>], mapTimers = [0], reduceTimers = [0], sleeping = 0\<rparr>,
     jFiles = [(0, 0) \<mapsto> [\<lparr>kKey = ''a'', kVal = v\<rparr>]], jOuts = Map.empty, jMaps = {0}, jReduces = {0}\<rparr>"

definition sample_done :: "string \<Rightarrow> string \<Rightarrow> job" where
  "sample_done v w = (sample_mapped v)\<lparr>jOuts := [0 \<mapsto> [''a '' @ w @ [CHR 0x0A]]],
     jCoord := (jCoord (sample_mapped v))\<lparr>allDone := True, ReduceTasks := [\<lparr>rtId = 0, rtNMap = 1, rtState = FINISHED\<rparr>]\<rparr>\<rparr>"

lemma valid_a: "valid_utf8 ''a''" "valid_utf8 ''1''"
  by (simp_all add: ascii_valid)

lemma sample_mapped_run:
  assumes "mapf ''f'' ''a'' = [\<lparr>kKey = ''a'', kVal = v\<rparr>]" and v: "valid_utf8 v"
  shows "sample_run mapf reducef (sample_mapped v)"
proof -
  have "map_slices sample_input mapf (MapTasks (jCoord sample_sleep) ! 0) = Inr [[\<lparr>kKey = ''a'', kVal = v\<rparr>]]"
    by (simp add: sample_sleep_def map_slices_def assms Let_def go_slice)
  from mr_run.map_write [OF sample_sleep_run _ this, of 0]
  have w: "sample_run mapf reducef (sample_sleep\<lparr>jFiles := [(0, 0) \<mapsto> [\<lparr>kKey = ''a'', kVal = v\<rparr>]]\<rparr>)"
    using v valid_a(1) by (simp add: sample_sleep_def json_pair_def json_string_valid)
  have "MapTaskFinished (int 0) (jCoord sample_sleep) =
      Inr ((jCoord sample_sleep)\<lparr>mapTasksDone := True, MapTasks := MapTasks (jCoord (sample_mapped v)), sleeping := 0\<rparr>)"
    by (simp add: sample_sleep_def sample_mapped_def coord_eval go_slice)
  with mr_run.map_finish [OF w, of 0]
  have "sample_run mapf reducef (sample_sleep\<lparr>jFiles := jFiles (sample_mapped v),
      jCoord := (jCoord sample_sleep)\<lparr>mapTasksDone := True, MapTasks := MapTasks (jCoord (sample_mapped v)), sleeping := 0\<rparr>\<rparr>)"
    by (simp add: sample_sleep_def sample_mapped_def)
  from mr_run.fetch [OF this surjective_pairing] show ?thesis by (simp add: sample_sleep_def sample_mapped_def coord_eval)
qed

lemma sample_done_run:
  assumes "mapf ''f'' ''a'' = [\<lparr>kKey = ''a'', kVal = v\<rparr>]" and "reducef ''a'' [v] = w" and "valid_utf8 v"
  shows "sample_run mapf reducef (sample_done v w)"
proof -
  have "doReduceTask (sort_key kKey) reducef (ReduceTasks (jCoord (sample_mapped v)) ! 0) (jFiles (sample_mapped v)) = Inr [''a '' @ w @ [CHR 0x0A]]"
    by (simp add: sample_mapped_def doReduceTask_def assms out_line_def Let_def)
  from mr_run.reduce_write [OF sample_mapped_run [where mapf = mapf and reducef = reducef and v = v, OF assms(1,3)] _ this]
  have w: "sample_run mapf reducef ((sample_mapped v)\<lparr>jOuts := [0 \<mapsto> [''a '' @ w @ [CHR 0x0A]]]\<rparr>)" by (simp add: sample_mapped_def)
  have "ReduceTaskFinished (int 0) (jCoord (sample_mapped v)) =
      Inr ((jCoord (sample_mapped v))\<lparr>allDone := True, ReduceTasks := [\<lparr>rtId = 0, rtNMap = 1, rtState = FINISHED\<rparr>]\<rparr>)"
    by (simp add: sample_mapped_def coord_eval go_slice)
  with mr_run.reduce_finish [OF w, of 0] show ?thesis by (simp add: sample_mapped_def sample_done_def)
qed

text \<open>The output of a job that is done, as a function of the bag of intermediate pairs.\<close>

lemma job_output:
  assumes "mr_run input mapf reducef srt inputs n j" and "0 < n" and "is_sort srt" and "order_free reducef"
    and "\<forall>f \<in> set inputs. input f \<noteq> None" and "writes_utf8 input mapf inputs"
    and "fst (Done_job (jCoord j)) \<or> fst (FetchTask (jCoord j)) = Some AllDone"
  shows "\<forall>r < n. jOuts j r \<noteq> None"
    "\<exists>out. mrsequential srt input mapf reducef inputs = Inr out \<and> (\<Sum>r < n. mset (the (jOuts j r))) = mset out \<and>
       mset out = reduced reducef (mset (concat (map (\<lambda>f. mapf f (the (input f))) inputs)))"
proof -
  note outs = job_done_outputs [OF mr_run_inv [OF assms(1,2)] assms(7)]
  show "\<forall>r < n. jOuts j r \<noteq> None" using outs by simp
  have "(\<Sum>r < n. mset (the (jOuts j r))) = (\<Sum>r < n. mset (reduce_output srt input mapf reducef inputs n r))"
    by (rule sum.cong) (simp_all add: outs)
  then show "\<exists>out. mrsequential srt input mapf reducef inputs = Inr out \<and> (\<Sum>r < n. mset (the (jOuts j r))) = mset out \<and>
       mset out = reduced reducef (mset (concat (map (\<lambda>f. mapf f (the (input f))) inputs)))"
    using outputs_equal_sequential [OF assms(2-6)] by metis
qed

section \<open>Properties\<close>

text \<open>
  C6: The distributed job computes what the sequential program computes. Let the input files
  exist, the reduce function not depend on the order of the values, the keys and values of
  the map function be valid UTF-8 (the intermediate files are JSON), and let there be a reduce
  task. Workers may run a task any number of times, stop at any point and report late, and
  timers hand tasks out again; still, once the coordinator is done (\<^verbatim>\<open>Done\<close> is true, or \<^verbatim>\<open>FetchTask\<close>
  sends a worker home), every reduce task's output file is there, and together the files hold
  exactly the lines that \<^verbatim>\<open>mrsequential\<close> writes.
\<close>

theorem mapreduce_equals_sequential:
  assumes "mr_run input mapf reducef srt inputs n j" and "0 < n" and "is_sort srt" and "order_free reducef"
    and "\<forall>f \<in> set inputs. input f \<noteq> None" and "writes_utf8 input mapf inputs"
    and "fst (Done_job (jCoord j)) \<or> fst (FetchTask (jCoord j)) = Some AllDone"
  shows "\<exists>out. mrsequential srt input mapf reducef inputs = Inr out \<and> (\<forall>r < n. jOuts j r \<noteq> None) \<and>
    (\<Sum>r < n. mset (the (jOuts j r))) = mset out"
  using job_output [OF assms] by blast

theorem mapreduce_equals_sequential_witness:
  "\<exists>out. mrsequential (sort_key kKey) sample_input sample_map sample_reduce [''f''] = Inr out \<and>
     (\<Sum>r < (1 :: nat). mset (the (jOuts (sample_done ''1'' ''1'') r))) = mset out"
proof -
  have "fst (Done_job (jCoord (sample_done ''1'' ''1'')))" by (simp add: sample_done_def sample_mapped_def coord_eval)
  moreover have "writes_utf8 sample_input sample_map [''f'']" by (simp add: writes_utf8_def sample_map_def valid_a)
  ultimately show ?thesis
    using mapreduce_equals_sequential [OF sample_done_run [of sample_map "''1''" sample_reduce "''1''"] _ sample_ok]
    by (auto simp: sample_map_def sample_reduce_def valid_a)
qed

text \<open>
  C22: The job never stalls. Whenever a worker sleeps in \<^verbatim>\<open>FetchTask\<close>, some task of the current
  phase is started and its recovery timer is still running; when that timer goes off, all
  sleeping workers are woken and the next \<^verbatim>\<open>FetchTask\<close> hands out that task. Reports of finished
  tasks never panic.
\<close>

theorem coordinator_never_stalls:
  assumes "mr_run input mapf reducef srt inputs n j" and "0 < n" and "c = jCoord j"
  shows "(0 < sleeping c \<and> \<not> mapTasksDone c \<longrightarrow>
      (\<exists>i \<in> set (mapTimers c). sleeping (mapTimer i c) = 0 \<and> (\<exists>t c'. FetchTask (mapTimer i c) = (Some (GiveMap t), c') \<and> mtId t = i))) \<and>
    (0 < sleeping c \<and> mapTasksDone c \<longrightarrow>
      (\<exists>r \<in> set (reduceTimers c). sleeping (reduceTimer r c) = 0 \<and> (\<exists>t c'. FetchTask (reduceTimer r c) = (Some (GiveReduce t), c') \<and> rtId t = r))) \<and>
    (\<forall>i \<in> jMaps j. \<exists>c'. MapTaskFinished (int i) c = Inr c') \<and> (\<forall>r \<in> jReduces j. \<exists>c'. ReduceTaskFinished (int r) c = Inr c')"
proof -
  note jinv = mr_run_inv [OF assms(1,2)]
  have inv: "coord_inv inputs n c" using job_invD(1) [OF jinv] assms(3) by simp
  show ?thesis
  proof (intro conjI impI ballI)
    assume "0 < sleeping c \<and> \<not> mapTasksDone c"
    then show "\<exists>i \<in> set (mapTimers c). sleeping (mapTimer i c) = 0 \<and> (\<exists>t c'. FetchTask (mapTimer i c) = (Some (GiveMap t), c') \<and> mtId t = i)"
      using sleeping_has_timer [OF inv] map_timer_hands_out [OF inv] by (metis (full_types))
  next
    assume "0 < sleeping c \<and> mapTasksDone c"
    then show "\<exists>r \<in> set (reduceTimers c). sleeping (reduceTimer r c) = 0 \<and> (\<exists>t c'. FetchTask (reduceTimer r c) = (Some (GiveReduce t), c') \<and> rtId t = r)"
      using sleeping_has_timer [OF inv] reduce_timer_hands_out [OF inv] by (metis (full_types))
  next
    fix i assume "i \<in> jMaps j"
    then show "\<exists>c'. MapTaskFinished (int i) c = Inr c'" using MapTaskFinished_phase [OF inv job_invD(2) [OF jinv]] by blast
  next
    fix r assume "r \<in> jReduces j"
    then show "\<exists>c'. ReduceTaskFinished (int r) c = Inr c'" using ReduceTaskFinished_phase [OF inv job_invD(3) [OF jinv]] by blast
  qed
qed

theorem coordinator_never_stalls_witness:
  "sleeping (mapTimer 0 (jCoord sample_sleep)) = 0"
  using coordinator_never_stalls [OF sample_sleep_run _ refl] by (simp add: sample_sleep_def)

end
