(* ===== verification/MR_Apps.thy ===== *)
theory MR_Apps
  imports MR_Coordinator
begin

text \<open>
  The MapReduce applications in \<^verbatim>\<open>mrapps/\<close>: word count, the indexer, and the applications that test crashes and early exits, with
  what their jobs write. Strings are lists of bytes; \<^verbatim>\<open>unicode.IsLetter\<close> is an argument, on the bytes of one rune. A crash or a
  delay inside \<^verbatim>\<open>Map\<close> or \<^verbatim>\<open>Reduce\<close> is a worker that stops or is slow, which the model of the job has
  anyway. \<^verbatim>\<open>jobcount.go\<close> and the timing functions look at the files and processes of the machine and are left out.
\<close>

section \<open>Strings\<close>

text \<open>\<^verbatim>\<open>strings.FieldsFunc\<close>: \<^verbatim>\<open>cur\<close> is the field that has begun.\<close>

fun fields_loop :: "(string \<Rightarrow> bool) \<Rightarrow> string \<Rightarrow> string list \<Rightarrow> string list" where
  "fields_loop f cur [] = (if cur = [] then [] else [cur])"
| "fields_loop f cur (r # rs) =
     (if f r then (if cur = [] then fields_loop f [] rs else cur # fields_loop f [] rs)
      else fields_loop f (cur @ r) rs)"

definition FieldsFunc :: "string \<Rightarrow> (string \<Rightarrow> bool) \<Rightarrow> string list" where
  "FieldsFunc s f = fields_loop f [] (runes s)"

text \<open>\<^verbatim>\<open>strconv.Itoa\<close> of a number that is not negative, and \<^verbatim>\<open>strings.Join\<close>.\<close>

fun Itoa :: "nat \<Rightarrow> string" where
  "Itoa n = (if n < 10 then [char_of (48 + n)] else Itoa (n div 10) @ [char_of (48 + n mod 10)])"

declare Itoa.simps [simp del]

fun Join :: "string list \<Rightarrow> string \<Rightarrow> string" where
  "Join [] sep = ''''"
| "Join [s] sep = s"
| "Join (s # ss) sep = s @ sep @ Join ss sep"

section \<open>Applications\<close>

definition wc_Map :: "(string \<Rightarrow> bool) \<Rightarrow> string \<Rightarrow> string \<Rightarrow> KeyValue list" where
  "wc_Map isLetter filename contents =
     (let words = FieldsFunc contents (\<lambda>r. \<not> isLetter r) in map (\<lambda>w. \<lparr>kKey = w, kVal = ''1''\<rparr>) words)"

definition wc_Reduce :: "string \<Rightarrow> string list \<Rightarrow> string" where
  "wc_Reduce key values = Itoa (length values)"

text \<open>The indexer iterates over a map; \<^verbatim>\<open>ord\<close> is the order of the iteration.\<close>

definition indexer_Map :: "(string list \<Rightarrow> string list) \<Rightarrow> (string \<Rightarrow> bool) \<Rightarrow> string \<Rightarrow> string \<Rightarrow> KeyValue list" where
  "indexer_Map ord isLetter document contents =
     (let words = FieldsFunc contents (\<lambda>r. \<not> isLetter r) in map (\<lambda>w. \<lparr>kKey = w, kVal = document\<rparr>) (ord (remdups words)))"

definition indexer_Reduce :: "string \<Rightarrow> string list \<Rightarrow> string" where
  "indexer_Reduce key values = (let sorted = sort values in Itoa (length sorted) @ '' '' @ Join sorted '','')"

definition crash_Map :: "string \<Rightarrow> string \<Rightarrow> KeyValue list" where
  "crash_Map filename contents =
     [\<lparr>kKey = ''a'', kVal = filename\<rparr>, \<lparr>kKey = ''b'', kVal = Itoa (length filename)\<rparr>,
      \<lparr>kKey = ''c'', kVal = Itoa (length contents)\<rparr>, \<lparr>kKey = ''d'', kVal = ''xyzzy''\<rparr>]"

definition crash_Reduce :: "string \<Rightarrow> string list \<Rightarrow> string" where
  "crash_Reduce key values = Join (sort values) '' ''"

definition early_exit_Map :: "string \<Rightarrow> string \<Rightarrow> KeyValue list" where
  "early_exit_Map filename contents = [\<lparr>kKey = filename, kVal = ''1''\<rparr>]"

definition early_exit_Reduce :: "string \<Rightarrow> string list \<Rightarrow> string" where
  "early_exit_Reduce key values = Itoa (length values)"

text \<open>\<^verbatim>\<open>Itoa\<close> writes decimals: reading the digits gives the number back.\<close>

lemma Itoa_roundtrip: "foldl (\<lambda>n c. 10 * n + (of_char c - 48)) 0 (Itoa n) = (n :: nat)"
proof (induction n rule: Itoa.induct)
  case (1 n)
  have "of_char (char_of (48 + d)) - 48 = (d :: nat)" if "d < 10" for d using that by simp
  then show ?case using 1 by (simp add: Itoa.simps [of n])
qed

section \<open>Words\<close>

text \<open>The runs of elements that satisfy a predicate, as a specification: what is between two separators, if it is not empty.\<close>

function runs :: "('a \<Rightarrow> bool) \<Rightarrow> 'a list \<Rightarrow> 'a list list" where
  "runs P xs =
     (let ys = dropWhile (\<lambda>x. \<not> P x) xs in
      if ys = [] then [] else takeWhile P ys # runs P (dropWhile P ys))"
  by pat_completeness auto
termination
proof (relation "measure (\<lambda>(P, xs). length xs)")
  fix P and xs ys :: "'a list"
  assume h: "ys = dropWhile (\<lambda>x. \<not> P x) xs" "ys \<noteq> []"
  then have "P (hd ys)" using hd_dropWhile [of "\<lambda>x. \<not> P x" xs] by auto
  then have "length (dropWhile P ys) < length ys" using h(2) by (cases ys) (auto intro: le_imp_less_Suc length_dropWhile_le)
  also have "\<dots> \<le> length xs" using h(1) length_dropWhile_le by blast
  finally show "((P, dropWhile P ys), (P, xs)) \<in> measure (\<lambda>(P, xs). length xs)" by simp
qed simp

declare runs.simps [simp del]

lemma fields_loop_cur:
  assumes "\<forall>r \<in> set rs. r \<noteq> []" and "cur \<noteq> []"
  shows "fields_loop f cur rs = (cur @ concat (takeWhile (\<lambda>r. \<not> f r) rs)) # fields_loop f [] (dropWhile (\<lambda>r. \<not> f r) rs)"
  using assms by (induction rs arbitrary: cur) auto

lemma fields_loop_skip: "fields_loop f [] rs = fields_loop f [] (dropWhile f rs)"
  by (induction rs) auto

lemma fields_loop_runs:
  "\<forall>r \<in> set rs. r \<noteq> [] \<Longrightarrow> fields_loop f [] rs = map concat (runs (\<lambda>r. \<not> f r) rs)"
proof (induction "\<lambda>r. \<not> f r" rs rule: runs.induct)
  case (1 rs)
  let ?ys = "dropWhile f rs"
  show ?case
  proof (cases ?ys)
    case Nil
    have "fields_loop f [] rs = []" unfolding fields_loop_skip [of f rs] Nil by simp
    then show ?thesis using Nil by (simp add: runs.simps [of _ rs])
  next
    case (Cons r ys)
    have f: "\<not> f r" using hd_dropWhile [of f rs] Cons by auto
    have ne: "\<forall>r \<in> set ?ys. r \<noteq> []" using 1(2) set_dropWhileD by fast
    then have "fields_loop f [] ?ys = concat (takeWhile (\<lambda>r. \<not> f r) ?ys) # fields_loop f [] (dropWhile (\<lambda>r. \<not> f r) ?ys)"
      using Cons f fields_loop_cur [of ys r f] by simp
    moreover have "fields_loop f [] (dropWhile (\<lambda>r. \<not> f r) ?ys) = map concat (runs (\<lambda>r. \<not> f r) (dropWhile (\<lambda>r. \<not> f r) ?ys))"
      using 1(1) [of ?ys] ne Cons set_dropWhileD by (metis (no_types, lifting) dropWhile_cong list.distinct(1))
    ultimately show ?thesis using fields_loop_skip [of f rs] Cons by (simp add: runs.simps [of _ rs] Let_def)
  qed
qed

text \<open>The words of a text: its maximal runs of letters.\<close>

definition words_of :: "(string \<Rightarrow> bool) \<Rightarrow> string \<Rightarrow> string list" where
  "words_of isLetter s = map concat (runs isLetter (runes s))"

lemma FieldsFunc_words: "FieldsFunc s (\<lambda>r. \<not> isLetter r) = words_of isLetter s"
  using fields_loop_runs [of "runes s" "\<lambda>r. \<not> isLetter r"] runes_nonempty by (auto simp: FieldsFunc_def words_of_def)

lemma runs_subset: "ws \<in> set (runs P xs) \<Longrightarrow> w \<in> set ws \<Longrightarrow> P w \<and> w \<in> set xs"
proof (induction P xs rule: runs.induct)
  case (1 P xs)
  define ys where "ys = dropWhile (\<lambda>x. \<not> P x) xs"
  have u: "runs P xs = (if ys = [] then [] else takeWhile P ys # runs P (dropWhile P ys))"
    unfolding ys_def by (subst runs.simps) (simp only: Let_def)
  have sub: "set (dropWhile P ys) \<subseteq> set ys" "set ys \<subseteq> set xs" unfolding ys_def by (meson set_dropWhileD subsetI)+
  have ne: "ys \<noteq> []" using "1.prems"(1) u by auto
  then consider "ws = takeWhile P ys" | "ws \<in> set (runs P (dropWhile P ys))" using "1.prems"(1) u by auto
  then show ?case
  proof cases
    case 1
    with "1.prems"(2) set_takeWhileD [of w P ys] sub(2) show ?thesis by blast
  next
    case 2
    from "1.IH" [OF ys_def ne this "1.prems"(2)] sub show ?thesis by blast
  qed
qed

text \<open>Words are valid UTF-8, since a byte that is not ends the word.\<close>

lemma words_valid:
  assumes "\<forall>c. 0x80 \<le> (of_char c :: nat) \<longrightarrow> \<not> isLetter [c]" and "w \<in> set (words_of isLetter s)"
  shows "valid_utf8 w"
proof -
  obtain rs where rs: "rs \<in> set (runs isLetter (runes s))" "w = concat rs" using assms(2) by (auto simp: words_of_def)
  have "\<not> invalid_rune r" if "isLetter r" for r
  proof
    assume "invalid_rune r"
    then obtain c where "r = [c]" "0x80 \<le> (of_char c :: nat)" by (auto simp: invalid_rune_def length_Suc_conv)
    with that assms(1) show False by blast
  qed
  with runs_subset [OF rs(1)] show ?thesis unfolding rs(2) by (intro valid_utf8_concat [of _ s]) blast
qed

lemma Itoa_valid: "valid_utf8 (Itoa n)"
proof (rule ascii_valid)
  show "\<forall>c \<in> set (Itoa n). of_char c < (0x80 :: nat)"
  proof (induction n rule: Itoa.induct)
    case (1 n)
    then show ?case by (auto simp: Itoa.simps [of n])
  qed
qed

section \<open>What the jobs write\<close>

lemma order_free_length: "order_free (\<lambda>key vs. f (length vs))"
  by (auto simp: order_free_def dest: mset_eq_length)

lemma order_free_sort: "order_free (\<lambda>key vs. f (sort vs))"
proof -
  have "sort xs = sort ys" if "mset xs = mset ys" for xs ys :: "string list" using that by (metis sorted_list_of_multiset_mset)
  then show ?thesis unfolding order_free_def by metis
qed

lemma order_free_apps: "order_free wc_Reduce" "order_free indexer_Reduce" "order_free crash_Reduce" "order_free early_exit_Reduce"
  using order_free_length [of Itoa] order_free_sort [of "\<lambda>s. Itoa (length s) @ '' '' @ Join s '',''"] order_free_sort [of "\<lambda>s. Join s '' ''"]
  by (simp_all add: wc_Reduce_def [abs_def] indexer_Reduce_def [abs_def] crash_Reduce_def [abs_def] early_exit_Reduce_def [abs_def] Let_def)

text \<open>The output of a reduce function is determined by the values of each key, in any order.\<close>

lemma reduced_keys:
  assumes "order_free reducef" and "kKey ` set M = K" and "\<And>k. k \<in> K \<Longrightarrow> values_of k (mset M) = mset (vs k)"
  shows "reduced reducef (mset M) = image_mset (\<lambda>k. out_line k (reducef k (vs k))) (mset_set K)"
proof -
  have "reducef k (sorted_list_of_multiset (values_of k (mset M))) = reducef k (vs k)" if "k \<in> K" for k
    using assms(1,3) that unfolding order_free_def by (metis mset_sorted_list_of_multiset)
  moreover have "finite K" using assms(2) by auto
  ultimately show ?thesis unfolding reduced_def using assms(2) by (auto intro!: image_mset_cong)
qed

lemma job_writes:
  assumes "mr_run input mapf reducef srt inputs n j" and "0 < n" and "is_sort srt" and "order_free reducef"
    and "\<forall>f \<in> set inputs. input f \<noteq> None" and "writes_utf8 input mapf inputs"
    and "fst (Done_job (jCoord j)) \<or> fst (FetchTask (jCoord j)) = Some AllDone"
    and "M = concat (map (\<lambda>f. mapf f (the (input f))) inputs)"
    and "kKey ` set M = K" and "\<And>k. k \<in> K \<Longrightarrow> values_of k (mset M) = mset (vs k)"
  shows "(\<Sum>r < n. mset (the (jOuts j r))) = image_mset (\<lambda>k. out_line k (reducef k (vs k))) (mset_set K)"
  using job_output(2) [OF assms(1-7)] reduced_keys [OF assms(4,9,10)] assms(8) by auto

lemma values_of_append: "values_of k (mset (xs @ ys)) = values_of k (mset xs) + values_of k (mset ys)"
  by (simp add: values_of_def)

lemma values_of_nil [simp]: "values_of k {#} = {#}"
  by (simp add: values_of_def)

lemma values_of_pairs: "values_of k (mset (map (\<lambda>w. \<lparr>kKey = w, kVal = v\<rparr>) ws)) = mset (replicate (count_list ws k) v)"
  by (induction ws) (simp_all add: values_of_def)

lemma values_of_words:
  "values_of w (mset (concat (map (\<lambda>f. wc_Map isLetter f (c f)) inputs))) = mset (replicate (count_list (concat (map (\<lambda>f. words_of isLetter (c f)) inputs)) w) ''1'')"
proof (induction inputs)
  case (Cons f fs)
  have "values_of w (mset (wc_Map isLetter f (c f))) = mset (replicate (count_list (words_of isLetter (c f)) w) ''1'')"
    unfolding wc_Map_def Let_def FieldsFunc_words by (rule values_of_pairs)
  then show ?case unfolding list.map concat.simps values_of_append Cons.IH by (simp add: count_list_append replicate_add)
qed simp

lemma wc_Map_utf8:
  assumes "\<forall>c. 0x80 \<le> (of_char c :: nat) \<longrightarrow> \<not> isLetter [c]"
  shows "writes_utf8 input (wc_Map isLetter) inputs"
proof -
  have "valid_utf8 w" if "w \<in> set (words_of isLetter s)" for w s using words_valid [OF assms that] .
  then show ?thesis using valid_a(2) by (simp add: writes_utf8_def wc_Map_def FieldsFunc_words)
qed

text \<open>C23: The word count. When a job of \<^verbatim>\<open>wc.go\<close> is done, its output files hold one line for each word of the input
  files, a word being a maximal run of letters, with the number of its occurrences, and nothing else. The replacement character,
  as which the code sees a byte that is not UTF-8, is not a letter.\<close>

theorem word_count_correct:
  assumes "mr_run input (wc_Map isLetter) wc_Reduce srt inputs n j" and "0 < n" and "is_sort srt"
    and "\<forall>f \<in> set inputs. input f \<noteq> None" and "fst (Done_job (jCoord j)) \<or> fst (FetchTask (jCoord j)) = Some AllDone"
    and "\<forall>c. 0x80 \<le> (of_char c :: nat) \<longrightarrow> \<not> isLetter [c]"
  shows "(\<Sum>r < n. mset (the (jOuts j r))) =
    (let ws = concat (map (\<lambda>f. words_of isLetter (the (input f))) inputs)
     in image_mset (\<lambda>w. out_line w (Itoa (count_list ws w))) (mset_set (set ws)))"
proof -
  let ?ws = "concat (map (\<lambda>f. words_of isLetter (the (input f))) inputs)"
  have "(\<Sum>r < n. mset (the (jOuts j r))) = image_mset (\<lambda>k. out_line k (wc_Reduce k (replicate (count_list ?ws k) ''1''))) (mset_set (set ?ws))"
  proof (rule job_writes [OF assms(1-3) order_free_apps(1) assms(4) wc_Map_utf8 [OF assms(6)] assms(5) refl])
    show "kKey ` set (concat (map (\<lambda>f. wc_Map isLetter f (the (input f))) inputs)) = set ?ws"
      by (auto simp: wc_Map_def FieldsFunc_words image_Union image_image)
  qed (rule values_of_words)
  then show ?thesis by (simp add: wc_Reduce_def)
qed

lemma words_of_a: "words_of (\<lambda>r. r = ''a'') ''a'' = [''a'']"
proof -
  have "runes ''a'' = [''a'']" by (simp add: runes.simps [of "''a''"] rune_len_def byte_in_def runes.simps [of "[]"])
  then show ?thesis by (simp add: words_of_def runs.simps [of _ "[''a'']"] runs.simps [of _ "[]"] Let_def)
qed

theorem word_count_correct_witness:
  "mset (the (jOuts (sample_done ''1'' ''1'') 0)) = {# out_line ''a'' ''1'' #}"
proof -
  have one: "Itoa 1 = ''1''" by code_simp
  have r: "sample_run (wc_Map (\<lambda>r. r = ''a'')) wc_Reduce (sample_done ''1'' ''1'')"
    by (rule sample_done_run) (simp_all add: wc_Map_def FieldsFunc_words [where isLetter = "\<lambda>r. r = ''a''"] words_of_a wc_Reduce_def one [unfolded One_nat_def] valid_a)
  have d: "fst (Done_job (jCoord (sample_done ''1'' ''1'')))" by (simp add: sample_done_def sample_mapped_def coord_eval)
  have "\<forall>c. 0x80 \<le> (of_char c :: nat) \<longrightarrow> [c] \<noteq> ''a''" by auto
  from word_count_correct [OF r _ sample_ok(1) _ disjI1 [OF d] this] show ?thesis by (simp add: Let_def words_of_a one [unfolded One_nat_def])
qed

text \<open>The documents that contain a word, as often as they are given as input.\<close>

definition docs_with :: "(string \<Rightarrow> bool) \<Rightarrow> (string \<Rightarrow> string) \<Rightarrow> string list \<Rightarrow> string \<Rightarrow> string list" where
  "docs_with isLetter c inputs w = filter (\<lambda>f. w \<in> set (words_of isLetter (c f))) inputs"

lemma count_list_remdups:
  assumes "mset (ord (remdups ws)) = mset (remdups ws)"
  shows "count_list (ord (remdups ws)) w = (if w \<in> set ws then 1 else 0)"
proof -
  have "count_list (ord (remdups ws)) w = count (mset (remdups ws)) w" unfolding assms [symmetric] by (rule count_mset [symmetric])
  also have "\<dots> = (if w \<in> set ws then 1 else 0)" using distinct_count_atmost_1 [of "remdups ws"] by simp
  finally show ?thesis .
qed

lemma values_of_docs:
  assumes "\<forall>xs. mset (ord xs) = mset xs"
  shows "values_of w (mset (concat (map (\<lambda>f. indexer_Map ord isLetter f (c f)) inputs))) = mset (docs_with isLetter c inputs w)"
proof (induction inputs)
  case (Cons f fs)
  have "values_of w (mset (indexer_Map ord isLetter f (c f))) = mset (docs_with isLetter c [f] w)"
    unfolding indexer_Map_def Let_def FieldsFunc_words values_of_pairs using assms by (simp add: count_list_remdups docs_with_def)
  then show ?case unfolding list.map concat.simps values_of_append Cons.IH by (simp add: docs_with_def)
qed (simp add: docs_with_def)

text \<open>The indexer. When a job of \<^verbatim>\<open>indexer.go\<close> is done, its output files hold one line for each word of the documents, with the number
  of documents that contain it and their names in order, whatever order the maps of the map tasks are read in. The names are valid UTF-8.\<close>

theorem indexer_correct:
  assumes "mr_run input (indexer_Map ord isLetter) indexer_Reduce srt inputs n j" and "0 < n" and "is_sort srt"
    and "\<forall>f \<in> set inputs. input f \<noteq> None" and "fst (Done_job (jCoord j)) \<or> fst (FetchTask (jCoord j)) = Some AllDone"
    and "\<forall>xs. mset (ord xs) = mset xs" and "\<forall>c. 0x80 \<le> (of_char c :: nat) \<longrightarrow> \<not> isLetter [c]" and "\<forall>f \<in> set inputs. valid_utf8 f"
  shows "(\<Sum>r < n. mset (the (jOuts j r))) =
    image_mset (\<lambda>w. let ds = sort (docs_with isLetter (\<lambda>f. the (input f)) inputs w) in out_line w (Itoa (length ds) @ '' '' @ Join ds '',''))
      (mset_set (\<Union>f \<in> set inputs. set (words_of isLetter (the (input f)))))"
proof -
  let ?K = "\<Union>f \<in> set inputs. set (words_of isLetter (the (input f)))"
  have o: "set (ord xs) = set xs" for xs using assms(6) by (metis set_mset_mset)
  have u: "writes_utf8 input (indexer_Map ord isLetter) inputs"
    using words_valid [OF assms(7)] assms(8) by (auto simp: writes_utf8_def indexer_Map_def FieldsFunc_words o)
  have "(\<Sum>r < n. mset (the (jOuts j r))) = image_mset (\<lambda>k. out_line k (indexer_Reduce k (docs_with isLetter (\<lambda>f. the (input f)) inputs k))) (mset_set ?K)"
  proof (rule job_writes [OF assms(1-3) order_free_apps(2) assms(4) u assms(5) refl])
    show "kKey ` set (concat (map (\<lambda>f. indexer_Map ord isLetter f (the (input f))) inputs)) = ?K"
      by (auto simp: indexer_Map_def FieldsFunc_words o image_Union image_image)
  qed (rule values_of_docs [OF assms(6)])
  then show ?thesis by (simp add: indexer_Reduce_def Let_def)
qed

theorem indexer_correct_witness:
  "mset (the (jOuts (sample_done ''f'' ''1 f'') 0)) = {# out_line ''a'' ''1 f'' #}"
proof -
  have one: "Itoa 1 = ''1''" by code_simp
  have v: "valid_utf8 ''f''" by (simp add: ascii_valid)
  then have r: "sample_run (indexer_Map (\<lambda>xs. xs) (\<lambda>r. r = ''a'')) indexer_Reduce (sample_done ''f'' ''1 f'')"
    by (intro sample_done_run) (simp_all add: indexer_Map_def FieldsFunc_words [where isLetter = "\<lambda>r. r = ''a''"] words_of_a indexer_Reduce_def one [unfolded One_nat_def])
  have d: "fst (Done_job (jCoord (sample_done ''f'' ''1 f'')))" by (simp add: sample_done_def sample_mapped_def coord_eval)
  have "\<forall>c. 0x80 \<le> (of_char c :: nat) \<longrightarrow> [c] \<noteq> ''a''" by auto
  from indexer_correct [OF r _ sample_ok(1) _ disjI1 [OF d] _ this] v show ?thesis by (simp add: Let_def words_of_a docs_with_def one [unfolded One_nat_def])
qed

text \<open>The crash test: its output does not show that workers crashed.\<close>

lemma values_of_crash:
  "values_of ''a'' (mset (concat (map (\<lambda>f. crash_Map f (c f)) inputs))) = mset inputs"
  "values_of ''b'' (mset (concat (map (\<lambda>f. crash_Map f (c f)) inputs))) = mset (map (\<lambda>f. Itoa (length f)) inputs)"
  "values_of ''c'' (mset (concat (map (\<lambda>f. crash_Map f (c f)) inputs))) = mset (map (\<lambda>f. Itoa (length (c f))) inputs)"
  "values_of ''d'' (mset (concat (map (\<lambda>f. crash_Map f (c f)) inputs))) = mset (map (\<lambda>f. ''xyzzy'') inputs)"
  by (induction inputs) (simp_all add: values_of_def crash_Map_def)

lemma crash_test_output:
  assumes "mr_run input crash_Map crash_Reduce srt inputs n j" and "0 < n" and "is_sort srt"
    and "\<forall>f \<in> set inputs. input f \<noteq> None" and "fst (Done_job (jCoord j)) \<or> fst (FetchTask (jCoord j)) = Some AllDone" and "inputs \<noteq> []"
    and "\<forall>f \<in> set inputs. valid_utf8 f"
  shows "(\<Sum>r < n. mset (the (jOuts j r))) = {#
    out_line ''a'' (Join (sort inputs) '' ''), out_line ''b'' (Join (sort (map (\<lambda>f. Itoa (length f)) inputs)) '' ''),
    out_line ''c'' (Join (sort (map (\<lambda>f. Itoa (length (the (input f)))) inputs)) '' ''), out_line ''d'' (Join (map (\<lambda>f. ''xyzzy'') inputs) '' '') #}"
proof -
  define vs where "vs k = (if k = ''a'' then inputs else if k = ''b'' then map (\<lambda>f. Itoa (length f)) inputs
    else if k = ''c'' then map (\<lambda>f. Itoa (length (the (input f)))) inputs else map (\<lambda>f. ''xyzzy'') inputs)" for k
  have lits: "valid_utf8 ''a''" "valid_utf8 ''b''" "valid_utf8 ''c''" "valid_utf8 ''d''" "valid_utf8 ''xyzzy''"
    by (simp_all add: ascii_valid)
  have u: "writes_utf8 input crash_Map inputs"
    using assms(7) lits by (simp add: writes_utf8_def crash_Map_def Itoa_valid)
  have "(\<Sum>r < n. mset (the (jOuts j r))) = image_mset (\<lambda>k. out_line k (crash_Reduce k (vs k))) (mset_set {''a'', ''b'', ''c'', ''d''})"
  proof (rule job_writes [OF assms(1-3) order_free_apps(3) assms(4) u assms(5) refl])
    show "kKey ` set (concat (map (\<lambda>f. crash_Map f (the (input f))) inputs)) = {''a'', ''b'', ''c'', ''d''}"
      using assms(6) by (cases inputs) (auto simp: crash_Map_def)
  qed (auto simp: vs_def values_of_crash)
  moreover have "sorted (map (\<lambda>f. ''xyzzy'') inputs)" by (induction inputs) auto
  ultimately show ?thesis by (simp add: crash_Reduce_def vs_def sorted_sort_id)
qed

end
