(* ===== verification/Porc_Bitset.thy ===== *)
theory Porc_Bitset
  imports Go_Prelude "HOL-Library.Word"
begin

text \<open>
  The bit sets of the linearizability checker, \<^verbatim>\<open>src/porcupine/bitset.go\<close>: slices of 64-bit words
  with Go's index checks, and what they represent: a set of positions.
\<close>

unbundle bit_operations_syntax

section \<open>Definitions\<close>

type_synonym bitset = "64 word list"

definition newBitset :: "nat \<Rightarrow> bitset" where
  "newBitset nbits =
     (let extra = (if nbits mod 64 \<noteq> 0 then 1 else 0);
          chunks = nbits div 64 + extra
      in replicate chunks 0)"

definition bs_clone :: "bitset \<Rightarrow> bitset" where
  "bs_clone b = b"

definition bitsetIndex :: "nat \<Rightarrow> nat \<times> nat" where
  "bitsetIndex pos = (pos div 64, pos mod 64)"

definition bs_set :: "nat \<Rightarrow> bitset \<Rightarrow> bitset res" where
  "bs_set pos b =
     (case bitsetIndex pos of (major, minor) \<Rightarrow>
      ebind (nth_go b (int major)) (\<lambda>w. upd_go b (int major) (w OR push_bit minor 1)))"

definition bs_clear :: "nat \<Rightarrow> bitset \<Rightarrow> bitset res" where
  "bs_clear pos b =
     (case bitsetIndex pos of (major, minor) \<Rightarrow>
      ebind (nth_go b (int major)) (\<lambda>w. upd_go b (int major) (w AND NOT (push_bit minor 1))))"

definition bs_get :: "nat \<Rightarrow> bitset \<Rightarrow> bool res" where
  "bs_get pos b =
     (case bitsetIndex pos of (major, minor) \<Rightarrow>
      ebind (nth_go b (int major)) (\<lambda>w. Inr (w AND push_bit minor 1 \<noteq> 0)))"

text \<open>\<^verbatim>\<open>bits.OnesCount64\<close>.\<close>

definition OnesCount64 :: "64 word \<Rightarrow> nat" where
  "OnesCount64 w = length (filter (bit w) [0..<64])"

definition bs_popcnt :: "bitset \<Rightarrow> nat" where
  "bs_popcnt b = fold (\<lambda>v total. total + OnesCount64 v) b 0"

definition bs_hash :: "bitset \<Rightarrow> 64 word" where
  "bs_hash b = fold (\<lambda>v h. h XOR v) b (of_nat (bs_popcnt b))"

fun equals_loop :: "bitset \<Rightarrow> bitset \<Rightarrow> bool" where
  "equals_loop (x # xs) (y # ys) \<longleftrightarrow> (if x \<noteq> y then False else equals_loop xs ys)"
| "equals_loop _ _ \<longleftrightarrow> True"

definition bs_equals :: "bitset \<Rightarrow> bitset \<Rightarrow> bool" where
  "bs_equals b b2 \<longleftrightarrow> (if length b \<noteq> length b2 then False else equals_loop b b2)"

section \<open>The set of positions\<close>

definition bs_bits :: "bitset \<Rightarrow> nat set" where
  "bs_bits b = {i. i < 64 * length b \<and> bit (b ! (i div 64)) (i mod 64)}"

lemma bs_index: "pos < 64 * length (b :: bitset) \<longleftrightarrow> pos div 64 < length b"
  using div_less_iff_less_mult [of 64 pos "length b"] by (simp add: mult.commute)

lemma newBitset_covers: "n \<le> 64 * length (newBitset n) \<and> 64 * length (newBitset n) < n + 64"
proof -
  obtain q r where n: "n div 64 = q" "n mod 64 = r" "n = 64 * q + r" "r < 64"
    using mult_div_mod_eq [of 64 n] by (metis mod_less_divisor zero_less_numeral)
  show ?thesis unfolding newBitset_def Let_def length_replicate n(1,2) using n(3,4) by (cases "r = 0") simp_all
qed

lemma bs_bits_new: "bs_bits (newBitset n) = {}"
  by (auto simp: bs_bits_def newBitset_def Let_def)

lemma pos_split: "(i div 64 = pos div 64 \<and> i mod 64 = pos mod 64) \<longleftrightarrow> i = (pos :: nat)"
  by (metis div_mult_mod_eq)

lemma bs_bits_mem: "i \<in> bs_bits b \<longleftrightarrow> i div 64 < length b \<and> bit (b ! (i div 64)) (i mod 64)"
  unfolding bs_bits_def bs_index by blast

lemma bs_bits_update:
  assumes "pos < 64 * length b" and "\<And>k. k < 64 \<Longrightarrow> bit w k = (if k = pos mod 64 then v else bit (b ! (pos div 64)) k)"
  shows "bs_bits (b[pos div 64 := w]) = (if v then insert pos (bs_bits b) else bs_bits b - {pos})"
proof -
  obtain q r where q: "pos div 64 = q" "pos mod 64 = r" by blast
  have p: "q < length b" using assms(1) unfolding bs_index q .
  have mem: "(i \<in> bs_bits (b[q := w])) = (if i = pos then v else i \<in> bs_bits b)" for i
  proof -
    obtain q' r' where q': "i div 64 = q'" "i mod 64 = r'" by blast
    have r': "r' < 64" unfolding q'(2) [symmetric] by simp
    have "(i = pos) = (q' = q \<and> r' = r)" using pos_split [of i pos] unfolding q q' by blast
    then show ?thesis using p assms(2) [OF r'] unfolding bs_bits_mem q q' by (cases "q' = q") simp_all
  qed
  show ?thesis unfolding q by (rule set_eqI, unfold mem) simp
qed

lemma bs_set_spec:
  "bs_set pos b = (if pos < 64 * length b then Inr (b[pos div 64 := b ! (pos div 64) OR push_bit (pos mod 64) 1]) else Inl IndexOutOfRange)"
  unfolding bs_index by (simp add: bs_set_def bitsetIndex_def go_slice)

lemma bs_clear_spec:
  "bs_clear pos b = (if pos < 64 * length b then Inr (b[pos div 64 := b ! (pos div 64) AND NOT (push_bit (pos mod 64) 1)]) else Inl IndexOutOfRange)"
  unfolding bs_index by (simp add: bs_clear_def bitsetIndex_def go_slice)

lemma bs_set_bits:
  assumes "pos < 64 * length b"
  shows "\<exists>b'. bs_set pos b = Inr b' \<and> length b' = length b \<and> bs_bits b' = insert pos (bs_bits b)"
proof -
  have "bit (b ! (pos div 64) OR push_bit (pos mod 64) 1) k = (if k = pos mod 64 then True else bit (b ! (pos div 64)) k)"
    if "k < 64" for k using that by (auto simp: bit_simps)
  from bs_bits_update [OF assms this] show ?thesis using assms by (simp add: bs_set_spec)
qed

lemma bs_clear_bits:
  assumes "pos < 64 * length b"
  shows "\<exists>b'. bs_clear pos b = Inr b' \<and> length b' = length b \<and> bs_bits b' = bs_bits b - {pos}"
proof -
  have "bit (b ! (pos div 64) AND NOT (push_bit (pos mod 64) 1)) k = (if k = pos mod 64 then False else bit (b ! (pos div 64)) k)"
    if "k < 64" for k using that by (auto simp: bit_simps)
  from bs_bits_update [OF assms this] show ?thesis using assms by (simp add: bs_clear_spec)
qed

lemma bs_get_bits:
  "bs_get pos b = (if pos < 64 * length b then Inr (pos \<in> bs_bits b) else Inl IndexOutOfRange)"
proof -
  have "(w AND push_bit (pos mod 64) 1 \<noteq> 0) = bit w (pos mod 64)" for w :: "64 word"
    unfolding push_bit_of_1 by (simp add: and_exp_eq_0_iff_not_bit)
  then show ?thesis by (simp add: bs_get_def bitsetIndex_def go_slice bs_bits_def bs_index)
qed


lemma bs_equals_iff: "bs_equals b c \<longleftrightarrow> b = c"
proof -
  have "length b = length c \<Longrightarrow> equals_loop b c \<longleftrightarrow> b = c" by (induction b c rule: equals_loop.induct) auto
  then show ?thesis by (auto simp: bs_equals_def)
qed

lemma bs_word_mem: "j < length b \<Longrightarrow> k < 64 \<Longrightarrow> bit (b ! j) k \<longleftrightarrow> 64 * j + k \<in> bs_bits b"
  unfolding bs_bits_mem by simp

lemma bs_bits_eq:
  assumes "length b = length c" and "bs_bits b = bs_bits c"
  shows "b = c"
proof (rule nth_equalityI)
  fix j assume j: "j < length b"
  show "b ! j = c ! j"
  proof (rule bit_word_eqI)
    fix k assume "k < LENGTH(64)"
    then have k: "k < 64" by simp
    show "bit (b ! j) k = bit (c ! j) k"
      using bs_word_mem [OF j k] bs_word_mem [of j c, OF _ k] j assms by simp
  qed
qed (rule assms(1))

lemma OnesCount64_card: "OnesCount64 w = card {i. i < 64 \<and> bit w i}"
proof -
  have "OnesCount64 w = card (set (filter (bit w) [0..<64]))"
    unfolding OnesCount64_def by (rule distinct_card [symmetric]) simp
  moreover have "set (filter (bit w) [0..<64]) = {i. i < 64 \<and> bit w i}" by auto
  ultimately show ?thesis by simp
qed

lemma bs_bits_Cons: "bs_bits (w # b) = {i. i < 64 \<and> bit w i} \<union> (+) 64 ` bs_bits b"
proof (rule set_eqI)
  fix i
  show "i \<in> bs_bits (w # b) \<longleftrightarrow> i \<in> {i. i < 64 \<and> bit w i} \<union> (+) 64 ` bs_bits b"
  proof (cases "i < 64")
    case True
    then show ?thesis by (auto simp: bs_bits_mem)
  next
    case False
    then obtain k where k: "i = 64 + k" using le_Suc_ex by (meson not_le)
    have "(64 + k) div 64 = Suc (k div 64)" using div_add_self1 [of 64 k] by simp
    then show ?thesis unfolding k by (simp add: bs_bits_mem image_iff)
  qed
qed

lemma finite_bs_bits: "finite (bs_bits b)"
  by (simp add: bs_bits_def)

lemma bs_popcnt_card: "bs_popcnt b = card (bs_bits b)"
proof -
  have "fold (\<lambda>v total. total + OnesCount64 v) b n = n + card (bs_bits b)" for n
  proof (induction b arbitrary: n)
    case Nil
    then show ?case by (simp add: bs_bits_def)
  next
    case (Cons w b)
    have "card (bs_bits (w # b)) = OnesCount64 w + card ((+) 64 ` bs_bits b)"
      unfolding bs_bits_Cons OnesCount64_card by (rule card_Un_disjoint) (auto simp: finite_bs_bits)
    also have "card ((+) 64 ` bs_bits b) = card (bs_bits b)" by (rule card_image) (simp add: inj_on_def)
    finally show ?case using Cons by simp
  qed
  then show ?thesis by (simp add: bs_popcnt_def)
qed

section \<open>Properties\<close>

text \<open>
  A bit set of the checker is a set of positions. A new set for \<^verbatim>\<open>n\<close> bits is empty and has
  the fewest words that hold \<^verbatim>\<open>n\<close> bits; on a set of \<^verbatim>\<open>w\<close> words exactly the positions below
  \<^verbatim>\<open>64 w\<close> are accepted, every other one is an index panic; \<^verbatim>\<open>set\<close>, \<^verbatim>\<open>clear\<close> and \<^verbatim>\<open>get\<close> insert, remove
  and test one position and no other; \<^verbatim>\<open>popcnt\<close> is the number of elements and at most \<^verbatim>\<open>64 w\<close>; and
  two sets of one length are \<^verbatim>\<open>equals\<close> exactly when they have the same elements.
\<close>

theorem bitset_is_set:
  "(bs_bits (newBitset n) = {} \<and> n \<le> 64 * length (newBitset n) \<and> 64 * length (newBitset n) < n + 64) \<and>
   (\<exists>b'. bs_set pos b = (if pos < 64 * length b then Inr b' else Inl IndexOutOfRange) \<and>
      length b' = length b \<and> (pos < 64 * length b \<longrightarrow> bs_bits b' = insert pos (bs_bits b))) \<and>
   (\<exists>b'. bs_clear pos b = (if pos < 64 * length b then Inr b' else Inl IndexOutOfRange) \<and>
      length b' = length b \<and> (pos < 64 * length b \<longrightarrow> bs_bits b' = bs_bits b - {pos})) \<and>
   bs_get pos b = (if pos < 64 * length b then Inr (pos \<in> bs_bits b) else Inl IndexOutOfRange) \<and>
   bs_popcnt b = card (bs_bits b) \<and> bs_popcnt b \<le> 64 * length b \<and>
   (length c = length b \<longrightarrow> (bs_equals b c \<longleftrightarrow> bs_bits b = bs_bits c))"
proof (intro conjI impI)
  show "\<exists>b'. bs_set pos b = (if pos < 64 * length b then Inr b' else Inl IndexOutOfRange) \<and>
      length b' = length b \<and> (pos < 64 * length b \<longrightarrow> bs_bits b' = insert pos (bs_bits b))"
    using bs_set_bits [of pos b] by (cases "pos < 64 * length b") (auto simp: bs_set_spec [of pos b])
  show "\<exists>b'. bs_clear pos b = (if pos < 64 * length b then Inr b' else Inl IndexOutOfRange) \<and>
      length b' = length b \<and> (pos < 64 * length b \<longrightarrow> bs_bits b' = bs_bits b - {pos})"
    using bs_clear_bits [of pos b] by (cases "pos < 64 * length b") (auto simp: bs_clear_spec [of pos b])
  have "card (bs_bits b) \<le> card {..<64 * length b}" by (rule card_mono) (auto simp: bs_bits_def)
  then show "bs_popcnt b \<le> 64 * length b" by (simp add: bs_popcnt_card)
qed (use newBitset_covers [of n] bs_bits_eq [of b c] in \<open>auto simp: bs_bits_new bs_get_bits bs_popcnt_card bs_equals_iff\<close>)

theorem bitset_is_set_witness:
  "bs_equals [3] [5] \<longleftrightarrow> bs_bits [3] = bs_bits [5]"
  using bitset_is_set [where b = "[3]" and c = "[5]"] by simp

end
