(* ===== verification/Porc_List.thy ===== *)
theory Porc_List
  imports Go_Prelude
begin

text \<open>
  The doubly linked list of the linearizability checker, \<^verbatim>\<open>src/porcupine/checker.go\<close>. A node is an
  address and each field of the struct \<^verbatim>\<open>node\<close> is a function from addresses; a nil pointer is
  \<^verbatim>\<open>None\<close>, and an access through it panics. Allocation takes the next address. The facts show
  that \<^verbatim>\<open>lift\<close> takes a call and its return out of the list and that \<^verbatim>\<open>unlift\<close> restores the heap
  exactly, through the pointers that the removed nodes still hold.
\<close>

section \<open>Definitions\<close>

datatype entryKind = callEntry | returnEntry

record 'v pentry =
  peKind :: entryKind
  peValue :: 'v
  peId :: int
  peTime :: int
  peClientId :: int

record 'v nodes =
  hSize :: nat
  hValue :: "nat \<Rightarrow> 'v option"
  hMatch :: "nat \<Rightarrow> nat option"
  hId :: "nat \<Rightarrow> int"
  hNext :: "nat \<Rightarrow> nat option"
  hPrev :: "nat \<Rightarrow> nat option"

definition no_nodes :: "'v nodes" where
  "no_nodes = \<lparr>hSize = 0, hValue = (\<lambda>_. None), hMatch = (\<lambda>_. None), hId = (\<lambda>_. 0), hNext = (\<lambda>_. None), hPrev = (\<lambda>_. None)\<rparr>"

text \<open>\<^verbatim>\<open>&node{value: v, match: m, id: i}\<close>\<close>

definition new_node :: "'v option \<Rightarrow> nat option \<Rightarrow> int \<Rightarrow> 'v nodes \<Rightarrow> nat \<times> 'v nodes" where
  "new_node v m i h =
     (let a = hSize h in
      (a, h\<lparr>hSize := Suc a, hValue := (hValue h)(a := v), hMatch := (hMatch h)(a := m), hId := (hId h)(a := i),
            hNext := (hNext h)(a := None), hPrev := (hPrev h)(a := None)\<rparr>))"

definition deref :: "nat option \<Rightarrow> nat res" where
  "deref p = (case p of None \<Rightarrow> Inl NilPointer | Some a \<Rightarrow> Inr a)"

definition setNext :: "nat option \<Rightarrow> nat option \<Rightarrow> 'v nodes \<Rightarrow> 'v nodes res" where
  "setNext p q h = ebind (deref p) (\<lambda>a. Inr (h\<lparr>hNext := (hNext h)(a := q)\<rparr>))"

definition setPrev :: "nat option \<Rightarrow> nat option \<Rightarrow> 'v nodes \<Rightarrow> 'v nodes res" where
  "setPrev p q h = ebind (deref p) (\<lambda>a. Inr (h\<lparr>hPrev := (hPrev h)(a := q)\<rparr>))"

definition insertBefore :: "nat \<Rightarrow> nat option \<Rightarrow> 'v nodes \<Rightarrow> 'v nodes" where
  "insertBefore n mark h =
     (case mark of
        None \<Rightarrow> h
      | Some m \<Rightarrow>
          let beforeMark = hPrev h m;
              h1 = h\<lparr>hPrev := (hPrev h)(m := Some n), hNext := (hNext h)(n := Some m)\<rparr>
          in case beforeMark of
               None \<Rightarrow> h1
             | Some b \<Rightarrow> h1\<lparr>hPrev := (hPrev h1)(n := Some b), hNext := (hNext h1)(b := Some n)\<rparr>)"

text \<open>The loop of \<^verbatim>\<open>length\<close>; it would not end on a cyclic list.\<close>

partial_function (option) length_loop :: "'v nodes \<Rightarrow> nat option \<Rightarrow> nat \<Rightarrow> nat option" where
  "length_loop h n l = (case n of None \<Rightarrow> Some l | Some a \<Rightarrow> length_loop h (hNext h a) (Suc l))"

text \<open>\<^verbatim>\<open>makeLinkedEntries\<close> goes through the entries from the last to the first.\<close>

fun link_step :: "'v pentry \<Rightarrow> nat option \<times> (int \<rightharpoonup> nat) \<times> 'v nodes \<Rightarrow> nat option \<times> (int \<rightharpoonup> nat) \<times> 'v nodes" where
  "link_step elem (root, mt, h) =
     (if peKind elem = returnEntry
      then case new_node (Some (peValue elem)) None (peId elem) h of (e, h1) \<Rightarrow>
           (Some e, mt(peId elem \<mapsto> e), insertBefore e root h1)
      else case new_node (Some (peValue elem)) (mt (peId elem)) (peId elem) h of (e, h1) \<Rightarrow>
           (Some e, mt, insertBefore e root h1))"

definition makeLinkedEntries :: "'v pentry list \<Rightarrow> 'v nodes \<Rightarrow> nat option \<times> 'v nodes" where
  "makeLinkedEntries entries h = (case fold link_step (rev entries) (None, Map.empty, h) of (root, mt, h') \<Rightarrow> (root, h'))"

definition lift :: "nat \<Rightarrow> 'v nodes \<Rightarrow> 'v nodes res" where
  "lift e h =
     ebind (setNext (hPrev h e) (hNext h e) h) (\<lambda>h1.
     ebind (setPrev (hNext h1 e) (hPrev h1 e) h1) (\<lambda>h2.
     ebind (deref (hMatch h2 e)) (\<lambda>m.
     ebind (setNext (hPrev h2 m) (hNext h2 m) h2) (\<lambda>h3.
     if hNext h3 m \<noteq> None then setPrev (hNext h3 m) (hPrev h3 m) h3 else Inr h3))))"

definition unlift :: "nat \<Rightarrow> 'v nodes \<Rightarrow> 'v nodes res" where
  "unlift e h =
     ebind (deref (hMatch h e)) (\<lambda>m.
     ebind (setNext (hPrev h m) (Some m) h) (\<lambda>h1.
     ebind (if hNext h1 m \<noteq> None then setPrev (hNext h1 m) (Some m) h1 else Inr h1) (\<lambda>h2.
     ebind (setNext (hPrev h2 e) (Some e) h2) (\<lambda>h3.
     setPrev (hNext h3 e) (Some e) h3))))"

section \<open>Lists in the heap\<close>

fun links :: "'v nodes \<Rightarrow> nat list \<Rightarrow> bool" where
  "links h (a # b # as) \<longleftrightarrow> hNext h a = Some b \<and> hPrev h b = Some a \<and> links h (b # as)"
| "links h _ \<longleftrightarrow> True"

definition dll :: "'v nodes \<Rightarrow> nat list \<Rightarrow> bool" where
  "dll h as \<longleftrightarrow> as \<noteq> [] \<and> distinct as \<and> links h as \<and> hPrev h (hd as) = None \<and> hNext h (last as) = None"

definition same_data :: "'v nodes \<Rightarrow> 'v nodes \<Rightarrow> bool" where
  "same_data h h' \<longleftrightarrow> hSize h' = hSize h \<and> hValue h' = hValue h \<and> hMatch h' = hMatch h \<and> hId h' = hId h"

lemma links_append: "links h (xs @ a # ys) \<longleftrightarrow> links h (xs @ [a]) \<and> links h (a # ys)"
proof (induction xs)
  case (Cons x xs)
  then show ?case by (cases xs) auto
qed simp

lemma links_cong:
  "(\<And>a. a \<in> set (butlast as) \<Longrightarrow> hNext h a = hNext h' a) \<Longrightarrow> (\<And>a. a \<in> set (tl as) \<Longrightarrow> hPrev h a = hPrev h' a) \<Longrightarrow>
   links h as = links h' as"
proof (induction h as rule: links.induct)
  case (1 h a b as)
  have "links h (b # as) = links h' (b # as)" by (rule "1.IH") (use "1.prems" in auto)
  then show ?case using "1.prems" by simp
qed simp_all

lemma links_junction: "links h (xs @ a # b # ys) \<Longrightarrow> hNext h a = Some b \<and> hPrev h b = Some a"
  using links_append [of h xs a "b # ys"] by simp

lemma length_loop_links: "links h (a # as) \<Longrightarrow> hNext h (last (a # as)) = None \<Longrightarrow> length_loop h (Some a) l = Some (l + length (a # as))"
proof (induction as arbitrary: a l)
  case Nil
  then show ?case by (simp add: length_loop.simps [of h "Some a"] length_loop.simps [of h None])
next
  case (Cons b as)
  then show ?case by (simp add: length_loop.simps [of h "Some a"])
qed

section \<open>Taking a node out and putting it back\<close>

definition take_out :: "nat \<Rightarrow> 'v nodes \<Rightarrow> 'v nodes" where
  "take_out a h =
     (let p = the (hPrev h a); h1 = h\<lparr>hNext := (hNext h)(p := hNext h a)\<rparr> in
      case hNext h a of None \<Rightarrow> h1 | Some y \<Rightarrow> h1\<lparr>hPrev := (hPrev h1)(y := Some p)\<rparr>)"

definition put_back :: "nat \<Rightarrow> 'v nodes \<Rightarrow> 'v nodes" where
  "put_back a h =
     (let p = the (hPrev h a); h1 = h\<lparr>hNext := (hNext h)(p := Some a)\<rparr> in
      case hNext h a of None \<Rightarrow> h1 | Some y \<Rightarrow> h1\<lparr>hPrev := (hPrev h1)(y := Some a)\<rparr>)"

lemma butlast_last_Cons: "xs \<noteq> [] \<Longrightarrow> butlast xs @ last xs # zs = xs @ zs"
  by (induction xs) auto

lemma dll_node:
  assumes "dll h (xs @ a # ys)" and "xs \<noteq> []"
  shows "hPrev h a = Some (last xs)" "hNext h a = (case ys of [] \<Rightarrow> None | y # _ \<Rightarrow> Some y)"
    "hNext h (last xs) = Some a" "ys \<noteq> [] \<Longrightarrow> hPrev h (hd ys) = Some a"
proof -
  have l: "links h (butlast xs @ last xs # a # ys)" using assms by (simp add: dll_def butlast_last_Cons)
  show "hPrev h a = Some (last xs)" "hNext h (last xs) = Some a" using links_junction [OF l] by simp_all
  show "hNext h a = (case ys of [] \<Rightarrow> None | y # _ \<Rightarrow> Some y)" "ys \<noteq> [] \<Longrightarrow> hPrev h (hd ys) = Some a"
    using assms(1) links_junction [of h xs a "hd ys" "tl ys"] by (cases ys; simp add: dll_def)+
qed

lemma same_data_take_out: "same_data h (take_out a h)"
  by (simp add: same_data_def take_out_def Let_def split: option.splits)

lemma take_out_pointers:
  assumes "dll h (xs @ a # ys)" and "xs \<noteq> []"
  shows "hNext (take_out a h) = (hNext h)(last xs := (case ys of [] \<Rightarrow> None | y # _ \<Rightarrow> Some y))"
    "hPrev (take_out a h) = (case ys of [] \<Rightarrow> hPrev h | y # _ \<Rightarrow> (hPrev h)(y := Some (last xs)))"
  using dll_node(1,2) [OF assms] by (cases ys; simp add: take_out_def Let_def)+

lemma take_out_dll:
  assumes d: "dll h (xs @ a # ys)" and xs: "xs \<noteq> []"
  shows "dll (take_out a h) (xs @ ys)"
proof -
  let ?h = "take_out a h" and ?x = "last xs"
  note ptr = take_out_pointers [OF assms]
  have dist: "distinct (xs @ a # ys)" and l: "links h (xs @ a # ys)" using d by (simp_all add: dll_def)
  have x: "xs = butlast xs @ [?x]" using xs by simp
  have nx: "?x \<notin> set (butlast xs)" using dist x by (metis distinct_append not_distinct_conv_prefix)
  have ne: "?x \<notin> set ys" "?x \<noteq> a" using dist xs by (auto simp: disjoint_iff)
  have lx: "links ?h xs"
  proof -
    have "links h xs" using l xs links_append [of h "butlast xs" ?x "a # ys"] by (simp add: butlast_last_Cons)
    moreover have "b \<in> set xs" if "b \<in> set (tl xs)" for b using that by (cases xs) auto
    then have "links h xs = links ?h xs"
      by (intro links_cong) (use dist nx in \<open>auto simp: ptr split: list.splits\<close>)
    ultimately show ?thesis by simp
  qed
  show ?thesis
  proof (cases ys)
    case Nil
    have "hPrev h (hd xs) = None" using d xs by (simp add: dll_def)
    then show ?thesis using lx xs dist by (simp add: dll_def Nil ptr)
  next
    case (Cons y zs)
    have "links h (y # zs)" using l links_append [of h "xs @ [a]" y zs] Cons by simp
    moreover have "links h (y # zs) = links ?h (y # zs)"
      by (rule links_cong) (use dist ne Cons in \<open>auto simp: ptr split: if_splits dest: in_set_butlastD\<close>)
    moreover have "hNext ?h ?x = Some y" "hPrev ?h y = Some ?x" by (simp_all add: ptr Cons)
    ultimately have "links ?h (butlast xs @ ?x # y # zs)"
      using lx x links_append [of ?h "butlast xs" ?x "y # zs"] by simp
    then have "links ?h (xs @ ys)" using xs Cons by (simp add: butlast_last_Cons)
    moreover have "hd xs \<noteq> y" using dist xs Cons by (cases xs) auto
    moreover have "last ys \<noteq> ?x" using ne Cons by (metis last_in_set list.distinct(1))
    ultimately show ?thesis using d xs dist Cons by (simp add: dll_def ptr)
  qed
qed

lemma put_back_take_out:
  assumes d: "dll h (xs @ a # ys)" and xs: "xs \<noteq> []"
  shows "put_back a (take_out a h) = h"
proof -
  note ptr = take_out_pointers [OF assms] and n = dll_node [OF assms]
  have dist: "a \<noteq> last xs" "a \<notin> set ys" using d xs by (auto simp: dll_def)
  show ?thesis
  proof (cases ys)
    case Nil
    then show ?thesis using n dist by (simp add: take_out_def put_back_def Let_def fun_upd_idem)
  next
    case (Cons y zs)
    then show ?thesis using n dist by (simp add: take_out_def put_back_def Let_def fun_upd_idem)
  qed
qed


text \<open>The assignments of \<^verbatim>\<open>lift\<close> and \<^verbatim>\<open>unlift\<close>, with and without the test for the end of the list.\<close>

lemma take_out_steps:
  assumes "hPrev h a = Some p" and "p \<noteq> a"
  shows "ebind (setNext (hPrev h a) (hNext h a) h) (\<lambda>h1.
      if hNext h1 a \<noteq> None then setPrev (hNext h1 a) (hPrev h1 a) h1 else Inr h1) = Inr (take_out a h)"
    "hNext h a \<noteq> None \<Longrightarrow> ebind (setNext (hPrev h a) (hNext h a) h) (\<lambda>h1.
      ebind (setPrev (hNext h1 a) (hPrev h1 a) h1) f) = f (take_out a h)"
  using assms by (cases "hNext h a"; auto simp: setNext_def setPrev_def deref_def take_out_def Let_def)+

lemma put_back_steps:
  assumes "hPrev h a = Some p" and "p \<noteq> a"
  shows "ebind (setNext (hPrev h a) (Some a) h) (\<lambda>h1.
      ebind (if hNext h1 a \<noteq> None then setPrev (hNext h1 a) (Some a) h1 else Inr h1) f) = f (put_back a h)"
    "hNext h a \<noteq> None \<Longrightarrow> ebind (setNext (hPrev h a) (Some a) h) (\<lambda>h1.
      setPrev (hNext h1 a) (Some a) h1) = Inr (put_back a h)"
  using assms by (cases "hNext h a"; auto simp: setNext_def setPrev_def deref_def put_back_def Let_def)+

lemma take_out_keeps:
  assumes "dll h (xs @ a # ys)" and "xs \<noteq> []"
  shows "hPrev (take_out a h) a = Some (last xs)" "hNext (take_out a h) a = hNext h a"
  using take_out_pointers [OF assms] dll_node(1) [OF assms] assms by (cases ys; auto simp: dll_def)+

text \<open>\<^verbatim>\<open>lift\<close> takes out the call and its return; \<^verbatim>\<open>unlift\<close> puts them back in the other order.\<close>

lemma lift_dll:
  assumes d: "dll h (xs @ c # ys @ r # zs)" and xs: "xs \<noteq> []" and m: "hMatch h c = Some r"
  shows "\<exists>h'. lift c h = Inr h' \<and> dll h' (xs @ ys @ zs) \<and> same_data h h' \<and> unlift c h' = Inr h"
proof -
  let ?h1 = "take_out c h" and ?h2 = "take_out r (take_out c h)"
  have d1: "dll ?h1 ((xs @ ys) @ r # zs)" using take_out_dll [OF d xs] by simp
  have xy: "xs @ ys \<noteq> []" using xs by simp
  have d2: "dll ?h2 (xs @ ys @ zs)" using take_out_dll [OF d1 xy] by simp
  have sd: "same_data h ?h1" "same_data h ?h2"
    using same_data_take_out [of h c] same_data_take_out [of ?h1 r] by (simp_all add: same_data_def)
  then have m1: "hMatch ?h1 c = Some r" "hMatch ?h2 c = Some r" using m by (simp_all add: same_data_def)
  have ne: "last xs \<noteq> c" "last (xs @ ys) \<noteq> r" using d xs by (auto simp: dll_def last_append)
  have nx: "hNext h c \<noteq> None" using dll_node(2) [OF d xs] by (cases ys) auto
  note p = dll_node(1) [OF d xs] and p1 = dll_node(1) [OF d1 xy]
  have "lift c h = Inr ?h2"
    unfolding lift_def take_out_steps(2) [OF p ne(1) nx] m1(1) using take_out_steps(1) [OF p1 ne(2)] by (simp add: deref_def)
  moreover have "unlift c ?h2 = Inr h"
  proof -
    have "unlift c ?h2 = ebind (setNext (hPrev ?h1 c) (Some c) ?h1) (\<lambda>h3. setPrev (hNext h3 c) (Some c) h3)"
      unfolding unlift_def m1(2) deref_def option.case ebind_Inr
        put_back_steps(1) [OF take_out_keeps(1) [OF d1 xy] ne(2)] put_back_take_out [OF d1 xy] ..
    also have "\<dots> = Inr (put_back c ?h1)"
      by (rule put_back_steps(2) [OF take_out_keeps(1) [OF d xs] ne(1)]) (simp add: take_out_keeps(2) [OF d xs] nx)
    finally show ?thesis unfolding put_back_take_out [OF d xs] .
  qed
  ultimately show ?thesis using d2 sd(2) by blast
qed


section \<open>Building the list\<close>

lemma insertBefore_dll:
  assumes "dll h as" and "a \<notin> set as" and "hPrev h a = None"
  shows "dll (insertBefore a (Some (hd as)) h) (a # as)" "same_data h (insertBefore a (Some (hd as)) h)"
proof -
  obtain b bs where as: "as = b # bs" using assms(1) by (cases as) (auto simp: dll_def)
  have b: "hPrev h b = None" using assms(1) as by (simp add: dll_def)
  then have ib: "insertBefore a (Some b) h = h\<lparr>hPrev := (hPrev h)(b := Some a), hNext := (hNext h)(a := Some b)\<rparr>"
    by (simp add: insertBefore_def)
  have "links h as = links (insertBefore a (Some b) h) as"
    by (rule links_cong) (use assms as in \<open>auto simp: ib dll_def split: if_splits dest: in_set_butlastD\<close>)
  moreover have "last as \<noteq> a" using assms as by (metis last_in_set list.distinct(1))
  ultimately show "dll (insertBefore a (Some (hd as)) h) (a # as)" using assms as by (simp add: dll_def ib)
  show "same_data h (insertBefore a (Some (hd as)) h)" by (simp add: same_data_def ib as)
qed

text \<open>The address of the return of an operation among the entries that were already linked.\<close>

definition ret_addr :: "'v pentry list \<Rightarrow> int \<Rightarrow> nat option" where
  "ret_addr rs i = (let js = filter (\<lambda>j. peKind (rs ! j) = returnEntry \<and> peId (rs ! j) = i) [0..<length rs]
     in if js = [] then None else Some (last js))"

lemma ret_addr_snoc:
  "ret_addr (rs @ [e]) i = (if peKind e = returnEntry \<and> peId e = i then Some (length rs) else ret_addr rs i)"
proof -
  have "filter (\<lambda>j. peKind ((rs @ [e]) ! j) = returnEntry \<and> peId ((rs @ [e]) ! j) = i) [0..<length rs] =
      filter (\<lambda>j. peKind (rs ! j) = returnEntry \<and> peId (rs ! j) = i) [0..<length rs]"
    by (rule filter_cong) (simp_all add: nth_append)
  then show ?thesis by (simp add: ret_addr_def Let_def)
qed

definition linked :: "'v pentry list \<Rightarrow> nat option \<times> (int \<rightharpoonup> nat) \<times> 'v nodes \<Rightarrow> bool" where
  "linked rs st \<longleftrightarrow> (case st of (root, mt, h) \<Rightarrow>
     hSize h = length rs \<and> mt = ret_addr rs \<and>
     (if rs = [] then root = None else root = Some (length rs - 1) \<and> dll h (rev [0..<length rs])) \<and>
     (\<forall>j < length rs. hValue h j = Some (peValue (rs ! j)) \<and> hId h j = peId (rs ! j) \<and>
        hMatch h j = (if peKind (rs ! j) = returnEntry then None else ret_addr (take j rs) (peId (rs ! j)))))"

lemma in_tl: "x \<in> set (tl xs) \<Longrightarrow> x \<in> set xs"
  by (cases xs) auto

lemma new_node_dll: "dll h as \<Longrightarrow> hSize h \<notin> set as \<Longrightarrow> dll (snd (new_node v m i h)) as"
proof -
  assume a: "dll h as" "hSize h \<notin> set as"
  have "links h as = links (snd (new_node v m i h)) as"
    by (rule links_cong) (use a in \<open>auto simp: new_node_def Let_def dest: in_set_butlastD in_tl\<close>)
  moreover have "hd as \<noteq> hSize h" "last as \<noteq> hSize h" using a by (metis dll_def hd_in_set last_in_set)+
  ultimately show ?thesis using a by (simp add: dll_def new_node_def Let_def)
qed

lemma linked_step:
  assumes "linked rs st"
  shows "linked (rs @ [e]) (link_step e st)"
proof -
  obtain root mt h where st: "st = (root, mt, h)" by (metis prod_cases3)
  note l = assms [unfolded linked_def st, simplified]
  define m where "m = (if peKind e = returnEntry then None else mt (peId e))"
  let ?n = "length rs" and ?h1 = "snd (new_node (Some (peValue e)) m (peId e) h)"
  have step: "link_step e st = (Some ?n, ret_addr (rs @ [e]), insertBefore ?n root ?h1)"
    using l by (cases "peKind e") (simp_all add: st m_def new_node_def Let_def fun_eq_iff ret_addr_snoc)
  have h1: "hSize ?h1 = Suc ?n" "hPrev ?h1 ?n = None"
    "hValue ?h1 j = (if j = ?n then Some (peValue e) else hValue h j)" "hId ?h1 j = (if j = ?n then peId e else hId h j)"
    "hMatch ?h1 j = (if j = ?n then m else hMatch h j)" for j
    using l by (simp_all add: new_node_def Let_def)
  have "dll (insertBefore ?n root ?h1) (rev [0..<Suc ?n]) \<and> same_data ?h1 (insertBefore ?n root ?h1)"
  proof (cases "rs = []")
    case True
    then show ?thesis using l by (simp add: insertBefore_def dll_def same_data_def new_node_def Let_def)
  next
    case False
    have d: "dll ?h1 (rev [0..<?n])" using l False by (intro new_node_dll) simp_all
    have r: "root = Some (hd (rev [0..<?n]))" using l False by (simp add: hd_rev)
    show ?thesis using insertBefore_dll [OF d _ h1(2)] unfolding r by simp
  qed
  then show ?thesis using l h1 unfolding step
    by (auto simp: linked_def same_data_def nth_append m_def less_Suc_eq)
qed

lemma makeLinkedEntries_linked: "linked rs (fold link_step rs (None, Map.empty, no_nodes))"
proof (induction rs rule: rev_induct)
  case Nil
  then show ?case by (simp add: linked_def no_nodes_def ret_addr_def fun_eq_iff)
next
  case (snoc e rs)
  then show ?case using linked_step by simp
qed

end
