(* ===== verification/Porc_Search.thy ===== *)
theory Porc_Search
  imports Main
begin

text \<open>
  The search of the linearizability checker on an abstract level: a list of nodes, calls and
  returns, from which operations are taken out one by one. A call may be taken if no return
  stands before it. The facts say what the stack of a depth-first search with a cache
  guarantees, and that there are finitely many configurations. Theory \<^verbatim>\<open>Porc_Check\<close> shows that
  the program does this search.
\<close>

section \<open>Configurations\<close>

record 's game =
  gNodes :: "nat list"
  gId :: "nat \<Rightarrow> nat"
  gCall :: "nat \<Rightarrow> bool"
  gMatch :: "nat \<Rightarrow> nat"
  gStep :: "'s \<Rightarrow> nat \<Rightarrow> bool \<times> 's"
  gInit :: 's

text \<open>The nodes that are left when the operations of a set were taken out, and the calls among them before the first return.\<close>

definition left :: "'s game \<Rightarrow> nat set \<Rightarrow> nat list" where
  "left g L = filter (\<lambda>a. gId g a \<notin> L) (gNodes g)"

definition ready :: "'s game \<Rightarrow> nat set \<Rightarrow> nat set" where
  "ready g L = set (takeWhile (gCall g) (left g L))"

inductive winnable :: "'s game \<Rightarrow> nat set \<Rightarrow> 's \<Rightarrow> bool" for g where
  finished: "left g L = [] \<Longrightarrow> winnable g L s"
| pick: "c \<in> ready g L \<Longrightarrow> gStep g s c = (True, s') \<Longrightarrow> winnable g (insert (gId g c) L) s' \<Longrightarrow> winnable g L s"

definition hopeless :: "'s game \<Rightarrow> nat set \<Rightarrow> 's \<Rightarrow> nat \<Rightarrow> bool" where
  "hopeless g L s c \<longleftrightarrow> (fst (gStep g s c) \<longrightarrow> \<not> winnable g (insert (gId g c) L) (snd (gStep g s c)))"

inductive reach :: "'s game \<Rightarrow> nat set \<Rightarrow> 's \<Rightarrow> bool" for g where
  none: "reach g {} (gInit g)"
| more: "reach g L s \<Longrightarrow> c \<in> ready g L \<Longrightarrow> gStep g s c = (True, s') \<Longrightarrow> reach g (insert (gId g c) L) s'"

text \<open>
  The stack of the search: the calls taken so far with the states before them, the present
  configuration, and the configurations passed. Below each call of the stack all calls
  that were tried before it are hopeless.
\<close>

inductive frames :: "'s game \<Rightarrow> (nat \<times> 's) list \<Rightarrow> nat set \<Rightarrow> 's \<Rightarrow> (nat set \<times> 's) set \<Rightarrow> bool" for g where
  bottom: "frames g [] {} (gInit g) {}"
| push: "frames g cs L s K \<Longrightarrow> left g L = pre @ c # post \<Longrightarrow> \<forall>a \<in> set pre. gCall g a \<and> hopeless g L s a \<Longrightarrow> gCall g c \<Longrightarrow>
    gStep g s c = (True, s') \<Longrightarrow>
    frames g (cs @ [(c, s)]) (insert (gId g c) L) s' (insert (insert (gId g c) L, s') K)"

text \<open>Every operation has one call and, later, one return.\<close>

definition wf_game :: "nat \<Rightarrow> 's game \<Rightarrow> bool" where
  "wf_game n g \<longleftrightarrow> distinct (gNodes g) \<and> (\<forall>a \<in> set (gNodes g). gId g a < n) \<and>
     (\<forall>i < n. \<exists>xs c ys r zs. gNodes g = xs @ c # ys @ r # zs \<and> gId g c = i \<and> gId g r = i \<and>
        gCall g c \<and> \<not> gCall g r \<and> gMatch g c = r \<and> (\<forall>a \<in> set (xs @ ys @ zs). gId g a \<noteq> i))"

lemma left_split:
  assumes wf: "wf_game n g" and i: "c \<in> set (left g L)" "gCall g c"
  shows "\<exists>xs ys zs. left g L = xs @ c # ys @ gMatch g c # zs \<and> left g (insert (gId g c) L) = xs @ ys @ zs \<and>
    gId g (gMatch g c) = gId g c \<and> \<not> gCall g (gMatch g c)"
proof -
  have c: "c \<in> set (gNodes g)" "gId g c \<notin> L" using i by (auto simp: left_def)
  then have "gId g c < n" using wf by (simp add: wf_game_def)
  then obtain xs c' ys r zs where s: "gNodes g = xs @ c' # ys @ r # zs" "gId g c' = gId g c" "gId g r = gId g c"
    "gCall g c'" "\<not> gCall g r" "gMatch g c' = r" "\<forall>a \<in> set (xs @ ys @ zs). gId g a \<noteq> gId g c"
    using wf unfolding wf_game_def by blast
  have "c = c'" using c(1) i(2) s by auto
  then have r: "gMatch g c = r" and nodes: "gNodes g = xs @ c # ys @ r # zs" using s(1,6) by simp_all
  let ?F = "filter (\<lambda>a. gId g a \<notin> L)"
  have "filter (\<lambda>a. gId g a \<notin> insert (gId g c) L) vs = ?F vs" if "\<forall>a \<in> set vs. gId g a \<noteq> gId g c" for vs
    by (rule filter_cong) (use that in auto)
  then have "left g L = ?F xs @ c # ?F ys @ r # ?F zs" "left g (insert (gId g c) L) = ?F xs @ ?F ys @ ?F zs"
    unfolding left_def nodes using c(2) s(3,7) by simp_all
  then show ?thesis unfolding r using s(3,5) by blast
qed

lemma ready_prefix:
  assumes "left g L = pre @ x # post" and "\<forall>a \<in> set pre. gCall g a"
  shows "gCall g x \<Longrightarrow> x \<in> ready g L" "\<not> gCall g x \<Longrightarrow> ready g L = set pre"
  using assms by (simp_all add: ready_def takeWhile_append)

lemma ready_left: "c \<in> ready g L \<Longrightarrow> c \<in> set (left g L) \<and> gCall g c"
  unfolding ready_def by (meson set_takeWhileD)

lemma winnable_iff:
  assumes "left g L \<noteq> []"
  shows "winnable g L s \<longleftrightarrow> (\<exists>c \<in> ready g L. \<not> hopeless g L s c)"
proof
  assume "winnable g L s"
  then show "\<exists>c \<in> ready g L. \<not> hopeless g L s c"
  proof cases
    case (pick c s')
    then have "\<not> hopeless g L s c" by (simp add: hopeless_def)
    with pick(1) show ?thesis by blast
  qed (use assms in simp)
next
  assume "\<exists>c \<in> ready g L. \<not> hopeless g L s c"
  then obtain c where c: "c \<in> ready g L" "fst (gStep g s c)" "winnable g (insert (gId g c) L) (snd (gStep g s c))"
    unfolding hopeless_def by blast
  have "gStep g s c = (True, snd (gStep g s c))" using c(2) by (simp add: prod_eq_iff)
  from winnable.pick [OF c(1) this c(3)] show "winnable g L s" .
qed

text \<open>A configuration whose ready calls are all hopeless is lost.\<close>

lemma exhausted:
  assumes "left g L = pre @ x # post" and "\<forall>a \<in> set pre. gCall g a \<and> hopeless g L s a" and "\<not> gCall g x"
  shows "\<not> winnable g L s"
  using assms ready_prefix(2) [of g L pre x post] by (simp add: winnable_iff)

lemma frames_winnable: "frames g cs L s K \<Longrightarrow> winnable g L s \<Longrightarrow> winnable g {} (gInit g)"
proof (induction rule: frames.induct)
  case (push cs L s K pre c post s')
  have "c \<in> ready g L" using ready_prefix(1) [OF push.hyps(2)] push.hyps(3,4) by blast
  then show ?case using winnable.pick push by metis
qed

lemma frames_below: "frames g cs L s K \<Longrightarrow> (A, t) \<in> K \<Longrightarrow> A \<subseteq> L"
  by (induction rule: frames.induct) auto

lemma frames_reach: "frames g cs L s K \<Longrightarrow> reach g L s \<and> L = gId g ` fst ` set cs"
proof (induction rule: frames.induct)
  case (push cs L s K pre c post s')
  have "c \<in> ready g L" using ready_prefix(1) [OF push.hyps(2)] push.hyps(3,4) by blast
  with push show ?case by (auto intro: reach.more)
qed (simp add: reach.none)

inductive_cases frames_snocE: "frames g (cs @ [(c, s)]) L' s' K'"

lemma frames_nil: "frames g [] L s K \<longleftrightarrow> L = {} \<and> s = gInit g \<and> K = {}"
  by (auto elim: frames.cases intro: frames.bottom)

lemma frames_pop:
  assumes "frames g (cs @ [(c, s)]) L' s' K'"
  obtains L K pre post where "frames g cs L s K" "left g L = pre @ c # post" "\<forall>a \<in> set pre. gCall g a \<and> hopeless g L s a"
    "gCall g c" "gStep g s c = (True, s')" "L' = insert (gId g c) L" "K' = insert (L', s') K"
  using assms by (rule frames_snocE) auto

section \<open>Finitely many configurations\<close>

fun replay :: "'s game \<Rightarrow> 's \<Rightarrow> nat list \<Rightarrow> 's" where
  "replay g s [] = s"
| "replay g s (c # cs) = replay g (snd (gStep g s c)) cs"

lemma replay_snoc: "replay g s (cs @ [c]) = snd (gStep g (replay g s cs) c)"
  by (induction cs arbitrary: s) simp_all

lemma reach_path:
  "reach g L s \<Longrightarrow> \<exists>cs. distinct cs \<and> set cs \<subseteq> set (gNodes g) \<and> L = gId g ` set cs \<and> s = replay g (gInit g) cs"
proof (induction rule: reach.induct)
  case none
  then show ?case by (intro exI [of _ "[]"]) simp
next
  case (more L s c s')
  then obtain cs where cs: "distinct cs" "set cs \<subseteq> set (gNodes g)" "L = gId g ` set cs" "s = replay g (gInit g) cs" by blast
  have "c \<in> set (gNodes g)" "gId g c \<notin> L" using ready_left [OF more.hyps(2)] by (auto simp: left_def)
  then show ?case using cs more.hyps(3) by (intro exI [of _ "cs @ [c]"]) (auto simp: replay_snoc)
qed

lemma finite_reach: "finite {(L, s). reach g L s}"
proof -
  have "{(L, s). reach g L s} \<subseteq> (\<lambda>cs. (gId g ` set cs, replay g (gInit g) cs)) ` {cs. set cs \<subseteq> set (gNodes g) \<and> distinct cs}"
    using reach_path by fastforce
  moreover have "finite {cs. set cs \<subseteq> set (gNodes g) \<and> distinct cs}" by (rule finite_subset_distinct) simp
  ultimately show ?thesis by (meson finite_imageI finite_subset)
qed

end
