(* ===== verification/Porc_Model.thy ===== *)
theory Porc_Model
  imports Porc_List Porc_Search
begin

text \<open>
  Histories and models of the linearizability checker, \<^verbatim>\<open>src/porcupine/model.go\<close> and the conversion of
  histories to entries in \<^verbatim>\<open>src/porcupine/checker.go\<close>, with the definition of linearizability they
  are meant for. Values of type \<^verbatim>\<open>interface{}\<close> are a type parameter; \<^verbatim>\<open>sort.Sort\<close> is not stable and
  is an argument, any function that sorts by \<^verbatim>\<open>byTime\<close>. The functions that describe operations and
  states as strings serve the visualization only and are left out.
\<close>

section \<open>Definitions\<close>

record 'v Operation =
  onClientId :: int
  onInput :: 'v
  onCall :: int
  onOutput :: 'v
  onReturn :: int

datatype EventKind = CallEvent | ReturnEvent

record 'v Event =
  evClientId :: int
  evKind :: EventKind
  evValue :: 'v
  evId :: int

text \<open>A field that holds no function (\<^verbatim>\<open>nil\<close>) is \<^verbatim>\<open>None\<close>; the functions may panic.\<close>

record ('v, 's) Model =
  mPartition :: "('v Operation list \<Rightarrow> 'v Operation list list res) option"
  mPartitionEvent :: "('v Event list \<Rightarrow> 'v Event list list res) option"
  mInit :: 's
  mStep :: "'s \<Rightarrow> 'v \<Rightarrow> 'v \<Rightarrow> (bool \<times> 's) res"
  mEqual :: "('s \<Rightarrow> 's \<Rightarrow> bool) option"

definition NoPartition :: "'v Operation list \<Rightarrow> 'v Operation list list res" where
  "NoPartition history = Inr [history]"

definition NoPartitionEvent :: "'v Event list \<Rightarrow> 'v Event list list res" where
  "NoPartitionEvent history = Inr [history]"

definition ShallowEqual :: "'s \<Rightarrow> 's \<Rightarrow> bool" where
  "ShallowEqual state1 state2 \<longleftrightarrow> state1 = state2"

datatype CheckResult = Unknown | Ok | Illegal

definition fillDefault :: "('v, 's) Model \<Rightarrow> ('v, 's) Model" where
  "fillDefault m =
     m\<lparr>mPartition := (if mPartition m = None then Some NoPartition else mPartition m),
       mPartitionEvent := (if mPartitionEvent m = None then Some NoPartitionEvent else mPartitionEvent m),
       mEqual := (if mEqual m = None then Some ShallowEqual else mEqual m)\<rparr>"

text \<open>\<^verbatim>\<open>Less\<close> of \<^verbatim>\<open>byTime\<close>: calls come before returns of the same time.\<close>

definition byTime_less :: "'v pentry \<Rightarrow> 'v pentry \<Rightarrow> bool" where
  "byTime_less a b \<longleftrightarrow>
     (if peTime a \<noteq> peTime b then peTime a < peTime b else peKind a = callEntry \<and> peKind b = returnEntry)"

definition is_time_sort :: "('v pentry list \<Rightarrow> 'v pentry list) \<Rightarrow> bool" where
  "is_time_sort srt \<longleftrightarrow> (\<forall>xs. mset (srt xs) = mset xs \<and> sorted_wrt (\<lambda>a b. \<not> byTime_less b a) (srt xs))"

fun entries_loop :: "int \<Rightarrow> 'v Operation list \<Rightarrow> 'v pentry list" where
  "entries_loop i [] = []"
| "entries_loop i (elem # history) =
     \<lparr>peKind = callEntry, peValue = onInput elem, peId = i, peTime = onCall elem, peClientId = onClientId elem\<rparr> #
     \<lparr>peKind = returnEntry, peValue = onOutput elem, peId = i, peTime = onReturn elem, peClientId = onClientId elem\<rparr> #
     entries_loop (i + 1) history"

definition makeEntries :: "('v pentry list \<Rightarrow> 'v pentry list) \<Rightarrow> 'v Operation list \<Rightarrow> 'v pentry list" where
  "makeEntries srt history = srt (entries_loop 0 history)"

fun renumber_loop :: "(int \<rightharpoonup> int) \<Rightarrow> int \<Rightarrow> 'v Event list \<Rightarrow> 'v Event list" where
  "renumber_loop m i [] = []"
| "renumber_loop m i (v # events) =
     (case m (evId v) of
        Some r \<Rightarrow> v\<lparr>evId := r\<rparr> # renumber_loop m i events
      | None \<Rightarrow> v\<lparr>evId := i\<rparr> # renumber_loop (m(evId v \<mapsto> i)) (i + 1) events)"

definition renumber :: "'v Event list \<Rightarrow> 'v Event list" where
  "renumber events = renumber_loop Map.empty 0 events"

fun convert_loop :: "int \<Rightarrow> 'v Event list \<Rightarrow> 'v pentry list" where
  "convert_loop i [] = []"
| "convert_loop i (elem # events) =
     \<lparr>peKind = (if evKind elem = ReturnEvent then returnEntry else callEntry), peValue = evValue elem, peId = evId elem,
      peTime = i, peClientId = evClientId elem\<rparr> # convert_loop (i + 1) events"

definition convertEntries :: "'v Event list \<Rightarrow> 'v pentry list" where
  "convertEntries events = convert_loop 0 events"

section \<open>Linearizability\<close>

text \<open>
  A history of complete operations is linearizable if its operations can be ordered so that
  one that returned before another was called stands before it, and the model can take
  the steps in that order.
\<close>

definition precedes :: "'v Operation list \<Rightarrow> nat \<Rightarrow> nat \<Rightarrow> bool" where
  "precedes ops i j \<longleftrightarrow> onReturn (ops ! i) < onCall (ops ! j)"

definition op_step :: "('v, 's) Model \<Rightarrow> 's \<Rightarrow> 'v Operation \<Rightarrow> bool \<times> 's" where
  "op_step m s x = (case mStep m s (onInput x) (onOutput x) of Inr r \<Rightarrow> r | Inl e \<Rightarrow> (False, s))"

fun legal :: "('v, 's) Model \<Rightarrow> 's \<Rightarrow> 'v Operation list \<Rightarrow> bool" where
  "legal m s [] \<longleftrightarrow> True"
| "legal m s (x # xs) \<longleftrightarrow> fst (op_step m s x) \<and> legal m (snd (op_step m s x)) xs"

definition linearizes :: "('v, 's) Model \<Rightarrow> 'v Operation list \<Rightarrow> 's \<Rightarrow> nat list \<Rightarrow> bool" where
  "linearizes m ops s p \<longleftrightarrow> distinct p \<and> sorted_wrt (\<lambda>i j. \<not> precedes ops j i) p \<and> legal m s (map ((!) ops) p)"

definition linearizable :: "('v, 's) Model \<Rightarrow> 'v Operation list \<Rightarrow> bool" where
  "linearizable m ops \<longleftrightarrow> (\<exists>p. set p = {..<length ops} \<and> linearizes m ops (mInit m) p)"

text \<open>Histories the checker is meant for: an operation does not return before its call, and the model knows its values.\<close>

definition wf_ops :: "('v, 's) Model \<Rightarrow> 'v Operation list \<Rightarrow> bool" where
  "wf_ops m ops \<longleftrightarrow> (\<forall>x \<in> set ops. onCall x \<le> onReturn x \<and> (\<forall>s. \<exists>r. mStep m s (onInput x) (onOutput x) = Inr r))"

section \<open>Games of histories\<close>

text \<open>A game plays a history if its nodes are in the order of the times and its steps are those of the operations.\<close>

definition plays :: "('v, 's) Model \<Rightarrow> 'v Operation list \<Rightarrow> 's game \<Rightarrow> bool" where
  "plays m ops g \<longleftrightarrow> wf_game (length ops) g \<and> gInit g = mInit m \<and>
     (\<forall>c \<in> set (gNodes g). gCall g c \<longrightarrow> (\<forall>s. gStep g s c = op_step m s (ops ! gId g c))) \<and>
     sorted_wrt (\<lambda>a b. gCall g a \<noteq> gCall g b \<longrightarrow>
        (if gCall g b then precedes ops (gId g a) (gId g b) else \<not> precedes ops (gId g b) (gId g a))) (gNodes g)"

lemma wf_game_nodes:
  assumes "wf_game n g" and "i < n"
  shows "\<exists>c r. c \<in> set (gNodes g) \<and> r \<in> set (gNodes g) \<and> gCall g c \<and> \<not> gCall g r \<and> gId g c = i \<and> gId g r = i"
    "c \<in> set (gNodes g) \<Longrightarrow> c' \<in> set (gNodes g) \<Longrightarrow> gCall g c = gCall g c' \<Longrightarrow> gId g c = i \<Longrightarrow> gId g c' = i \<Longrightarrow> c = c'"
proof -
  obtain xs d ys r zs where "gNodes g = xs @ d # ys @ r # zs" "gId g d = i" "gId g r = i"
    "gCall g d" "\<not> gCall g r" "\<forall>a \<in> set (xs @ ys @ zs). gId g a \<noteq> i"
    using assms unfolding wf_game_def by blast
  then show "\<exists>c r. c \<in> set (gNodes g) \<and> r \<in> set (gNodes g) \<and> gCall g c \<and> \<not> gCall g r \<and> gId g c = i \<and> gId g r = i"
    "c \<in> set (gNodes g) \<Longrightarrow> c' \<in> set (gNodes g) \<Longrightarrow> gCall g c = gCall g c' \<Longrightarrow> gId g c = i \<Longrightarrow> gId g c' = i \<Longrightarrow> c = c'"
    by auto
qed

lemma sorted_takeWhile:
  assumes "sorted_wrt (\<lambda>a b. C a \<noteq> C b \<longrightarrow> (if C b then P a b else \<not> P b a)) xs" and "c \<in> set xs" and "C c" and "distinct xs"
  shows "c \<in> set (takeWhile C xs) \<longleftrightarrow> (\<forall>r \<in> set xs. \<not> C r \<longrightarrow> \<not> P r c)"
proof -
  obtain pre post where xs: "xs = pre @ c # post" using assms(2) by (meson split_list)
  have pre: "\<forall>a \<in> set pre. \<not> C a \<longrightarrow> P a c" and post: "\<forall>a \<in> set post. \<not> C a \<longrightarrow> \<not> P a c"
    using assms(1,3) unfolding xs sorted_wrt_append by auto
  show ?thesis
  proof (cases "\<forall>a \<in> set pre. C a")
    case True
    then show ?thesis using assms(3) post by (auto simp: xs takeWhile_append)
  next
    case False
    then have "set (takeWhile C xs) \<subseteq> set pre" by (auto simp: xs takeWhile_append dest: set_takeWhileD)
    then have "c \<notin> set (takeWhile C xs)" using assms(4) by (auto simp: xs)
    moreover obtain a where "a \<in> set pre" "\<not> C a" using False by blast
    ultimately show ?thesis using pre by (auto simp: xs)
  qed
qed

text \<open>Which operations are ready: those that no remaining operation precedes.\<close>

lemma ready_iff:
  assumes p: "plays m ops g" and c: "c \<in> set (gNodes g)" "gCall g c" "gId g c = i" "i \<notin> L"
  shows "c \<in> ready g L \<longleftrightarrow> (\<forall>j < length ops. j \<notin> L \<longrightarrow> \<not> precedes ops j i)"
proof -
  have wf: "wf_game (length ops) g" using p by (simp add: plays_def)
  have l: "c \<in> set (left g L)" "distinct (left g L)" using c wf by (auto simp: left_def wf_game_def)
  have s: "sorted_wrt (\<lambda>a b. gCall g a \<noteq> gCall g b \<longrightarrow>
        (if gCall g b then precedes ops (gId g a) (gId g b) else \<not> precedes ops (gId g b) (gId g a))) (left g L)"
    using p unfolding left_def plays_def by (simp add: sorted_wrt_filter)
  have "c \<in> ready g L \<longleftrightarrow> (\<forall>r \<in> set (left g L). \<not> gCall g r \<longrightarrow> \<not> precedes ops (gId g r) i)"
    using sorted_takeWhile [OF s l(1) c(2) l(2)] unfolding ready_def c(3) .
  also have "\<dots> \<longleftrightarrow> (\<forall>j < length ops. j \<notin> L \<longrightarrow> \<not> precedes ops j i)"
  proof
    assume a: "\<forall>r \<in> set (left g L). \<not> gCall g r \<longrightarrow> \<not> precedes ops (gId g r) i"
    show "\<forall>j < length ops. j \<notin> L \<longrightarrow> \<not> precedes ops j i"
    proof (intro allI impI)
      fix j assume j: "j < length ops" "j \<notin> L"
      obtain r where "r \<in> set (gNodes g)" "\<not> gCall g r" "gId g r = j" using wf_game_nodes(1) [OF wf j(1)] by blast
      then show "\<not> precedes ops j i" using a j(2) by (auto simp: left_def)
    qed
  next
    assume "\<forall>j < length ops. j \<notin> L \<longrightarrow> \<not> precedes ops j i"
    then show "\<forall>r \<in> set (left g L). \<not> gCall g r \<longrightarrow> \<not> precedes ops (gId g r) i"
      using wf by (auto simp: left_def wf_game_def)
  qed
  finally show ?thesis .
qed

lemma left_empty:
  assumes "wf_game n g"
  shows "left g L = [] \<longleftrightarrow> {..<n} \<subseteq> L"
proof
  assume e: "left g L = []"
  show "{..<n} \<subseteq> L"
  proof
    fix i assume "i \<in> {..<n}"
    then obtain c where "c \<in> set (gNodes g)" "gId g c = i" using wf_game_nodes(1) [OF assms, of i] by auto
    then show "i \<in> L" using e by (auto simp: left_def filter_empty_conv)
  qed
next
  assume "{..<n} \<subseteq> L"
  then show "left g L = []" using assms by (auto simp: left_def filter_empty_conv wf_game_def)
qed

lemma linearizes_Cons:
  "linearizes m ops s (i # p) \<longleftrightarrow> i \<notin> set p \<and> (\<forall>j \<in> set p. \<not> precedes ops j i) \<and> fst (op_step m s (ops ! i)) \<and>
     linearizes m ops (snd (op_step m s (ops ! i))) p"
  by (auto simp: linearizes_def)

text \<open>The search wins exactly if the remaining operations can be linearized.\<close>

lemma winnable_linearizes:
  assumes p: "plays m ops g" and irr: "\<forall>i < length ops. \<not> precedes ops i i"
  shows "winnable g L s \<longleftrightarrow> (\<exists>p. set p = {..<length ops} - L \<and> linearizes m ops s p)"
proof
  have wf: "wf_game (length ops) g" using p by (simp add: plays_def)
  have step: "gStep g s c = op_step m s (ops ! gId g c)" if "c \<in> set (gNodes g)" "gCall g c" for s c
    using p that by (simp add: plays_def)
  show "winnable g L s \<Longrightarrow> \<exists>p. set p = {..<length ops} - L \<and> linearizes m ops s p"
  proof (induction rule: winnable.induct)
    case (finished L s)
    then show ?case using left_empty [OF wf] by (intro exI [of _ "[]"]) (auto simp: linearizes_def)
  next
    case (pick c L s s')
    then obtain q where q: "set q = {..<length ops} - insert (gId g c) L" "linearizes m ops s' q" by blast
    have c: "c \<in> set (gNodes g)" "gCall g c" "gId g c \<notin> L" using ready_left [OF pick.hyps(1)] by (auto simp: left_def)
    have "gId g c < length ops" using c(1) wf by (simp add: wf_game_def)
    moreover have "\<forall>j \<in> set q. \<not> precedes ops j (gId g c)" using ready_iff [OF p c(1,2) refl c(3)] pick.hyps(1) q(1) by auto
    ultimately show ?case using q c pick.hyps(2) step [OF c(1,2), of s]
      by (intro exI [of _ "gId g c # q"]) (auto simp: linearizes_Cons)
  qed
  have "set p = {..<length ops} - L \<Longrightarrow> linearizes m ops s p \<Longrightarrow> winnable g L s" for p
  proof (induction p arbitrary: L s)
    case Nil
    then show ?case using left_empty [OF wf] by (intro winnable.finished) auto
  next
    case (Cons i p)
    then have i: "i < length ops" "i \<notin> L" by auto
    obtain c where c: "c \<in> set (gNodes g)" "gCall g c" "gId g c = i" using wf_game_nodes(1) [OF wf i(1)] by blast
    have lin: "i \<notin> set p" "\<forall>j \<in> set p. \<not> precedes ops j i" "fst (op_step m s (ops ! i))"
      "linearizes m ops (snd (op_step m s (ops ! i))) p" using Cons.prems(2) by (simp_all add: linearizes_Cons)
    have "set p = {..<length ops} - insert i L" using Cons.prems(1) lin(1) by auto
    from Cons.IH [OF this lin(4)] have w: "winnable g (insert (gId g c) L) (snd (op_step m s (ops ! i)))" using c(3) by simp
    have "\<not> precedes ops j i" if "j < length ops" "j \<notin> L" for j
      using that Cons.prems(1) lin(2) irr by (cases "j = i") auto
    then have "c \<in> ready g L" using ready_iff [OF p c i(2)] by blast
    moreover have "gStep g s c = (True, snd (op_step m s (ops ! i)))" using step [OF c(1,2)] lin(3) c(3) by (simp add: prod_eq_iff)
    ultimately show ?case using w by (rule winnable.pick)
  qed
  then show "\<exists>p. set p = {..<length ops} - L \<and> linearizes m ops s p \<Longrightarrow> winnable g L s" by blast
qed


section \<open>The game of the linked entries\<close>

definition game_of :: "('v, 's) Model \<Rightarrow> 'v nodes \<Rightarrow> nat list \<Rightarrow> 's game" where
  "game_of m h as =
     \<lparr>gNodes = as, gId = (\<lambda>a. nat (hId h a)), gCall = (\<lambda>a. hMatch h a \<noteq> None), gMatch = (\<lambda>a. the (hMatch h a)),
      gStep = (\<lambda>s a. case mStep m s (the (hValue h a)) (the (hValue h (the (hMatch h a)))) of Inr r \<Rightarrow> r | Inl e \<Rightarrow> (False, s)),
      gInit = mInit m\<rparr>"

abbreviation centry :: "'v Operation list \<Rightarrow> nat \<Rightarrow> 'v pentry" where
  "centry ops i \<equiv> \<lparr>peKind = callEntry, peValue = onInput (ops ! i), peId = int i, peTime = onCall (ops ! i), peClientId = onClientId (ops ! i)\<rparr>"

abbreviation rentry :: "'v Operation list \<Rightarrow> nat \<Rightarrow> 'v pentry" where
  "rentry ops i \<equiv> \<lparr>peKind = returnEntry, peValue = onOutput (ops ! i), peId = int i, peTime = onReturn (ops ! i), peClientId = onClientId (ops ! i)\<rparr>"

text \<open>The entries of a history: a call and a return of each operation, in the order of the times.\<close>

definition entries_ok :: "'v Operation list \<Rightarrow> 'v pentry list \<Rightarrow> bool" where
  "entries_ok ops es \<longleftrightarrow> distinct es \<and> set es = centry ops ` {..<length ops} \<union> rentry ops ` {..<length ops} \<and>
     sorted_wrt (\<lambda>a b. \<not> byTime_less b a) es"

lemma entries_loop_snoc:
  "entries_loop i (ops @ [x]) = entries_loop i ops @
     [\<lparr>peKind = callEntry, peValue = onInput x, peId = i + int (length ops), peTime = onCall x, peClientId = onClientId x\<rparr>,
      \<lparr>peKind = returnEntry, peValue = onOutput x, peId = i + int (length ops), peTime = onReturn x, peClientId = onClientId x\<rparr>]"
  by (induction ops arbitrary: i) simp_all

lemma entries_loop_ok:
  "distinct (entries_loop 0 ops) \<and> set (entries_loop 0 ops) = centry ops ` {..<length ops} \<union> rentry ops ` {..<length ops}"
proof (induction ops rule: rev_induct)
  case (snoc x ops)
  have "centry (ops @ [x]) ` {..<length ops} = centry ops ` {..<length ops}"
    "rentry (ops @ [x]) ` {..<length ops} = rentry ops ` {..<length ops}"
    by (rule image_cong; simp add: nth_append)+
  then show ?case using snoc by (auto simp: entries_loop_snoc lessThan_Suc)
qed simp

lemma makeEntries_ok: "is_time_sort srt \<Longrightarrow> entries_ok ops (makeEntries srt ops)"
  using entries_loop_ok [of ops] unfolding entries_ok_def makeEntries_def is_time_sort_def
  by (metis mset_eq_setD mset_eq_imp_distinct_iff)

lemma entries_split:
  assumes ok: "entries_ok ops es" and i: "i < length ops" and t: "onCall (ops ! i) \<le> onReturn (ops ! i)"
  shows "\<exists>xs ys zs. es = xs @ centry ops i # ys @ rentry ops i # zs \<and> (\<forall>e \<in> set (xs @ ys @ zs). peId e \<noteq> int i)"
proof -
  let ?c = "centry ops i" and ?r = "rentry ops i"
  have mem: "?c \<in> set es" "?r \<in> set es" and dist: "distinct es" using ok i by (auto simp: entries_ok_def)
  obtain xs us where es: "es = xs @ ?c # us" using mem(1) by (meson split_list)
  have "?r \<notin> set xs"
  proof
    assume "?r \<in> set xs"
    then have "\<not> byTime_less ?c ?r" using ok unfolding entries_ok_def es sorted_wrt_append by auto
    then show False using t by (auto simp: byTime_less_def split: if_splits)
  qed
  then have "?r \<in> set us" using mem(2) es by auto
  then obtain ys zs where us: "us = ys @ ?r # zs" by (meson split_list)
  have "peId e \<noteq> int i" if "e \<in> set (xs @ ys @ zs)" for e
  proof -
    have "e \<in> set es" "e \<noteq> ?c" "e \<noteq> ?r" using that dist unfolding es us by auto
    then show ?thesis using ok by (auto simp: entries_ok_def)
  qed
  then show ?thesis using es us by blast
qed

lemma ret_addr_split:
  assumes "peKind r = returnEntry" and "peId r = i" and "\<forall>e \<in> set vs. peId e \<noteq> i"
  shows "ret_addr (us @ r # vs) i = Some (length us)"
  using assms(3)
proof (induction vs rule: rev_induct)
  case Nil
  show ?case using assms(1,2) by (simp add: ret_addr_snoc)
next
  case (snoc e vs)
  then show ?case using ret_addr_snoc [of "us @ r # vs" e i] by simp
qed

lemma rev_upt_map: "map ((!) rs) (rev [0..<length rs]) = rev rs"
  by (metis map_nth rev_map)

text \<open>The addresses of the parts of the list of entries; the last entry has address 0.\<close>

lemma rev_upt_split:
  assumes "rs = rev (xs @ c # ys @ r # zs)"
  obtains as bs cs where "rev [0..<length rs] = as @ (length zs + Suc (length ys)) # bs @ length zs # cs"
    "map ((!) rs) as = xs" "map ((!) rs) bs = ys" "map ((!) rs) cs = zs" "rs ! length zs = r" "rs ! (length zs + Suc (length ys)) = c"
proof -
  have "map ((!) rs) (rev [0..<length rs]) = xs @ c # ys @ r # zs" using assms rev_upt_map [of rs] by simp
  then obtain as a bs b cs where s: "rev [0..<length rs] = as @ a # bs @ b # cs" "map ((!) rs) as = xs" "rs ! a = c"
    "map ((!) rs) bs = ys" "rs ! b = r" "map ((!) rs) cs = zs"
    by (auto simp: map_eq_append_conv map_eq_Cons_conv append_eq_map_conv Cons_eq_map_conv)
  have l: "length as = length xs" "length bs = length ys" "length cs = length zs" using s(2,4,6) by auto
  have n: "length rs = Suc (length xs + Suc (length ys + length zs))" using assms by simp
  have "a = rev [0..<length rs] ! length as" unfolding s(1) by simp
  then have a: "a = length zs + Suc (length ys)" using n l by (simp add: rev_nth del: upt_Suc)
  have "b = (as @ a # bs @ b # cs) ! (length as + Suc (length bs))" by (simp add: nth_append)
  then have "b = rev [0..<length rs] ! (length as + Suc (length bs))" unfolding s(1) .
  then have b: "b = length zs" using n l by (simp add: rev_nth del: upt_Suc)
  show thesis using that [of as bs cs] s unfolding a b by blast
qed


lemma linked_pair:
  assumes l: "linked (rev es) (root, mt, h)" and ok: "entries_ok ops es" and i: "i < length ops" and t: "onCall (ops ! i) \<le> onReturn (ops ! i)"
  obtains as c bs r cs where "rev [0..<length es] = as @ c # bs @ r # cs" "rev es ! c = centry ops i" "rev es ! r = rentry ops i"
    "hMatch h c = Some r" "hMatch h r = None" "\<forall>a \<in> set (as @ bs @ cs). peId (rev es ! a) \<noteq> int i"
proof -
  obtain xs ys zs where es: "es = xs @ centry ops i # ys @ rentry ops i # zs" "\<forall>e \<in> set (xs @ ys @ zs). peId e \<noteq> int i"
    using entries_split [OF ok i t] by blast
  let ?c = "length zs + Suc (length ys)" and ?r = "length zs"
  obtain as bs cs where s: "rev [0..<length (rev es)] = as @ ?c # bs @ ?r # cs" "map ((!) (rev es)) as = xs"
    "map ((!) (rev es)) bs = ys" "map ((!) (rev es)) cs = zs" "rev es ! ?r = rentry ops i" "rev es ! ?c = centry ops i"
    using rev_upt_split [of "rev es" xs "centry ops i" ys "rentry ops i" zs] es(1) by metis
  have b: "?c < length (rev es)" "?r < length (rev es)" using es(1) by simp_all
  have "take ?c (rev es) = rev zs @ rentry ops i # rev ys" using es(1) by simp
  moreover have "ret_addr (rev zs @ rentry ops i # rev ys) (int i) = Some (length (rev zs))"
    by (rule ret_addr_split) (use es(2) in auto)
  ultimately have "hMatch h ?c = Some ?r" using l b(1) s(6) by (simp add: linked_def)
  moreover have "hMatch h ?r = None" using l b(2) s(5) by (simp add: linked_def)
  moreover have "peId (rev es ! a) \<noteq> int i" if "a \<in> set (as @ bs @ cs)" for a
  proof -
    have "rev es ! a \<in> (!) (rev es) ` set (as @ bs @ cs)" using that by blast
    then have "rev es ! a \<in> set (xs @ ys @ zs)" using s(2-4) by (metis map_append set_map)
    then show ?thesis using es(2) by blast
  qed
  ultimately show thesis using that [of as ?c bs ?r cs] s(1,5,6) by simp
qed

lemma linked_nodes:
  assumes l: "linked (rev es) (root, mt, h)" and ok: "entries_ok ops es" and m: "wf_ops m ops" and a: "a < length es"
  shows "\<exists>i < length ops. hId h a = int i \<and> rev es ! a = (if hMatch h a \<noteq> None then centry ops i else rentry ops i)"
    "hMatch h a = Some r \<Longrightarrow> r < length es \<and> rev es ! r = rentry ops (nat (hId h a))"
proof -
  have "rev es ! a \<in> set es" using a by (metis length_rev nth_mem set_rev)
  then obtain i where i: "i < length ops" "rev es ! a = centry ops i \<or> rev es ! a = rentry ops i"
    using ok by (auto simp: entries_ok_def)
  have t: "onCall (ops ! i) \<le> onReturn (ops ! i)" using m i(1) by (simp add: wf_ops_def)
  obtain as c bs r' cs where p: "rev [0..<length es] = as @ c # bs @ r' # cs" "rev es ! c = centry ops i" "rev es ! r' = rentry ops i"
    "hMatch h c = Some r'" "hMatch h r' = None" using linked_pair [OF l ok i(1) t] by metis
  have "c \<in> set (rev [0..<length es])" "r' \<in> set (rev [0..<length es])" unfolding p(1) by simp_all
  then have cr: "c < length es" "r' < length es" by simp_all
  have dist: "distinct (rev es)" using ok by (simp add: entries_ok_def)
  have id: "hId h a = int i" using l a i(2) by (auto simp: linked_def)
  have "a = c \<or> a = r'" using i(2) p(2,3) nth_eq_iff_index_eq [OF dist] a cr by (metis length_rev)
  then show "\<exists>i < length ops. hId h a = int i \<and> rev es ! a = (if hMatch h a \<noteq> None then centry ops i else rentry ops i)"
    "hMatch h a = Some r \<Longrightarrow> r < length es \<and> rev es ! r = rentry ops (nat (hId h a))"
    using i(1) id p cr by auto
qed

lemma linked_wf_game:
  assumes l: "linked (rev es) (root, mt, h)" and ok: "entries_ok ops es" and m: "wf_ops m ops"
  shows "wf_game (length ops) (game_of m h (rev [0..<length es]))"
proof -
  have id: "hId h a = peId (rev es ! a)" if "a < length es" for a using l that by (simp add: linked_def)
  have bound: "nat (hId h a) < length ops \<and> 0 \<le> hId h a" if "a < length es" for a
    using linked_nodes(1) [OF l ok m that] by auto
  have "\<exists>xs c ys r zs. rev [0..<length es] = xs @ c # ys @ r # zs \<and> nat (hId h c) = i \<and> nat (hId h r) = i \<and>
      hMatch h c \<noteq> None \<and> hMatch h r = None \<and> the (hMatch h c) = r \<and> (\<forall>a \<in> set (xs @ ys @ zs). nat (hId h a) \<noteq> i)"
    if i: "i < length ops" for i
  proof -
    have t: "onCall (ops ! i) \<le> onReturn (ops ! i)" using m i by (simp add: wf_ops_def)
    obtain as c bs r cs where p: "rev [0..<length es] = as @ c # bs @ r # cs" "rev es ! c = centry ops i" "rev es ! r = rentry ops i"
      "hMatch h c = Some r" "hMatch h r = None" "\<forall>a \<in> set (as @ bs @ cs). peId (rev es ! a) \<noteq> int i"
      using linked_pair [OF l ok i t] by metis
    have "set (rev [0..<length es]) = set (as @ c # bs @ r # cs)" unfolding p(1) ..
    then have lt: "a < length es" if "a \<in> set (as @ c # bs @ r # cs)" for a using that by auto
    have "nat (hId h c) = i" "nat (hId h r) = i" using id [of c] id [of r] lt [of c] lt [of r] p(2,3) by simp_all
    moreover have "nat (hId h a) \<noteq> i" if a: "a \<in> set (as @ bs @ cs)" for a
    proof -
      have la: "a < length es" using a lt by auto
      have "hId h a \<noteq> int i" using p(6) a id [OF la] by auto
      then show ?thesis using bound [OF la] by linarith
    qed
    ultimately show ?thesis
      using p(1,4,5) by (intro exI [of _ as] exI [of _ c] exI [of _ bs] exI [of _ r] exI [of _ cs]) simp
  qed
  then show ?thesis using bound by (simp add: wf_game_def game_of_def)
qed

lemma linked_step_total:
  assumes l: "linked (rev es) (root, mt, h)" and ok: "entries_ok ops es" and m: "wf_ops m ops"
    and c: "c < length es" "hMatch h c = Some r"
  shows "\<exists>v w. hValue h c = Some v \<and> hValue h r = Some w \<and> mStep m s v w = Inr (op_step m s (ops ! nat (hId h c)))"
proof -
  obtain i where i: "i < length ops" "hId h c = int i" "rev es ! c = centry ops i" using linked_nodes(1) [OF l ok m c(1)] c(2) by auto
  have r: "r < length es" "rev es ! r = rentry ops i" using linked_nodes(2) [OF l ok m c] i(2) by simp_all
  have "hValue h c = Some (peValue (rev es ! c))" "hValue h r = Some (peValue (rev es ! r))" using l c(1) r(1) by (simp_all add: linked_def)
  then have "hValue h c = Some (onInput (ops ! i))" "hValue h r = Some (onOutput (ops ! i))" unfolding i(3) r(2) by simp_all
  moreover obtain x where "mStep m s (onInput (ops ! i)) (onOutput (ops ! i)) = Inr x"
    using m i(1) unfolding wf_ops_def by (meson nth_mem)
  ultimately show ?thesis using i(2) by (simp add: op_step_def)
qed

lemma linked_sorted:
  assumes l: "linked (rev es) (root, mt, h)" and ok: "entries_ok ops es" and m: "wf_ops m ops" and ab: "a < b" "b < length es"
  shows "(hMatch h b \<noteq> None) \<noteq> (hMatch h a \<noteq> None) \<longrightarrow>
    (if hMatch h a \<noteq> None then precedes ops (nat (hId h b)) (nat (hId h a)) else \<not> precedes ops (nat (hId h a)) (nat (hId h b)))"
proof -
  have nl: "\<not> byTime_less (rev es ! a) (rev es ! b)"
    using ok ab unfolding entries_ok_def sorted_wrt_iff_nth_less by (simp add: rev_nth)
  have e: "rev es ! x = (if hMatch h x \<noteq> None then centry ops (nat (hId h x)) else rentry ops (nat (hId h x)))" if "x < length es" for x
    using linked_nodes(1) [OF l ok m that] by (metis nat_int)
  have la: "a < length es" using ab by simp
  show ?thesis using nl unfolding e [OF la] e [OF ab(2)]
    by (cases "hMatch h a = None"; cases "hMatch h b = None") (simp_all add: byTime_less_def precedes_def split: if_splits)
qed

lemma linked_plays:
  assumes l: "linked (rev es) (root, mt, h)" and ok: "entries_ok ops es" and m: "wf_ops m ops"
  shows "plays m ops (game_of m h (rev [0..<length es]))"
proof -
  let ?g = "game_of m h (rev [0..<length es])"
  have "gStep ?g s c = op_step m s (ops ! gId ?g c)" if h: "c \<in> set (gNodes ?g)" "gCall ?g c" for s c
  proof -
    have c: "c < length es" using h by (simp add: game_of_def)
    obtain r where r: "hMatch h c = Some r" using h by (auto simp: game_of_def)
    from linked_step_total [OF l ok m c r, of s] show ?thesis using r by (auto simp: game_of_def)
  qed
  moreover have "sorted_wrt (\<lambda>a b. gCall ?g a \<noteq> gCall ?g b \<longrightarrow>
      (if gCall ?g b then precedes ops (gId ?g a) (gId ?g b) else \<not> precedes ops (gId ?g b) (gId ?g a))) (gNodes ?g)"
  proof -
    have n: "gNodes ?g = rev [0..<length es]" by (simp add: game_of_def)
    show ?thesis unfolding n sorted_wrt_iff_nth_less
    proof (intro allI impI, goal_cases)
      case (1 a b)
      then show ?case using linked_sorted [OF l ok m, of "length es - Suc b" "length es - Suc a"]
        by (simp add: game_of_def rev_nth)
    qed
  qed
  moreover have "gInit ?g = mInit m" by (simp add: game_of_def)
  ultimately show ?thesis using linked_wf_game [OF l ok m] unfolding plays_def by blast
qed

end
