(* ===== verification/Porc_Check.thy ===== *)
theory Porc_Check
  imports Porc_Bitset Porc_Model "HOL-Library.While_Combinator"
begin

text \<open>
  The search of the linearizability checker, \<^verbatim>\<open>checkSingle\<close> of \<^verbatim>\<open>src/porcupine/checker.go\<close>, on the heap
  of theory \<^verbatim>\<open>Porc_List\<close>. The loop is a \<^verbatim>\<open>while_option\<close>, whose result \<^verbatim>\<open>None\<close> means that it does not
  end; \<^verbatim>\<open>kill\<close> gives the value of the shared flag in each turn of the loop. The facts show that
  the loop ends, never panics, and decides whether the game of the entries can be won.
\<close>

section \<open>Definitions\<close>

type_synonym 's cache = "64 word \<Rightarrow> (bitset \<times> 's) list"

definition cacheContains :: "('v, 's) Model \<Rightarrow> 's cache \<Rightarrow> bitset \<times> 's \<Rightarrow> bool" where
  "cacheContains m cache e =
     list_ex (\<lambda>elem. bs_equals (fst e) (fst elem) \<and> (case mEqual m of Some eq \<Rightarrow> eq (snd e) (snd elem) | None \<Rightarrow> False))
       (cache (bs_hash (fst e)))"

text \<open>A sequence of ids in \<^verbatim>\<open>longest\<close> is shared through a pointer, here the number of the turn that made it.\<close>

type_synonym longest = "(nat \<times> int list) option list"

record ('v, 's) search =
  sNodes :: "'v nodes"
  sHead :: nat
  sEntry :: "nat option"
  sLinearized :: bitset
  sCache :: "'s cache"
  sCalls :: "(nat \<times> 's) list"
  sState :: 's
  sLongest :: longest
  sTurn :: nat

text \<open>\<^verbatim>\<open>uint(id)\<close> of a 64-bit integer.\<close>

definition uint_of :: "int \<Rightarrow> nat" where
  "uint_of i = nat (i mod 2 ^ 64)"

text \<open>The value of a node; the head, which has none, is never looked at.\<close>

definition node_value :: "'v nodes \<Rightarrow> nat \<Rightarrow> 'v res" where
  "node_value h a = (case hValue h a of None \<Rightarrow> Inl NilPointer | Some v \<Rightarrow> Inr v)"

fun longest_loop :: "nat \<times> int list \<Rightarrow> int list \<Rightarrow> longest \<Rightarrow> longest res" where
  "longest_loop sq [] ls = Inr ls"
| "longest_loop sq (i # ids) ls =
     ebind (nth_go ls i) (\<lambda>l.
     ebind (if (case l of None \<Rightarrow> True | Some old \<Rightarrow> length (snd sq) > length (snd old)) then upd_go ls i (Some sq) else Inr ls)
       (longest_loop sq ids))"

text \<open>Trying the call at the current entry.\<close>

definition try_call :: "('v, 's) Model \<Rightarrow> nat \<Rightarrow> nat \<Rightarrow> ('v, 's) search \<Rightarrow> ('v, 's) search res" where
  "try_call m e matching st =
     (let h = sNodes st; skip = Inr (st\<lparr>sEntry := hNext h e\<rparr>) in
      ebind (node_value h e) (\<lambda>v.
      ebind (node_value h matching) (\<lambda>w.
      ebind (mStep m (sState st) v w) (\<lambda>(ok, newState).
      if ok
      then ebind (bs_set (uint_of (hId h e)) (bs_clone (sLinearized st))) (\<lambda>newLinearized.
           if \<not> cacheContains m (sCache st) (newLinearized, newState)
           then let hash = bs_hash newLinearized in
                ebind (bs_set (uint_of (hId h e)) (sLinearized st)) (\<lambda>lin.
                ebind (lift e h) (\<lambda>h'.
                Inr (st\<lparr>sCache := (sCache st)(hash := sCache st hash @ [(newLinearized, newState)]),
                        sCalls := sCalls st @ [(e, sState st)], sState := newState, sLinearized := lin,
                        sNodes := h', sEntry := hNext h' (sHead st)\<rparr>)))
           else skip)
      else skip))))"

text \<open>Taking back the last call.\<close>

definition back_up :: "bool \<Rightarrow> ('v, 's) search \<Rightarrow> ('v, 's) search res" where
  "back_up computePartial st =
     (let ids = map (\<lambda>c. hId (sNodes st) (fst c)) (sCalls st) in
      ebind (if computePartial then longest_loop (sTurn st, ids) ids (sLongest st) else Inr (sLongest st)) (\<lambda>ls.
      case last (sCalls st) of (e, s) \<Rightarrow>
      ebind (bs_clear (uint_of (hId (sNodes st) e)) (sLinearized st)) (\<lambda>lin.
      ebind (unlift e (sNodes st)) (\<lambda>h.
      Inr (st\<lparr>sLongest := ls, sState := s, sLinearized := lin, sCalls := butlast (sCalls st), sNodes := h, sEntry := hNext h e\<rparr>)))))"

text \<open>One turn of the loop; the second component is the result if the function returns.\<close>

definition search_turn :: "('v, 's) Model \<Rightarrow> bool \<Rightarrow> (nat \<Rightarrow> bool) \<Rightarrow> ('v, 's) search \<Rightarrow> (('v, 's) search \<times> bool option) res" where
  "search_turn m computePartial kill st =
     (let st1 = st\<lparr>sTurn := Suc (sTurn st)\<rparr> in
      if kill (sTurn st) then Inr (st, Some False)
      else ebind (deref (sEntry st)) (\<lambda>e.
           case hMatch (sNodes st) e of
             Some matching \<Rightarrow> ebind (try_call m e matching st1) (\<lambda>st'. Inr (st', None))
           | None \<Rightarrow>
               if sCalls st = [] then Inr (st, Some False)
               else ebind (back_up computePartial st1) (\<lambda>st'. Inr (st', None))))"

fun searching :: "(('v, 's) search \<times> bool option) res \<Rightarrow> bool" where
  "searching (Inr (st, None)) \<longleftrightarrow> hNext (sNodes st) (sHead st) \<noteq> None"
| "searching _ \<longleftrightarrow> False"

fun search_body :: "('v, 's) Model \<Rightarrow> bool \<Rightarrow> (nat \<Rightarrow> bool) \<Rightarrow> (('v, 's) search \<times> bool option) res \<Rightarrow> (('v, 's) search \<times> bool option) res" where
  "search_body m computePartial kill (Inr (st, r)) = search_turn m computePartial kill st"
| "search_body m computePartial kill (Inl e) = Inl e"

definition search_start :: "('v, 's) Model \<Rightarrow> nat \<Rightarrow> nat option \<Rightarrow> 'v nodes \<Rightarrow> ('v, 's) search" where
  "search_start m n entry h =
     (case new_node None None (- 1) h of (headEntry, h1) \<Rightarrow>
      \<lparr>sNodes = insertBefore headEntry entry h1, sHead = headEntry, sEntry = entry, sLinearized = newBitset n, sCache = (\<lambda>_. []),
       sCalls = [], sState = mInit m, sLongest = replicate n None, sTurn = 0\<rparr>)"

fun search_result :: "nat \<Rightarrow> (('v, 's) search \<times> bool option) res \<Rightarrow> (bool \<times> longest) res" where
  "search_result n (Inl e) = Inl e"
| "search_result n (Inr (st, Some b)) = Inr (b, sLongest st)"
| "search_result n (Inr (st, None)) =
     Inr (True, replicate n (Some (sTurn st, map (\<lambda>c. hId (sNodes st) (fst c)) (sCalls st))))"

definition checkSingle :: "('v, 's) Model \<Rightarrow> 'v pentry list \<Rightarrow> bool \<Rightarrow> (nat \<Rightarrow> bool) \<Rightarrow> (bool \<times> longest) res option" where
  "checkSingle m history computePartial kill =
     (case makeLinkedEntries history no_nodes of (entry, h) \<Rightarrow>
      Option.bind (length_loop h entry 0) (\<lambda>len.
      let n = len div 2 in
      map_option (search_result n)
        (while_option searching (search_body m computePartial kill) (Inr (search_start m n entry h, None)))))"


section \<open>The search plays the game\<close>

text \<open>The heap holds the nodes of the game, with their operations and steps.\<close>

definition holds_game :: "('v, 's) Model \<Rightarrow> 's game \<Rightarrow> 'v nodes \<Rightarrow> bool" where
  "holds_game m g h \<longleftrightarrow> (\<forall>a \<in> set (gNodes g).
     hId h a = int (gId g a) \<and> hMatch h a = (if gCall g a then Some (gMatch g a) else None) \<and>
     (gCall g a \<longrightarrow> (\<forall>s. \<exists>v w. hValue h a = Some v \<and> hValue h (gMatch g a) = Some w \<and> mStep m s v w = Inr (gStep g s a))))"

lemma holds_game_same: "same_data h h' \<Longrightarrow> holds_game m g h' = holds_game m g h"
  by (simp add: holds_game_def same_data_def)

definition eq_model :: "('v, 's) Model \<Rightarrow> bool" where
  "eq_model m \<longleftrightarrow> (case mEqual m of Some eq \<Rightarrow> \<forall>s t. eq s t \<longleftrightarrow> s = t | None \<Rightarrow> False)"

fun lift_all :: "nat list \<Rightarrow> 'v nodes \<Rightarrow> 'v nodes res" where
  "lift_all [] h = Inr h"
| "lift_all (c # cs) h = ebind (lift c h) (lift_all cs)"

lemma lift_all_snoc: "lift_all (cs @ [c]) h = ebind (lift_all cs h) (lift c)"
proof (induction cs arbitrary: h)
  case (Cons d cs)
  then show ?case by (cases "lift d h") simp_all
next
  case Nil
  show ?case by (cases "lift c h") simp_all
qed

definition cached :: "'s cache \<Rightarrow> (nat set \<times> 's) set" where
  "cached cache = {(bs_bits b, t) | b t hsh. (b, t) \<in> set (cache hsh)}"

definition cache_ok :: "nat \<Rightarrow> 's game \<Rightarrow> (nat set \<times> 's) set \<Rightarrow> 's cache \<Rightarrow> bool" where
  "cache_ok n g K cache \<longleftrightarrow> (\<forall>hsh b t. (b, t) \<in> set (cache hsh) \<longrightarrow> hsh = bs_hash b \<and> length b = length (newBitset n) \<and>
     reach g (bs_bits b) t \<and> (winnable g (bs_bits b) t \<longrightarrow> (bs_bits b, t) \<in> K))"

text \<open>The sequences in \<^verbatim>\<open>longest\<close> are orders in which the search took calls.\<close>

definition longest_ok :: "nat \<Rightarrow> 's game \<Rightarrow> longest \<Rightarrow> bool" where
  "longest_ok n g ls \<longleftrightarrow> length ls = n \<and> (\<forall>i k sq. i < n \<longrightarrow> ls ! i = Some (k, sq) \<longrightarrow> int i \<in> set sq \<and>
     (\<exists>cs L s K. frames g cs L s K \<and> sq = map (\<lambda>c. int (gId g (fst c))) cs))"

text \<open>The current entry: all calls before it are hopeless.\<close>

definition at_entry :: "'s game \<Rightarrow> nat set \<Rightarrow> 's \<Rightarrow> nat option \<Rightarrow> bool" where
  "at_entry g L s en \<longleftrightarrow> (left g L \<noteq> [] \<longrightarrow> (\<exists>pre e post. left g L = pre @ e # post \<and> en = Some e \<and>
     (\<forall>a \<in> set pre. gCall g a \<and> hopeless g L s a)))"

definition search_inv :: "('v, 's) Model \<Rightarrow> nat \<Rightarrow> 's game \<Rightarrow> 'v nodes \<Rightarrow> nat set \<Rightarrow> (nat set \<times> 's) set \<Rightarrow> ('v, 's) search \<Rightarrow> bool" where
  "search_inv m n g H L K st \<longleftrightarrow>
     same_data H (sNodes st) \<and> lift_all (map fst (sCalls st)) H = Inr (sNodes st) \<and>
     frames g (sCalls st) L (sState st) K \<and> sHead st \<notin> set (gNodes g) \<and> dll (sNodes st) (sHead st # left g L) \<and>
     at_entry g L (sState st) (sEntry st) \<and>
     length (sLinearized st) = length (newBitset n) \<and> bs_bits (sLinearized st) = L \<and>
     cache_ok n g K (sCache st) \<and> longest_ok n g (sLongest st)"

definition arena :: "('v, 's) Model \<Rightarrow> nat \<Rightarrow> 's game \<Rightarrow> 'v nodes \<Rightarrow> bool" where
  "arena m n g H \<longleftrightarrow> wf_game n g \<and> holds_game m g H \<and> eq_model m \<and> n < 2 ^ 63"

lemma uint_of_id: "i < 2 ^ 63 \<Longrightarrow> uint_of (int i) = i"
proof -
  assume "i < 2 ^ 63"
  then have "int i < 2 ^ 63" by (metis of_nat_less_iff of_nat_numeral of_nat_power)
  then have "int i mod 2 ^ 64 = int i" by (intro mod_pos_pos_trivial) simp_all
  then show ?thesis by (simp add: uint_of_def)
qed

lemma cacheContains_iff:
  assumes "eq_model m" and "cache_ok n g K cache" and "length b = length (newBitset n)"
  shows "cacheContains m cache (b, t) \<longleftrightarrow> (bs_bits b, t) \<in> cached cache"
proof -
  obtain eq where eq: "mEqual m = Some eq" "\<forall>s t. eq s t \<longleftrightarrow> s = t" using assms(1) by (auto simp: eq_model_def split: option.splits)
  have "cacheContains m cache (b, t) \<longleftrightarrow> (b, t) \<in> set (cache (bs_hash b))"
    using eq by (force simp: cacheContains_def list_ex_iff bs_equals_iff)
  also have "\<dots> \<longleftrightarrow> (bs_bits b, t) \<in> cached cache"
  proof
    assume "(bs_bits b, t) \<in> cached cache"
    then obtain b' hsh where b': "(b', t) \<in> set (cache hsh)" "bs_bits b' = bs_bits b" by (auto simp: cached_def)
    then have "hsh = bs_hash b'" "length b' = length b" using assms(2,3) unfolding cache_ok_def by metis+
    with b' show "(b, t) \<in> set (cache (bs_hash b))" using bs_bits_eq by metis
  qed (auto simp: cached_def)
  finally show ?thesis .
qed

lemma finite_cached:
  assumes "cache_ok n g K cache"
  shows "cached cache \<subseteq> {(L, s). reach g L s}"
  using assms unfolding cached_def cache_ok_def by blast

lemma cached_add: "cached (cache(hsh := cache hsh @ [(b, t)])) = insert (bs_bits b, t) (cached cache)"
proof (rule set_eqI)
  fix x
  have "x \<in> cached c \<longleftrightarrow> (\<exists>b t k. (b, t) \<in> set (c k) \<and> x = (bs_bits b, t))" for c :: "'a cache" by (auto simp: cached_def)
  moreover have "(b', t') \<in> set ((cache(hsh := cache hsh @ [(b, t)])) k) \<longleftrightarrow> (b', t') \<in> set (cache k) \<or> k = hsh \<and> b' = b \<and> t' = t" for b' t' k
    by auto
  ultimately show "x \<in> cached (cache(hsh := cache hsh @ [(b, t)])) \<longleftrightarrow> x \<in> insert (bs_bits b, t) (cached cache)"
    by (simp only: insert_iff) blast
qed


text \<open>What decreases: the configurations not seen yet, then the depth of the stack, then the calls still to be tried.\<close>

definition rank :: "'s game \<Rightarrow> ('v, 's) search \<Rightarrow> nat \<times> nat \<times> nat" where
  "rank g st = (card ({(L, s). reach g L s} - cached (sCache st)), length (sCalls st),
     length (dropWhile (\<lambda>a. Some a \<noteq> sEntry st) (left g (gId g ` fst ` set (sCalls st)))))"

abbreviation better :: "((nat \<times> nat \<times> nat) \<times> (nat \<times> nat \<times> nat)) set" where
  "better \<equiv> less_than <*lex*> less_than <*lex*> less_than"

lemma search_inv_turn [simp]:
  "search_inv m n g H L K (st\<lparr>sTurn := k\<rparr>) = search_inv m n g H L K st" "rank g (st\<lparr>sTurn := k\<rparr>) = rank g st"
  by (simp_all add: search_inv_def rank_def)

lemma search_invD:
  assumes "search_inv m n g H L K st"
  shows "same_data H (sNodes st)" "lift_all (map fst (sCalls st)) H = Inr (sNodes st)" "frames g (sCalls st) L (sState st) K"
    "dll (sNodes st) (sHead st # left g L)" "length (sLinearized st) = length (newBitset n)" "bs_bits (sLinearized st) = L"
    "cache_ok n g K (sCache st)" "longest_ok n g (sLongest st)" "sHead st \<notin> set (gNodes g)" "at_entry g L (sState st) (sEntry st)"
  using assms by (simp_all add: search_inv_def)

lemma search_inv_entry:
  "search_inv m n g H L K st \<Longrightarrow> at_entry g L (sState st) en \<Longrightarrow> search_inv m n g H L K (st\<lparr>sEntry := en\<rparr>)"
  by (simp add: search_inv_def)

lemma left_distinct: "wf_game n g \<Longrightarrow> distinct (left g L)"
  by (simp add: left_def wf_game_def)

lemma drop_to_entry: "distinct (pre @ e # post) \<Longrightarrow> dropWhile (\<lambda>a. Some a \<noteq> Some e) (pre @ e # post) = e # post"
  by (auto simp: dropWhile_append)

lemma left_node:
  assumes "wf_game n g" and "left g L = pre @ e # post" and "gCall g e"
  shows "\<exists>ys zs. post = ys @ gMatch g e # zs \<and> left g (insert (gId g e) L) = pre @ ys @ zs"
proof -
  have e: "e \<in> set (left g L)" using assms(2) by simp
  obtain xs ys zs where s: "left g L = xs @ e # ys @ gMatch g e # zs" "left g (insert (gId g e) L) = xs @ ys @ zs"
    using left_split [OF assms(1) e assms(3)] by blast
  have "distinct (pre @ e # post)" using left_distinct [OF assms(1)] assms(2) by metis
  moreover have "pre @ e # post = xs @ e # ys @ gMatch g e # zs" using assms(2) s(1) by simp
  ultimately have "pre = xs \<and> post = ys @ gMatch g e # zs" by (metis append_Cons_eq_iff distinct.simps(2) distinct_append not_distinct_conv_prefix)
  with s(2) show ?thesis by blast
qed

text \<open>Going to the next entry.\<close>

lemma skip_inv:
  assumes ar: "arena m n g H" and inv: "search_inv m n g H L K st" and l: "left g L = pre @ e # post" "sEntry st = Some e"
    and pre: "\<forall>a \<in> set pre. gCall g a \<and> hopeless g L (sState st) a" and e: "gCall g e" "hopeless g L (sState st) e"
  shows "search_inv m n g H L K (st\<lparr>sEntry := hNext (sNodes st) e\<rparr>)" "(rank g (st\<lparr>sEntry := hNext (sNodes st) e\<rparr>), rank g st) \<in> better"
proof -
  have wf: "wf_game n g" using ar by (simp add: arena_def)
  obtain b bs where post: "post = b # bs" using left_node [OF wf l(1) e(1)] by (cases post) auto
  have "dll (sNodes st) ((sHead st # pre) @ e # post)" using search_invD(4) [OF inv] l(1) by simp
  from dll_node(2) [OF this] have nx: "hNext (sNodes st) e = Some b" using post by simp
  have "left g L = (pre @ [e]) @ b # bs" "\<forall>a \<in> set (pre @ [e]). gCall g a \<and> hopeless g L (sState st) a"
    using l(1) post pre e by simp_all
  then have "at_entry g L (sState st) (Some b)" unfolding at_entry_def by blast
  with inv show "search_inv m n g H L K (st\<lparr>sEntry := hNext (sNodes st) e\<rparr>)" unfolding nx by (rule search_inv_entry)
  have L: "gId g ` fst ` set (sCalls st) = L" using frames_reach [OF search_invD(3) [OF inv]] by simp
  have d: "distinct (pre @ e # b # bs)" "distinct ((pre @ [e]) @ b # bs)" using left_distinct [OF wf, of L] l(1) post by simp_all
  show "(rank g (st\<lparr>sEntry := hNext (sNodes st) e\<rparr>), rank g st) \<in> better"
    using drop_to_entry [OF d(1)] drop_to_entry [OF d(2)] l post nx by (simp add: rank_def L)
qed


lemma holds_gameD:
  assumes "holds_game m g h" and "a \<in> set (left g L)"
  shows "hId h a = int (gId g a)" "hMatch h a = (if gCall g a then Some (gMatch g a) else None)"
    "gCall g a \<Longrightarrow> \<exists>v w. node_value h a = Inr v \<and> node_value h (gMatch g a) = Inr w \<and> mStep m s v w = Inr (gStep g s a)"
proof -
  have a: "a \<in> set (gNodes g)" using assms(2) by (simp add: left_def)
  show "hId h a = int (gId g a)" "hMatch h a = (if gCall g a then Some (gMatch g a) else None)"
    using assms(1) a by (simp_all add: holds_game_def)
  show "gCall g a \<Longrightarrow> \<exists>v w. node_value h a = Inr v \<and> node_value h (gMatch g a) = Inr w \<and> mStep m s v w = Inr (gStep g s a)"
    using assms(1) a unfolding holds_game_def node_value_def by fastforce
qed

lemma same_data_trans: "same_data a b \<Longrightarrow> same_data b c \<Longrightarrow> same_data a c"
  by (simp add: same_data_def)

text \<open>Lifting a ready call takes its operation out of the list; \<^verbatim>\<open>unlift\<close> undoes it.\<close>

lemma lift_left:
  assumes wf: "wf_game n g" and hg: "holds_game m g h" and d: "dll h (hr # left g L)" and l: "left g L = pre @ e # post" and e: "gCall g e"
  shows "\<exists>h'. lift e h = Inr h' \<and> dll h' (hr # left g (insert (gId g e) L)) \<and> same_data h h' \<and> unlift e h' = Inr h"
proof -
  obtain ys zs where p: "post = ys @ gMatch g e # zs" "left g (insert (gId g e) L) = pre @ ys @ zs" using left_node [OF wf l e] by blast
  have "dll h ((hr # pre) @ e # ys @ gMatch g e # zs)" using d l p(1) by simp
  moreover have "hMatch h e = Some (gMatch g e)" using holds_gameD(2) [OF hg, of e L] l e by simp
  ultimately show ?thesis using lift_dll [of h "hr # pre" e ys "gMatch g e" zs] p(2) by simp
qed

lemma lifted_dll:
  assumes "wf_game n g" and "holds_game m g H" and "dll H (hr # gNodes g)"
  shows "frames g cs L s K \<Longrightarrow> lift_all (map fst cs) H = Inr h \<Longrightarrow> dll h (hr # left g L) \<and> same_data H h"
proof (induction arbitrary: h rule: frames.induct)
  case bottom
  then show ?case using assms(3) by (simp add: left_def same_data_def)
next
  case (push cs L s K pre c post s')
  then obtain h1 where h1: "lift_all (map fst cs) H = Inr h1" "lift c h1 = Inr h" by (auto simp: lift_all_snoc ebind_eq_Inr)
  from push.IH [OF h1(1)] have d: "dll h1 (hr # left g L)" "same_data H h1" by simp_all
  have "holds_game m g h1" using assms(2) holds_game_same [OF d(2), of m g] by simp
  from lift_left [OF assms(1) this d(1) push.hyps(2,4)] h1(2) d(2) show ?case using same_data_trans by auto
qed

lemma first_entry:
  assumes "dll h (hr # left g L)"
  shows "at_entry g L s (hNext h hr)"
proof (cases "left g L")
  case (Cons b bs)
  then have "hNext h hr = Some b" using assms by (simp add: dll_def)
  then show ?thesis unfolding at_entry_def Cons by (intro impI exI [of _ "[]"] exI [of _ b] exI [of _ bs]) simp
qed (simp add: at_entry_def)

lemma bits_room:
  assumes "arena m n g H" and "a \<in> set (left g L)" and "length b = length (newBitset n)"
  shows "gId g a < 64 * length b" "uint_of (int (gId g a)) = gId g a"
proof -
  have "gId g a < n" using assms(1,2) by (simp add: arena_def wf_game_def left_def)
  moreover have "n < 2 ^ 63" using assms(1) by (simp add: arena_def)
  ultimately show "gId g a < 64 * length b" "uint_of (int (gId g a)) = gId g a"
    using newBitset_covers [of n] assms(3) uint_of_id [of "gId g a"] by simp_all
qed

text \<open>Taking a call.\<close>

lemma push_inv:
  assumes ar: "arena m n g H" and inv: "search_inv m n g H L K st" and l: "left g L = pre @ e # post"
    and pre: "\<forall>a \<in> set pre. gCall g a \<and> hopeless g L (sState st) a" and e: "gCall g e" and ok: "gStep g (sState st) e = (True, s')"
    and b: "bs_bits b = insert (gId g e) L" "length b = length (newBitset n)" and miss: "(bs_bits b, s') \<notin> cached (sCache st)"
  shows "\<exists>h'. lift e (sNodes st) = Inr h' \<and>
    (let st' = st\<lparr>sCache := (sCache st)(bs_hash b := sCache st (bs_hash b) @ [(b, s')]), sCalls := sCalls st @ [(e, sState st)],
        sState := s', sLinearized := b, sNodes := h', sEntry := hNext h' (sHead st)\<rparr>
     in search_inv m n g H (bs_bits b) (insert (bs_bits b, s') K) st' \<and> (rank g st', rank g st) \<in> better)"
proof -
  note i = search_invD [OF inv]
  have wf: "wf_game n g" "holds_game m g (sNodes st)" using ar holds_game_same [OF i(1), of m g] by (simp_all add: arena_def)
  obtain h' where h': "lift e (sNodes st) = Inr h'" "dll h' (sHead st # left g (bs_bits b))" "same_data (sNodes st) h'"
    using lift_left [OF wf i(4) l e] b(1) by metis
  have fr: "frames g (sCalls st @ [(e, sState st)]) (bs_bits b) s' (insert (bs_bits b, s') K)"
    unfolding b(1) by (rule frames.push [OF i(3) l pre e ok])
  let ?cache = "(sCache st)(bs_hash b := sCache st (bs_hash b) @ [(b, s')])"
  let ?st = "st\<lparr>sCache := ?cache, sCalls := sCalls st @ [(e, sState st)], sState := s', sLinearized := b, sNodes := h', sEntry := hNext h' (sHead st)\<rparr>"
  have r: "reach g (bs_bits b) s'" using frames_reach [OF fr] by blast
  have "cache_ok n g (insert (bs_bits b, s') K) ?cache"
    unfolding cache_ok_def
  proof (intro allI impI)
    fix hsh b' t assume a: "(b', t) \<in> set (?cache hsh)"
    show "hsh = bs_hash b' \<and> length b' = length (newBitset n) \<and> reach g (bs_bits b') t \<and>
      (winnable g (bs_bits b') t \<longrightarrow> (bs_bits b', t) \<in> insert (bs_bits b, s') K)"
    proof (cases "(b', t) \<in> set (sCache st hsh)")
      case True
      then show ?thesis using i(7) unfolding cache_ok_def by blast
    next
      case False
      with a have "b' = b" "t = s'" "hsh = bs_hash b" by (auto split: if_splits)
      then show ?thesis using b(2) r by simp
    qed
  qed
  moreover have "lift_all (map fst (sCalls st @ [(e, sState st)])) H = Inr h'" using i(2) h'(1) by (simp add: lift_all_snoc)
  ultimately have "search_inv m n g H (bs_bits b) (insert (bs_bits b, s') K) ?st"
    using i fr h' b(2) same_data_trans [OF i(1) h'(3)] first_entry [OF h'(2), of s'] by (simp add: search_inv_def)
  moreover have "{(L, s). reach g L s} - cached ?cache \<subset> {(L, s). reach g L s} - cached (sCache st)"
    unfolding cached_add using r miss by auto
  then have "card ({(L, s). reach g L s} - cached ?cache) < card ({(L, s). reach g L s} - cached (sCache st))"
    by (rule psubset_card_mono [rotated]) (simp add: finite_reach)
  then have "(rank g ?st, rank g st) \<in> better" by (simp add: rank_def)
  ultimately show ?thesis using h'(1) by (simp add: Let_def)
qed


lemma try_call_inv:
  assumes ar: "arena m n g H" and inv: "search_inv m n g H L K st" and l: "left g L = pre @ e # post" "sEntry st = Some e"
    and pre: "\<forall>a \<in> set pre. gCall g a \<and> hopeless g L (sState st) a" and e: "gCall g e"
  shows "\<exists>st' L' K'. try_call m e (gMatch g e) st = Inr st' \<and> search_inv m n g H L' K' st' \<and> (rank g st', rank g st) \<in> better \<and> sHead st' = sHead st"
proof -
  note i = search_invD [OF inv]
  have hg: "holds_game m g (sNodes st)" using ar holds_game_same [OF i(1), of m g] by (simp add: arena_def)
  have el: "e \<in> set (left g L)" using l(1) by simp
  obtain v w where vw: "node_value (sNodes st) e = Inr v" "node_value (sNodes st) (gMatch g e) = Inr w"
    "mStep m (sState st) v w = Inr (gStep g (sState st) e)" using holds_gameD(3) [OF hg el e] by blast
  obtain ok s' where stp: "gStep g (sState st) e = (ok, s')" by fastforce
  have id: "uint_of (hId (sNodes st) e) = gId g e" using bits_room(2) [OF ar el i(5)] holds_gameD(1) [OF hg el] by simp
  obtain b where b: "bs_set (gId g e) (sLinearized st) = Inr b" "bs_bits b = insert (gId g e) L" "length b = length (newBitset n)"
    using bs_set_bits [OF bits_room(1) [OF ar el i(5)]] i(5,6) by auto
  note run = vw stp id b(1) try_call_def bs_clone_def
  show ?thesis
  proof (cases "ok \<and> (bs_bits b, s') \<notin> cached (sCache st)")
    case True
    then have ok: "gStep g (sState st) e = (True, s')" using stp by simp
    have cc: "\<not> cacheContains m (sCache st) (b, s')" using cacheContains_iff [OF _ i(7) b(3), of m s'] ar True by (simp add: arena_def)
    obtain h' where h': "lift e (sNodes st) = Inr h'" and st': "search_inv m n g H (bs_bits b) (insert (bs_bits b, s') K)
        (st\<lparr>sCache := (sCache st)(bs_hash b := sCache st (bs_hash b) @ [(b, s')]), sCalls := sCalls st @ [(e, sState st)],
        sState := s', sLinearized := b, sNodes := h', sEntry := hNext h' (sHead st)\<rparr>)"
      "(rank g (st\<lparr>sCache := (sCache st)(bs_hash b := sCache st (bs_hash b) @ [(b, s')]), sCalls := sCalls st @ [(e, sState st)],
        sState := s', sLinearized := b, sNodes := h', sEntry := hNext h' (sHead st)\<rparr>), rank g st) \<in> better"
      using push_inv [OF ar inv l(1) pre e ok b(2,3)] True unfolding Let_def by blast
    show ?thesis
    proof (intro exI conjI)
      show "search_inv m n g H (bs_bits b) (insert (bs_bits b, s') K)
        (st\<lparr>sCache := (sCache st)(bs_hash b := sCache st (bs_hash b) @ [(b, s')]), sCalls := sCalls st @ [(e, sState st)],
        sState := s', sLinearized := b, sNodes := h', sEntry := hNext h' (sHead st)\<rparr>)" by (rule st'(1))
    qed (use True cc h' st'(2) in \<open>simp_all add: run Let_def\<close>)
  next
    case False
    have "hopeless g L (sState st) e"
    proof (cases ok)
      case True
      with False have "(bs_bits b, s') \<in> cached (sCache st)" by simp
      then obtain b' where "bs_bits b' = bs_bits b" "winnable g (bs_bits b') s' \<longrightarrow> (bs_bits b', s') \<in> K"
        using i(7) unfolding cached_def cache_ok_def by blast
      moreover have "gId g e \<notin> L" using el by (simp add: left_def)
      then have "(bs_bits b, s') \<notin> K" using frames_below [OF i(3)] b(2) by blast
      ultimately show ?thesis using b(2) stp by (simp add: hopeless_def)
    qed (use stp in \<open>simp add: hopeless_def\<close>)
    from skip_inv [OF ar inv l pre e this] have sk: "search_inv m n g H L K (st\<lparr>sEntry := hNext (sNodes st) e\<rparr>)"
      "(rank g (st\<lparr>sEntry := hNext (sNodes st) e\<rparr>), rank g st) \<in> better" by simp_all
    have "ok \<Longrightarrow> cacheContains m (sCache st) (b, s')" using cacheContains_iff [OF _ i(7) b(3), of m s'] ar False by (simp add: arena_def)
    then have "try_call m e (gMatch g e) st = Inr (st\<lparr>sEntry := hNext (sNodes st) e\<rparr>)" by (simp add: run Let_def)
    with sk show ?thesis by fastforce
  qed
qed


text \<open>Taking back a call; the sequence of calls is noted for each of its operations.\<close>

lemma longest_loop_ok:
  assumes "longest_ok n g ls" and "frames g cs L s K" and "snd sq = map (\<lambda>c. int (gId g (fst c))) cs"
    and "\<forall>i \<in> set ids. i \<in> set (snd sq) \<and> 0 \<le> i \<and> i < int n"
  shows "\<exists>ls'. longest_loop sq ids ls = Inr ls' \<and> longest_ok n g ls'"
  using assms(1,4)
proof (induction ids arbitrary: ls)
  case (Cons i ids)
  then have i: "i \<in> set (snd sq)" "0 \<le> i" "i < int n" "length ls = n" by (simp_all add: longest_ok_def)
  have new: "longest_ok n g (ls[nat i := Some sq])"
    unfolding longest_ok_def
  proof (rule conjI, use i(4) in simp, intro allI impI)
    fix j k q assume j: "j < n" and "ls[nat i := Some sq] ! j = Some (k, q)"
    then have "j = nat i \<and> q = snd sq \<or> ls ! j = Some (k, q)" using i(4) by (cases "j = nat i") auto
    then show "int j \<in> set q \<and> (\<exists>cs L s K. frames g cs L s K \<and> q = map (\<lambda>c. int (gId g (fst c))) cs)"
    proof
      assume "j = nat i \<and> q = snd sq"
      then show ?thesis using i(1,2) assms(2,3) by auto
    next
      assume "ls ! j = Some (k, q)"
      then show ?thesis using Cons.prems(1) j unfolding longest_ok_def by blast
    qed
  qed
  let ?ls = "if (case ls ! nat i of None \<Rightarrow> True | Some old \<Rightarrow> length (snd sq) > length (snd old)) then ls[nat i := Some sq] else ls"
  have "longest_loop sq (i # ids) ls = longest_loop sq ids ?ls" using i by (simp add: nth_go_def upd_go_def)
  moreover have "longest_ok n g ?ls" using new Cons.prems(1) by simp
  ultimately show ?case using Cons.IH [of ?ls] Cons.prems(2) by simp
qed simp

lemma frames_nodes: "frames g cs L s K \<Longrightarrow> c \<in> set cs \<Longrightarrow> fst c \<in> set (gNodes g)"
proof (induction rule: frames.induct)
  case (push cs L s K pre c' post s')
  have "c' \<in> set (left g L)" using push.hyps(2) by simp
  then show ?case using push.IH push.prems by (auto simp: left_def)
qed simp

lemma back_up_inv:
  assumes ar: "arena m n g H" "dll H (sHead st # gNodes g)" and inv: "search_inv m n g H L' K' st" and nw: "\<not> winnable g L' (sState st)" and cs: "sCalls st \<noteq> []"
  shows "\<exists>st' L K. back_up cp st = Inr st' \<and> search_inv m n g H L K st' \<and> (rank g st', rank g st) \<in> better \<and> sHead st' = sHead st"
proof -
  note i = search_invD [OF inv]
  have wf: "wf_game n g" "holds_game m g H" "holds_game m g (sNodes st)" using ar holds_game_same [OF i(1), of m g] by (simp_all add: arena_def)
  obtain cs' c t where c: "sCalls st = cs' @ [(c, t)]" using cs by (metis prod.exhaust rev_exhaust)
  obtain L K pre post where f: "frames g cs' L t K" "left g L = pre @ c # post" "\<forall>a \<in> set pre. gCall g a \<and> hopeless g L t a"
    "gCall g c" "gStep g t c = (True, sState st)" "L' = insert (gId g c) L" "K' = insert (L', sState st) K"
    using frames_pop i(3) unfolding c by metis
  obtain h where h: "lift_all (map fst cs') H = Inr h" "lift c h = Inr (sNodes st)" using i(2) by (auto simp: c lift_all_snoc ebind_eq_Inr)
  from lifted_dll [OF wf(1,2) ar(2) f(1) h(1)] have d: "dll h (sHead st # left g L)" "same_data H h" by simp_all
  have hg: "holds_game m g h" using wf(2) holds_game_same [OF d(2), of m g] by simp
  have un: "unlift c (sNodes st) = Inr h" using lift_left [OF wf(1) hg d(1) f(2,4)] h(2) by simp
  have cl: "c \<in> set (left g L)" "gId g c \<notin> L" using f(2) by (simp, metis f(2) in_set_conv_decomp left_def mem_Collect_eq set_filter)
  have id: "uint_of (hId (sNodes st) c) = gId g c"
    using bits_room(2) [OF ar(1) cl(1) i(5)] holds_gameD(1) [OF wf(3) cl(1)] by simp
  obtain b where b: "bs_clear (gId g c) (sLinearized st) = Inr b" "bs_bits b = L" "length b = length (newBitset n)"
    using bs_clear_bits [OF bits_room(1) [OF ar(1) cl(1) i(5)]] i(5,6) f(6) cl(2) by auto
  have ids: "map (\<lambda>c. hId (sNodes st) (fst c)) (sCalls st) = map (\<lambda>c. int (gId g (fst c))) (sCalls st)"
    using wf(3) frames_nodes [OF i(3)] by (simp add: holds_game_def)
  have lim: "\<forall>c \<in> set (sCalls st). gId g (fst c) < n" using wf(1) frames_nodes [OF i(3)] by (simp add: wf_game_def)
  let ?sq = "(sTurn st, map (\<lambda>c. hId (sNodes st) (fst c)) (sCalls st))"
  obtain ls where ls: "(if cp then longest_loop ?sq (snd ?sq) (sLongest st) else Inr (sLongest st)) = Inr ls" "longest_ok n g ls"
    using longest_loop_ok [OF i(8,3), of ?sq "snd ?sq"] ids lim i(8) by (cases cp) auto
  let ?st = "st\<lparr>sLongest := ls, sState := t, sLinearized := b, sCalls := cs', sNodes := h, sEntry := Some c\<rparr>"
  have "cache_ok n g K (sCache st)" using i(7) nw unfolding cache_ok_def f(7) by blast
  moreover have "at_entry g L t (Some c)" using f(2,3) unfolding at_entry_def by blast
  ultimately have "search_inv m n g H L K ?st" using i h(1) d f(1) b ls(2) by (simp add: search_inv_def)
  moreover have "hopeless g L t c" using nw f(5,6) by (simp add: hopeless_def)
  ultimately have "search_inv m n g H L K (?st\<lparr>sEntry := hNext h c\<rparr>)" using skip_inv(1) [OF ar(1), of L K ?st pre c post] f(2,3,4) by simp
  moreover have "back_up cp st = Inr (?st\<lparr>sEntry := hNext h c\<rparr>)"
    using ls(1) unfolding back_up_def Let_def by (simp only: snd_conv) (simp add: c id b(1) un)
  moreover have "(rank g (?st\<lparr>sEntry := hNext h c\<rparr>), rank g st) \<in> better" by (simp add: rank_def c)
  ultimately show ?thesis by fastforce
qed


section \<open>The loop ends and decides\<close>

fun loop_inv :: "('v, 's) Model \<Rightarrow> nat \<Rightarrow> 's game \<Rightarrow> 'v nodes \<Rightarrow> nat \<Rightarrow> (nat \<Rightarrow> bool) \<Rightarrow> (('v, 's) search \<times> bool option) res \<Rightarrow> bool" where
  "loop_inv m n g H hr kill (Inl e) \<longleftrightarrow> False"
| "loop_inv m n g H hr kill (Inr (st, None)) \<longleftrightarrow> (\<exists>L K. search_inv m n g H L K st) \<and> sHead st = hr"
| "loop_inv m n g H hr kill (Inr (st, Some r)) \<longleftrightarrow> \<not> r \<and> longest_ok n g (sLongest st) \<and> ((\<exists>k. kill k) \<or> \<not> winnable g {} (gInit g))"

fun loop_rank :: "'s game \<Rightarrow> (('v, 's) search \<times> bool option) res \<Rightarrow> nat \<times> nat \<times> nat \<times> nat" where
  "loop_rank g (Inr (st, None)) = (1, rank g st)"
| "loop_rank g _ = (0, 0, 0, 0)"

abbreviation ranks :: "((nat \<times> nat \<times> nat \<times> nat) \<times> (nat \<times> nat \<times> nat \<times> nat)) set" where
  "ranks \<equiv> less_than <*lex*> better"

lemma searching_left: "search_inv m n g H L K st \<Longrightarrow> searching (Inr (st, None)) \<longleftrightarrow> left g L \<noteq> []"
  using search_invD(4) by (cases "left g L") (force simp: dll_def)+

lemma turn_inv:
  assumes ar: "arena m n g H" "dll H (hr # gNodes g)" and inv: "loop_inv m n g H hr kill x" and go: "searching x"
  shows "loop_inv m n g H hr kill (search_body m cp kill x) \<and> (loop_rank g (search_body m cp kill x), loop_rank g x) \<in> ranks"
proof -
  obtain st where x: "x = Inr (st, None)" using go by (cases x rule: searching.cases) auto
  obtain L K where si: "search_inv m n g H L K st" and hr: "sHead st = hr" using inv x by auto
  note i = search_invD [OF si]
  have "left g L \<noteq> []" using searching_left [OF si] go x by simp
  then obtain pre e post where e: "left g L = pre @ e # post" "sEntry st = Some e" "\<forall>a \<in> set pre. gCall g a \<and> hopeless g L (sState st) a"
    using i(10) unfolding at_entry_def by blast
  have el: "e \<in> set (left g L)" using e(1) by simp
  have "holds_game m g (sNodes st)" using ar(1) holds_game_same [OF i(1), of m g] by (simp add: arena_def)
  from holds_gameD(2) [OF this el] have mt: "hMatch (sNodes st) e = (if gCall g e then Some (gMatch g e) else None)" .
  let ?st = "st\<lparr>sTurn := Suc (sTurn st)\<rparr>"
  have si': "search_inv m n g H L K ?st" using si by simp
  consider "kill (sTurn st)" | "\<not> kill (sTurn st)" "gCall g e" | "\<not> kill (sTurn st)" "\<not> gCall g e" "sCalls st = []"
    | "\<not> kill (sTurn st)" "\<not> gCall g e" "sCalls st \<noteq> []" by blast
  then show ?thesis
  proof cases
    case 1
    then show ?thesis using i(8) by (auto simp: x search_turn_def)
  next
    case 2
    have "sEntry ?st = Some e" "\<forall>a \<in> set pre. gCall g a \<and> hopeless g L (sState ?st) a" using e(2,3) by simp_all
    from try_call_inv [OF ar(1) si' e(1) this 2(2)] obtain st' L' K' where
      "try_call m e (gMatch g e) ?st = Inr st'" "search_inv m n g H L' K' st'" "(rank g st', rank g ?st) \<in> better" "sHead st' = sHead ?st" by blast
    then show ?thesis using 2 e(2) mt hr by (auto simp: x search_turn_def deref_def)
  next
    case 3
    have "\<not> winnable g L (sState st)" by (rule exhausted [OF e(1,3) 3(2)])
    then have "\<not> winnable g {} (gInit g)" using i(3) 3(3) frames_nil by metis
    then show ?thesis using 3 e(2) mt i(8) by (auto simp: x search_turn_def deref_def)
  next
    case 4
    have nw: "\<not> winnable g L (sState ?st)" using exhausted [OF e(1,3) 4(2)] by simp
    from back_up_inv [OF ar(1) _ si' nw, of cp] obtain st' L' K' where
      "back_up cp ?st = Inr st'" "search_inv m n g H L' K' st'" "(rank g st', rank g ?st) \<in> better" "sHead st' = sHead ?st"
      using ar(2) hr 4(3) by auto
    then show ?thesis using 4 e(2) mt hr by (auto simp: x search_turn_def deref_def)
  qed
qed

lemma search_ends:
  assumes ar: "arena m n g H" "dll H (hr # gNodes g)" and "loop_inv m n g H hr kill x"
  shows "\<exists>y. while_option searching (search_body m cp kill) x = Some y \<and> loop_inv m n g H hr kill y \<and> \<not> searching y"
proof -
  have "\<exists>y. while_option searching (search_body m cp kill) x = Some y"
  proof (rule wf_rel_while_option_Some [where R = "inv_image ranks (loop_rank g)" and P = "loop_inv m n g H hr kill"])
    show "wf (inv_image ranks (loop_rank g))" by (intro wf_inv_image wf_lex_prod wf_less_than)
    show "(search_body m cp kill s, s) \<in> inv_image ranks (loop_rank g)" if "loop_inv m n g H hr kill s \<and> searching s" for s
      unfolding in_inv_image using turn_inv [OF ar] that by blast
    show "loop_inv m n g H hr kill (search_body m cp kill s)" if "loop_inv m n g H hr kill s \<and> searching s" for s
      using turn_inv [OF ar] that by blast
  qed (rule assms(3))
  then obtain y where y: "while_option searching (search_body m cp kill) x = Some y" by blast
  have "loop_inv m n g H hr kill y"
    using while_option_rule [where P = "loop_inv m n g H hr kill", OF _ y assms(3)] turn_inv [OF ar] by blast
  with y while_option_stop [OF y] show ?thesis by blast
qed


section \<open>From the entries to the game\<close>

lemma entries_length: "entries_ok ops es \<Longrightarrow> length es = 2 * length ops"
proof -
  assume ok: "entries_ok ops es"
  have "inj_on (centry ops) {..<length ops}" "inj_on (rentry ops) {..<length ops}" by (auto simp: inj_on_def)
  then have "card (centry ops ` {..<length ops} \<union> rentry ops ` {..<length ops}) = length ops + length ops"
    by (subst card_Un_disjoint) (auto simp: card_image)
  then show ?thesis using ok distinct_card [of es] by (simp add: entries_ok_def)
qed

lemma linked_holds:
  assumes l: "linked (rev es) (root, mt, h)" and ok: "entries_ok ops es" and m: "wf_ops m ops"
    and h': "\<forall>a < length es. hValue h' a = hValue h a \<and> hMatch h' a = hMatch h a \<and> hId h' a = hId h a"
  shows "holds_game m (game_of m h (rev [0..<length es])) h'"
  unfolding holds_game_def
proof (intro ballI conjI impI allI)
  let ?g = "game_of m h (rev [0..<length es])"
  fix a assume "a \<in> set (gNodes ?g)"
  then have a: "a < length es" by (simp add: game_of_def)
  show "hId h' a = int (gId ?g a)" "hMatch h' a = (if gCall ?g a then Some (gMatch ?g a) else None)"
    using linked_nodes(1) [OF l ok m a] h' a by (auto simp: game_of_def)
  fix s assume "gCall ?g a"
  then obtain r where r: "hMatch h a = Some r" by (auto simp: game_of_def)
  have "r < length es" using linked_nodes(2) [OF l ok m a r] by simp
  then show "\<exists>v w. hValue h' a = Some v \<and> hValue h' (gMatch ?g a) = Some w \<and> mStep m s v w = Inr (gStep ?g s a)"
    using linked_step_total [OF l ok m a r, of s] h' a r by (auto simp: game_of_def)
qed

lemma start_dll:
  assumes l: "linked (rev es) (root, mt, h)"
    and st_def: "st = search_start m n root h"
  shows "dll (sNodes st) (sHead st # rev [0..<length es])" "sHead st = length es"
    "\<forall>a < length es. hValue (sNodes st) a = hValue h a \<and> hMatch (sNodes st) a = hMatch h a \<and> hId (sNodes st) a = hId h a"
proof -
  let ?h1 = "snd (new_node None None (- 1) h)"
  have sz: "hSize h = length es" using l by (simp add: linked_def)
  have nodes: "sNodes st = insertBefore (length es) root ?h1" "sHead st = length es"
    using sz by (simp_all add: st_def search_start_def new_node_def Let_def)
  have new: "hValue ?h1 a = hValue h a" "hMatch ?h1 a = hMatch h a" "hId ?h1 a = hId h a" if "a < length es" for a
    using that sz by (simp_all add: new_node_def Let_def)
  show "sHead st = length es" by (rule nodes(2))
  show "dll (sNodes st) (sHead st # rev [0..<length es])"
    "\<forall>a < length es. hValue (sNodes st) a = hValue h a \<and> hMatch (sNodes st) a = hMatch h a \<and> hId (sNodes st) a = hId h a"
  proof (atomize (full), cases "es = []")
    case True
    then have "root = None" using l by (simp add: linked_def)
    then show "dll (sNodes st) (sHead st # rev [0..<length es]) \<and> (\<forall>a < length es. hValue (sNodes st) a = hValue h a \<and>
      hMatch (sNodes st) a = hMatch h a \<and> hId (sNodes st) a = hId h a)"
      unfolding nodes using True sz by (simp add: insertBefore_def dll_def new_node_def Let_def)
  next
    case False
    have d: "dll h (rev [0..<length es])" and "root = Some (length es - 1)" using l False by (simp_all add: linked_def)
    then have root: "root = Some (hd (rev [0..<length es]))" using False by (cases "length es") simp_all
    have d1: "dll ?h1 (rev [0..<length es])" by (rule new_node_dll [OF d]) (simp add: sz)
    have "hPrev ?h1 (length es) = None" using sz by (simp add: new_node_def Let_def)
    from insertBefore_dll [OF d1 _ this] show "dll (sNodes st) (sHead st # rev [0..<length es]) \<and> (\<forall>a < length es.
      hValue (sNodes st) a = hValue h a \<and> hMatch (sNodes st) a = hMatch h a \<and> hId (sNodes st) a = hId h a)"
      unfolding nodes root using new by (simp add: same_data_def)
  qed
qed

lemma start_inv:
  assumes ar: "arena m n g H" and d: "dll H (length (gNodes g) # gNodes g)" and nd: "gNodes g = rev [0..<length (gNodes g)]"
    and st: "sNodes st = H" "sHead st = length (gNodes g)" "gNodes g \<noteq> [] \<longrightarrow> sEntry st = Some (hd (gNodes g))"
    "sLinearized st = newBitset n" "sCache st = (\<lambda>_. [])" "sCalls st = []" "sState st = gInit g" "sLongest st = replicate n None"
  shows "search_inv m n g H {} {} st"
proof -
  have l: "left g {} = gNodes g" by (simp add: left_def)
  have "sHead st \<notin> set (gNodes g)" using st(2) by (subst nd) simp
  moreover have "at_entry g {} (sState st) (sEntry st)" using first_entry [of H "length (gNodes g)" g "{}"] d st(3) l
    by (cases "gNodes g") (auto simp: at_entry_def dll_def)
  ultimately show ?thesis using d st l
    by (simp add: search_inv_def same_data_def frames.bottom bs_bits_new cache_ok_def longest_ok_def)
qed


section \<open>Partial linearizations\<close>

text \<open>Orders that could be continued in the order of time: no operation left out precedes one that is taken.\<close>

definition partial_linearization :: "('v, 's) Model \<Rightarrow> 'v Operation list \<Rightarrow> nat list \<Rightarrow> bool" where
  "partial_linearization m ops p \<longleftrightarrow> set p \<subseteq> {..<length ops} \<and> linearizes m ops (mInit m) p \<and>
     (\<forall>i \<in> set p. \<forall>j < length ops. j \<notin> set p \<longrightarrow> \<not> precedes ops j i)"

definition after_ops :: "('v, 's) Model \<Rightarrow> 's \<Rightarrow> 'v Operation list \<Rightarrow> 's" where
  "after_ops m s xs = fold (\<lambda>x s. snd (op_step m s x)) xs s"

lemma legal_snoc: "legal m s (xs @ [x]) \<longleftrightarrow> legal m s xs \<and> fst (op_step m (after_ops m s xs) x)"
  by (induction xs arbitrary: s) (simp_all add: after_ops_def)

lemma frames_partial:
  assumes p: "plays m ops g" and irr: "\<forall>i < length ops. \<not> precedes ops i i"
  shows "frames g cs L s K \<Longrightarrow> partial_linearization m ops (map (\<lambda>c. gId g (fst c)) cs) \<and>
    s = after_ops m (mInit m) (map (\<lambda>c. ops ! gId g (fst c)) cs)"
proof (induction rule: frames.induct)
  case bottom
  then show ?case using p by (simp add: partial_linearization_def linearizes_def after_ops_def plays_def)
next
  case (push cs L s K pre c post s')
  let ?p = "map (\<lambda>c. gId g (fst c)) cs"
  have "c \<in> set (left g L)" using push.hyps(2) by simp
  then have c: "c \<in> set (gNodes g)" "gId g c \<notin> L" by (simp_all add: left_def)
  have L: "L = set ?p" using frames_reach [OF push.hyps(1)] by (simp add: image_image)
  have cn: "gId g c < length ops" using p c(1) by (simp add: plays_def wf_game_def)
  have stp: "op_step m s (ops ! gId g c) = (True, s')" using p c(1) push.hyps(4,5) by (simp add: plays_def)
  have "c \<in> ready g L" using ready_prefix(1) [OF push.hyps(2)] push.hyps(3,4) by blast
  then have rd: "\<forall>j < length ops. j \<notin> L \<longrightarrow> \<not> precedes ops j (gId g c)" using ready_iff [OF p c(1) push.hyps(4) refl c(2)] by blast
  have IH: "set ?p \<subseteq> {..<length ops}" "distinct ?p" "sorted_wrt (\<lambda>i j. \<not> precedes ops j i) ?p" "legal m (mInit m) (map ((!) ops) ?p)"
    "\<forall>i \<in> L. \<forall>j < length ops. j \<notin> L \<longrightarrow> \<not> precedes ops j i" "s = after_ops m (mInit m) (map ((!) ops) ?p)"
    using push.IH by (simp_all add: partial_linearization_def linearizes_def L comp_def)
  have "sorted_wrt (\<lambda>i j. \<not> precedes ops j i) (?p @ [gId g c])" using IH(3,5) cn c(2) L by (auto simp: sorted_wrt_append)
  moreover have "legal m (mInit m) (map ((!) ops) (?p @ [gId g c]))" using IH(4,6) stp by (simp add: legal_snoc)
  moreover have "distinct (?p @ [gId g c])" using IH(2) c(2) L by simp
  moreover have "\<forall>i \<in> set (?p @ [gId g c]). \<forall>j < length ops. j \<notin> set (?p @ [gId g c]) \<longrightarrow> \<not> precedes ops j i"
    using IH(5) rd unfolding L by auto
  moreover have "s' = after_ops m (mInit m) (map ((!) ops) (?p @ [gId g c]))" using IH(6) stp by (simp add: after_ops_def)
  moreover have "set (?p @ [gId g c]) \<subseteq> {..<length ops}" using IH(1) cn by simp
  ultimately show ?case by (simp add: partial_linearization_def linearizes_def comp_def)
qed

definition longest_sound :: "('v, 's) Model \<Rightarrow> 'v Operation list \<Rightarrow> longest \<Rightarrow> bool" where
  "longest_sound m ops ls \<longleftrightarrow> length ls = length ops \<and> (\<forall>i < length ops. \<forall>k sq. ls ! i = Some (k, sq) \<longrightarrow>
     int i \<in> set sq \<and> (\<exists>p. sq = map int p \<and> partial_linearization m ops p))"

lemma longest_ok_sound:
  assumes "plays m ops g" "\<forall>i < length ops. \<not> precedes ops i i" and "longest_ok (length ops) g ls"
  shows "longest_sound m ops ls"
  unfolding longest_sound_def
proof (rule conjI, use assms(3) in \<open>simp add: longest_ok_def\<close>, intro allI impI)
  fix i k sq assume "i < length ops" "ls ! i = Some (k, sq)"
  then obtain cs L s K where sq: "int i \<in> set sq" "frames g cs L s K" "sq = map (\<lambda>c. int (gId g (fst c))) cs"
    using assms(3) unfolding longest_ok_def by blast
  from frames_partial [OF assms(1,2) sq(2)] sq(3) show "int i \<in> set sq \<and> (\<exists>p. sq = map int p \<and> partial_linearization m ops p)"
    using sq(1) by (intro conjI exI [of _ "map (\<lambda>c. gId g (fst c)) cs"]) simp_all
qed

section \<open>The result of the search\<close>

lemma checkSingle_correct:
  assumes m: "wf_ops m ops" and ok: "entries_ok ops es" and eq: "eq_model m" and n: "length ops < 2 ^ 63"
  shows "\<exists>b ls. checkSingle m es cp kill = Some (Inr (b, ls)) \<and> (b \<longrightarrow> linearizable m ops) \<and>
    (linearizable m ops \<longrightarrow> b \<or> (\<exists>k. kill k)) \<and> longest_sound m ops ls"
proof -
  obtain root mt h where f: "fold link_step (rev es) (None, Map.empty, no_nodes) = (root, mt, h)" by (metis prod_cases3)
  have l: "linked (rev es) (root, mt, h)" using makeLinkedEntries_linked [of "rev es"] f by simp
  let ?n = "length ops" and ?g = "game_of m h (rev [0..<length es])" and ?st = "search_start m (length ops) root h"
  have len: "length es = 2 * ?n" by (rule entries_length [OF ok])
  have irr: "\<forall>i < ?n. \<not> precedes ops i i" using m by (auto simp: wf_ops_def precedes_def not_less)
  have pl: "plays m ops ?g" by (rule linked_plays [OF l ok m])
  note st = start_dll [OF l refl, of m ?n]
  have ar: "arena m ?n ?g (sNodes ?st)" using linked_holds [OF l ok m st(3)] linked_wf_game [OF l ok m] eq n by (simp add: arena_def)
  have nd: "gNodes ?g = rev [0..<length es]" by (simp add: game_of_def)
  have ll: "length_loop h root 0 = Some (2 * ?n)" and en: "es \<noteq> [] \<Longrightarrow> root = Some (hd (rev [0..<length es]))"
  proof (atomize (full), cases "es = []")
    case True
    then show "length_loop h root 0 = Some (2 * ?n) \<and> (es \<noteq> [] \<longrightarrow> root = Some (hd (rev [0..<length es])))"
      using l len by (simp add: linked_def length_loop.simps)
  next
    case False
    then obtain a as where a: "rev [0..<length es] = a # as" by (cases "rev [0..<length es]") auto
    then have "a = length es - 1" by (metis False hd_rev last_upt length_greater_0_conv list.sel(1))
    then have r: "root = Some a" "dll h (a # as)" using l False a by (simp_all add: linked_def)
    have "length (a # as) = length es" using a by (metis diff_zero length_rev length_upt)
    then show "length_loop h root 0 = Some (2 * ?n) \<and> (es \<noteq> [] \<longrightarrow> root = Some (hd (rev [0..<length es])))"
      using length_loop_links [of h a as 0] r a len by (simp add: dll_def)
  qed
  have "search_inv m ?n ?g (sNodes ?st) {} {} ?st"
    by (rule start_inv [OF ar]) (use st en in \<open>auto simp: nd search_start_def new_node_def Let_def game_of_def simp del: upt_Suc\<close>)
  then have "loop_inv m ?n ?g (sNodes ?st) (sHead ?st) kill (Inr (?st, None))" by auto
  from search_ends [OF ar _ this, of cp] obtain y where y: "while_option searching (search_body m cp kill) (Inr (?st, None)) = Some y"
    "loop_inv m ?n ?g (sNodes ?st) (sHead ?st) kill y" "\<not> searching y" using st(1) nd by auto
  have cs: "checkSingle m es cp kill = Some (search_result ?n y)" using f ll y(1) by (simp add: checkSingle_def makeLinkedEntries_def Let_def)
  have w: "winnable ?g {} (gInit ?g) \<longleftrightarrow> linearizable m ops"
    using winnable_linearizes [OF pl irr, of "{}" "gInit ?g"] pl by (simp add: linearizable_def plays_def)
  obtain st' r where y': "y = Inr (st', r)" using y(2) by (cases y) (auto elim: loop_inv.elims)
  show ?thesis
  proof (cases r)
    case (Some b)
    then show ?thesis using cs y(2) y' w longest_ok_sound [OF pl irr] by auto
  next
    case None
    then obtain L K where si: "search_inv m ?n ?g (sNodes ?st) L K st'" using y(2) y' by auto
    note i = search_invD [OF si]
    have L: "left ?g L = []" using searching_left [OF si] y(3) y' None by simp
    then have "winnable ?g {} (gInit ?g)" using frames_winnable [OF i(3) winnable.finished] by simp
    moreover let ?p = "map (\<lambda>c. gId ?g (fst c)) (sCalls st')"
    have ids: "map (\<lambda>c. hId (sNodes st') (fst c)) (sCalls st') = map int ?p"
      using ar holds_game_same [OF i(1), of m ?g] frames_nodes [OF i(3)] by (simp add: arena_def holds_game_def)
    have "{..<?n} \<subseteq> set ?p"
      using left_empty [of ?n ?g L] L pl frames_reach [OF i(3)] by (simp add: plays_def image_image)
    then have "int j \<in> set (map int ?p)" if "j < ?n" for j using that unfolding set_map [of int] by (intro imageI) blast
    then have "longest_sound m ops (replicate ?n (Some (sTurn st', map int ?p)))"
      unfolding longest_sound_def using frames_partial [OF pl irr i(3)] by (metis length_replicate nth_replicate option.inject prod.inject)
    moreover have "search_result ?n y = Inr (True, replicate ?n (Some (sTurn st', map int ?p)))" unfolding y' None using ids by simp
    ultimately show ?thesis using cs w by (intro exI [of _ True] exI [of _ "replicate ?n (Some (sTurn st', map int ?p))"]) simp
  qed
qed

end
