(* ===== verification/Porc_Parallel.thy ===== *)
theory Porc_Parallel
  imports Porc_Check
begin

text \<open>
  The concurrent part of the linearizability checker, \<^verbatim>\<open>checkParallel\<close>, \<^verbatim>\<open>checkEvents\<close> and \<^verbatim>\<open>checkOperations\<close> of
  \<^verbatim>\<open>src/porcupine/checker.go\<close> and the entry points of \<^verbatim>\<open>src/porcupine/porcupine.go\<close>. One goroutine searches each
  partition and sends its result to a buffered channel; the main goroutine receives the results,
  or the timeout. The steps of all goroutines are a relation; its facts hold for every interleaving.
\<close>

section \<open>Definitions\<close>

record 'v linearizationInfo =
  liHistory :: "'v pentry list list"
  liPartials :: "int list list list"

text \<open>Where the main goroutine is: in its loop, waiting for the rest of the goroutines, or at its end.\<close>

datatype par_phase = Waiting | Draining | Returned CheckResult | Crashed go_error

text \<open>\<^verbatim>\<open>pFinished\<close> are the goroutines that sent their result to the channel \<^verbatim>\<open>pResults\<close>.\<close>

record par =
  pPhase :: par_phase
  pFinished :: "nat set"
  pResults :: "bool list"
  pLongest :: "longest list"
  pCount :: nat
  pOk :: bool
  pTimedOut :: bool
  pKill :: bool

definition par_start :: "nat \<Rightarrow> par" where
  "par_start n = \<lparr>pPhase = Waiting, pFinished = {}, pResults = [], pLongest = replicate n [], pCount = 0, pOk = True,
     pTimedOut = False, pKill = False\<rparr>"

definition par_result :: "par \<Rightarrow> CheckResult" where
  "par_result st = (if \<not> pOk st then Illegal else if pTimedOut st then Unknown else Ok)"

text \<open>After the loop: with \<^verbatim>\<open>computeInfo\<close> the remaining results are received first.\<close>

definition par_leave :: "nat \<Rightarrow> bool \<Rightarrow> par \<Rightarrow> par" where
  "par_leave n computeInfo st =
     (if computeInfo \<and> pCount st < n then st\<lparr>pPhase := Draining\<rparr> else st\<lparr>pPhase := Returned (par_result st)\<rparr>)"

definition par_receive :: "nat \<Rightarrow> bool \<Rightarrow> bool \<Rightarrow> par \<Rightarrow> par" where
  "par_receive n computeInfo result st =
     (let st1 = st\<lparr>pCount := Suc (pCount st), pOk := pOk st \<and> result\<rparr> in
      if \<not> pOk st1 \<and> \<not> computeInfo then par_leave n computeInfo (st1\<lparr>pKill := True\<rparr>)
      else if pCount st1 \<ge> n then par_leave n computeInfo st1
      else st1)"

definition par_timeout :: "nat \<Rightarrow> bool \<Rightarrow> par \<Rightarrow> par" where
  "par_timeout n computeInfo st = par_leave n computeInfo (st\<lparr>pTimedOut := True, pKill := True\<rparr>)"

definition par_drain :: "nat \<Rightarrow> par \<Rightarrow> par" where
  "par_drain n st = par_leave n True (st\<lparr>pCount := Suc (pCount st)\<rparr>)"

text \<open>
  The end of a goroutine; nobody reads \<^verbatim>\<open>longest\<close> before its result is received, so both writes are one
  step. A search that ends while the flag is not set never saw it set.
\<close>

definition par_finish :: "nat \<Rightarrow> bool \<Rightarrow> longest \<Rightarrow> par \<Rightarrow> par" where
  "par_finish i ok l st =
     st\<lparr>pFinished := insert i (pFinished st), pLongest := (pLongest st)[i := l], pResults := pResults st @ [ok]\<rparr>"

fun running :: "par_phase \<Rightarrow> bool" where
  "running (Crashed e) \<longleftrightarrow> False"
| "running _ \<longleftrightarrow> True"

inductive par_step :: "('v, 's) Model \<Rightarrow> 'v pentry list list \<Rightarrow> bool \<Rightarrow> int \<Rightarrow> par \<Rightarrow> par \<Rightarrow> bool" for m history computeInfo timeout where
  finish: "i < length history \<Longrightarrow> i \<notin> pFinished st \<Longrightarrow> \<forall>k. kill k \<longrightarrow> pKill st \<Longrightarrow> running (pPhase st) \<Longrightarrow>
     checkSingle m (history ! i) computeInfo kill = Some (Inr (ok, l)) \<Longrightarrow> par_step m history computeInfo timeout st (par_finish i ok l st)"
| crash: "i < length history \<Longrightarrow> i \<notin> pFinished st \<Longrightarrow> \<forall>k. kill k \<longrightarrow> pKill st \<Longrightarrow> running (pPhase st) \<Longrightarrow>
     checkSingle m (history ! i) computeInfo kill = Some (Inl e) \<Longrightarrow> par_step m history computeInfo timeout st (st\<lparr>pPhase := Crashed e\<rparr>)"
| receive: "pPhase st = Waiting \<Longrightarrow> pResults st = result # rs \<Longrightarrow>
     par_step m history computeInfo timeout st (par_receive (length history) computeInfo result (st\<lparr>pResults := rs\<rparr>))"
| timeout: "pPhase st = Waiting \<Longrightarrow> timeout > 0 \<Longrightarrow>
     par_step m history computeInfo timeout st (par_timeout (length history) computeInfo st)"
| drain: "pPhase st = Draining \<Longrightarrow> pResults st = result # rs \<Longrightarrow>
     par_step m history computeInfo timeout st (par_drain (length history) (st\<lparr>pResults := rs\<rparr>))"

text \<open>The sequences of a partition, each pointer once; \<^verbatim>\<open>ord\<close> is the order of iteration over the map.\<close>

definition partials_of :: "((nat \<times> int list) list \<Rightarrow> (nat \<times> int list) list) \<Rightarrow> longest \<Rightarrow> int list list" where
  "partials_of ord l = map snd (ord (remdups (List.map_filter id l)))"

definition par_info :: "((nat \<times> int list) list \<Rightarrow> (nat \<times> int list) list) \<Rightarrow> 'v pentry list list \<Rightarrow> bool \<Rightarrow> par \<Rightarrow> 'v linearizationInfo" where
  "par_info ord history computeInfo st =
     (if computeInfo then \<lparr>liHistory = history, liPartials = map (partials_of ord) (pLongest st)\<rparr>
      else \<lparr>liHistory = [], liPartials = []\<rparr>)"

text \<open>\<^verbatim>\<open>checkParallel\<close> returns a result in a run of the goroutines.\<close>

definition checkParallel :: "((nat \<times> int list) list \<Rightarrow> (nat \<times> int list) list) \<Rightarrow> ('v, 's) Model \<Rightarrow> 'v pentry list list \<Rightarrow> bool \<Rightarrow> int \<Rightarrow>
    CheckResult \<times> 'v linearizationInfo \<Rightarrow> bool" where
  "checkParallel ord m history computeInfo timeout out \<longleftrightarrow>
     (\<exists>st. (par_step m history computeInfo timeout)\<^sup>*\<^sup>* (par_start (length history)) st \<and> pPhase st = Returned (fst out) \<and>
        snd out = par_info ord history computeInfo st)"

definition call_partition :: "('a list \<Rightarrow> 'a list list res) option \<Rightarrow> 'a list \<Rightarrow> 'a list list res" where
  "call_partition f history = (case f of None \<Rightarrow> Inl NilPointer | Some p \<Rightarrow> p history)"

definition operations_entries :: "('v pentry list \<Rightarrow> 'v pentry list) \<Rightarrow> ('v, 's) Model \<Rightarrow> 'v Operation list \<Rightarrow> 'v pentry list list res" where
  "operations_entries srt m history =
     ebind (call_partition (mPartition (fillDefault m)) history) (\<lambda>partitions. Inr (map (makeEntries srt) partitions))"

definition events_entries :: "('v, 's) Model \<Rightarrow> 'v Event list \<Rightarrow> 'v pentry list list res" where
  "events_entries m history =
     ebind (call_partition (mPartitionEvent (fillDefault m)) history) (\<lambda>partitions. Inr (map (\<lambda>p. convertEntries (renumber p)) partitions))"

text \<open>The unspecified parts of the run: how \<^verbatim>\<open>sort.Sort\<close> orders equal entries, and the order of a map.\<close>

record 'v env =
  envSort :: "'v pentry list \<Rightarrow> 'v pentry list"
  envOrder :: "(nat \<times> int list) list \<Rightarrow> (nat \<times> int list) list"

definition checkOperations :: "'v env \<Rightarrow> ('v, 's) Model \<Rightarrow> 'v Operation list \<Rightarrow> bool \<Rightarrow> int \<Rightarrow> CheckResult \<times> 'v linearizationInfo \<Rightarrow> bool" where
  "checkOperations env m history verbose timeout out \<longleftrightarrow>
     (\<exists>l. operations_entries (envSort env) m history = Inr l \<and> checkParallel (envOrder env) (fillDefault m) l verbose timeout out)"

definition checkEvents :: "'v env \<Rightarrow> ('v, 's) Model \<Rightarrow> 'v Event list \<Rightarrow> bool \<Rightarrow> int \<Rightarrow> CheckResult \<times> 'v linearizationInfo \<Rightarrow> bool" where
  "checkEvents env m history verbose timeout out \<longleftrightarrow>
     (\<exists>l. events_entries m history = Inr l \<and> checkParallel (envOrder env) (fillDefault m) l verbose timeout out)"

definition CheckOperations :: "'v env \<Rightarrow> ('v, 's) Model \<Rightarrow> 'v Operation list \<Rightarrow> bool \<Rightarrow> bool" where
  "CheckOperations env m history b \<longleftrightarrow> (\<exists>out. checkOperations env m history False 0 out \<and> b = (fst out = Ok))"

definition CheckOperationsTimeout :: "'v env \<Rightarrow> ('v, 's) Model \<Rightarrow> 'v Operation list \<Rightarrow> int \<Rightarrow> CheckResult \<Rightarrow> bool" where
  "CheckOperationsTimeout env m history timeout r \<longleftrightarrow> (\<exists>out. checkOperations env m history False timeout out \<and> r = fst out)"

definition CheckOperationsVerbose :: "'v env \<Rightarrow> ('v, 's) Model \<Rightarrow> 'v Operation list \<Rightarrow> int \<Rightarrow> CheckResult \<times> 'v linearizationInfo \<Rightarrow> bool" where
  "CheckOperationsVerbose env m history timeout out \<longleftrightarrow> checkOperations env m history True timeout out"

definition CheckEvents :: "'v env \<Rightarrow> ('v, 's) Model \<Rightarrow> 'v Event list \<Rightarrow> bool \<Rightarrow> bool" where
  "CheckEvents env m history b \<longleftrightarrow> (\<exists>out. checkEvents env m history False 0 out \<and> b = (fst out = Ok))"

definition CheckEventsTimeout :: "'v env \<Rightarrow> ('v, 's) Model \<Rightarrow> 'v Event list \<Rightarrow> int \<Rightarrow> CheckResult \<Rightarrow> bool" where
  "CheckEventsTimeout env m history timeout r \<longleftrightarrow> (\<exists>out. checkEvents env m history False timeout out \<and> r = fst out)"

definition CheckEventsVerbose :: "'v env \<Rightarrow> ('v, 's) Model \<Rightarrow> 'v Event list \<Rightarrow> int \<Rightarrow> CheckResult \<times> 'v linearizationInfo \<Rightarrow> bool" where
  "CheckEventsVerbose env m history timeout out \<longleftrightarrow> checkEvents env m history True timeout out"


section \<open>The main goroutine reports what the searches found\<close>

text \<open>The entries of histories that the search handles.\<close>

definition par_ok :: "('v, 's) Model \<Rightarrow> 'v Operation list list \<Rightarrow> 'v pentry list list \<Rightarrow> bool" where
  "par_ok m opss history \<longleftrightarrow> eq_model m \<and> length opss = length history \<and>
     (\<forall>i < length history. wf_ops m (opss ! i) \<and> entries_ok (opss ! i) (history ! i) \<and> length (opss ! i) < 2 ^ 63)"

lemma par_ok_single:
  assumes "par_ok m opss history" and "i < length history"
  shows "\<exists>b ls. checkSingle m (history ! i) ci kill = Some (Inr (b, ls)) \<and> (b \<longrightarrow> linearizable m (opss ! i)) \<and>
    (linearizable m (opss ! i) \<longrightarrow> b \<or> (\<exists>k. kill k)) \<and> longest_sound m (opss ! i) ls"
  using assms unfolding par_ok_def by (intro checkSingle_correct) simp_all

definition par_inv :: "('v, 's) Model \<Rightarrow> 'v Operation list list \<Rightarrow> bool \<Rightarrow> int \<Rightarrow> par \<Rightarrow> bool" where
  "par_inv m opss ci timeout st \<longleftrightarrow>
     (let n = length opss; good = (\<lambda>i. linearizable m (opss ! i)) in
      running (pPhase st) \<and> length (pLongest st) = n \<and> (\<forall>i \<in> pFinished st. longest_sound m (opss ! i) (pLongest st ! i)) \<and>
      (pTimedOut st \<longrightarrow> timeout > 0) \<and>
      (\<exists>fs. distinct fs \<and> set fs = pFinished st \<and> set fs \<subseteq> {..<n} \<and> length fs = pCount st + length (pResults st) \<and>
         (pPhase st = Waiting \<longrightarrow> drop (pCount st) (map good fs) = pResults st \<and> (pOk st \<longleftrightarrow> (\<forall>i \<in> set (take (pCount st) fs). good i)))) \<and>
      (pPhase st = Waiting \<longrightarrow> \<not> pKill st \<and> \<not> pTimedOut st \<and> (pCount st < n \<or> n = 0)) \<and>
      (pPhase st = Draining \<longrightarrow> ci \<and> pCount st < n) \<and>
      (pPhase st \<noteq> Waiting \<longrightarrow> (if pOk st then pTimedOut st \<or> (\<forall>i < n. good i) else \<exists>i < n. \<not> good i)) \<and>
      (\<forall>r. pPhase st = Returned r \<longrightarrow> r = par_result st \<and> (ci \<longrightarrow> n \<le> pCount st)))"

lemma par_inv_start: "par_inv m opss ci timeout (par_start (length opss))"
  by (simp add: par_inv_def par_start_def Let_def)

lemma leave_inv:
  assumes "n = length opss"
    and "length (pLongest st) = n" "\<forall>i \<in> pFinished st. longest_sound m (opss ! i) (pLongest st ! i)" "pTimedOut st \<longrightarrow> timeout > 0"
    and "\<exists>fs. distinct fs \<and> set fs = pFinished st \<and> set fs \<subseteq> {..<n} \<and> length fs = pCount st + length (pResults st)"
    and "if pOk st then pTimedOut st \<or> (\<forall>i < n. linearizable m (opss ! i)) else \<exists>i < n. \<not> linearizable m (opss ! i)"
  shows "par_inv m opss ci timeout (par_leave n ci st)"
  using assms by (auto simp: par_inv_def par_leave_def par_result_def Let_def)


lemma par_invD:
  assumes "par_inv m opss ci timeout st"
  shows "running (pPhase st)" "length (pLongest st) = length opss" "\<forall>i \<in> pFinished st. longest_sound m (opss ! i) (pLongest st ! i)"
    "pTimedOut st \<longrightarrow> timeout > 0"
    "pPhase st = Waiting \<longrightarrow> \<not> pKill st \<and> \<not> pTimedOut st \<and> (pCount st < length opss \<or> length opss = 0)"
    "pPhase st = Draining \<longrightarrow> ci \<and> pCount st < length opss"
    "pPhase st \<noteq> Waiting \<longrightarrow> (if pOk st then pTimedOut st \<or> (\<forall>i < length opss. linearizable m (opss ! i)) else \<exists>i < length opss. \<not> linearizable m (opss ! i))"
    "pPhase st = Returned r \<longrightarrow> r = par_result st \<and> (ci \<longrightarrow> length opss \<le> pCount st)"
  using assms unfolding par_inv_def Let_def by blast+

lemma par_inv_order:
  assumes "par_inv m opss ci timeout st"
  obtains fs where "distinct fs" "set fs = pFinished st" "set fs \<subseteq> {..<length opss}" "length fs = pCount st + length (pResults st)"
    "pPhase st = Waiting \<longrightarrow> drop (pCount st) (map (\<lambda>i. linearizable m (opss ! i)) fs) = pResults st \<and>
       (pOk st \<longleftrightarrow> (\<forall>i \<in> set (take (pCount st) fs). linearizable m (opss ! i)))"
  using assms unfolding par_inv_def Let_def by blast

lemma par_result_sent: "par_result (st\<lparr>pFinished := a, pLongest := b, pResults := c\<rparr>) = par_result st"
  by (simp add: par_result_def)

lemma finish_inv:
  assumes ok: "par_ok m opss history" and inv: "par_inv m opss ci timeout st" and i: "i < length history" "i \<notin> pFinished st"
    and k: "\<forall>k. kill k \<longrightarrow> pKill st" and c: "checkSingle m (history ! i) ci kill = Some (Inr (b, l))"
  shows "par_inv m opss ci timeout (par_finish i b l st)"
proof -
  note d = par_invD [OF inv]
  have n: "length opss = length history" using ok by (simp add: par_ok_def)
  have b: "b \<longrightarrow> linearizable m (opss ! i)" "linearizable m (opss ! i) \<longrightarrow> b \<or> (\<exists>k. kill k)" "longest_sound m (opss ! i) l"
    using par_ok_single [OF ok i(1), of ci kill] c by auto
  obtain fs where fs: "distinct fs" "set fs = pFinished st" "set fs \<subseteq> {..<length opss}" "length fs = pCount st + length (pResults st)"
    "pPhase st = Waiting \<longrightarrow> drop (pCount st) (map (\<lambda>i. linearizable m (opss ! i)) fs) = pResults st \<and>
       (pOk st \<longleftrightarrow> (\<forall>i \<in> set (take (pCount st) fs). linearizable m (opss ! i)))" using par_inv_order [OF inv] by metis
  have w: "pPhase st = Waiting \<Longrightarrow> b = linearizable m (opss ! i)" using b(1,2) k d(5) by blast
  have "\<forall>j \<in> insert i (pFinished st). longest_sound m (opss ! j) ((pLongest st)[i := l] ! j)"
  proof
    fix j assume "j \<in> insert i (pFinished st)"
    then show "longest_sound m (opss ! j) ((pLongest st)[i := l] ! j)" using d(2,3) b(3) i n by (cases "j = i") auto
  qed
  moreover have "pCount st \<le> length fs" using fs(4) by simp
  moreover have "pPhase st = Waiting \<longrightarrow> b = linearizable m (opss ! i)" using w by blast
  moreover have "i \<notin> set fs" "i < length opss" using i n fs(2) by simp_all
  ultimately show ?thesis using d fs unfolding par_inv_def par_finish_def Let_def
    by (intro conjI exI [of _ "fs @ [i]"]) (simp_all add: par_result_sent)
qed

lemma receive_inv:
  assumes inv: "par_inv m opss ci timeout st" and st: "pPhase st = Waiting" "pResults st = r # rs"
  shows "par_inv m opss ci timeout (par_receive (length opss) ci r (st\<lparr>pResults := rs\<rparr>))"
proof -
  note d = par_invD [OF inv]
  let ?good = "\<lambda>i. linearizable m (opss ! i)" and ?n = "length opss"
  obtain fs where fs: "distinct fs" "set fs = pFinished st" "set fs \<subseteq> {..<?n}" "length fs = pCount st + length (pResults st)"
    "drop (pCount st) (map ?good fs) = pResults st" "pOk st \<longleftrightarrow> (\<forall>i \<in> set (take (pCount st) fs). ?good i)" using par_inv_order [OF inv] st(1) by metis
  have lt: "pCount st < length fs" using fs(4) st(2) by simp
  then have dr: "drop (pCount st) (map ?good fs) = ?good (fs ! pCount st) # drop (Suc (pCount st)) (map ?good fs)"
    using Cons_nth_drop_Suc [of "pCount st" "map ?good fs"] by simp
  then have r: "r = ?good (fs ! pCount st)" "rs = drop (Suc (pCount st)) (map ?good fs)" using fs(5) st(2) by simp_all
  have ok: "pOk st \<and> r \<longleftrightarrow> (\<forall>i \<in> set (take (Suc (pCount st)) fs). ?good i)" using fs(6) r(1) lt by (auto simp: take_Suc_conv_app_nth)
  have sub: "set (take (Suc (pCount st)) fs) \<subseteq> {..<?n}" using fs(3) set_take_subset [of _ fs] by blast
  let ?st1 = "st\<lparr>pResults := rs, pCount := Suc (pCount st), pOk := pOk st \<and> r\<rparr>"
  have ex: "\<exists>fs. distinct fs \<and> set fs = pFinished st \<and> set fs \<subseteq> {..<?n} \<and> length fs = Suc (pCount st) + length rs"
    using fs st(2) by (intro exI [of _ fs]) simp
  consider (bad) "\<not> (pOk st \<and> r)" "\<not> ci" | (last) "pOk st \<and> r \<or> ci" "?n \<le> Suc (pCount st)" | (go) "pOk st \<and> r \<or> ci" "Suc (pCount st) < ?n" by linarith
  then show ?thesis
  proof cases
    case bad
    have "\<exists>i < ?n. \<not> ?good i" using bad(1) ok sub by blast
    then have "par_inv m opss ci timeout (par_leave ?n ci (?st1\<lparr>pKill := True\<rparr>))"
      using d ex bad(1) by (intro leave_inv) (auto split: if_splits)
    moreover have "par_receive ?n ci r (st\<lparr>pResults := rs\<rparr>) = par_leave ?n ci (?st1\<lparr>pKill := True\<rparr>)"
      using bad unfolding par_receive_def Let_def by auto
    ultimately show ?thesis by simp
  next
    case last
    have "card (set (take (Suc (pCount st)) fs)) = Suc (pCount st)" using fs(1) lt by (simp add: distinct_card)
    moreover have "card (set (take (Suc (pCount st)) fs)) \<le> ?n" using card_mono [OF _ sub] by simp
    ultimately have "card (set (take (Suc (pCount st)) fs)) = card {..<?n}" using last(2) by simp
    then have "set (take (Suc (pCount st)) fs) = {..<?n}" using sub by (intro card_subset_eq) simp_all
    then have "if pOk st \<and> r then (\<forall>i < ?n. ?good i) else \<exists>i < ?n. \<not> ?good i" using ok by auto
    then have "par_inv m opss ci timeout (par_leave ?n ci ?st1)" using d ex by (intro leave_inv) (auto split: if_splits)
    moreover have "par_receive ?n ci r (st\<lparr>pResults := rs\<rparr>) = par_leave ?n ci ?st1"
      using last unfolding par_receive_def Let_def by auto
    ultimately show ?thesis by simp
  next
    case go
    then have "par_receive ?n ci r (st\<lparr>pResults := rs\<rparr>) = ?st1" by (auto simp: par_receive_def Let_def)
    moreover have "par_inv m opss ci timeout ?st1"
      unfolding par_inv_def Let_def by (intro conjI exI [of _ fs]) (use d(1-5) fs(1-4) st go(2) ok r(2) in simp_all)
    ultimately show ?thesis by simp
  qed
qed


lemma timeout_inv:
  assumes inv: "par_inv m opss ci timeout st" and "timeout > 0" "pPhase st = Waiting"
  shows "par_inv m opss ci timeout (par_timeout (length opss) ci st)"
proof -
  obtain fs where fs: "distinct fs" "set fs = pFinished st" "set fs \<subseteq> {..<length opss}" "length fs = pCount st + length (pResults st)"
    "pOk st \<longleftrightarrow> (\<forall>i \<in> set (take (pCount st) fs). linearizable m (opss ! i))" using par_inv_order [OF inv] assms(3) by metis
  then have "\<not> pOk st \<Longrightarrow> \<exists>i < length opss. \<not> linearizable m (opss ! i)" using set_take_subset [of _ fs] by blast
  moreover have "\<exists>fs. distinct fs \<and> set fs = pFinished st \<and> set fs \<subseteq> {..<length opss} \<and> length fs = pCount st + length (pResults st)"
    using fs by blast
  ultimately show ?thesis unfolding par_timeout_def using par_invD [OF inv] assms(2) by (intro leave_inv) simp_all
qed

lemma drain_inv:
  assumes inv: "par_inv m opss ci timeout st" and "pPhase st = Draining" "pResults st = r # rs"
  shows "par_inv m opss ci timeout (par_drain (length opss) (st\<lparr>pResults := rs\<rparr>))"
proof -
  have ex: "\<exists>fs. distinct fs \<and> set fs = pFinished st \<and> set fs \<subseteq> {..<length opss} \<and> length fs = Suc (pCount st) + length rs"
  proof -
    obtain fs where "distinct fs" "set fs = pFinished st" "set fs \<subseteq> {..<length opss}" "length fs = pCount st + length (pResults st)"
      by (rule par_inv_order [OF inv])
    then show ?thesis using assms(3) by (intro exI [of _ fs]) simp
  qed
  note d = par_invD [OF inv]
  have ci: "ci" using d(6) assms(2) by blast
  have "par_inv m opss True timeout (par_leave (length opss) True (st\<lparr>pResults := rs, pCount := Suc (pCount st)\<rparr>))"
    by (rule leave_inv) (use d(2,3,4,7) assms(2) ex in simp_all)
  then show ?thesis using ci by (simp add: par_drain_def)
qed

text \<open>How far a run has come; it grows with every step.\<close>

definition par_progress :: "par \<Rightarrow> nat" where
  "par_progress st = card (pFinished st) + pCount st + of_bool (pTimedOut st)"

lemma leave_fields [simp]:
  "pFinished (par_leave n ci st) = pFinished st" "pCount (par_leave n ci st) = pCount st" "pTimedOut (par_leave n ci st) = pTimedOut st"
  by (simp_all add: par_leave_def)

lemma receive_fields:
  "pFinished (par_receive n ci r st) = pFinished st" "pCount (par_receive n ci r st) = Suc (pCount st)"
  "pTimedOut (par_receive n ci r st) = pTimedOut st"
  by (simp_all add: par_receive_def Let_def)

lemma progress_moves:
  "finite (pFinished st) \<Longrightarrow> i \<notin> pFinished st \<Longrightarrow> par_progress (par_finish i b l st) = Suc (par_progress st)"
  "par_progress (par_receive n ci r (st\<lparr>pResults := rs\<rparr>)) = Suc (par_progress st)"
  "\<not> pTimedOut st \<Longrightarrow> par_progress (par_timeout n ci st) = Suc (par_progress st)"
  "par_progress (par_drain n (st\<lparr>pResults := rs\<rparr>)) = Suc (par_progress st)"
  by (simp_all add: par_progress_def receive_fields par_finish_def par_timeout_def par_drain_def)

lemma par_step_inv:
  assumes ok: "par_ok m opss history" and step: "par_step m history ci timeout st st'" and inv: "par_inv m opss ci timeout st"
  shows "par_inv m opss ci timeout st' \<and> par_progress st' = Suc (par_progress st)"
  using step inv
proof cases
  have n: "length history = length opss" using ok by (simp add: par_ok_def)
  obtain fs where "set fs = pFinished st" by (rule par_inv_order [OF inv])
  then have fin: "finite (pFinished st)" by (metis finite_set)
  {
    case (finish i kill b l)
    then show ?thesis using finish_inv [OF ok inv finish(2,3,4,6)] progress_moves(1) [OF fin] by blast
  next
    case (crash i kill e)
    then show ?thesis using par_ok_single [OF ok crash(2), of ci kill] by auto
  next
    case (receive r rs)
    show ?thesis unfolding receive(1) n using receive_inv [OF inv receive(2,3)] progress_moves(2) by blast
  next
    case timeout
    show ?thesis unfolding timeout(1) n using timeout_inv [OF inv timeout(3,2)] par_invD(5) [OF inv] timeout(2) progress_moves(3) by blast
  next
    case (drain r rs)
    show ?thesis unfolding drain(1) n using drain_inv [OF inv drain(2,3)] progress_moves(4) by blast
  }
qed


lemma par_bound:
  assumes "par_inv m opss ci timeout st"
  shows "par_progress st \<le> 2 * length opss + 1" "pCount st + length (pResults st) = card (pFinished st)" "pFinished st \<subseteq> {..<length opss}"
proof -
  obtain fs where fs: "distinct fs" "set fs = pFinished st" "set fs \<subseteq> {..<length opss}" "length fs = pCount st + length (pResults st)"
    by (rule par_inv_order [OF assms])
  have "card (pFinished st) = length fs" using fs(1,2) distinct_card by metis
  moreover have "card (pFinished st) \<le> length opss" using card_mono [OF _ fs(3)] fs(2) by simp
  moreover have "of_bool (pTimedOut st) \<le> (1 :: nat)" by simp
  ultimately show "par_progress st \<le> 2 * length opss + 1" "pCount st + length (pResults st) = card (pFinished st)" "pFinished st \<subseteq> {..<length opss}"
    using fs(2-4) by (simp_all add: par_progress_def)
qed

lemma par_run:
  assumes ok: "par_ok m opss history" and "(par_step m history ci timeout ^^ k) (par_start (length history)) st"
  shows "par_inv m opss ci timeout st \<and> par_progress st = k"
  using assms(2)
proof (induction k arbitrary: st)
  case 0
  then have "st = par_start (length opss)" using ok by (simp add: par_ok_def)
  then show ?case using par_inv_start [of m opss ci timeout] by (simp add: par_progress_def) (simp add: par_start_def)
next
  case (Suc k)
  then show ?case using par_step_inv [OF ok] by (metis relpowp_Suc_E)
qed

lemma par_moves:
  assumes ok: "par_ok m opss history" and inv: "par_inv m opss ci timeout st" and w: "history \<noteq> [] \<or> timeout > 0"
  shows "(\<exists>r. pPhase st = Returned r) \<or> (\<exists>st'. par_step m history ci timeout st st')"
proof (cases "pPhase st")
  case (Crashed e)
  then show ?thesis using par_invD(1) [OF inv] by simp
next
  case (Returned r)
  then show ?thesis by simp
next
  have n: "length opss = length history" using ok by (simp add: par_ok_def)
  have more: "\<exists>st'. par_step m history ci timeout st st'" if h: "pCount st < length history" "pPhase st \<in> {Waiting, Draining}" "pResults st = []"
  proof -
    have "card (pFinished st) < length history" "pFinished st \<subseteq> {..<length history}" using par_bound [OF inv] h(1,3) n by simp_all
    then have "\<not> {..<length history} \<subseteq> pFinished st" by (metis card_lessThan less_irrefl subset_antisym)
    then obtain i where "i < length history" "i \<notin> pFinished st" by auto
    moreover obtain b ls where "checkSingle m (history ! i) ci (\<lambda>_. False) = Some (Inr (b, ls))" using par_ok_single [OF ok] calculation(1) by blast
    moreover have "running (pPhase st)" using h(2) by auto
    ultimately have "par_step m history ci timeout st (par_finish i b ls st)" by (intro par_step.finish [where kill = "\<lambda>_. False"]) simp_all
    then show ?thesis by blast
  qed
  {
    case Waiting
    then show ?thesis
    proof (cases "pResults st")
      case Nil
      have "pCount st < length history \<or> timeout > 0" using par_invD(5) [OF inv] Waiting n w by auto
      then show ?thesis using more Nil Waiting par_step.timeout [OF Waiting, of timeout m history ci] by auto
    next
      case (Cons r rs)
      then show ?thesis using par_step.receive [OF Waiting] by blast
    qed
  next
    case Draining
    then show ?thesis
    proof (cases "pResults st")
      case Nil
      then show ?thesis using more Draining par_invD(6) [OF inv] n by auto
    next
      case (Cons r rs)
      then show ?thesis using par_step.drain [OF Draining] by blast
    qed
  }
qed

lemma par_returns:
  assumes ok: "par_ok m opss history" and "history \<noteq> [] \<or> timeout > 0" and "par_inv m opss ci timeout st"
  shows "\<exists>st' r. (par_step m history ci timeout)\<^sup>*\<^sup>* st st' \<and> pPhase st' = Returned r"
  using assms(3)
proof (induction "2 * length opss + 1 - par_progress st" arbitrary: st rule: less_induct)
  case less
  show ?case
  proof (cases "\<exists>r. pPhase st = Returned r")
    case False
    then obtain st1 where s: "par_step m history ci timeout st st1" using par_moves [OF ok less.prems assms(2)] by blast
    then have i: "par_inv m opss ci timeout st1" "par_progress st1 = Suc (par_progress st)" using par_step_inv [OF ok s less.prems] by simp_all
    have "2 * length opss + 1 - par_progress st1 < 2 * length opss + 1 - par_progress st" using i(2) par_bound(1) [OF i(1)] by simp
    from less.hyps [OF this i(1)] obtain st' r where "(par_step m history ci timeout)\<^sup>*\<^sup>* st1 st'" "pPhase st' = Returned r" by blast
    then show ?thesis using s by (meson converse_rtranclp_into_rtranclp)
  next
    case True
    then obtain r where "pPhase st = Returned r" by blast
    then show ?thesis by (intro exI [of _ st] exI [of _ r]) simp
  qed
qed

lemma checkParallel_result:
  assumes ok: "par_ok m opss history" and run: "checkParallel ord m history ci timeout out"
  shows "fst out = Ok \<Longrightarrow> \<forall>ops \<in> set opss. linearizable m ops" "fst out = Illegal \<Longrightarrow> \<exists>ops \<in> set opss. \<not> linearizable m ops"
    "fst out = Unknown \<Longrightarrow> timeout > 0"
proof -
  obtain st k where st: "(par_step m history ci timeout ^^ k) (par_start (length history)) st" "pPhase st = Returned (fst out)"
    using run by (auto simp: checkParallel_def rtranclp_power)
  have inv: "par_inv m opss ci timeout st" using par_run [OF ok st(1)] by simp
  note d = par_invD [OF inv]
  have r: "fst out = par_result st" using d(8) st(2) by blast
  show "fst out = Ok \<Longrightarrow> \<forall>ops \<in> set opss. linearizable m ops"
    using d(7) r st(2) by (auto simp: par_result_def in_set_conv_nth split: if_splits)
  show "fst out = Illegal \<Longrightarrow> \<exists>ops \<in> set opss. \<not> linearizable m ops"
    using d(7) r st(2) nth_mem by (fastforce simp: par_result_def split: if_splits)
  show "fst out = Unknown \<Longrightarrow> timeout > 0" using d(4) r by (simp add: par_result_def split: if_splits)
qed

lemma checkParallel_info:
  assumes ok: "par_ok m opss history" and run: "checkParallel ord m history True timeout out" and ord: "\<forall>xs. set (ord xs) = set xs"
  shows "liHistory (snd out) = history \<and> length (liPartials (snd out)) = length opss \<and>
    (\<forall>i < length opss. \<forall>sq \<in> set (liPartials (snd out) ! i). \<exists>p. sq = map int p \<and> partial_linearization m (opss ! i) p)"
proof -
  obtain st k where st: "(par_step m history True timeout ^^ k) (par_start (length history)) st" "pPhase st = Returned (fst out)"
    "snd out = par_info ord history True st" using run by (auto simp: checkParallel_def rtranclp_power)
  have inv: "par_inv m opss True timeout st" using par_run [OF ok st(1)] by simp
  note d = par_invD [OF inv] and b = par_bound [OF inv]
  have "length opss \<le> card (pFinished st)" using d(8) st(2) b(2) by fastforce
  then have fin: "pFinished st = {..<length opss}" using b(3) by (metis card_lessThan card_seteq finite_lessThan)
  have "\<exists>p. sq = map int p \<and> partial_linearization m (opss ! i) p"
    if h: "i < length opss" "sq \<in> set (partials_of ord (pLongest st ! i))" for i sq
  proof -
    obtain k where "(k, sq) \<in> set (ord (remdups (List.map_filter id (pLongest st ! i))))" using h(2) by (auto simp: partials_of_def)
    then have "Some (k, sq) \<in> set (pLongest st ! i)" using ord by (auto simp: map_filter_def)
    then obtain j where "j < length (pLongest st ! i)" "pLongest st ! i ! j = Some (k, sq)" by (auto simp: in_set_conv_nth)
    moreover have "longest_sound m (opss ! i) (pLongest st ! i)" using d(3) fin h(1) by simp
    ultimately show ?thesis unfolding longest_sound_def by metis
  qed
  then show ?thesis using st(3) d(2) by (simp add: par_info_def)
qed

text \<open>Without a partition nothing is ever sent, and without a timeout the loop waits for ever.\<close>

lemma par_run_empty:
  assumes "(par_step m [] ci t)\<^sup>*\<^sup>* (par_start 0) st"
  shows "st = par_start 0 \<or> t > 0 \<and> st = par_timeout 0 ci (par_start 0)"
  using assms
proof induction
  case (step y z)
  have "\<not> par_step m [] ci t (par_timeout 0 ci (par_start 0)) z"
    by (auto simp: par_start_def par_timeout_def par_leave_def elim: par_step.cases split: if_splits)
  with step have "par_step m [] ci t (par_start 0) z" by auto
  then show ?case by cases (simp_all add: par_start_def)
qed simp

lemma checkParallel_empty:
  "(\<exists>info. checkParallel ord m [] ci t (r, info)) \<longleftrightarrow> t > 0 \<and> r = Unknown"
proof
  assume "\<exists>info. checkParallel ord m [] ci t (r, info)"
  then obtain st where st: "(par_step m [] ci t)\<^sup>*\<^sup>* (par_start 0) st" "pPhase st = Returned r" by (auto simp: checkParallel_def)
  then show "t > 0 \<and> r = Unknown" using par_run_empty [OF st(1)]
    by (auto simp: par_start_def par_timeout_def par_leave_def par_result_def)
next
  assume a: "t > 0 \<and> r = Unknown"
  then have "par_step m [] ci t (par_start 0) (par_timeout 0 ci (par_start 0))"
    using par_step.timeout [of "par_start 0" t m "[]" ci] by (simp add: par_start_def)
  then show "\<exists>info. checkParallel ord m [] ci t (r, info)"
    using a unfolding checkParallel_def by (auto intro!: exI [of _ "par_timeout 0 ci (par_start 0)"] r_into_rtranclp simp: par_start_def par_timeout_def par_leave_def par_result_def)
qed

end
