(* ===== verification/Porc_Kv.thy ===== *)
theory Porc_Kv
  imports Porc_Parallel "HOL-Library.Char_ord" "HOL-Library.List_Lexorder"
begin

text \<open>
  The model of the key/value service that the linearizability checker is run with,
  \<^verbatim>\<open>src/models/kv.go\<close>. It describes one key and splits histories by key. The facts
  show that this is right, a history of the whole store is linearizable exactly if the history of each
  key is, and that \<^verbatim>\<open>CheckOperations\<close> and its variants then decide whether a history of the store
  is linearizable.
\<close>

section \<open>Definitions\<close>

record KvInput =
  kviOp :: "8 word"
  kviKey :: string
  kviValue :: string

record KvOutput =
  kvoValue :: string

text \<open>The dynamic types of the values in a history.\<close>

datatype kv_any = InputVal KvInput | OutputVal KvOutput

fun as_KvInput :: "kv_any \<Rightarrow> KvInput res" where
  "as_KvInput (InputVal i) = Inr i"
| "as_KvInput (OutputVal out) = Inl TypeAssertion"

fun as_KvOutput :: "kv_any \<Rightarrow> KvOutput res" where
  "as_KvOutput (OutputVal out) = Inr out"
| "as_KvOutput (InputVal i) = Inl TypeAssertion"

text \<open>The loop that fills the map; the keys are listed as they are first met, and sorted later.\<close>

fun kv_split :: "(string \<rightharpoonup> kv_any Operation list) \<Rightarrow> string list \<Rightarrow> kv_any Operation list \<Rightarrow>
    ((string \<rightharpoonup> kv_any Operation list) \<times> string list) res" where
  "kv_split m keys [] = Inr (m, keys)"
| "kv_split m keys (v # history) =
     ebind (as_KvInput (onInput v)) (\<lambda>inp.
     let key = kviKey inp in
     case m key of
       None \<Rightarrow> kv_split (m(key \<mapsto> [v])) (keys @ [key]) history
     | Some vs \<Rightarrow> kv_split (m(key \<mapsto> vs @ [v])) keys history)"

definition KvPartition :: "kv_any Operation list \<Rightarrow> kv_any Operation list list res" where
  "KvPartition history =
     ebind (kv_split Map.empty [] history) (\<lambda>(m, keys). Inr (map (\<lambda>k. case m k of None \<Rightarrow> [] | Some vs \<Rightarrow> vs) (sort keys)))"

definition KvStep :: "string \<Rightarrow> kv_any \<Rightarrow> kv_any \<Rightarrow> (bool \<times> string) res" where
  "KvStep st input output =
     ebind (as_KvInput input) (\<lambda>inp.
     ebind (as_KvOutput output) (\<lambda>out.
     if kviOp inp = 0 then Inr (kvoValue out = st, st)
     else if kviOp inp = 1 then Inr (True, kviValue inp)
     else Inr (True, st @ kviValue inp)))"

definition KvModel :: "(kv_any, string) Model" where
  "KvModel = \<lparr>mPartition = Some KvPartition, mPartitionEvent = None, mInit = '''', mStep = KvStep, mEqual = None\<rparr>"

definition KvDescribeOperation :: "kv_any \<Rightarrow> kv_any \<Rightarrow> string res" where
  "KvDescribeOperation input output =
     ebind (as_KvInput input) (\<lambda>inp.
     ebind (as_KvOutput output) (\<lambda>out.
     let q = CHR 0x27 in
     if kviOp inp = 0 then Inr (''get('' @ [q] @ kviKey inp @ [q] @ '') -> '' @ [q] @ kvoValue out @ [q])
     else if kviOp inp = 1 then Inr (''put('' @ [q] @ kviKey inp @ [q] @ '', '' @ [q] @ kviValue inp @ [q] @ '')'')
     else if kviOp inp = 2 then Inr (''append('' @ [q] @ kviKey inp @ [q] @ '', '' @ [q] @ kviValue inp @ [q] @ '')'')
     else Inr ''<invalid>''))"

section \<open>The store\<close>

text \<open>What a client may expect of the whole service: one map, in which absent keys hold the empty string.\<close>

definition store_step :: "(string \<Rightarrow> string) \<Rightarrow> kv_any \<Rightarrow> kv_any \<Rightarrow> (bool \<times> (string \<Rightarrow> string)) res" where
  "store_step st input output =
     ebind (as_KvInput input) (\<lambda>inp.
     ebind (as_KvOutput output) (\<lambda>out.
     let k = kviKey inp in
     if kviOp inp = 0 then Inr (kvoValue out = st k, st)
     else if kviOp inp = 1 then Inr (True, st(k := kviValue inp))
     else Inr (True, st(k := st k @ kviValue inp))))"

definition kv_store :: "(kv_any, string \<Rightarrow> string) Model" where
  "kv_store = \<lparr>mPartition = None, mPartitionEvent = None, mInit = (\<lambda>_. ''''), mStep = store_step, mEqual = None\<rparr>"

text \<open>The histories of the tests: requests with their replies, none returning before its call.\<close>

definition kv_history :: "kv_any Operation list \<Rightarrow> bool" where
  "kv_history ops \<longleftrightarrow> (\<forall>x \<in> set ops. onCall x \<le> onReturn x \<and> (\<exists>i. onInput x = InputVal i) \<and> (\<exists>out. onOutput x = OutputVal out))"

definition key_of :: "kv_any Operation \<Rightarrow> string" where
  "key_of x = (case onInput x of InputVal i \<Rightarrow> kviKey i | OutputVal out \<Rightarrow> '''')"

section \<open>Locality\<close>

text \<open>
  A model that runs a copy of another for each key, as the store does. A history of it
  is linearizable if and only if the history of each key is.
\<close>

lemma linearizable_sub:
  assumes "distinct js" and "set js \<subseteq> {..<length ops}"
  shows "linearizable m (map ((!) ops) js) \<longleftrightarrow> (\<exists>q. set q = set js \<and> linearizes m ops (mInit m) q)"
proof -
  let ?n = "length js"
  have tr: "linearizes m (map ((!) ops) js) s q \<longleftrightarrow> linearizes m ops s (map ((!) js) q)" if "set q \<subseteq> {..<?n}" for q s
  proof -
    have "map ((!) (map ((!) ops) js)) q = map ((!) ops) (map ((!) js) q)" using that by auto
    moreover have "sorted_wrt (\<lambda>i j. \<not> precedes (map ((!) ops) js) j i) q \<longleftrightarrow> sorted_wrt (\<lambda>i j. \<not> precedes ops j i) (map ((!) js) q)"
      unfolding sorted_wrt_map using that by (induction q) (auto simp: precedes_def subset_iff)
    moreover have "distinct q \<longleftrightarrow> distinct (map ((!) js) q)"
      using that assms(1) by (auto simp: distinct_map inj_on_def nth_eq_iff_index_eq subset_iff)
    ultimately show ?thesis unfolding linearizes_def by (simp only:)
  qed
  have img: "(!) js ` {..<?n} = set js" by (auto simp: in_set_conv_nth)
  show ?thesis
  proof
    assume "linearizable m (map ((!) ops) js)"
    then obtain q where q: "set q = {..<?n}" "linearizes m (map ((!) ops) js) (mInit m) q" by (auto simp: linearizable_def)
    then have "set (map ((!) js) q) = set js" "linearizes m ops (mInit m) (map ((!) js) q)" using tr [of q] img by simp_all
    then show "\<exists>q. set q = set js \<and> linearizes m ops (mInit m) q" by blast
  next
    assume "\<exists>q. set q = set js \<and> linearizes m ops (mInit m) q"
    then obtain q where q: "set q = set js" "linearizes m ops (mInit m) q" by blast
    define f where "f = the_inv_into {..<?n} ((!) js)"
    have inj: "inj_on ((!) js) {..<?n}" using assms(1) by (auto simp: inj_on_def nth_eq_iff_index_eq)
    have "map ((!) js) (map f q) = q" using q(1) img f_the_inv_into_f [OF inj] by (intro map_idI [THEN trans [OF map_map]]) (auto simp: f_def)
    moreover have "set (map f q) = {..<?n}" using q(1) img the_inv_into_onto [OF inj] by (simp add: f_def)
    ultimately show "linearizable m (map ((!) ops) js)" using q(2) tr [of "map f q"] by (auto simp: linearizable_def intro!: exI [of _ "map f q"])
  qed
qed

lemma filter_nths: "filter P ops = map ((!) ops) (filter (\<lambda>i. P (ops ! i)) [0..<length ops])"
  by (metis (no_types, lifting) comp_apply filter_cong filter_map map_nth)

lemma linearizable_filter:
  "linearizable m (filter P ops) \<longleftrightarrow> (\<exists>q. set q = {i. i < length ops \<and> P (ops ! i)} \<and> linearizes m ops (mInit m) q)"
proof -
  have "set (filter (\<lambda>i. P (ops ! i)) [0..<length ops]) = {i. i < length ops \<and> P (ops ! i)}" by auto
  then show ?thesis using linearizable_sub [of "filter (\<lambda>i. P (ops ! i)) [0..<length ops]" ops m] unfolding filter_nths [of P ops] by auto
qed

locale keyed =
  fixes key :: "'v Operation \<Rightarrow> 'k" and m :: "('v, 's) Model" and p :: "('v, 'k \<Rightarrow> 's) Model"
  assumes init: "mInit p = (\<lambda>_. mInit m)"
    and step: "op_step p st x = (fst (op_step m (st (key x)) x), st(key x := snd (op_step m (st (key x)) x)))"
begin

lemma legal_keys: "legal p st xs \<longleftrightarrow> (\<forall>k. legal m (st k) (filter (\<lambda>x. key x = k) xs))"
proof (induction xs arbitrary: st)
  case (Cons x xs)
  let ?st = "st(key x := snd (op_step m (st (key x)) x))"
  have "(\<forall>k. legal m (st k) (filter (\<lambda>y. key y = k) (x # xs))) \<longleftrightarrow>
      fst (op_step m (st (key x)) x) \<and> (\<forall>k. legal m (?st k) (filter (\<lambda>y. key y = k) xs))"
    by (auto split: if_splits)
  then show ?case using Cons by (simp add: step)
qed simp

lemma linearizes_key:
  "linearizes p ops st q \<Longrightarrow> linearizes m ops (st k) (filter (\<lambda>i. key (ops ! i) = k) q)"
proof -
  assume l: "linearizes p ops st q"
  have "legal m (st k) (filter (\<lambda>x. key x = k) (map ((!) ops) q))" using l legal_keys unfolding linearizes_def by blast
  then show ?thesis using l by (simp add: linearizes_def filter_map comp_def sorted_wrt_filter)
qed

text \<open>Merging: the next request of the key whose request returns first can always go next.\<close>

lemma linearizes_merge:
  assumes "finite R" and "R = (\<Union>k. set (qs k))" and "\<And>k. linearizes m ops (st k) (qs k)" and "\<And>k i. i \<in> set (qs k) \<Longrightarrow> key (ops ! i) = k"
    and "\<And>i. i \<in> R \<Longrightarrow> onCall (ops ! i) \<le> onReturn (ops ! i)"
  shows "\<exists>q. set q = R \<and> linearizes p ops st q"
  using assms
proof (induction "card R" arbitrary: R qs st rule: less_induct)
  case less
  show ?case
  proof (cases "R = {}")
    case True
    then show ?thesis by (intro exI [of _ "[]"]) (simp add: linearizes_def)
  next
    case False
    have "Min ((\<lambda>i. onReturn (ops ! i)) ` R) \<in> (\<lambda>i. onReturn (ops ! i)) ` R" by (rule Min_in) (use less.prems(1) False in simp_all)
    then obtain r where r: "r \<in> R" "onReturn (ops ! r) = Min ((\<lambda>i. onReturn (ops ! i)) ` R)" by auto
    have least: "onReturn (ops ! r) \<le> onReturn (ops ! j)" if "j \<in> R" for j unfolding r(2) using less.prems(1) that by simp
    obtain k where k: "r \<in> set (qs k)" using r(1) less.prems(2) by blast
    obtain h t where ht: "qs k = h # t" using k by (cases "qs k") auto
    have lin: "h \<notin> set t" "\<forall>j \<in> set t. \<not> precedes ops j h" "fst (op_step m (st k) (ops ! h))"
      "linearizes m ops (snd (op_step m (st k) (ops ! h))) t"
      using less.prems(3) [of k] by (simp_all add: ht linearizes_Cons)
    have "h \<in> set (qs k)" using ht by simp
    then have kh: "key (ops ! h) = k" "h \<in> R" using less.prems(4) less.prems(2) by blast+
    have "\<not> precedes ops r h" using k lin(2) less.prems(5) [OF r(1)] unfolding ht by (auto simp: precedes_def)
    then have first: "\<not> precedes ops j h" if "j \<in> R" for j using least [OF that] by (simp add: precedes_def)
    let ?qs = "qs(k := t)" and ?st = "st(k := snd (op_step m (st k) (ops ! h)))"
    have other: "h \<notin> set (qs k')" if "k' \<noteq> k" for k' using less.prems(4) [of h k'] kh(1) that by blast
    have mem: "i \<in> set (?qs k') \<longleftrightarrow> i \<in> set (qs k') \<and> i \<noteq> h" for i k' using lin(1) other [of k'] ht by (cases "k' = k") auto
    have "R - {h} = (\<Union>k. set (?qs k))" unfolding less.prems(2) using mem by blast
    moreover have "linearizes m ops (?st k') (?qs k')" for k' using less.prems(3) lin(4) by simp
    moreover have "key (ops ! i) = k'" if "i \<in> set (?qs k')" for k' i using that less.prems(4) mem by blast
    moreover have "card (R - {h}) < card R" by (rule card_Diff1_less [OF less.prems(1) kh(2)])
    ultimately obtain q where q: "set q = R - {h}" "linearizes p ops ?st q"
      using less.hyps [of "R - {h}" ?qs ?st] less.prems(1,5) by blast
    have "linearizes p ops st (h # q)" using q first lin(3) kh(1) by (simp add: linearizes_Cons step)
    moreover have "set (h # q) = R" using q(1) kh(2) by auto
    ultimately show ?thesis by blast
  qed
qed

lemma locality:
  assumes "\<forall>x \<in> set ops. onCall x \<le> onReturn x"
  shows "linearizable p ops \<longleftrightarrow> (\<forall>k. linearizable m (filter (\<lambda>x. key x = k) ops))"
proof
  assume "linearizable p ops"
  then obtain q where q: "set q = {..<length ops}" "linearizes p ops (mInit p) q" by (auto simp: linearizable_def)
  show "\<forall>k. linearizable m (filter (\<lambda>x. key x = k) ops)"
  proof
    fix k
    show "linearizable m (filter (\<lambda>x. key x = k) ops)"
      unfolding linearizable_filter using linearizes_key [OF q(2), of k] q(1)
      by (intro exI [of _ "filter (\<lambda>i. key (ops ! i) = k) q"]) (auto simp: init)
  qed
next
  assume "\<forall>k. linearizable m (filter (\<lambda>x. key x = k) ops)"
  then obtain qs where qs: "\<And>k. set (qs k) = {i. i < length ops \<and> key (ops ! i) = k} \<and> linearizes m ops (mInit m) (qs k)"
    unfolding linearizable_filter by metis
  have "\<exists>q. set q = {..<length ops} \<and> linearizes p ops (mInit p) q"
    by (rule linearizes_merge [of _ qs]) (use qs assms in \<open>auto simp: init\<close>)
  then show "linearizable p ops" by (simp add: linearizable_def)
qed

end


section \<open>The partition is by key\<close>

interpretation kv: keyed key_of KvModel kv_store
proof
  show "mInit kv_store = (\<lambda>_. mInit KvModel)" by (simp add: kv_store_def KvModel_def)
  show "op_step kv_store st x = (fst (op_step KvModel (st (key_of x)) x), st(key_of x := snd (op_step KvModel (st (key_of x)) x)))" for st x
    by (cases "onInput x"; cases "onOutput x")
      (simp_all add: op_step_def kv_store_def KvModel_def store_step_def KvStep_def key_of_def Let_def)
qed

lemma kv_split_filter:
  assumes "\<forall>x \<in> set history. \<exists>i. onInput x = InputVal i" and "distinct keys" "dom m = set keys"
  shows "\<exists>m' keys'. kv_split m keys history = Inr (m', keys') \<and> distinct keys' \<and> dom m' = set keys' \<and> set keys' = set keys \<union> key_of ` set history \<and>
    (\<forall>k \<in> set keys'. m' k = Some ((case m k of None \<Rightarrow> [] | Some vs \<Rightarrow> vs) @ filter (\<lambda>x. key_of x = k) history))"
  using assms
proof (induction history arbitrary: m keys)
  case Nil
  then show ?case by (auto split: option.splits)
next
  case (Cons v history)
  obtain i where i: "onInput v = InputVal i" using Cons.prems(1) by auto
  then have k: "key_of v = kviKey i" by (simp add: key_of_def)
  let ?m = "m(kviKey i \<mapsto> (case m (kviKey i) of None \<Rightarrow> [] | Some vs \<Rightarrow> vs) @ [v])"
  let ?keys = "if m (kviKey i) = None then keys @ [kviKey i] else keys"
  have step: "kv_split m keys (v # history) = kv_split ?m ?keys history" by (simp add: i Let_def split: option.splits)
  have mem: "m (kviKey i) \<noteq> None \<longleftrightarrow> kviKey i \<in> set keys" using Cons.prems(3) by (metis domIff)
  have dist: "distinct ?keys" "dom ?m = set ?keys" using Cons.prems(2,3) mem by auto
  have "\<forall>x \<in> set history. \<exists>i. onInput x = InputVal i" using Cons.prems(1) by simp
  from Cons.IH [OF this dist] obtain m' keys' where IH: "kv_split ?m ?keys history = Inr (m', keys')" "distinct keys'" "dom m' = set keys'"
    "set keys' = set ?keys \<union> key_of ` set history"
    "\<forall>k \<in> set keys'. m' k = Some ((case ?m k of None \<Rightarrow> [] | Some vs \<Rightarrow> vs) @ filter (\<lambda>x. key_of x = k) history)"
    by blast
  have "set keys' = set keys \<union> key_of ` set (v # history)" using IH(4) k mem by auto
  moreover have "\<forall>k' \<in> set keys'. m' k' = Some ((case m k' of None \<Rightarrow> [] | Some vs \<Rightarrow> vs) @ filter (\<lambda>x. key_of x = k') (v # history))"
    using IH(5) k by auto
  ultimately show ?case using IH(1-3) step by simp
qed

lemma KvPartition_filter:
  assumes "\<forall>x \<in> set history. \<exists>i. onInput x = InputVal i"
  shows "\<exists>keys. sorted keys \<and> distinct keys \<and> set keys = key_of ` set history \<and>
    KvPartition history = Inr (map (\<lambda>k. filter (\<lambda>x. key_of x = k) history) keys)"
proof -
  obtain m keys where s: "kv_split Map.empty [] history = Inr (m, keys)" "distinct keys" "set keys = key_of ` set history"
    "\<forall>k \<in> set keys. m k = Some (filter (\<lambda>x. key_of x = k) history)"
    using kv_split_filter [OF assms, of "[]" Map.empty] by auto
  have "map (\<lambda>k. case m k of None \<Rightarrow> [] | Some vs \<Rightarrow> vs) (sort keys) = map (\<lambda>k. filter (\<lambda>x. key_of x = k) history) (sort keys)"
    using s(4) by simp
  then show ?thesis using s by (intro exI [of _ "sort keys"]) (simp add: KvPartition_def)
qed

lemma linearizable_nil: "linearizable m []"
  by (auto simp: linearizable_def linearizes_def intro: exI [of _ "[]"])

lemma kv_parts:
  assumes "kv_history ops"
  shows "\<exists>parts. KvPartition ops = Inr parts \<and> (linearizable kv_store ops \<longleftrightarrow> (\<forall>part \<in> set parts. linearizable KvModel part)) \<and>
    (\<forall>part \<in> set parts. part \<noteq> [] \<and> kv_history part \<and> length part \<le> length ops) \<and> (parts = [] \<longleftrightarrow> ops = [])"
proof -
  have "\<forall>x \<in> set ops. \<exists>i. onInput x = InputVal i" using assms by (simp add: kv_history_def)
  then obtain keys where k: "set keys = key_of ` set ops" "KvPartition ops = Inr (map (\<lambda>k. filter (\<lambda>x. key_of x = k) ops) keys)"
    using KvPartition_filter by blast
  have "linearizable KvModel (filter (\<lambda>x. key_of x = k) ops)" if "k \<notin> set keys" for k
    using that k(1) linearizable_nil by (metis (mono_tags, lifting) filter_False image_eqI)
  moreover have "\<forall>x \<in> set ops. onCall x \<le> onReturn x" using assms by (simp add: kv_history_def)
  ultimately have "linearizable kv_store ops \<longleftrightarrow> (\<forall>k \<in> set keys. linearizable KvModel (filter (\<lambda>x. key_of x = k) ops))"
    using kv.locality by blast
  moreover have "filter (\<lambda>x. key_of x = k) ops \<noteq> []" if "k \<in> set keys" for k using that k(1) by (auto simp: filter_empty_conv)
  moreover have "keys = [] \<longleftrightarrow> ops = []" using k(1) by (metis image_is_empty set_empty)
  ultimately show ?thesis using k(2) assms by (auto simp: kv_history_def)
qed


section \<open>What the checker says about a history of the store\<close>

lemma linearizable_fillDefault [simp]:
  "linearizable (fillDefault m) ops = linearizable m ops" "partial_linearization (fillDefault m) ops p = partial_linearization m ops p"
  "wf_ops (fillDefault m) ops = wf_ops m ops"
proof -
  have o: "op_step (fillDefault m) = op_step m" by (simp add: op_step_def fillDefault_def fun_eq_iff)
  have "legal (fillDefault m) s xs = legal m s xs" for s xs by (induction xs arbitrary: s) (simp_all add: o)
  then show "linearizable (fillDefault m) ops = linearizable m ops" "partial_linearization (fillDefault m) ops p = partial_linearization m ops p"
    by (simp_all add: linearizable_def partial_linearization_def linearizes_def) (simp_all add: fillDefault_def)
  show "wf_ops (fillDefault m) ops = wf_ops m ops" by (simp add: wf_ops_def fillDefault_def)
qed

lemma kv_wf_ops: "kv_history ops \<Longrightarrow> wf_ops KvModel ops"
  by (fastforce simp: kv_history_def wf_ops_def KvModel_def KvStep_def)

lemma kv_checked:
  assumes "kv_history ops" and "length ops < 2 ^ 63" and "is_time_sort srt"
  shows "\<exists>parts. operations_entries srt KvModel ops = Inr (map (makeEntries srt) parts) \<and> KvPartition ops = Inr parts \<and>
    par_ok (fillDefault KvModel) parts (map (makeEntries srt) parts) \<and>
    (linearizable kv_store ops \<longleftrightarrow> (\<forall>part \<in> set parts. linearizable (fillDefault KvModel) part)) \<and> (parts = [] \<longleftrightarrow> ops = [])"
proof -
  obtain parts where p: "KvPartition ops = Inr parts" "linearizable kv_store ops \<longleftrightarrow> (\<forall>part \<in> set parts. linearizable KvModel part)"
    "\<forall>part \<in> set parts. kv_history part \<and> length part \<le> length ops" "parts = [] \<longleftrightarrow> ops = []" using kv_parts [OF assms(1)] by blast
  have "eq_model (fillDefault KvModel)" by (simp add: eq_model_def fillDefault_def KvModel_def ShallowEqual_def)
  moreover have "wf_ops KvModel (parts ! i) \<and> length (parts ! i) < 2 ^ 63" if "i < length parts" for i
    using p(3) kv_wf_ops assms(2) nth_mem [OF that] by (meson le_less_trans)
  ultimately have "par_ok (fillDefault KvModel) parts (map (makeEntries srt) parts)"
    using makeEntries_ok [OF assms(3)] by (simp add: par_ok_def)
  moreover have "operations_entries srt KvModel ops = Inr (map (makeEntries srt) parts)"
    using p(1) by (simp add: operations_entries_def call_partition_def fillDefault_def KvModel_def)
  ultimately show ?thesis using p by auto
qed

text \<open>An order of entries that \<^verbatim>\<open>sort.Sort\<close> may give.\<close>

definition time_sort :: "'v pentry list \<Rightarrow> 'v pentry list" where
  "time_sort = sort_key (\<lambda>e. 2 * peTime e + (if peKind e = returnEntry then 1 else 0))"

lemma is_time_sort_time_sort: "is_time_sort time_sort"
proof -
  have "sorted_wrt (\<lambda>a b. \<not> byTime_less b a) (time_sort xs)" for xs :: "'a pentry list"
  proof -
    have "sorted (map (\<lambda>e. 2 * peTime e + (if peKind e = returnEntry then 1 else 0)) (time_sort xs))"
      unfolding time_sort_def by (rule sorted_sort_key)
    then show ?thesis unfolding sorted_map
      by (rule sorted_wrt_mono_rel [rotated]) (auto simp: byTime_less_def split: if_splits)
  qed
  then show ?thesis by (simp add: is_time_sort_def time_sort_def)
qed

lemma linearizableI: "set p = {..<length ops} \<Longrightarrow> linearizes m ops (mInit m) p \<Longrightarrow> linearizable m ops"
  by (auto simp: linearizable_def)

lemma kv_returns:
  assumes "kv_history ops" and "ops \<noteq> []" and "length ops < 2 ^ 63" and "is_time_sort (envSort env)"
  shows "\<exists>out. checkOperations env KvModel ops verbose timeout out"
proof -
  obtain parts where p: "operations_entries (envSort env) KvModel ops = Inr (map (makeEntries (envSort env)) parts)"
    "par_ok (fillDefault KvModel) parts (map (makeEntries (envSort env)) parts)" "parts \<noteq> []"
    using kv_checked [OF assms(1,3,4)] assms(2) by blast
  let ?h = "map (makeEntries (envSort env)) parts"
  have "par_inv (fillDefault KvModel) parts verbose timeout (par_start (length ?h))" using par_inv_start by simp
  from par_returns [OF p(2) _ this] p(3) obtain st r where
    "(par_step (fillDefault KvModel) ?h verbose timeout)\<^sup>*\<^sup>* (par_start (length ?h)) st" "pPhase st = Returned r" by auto
  then have "checkParallel (envOrder env) (fillDefault KvModel) ?h verbose timeout (r, par_info (envOrder env) ?h verbose st)"
    by (auto simp: checkParallel_def)
  then show ?thesis unfolding checkOperations_def p(1) by blast
qed

lemma kv_result:
  assumes "kv_history ops" and "length ops < 2 ^ 63" and "is_time_sort (envSort env)" and run: "checkOperations env KvModel ops verbose timeout out"
  shows "fst out = Ok \<Longrightarrow> linearizable kv_store ops" "fst out = Illegal \<Longrightarrow> \<not> linearizable kv_store ops" "fst out = Unknown \<Longrightarrow> timeout > 0"
    "verbose \<Longrightarrow> \<forall>xs. set (envOrder env xs) = set xs \<Longrightarrow> \<exists>parts. KvPartition ops = Inr parts \<and> liHistory (snd out) = map (makeEntries (envSort env)) parts \<and>
       length (liPartials (snd out)) = length parts \<and> (\<forall>i < length parts. \<forall>sq \<in> set (liPartials (snd out) ! i). \<exists>p. sq = map int p \<and> partial_linearization KvModel (parts ! i) p)"
proof -
  obtain parts where p: "operations_entries (envSort env) KvModel ops = Inr (map (makeEntries (envSort env)) parts)"
    "KvPartition ops = Inr parts" "par_ok (fillDefault KvModel) parts (map (makeEntries (envSort env)) parts)"
    "linearizable kv_store ops \<longleftrightarrow> (\<forall>part \<in> set parts. linearizable (fillDefault KvModel) part)"
    using kv_checked [OF assms(1,2,3)] by blast
  have par: "checkParallel (envOrder env) (fillDefault KvModel) (map (makeEntries (envSort env)) parts) verbose timeout out"
    using run p(1) by (simp add: checkOperations_def)
  from checkParallel_result [OF p(3) par] p(4)
  show "fst out = Ok \<Longrightarrow> linearizable kv_store ops" "fst out = Illegal \<Longrightarrow> \<not> linearizable kv_store ops" "fst out = Unknown \<Longrightarrow> timeout > 0" by auto
  assume "verbose" "\<forall>xs. set (envOrder env xs) = set xs"
  then show "\<exists>parts. KvPartition ops = Inr parts \<and> liHistory (snd out) = map (makeEntries (envSort env)) parts \<and> length (liPartials (snd out)) = length parts \<and>
    (\<forall>i < length parts. \<forall>sq \<in> set (liPartials (snd out) ! i). \<exists>p. sq = map int p \<and> partial_linearization KvModel (parts ! i) p)"
    using checkParallel_info [OF p(3)] par p(2) by auto
qed

text \<open>A put of a value, and a get that starts after it and returns the value or something else.\<close>

definition put_get :: "string \<Rightarrow> kv_any Operation list" where
  "put_get v =
     [\<lparr>onClientId = 0, onInput = InputVal \<lparr>kviOp = 1, kviKey = ''k'', kviValue = ''a''\<rparr>, onCall = 1, onOutput = OutputVal \<lparr>kvoValue = ''''\<rparr>, onReturn = 2\<rparr>,
      \<lparr>onClientId = 1, onInput = InputVal \<lparr>kviOp = 0, kviKey = ''k'', kviValue = ''''\<rparr>, onCall = 3, onOutput = OutputVal \<lparr>kvoValue = v\<rparr>, onReturn = 4\<rparr>]"

lemma put_get_history: "kv_history (put_get v)" "length (put_get v) < 2 ^ 63" "put_get v \<noteq> []"
  by (simp_all add: kv_history_def put_get_def)

lemma put_get_linearizable: "linearizable kv_store (put_get v) \<longleftrightarrow> v = ''a''"
proof
  assume "linearizable kv_store (put_get v)"
  then obtain p where p: "set p = {..<2}" "linearizes kv_store (put_get v) (\<lambda>_. '''') p"
    by (auto simp: linearizable_def kv_store_def put_get_def numeral_2_eq_2)
  have "length p = 2" using p distinct_card [of p] by (simp add: linearizes_def)
  then obtain i j where "p = [i, j]" by (metis One_nat_def Suc_1 length_0_conv length_Suc_conv)
  moreover have "{..<2} = {0, 1 :: nat}" by auto
  ultimately have "p = [0, 1] \<or> p = [1, 0]" using p unfolding linearizes_def by (auto simp: doubleton_eq_iff)
  then show "v = ''a''" using p(2)
    by (auto simp: linearizes_def precedes_def op_step_def put_get_def kv_store_def store_step_def Let_def)
next
  assume "v = ''a''"
  then show "linearizable kv_store (put_get v)"
    by (intro linearizableI [of "[0, 1]"])
      (auto simp: linearizes_def precedes_def op_step_def put_get_def kv_store_def store_step_def Let_def less_Suc_eq)
qed

abbreviation plain_env :: "kv_any env" where
  "plain_env \<equiv> \<lparr>envSort = time_sort, envOrder = (\<lambda>xs. xs)\<rparr>"

text \<open>C3: \<^verbatim>\<open>CheckOperations\<close> with \<^verbatim>\<open>KvModel\<close> returns on every non-empty history of requests and replies of the
  key/value store, in every interleaving of its goroutines with the same answer: whether the
  history of the whole store is linearizable.\<close>

theorem check_operations_decides:
  assumes "kv_history ops" and "ops \<noteq> []" and "length ops < 2 ^ 63" and "is_time_sort (envSort env)"
  shows "CheckOperations env KvModel ops b \<longleftrightarrow> b = linearizable kv_store ops"
proof -
  have "(fst out = Ok) = linearizable kv_store ops" if "checkOperations env KvModel ops False 0 out" for out
    using kv_result [OF assms(1,3,4) that] by (cases "fst out") auto
  then show ?thesis using kv_returns [OF assms] unfolding CheckOperations_def by blast
qed

theorem check_operations_decides_witness:
  "CheckOperations plain_env KvModel (put_get ''a'') True \<and> \<not> CheckOperations plain_env KvModel (put_get ''b'') True"
  using check_operations_decides [OF put_get_history(1,3,2), of plain_env]
  by (simp add: put_get_linearizable is_time_sort_time_sort)


text \<open>Partitioning by key is right: a history of the store is linearizable if and only if each part into which
  \<^verbatim>\<open>KvModel.Partition\<close> splits it is linearizable for the model of one key.\<close>

theorem kv_locality:
  assumes "kv_history ops"
  shows "\<exists>parts. KvPartition ops = Inr parts \<and> (linearizable kv_store ops \<longleftrightarrow> (\<forall>part \<in> set parts. linearizable KvModel part))"
  using kv_parts [OF assms] by blast

theorem kv_locality_witness:
  "\<exists>parts. KvPartition (put_get ''a'') = Inr parts \<and> (\<forall>part \<in> set parts. linearizable KvModel part)"
  using kv_locality [OF put_get_history(1), of "''a''"] by (simp add: put_get_linearizable)

text \<open>C30: What the tests call. With a timeout, \<^verbatim>\<open>CheckOperationsVerbose\<close> still returns on every non-empty history,
  its verdicts \<^verbatim>\<open>Ok\<close> and \<^verbatim>\<open>Illegal\<close> are right, \<^verbatim>\<open>Unknown\<close> comes only from the timeout, and every sequence
  of ids it reports is a partial linearization of its partition.\<close>

theorem check_operations_verbose:
  assumes "kv_history ops" and "ops \<noteq> []" and "length ops < 2 ^ 63" and "is_time_sort (envSort env)" and "\<forall>xs. set (envOrder env xs) = set xs"
  shows "(\<exists>out. CheckOperationsVerbose env KvModel ops timeout out) \<and>
    (\<forall>r info. CheckOperationsVerbose env KvModel ops timeout (r, info) \<longrightarrow>
       (r = Ok \<longrightarrow> linearizable kv_store ops) \<and> (r = Illegal \<longrightarrow> \<not> linearizable kv_store ops) \<and> (r = Unknown \<longrightarrow> timeout > 0) \<and>
       (\<exists>parts. KvPartition ops = Inr parts \<and> length (liPartials info) = length parts \<and>
          (\<forall>i < length parts. \<forall>sq \<in> set (liPartials info ! i). \<exists>p. sq = map int p \<and> partial_linearization KvModel (parts ! i) p)))"
proof (intro conjI allI impI)
  show "\<exists>out. CheckOperationsVerbose env KvModel ops timeout out" unfolding CheckOperationsVerbose_def by (rule kv_returns [OF assms(1-4)])
  fix r info assume "CheckOperationsVerbose env KvModel ops timeout (r, info)"
  then have "checkOperations env KvModel ops True timeout (r, info)" by (simp add: CheckOperationsVerbose_def)
  note res = kv_result [OF assms(1,3,4) this]
  show "r = Ok \<Longrightarrow> linearizable kv_store ops" "r = Illegal \<Longrightarrow> \<not> linearizable kv_store ops" "r = Unknown \<Longrightarrow> timeout > 0" using res(1-3) by simp_all
  show "\<exists>parts. KvPartition ops = Inr parts \<and> length (liPartials info) = length parts \<and>
    (\<forall>i < length parts. \<forall>sq \<in> set (liPartials info ! i). \<exists>p. sq = map int p \<and> partial_linearization KvModel (parts ! i) p)"
    using res(4) assms(5) by auto
qed

theorem check_operations_verbose_witness:
  "\<exists>r info. CheckOperationsVerbose plain_env KvModel (put_get ''b'') 1 (r, info) \<and> r \<noteq> Ok"
  using check_operations_verbose [OF put_get_history(1,3,2), of plain_env "''b''" 1]
  by (auto simp: put_get_linearizable is_time_sort_time_sort)

text \<open>C40: On an empty history \<^verbatim>\<open>KvModel\<close> gives no partition, and \<^verbatim>\<open>CheckOperations\<close>, though the empty history is
  linearizable, never returns: its loop tests the number of results only after it received one.
  \<^verbatim>\<open>CheckOperationsTimeout\<close> returns only if the timeout is positive, and then never with the verdict \<^verbatim>\<open>Ok\<close>.\<close>

theorem check_operations_empty:
  "linearizable kv_store [] \<and> \<not> CheckOperations env KvModel [] b \<and>
   (CheckOperationsTimeout env KvModel [] timeout r \<longleftrightarrow> timeout > 0 \<and> r = Unknown)"
proof -
  have "operations_entries (envSort env) KvModel [] = Inr []"
    by (simp add: operations_entries_def call_partition_def fillDefault_def KvModel_def KvPartition_def)
  then have "(\<exists>info. checkOperations env KvModel [] False t (r, info)) \<longleftrightarrow> t > 0 \<and> r = Unknown" for t r
    using checkParallel_empty [of "envOrder env" "fillDefault KvModel" False t r] by (simp add: checkOperations_def)
  from this [of 0] this [of timeout r] show ?thesis
    by (auto simp: linearizable_nil CheckOperations_def CheckOperationsTimeout_def)
qed


text \<open>C4: The search decides linearizability for every model with an equality test: on the entries of a history whose
  operations do not return before their calls it ends without a panic, answers whether the
  history is linearizable, and every sequence it notes in \<^verbatim>\<open>longest\<close> is a partial linearization.\<close>

theorem check_single_decides:
  assumes "wf_ops m ops" and "eq_model m" and "length ops < 2 ^ 63" and "is_time_sort srt"
  shows "\<exists>ls. checkSingle m (makeEntries srt ops) cp (\<lambda>_. False) = Some (Inr (linearizable m ops, ls)) \<and> longest_sound m ops ls"
  using checkSingle_correct [OF assms(1) makeEntries_ok [OF assms(4)] assms(2,3), of cp "\<lambda>_. False"] by auto

lemma kv_eq_model: "eq_model (fillDefault KvModel)"
  by (simp add: eq_model_def fillDefault_def KvModel_def ShallowEqual_def)

theorem check_single_decides_witness:
  "\<exists>b ls. checkSingle (fillDefault KvModel) (makeEntries time_sort (put_get ''a'')) True (\<lambda>_. False) = Some (Inr (b, ls)) \<and> length ls = 2"
proof -
  have "wf_ops (fillDefault KvModel) (put_get ''a'')" using kv_wf_ops put_get_history(1) by simp
  from check_single_decides [OF this kv_eq_model put_get_history(2) is_time_sort_time_sort, of True] show ?thesis
    by (auto simp: longest_sound_def put_get_def)
qed

text \<open>A run of the goroutines of \<^verbatim>\<open>checkParallel\<close> is bounded by the number of partitions: each search ends once, each
  result is received once and the timeout fires at most once; and if there is a partition or a timeout, no run
  is stuck before the result is returned.\<close>

theorem check_parallel_bounded:
  assumes "par_ok m opss history" and "(par_step m history ci timeout ^^ k) (par_start (length history)) st"
  shows "k \<le> 2 * length history + 1 \<and>
    (history \<noteq> [] \<or> timeout > 0 \<longrightarrow> (\<exists>r. pPhase st = Returned r) \<or> (\<exists>st'. par_step m history ci timeout st st'))"
proof -
  have i: "par_inv m opss ci timeout st" "par_progress st = k" using par_run [OF assms] by simp_all
  have "length opss = length history" using assms(1) by (simp add: par_ok_def)
  then show ?thesis using par_bound(1) [OF i(1)] i(2) par_moves [OF assms(1) i(1)] by simp
qed

theorem check_parallel_bounded_witness:
  "\<exists>st'. par_step (fillDefault KvModel) [makeEntries time_sort (put_get ''a'')] True 0 (par_start 1) st'"
proof -
  have "par_ok (fillDefault KvModel) [put_get ''a''] [makeEntries time_sort (put_get ''a'')]"
    using kv_eq_model kv_wf_ops put_get_history makeEntries_ok [OF is_time_sort_time_sort] by (simp add: par_ok_def)
  from check_parallel_bounded [OF this, where ci = True and timeout = 0 and k = 0 and st = "par_start 1"] show ?thesis by (simp add: par_start_def)
qed

end
