(* ===== verification/Porc_Visual.thy ===== *)
theory Porc_Visual
  imports Porc_Kv
begin

text \<open>
  The data shown for a history that was checked, \<^verbatim>\<open>computeVisualizationData\<close> of \<^verbatim>\<open>src/porcupine/visualization.go\<close>. It
  replays the partial linearizations the checker reports and panics if the model refuses a
  step. The facts show that this never happens with what the checker returns. The
  functions that describe operations and states are arguments; writing the page is not modelled.
\<close>

section \<open>Definitions\<close>

record historyElement =
  heClientId :: int
  heStart :: int
  heEnd :: int
  heDescription :: string

type_synonym linearizationStep = "int \<times> string"

record partitionVisualizationData =
  pvHistory :: "historyElement list"
  pvPartials :: "linearizationStep list list"
  pvLargest :: "int \<rightharpoonup> int"

definition zero_element :: historyElement where
  "zero_element = \<lparr>heClientId = 0, heStart = 0, heEnd = 0, heDescription = ''''\<rparr>"

text \<open>The value of an id in one of the maps; for an absent id it would be nil, which the models do not accept.\<close>

definition vis_value :: "(int \<rightharpoonup> 'v) \<Rightarrow> int \<Rightarrow> 'v res" where
  "vis_value vs i = (case vs i of None \<Rightarrow> Inl TypeAssertion | Some v \<Rightarrow> Inr v)"

fun vis_entries :: "('v \<Rightarrow> 'v \<Rightarrow> string res) \<Rightarrow> 'v pentry list \<Rightarrow> historyElement list \<Rightarrow> (int \<rightharpoonup> 'v) \<Rightarrow> (int \<rightharpoonup> 'v) \<Rightarrow>
    (historyElement list \<times> (int \<rightharpoonup> 'v) \<times> (int \<rightharpoonup> 'v)) res" where
  "vis_entries describeOp [] history callValue returnValue = Inr (history, callValue, returnValue)"
| "vis_entries describeOp (elem # es) history callValue returnValue =
     ebind (nth_go history (peId elem)) (\<lambda>h.
     case peKind elem of
       callEntry \<Rightarrow>
         ebind (upd_go history (peId elem) (h\<lparr>heClientId := peClientId elem, heStart := peTime elem\<rparr>)) (\<lambda>history'.
         vis_entries describeOp es history' (callValue(peId elem \<mapsto> peValue elem)) returnValue)
     | returnEntry \<Rightarrow>
         ebind (vis_value callValue (peId elem)) (\<lambda>c.
         ebind (describeOp c (peValue elem)) (\<lambda>d.
         ebind (upd_go history (peId elem) (h\<lparr>heEnd := peTime elem, heDescription := d\<rparr>)) (\<lambda>history'.
         vis_entries describeOp es history' callValue (returnValue(peId elem \<mapsto> peValue elem))))))"

text \<open>The steps of one partial linearization, the \<^verbatim>\<open>i\<close>-th, of length \<^verbatim>\<open>len\<close>; the panic on a refused step is \<^verbatim>\<open>AssertFailed\<close>.\<close>

fun vis_steps :: "('v, 's) Model \<Rightarrow> ('s \<Rightarrow> string) \<Rightarrow> (int \<rightharpoonup> 'v) \<Rightarrow> (int \<rightharpoonup> 'v) \<Rightarrow> int \<Rightarrow> nat \<Rightarrow> int list \<Rightarrow> 's \<Rightarrow> (int \<rightharpoonup> int) \<Rightarrow> (int \<Rightarrow> nat) \<Rightarrow>
    (linearizationStep list \<times> (int \<rightharpoonup> int) \<times> (int \<Rightarrow> nat)) res" where
  "vis_steps m describeState callValue returnValue i len [] state largestIndex largestSize = Inr ([], largestIndex, largestSize)"
| "vis_steps m describeState callValue returnValue i len (histId # ids) state largestIndex largestSize =
     ebind (vis_value callValue histId) (\<lambda>c.
     ebind (vis_value returnValue histId) (\<lambda>r.
     ebind (mStep m state c r) (\<lambda>(ok, state').
     ebind (assert_go ok) (\<lambda>_.
     let larger = largestSize histId < len;
         largestIndex' = (if larger then largestIndex(histId \<mapsto> i) else largestIndex);
         largestSize' = (if larger then largestSize(histId := len) else largestSize)
     in ebind (vis_steps m describeState callValue returnValue i len ids state' largestIndex' largestSize') (\<lambda>(steps, ix, sz).
        Inr ((histId, describeState state') # steps, ix, sz))))))"

fun vis_partials :: "('v, 's) Model \<Rightarrow> ('s \<Rightarrow> string) \<Rightarrow> (int \<rightharpoonup> 'v) \<Rightarrow> (int \<rightharpoonup> 'v) \<Rightarrow> int \<Rightarrow> int list list \<Rightarrow> (int \<rightharpoonup> int) \<Rightarrow> (int \<Rightarrow> nat) \<Rightarrow>
    (linearizationStep list list \<times> (int \<rightharpoonup> int)) res" where
  "vis_partials m describeState callValue returnValue i [] largestIndex largestSize = Inr ([], largestIndex)"
| "vis_partials m describeState callValue returnValue i (partial # partials) largestIndex largestSize =
     ebind (vis_steps m describeState callValue returnValue i (length partial) partial (mInit m) largestIndex largestSize) (\<lambda>(l, ix, sz).
     ebind (vis_partials m describeState callValue returnValue (i + 1) partials ix sz) (\<lambda>(ls, ix').
     Inr (l # ls, ix')))"

definition vis_partition :: "(int list list \<Rightarrow> int list list) \<Rightarrow> ('v \<Rightarrow> 'v \<Rightarrow> string res) \<Rightarrow> ('s \<Rightarrow> string) \<Rightarrow> ('v, 's) Model \<Rightarrow>
    'v pentry list \<Rightarrow> int list list \<Rightarrow> partitionVisualizationData res" where
  "vis_partition sortLength describeOp describeState m es partials =
     (let n = length es div 2 in
      ebind (vis_entries describeOp es (replicate n zero_element) Map.empty Map.empty) (\<lambda>(history, callValue, returnValue).
      ebind (vis_partials m describeState callValue returnValue 0 (sortLength partials) Map.empty (\<lambda>_. 0)) (\<lambda>(ls, largestIndex).
      Inr \<lparr>pvHistory = history, pvPartials = ls, pvLargest = largestIndex\<rparr>)))"

fun vis_loop :: "(int list list \<Rightarrow> int list list) \<Rightarrow> ('v \<Rightarrow> 'v \<Rightarrow> string res) \<Rightarrow> ('s \<Rightarrow> string) \<Rightarrow> ('v, 's) Model \<Rightarrow>
    int list list list \<Rightarrow> int \<Rightarrow> 'v pentry list list \<Rightarrow> partitionVisualizationData list res" where
  "vis_loop sortLength describeOp describeState m partials part [] = Inr []"
| "vis_loop sortLength describeOp describeState m partials part (es # history) =
     ebind (nth_go partials part) (\<lambda>ps.
     ebind (vis_partition sortLength describeOp describeState m es ps) (\<lambda>d.
     ebind (vis_loop sortLength describeOp describeState m partials (part + 1) history) (\<lambda>ds.
     Inr (d # ds))))"

definition computeVisualizationData :: "(int list list \<Rightarrow> int list list) \<Rightarrow> ('v \<Rightarrow> 'v \<Rightarrow> string res) \<Rightarrow> ('s \<Rightarrow> string) \<Rightarrow> ('v, 's) Model \<Rightarrow>
    'v linearizationInfo \<Rightarrow> partitionVisualizationData list res" where
  "computeVisualizationData sortLength describeOp describeState m info =
     vis_loop sortLength describeOp describeState (fillDefault m) (liPartials info) 0 (liHistory info)"

section \<open>The entries\<close>

definition vis_done :: "('v \<Rightarrow> 'v \<Rightarrow> string res) \<Rightarrow> 'v Operation list \<Rightarrow> 'v pentry list \<Rightarrow> historyElement list \<Rightarrow> (int \<rightharpoonup> 'v) \<Rightarrow> (int \<rightharpoonup> 'v) \<Rightarrow> bool" where
  "vis_done describeOp ops xs history cv rv \<longleftrightarrow> length history = length ops \<and> (\<forall>i < length ops.
     (centry ops i \<in> set xs \<longrightarrow> heClientId (history ! i) = onClientId (ops ! i) \<and> heStart (history ! i) = onCall (ops ! i) \<and> cv (int i) = Some (onInput (ops ! i))) \<and>
     (rentry ops i \<in> set xs \<longrightarrow> heEnd (history ! i) = onReturn (ops ! i) \<and> describeOp (onInput (ops ! i)) (onOutput (ops ! i)) = Inr (heDescription (history ! i)) \<and>
        rv (int i) = Some (onOutput (ops ! i))))"

lemma call_first:
  assumes "entries_ok ops (xs @ rentry ops i # ys)" and "i < length ops" and "onCall (ops ! i) \<le> onReturn (ops ! i)"
  shows "centry ops i \<in> set xs"
proof -
  obtain as bs cs where s: "xs @ rentry ops i # ys = as @ centry ops i # bs @ rentry ops i # cs" using entries_split [OF assms] by blast
  have "distinct (xs @ rentry ops i # ys)" using assms(1) by (simp add: entries_ok_def)
  then have "rentry ops i \<notin> set xs" "rentry ops i \<notin> set ys" by auto
  then have "xs = as @ centry ops i # bs" using s append_Cons_eq_iff [of "rentry ops i" xs ys "as @ centry ops i # bs" cs] by simp
  then show ?thesis by simp
qed

lemma vis_entries_done:
  assumes "entries_ok ops (xs @ ys)" and "wf_ops m ops" and "\<forall>x \<in> set ops. \<exists>d. describeOp (onInput x) (onOutput x) = Inr d"
    and "vis_done describeOp ops xs history cv rv"
  shows "\<exists>history' cv' rv'. vis_entries describeOp ys history cv rv = Inr (history', cv', rv') \<and> vis_done describeOp ops (xs @ ys) history' cv' rv'"
  using assms
proof (induction ys arbitrary: xs history cv rv)
  case (Cons e ys)
  have "e \<in> set (xs @ e # ys)" by simp
  then obtain i where i: "i < length ops" "e = centry ops i \<or> e = rentry ops i" using Cons.prems(1) unfolding entries_ok_def by blast
  have len: "length history = length ops" using Cons.prems(4) by (simp add: vis_done_def)
  have fresh: "e \<notin> set xs" using Cons.prems(1) by (auto simp: entries_ok_def)
  have next_step: "\<exists>history' cv' rv'. vis_entries describeOp ys h1 c1 r1 = Inr (history', cv', rv') \<and> vis_done describeOp ops (xs @ e # ys) history' cv' rv'"
    if "vis_done describeOp ops (xs @ [e]) h1 c1 r1" for h1 c1 r1
    using Cons.IH [of "xs @ [e]" h1 c1 r1] Cons.prems(1-3) that by simp
  from i(2) show ?case
  proof
    assume e: "e = centry ops i"
    let ?h = "history[i := (history ! i)\<lparr>heClientId := onClientId (ops ! i), heStart := onCall (ops ! i)\<rparr>]"
    have "vis_done describeOp ops (xs @ [e]) ?h (cv(int i \<mapsto> onInput (ops ! i))) rv"
      using Cons.prems(4) i(1) len unfolding vis_done_def e by (auto simp: nth_list_update)
    from next_step [OF this] show ?thesis using i(1) len by (simp add: e nth_go_def upd_go_def)
  next
    assume e: "e = rentry ops i"
    have "centry ops i \<in> set xs"
      by (rule call_first [of ops xs i ys]) (use Cons.prems(1,2) i(1) in \<open>simp_all add: e wf_ops_def\<close>)
    then have cv: "cv (int i) = Some (onInput (ops ! i))" using Cons.prems(4) i(1) by (simp add: vis_done_def)
    obtain d where d: "describeOp (onInput (ops ! i)) (onOutput (ops ! i)) = Inr d" using Cons.prems(3) i(1) by (meson nth_mem)
    let ?h = "history[i := (history ! i)\<lparr>heEnd := onReturn (ops ! i), heDescription := d\<rparr>]"
    have "vis_done describeOp ops (xs @ [e]) ?h cv (rv(int i \<mapsto> onOutput (ops ! i)))"
      using Cons.prems(4) i(1) len d unfolding vis_done_def e by (auto simp: nth_list_update)
    from next_step [OF this] show ?thesis using i(1) len cv d by (simp add: e nth_go_def upd_go_def vis_value_def)
  qed
qed auto


section \<open>The partial linearizations\<close>

definition vis_values :: "'v Operation list \<Rightarrow> (int \<rightharpoonup> 'v) \<Rightarrow> (int \<rightharpoonup> 'v) \<Rightarrow> bool" where
  "vis_values ops cv rv \<longleftrightarrow> (\<forall>i < length ops. cv (int i) = Some (onInput (ops ! i)) \<and> rv (int i) = Some (onOutput (ops ! i)))"

lemma vis_steps_ok:
  assumes "vis_values ops cv rv" and "wf_ops m ops" and "set p \<subseteq> {..<length ops}" and "legal m s (map ((!) ops) p)"
  shows "\<exists>l. vis_steps m ds cv rv i len (map int p) s ix sz =
    Inr (l, \<lambda>x. if x \<in> int ` set p \<and> sz x < len then Some i else ix x, \<lambda>x. if x \<in> int ` set p \<and> sz x < len then len else sz x) \<and> map fst l = map int p"
  using assms(3,4)
proof (induction p arbitrary: s ix sz)
  case (Cons a p)
  have a: "a < length ops" using Cons.prems(1) by simp
  obtain ok s' where st: "mStep m s (onInput (ops ! a)) (onOutput (ops ! a)) = Inr (ok, s')" using assms(2) a unfolding wf_ops_def by (metis nth_mem surj_pair)
  then have ok: "ok" "legal m s' (map ((!) ops) p)" using Cons.prems(2) by (simp_all add: op_step_def)
  let ?ix = "if sz (int a) < len then ix(int a \<mapsto> i) else ix" and ?sz = "if sz (int a) < len then sz(int a := len) else sz"
  have sub: "set p \<subseteq> {..<length ops}" using Cons.prems(1) by simp
  obtain l where l: "vis_steps m ds cv rv i len (map int p) s' ?ix ?sz =
      Inr (l, \<lambda>x. if x \<in> int ` set p \<and> ?sz x < len then Some i else ?ix x, \<lambda>x. if x \<in> int ` set p \<and> ?sz x < len then len else ?sz x)" "map fst l = map int p"
    using Cons.IH [OF sub ok(2), of ?ix ?sz] by blast
  have "(\<lambda>x. if x \<in> int ` set p \<and> ?sz x < len then Some i else ?ix x) = (\<lambda>x. if x \<in> int ` set (a # p) \<and> sz x < len then Some i else ix x)"
    "(\<lambda>x. if x \<in> int ` set p \<and> ?sz x < len then len else ?sz x) = (\<lambda>x. if x \<in> int ` set (a # p) \<and> sz x < len then len else sz x)"
    by (auto simp: fun_eq_iff)
  note eqs = this
  have "vis_steps m ds cv rv i len (map int (a # p)) s ix sz =
      ebind (vis_steps m ds cv rv i len (map int p) s' ?ix ?sz) (\<lambda>(l, ix, sz). Inr ((int a, ds s') # l, ix, sz))"
    using assms(1) a st ok(1) by (simp add: vis_values_def vis_value_def assert_go_def Let_def)
  then show ?case unfolding l(1) eqs using l(2) by simp
qed simp

text \<open>\<^verbatim>\<open>Largest\<close> names a longest one of the partial linearizations that have the operation.\<close>

definition largest_of :: "int list list \<Rightarrow> (int \<rightharpoonup> int) \<Rightarrow> (int \<Rightarrow> nat) \<Rightarrow> bool" where
  "largest_of qs ix sz \<longleftrightarrow> (\<forall>x. (if \<exists>q \<in> set qs. x \<in> set q
     then \<exists>j < length qs. ix x = Some (int j) \<and> x \<in> set (qs ! j) \<and> sz x = length (qs ! j) \<and> (\<forall>q \<in> set qs. x \<in> set q \<longrightarrow> length q \<le> sz x)
     else ix x = None \<and> sz x = 0))"

lemma largest_of_snoc:
  assumes "largest_of qs ix sz"
  shows "largest_of (qs @ [q]) (\<lambda>x. if x \<in> set q \<and> sz x < length q then Some (int (length qs)) else ix x) (\<lambda>x. if x \<in> set q \<and> sz x < length q then length q else sz x)"
  unfolding largest_of_def
proof
  fix x
  have IH: "if \<exists>q \<in> set qs. x \<in> set q
     then \<exists>j < length qs. ix x = Some (int j) \<and> x \<in> set (qs ! j) \<and> sz x = length (qs ! j) \<and> (\<forall>q \<in> set qs. x \<in> set q \<longrightarrow> length q \<le> sz x)
     else ix x = None \<and> sz x = 0" using assms unfolding largest_of_def by blast
  let ?new = "x \<in> set q \<and> sz x < length q"
  have "if \<exists>q \<in> set (qs @ [q]). x \<in> set q
     then \<exists>j < length (qs @ [q]). (if ?new then Some (int (length qs)) else ix x) = Some (int j) \<and> x \<in> set ((qs @ [q]) ! j) \<and>
        (if ?new then length q else sz x) = length ((qs @ [q]) ! j) \<and> (\<forall>r \<in> set (qs @ [q]). x \<in> set r \<longrightarrow> length r \<le> (if ?new then length q else sz x))
     else (if ?new then Some (int (length qs)) else ix x) = None \<and> (if ?new then length q else sz x) = 0"
  proof (cases ?new)
    case True
    have "\<forall>r \<in> set qs. x \<in> set r \<longrightarrow> length r \<le> sz x" using IH by (auto split: if_splits)
    then show ?thesis using True by (auto simp: nth_append intro!: exI [of _ "length qs"])
  next
    case False
    show ?thesis
    proof (cases "\<exists>q \<in> set qs. x \<in> set q")
      case t: True
      then obtain j where "j < length qs" "ix x = Some (int j)" "x \<in> set (qs ! j)" "sz x = length (qs ! j)" "\<forall>q \<in> set qs. x \<in> set q \<longrightarrow> length q \<le> sz x"
        using IH by auto
      then show ?thesis using False t by (auto simp: nth_append intro!: exI [of _ j])
    next
      case f: False
      then have "x \<notin> set q" using False IH by (cases q) auto
      then show ?thesis using f IH by auto
    qed
  qed
  then show "if \<exists>q \<in> set (qs @ [q]). x \<in> set q
     then \<exists>j < length (qs @ [q]). (\<lambda>x. if x \<in> set q \<and> sz x < length q then Some (int (length qs)) else ix x) x = Some (int j) \<and> x \<in> set ((qs @ [q]) ! j) \<and>
        (\<lambda>x. if x \<in> set q \<and> sz x < length q then length q else sz x) x = length ((qs @ [q]) ! j) \<and>
        (\<forall>r \<in> set (qs @ [q]). x \<in> set r \<longrightarrow> length r \<le> (\<lambda>x. if x \<in> set q \<and> sz x < length q then length q else sz x) x)
     else (\<lambda>x. if x \<in> set q \<and> sz x < length q then Some (int (length qs)) else ix x) x = None \<and>
       (\<lambda>x. if x \<in> set q \<and> sz x < length q then length q else sz x) x = 0" .
qed

lemma vis_partials_ok:
  assumes "vis_values ops cv rv" and "wf_ops m ops" and "\<forall>q \<in> set ps. \<exists>p. q = map int p \<and> partial_linearization m ops p"
    and "largest_of qs ix sz"
  shows "\<exists>ls ix' sz'. vis_partials m ds cv rv (int (length qs)) ps ix sz = Inr (ls, ix') \<and> map (map fst) ls = ps \<and> largest_of (qs @ ps) ix' sz'"
  using assms(3,4)
proof (induction ps arbitrary: qs ix sz)
  case (Cons q ps)
  obtain p where p: "q = map int p" "set p \<subseteq> {..<length ops}" "legal m (mInit m) (map ((!) ops) p)"
    using Cons.prems(1) by (auto simp: partial_linearization_def linearizes_def)
  let ?ix = "\<lambda>x. if x \<in> set q \<and> sz x < length q then Some (int (length qs)) else ix x"
  let ?sz = "\<lambda>x. if x \<in> set q \<and> sz x < length q then length q else sz x"
  obtain l where l: "vis_steps m ds cv rv (int (length qs)) (length q) q (mInit m) ix sz = Inr (l, ?ix, ?sz)" "map fst l = q"
    using vis_steps_ok [OF assms(1,2) p(2,3), of ds "int (length qs)" "length q" ix sz] p(1) by auto
  have "\<forall>q \<in> set ps. \<exists>p. q = map int p \<and> partial_linearization m ops p" using Cons.prems(1) by simp
  from Cons.IH [OF this largest_of_snoc [OF Cons.prems(2), of q]] obtain ls ix' sz' where
    "vis_partials m ds cv rv (int (length (qs @ [q]))) ps ?ix ?sz = Inr (ls, ix')" "map (map fst) ls = ps" "largest_of ((qs @ [q]) @ ps) ix' sz'" by blast
  then show ?case using l by (intro exI [of _ "l # ls"] exI [of _ ix'] exI [of _ sz']) (simp add: add.commute)
qed (auto simp: exI [of _ sz])


section \<open>The data of a checked history\<close>

definition sorts_by_length :: "(int list list \<Rightarrow> int list list) \<Rightarrow> bool" where
  "sorts_by_length f \<longleftrightarrow> (\<forall>ps. mset (f ps) = mset ps \<and> sorted_wrt (\<lambda>a b. length b \<le> length a) (f ps))"

definition vis_shows :: "('v \<Rightarrow> 'v \<Rightarrow> string res) \<Rightarrow> 'v Operation list \<Rightarrow> int list list \<Rightarrow> partitionVisualizationData \<Rightarrow> bool" where
  "vis_shows describeOp ops ps d \<longleftrightarrow> length (pvHistory d) = length ops \<and>
     (\<forall>i < length ops. heClientId (pvHistory d ! i) = onClientId (ops ! i) \<and> heStart (pvHistory d ! i) = onCall (ops ! i) \<and>
        heEnd (pvHistory d ! i) = onReturn (ops ! i) \<and> describeOp (onInput (ops ! i)) (onOutput (ops ! i)) = Inr (heDescription (pvHistory d ! i))) \<and>
     map (map fst) (pvPartials d) = ps \<and>
     (\<forall>x. \<forall>q \<in> set ps. x \<in> set q \<longrightarrow> (\<exists>j < length ps. pvLargest d x = Some (int j) \<and> x \<in> set (ps ! j) \<and> length q \<le> length (ps ! j)))"

lemma vis_partition_ok:
  assumes "entries_ok ops es" and "wf_ops m ops" and "\<forall>x \<in> set ops. \<exists>d. describeOp (onInput x) (onOutput x) = Inr d"
    and "\<forall>q \<in> set ps. \<exists>p. q = map int p \<and> partial_linearization m ops p" and "sorts_by_length sortLength"
  shows "\<exists>d. vis_partition sortLength describeOp ds m es ps = Inr d \<and> vis_shows describeOp ops (sortLength ps) d"
proof -
  have n: "length es div 2 = length ops" using entries_length [OF assms(1)] by simp
  have "vis_done describeOp ops [] (replicate (length ops) zero_element) Map.empty Map.empty" by (simp add: vis_done_def)
  from vis_entries_done [of ops "[]" es, OF _ assms(2,3) this] obtain h cv rv where
    v: "vis_entries describeOp es (replicate (length ops) zero_element) Map.empty Map.empty = Inr (h, cv, rv)" "vis_done describeOp ops es h cv rv"
    using assms(1) by auto
  have mem: "centry ops i \<in> set es" "rentry ops i \<in> set es" if "i < length ops" for i using assms(1) that by (auto simp: entries_ok_def)
  have vals: "vis_values ops cv rv" using v(2) mem by (simp add: vis_values_def vis_done_def)
  have "set (sortLength ps) = set ps" using assms(5) unfolding sorts_by_length_def by (metis mset_eq_setD)
  then have "\<forall>q \<in> set (sortLength ps). \<exists>p. q = map int p \<and> partial_linearization m ops p" using assms(4) by simp
  from vis_partials_ok [OF vals assms(2) this, of "[]" Map.empty "\<lambda>_. 0" ds] obtain ls ix sz where
    l: "vis_partials m ds cv rv 0 (sortLength ps) Map.empty (\<lambda>_. 0) = Inr (ls, ix)" "map (map fst) ls = sortLength ps" "largest_of (sortLength ps) ix sz"
    by (auto simp: largest_of_def)
  have "\<exists>j < length (sortLength ps). ix x = Some (int j) \<and> x \<in> set (sortLength ps ! j) \<and> length q \<le> length (sortLength ps ! j)"
    if h: "q \<in> set (sortLength ps)" "x \<in> set q" for x q
  proof -
    obtain j where "j < length (sortLength ps)" "ix x = Some (int j)" "x \<in> set (sortLength ps ! j)" "sz x = length (sortLength ps ! j)"
      "\<forall>q \<in> set (sortLength ps). x \<in> set q \<longrightarrow> length q \<le> sz x" using l(3) h unfolding largest_of_def by (metis (no_types, lifting))
    then show ?thesis using h by auto
  qed
  then have "vis_shows describeOp ops (sortLength ps) \<lparr>pvHistory = h, pvPartials = ls, pvLargest = ix\<rparr>"
    using v(2) mem l(2) by (simp add: vis_shows_def vis_done_def)
  then show ?thesis using v(1) l(1) n by (simp add: vis_partition_def Let_def)
qed

lemma vis_loop_ok:
  assumes "\<And>i. i < length history \<Longrightarrow> k + i < length partials \<and> (\<exists>d. vis_partition sortLength describeOp ds m (history ! i) (partials ! (k + i)) = Inr d \<and> P i d)"
  shows "\<exists>data. vis_loop sortLength describeOp ds m partials (int k) history = Inr data \<and> length data = length history \<and> (\<forall>i < length history. P i (data ! i))"
  using assms
proof (induction history arbitrary: k P)
  case (Cons es history)
  obtain d where d: "k < length partials" "vis_partition sortLength describeOp ds m es (partials ! k) = Inr d" "P 0 d" using Cons.prems [of 0] by auto
  have "\<exists>data. vis_loop sortLength describeOp ds m partials (int (Suc k)) history = Inr data \<and> length data = length history \<and> (\<forall>i < length history. P (Suc i) (data ! i))"
    by (rule Cons.IH) (use Cons.prems [of "Suc _"] in simp)
  then obtain data where "vis_loop sortLength describeOp ds m partials (int (Suc k)) history = Inr data" "length data = length history"
    "\<forall>i < length history. P (Suc i) (data ! i)" by blast
  then show ?case using d by (intro exI [of _ "d # data"]) (auto simp: nth_go_def add.commute less_Suc_eq_0_disj)
qed simp

text \<open>The visualization of a checked history of the key/value store never panics: the model accepts each step of
  each partial linearization that the checker reports, and the data has the times
  and the description of each operation and the reported sequences, the longest ones marked.\<close>

theorem visualization_total:
  assumes "kv_history ops" and "length ops < 2 ^ 63" and "is_time_sort (envSort env)" and "\<forall>xs. set (envOrder env xs) = set xs"
    and "sorts_by_length sortLength" and run: "CheckOperationsVerbose env KvModel ops timeout (r, info)"
  shows "\<exists>parts data. KvPartition ops = Inr parts \<and> computeVisualizationData sortLength KvDescribeOperation describeState KvModel info = Inr data \<and>
    length data = length parts \<and> (\<forall>i < length parts. vis_shows KvDescribeOperation (parts ! i) (sortLength (liPartials info ! i)) (data ! i))"
proof -
  have c: "checkOperations env KvModel ops True timeout (r, info)" using run by (simp add: CheckOperationsVerbose_def)
  obtain parts where p: "KvPartition ops = Inr parts" "liHistory info = map (makeEntries (envSort env)) parts" "length (liPartials info) = length parts"
    "\<forall>i < length parts. \<forall>sq \<in> set (liPartials info ! i). \<exists>p. sq = map int p \<and> partial_linearization KvModel (parts ! i) p"
    using kv_result(4) [OF assms(1,2,3) c] assms(4) by auto
  have hist: "\<forall>part \<in> set parts. kv_history part" using kv_parts [OF assms(1)] p(1) by auto
  have "\<exists>d. vis_partition sortLength KvDescribeOperation describeState (fillDefault KvModel) (map (makeEntries (envSort env)) parts ! i) (liPartials info ! i) = Inr d \<and>
      vis_shows KvDescribeOperation (parts ! i) (sortLength (liPartials info ! i)) d" if i: "i < length parts" for i
  proof -
    have h: "kv_history (parts ! i)" using hist i by simp
    then have d: "\<forall>x \<in> set (parts ! i). \<exists>d. KvDescribeOperation (onInput x) (onOutput x) = Inr d"
      by (fastforce simp: kv_history_def KvDescribeOperation_def Let_def)
    have q: "\<forall>q \<in> set (liPartials info ! i). \<exists>p. q = map int p \<and> partial_linearization (fillDefault KvModel) (parts ! i) p" using p(4) i by simp
    have w: "wf_ops (fillDefault KvModel) (parts ! i)" using kv_wf_ops [OF h] by simp
    show ?thesis using vis_partition_ok [OF makeEntries_ok [OF assms(3)] w d q assms(5)] i by simp
  qed
  then show ?thesis using vis_loop_ok [of "map (makeEntries (envSort env)) parts" 0 "liPartials info" sortLength KvDescribeOperation describeState
      "fillDefault KvModel" "\<lambda>i d. vis_shows KvDescribeOperation (parts ! i) (sortLength (liPartials info ! i)) d"] p(1-3)
    by (simp add: computeVisualizationData_def)
qed

definition length_sort :: "int list list \<Rightarrow> int list list" where
  "length_sort = sort_key (\<lambda>q. - int (length q))"

lemma sorts_by_length_sort: "sorts_by_length length_sort"
proof -
  have "sorted_wrt (\<lambda>a b. length b \<le> length a) (length_sort ps)" for ps
  proof -
    have "sorted (map (\<lambda>q. - int (length q)) (length_sort ps))" unfolding length_sort_def by (rule sorted_sort_key)
    then show ?thesis unfolding sorted_map by (rule sorted_wrt_mono_rel [rotated]) simp
  qed
  then show ?thesis by (simp add: sorts_by_length_def length_sort_def)
qed

theorem visualization_total_witness:
  "\<exists>r info data. CheckOperationsVerbose plain_env KvModel (put_get ''b'') 1 (r, info) \<and>
     computeVisualizationData length_sort KvDescribeOperation (\<lambda>s. s) KvModel info = Inr data"
proof -
  obtain r info where run: "CheckOperationsVerbose plain_env KvModel (put_get ''b'') 1 (r, info)"
    using kv_returns [OF put_get_history(1,3,2), of plain_env "''b''" True 1] is_time_sort_time_sort by (auto simp: CheckOperationsVerbose_def)
  from visualization_total [OF put_get_history(1,2) _ _ sorts_by_length_sort this, of "\<lambda>s. s"] is_time_sort_time_sort
  show ?thesis using run by auto
qed

end
