(* ===== verification/Porc_Events.thy ===== *)
theory Porc_Events
  imports Porc_Kv
begin

text \<open>
  Histories given as a sequence of events, \<^verbatim>\<open>CheckEvents\<close> of \<^verbatim>\<open>porcupine/\<close>: \<^verbatim>\<open>renumber\<close> and \<^verbatim>\<open>convertEntries\<close> turn a sequence in which each
  operation has a call and, later, a return into the entries of a history of operations whose times are the positions of
  the events, and the checker decides whether that history is linearizable.
\<close>

section \<open>Renumbering\<close>

text \<open>The ids of the events in the order of their first events, and the place of an id in a list.\<close>

definition first_ids :: "int list \<Rightarrow> 'v Event list \<Rightarrow> int list" where
  "first_ids seen evs = foldl (\<lambda>s e. if evId e \<in> set s then s else s @ [evId e]) seen evs"

definition place_of :: "int list \<Rightarrow> int \<Rightarrow> nat" where
  "place_of s x = length (takeWhile (\<lambda>y. y \<noteq> x) s)"

lemma place_of_append: "x \<in> set s \<Longrightarrow> place_of (s @ t) x = place_of s x"
  unfolding place_of_def by (subst takeWhile_append1 [of x]) auto

lemma place_of_snoc: "x \<notin> set s \<Longrightarrow> place_of (s @ [x]) x = length s"
  unfolding place_of_def by (subst takeWhile_append2) auto

lemma place_of_less: "x \<in> set s \<Longrightarrow> place_of s x < length s"
  by (induction s) (auto simp: place_of_def)

lemma nth_place_of: "x \<in> set s \<Longrightarrow> s ! place_of s x = x"
  by (induction s) (auto simp: place_of_def)

lemma place_of_nth: "distinct s \<Longrightarrow> i < length s \<Longrightarrow> place_of s (s ! i) = i"
  using nth_place_of place_of_less by (metis nth_eq_iff_index_eq nth_mem)

lemma first_ids_Cons: "first_ids seen (e # evs) = first_ids (if evId e \<in> set seen then seen else seen @ [evId e]) evs"
  by (simp add: first_ids_def)

lemma first_ids_prefix: "\<exists>t. first_ids seen evs = seen @ t"
proof (induction evs arbitrary: seen)
  case (Cons e evs)
  obtain t where "first_ids (if evId e \<in> set seen then seen else seen @ [evId e]) evs = (if evId e \<in> set seen then seen else seen @ [evId e]) @ t"
    using Cons by blast
  then show ?case by (auto simp: first_ids_Cons)
qed (simp add: first_ids_def)

lemma first_ids_set: "set (first_ids seen evs) = set seen \<union> evId ` set evs"
  by (induction evs arbitrary: seen) (auto simp: first_ids_Cons, simp_all add: first_ids_def)

lemma first_ids_distinct: "distinct seen \<Longrightarrow> distinct (first_ids seen evs)"
  by (induction evs arbitrary: seen) (simp_all add: first_ids_Cons, simp add: first_ids_def)

lemma place_of_first_ids: "x \<in> set seen \<Longrightarrow> place_of (first_ids seen evs) x = place_of seen x"
  using first_ids_prefix [of seen evs] place_of_append by metis

lemma renumber_loop_map:
  assumes "\<forall>x. m x = (if x \<in> set seen then Some (int (place_of seen x)) else None)"
  shows "renumber_loop m (int (length seen)) evs = map (\<lambda>e. e\<lparr>evId := int (place_of (first_ids seen evs) (evId e))\<rparr>) evs"
  using assms
proof (induction evs arbitrary: m seen)
  case (Cons e evs)
  show ?case
  proof (cases "evId e \<in> set seen")
    case True
    then show ?thesis using Cons.IH [OF Cons.prems] Cons.prems by (simp add: first_ids_Cons place_of_first_ids)
  next
    case False
    let ?seen = "seen @ [evId e]"
    have "\<forall>x. (m(evId e \<mapsto> int (length seen))) x = (if x \<in> set ?seen then Some (int (place_of ?seen x)) else None)"
      using Cons.prems False by (auto simp: place_of_append place_of_snoc)
    note ih = Cons.IH [OF this]
    have "int (length ?seen) = int (length seen) + 1" by simp
    then have "renumber_loop (m(evId e \<mapsto> int (length seen))) (int (length seen) + 1) evs =
        map (\<lambda>e'. e'\<lparr>evId := int (place_of (first_ids ?seen evs) (evId e'))\<rparr>) evs" using ih by metis
    moreover have "place_of (first_ids ?seen evs) (evId e) = length seen" using place_of_first_ids [of "evId e" ?seen evs] place_of_snoc [OF False] by simp
    moreover have "m (evId e) = None" using Cons.prems False by simp
    ultimately show ?thesis using False by (simp add: first_ids_Cons)
  qed
qed simp

lemma renumber_map: "renumber evs = map (\<lambda>e. e\<lparr>evId := int (place_of (first_ids [] evs) (evId e))\<rparr>) evs"
  using renumber_loop_map [of Map.empty "[]" evs] by (simp add: renumber_def)

lemma convert_loop_nth:
  "length (convert_loop i evs) = length evs \<and> (\<forall>k < length evs. convert_loop i evs ! k =
     \<lparr>peKind = (if evKind (evs ! k) = ReturnEvent then returnEntry else callEntry), peValue = evValue (evs ! k), peId = evId (evs ! k),
      peTime = i + int k, peClientId = evClientId (evs ! k)\<rparr>)"
proof (induction evs arbitrary: i)
  case (Cons e evs)
  show ?case using Cons [of "i + 1"] by (auto simp: nth_Cons split: nat.splits)
qed simp

section \<open>Operations of a sequence of events\<close>

text \<open>An id has a call at position \<^verbatim>\<open>c\<close>, a return of the same client at position \<^verbatim>\<open>r\<close> after it, and no other event.\<close>

definition event_pair :: "'v Event list \<Rightarrow> int \<Rightarrow> nat \<Rightarrow> nat \<Rightarrow> bool" where
  "event_pair evs i c r \<longleftrightarrow> c < r \<and> r < length evs \<and> evKind (evs ! c) = CallEvent \<and> evKind (evs ! r) = ReturnEvent \<and>
     evClientId (evs ! r) = evClientId (evs ! c) \<and> (\<forall>k < length evs. evId (evs ! k) = i \<longleftrightarrow> k = c \<or> k = r)"

definition wf_events :: "'v Event list \<Rightarrow> bool" where
  "wf_events evs \<longleftrightarrow> (\<forall>e \<in> set evs. \<exists>c < length evs. \<exists>r < length evs. event_pair evs (evId e) c r)"

definition find_event :: "EventKind \<Rightarrow> int \<Rightarrow> 'v Event list \<Rightarrow> nat" where
  "find_event k i evs = length (takeWhile (\<lambda>e. \<not> (evKind e = k \<and> evId e = i)) evs)"

definition event_op :: "'v Event list \<Rightarrow> int \<Rightarrow> 'v Operation" where
  "event_op evs i =
     (let c = find_event CallEvent i evs; r = find_event ReturnEvent i evs in
      \<lparr>onClientId = evClientId (evs ! c), onInput = evValue (evs ! c), onCall = int c, onOutput = evValue (evs ! r), onReturn = int r\<rparr>)"

definition event_ops :: "'v Event list \<Rightarrow> 'v Operation list" where
  "event_ops evs = map (event_op evs) (first_ids [] evs)"

lemma find_event_eq:
  assumes "p < length evs" and "evKind (evs ! p) = k" and "evId (evs ! p) = i" and "\<forall>q < p. \<not> (evKind (evs ! q) = k \<and> evId (evs ! q) = i)"
  shows "find_event k i evs = p"
proof -
  have "takeWhile (\<lambda>e. \<not> (evKind e = k \<and> evId e = i)) evs = take p evs"
    by (rule takeWhile_eq_take_P_nth) (use assms in auto)
  then show ?thesis using assms(1) by (simp add: find_event_def)
qed

lemma event_pair_find:
  assumes "event_pair evs i c r"
  shows "find_event CallEvent i evs = c" "find_event ReturnEvent i evs = r"
proof -
  have k: "\<forall>k < length evs. evId (evs ! k) = i \<longleftrightarrow> k = c \<or> k = r" and o: "c < r" "r < length evs" "evKind (evs ! c) = CallEvent" "evKind (evs ! r) = ReturnEvent"
    using assms by (auto simp: event_pair_def)
  have only: "q = c \<or> q = r" if "q < length evs" "evId (evs ! q) = i" for q using k that by blast
  have i: "evId (evs ! c) = i" "evId (evs ! r) = i" using k o by auto
  have "\<not> (evKind (evs ! q) = CallEvent \<and> evId (evs ! q) = i)" if "q < c" for q using only [of q] that o by auto
  then show "find_event CallEvent i evs = c" using o i by (intro find_event_eq) auto
  have "\<not> (evKind (evs ! q) = ReturnEvent \<and> evId (evs ! q) = i)" if "q < r" for q using only [of q] that o by auto
  then show "find_event ReturnEvent i evs = r" using o i by (intro find_event_eq) auto
qed

lemma event_pair_op:
  assumes "event_pair evs i c r"
  shows "event_op evs i = \<lparr>onClientId = evClientId (evs ! c), onInput = evValue (evs ! c), onCall = int c, onOutput = evValue (evs ! r), onReturn = int r\<rparr>"
  using event_pair_find [OF assms] by (simp add: event_op_def)

lemma events_entries_ok:
  assumes wf: "wf_events evs"
  shows "entries_ok (event_ops evs) (convertEntries (renumber evs))"
proof -
  let ?es = "convertEntries (renumber evs)" and ?ids = "first_ids [] evs" and ?ops = "event_ops evs"
  have ids: "distinct ?ids" "set ?ids = evId ` set evs" using first_ids_distinct [of "[]" evs] first_ids_set [of "[]" evs] by simp_all
  have len: "length ?es = length evs" "length ?ops = length ?ids"
    using convert_loop_nth [of 0 "renumber evs"] by (simp_all add: convertEntries_def renumber_map event_ops_def)
  have nth: "?es ! k = \<lparr>peKind = (if evKind (evs ! k) = ReturnEvent then returnEntry else callEntry), peValue = evValue (evs ! k),
      peId = int (place_of ?ids (evId (evs ! k))), peTime = int k, peClientId = evClientId (evs ! k)\<rparr>" if "k < length evs" for k
    using convert_loop_nth [of 0 "renumber evs"] that by (simp add: convertEntries_def renumber_map)
  have pair: "\<exists>c r. event_pair evs (?ids ! i) c r" if "i < length ?ids" for i
    using wf ids(2) nth_mem [OF that] unfolding wf_events_def by (metis imageE)
  have entries: "?es ! c = centry ?ops i" "?es ! r = rentry ?ops i" "c < length evs" "r < length evs"
    if i: "i < length ?ids" and p: "event_pair evs (?ids ! i) c r" for i c r
  proof -
    have d: "c < length evs" "r < length evs" "evId (evs ! c) = ?ids ! i" "evId (evs ! r) = ?ids ! i" "evKind (evs ! c) = CallEvent" "evKind (evs ! r) = ReturnEvent"
      "evClientId (evs ! r) = evClientId (evs ! c)" using p by (auto simp: event_pair_def)
    have o: "?ops ! i = event_op evs (?ids ! i)" using i by (simp add: event_ops_def)
    show "?es ! c = centry ?ops i" "?es ! r = rentry ?ops i" unfolding o event_pair_op [OF p] using nth [OF d(1)] nth [OF d(2)] d(3-7) place_of_nth [OF ids(1) i] by simp_all
    show "c < length evs" "r < length evs" by (rule d)+
  qed
  have all: "set ?es = centry ?ops ` {..<length ?ops} \<union> rentry ?ops ` {..<length ?ops}"
  proof (intro equalityI subsetI)
    fix x assume "x \<in> set ?es"
    then obtain k where k: "k < length evs" "x = ?es ! k" using len(1) by (metis in_set_conv_nth)
    let ?i = "place_of ?ids (evId (evs ! k))"
    have mem: "evId (evs ! k) \<in> set ?ids" using k(1) ids(2) by simp
    have i: "?i < length ?ids" "?ids ! ?i = evId (evs ! k)" using place_of_less [OF mem] nth_place_of [OF mem] by simp_all
    obtain c r where p: "event_pair evs (?ids ! ?i) c r" using pair [OF i(1)] by blast
    then have "\<forall>k < length evs. evId (evs ! k) = ?ids ! ?i \<longleftrightarrow> k = c \<or> k = r" unfolding event_pair_def by blast
    then have "k = c \<or> k = r" using k(1) i(2) by metis
    then show "x \<in> centry ?ops ` {..<length ?ops} \<union> rentry ?ops ` {..<length ?ops}" using entries(1,2) [OF i(1) p] k(2) i(1) len(2) by auto
  next
    fix x assume "x \<in> centry ?ops ` {..<length ?ops} \<union> rentry ?ops ` {..<length ?ops}"
    then obtain i where i: "i < length ?ids" "x = centry ?ops i \<or> x = rentry ?ops i" using len(2) by auto
    obtain c r where p: "event_pair evs (?ids ! i) c r" using pair [OF i(1)] by blast
    have "?es ! c \<in> set ?es" "?es ! r \<in> set ?es" using entries(3,4) [OF i(1) p] len(1) by simp_all
    then show "x \<in> set ?es" using entries(1,2) [OF i(1) p] i(2) by auto
  qed
  have t: "peTime (?es ! k) = int k" if "k < length ?es" for k using nth [of k] that len(1) by simp
  have "?es ! k \<noteq> ?es ! l" if "k < length ?es" "l < length ?es" "k \<noteq> l" for k l using t [OF that(1)] t [OF that(2)] that(3) by auto
  then have dist: "distinct ?es" unfolding distinct_conv_nth by blast
  have ord: "\<not> byTime_less (?es ! l) (?es ! k)" if "k < l" "l < length ?es" for k l
    using t [of k] t [of l] that by (simp add: byTime_less_def)
  have "sorted_wrt (\<lambda>a b. \<not> byTime_less b a) ?es" unfolding sorted_wrt_iff_nth_less using ord by blast
  then show ?thesis unfolding entries_ok_def using all dist by blast
qed

section \<open>The checker on events\<close>

lemma checkParallel_decides:
  assumes ok: "par_ok m opss history" and "history \<noteq> []"
  shows "(\<exists>out. checkParallel ord m history ci 0 out \<and> b = (fst out = Ok)) \<longleftrightarrow> b = (\<forall>ops \<in> set opss. linearizable m ops)"
proof -
  have "(fst out = Ok) = (\<forall>ops \<in> set opss. linearizable m ops)" if "checkParallel ord m history ci 0 out" for out
    using checkParallel_result [OF ok that] by (cases "fst out") auto
  moreover have "\<exists>out. checkParallel ord m history ci 0 out"
  proof -
    have "par_inv m opss ci 0 (par_start (length history))" using par_inv_start [of m opss] ok by (simp add: par_ok_def)
    from par_returns [OF ok _ this] assms(2) obtain st r where "(par_step m history ci 0)\<^sup>*\<^sup>* (par_start (length history)) st" "pPhase st = Returned r" by auto
    then have "checkParallel ord m history ci 0 (r, par_info ord history ci st)" by (auto simp: checkParallel_def)
    then show ?thesis by blast
  qed
  ultimately show ?thesis by blast
qed

text \<open>The tests' put and get as events, with ids that are not consecutive.\<close>

definition put_get_events :: "string \<Rightarrow> kv_any Event list" where
  "put_get_events v =
     [\<lparr>evClientId = 0, evKind = CallEvent, evValue = InputVal \<lparr>kviOp = 1, kviKey = ''k'', kviValue = ''a''\<rparr>, evId = 7\<rparr>,
      \<lparr>evClientId = 0, evKind = ReturnEvent, evValue = OutputVal \<lparr>kvoValue = ''''\<rparr>, evId = 7\<rparr>,
      \<lparr>evClientId = 1, evKind = CallEvent, evValue = InputVal \<lparr>kviOp = 0, kviKey = ''k'', kviValue = ''''\<rparr>, evId = 3\<rparr>,
      \<lparr>evClientId = 1, evKind = ReturnEvent, evValue = OutputVal \<lparr>kvoValue = v\<rparr>, evId = 3\<rparr>]"

lemma put_get_events_wf: "wf_events (put_get_events v)"
  by (simp add: wf_events_def put_get_events_def event_pair_def Ex_less_Suc numeral_eq_Suc All_less_Suc)

text \<open>C25: \<^verbatim>\<open>CheckEvents\<close> decides linearizability. For a model without a partition of events, and a sequence of events in which each id has one
  call and later one return, it returns, in every interleaving, whether the operations are
  linearizable when the positions of the events are taken as times; \<^verbatim>\<open>renumber\<close> makes the choice of the ids irrelevant.\<close>

theorem check_events_decides:
  assumes "wf_events evs" and "mPartitionEvent m = None" and "eq_model (fillDefault m)" and "wf_ops m (event_ops evs)" and "length evs < 2 ^ 63"
  shows "CheckEvents env m evs b \<longleftrightarrow> b = linearizable m (event_ops evs)"
proof -
  have "events_entries m evs = Inr [convertEntries (renumber evs)]"
    using assms(2) by (simp add: events_entries_def call_partition_def fillDefault_def NoPartitionEvent_def)
  moreover have "length (event_ops evs) \<le> length evs"
    unfolding event_ops_def length_map using first_ids_distinct [of "[]" evs] first_ids_set [of "[]" evs]
    by (metis card_length distinct.simps(1) distinct_card length_map list.set_map set_empty2 sup_bot_left)
  then have "par_ok (fillDefault m) [event_ops evs] [convertEntries (renumber evs)]"
    using assms(3-5) events_entries_ok [OF assms(1)] by (simp add: par_ok_def)
  from checkParallel_decides [OF this, of "envOrder env" False b] have "(\<exists>out. checkParallel (envOrder env) (fillDefault m) [convertEntries (renumber evs)] False 0 out \<and> b = (fst out = Ok)) \<longleftrightarrow>
      b = linearizable m (event_ops evs)" by simp
  ultimately show ?thesis by (simp add: CheckEvents_def checkEvents_def)
qed

lemma put_get_events_ops:
  "event_ops (put_get_events v) =
     [\<lparr>onClientId = 0, onInput = InputVal \<lparr>kviOp = 1, kviKey = ''k'', kviValue = ''a''\<rparr>, onCall = 0, onOutput = OutputVal \<lparr>kvoValue = ''''\<rparr>, onReturn = 1\<rparr>,
      \<lparr>onClientId = 1, onInput = InputVal \<lparr>kviOp = 0, kviKey = ''k'', kviValue = ''''\<rparr>, onCall = 2, onOutput = OutputVal \<lparr>kvoValue = v\<rparr>, onReturn = 3\<rparr>]"
  by (simp add: put_get_events_def event_ops_def first_ids_def event_op_def find_event_def numeral_3_eq_3)

theorem check_events_decides_witness: "CheckEvents plain_env KvModel (put_get_events ''a'') True"
proof -
  have w: "wf_ops KvModel (event_ops (put_get_events ''a''))" by (simp add: put_get_events_ops wf_ops_def KvModel_def KvStep_def) blast
  have p: "mPartitionEvent KvModel = None" "length (put_get_events ''a'') < 2 ^ 63" by (simp_all add: KvModel_def put_get_events_def)
  have "linearizable KvModel (event_ops (put_get_events ''a''))"
    unfolding linearizable_def by (rule exI [of _ "[0, 1]"]) (auto simp: linearizes_def precedes_def put_get_events_ops op_step_def KvModel_def KvStep_def)
  then show ?thesis using check_events_decides [OF put_get_events_wf p(1) kv_eq_model w p(2), of plain_env True] by blast
qed

end
