(* ===== verification/KV_System.thy ===== *)
theory KV_System
  imports KV_Client Porc_Kv
begin

text \<open>
  The key/value service as its clients see it: clerks (\<^verbatim>\<open>src/kvraft/client.go\<close>) that issue one request at a time,
  replicas (\<^verbatim>\<open>src/kvraft/server.go\<close>) that consume the committed log and answer requests, a network that may delay, lose
  and repeat requests and answers, and the history of operations that the tests record
  (\<^verbatim>\<open>src/kvraft/test_test.go\<close>). The committed log is one growing list, as Raft provides it; when it grows and
  by which of the requests sent so far is left open. The facts show that
  every history recorded when all requests have returned is linearizable, in the sense of theory
  \<^verbatim>\<open>Porc_Model\<close>, so that the checker accepts it.
\<close>

section \<open>Linearization points\<close>

text \<open>The contents of a store, absent keys as the empty string.\<close>

definition contents :: "(string \<rightharpoonup> string) \<Rightarrow> string \<Rightarrow> string" where
  "contents d k = (case d k of Some v \<Rightarrow> v | None \<Rightarrow> '''')"

text \<open>The record of a request.\<close>

definition kv_match :: "Op \<Rightarrow> kv_any Operation \<Rightarrow> bool" where
  "kv_match x r \<longleftrightarrow> opType x \<in> {GET, PUT, APPEND} \<and>
     onInput r = InputVal \<lparr>kviOp = (if opType x = GET then 0 else if opType x = PUT then 1 else 2), kviKey = opKey x, kviValue = opValue x\<rparr> \<and>
     (\<exists>out. onOutput r = OutputVal out)"

lemma op_types: "GET \<noteq> PUT" "GET \<noteq> APPEND" "PUT \<noteq> APPEND"
  by (simp_all add: GET_def PUT_def APPEND_def)

lemma match_write:
  assumes "kv_match x r" and "opType x \<noteq> GET"
  shows "op_step kv_store (contents d) r = (True, contents (kv_effect x d))"
  using assms op_types
  by (auto simp: kv_match_def op_step_def kv_store_def store_step_def kv_effect_def contents_def fun_eq_iff Let_def split: option.splits)

lemma match_get:
  assumes "kv_match x r" and "opType x = GET" and "onOutput r = OutputVal \<lparr>kvoValue = contents d (opKey x)\<rparr>"
  shows "op_step kv_store (contents d) r = (True, contents d)"
  using assms by (auto simp: kv_match_def op_step_def kv_store_def store_step_def Let_def)

lemma legal_append: "legal m s (xs @ ys) \<longleftrightarrow> legal m s xs \<and> legal m (after_ops m s xs) ys"
  by (induction xs arbitrary: s) (simp_all add: after_ops_def)

lemma after_append: "after_ops m s (xs @ ys) = after_ops m (after_ops m s xs) ys"
  by (simp add: after_ops_def)

lemma legal_gets:
  assumes "\<forall>r \<in> set rs. op_step m s r = (True, s)"
  shows "legal m s rs \<and> after_ops m s rs = s"
  using assms by (induction rs) (simp_all add: after_ops_def)

text \<open>Sorting by buckets.\<close>

definition buckets :: "(nat \<Rightarrow> nat) \<Rightarrow> nat list \<Rightarrow> nat \<Rightarrow> nat list" where
  "buckets pt idx k = concat (map (\<lambda>b. filter (\<lambda>i. pt i = b) idx) [0..<k])"

lemma buckets_Suc: "buckets pt idx (Suc k) = buckets pt idx k @ filter (\<lambda>i. pt i = k) idx"
  by (simp add: buckets_def)

lemma buckets_sorted:
  assumes "distinct idx"
  shows "set (buckets pt idx k) = {i \<in> set idx. pt i < k} \<and> distinct (buckets pt idx k) \<and> sorted_wrt (\<lambda>i j. pt i \<le> pt j) (buckets pt idx k)"
proof (induction k)
  case 0
  show ?case by (simp add: buckets_def)
next
  case (Suc k)
  have "sorted_wrt (\<lambda>i j. pt i \<le> pt j) (filter (\<lambda>i. pt i = k) idx)" by (rule sorted_wrt_mono_rel [of _ "\<lambda>_ _. True"]) (auto simp: sorted_wrt_true)
  then show ?case using Suc assms unfolding buckets_Suc by (auto simp: sorted_wrt_append less_Suc_eq)
qed

text \<open>When an entry of the log takes effect.\<close>

definition takes_effect :: "Op list \<Rightarrow> nat \<Rightarrow> bool" where
  "takes_effect L q \<longleftrightarrow> q < length L \<and> kv_seqs (take q L) (opClientId (L ! q)) < opSeqNum (L ! q)"

lemma kv_state_Suc:
  assumes "q < length L"
  shows "kv_state (take (Suc q) L) = (if takes_effect L q then kv_effect (L ! q) (kv_state (take q L)) else kv_state (take q L))"
  using assms by (simp add: takes_effect_def take_Suc_conv_app_nth kv_state_def fresh_append)

text \<open>
  The points of the operations of a history: an update takes place at the entry of the log that takes effect,
  a read right after the commands that the replica had applied when it answered.
\<close>

definition points_ok :: "Op list \<Rightarrow> kv_any Operation list \<Rightarrow> Op list \<Rightarrow> (nat \<Rightarrow> nat) \<Rightarrow> bool" where
  "points_ok L ops xs pt \<longleftrightarrow> length xs = length ops \<and> distinct xs \<and>
     (\<forall>i < length ops. kv_match (xs ! i) (ops ! i) \<and>
        (opType (xs ! i) = GET \<longrightarrow> (\<exists>n \<le> length L. pt i = 2 * n \<and> onOutput (ops ! i) = OutputVal \<lparr>kvoValue = contents (kv_state (take n L)) (opKey (xs ! i))\<rparr>)) \<and>
        (opType (xs ! i) \<noteq> GET \<longrightarrow> (\<exists>q. takes_effect L q \<and> L ! q = xs ! i \<and> pt i = 2 * q + 1))) \<and>
     (\<forall>q. takes_effect L q \<and> opType (L ! q) \<noteq> GET \<longrightarrow> (\<exists>i < length ops. xs ! i = L ! q \<and> pt i = 2 * q + 1)) \<and>
     (\<forall>i < length ops. \<forall>j < length ops. precedes ops i j \<longrightarrow> pt i < pt j)"


lemma points_okD:
  assumes "points_ok L ops xs pt" and "i < length ops"
  shows "kv_match (xs ! i) (ops ! i)"
    "opType (xs ! i) = GET \<Longrightarrow> \<exists>n \<le> length L. pt i = 2 * n \<and> onOutput (ops ! i) = OutputVal \<lparr>kvoValue = contents (kv_state (take n L)) (opKey (xs ! i))\<rparr>"
    "opType (xs ! i) \<noteq> GET \<Longrightarrow> \<exists>q. takes_effect L q \<and> L ! q = xs ! i \<and> pt i = 2 * q + 1"
  using assms unfolding points_ok_def by blast+

lemma points_reads:
  assumes ok: "points_ok L ops xs pt"
  shows "\<forall>r \<in> set (map ((!) ops) (filter (\<lambda>i. pt i = 2 * k) [0..<length ops])). op_step kv_store (contents (kv_state (take k L))) r =
    (True, contents (kv_state (take k L)))"
proof
  fix r assume "r \<in> set (map ((!) ops) (filter (\<lambda>i. pt i = 2 * k) [0..<length ops]))"
  then obtain i where i: "i < length ops" "pt i = 2 * k" "r = ops ! i" by auto
  have g: "opType (xs ! i) = GET"
  proof (rule ccontr)
    assume "opType (xs ! i) \<noteq> GET"
    then obtain q where "pt i = 2 * q + 1" using points_okD(3) [OF ok i(1)] by blast
    then show False using i(2) by presburger
  qed
  obtain n where "pt i = 2 * n" "onOutput (ops ! i) = OutputVal \<lparr>kvoValue = contents (kv_state (take n L)) (opKey (xs ! i))\<rparr>"
    using points_okD(2) [OF ok i(1) g] by blast
  then show "op_step kv_store (contents (kv_state (take k L))) r = (True, contents (kv_state (take k L)))"
    using match_get [OF points_okD(1) [OF ok i(1)] g] i(2,3) by simp
qed

lemma points_update:
  assumes ok: "points_ok L ops xs pt" and k: "k < length L"
  defines "rs \<equiv> map ((!) ops) (filter (\<lambda>i. pt i = 2 * k + 1) [0..<length ops])"
  shows "legal kv_store (contents (kv_state (take k L))) rs \<and> after_ops kv_store (contents (kv_state (take k L))) rs = contents (kv_state (take (Suc k) L))"
proof -
  have upd: "opType (xs ! i) \<noteq> GET \<and> takes_effect L k \<and> L ! k = xs ! i" if h: "i < length ops" "pt i = 2 * k + 1" for i
  proof -
    have "opType (xs ! i) \<noteq> GET"
    proof
      assume "opType (xs ! i) = GET"
      then obtain n where "pt i = 2 * n" using points_okD(2) [OF ok h(1)] by blast
      then show False using h(2) by presburger
    qed
    moreover from points_okD(3) [OF ok h(1) this] h(2) have "takes_effect L k \<and> L ! k = xs ! i" by auto
    ultimately show ?thesis by blast
  qed
  show ?thesis
  proof (cases "takes_effect L k \<and> opType (L ! k) \<noteq> GET")
    case True
    then obtain i where i: "i < length ops" "xs ! i = L ! k" "pt i = 2 * k + 1" using ok unfolding points_ok_def by blast
    have xs: "distinct xs" "length xs = length ops" using ok unfolding points_ok_def by blast+
    have "j = i" if "j < length ops" "pt j = 2 * k + 1" for j
    proof -
      have "xs ! j = xs ! i" using upd [OF that] i(2) by simp
      then show ?thesis using nth_eq_iff_index_eq [OF xs(1), of j i] that(1) i(1) xs(2) by simp
    qed
    then have "filter (\<lambda>j. pt j = 2 * k + 1) [0..<length ops] = filter (\<lambda>j. j = i) [0..<length ops]" using i(3) by (intro filter_cong) auto
    also have "filter (\<lambda>j. j = i) [0..<n] = (if i < n then [i] else [])" for n by (induction n) auto
    finally have rs: "rs = [ops ! i]" using i(1) by (simp add: rs_def)
    have "op_step kv_store (contents (kv_state (take k L))) (ops ! i) = (True, contents (kv_effect (L ! k) (kv_state (take k L))))"
      using match_write [OF points_okD(1) [OF ok i(1)]] i(2) True by simp
    then show ?thesis using kv_state_Suc [OF k] True by (simp add: rs after_ops_def)
  next
    case False
    then have "rs = []" using upd by (auto simp: rs_def filter_empty_conv)
    moreover have "kv_effect x d = d" if "opType x = GET" for x d using that op_types by (simp add: kv_effect_def)
    then have "kv_state (take (Suc k) L) = kv_state (take k L)" unfolding kv_state_Suc [OF k] using False by simp
    ultimately show ?thesis by (simp add: after_ops_def)
  qed
qed

lemma points_legal:
  assumes ok: "points_ok L ops xs pt" and "k \<le> length L"
  defines "p \<equiv> map ((!) ops) (buckets pt [0..<length ops] (2 * k))"
  shows "legal kv_store (contents Map.empty) p \<and> after_ops kv_store (contents Map.empty) p = contents (kv_state (take k L))"
  unfolding p_def using assms(2)
proof (induction k)
  case 0
  show ?case by (simp add: buckets_def after_ops_def kv_state_def)
next
  case (Suc k)
  have b: "buckets pt [0..<length ops] (2 * Suc k) = buckets pt [0..<length ops] (2 * k) @
      filter (\<lambda>i. pt i = 2 * k) [0..<length ops] @ filter (\<lambda>i. pt i = 2 * k + 1) [0..<length ops]" by (simp add: buckets_Suc)
  show ?case unfolding b map_append legal_append after_append
    using Suc legal_gets [OF points_reads [OF ok, of k]] points_update [OF ok, of k] by simp
qed

lemma points_linearizable:
  assumes ok: "points_ok L ops xs pt"
  shows "linearizable kv_store ops"
proof -
  let ?p = "buckets pt [0..<length ops] (Suc (2 * length L))"
  have lt: "pt i < Suc (2 * length L)" if "i < length ops" for i
    using points_okD(2,3) [OF ok that] by (cases "opType (xs ! i) = GET") (force simp: takes_effect_def)+
  note s = buckets_sorted [of "[0..<length ops]" pt "Suc (2 * length L)"]
  have order: "precedes ops i j \<longrightarrow> pt i < pt j" if "i < length ops" "j < length ops" for i j using ok that unfolding points_ok_def by blast
  have all: "set ?p = {..<length ops}" using s lt by auto
  moreover have "sorted_wrt (\<lambda>i j. \<not> precedes ops j i) ?p"
  proof (rule sorted_wrt_mono_rel [of ?p "\<lambda>i j. pt i \<le> pt j"])
    show "sorted_wrt (\<lambda>i j. pt i \<le> pt j) ?p" using s by simp
    fix i j assume "i \<in> set ?p" "j \<in> set ?p" "pt i \<le> pt j"
    then show "\<not> precedes ops j i" using order [of j i] all by auto
  qed
  moreover have "legal kv_store (contents Map.empty) (map ((!) ops) ?p)"
    unfolding buckets_Suc map_append legal_append using points_legal [OF ok, of "length L"] legal_gets [OF points_reads [OF ok, of "length L"]] by simp
  moreover have "mInit kv_store = contents Map.empty" by (simp add: kv_store_def contents_def fun_eq_iff)
  ultimately show ?thesis using s all by (intro linearizableI [of ?p]) (simp_all add: linearizes_def)
qed


section \<open>The service and its clients\<close>

datatype request = RGet string | RPut string string | RAppend string string

text \<open>The operation a request becomes, through the arguments the clerk builds.\<close>

fun request_op :: "Clerk \<Rightarrow> request \<Rightarrow> Op" where
  "request_op ck (RGet key) = Get_op (Clerk_GetArgs key ck)"
| "request_op ck (RPut key val) = PutAppend_op (Clerk_Put key val ck)"
| "request_op ck (RAppend key val) = PutAppend_op (Clerk_Append key val ck)"

text \<open>What \<^verbatim>\<open>Get\<close>, \<^verbatim>\<open>Put\<close> and \<^verbatim>\<open>Append\<close> of the tests append to the history.\<close>

definition recorded :: "request \<Rightarrow> int \<Rightarrow> int \<Rightarrow> string \<Rightarrow> int \<Rightarrow> kv_any Operation" where
  "recorded req cli start v end =
     \<lparr>onClientId = cli,
      onInput = InputVal (case req of RGet key \<Rightarrow> \<lparr>kviOp = 0, kviKey = key, kviValue = ''''\<rparr>
                          | RPut key val \<Rightarrow> \<lparr>kviOp = 1, kviKey = key, kviValue = val\<rparr>
                          | RAppend key val \<Rightarrow> \<lparr>kviOp = 2, kviKey = key, kviValue = val\<rparr>),
      onCall = start, onOutput = OutputVal \<lparr>kvoValue = v\<rparr>, onReturn = end\<rparr>"

text \<open>
  A request that has not returned: its operation, when it was called and, for the proofs, how long the log was then. A request
  that has returned: its operation and record and, for the proofs, how long the log was at its call and
  its return.
\<close>

record pending =
  pdReq :: request
  pdOp :: Op
  pdStart :: int
  pdMark :: nat

record finished =
  fnOp :: Op
  fnRecord :: "kv_any Operation"
  fnMark :: nat
  fnLen :: nat

text \<open>
  The state: the committed log, the clerks by client id, the requests and answers in the network (an answer with the
  number of commands its replica had applied), the clock, and the requests that returned.
\<close>

record kvsys =
  syLog :: "Op list"
  syClerks :: "int \<Rightarrow> Clerk"
  syPending :: "int \<Rightarrow> pending option"
  syIssued :: "Op set"
  syGets :: "(Op \<times> GetReply \<times> nat) set"
  syPuts :: "(Op \<times> PutAppendReply \<times> nat) set"
  syNow :: int
  syDone :: "finished list"

definition kvsys_init :: "nat \<Rightarrow> kvsys" where
  "kvsys_init n = \<lparr>syLog = [], syClerks = MakeClerk n, syPending = (\<lambda>_. None), syIssued = {}, syGets = {}, syPuts = {}, syNow = 0, syDone = []\<rparr>"

definition syHistory :: "kvsys \<Rightarrow> kv_any Operation list" where
  "syHistory s = map fnRecord (syDone s)"

text \<open>
  The handler of a request returns from \<^verbatim>\<open>operate\<close>, at once or after it was woken, on a replica that consumed \<^verbatim>\<open>n\<close>
  commands; until it reads the store the replica may have consumed more.
\<close>

definition answers :: "(Op ptok \<Rightarrow> nat) \<Rightarrow> Op list \<Rightarrow> Op \<Rightarrow> bool \<Rightarrow> nat \<Rightarrow> KVServer \<Rightarrow> bool" where
  "answers sz log x isLeader n' kv' \<longleftrightarrow> (\<exists>n kv kv1. kv_run sz log n kv \<and>
     (operate x kv = (Some isLeader, kv1) \<or> operate_resume x kv = (Some isLeader, kv1)) \<and> kv_run sz log n' kv' \<and> n \<le> n')"

definition finish :: "int \<Rightarrow> pending \<Rightarrow> Clerk \<Rightarrow> string \<Rightarrow> kvsys \<Rightarrow> kvsys" where
  "finish c pd ck v s = s\<lparr>syClerks := (syClerks s)(c := ck), syPending := (syPending s)(c := None),
     syDone := syDone s @ [\<lparr>fnOp = pdOp pd, fnRecord = recorded (pdReq pd) c (pdStart pd) v (syNow s), fnMark = pdMark pd, fnLen = length (syLog s)\<rparr>]\<rparr>"

inductive kvsys_step :: "(Op ptok \<Rightarrow> nat) \<Rightarrow> kvsys \<Rightarrow> kvsys \<Rightarrow> bool" for sz where
  tick: "syNow s \<le> t \<Longrightarrow> kvsys_step sz s (s\<lparr>syNow := t\<rparr>)"
| invoke: "syPending s c = None \<Longrightarrow> x = request_op (syClerks s c) req \<Longrightarrow>
    kvsys_step sz s (s\<lparr>syPending := (syPending s)(c \<mapsto> \<lparr>pdReq = req, pdOp = x, pdStart = syNow s, pdMark = length (syLog s)\<rparr>),
      syIssued := insert x (syIssued s)\<rparr>)"
| commit: "x \<in> syIssued s \<Longrightarrow> kvsys_step sz s (s\<lparr>syLog := syLog s @ [x]\<rparr>)"
| answer_get: "Get_op args \<in> syIssued s \<Longrightarrow> answers sz (syLog s) (Get_op args) isLeader n kv \<Longrightarrow>
    kvsys_step sz s (s\<lparr>syGets := insert (Get_op args, Get_reply args isLeader kv, n) (syGets s)\<rparr>)"
| answer_put: "PutAppend_op args \<in> syIssued s \<Longrightarrow> answers sz (syLog s) (PutAppend_op args) isLeader n kv \<Longrightarrow>
    kvsys_step sz s (s\<lparr>syPuts := insert (PutAppend_op args, PutAppend_reply isLeader, n) (syPuts s)\<rparr>)"
| return_get: "syPending s c = Some pd \<Longrightarrow> pdReq pd = RGet key \<Longrightarrow> \<forall>j r. Some (j, r) \<in> set es \<longrightarrow> (\<exists>n. (pdOp pd, r, n) \<in> syGets s) \<Longrightarrow>
    Clerk_Get key es (syClerks s c) = Inr (Some v, ck) \<Longrightarrow> kvsys_step sz s (finish c pd ck v s)"
| return_put: "syPending s c = Some pd \<Longrightarrow> pdReq pd = RPut key val \<or> pdReq pd = RAppend key val \<Longrightarrow>
    \<forall>j r. Some (j, r) \<in> set es \<longrightarrow> (\<exists>n. (pdOp pd, r, n) \<in> syPuts s) \<Longrightarrow>
    Clerk_PutAppend es (syClerks s c) = Inr (Some (), ck) \<Longrightarrow> kvsys_step sz s (finish c pd ck '''' s)"

section \<open>What a return says\<close>

lemma answers_state:
  assumes "answers sz log x isLeader n kv"
  shows "n \<le> length log" "kv_data kv = kv_state (take n log)" "isLeader \<Longrightarrow> opSeqNum x \<le> kv_seqs (take n log) (opClientId x)"
proof -
  obtain k kv0 kv1 where a: "kv_run sz log k kv0" "operate x kv0 = (Some isLeader, kv1) \<or> operate_resume x kv0 = (Some isLeader, kv1)"
    "kv_run sz log n kv" "k \<le> n" using assms unfolding answers_def by blast
  note i = kv_invD [OF kv_run_inv [OF a(3)]] and i0 = kv_invD [OF kv_run_inv [OF a(1)]]
  show "n \<le> length log" "kv_data kv = kv_state (take n log)" using i by blast+
  assume isLeader
  then have "opSeqNum x \<le> lastSeq kv0 (opClientId x)"
    using a(2) by (auto simp: operate_def operate_resume_def cs_done_def getClientStatus_spec split: prod.splits if_splits)
  also have "\<dots> \<le> kv_seqs (take n log) (opClientId x)" unfolding i0(3) by (rule kv_seqs_take_mono [OF a(4)])
  finally show "opSeqNum x \<le> kv_seqs (take n log) (opClientId x)" .
qed

lemma clerk_get_answer:
  assumes "Clerk_Get key es ck = Inr (Some v, ck')"
  shows "\<exists>j r. Some (j, r) \<in> set es \<and> grErr r \<noteq> ErrWrongLeader \<and> v = (if grErr r = OK then grValue r else '''')"
    "ckSeqNum ck' = ckSeqNum ck + 1 \<and> ckClientId ck' = ckClientId ck"
proof -
  obtain ids x where c: "call (\<lambda>r. grErr r = ErrWrongLeader) es (nextSeq ck) = Inr (ids, x, ck')"
    "Some v = (case x of Running \<Rightarrow> None | Answered j r \<Rightarrow> Some (if grErr r = OK then grValue r else ''''))"
    using assms by (auto simp: Clerk_Get_def ebind_eq_Inr)
  then obtain j r where x: "x = Answered j r" "v = (if grErr r = OK then grValue r else '''')" by (cases x) auto
  have "0 < ckServers (nextSeq ck)" using c(1) by (cases "ckServers (nextSeq ck)"; cases es) (auto simp: call_def)
  from call_spec [OF this, of "\<lambda>r. grErr r = ErrWrongLeader" es] c(1) x(1)
  show "\<exists>j r. Some (j, r) \<in> set es \<and> grErr r \<noteq> ErrWrongLeader \<and> v = (if grErr r = OK then grValue r else '''')"
    "ckSeqNum ck' = ckSeqNum ck + 1 \<and> ckClientId ck' = ckClientId ck" using x(2) by (auto simp: nextSeq_def)
qed

lemma clerk_put_answer:
  assumes "Clerk_PutAppend es ck = Inr (Some (), ck')"
  shows "\<exists>j r. Some (j, r) \<in> set es \<and> paErr r = OK" "ckSeqNum ck' = ckSeqNum ck + 1 \<and> ckClientId ck' = ckClientId ck"
proof -
  obtain ids x ck1 where c: "call (\<lambda>r. paErr r = ErrWrongLeader) es (nextSeq ck) = Inr (ids, x, ck1)"
    "(case x of Running \<Rightarrow> Inr (None, ck1) | Answered j r \<Rightarrow> if paErr r = OK then Inr (Some (), ck1) else Inl FatalError) = Inr (Some (), ck')"
    using assms by (auto simp: Clerk_PutAppend_def ebind_eq_Inr)
  then obtain j r where x: "x = Answered j r" "paErr r = OK" "ck1 = ck'" by (cases x) (auto split: if_splits)
  have "0 < ckServers (nextSeq ck)" using c(1) by (cases "ckServers (nextSeq ck)"; cases es) (auto simp: call_def)
  from call_spec [OF this, of "\<lambda>r. paErr r = ErrWrongLeader" es] c(1) x
  show "\<exists>j r. Some (j, r) \<in> set es \<and> paErr r = OK" "ckSeqNum ck' = ckSeqNum ck + 1 \<and> ckClientId ck' = ckClientId ck" by (auto simp: nextSeq_def)
qed


section \<open>The invariant\<close>

definition inv_ids :: "kvsys \<Rightarrow> bool" where
  "inv_ids s \<longleftrightarrow> (\<forall>c. ckClientId (syClerks s c) = c \<and> 0 \<le> ckSeqNum (syClerks s c))"

text \<open>Each request sent has returned, or is the one its clerk waits for.\<close>

definition inv_issued :: "kvsys \<Rightarrow> bool" where
  "inv_issued s \<longleftrightarrow> (\<forall>x \<in> syIssued s. 0 < opSeqNum x \<and>
     (opSeqNum x \<le> ckSeqNum (syClerks s (opClientId x)) \<and> x \<in> fnOp ` set (syDone s) \<or>
      opSeqNum x = ckSeqNum (syClerks s (opClientId x)) + 1 \<and> (\<exists>pd. syPending s (opClientId x) = Some pd \<and> pdOp pd = x))) \<and>
     (\<forall>x \<in> syIssued s. \<forall>y \<in> syIssued s. opClientId x = opClientId y \<longrightarrow> opSeqNum x = opSeqNum y \<longrightarrow> x = y)"

definition inv_log :: "kvsys \<Rightarrow> bool" where
  "inv_log s \<longleftrightarrow> set (syLog s) \<subseteq> syIssued s \<and> (\<forall>q < length (syLog s). \<forall>y \<in> syIssued s.
     opClientId y = opClientId (syLog s ! q) \<longrightarrow> opSeqNum y < opSeqNum (syLog s ! q) \<longrightarrow> y \<in> set (take q (syLog s)))"

definition pd_ok :: "kvsys \<Rightarrow> int \<Rightarrow> pending \<Rightarrow> bool" where
  "pd_ok s c pd \<longleftrightarrow> pdOp pd = request_op (syClerks s c) (pdReq pd) \<and> pdOp pd \<in> syIssued s \<and>
     pdStart pd \<le> syNow s \<and> pdMark pd \<le> length (syLog s) \<and> pdOp pd \<notin> set (take (pdMark pd) (syLog s)) \<and>
     (\<forall>f \<in> set (syDone s). onReturn (fnRecord f) < pdStart pd \<longrightarrow> fnLen f \<le> pdMark pd)"

definition inv_pending :: "kvsys \<Rightarrow> bool" where
  "inv_pending s \<longleftrightarrow> (\<forall>c pd. syPending s c = Some pd \<longrightarrow> pd_ok s c pd)"

definition inv_answers :: "kvsys \<Rightarrow> bool" where
  "inv_answers s \<longleftrightarrow>
     (\<forall>x r n. (x, r, n) \<in> syGets s \<longrightarrow> n \<le> length (syLog s) \<and> (grErr r \<noteq> ErrWrongLeader \<longrightarrow>
        grErr r = OK \<and> x \<in> set (take n (syLog s)) \<and> grValue r = contents (kv_state (take n (syLog s))) (opKey x))) \<and>
     (\<forall>x r n. (x, r, n) \<in> syPuts s \<longrightarrow> paErr r = OK \<longrightarrow> x \<in> set (take n (syLog s)))"

text \<open>A request that returned is in the log, after the commands that were there when it was called.\<close>

definition fn_ok :: "kvsys \<Rightarrow> finished \<Rightarrow> bool" where
  "fn_ok s f \<longleftrightarrow> fnOp f \<in> syIssued s \<and> kv_match (fnOp f) (fnRecord f) \<and> fnLen f \<le> length (syLog s) \<and> fnMark f \<le> length (syLog s) \<and>
     fnOp f \<in> set (take (fnLen f) (syLog s)) \<and> fnOp f \<notin> set (take (fnMark f) (syLog s)) \<and>
     (opType (fnOp f) = GET \<longrightarrow> (\<exists>n \<le> fnLen f. fnOp f \<in> set (take n (syLog s)) \<and>
        onOutput (fnRecord f) = OutputVal \<lparr>kvoValue = contents (kv_state (take n (syLog s))) (opKey (fnOp f))\<rparr>))"

definition inv_done :: "kvsys \<Rightarrow> bool" where
  "inv_done s \<longleftrightarrow> distinct (map fnOp (syDone s)) \<and> (\<forall>f \<in> set (syDone s). fn_ok s f \<and>
     opSeqNum (fnOp f) \<le> ckSeqNum (syClerks s (opClientId (fnOp f))) \<and> onCall (fnRecord f) \<le> onReturn (fnRecord f) \<and> onReturn (fnRecord f) \<le> syNow s \<and>
     (\<forall>g \<in> set (syDone s). onReturn (fnRecord g) < onCall (fnRecord f) \<longrightarrow> fnLen g \<le> fnMark f))"

definition kvsys_inv :: "kvsys \<Rightarrow> bool" where
  "kvsys_inv s \<longleftrightarrow> inv_ids s \<and> inv_issued s \<and> inv_log s \<and> inv_pending s \<and> inv_answers s \<and> inv_done s"

lemma kvsys_invD:
  assumes "kvsys_inv s"
  shows "inv_ids s" "inv_issued s" "inv_log s" "inv_pending s" "inv_answers s" "inv_done s"
  using assms by (simp_all add: kvsys_inv_def)

lemma issuedD:
  assumes "inv_issued s" "x \<in> syIssued s"
  shows "0 < opSeqNum x" "opSeqNum x \<le> ckSeqNum (syClerks s (opClientId x)) + 1"
    "opSeqNum x \<le> ckSeqNum (syClerks s (opClientId x)) \<Longrightarrow> x \<in> fnOp ` set (syDone s)"
    "x \<in> fnOp ` set (syDone s) \<or> (\<exists>pd. syPending s (opClientId x) = Some pd \<and> pdOp pd = x)"
    "y \<in> syIssued s \<Longrightarrow> opClientId x = opClientId y \<Longrightarrow> opSeqNum x = opSeqNum y \<Longrightarrow> x = y"
  using assms unfolding inv_issued_def by force+

lemma pendingD:
  assumes "inv_pending s" "syPending s c = Some pd"
  shows "pdOp pd = request_op (syClerks s c) (pdReq pd)" "pdOp pd \<in> syIssued s" "pdStart pd \<le> syNow s" "pdMark pd \<le> length (syLog s)"
    "pdOp pd \<notin> set (take (pdMark pd) (syLog s))" "\<forall>f \<in> set (syDone s). onReturn (fnRecord f) < pdStart pd \<longrightarrow> fnLen f \<le> pdMark pd"
  using assms unfolding inv_pending_def pd_ok_def by blast+

lemma in_log:
  assumes "inv_log s" "y \<in> set (take n (syLog s))" "x \<in> syIssued s" "opClientId x = opClientId y" "opSeqNum x < opSeqNum y"
  shows "x \<in> set (take n (syLog s))"
proof -
  obtain q where q: "q < n" "q < length (syLog s)" "syLog s ! q = y" using assms(2) by (auto simp: in_set_conv_nth)
  then have "x \<in> set (take q (syLog s))" using assms unfolding inv_log_def by blast
  then show ?thesis using set_take_subset_set_take [of q n "syLog s"] q(1) by auto
qed

text \<open>An operation whose sequence number is reached was applied.\<close>

lemma reached_in_log:
  assumes inv: "inv_issued s" "inv_log s" and x: "x \<in> syIssued s" "opSeqNum x \<le> kv_seqs (take n (syLog s)) (opClientId x)"
  shows "x \<in> set (take n (syLog s))"
proof -
  have "0 < kv_seqs (take n (syLog s)) (opClientId x)" using issuedD(1) [OF inv(1) x(1)] x(2) by linarith
  then obtain y where y: "y \<in> set (take n (syLog s))" "opClientId y = opClientId x" "opSeqNum x \<le> opSeqNum y"
    using last_seqs_reached [of opSeqNum opClientId "\<lambda>_. 0" "take n (syLog s)" "opClientId x"] x(2) by force
  have yi: "y \<in> syIssued s" using y(1) inv(2) unfolding inv_log_def by (meson in_set_takeD subsetD)
  show ?thesis
  proof (cases "opSeqNum x = opSeqNum y")
    case True
    then show ?thesis using issuedD(5) [OF inv(1) x(1) yi] y(1,2) by simp
  next
    case False
    then show ?thesis using in_log [OF inv(2) y(1) x(1)] y(2,3) by simp
  qed
qed

text \<open>The first entry of an operation takes effect, and no other one.\<close>

lemma first_effect:
  assumes inv: "inv_issued s" "inv_log s" and x: "x \<in> set (syLog s)"
  shows "\<exists>q. takes_effect (syLog s) q \<and> syLog s ! q = x"
proof -
  obtain q where q: "q < length (syLog s)" "syLog s ! q = x" "\<forall>i < q. syLog s ! i \<noteq> x"
    using x by (metis in_set_conv_nth exists_least_iff [of "\<lambda>i. i < length (syLog s) \<and> syLog s ! i = x"] less_trans)
  have xi: "x \<in> syIssued s" using x inv(2) by (auto simp: inv_log_def)
  have "x \<notin> set (take q (syLog s))" using q by (auto simp: in_set_conv_nth)
  then have "\<not> opSeqNum x \<le> kv_seqs (take q (syLog s)) (opClientId x)" using reached_in_log [OF inv xi] by blast
  then show ?thesis using q by (auto simp: takes_effect_def)
qed

lemma effect_unique:
  assumes "takes_effect L q" "takes_effect L q'" "L ! q = L ! q'"
  shows "q = q'"
proof -
  have "\<not> a < b" if h: "takes_effect L a" "takes_effect L b" "L ! a = L ! b" for a b
  proof
    assume "a < b"
    then have "L ! b \<in> set (take b L)" using h by (auto simp: takes_effect_def in_set_conv_nth intro!: exI [of _ a])
    then show False using last_seqs_ge [of "L ! b" "take b L" opSeqNum opClientId "\<lambda>_. 0"] h(2) by (simp add: takes_effect_def)
  qed
  then show ?thesis using assms by (metis nat_neq_iff)
qed


lemma request_op_fields:
  "opClientId (request_op ck req) = ckClientId ck" "opSeqNum (request_op ck req) = ckSeqNum ck + 1"
  by (cases req; simp add: Get_op_def PutAppend_op_def Clerk_GetArgs_def Clerk_Put_def Clerk_Append_def Clerk_PutAppendArgs_def)+

lemma request_match: "kv_match (request_op ck req) (recorded req cli t v t')"
  by (cases req) (simp_all add: kv_match_def recorded_def Get_op_def PutAppend_op_def Clerk_GetArgs_def Clerk_Put_def Clerk_Append_def
    Clerk_PutAppendArgs_def GET_def PUT_def APPEND_def)

lemma kvsys_init_inv: "kvsys_inv (kvsys_init n)"
  by (simp add: kvsys_inv_def inv_ids_def inv_issued_def inv_log_def inv_pending_def inv_answers_def inv_done_def kvsys_init_def MakeClerk_def)

lemma tick_inv:
  assumes "kvsys_inv s" and "syNow s \<le> t"
  shows "kvsys_inv (s\<lparr>syNow := t\<rparr>)"
proof -
  note i = kvsys_invD [OF assms(1)]
  have "fn_ok (s\<lparr>syNow := t\<rparr>) f = fn_ok s f" for f by (simp add: fn_ok_def)
  then have "inv_done (s\<lparr>syNow := t\<rparr>)" using i(6) assms(2) unfolding inv_done_def by auto
  moreover have "inv_pending (s\<lparr>syNow := t\<rparr>)" unfolding inv_pending_def
  proof (intro allI impI)
    fix c pd assume "syPending (s\<lparr>syNow := t\<rparr>) c = Some pd"
    then have "syPending s c = Some pd" by simp
    note p = pendingD [OF i(4) this]
    have "pdStart pd \<le> t" using p(3) assms(2) by simp
    then show "pd_ok (s\<lparr>syNow := t\<rparr>) c pd" using p by (simp add: pd_ok_def)
  qed
  ultimately show ?thesis using i by (simp add: kvsys_inv_def inv_ids_def inv_issued_def inv_log_def inv_answers_def)
qed

lemma invoke_inv:
  assumes inv: "kvsys_inv s" and c: "syPending s c = None" "x = request_op (syClerks s c) req"
  shows "kvsys_inv (s\<lparr>syPending := (syPending s)(c \<mapsto> \<lparr>pdReq = req, pdOp = x, pdStart = syNow s, pdMark = length (syLog s)\<rparr>),
      syIssued := insert x (syIssued s)\<rparr>)" (is "kvsys_inv ?s")
proof -
  note i = kvsys_invD [OF inv]
  have x: "opClientId x = c" "opSeqNum x = ckSeqNum (syClerks s c) + 1" using c(2) request_op_fields i(1) by (simp_all add: inv_ids_def)
  have old: "opSeqNum y \<le> ckSeqNum (syClerks s c)" if "y \<in> syIssued s" "opClientId y = c" for y
    using i(2) that c(1) unfolding inv_issued_def by force
  have new: "x \<notin> syIssued s" using old [of x] x by auto
  have uniq: "opClientId y = c \<longrightarrow> opSeqNum y = opSeqNum x \<longrightarrow> y = x" if "y \<in> insert x (syIssued s)" for y
    using old [of y] x(2) that by auto
  have nl: "x \<notin> set (syLog s)" using new i(3) by (auto simp: inv_log_def)
  have "inv_issued ?s" unfolding inv_issued_def
  proof (intro conjI ballI impI)
    fix y assume y: "y \<in> syIssued ?s"
    show "0 < opSeqNum y" using y issuedD(1) [OF i(2)] x i(1) by (auto simp: inv_ids_def add_nonneg_pos)
    show "opSeqNum y \<le> ckSeqNum (syClerks ?s (opClientId y)) \<and> y \<in> fnOp ` set (syDone ?s) \<or>
      opSeqNum y = ckSeqNum (syClerks ?s (opClientId y)) + 1 \<and> (\<exists>pd. syPending ?s (opClientId y) = Some pd \<and> pdOp pd = y)"
    proof (cases "y = x")
      case False
      then have yi: "y \<in> syIssued s" using y by simp
      show ?thesis
      proof (cases "opClientId y = c")
        case True
        then show ?thesis using old [OF yi True] issuedD(3) [OF i(2) yi] by simp
      next
        case False
        then show ?thesis using i(2) yi unfolding inv_issued_def by simp
      qed
    qed (use x in simp)
    fix z assume "z \<in> syIssued ?s" "opClientId y = opClientId z" "opSeqNum y = opSeqNum z"
    then show "y = z" using y uniq [of y] uniq [of z] issuedD(5) [OF i(2), of y z] x(1) by auto
  qed
  moreover have "inv_log ?s" unfolding inv_log_def
  proof (intro conjI allI impI ballI)
    show "set (syLog ?s) \<subseteq> syIssued ?s" using i(3) by (auto simp: inv_log_def)
    fix q y assume a: "q < length (syLog ?s)" "y \<in> syIssued ?s" "opClientId y = opClientId (syLog ?s ! q)" "opSeqNum y < opSeqNum (syLog ?s ! q)"
    have l: "syLog s ! q \<in> syIssued s" using i(3) a(1) nth_mem unfolding inv_log_def by fastforce
    have "y \<noteq> x" using old [OF l] a(3,4) x by auto
    then show "y \<in> set (take q (syLog ?s))" using i(3) a unfolding inv_log_def by simp
  qed
  moreover have "inv_pending ?s" unfolding inv_pending_def
  proof (intro allI impI)
    fix c' pd assume pd: "syPending ?s c' = Some pd"
    show "pd_ok ?s c' pd"
    proof (cases "c' = c")
      case True
      have "\<forall>f \<in> set (syDone s). fnLen f \<le> length (syLog s)" using i(6) unfolding inv_done_def fn_ok_def by blast
      moreover have "pd = \<lparr>pdReq = req, pdOp = x, pdStart = syNow s, pdMark = length (syLog s)\<rparr>" using pd True by simp
      ultimately show ?thesis using c(2) nl True by (simp add: pd_ok_def)
    next
      case False
      then have "syPending s c' = Some pd" using pd by simp
      from pendingD [OF i(4) this] show ?thesis by (simp add: pd_ok_def)
    qed
  qed
  moreover have "inv_done ?s" using i(6) unfolding inv_done_def fn_ok_def by auto
  moreover have "inv_ids ?s" "inv_answers ?s" using i(1,5) unfolding inv_ids_def inv_answers_def by simp_all
  ultimately show ?thesis by (simp add: kvsys_inv_def)
qed


lemma commit_inv:
  assumes inv: "kvsys_inv s" and x: "x \<in> syIssued s"
  shows "kvsys_inv (s\<lparr>syLog := syLog s @ [x]\<rparr>)" (is "kvsys_inv ?s")
proof -
  note i = kvsys_invD [OF inv]
  have tk: "take n (syLog ?s) = take n (syLog s)" if "n \<le> length (syLog s)" for n using that by simp
  have done_log: "fnOp f \<in> set (syLog s)" if "f \<in> set (syDone s)" for f
    using i(6) that unfolding inv_done_def fn_ok_def by (meson in_set_takeD)
  have fn: "fn_ok ?s f" if h: "f \<in> set (syDone s)" for f
  proof -
    have f: "fn_ok s f" using i(6) h unfolding inv_done_def by blast
    show ?thesis using f by (auto simp: fn_ok_def)
  qed
  have "inv_log ?s" unfolding inv_log_def
  proof (intro conjI allI impI ballI)
    show "set (syLog ?s) \<subseteq> syIssued ?s" using i(3) x by (auto simp: inv_log_def)
    fix q y assume a: "q < length (syLog ?s)" "y \<in> syIssued ?s" "opClientId y = opClientId (syLog ?s ! q)" "opSeqNum y < opSeqNum (syLog ?s ! q)"
    show "y \<in> set (take q (syLog ?s))"
    proof (cases "q < length (syLog s)")
      case True
      then show ?thesis using i(3) a unfolding inv_log_def by (simp add: nth_append)
    next
      case False
      then have q: "q = length (syLog s)" using a(1) by simp
      have "opSeqNum y \<le> ckSeqNum (syClerks s (opClientId y))" using a(3,4) issuedD(2) [OF i(2) x] q by (simp add: nth_append)
      then have "y \<in> fnOp ` set (syDone s)" using issuedD(3) [OF i(2)] a(2) by simp
      then show ?thesis using done_log q by auto
    qed
  qed
  moreover have "inv_answers ?s" using i(5) unfolding inv_answers_def by (auto intro!: le_SucI)
  moreover have "inv_done ?s" using i(6) fn unfolding inv_done_def by simp
  moreover have "inv_pending ?s" unfolding inv_pending_def
  proof (intro allI impI)
    fix c pd assume "syPending ?s c = Some pd"
    then have "syPending s c = Some pd" by simp
    note p = pendingD [OF i(4) this]
    show "pd_ok ?s c pd" using p by (simp add: pd_ok_def)
  qed
  ultimately show ?thesis using i by (simp add: kvsys_inv_def inv_ids_def inv_issued_def)
qed

lemma answer_inv:
  assumes inv: "kvsys_inv s" and ans: "answers sz (syLog s) x isLeader n kv" and x: "x \<in> syIssued s"
  shows "x = Get_op args \<Longrightarrow> kvsys_inv (s\<lparr>syGets := insert (x, Get_reply args isLeader kv, n) (syGets s)\<rparr>)"
    "kvsys_inv (s\<lparr>syPuts := insert (x, PutAppend_reply isLeader, n) (syPuts s)\<rparr>)"
proof -
  note i = kvsys_invD [OF inv] and a = answers_state [OF ans]
  have log: "isLeader \<Longrightarrow> x \<in> set (take n (syLog s))" using reached_in_log [OF i(2,3) x a(3)] .
  have frame: "kvsys_inv s'" if "inv_answers s'" "syLog s' = syLog s" "syClerks s' = syClerks s" "syPending s' = syPending s" "syIssued s' = syIssued s"
    "syNow s' = syNow s" "syDone s' = syDone s" for s'
  proof -
    have "inv_ids s' = inv_ids s" "inv_issued s' = inv_issued s" "inv_log s' = inv_log s" "inv_pending s' = inv_pending s" "inv_done s' = inv_done s"
      by (simp_all add: inv_ids_def inv_issued_def inv_log_def inv_pending_def pd_ok_def inv_done_def fn_ok_def that)
    then show ?thesis using i that(1) by (simp add: kvsys_inv_def)
  qed
  show "kvsys_inv (s\<lparr>syPuts := insert (x, PutAppend_reply isLeader, n) (syPuts s)\<rparr>)"
    by (rule frame) (use i(5) log in \<open>auto simp: inv_answers_def PutAppend_reply_def split: if_splits\<close>)
  assume "x = Get_op args"
  then have "opKey x = gaKey args" by (simp add: Get_op_def)
  then have "isLeader \<Longrightarrow> grValue (Get_reply args isLeader kv) = contents (kv_state (take n (syLog s))) (opKey x)"
    using a(2) by (simp add: Get_reply_def store_get_def contents_def split: option.splits)
  then show "kvsys_inv (s\<lparr>syGets := insert (x, Get_reply args isLeader kv, n) (syGets s)\<rparr>)"
    by (intro frame) (use i(5) log a(1) in \<open>auto simp: inv_answers_def Get_reply_def split: if_splits\<close>)
qed


lemma returned_inv:
  assumes inv: "kvsys_inv s" and pd: "syPending s c = Some pd" and ck: "ckSeqNum ck = ckSeqNum (syClerks s c) + 1" "ckClientId ck = ckClientId (syClerks s c)"
    and log: "pdOp pd \<in> set (syLog s)"
    and get: "opType (pdOp pd) = GET \<longrightarrow> (\<exists>n \<le> length (syLog s). pdOp pd \<in> set (take n (syLog s)) \<and> v = contents (kv_state (take n (syLog s))) (opKey (pdOp pd)))"
  shows "kvsys_inv (finish c pd ck v s)" (is "kvsys_inv ?s")
proof -
  note i = kvsys_invD [OF inv] and p = pendingD [OF kvsys_invD(4) [OF inv] pd]
  let ?f = "\<lparr>fnOp = pdOp pd, fnRecord = recorded (pdReq pd) c (pdStart pd) v (syNow s), fnMark = pdMark pd, fnLen = length (syLog s)\<rparr>"
  have s: "syLog ?s = syLog s" "syIssued ?s = syIssued s" "syDone ?s = syDone s @ [?f]" "syNow ?s = syNow s" "syGets ?s = syGets s" "syPuts ?s = syPuts s"
    "syClerks ?s = (syClerks s)(c := ck)" "syPending ?s = (syPending s)(c := None)" by (simp_all add: finish_def)
  have x: "opClientId (pdOp pd) = c" "opSeqNum (pdOp pd) = ckSeqNum (syClerks s c) + 1"
    using p(1) request_op_fields i(1) by (simp_all add: inv_ids_def)
  have times: "onCall (fnRecord ?f) = pdStart pd" "onReturn (fnRecord ?f) = syNow s" by (simp_all add: recorded_def)
  have old: "\<forall>f \<in> set (syDone s). fn_ok s f \<and> opSeqNum (fnOp f) \<le> ckSeqNum (syClerks s (opClientId (fnOp f))) \<and>
     onCall (fnRecord f) \<le> onReturn (fnRecord f) \<and> onReturn (fnRecord f) \<le> syNow s \<and>
     (\<forall>g \<in> set (syDone s). onReturn (fnRecord g) < onCall (fnRecord f) \<longrightarrow> fnLen g \<le> fnMark f)" using i(6) unfolding inv_done_def by blast
  have "inv_ids ?s" using i(1) ck by (simp add: inv_ids_def s)
  moreover have "inv_issued ?s" unfolding inv_issued_def
  proof (intro conjI ballI impI)
    fix y assume "y \<in> syIssued ?s"
    then have y: "y \<in> syIssued s" by (simp add: s)
    show "0 < opSeqNum y" by (rule issuedD(1) [OF i(2) y])
    show "opSeqNum y \<le> ckSeqNum (syClerks ?s (opClientId y)) \<and> y \<in> fnOp ` set (syDone ?s) \<or>
      opSeqNum y = ckSeqNum (syClerks ?s (opClientId y)) + 1 \<and> (\<exists>pd. syPending ?s (opClientId y) = Some pd \<and> pdOp pd = y)"
    proof (cases "opClientId y = c")
      case True
      have "y \<in> fnOp ` set (syDone ?s)" using issuedD(4) [OF i(2) y] True pd by (auto simp: s)
      then show ?thesis using issuedD(2) [OF i(2) y] True ck(1) by (simp add: s)
    next
      case False
      then show ?thesis using i(2) y unfolding inv_issued_def by (auto simp: s)
    qed
    fix z assume "z \<in> syIssued ?s" "opClientId y = opClientId z" "opSeqNum y = opSeqNum z"
    then show "y = z" using issuedD(5) [OF i(2) y] by (simp add: s)
  qed
  moreover have "inv_log ?s" using i(3) by (simp add: inv_log_def s)
  moreover have "inv_answers ?s" using i(5) by (simp add: inv_answers_def s)
  moreover have "inv_pending ?s" unfolding inv_pending_def
  proof (intro allI impI)
    fix c' pd' assume "syPending ?s c' = Some pd'"
    then have c': "c' \<noteq> c" "syPending s c' = Some pd'" by (auto simp: s split: if_splits)
    show "pd_ok ?s c' pd'" using pendingD [OF i(4) c'(2)] c'(1) times by (simp add: pd_ok_def s)
  qed
  moreover have "inv_done ?s" unfolding inv_done_def
  proof (intro conjI ballI)
    have "pdOp pd \<noteq> fnOp f" if "f \<in> set (syDone s)" for f using old that x by auto
    then show "distinct (map fnOp (syDone ?s))" using i(6) by (auto simp: inv_done_def s)
    fix f assume "f \<in> set (syDone ?s)"
    then have f: "f \<in> set (syDone s) \<or> f = ?f" by (auto simp: s)
    have "fn_ok s ?f"
      unfolding fn_ok_def using p log get request_match [of "syClerks s c" "pdReq pd" c "pdStart pd" v "syNow s"] by (simp add: recorded_def)
    then show "fn_ok ?s f" using f old by (auto simp: fn_ok_def s)
    show "opSeqNum (fnOp f) \<le> ckSeqNum (syClerks ?s (opClientId (fnOp f)))" using f old x ck(1) by (auto simp: s)
    show "onCall (fnRecord f) \<le> onReturn (fnRecord f)" "onReturn (fnRecord f) \<le> syNow ?s" using f old p(3) times by (auto simp: s)
    fix g assume "g \<in> set (syDone ?s)"
    then have g: "g \<in> set (syDone s) \<or> g = ?f" by (auto simp: s)
    show "onReturn (fnRecord g) < onCall (fnRecord f) \<longrightarrow> fnLen g \<le> fnMark f"
    proof (cases "g = ?f")
      case True
      have "onCall (fnRecord f) \<le> syNow s" using f old p(3) times by force
      then show ?thesis using True times by simp
    next
      case False
      then show ?thesis using f g old p(6) times by auto
    qed
  qed
  ultimately show ?thesis by (simp add: kvsys_inv_def)
qed

lemma kvsys_step_inv:
  assumes "kvsys_step sz s s'" and inv: "kvsys_inv s"
  shows "kvsys_inv s'"
  using assms(1)
proof cases
  case (return_get c pd key es v ck)
  obtain j r where r: "Some (j, r) \<in> set es" "grErr r \<noteq> ErrWrongLeader" "v = (if grErr r = OK then grValue r else '''')"
    using clerk_get_answer(1) [OF return_get(5)] by blast
  then obtain n where "(pdOp pd, r, n) \<in> syGets s" using return_get(4) by blast
  then have a: "n \<le> length (syLog s)" "grErr r = OK" "pdOp pd \<in> set (take n (syLog s))" "grValue r = contents (kv_state (take n (syLog s))) (opKey (pdOp pd))"
    using kvsys_invD(5) [OF inv] r(2) unfolding inv_answers_def by blast+
  have log: "pdOp pd \<in> set (syLog s)" using a(3) by (rule in_set_takeD)
  have "v = contents (kv_state (take n (syLog s))) (opKey (pdOp pd))" using r(3) a(2,4) by simp
  with a(1,3) show ?thesis unfolding return_get(1) using clerk_get_answer(2) [OF return_get(5)] log
    by (intro returned_inv [OF inv return_get(2)]) blast+
next
  case (return_put c pd key val es ck)
  note p = pendingD [OF kvsys_invD(4) [OF inv] return_put(2)]
  obtain j r where r: "Some (j, r) \<in> set es" "paErr r = OK" using clerk_put_answer(1) [OF return_put(5)] by blast
  then obtain n where "(pdOp pd, r, n) \<in> syPuts s" using return_put(4) by blast
  then have "pdOp pd \<in> set (syLog s)" using kvsys_invD(5) [OF inv] r(2) in_set_takeD [of "pdOp pd" n] unfolding inv_answers_def by blast
  moreover have "opType (pdOp pd) \<noteq> GET" using p(1) return_put(3)
    by (auto simp: PutAppend_op_def Clerk_Put_def Clerk_Append_def Clerk_PutAppendArgs_def GET_def)
  ultimately show ?thesis unfolding return_put(1) using clerk_put_answer(2) [OF return_put(5)]
    by (intro returned_inv [OF inv return_put(2)]) simp_all
next
  case (tick t)
  then show ?thesis using tick_inv [OF inv] by simp
next
  case (invoke c x req)
  then show ?thesis using invoke_inv [OF inv] by simp
next
  case (commit x)
  then show ?thesis using commit_inv [OF inv] by simp
next
  case (answer_get args isLeader n kv)
  then show ?thesis using answer_inv(1) [OF inv answer_get(3,2) refl] by simp
next
  case (answer_put args isLeader n kv)
  then show ?thesis using answer_inv(2) [OF inv answer_put(3,2)] by simp
qed

lemma kvsys_reach_inv: "(kvsys_step sz)\<^sup>*\<^sup>* (kvsys_init n) s \<Longrightarrow> kvsys_inv s"
  by (induction rule: rtranclp_induct) (auto intro: kvsys_init_inv kvsys_step_inv)


section \<open>Histories are linearizable\<close>

text \<open>Where a finished request may take place: after the commands that were there at its call, before those that came after its return.\<close>

definition fn_point :: "kvsys \<Rightarrow> finished \<Rightarrow> nat \<Rightarrow> bool" where
  "fn_point s f p \<longleftrightarrow> 2 * fnMark f < p \<and> p \<le> 2 * fnLen f \<and>
    (opType (fnOp f) = GET \<longrightarrow> (\<exists>n \<le> length (syLog s). p = 2 * n \<and> onOutput (fnRecord f) = OutputVal \<lparr>kvoValue = contents (kv_state (take n (syLog s))) (opKey (fnOp f))\<rparr>)) \<and>
    (opType (fnOp f) \<noteq> GET \<longrightarrow> (\<exists>q. takes_effect (syLog s) q \<and> syLog s ! q = fnOp f \<and> p = 2 * q + 1))"

lemma fn_point_ex:
  assumes inv: "inv_issued s" "inv_log s" and f: "fn_ok s f"
  shows "\<exists>p. fn_point s f p"
proof -
  have after: "fnMark f < n" if "fnOp f \<in> set (take n (syLog s))" for n
  proof (rule ccontr)
    assume "\<not> fnMark f < n"
    then have "set (take n (syLog s)) \<subseteq> set (take (fnMark f) (syLog s))" by (intro set_take_subset_set_take) simp
    then show False using that f unfolding fn_ok_def by blast
  qed
  have len: "fnLen f \<le> length (syLog s)" "fnOp f \<in> set (take (fnLen f) (syLog s))" using f by (simp_all add: fn_ok_def)
  show ?thesis
  proof (cases "opType (fnOp f) = GET")
    case True
    then obtain n where n: "n \<le> fnLen f" "fnOp f \<in> set (take n (syLog s))"
      "onOutput (fnRecord f) = OutputVal \<lparr>kvoValue = contents (kv_state (take n (syLog s))) (opKey (fnOp f))\<rparr>" using f by (auto simp: fn_ok_def)
    then show ?thesis using True after [OF n(2)] len(1) by (intro exI [of _ "2 * n"]) (auto simp: fn_point_def)
  next
    case False
    have "fnOp f \<in> set (syLog s)" using len(2) by (rule in_set_takeD)
    then obtain q where q: "takes_effect (syLog s) q" "syLog s ! q = fnOp f" using first_effect [OF inv] by blast
    have ql: "q < length (syLog s)" using q(1) by (simp add: takes_effect_def)
    have "fnMark f \<le> q" using after [of "Suc q"] q(2) ql by (simp add: take_Suc_conv_app_nth less_Suc_eq_le)
    moreover have "q < fnLen f"
    proof (rule ccontr)
      assume "\<not> q < fnLen f"
      then have "set (take (fnLen f) (syLog s)) \<subseteq> set (take q (syLog s))" by (intro set_take_subset_set_take) simp
      then have "fnOp f \<in> set (take q (syLog s))" using len(2) by blast
      then have "opSeqNum (fnOp f) \<le> kv_seqs (take q (syLog s)) (opClientId (fnOp f))" by (rule last_seqs_ge)
      then show False using q by (simp add: takes_effect_def)
    qed
    ultimately show ?thesis using False q by (intro exI [of _ "2 * q + 1"]) (auto simp: fn_point_def)
  qed
qed

lemma linearizable_finished:
  assumes inv: "inv_issued s" "inv_log s" and dist: "distinct (map fnOp fs)" and ok: "\<forall>f \<in> set fs. fn_ok s f"
    and order: "\<forall>f \<in> set fs. \<forall>g \<in> set fs. onReturn (fnRecord g) < onCall (fnRecord f) \<longrightarrow> fnLen g \<le> fnMark f"
    and all: "\<forall>q. takes_effect (syLog s) q \<and> opType (syLog s ! q) \<noteq> GET \<longrightarrow> syLog s ! q \<in> fnOp ` set fs"
  shows "linearizable kv_store (map fnRecord fs)"
proof -
  have "\<forall>f. \<exists>p. f \<in> set fs \<longrightarrow> fn_point s f p" using fn_point_ex [OF inv] ok by blast
  then obtain P where P: "\<forall>f. f \<in> set fs \<longrightarrow> fn_point s f (P f)" using choice [of "\<lambda>f p. f \<in> set fs \<longrightarrow> fn_point s f p"] by blast
  define pt where "pt i = P (fs ! i)" for i
  have pt: "fn_point s (fs ! i) (pt i)" if "i < length fs" for i unfolding pt_def using P that by simp
  have prec: "pt i < pt j" if h: "i < length fs" "j < length fs" "precedes (map fnRecord fs) i j" for i j
  proof -
    have "onReturn (fnRecord (fs ! i)) < onCall (fnRecord (fs ! j))" using h by (simp add: precedes_def)
    then have "fnLen (fs ! i) \<le> fnMark (fs ! j)" using order h(1,2) nth_mem by blast
    moreover have "pt i \<le> 2 * fnLen (fs ! i)" "2 * fnMark (fs ! j) < pt j" using pt [OF h(1)] pt [OF h(2)] unfolding fn_point_def by blast+
    ultimately show ?thesis by linarith
  qed
  have hit: "\<exists>i < length fs. fnOp (fs ! i) = syLog s ! q \<and> pt i = 2 * q + 1" if h: "takes_effect (syLog s) q" "opType (syLog s ! q) \<noteq> GET" for q
  proof -
    obtain i where i: "i < length fs" "fnOp (fs ! i) = syLog s ! q" using all h by (metis imageE in_set_conv_nth)
    then obtain q' where "takes_effect (syLog s) q'" "syLog s ! q' = fnOp (fs ! i)" "pt i = 2 * q' + 1" using pt [OF i(1)] h(2) unfolding fn_point_def by auto
    then show ?thesis using effect_unique [of "syLog s" q' q] h(1) i by auto
  qed
  have "points_ok (syLog s) (map fnRecord fs) (map fnOp fs) pt" unfolding points_ok_def length_map
  proof (intro conjI allI impI)
    fix i assume i: "i < length fs"
    have "fs ! i \<in> set fs" using i by simp
    then show "kv_match (map fnOp fs ! i) (map fnRecord fs ! i)" using ok i unfolding fn_ok_def by simp
    show "\<exists>n \<le> length (syLog s). pt i = 2 * n \<and> onOutput (map fnRecord fs ! i) = OutputVal \<lparr>kvoValue = contents (kv_state (take n (syLog s))) (opKey (map fnOp fs ! i))\<rparr>"
      if "opType (map fnOp fs ! i) = GET" using pt [OF i] that i unfolding fn_point_def by simp
    show "\<exists>q. takes_effect (syLog s) q \<and> syLog s ! q = map fnOp fs ! i \<and> pt i = 2 * q + 1" if "opType (map fnOp fs ! i) \<noteq> GET"
      using pt [OF i] that i unfolding fn_point_def by simp
    show "pt i < pt j" if "j < length fs" "precedes (map fnRecord fs) i j" for j by (rule prec [OF i that])
  next
    fix q assume "takes_effect (syLog s) q \<and> opType (syLog s ! q) \<noteq> GET"
    then obtain i where "i < length fs" "fnOp (fs ! i) = syLog s ! q" "pt i = 2 * q + 1" using hit by blast
    then show "\<exists>i < length fs. map fnOp fs ! i = syLog s ! q \<and> pt i = 2 * q + 1" by (intro exI [of _ i]) simp
  qed (use dist in simp_all)
  then show ?thesis by (rule points_linearizable)
qed

text \<open>A pending update that is in the log, taken to return now.\<close>

definition as_finished :: "kvsys \<Rightarrow> int \<Rightarrow> finished" where
  "as_finished s c = (let pd = the (syPending s c) in
     \<lparr>fnOp = pdOp pd, fnRecord = recorded (pdReq pd) c (pdStart pd) '''' (syNow s), fnMark = pdMark pd, fnLen = length (syLog s)\<rparr>)"

lemma pending_op_fields:
  assumes "kvsys_inv s" and "syPending s c = Some pd"
  shows "opClientId (pdOp pd) = c" "opSeqNum (pdOp pd) = ckSeqNum (syClerks s c) + 1"
  using pendingD(1) [OF kvsys_invD(4) [OF assms(1)] assms(2)] request_op_fields kvsys_invD(1) [OF assms(1)] by (simp_all add: inv_ids_def)

lemma as_finished_ok:
  assumes inv: "kvsys_inv s" and p: "syPending s c = Some pd" "pdOp pd \<in> set (syLog s)" "opType (pdOp pd) \<noteq> GET"
  shows "fn_ok s (as_finished s c)" "opClientId (fnOp (as_finished s c)) = c" "opSeqNum (fnOp (as_finished s c)) = ckSeqNum (syClerks s c) + 1"
    "onCall (fnRecord (as_finished s c)) \<le> syNow s" "onReturn (fnRecord (as_finished s c)) = syNow s"
    "\<forall>g \<in> set (syDone s). onReturn (fnRecord g) < onCall (fnRecord (as_finished s c)) \<longrightarrow> fnLen g \<le> fnMark (as_finished s c)"
proof -
  note q = pendingD [OF kvsys_invD(4) [OF inv] p(1)]
  have f: "as_finished s c = \<lparr>fnOp = pdOp pd, fnRecord = recorded (pdReq pd) c (pdStart pd) '''' (syNow s), fnMark = pdMark pd, fnLen = length (syLog s)\<rparr>"
    using p(1) by (simp add: as_finished_def)
  have "kv_match (pdOp pd) (recorded (pdReq pd) c (pdStart pd) '''' (syNow s))" unfolding q(1) by (rule request_match)
  then show "fn_ok s (as_finished s c)" unfolding f fn_ok_def using q(2,4,5) p(2,3) by simp
  show "opClientId (fnOp (as_finished s c)) = c" "opSeqNum (fnOp (as_finished s c)) = ckSeqNum (syClerks s c) + 1"
    unfolding f using pending_op_fields [OF inv p(1)] by simp_all
  show "onCall (fnRecord (as_finished s c)) \<le> syNow s" "onReturn (fnRecord (as_finished s c)) = syNow s" unfolding f using q(3) by (simp_all add: recorded_def)
  show "\<forall>g \<in> set (syDone s). onReturn (fnRecord g) < onCall (fnRecord (as_finished s c)) \<longrightarrow> fnLen g \<le> fnMark (as_finished s c)"
    unfolding f using q(6) by (simp add: recorded_def)
qed

lemma doneD:
  assumes "kvsys_inv s" and "f \<in> set (syDone s)"
  shows "fn_ok s f" "opSeqNum (fnOp f) \<le> ckSeqNum (syClerks s (opClientId (fnOp f)))" "onCall (fnRecord f) \<le> onReturn (fnRecord f)"
    "onReturn (fnRecord f) \<le> syNow s" "\<forall>g \<in> set (syDone s). onReturn (fnRecord g) < onCall (fnRecord f) \<longrightarrow> fnLen g \<le> fnMark f"
  using kvsys_invD(6) [OF assms(1)] assms(2) unfolding inv_done_def by blast+

lemma kvsys_linearizable:
  assumes inv: "kvsys_inv s"
  shows "\<exists>cs. (\<forall>c \<in> set cs. syPending s c \<noteq> None) \<and> linearizable kv_store (syHistory s @ map (\<lambda>c. fnRecord (as_finished s c)) cs)"
proof -
  note i = kvsys_invD [OF inv]
  define C where "C = {c. \<exists>pd. syPending s c = Some pd \<and> pdOp pd \<in> set (syLog s) \<and> opType (pdOp pd) \<noteq> GET}"
  have "C \<subseteq> opClientId ` set (syLog s)" unfolding C_def using pending_op_fields(1) [OF inv] by force
  then have "finite C" by (rule finite_subset) simp
  then obtain cs where cs: "set cs = C" "distinct cs" using finite_distinct_list by blast
  let ?fs = "syDone s @ map (as_finished s) cs"
  have new: "fn_ok s (as_finished s c)" "opClientId (fnOp (as_finished s c)) = c" "opSeqNum (fnOp (as_finished s c)) = ckSeqNum (syClerks s c) + 1"
    "onCall (fnRecord (as_finished s c)) \<le> syNow s" "onReturn (fnRecord (as_finished s c)) = syNow s"
    "\<forall>g \<in> set (syDone s). onReturn (fnRecord g) < onCall (fnRecord (as_finished s c)) \<longrightarrow> fnLen g \<le> fnMark (as_finished s c)" if "c \<in> set cs" for c
    using as_finished_ok [OF inv] that unfolding cs(1) C_def by blast+
  have mem: "f \<in> set (syDone s) \<or> (\<exists>c \<in> set cs. f = as_finished s c)" if "f \<in> set ?fs" for f using that by auto
  have apart: "fnOp f \<noteq> fnOp (as_finished s c)" if "f \<in> set (syDone s)" "c \<in> set cs" for f c
    using doneD(2) [OF inv that(1)] new(2,3) [OF that(2)] by force
  have "inj_on (\<lambda>c. fnOp (as_finished s c)) (set cs)" using new(2) by (intro inj_onI) metis
  then have "distinct (map fnOp ?fs)" using i(6) cs(2) apart unfolding inv_done_def by (auto simp: distinct_map comp_def)
  moreover have "\<forall>f \<in> set ?fs. fn_ok s f" using mem doneD(1) [OF inv] new(1) by blast
  moreover have "\<forall>f \<in> set ?fs. \<forall>g \<in> set ?fs. onReturn (fnRecord g) < onCall (fnRecord f) \<longrightarrow> fnLen g \<le> fnMark f"
  proof (intro ballI impI)
    fix f g assume f: "f \<in> set ?fs" and g: "g \<in> set ?fs" and lt: "onReturn (fnRecord g) < onCall (fnRecord f)"
    have "onCall (fnRecord f) \<le> syNow s" using mem [OF f] doneD(3,4) [OF inv] new(4) by force
    then have "g \<in> set (syDone s)" using mem [OF g] lt new(5) by force
    then show "fnLen g \<le> fnMark f" using mem [OF f] lt doneD(5) [OF inv] new(6) by blast
  qed
  moreover have "\<forall>q. takes_effect (syLog s) q \<and> opType (syLog s ! q) \<noteq> GET \<longrightarrow> syLog s ! q \<in> fnOp ` set ?fs"
  proof (intro allI impI)
    fix q assume q: "takes_effect (syLog s) q \<and> opType (syLog s ! q) \<noteq> GET"
    then have l: "syLog s ! q \<in> set (syLog s)" by (simp add: takes_effect_def)
    then have "syLog s ! q \<in> syIssued s" using i(3) by (auto simp: inv_log_def)
    from issuedD(4) [OF i(2) this] show "syLog s ! q \<in> fnOp ` set ?fs"
    proof
      assume "\<exists>pd. syPending s (opClientId (syLog s ! q)) = Some pd \<and> pdOp pd = syLog s ! q"
      then obtain p where p: "syPending s (opClientId (syLog s ! q)) = Some p" "pdOp p = syLog s ! q" by blast
      then have "opClientId (syLog s ! q) \<in> set cs" using q l unfolding cs(1) C_def by auto
      moreover have "fnOp (as_finished s (opClientId (syLog s ! q))) = syLog s ! q" using p by (simp add: as_finished_def)
      ultimately show ?thesis by (metis Un_iff image_eqI list.set_map set_append)
    qed auto
  qed
  ultimately have "linearizable kv_store (map fnRecord ?fs)" by (rule linearizable_finished [OF i(2,3)])
  then show ?thesis unfolding cs(1) C_def using cs(1) by (intro exI [of _ cs]) (auto simp: syHistory_def comp_def C_def)
qed


text \<open>One clerk appends; its request is committed twice, as after a retry, and answered.\<close>

definition one_append :: kvsys where
  "one_append = \<lparr>syLog = [append_x, append_x], syClerks = (MakeClerk 3)(7 := (MakeClerk 3 7)\<lparr>ckSeqNum := 1\<rparr>), syPending = (\<lambda>_. None),
     syIssued = {append_x}, syGets = {}, syPuts = {(append_x, \<lparr>paErr = OK\<rparr>, 2)}, syNow = 0,
     syDone = [\<lparr>fnOp = append_x, fnRecord = recorded (RAppend ''k'' ''x'') 7 0 '''' 0, fnMark = 0, fnLen = 2\<rparr>]\<rparr>"

lemma one_append_reached: "(kvsys_step sz)\<^sup>*\<^sup>* (kvsys_init 3) one_append"
proof -
  let ?pd = "\<lparr>pdReq = RAppend ''k'' ''x'', pdOp = append_x, pdStart = 0, pdMark = 0\<rparr>"
  let ?s1 = "(kvsys_init 3)\<lparr>syPending := [7 \<mapsto> ?pd], syIssued := {append_x}\<rparr>"
  let ?s2 = "?s1\<lparr>syLog := [append_x]\<rparr>" and ?s3 = "?s1\<lparr>syLog := [append_x, append_x]\<rparr>"
  let ?s4 = "?s3\<lparr>syPuts := {(append_x, \<lparr>paErr = OK\<rparr>, 2)}\<rparr>"
  have x: "append_x = request_op (MakeClerk 3 7) (RAppend ''k'' ''x'')"
    by (simp add: append_x_def MakeClerk_def PutAppend_op_def Clerk_Append_def Clerk_PutAppendArgs_def APPEND_def)
  have s1: "kvsys_step sz (kvsys_init 3) ?s1"
    using kvsys_step.invoke [of "kvsys_init 3" 7 append_x "RAppend ''k'' ''x''" sz] x by (simp add: kvsys_init_def)
  have s2: "kvsys_step sz ?s1 ?s2" using kvsys_step.commit [of append_x ?s1 sz] by (simp add: kvsys_init_def)
  have s3: "kvsys_step sz ?s2 ?s3" using kvsys_step.commit [of append_x ?s2 sz] by (simp add: kvsys_init_def)
  let ?kv = "applyOp append_x (applyOp append_x kv_boot)"
  have "operate append_x ?kv = (Some True, ?kv)"
    by (simp add: operate_def applyOp_def getClientStatus_def kv_boot_def append_x_def cs_init_def cs_done_def updateSeqNum_def Let_def APPEND_def PUT_def)
  then have "answers sz [append_x, append_x] append_x True 2 ?kv" unfolding answers_def using kv_retry_run by blast
  moreover have "append_x = PutAppend_op (Clerk_Append ''k'' ''x'' (MakeClerk 3 7))" using x by simp
  ultimately have s4: "kvsys_step sz ?s3 ?s4"
    using kvsys_step.answer_put [of "Clerk_Append ''k'' ''x'' (MakeClerk 3 7)" ?s3 sz True 2 ?kv] by (simp add: kvsys_init_def PutAppend_reply_def)
  have "Clerk_PutAppend [Some (0, \<lparr>paErr = OK\<rparr>)] (MakeClerk 3 7) = Inr (Some (), (MakeClerk 3 7)\<lparr>ckSeqNum := 1\<rparr>)"
    by (simp add: Clerk_PutAppend_def call_def nextSeq_def MakeClerk_def Let_def)
  then have "kvsys_step sz ?s4 (finish 7 ?pd ((MakeClerk 3 7)\<lparr>ckSeqNum := 1\<rparr>) '''' ?s4)"
    by (intro kvsys_step.return_put [of _ _ _ "''k''" "''x''" "[Some (0, \<lparr>paErr = OK\<rparr>)]"]) (auto simp: kvsys_init_def)
  moreover have "finish 7 ?pd ((MakeClerk 3 7)\<lparr>ckSeqNum := 1\<rparr>) '''' ?s4 = one_append"
    by (simp add: finish_def one_append_def kvsys_init_def fun_eq_iff)
  ultimately have s5: "kvsys_step sz ?s4 one_append" by simp
  note step = converse_rtranclp_into_rtranclp [of "kvsys_step sz"]
  show ?thesis by (rule step [OF s1 step [OF s2 step [OF s3 step [OF s4 r_into_rtranclp [of "kvsys_step sz", OF s5]]]]])
qed

text \<open>C2: The key/value service is linearizable. Whatever the network does with requests and answers, whichever replica
  answers and whenever the log grows, the operations that returned can be put into one order that respects real
  time and in which the replies are those of one store; requests that have not returned yet
  may be part of the order, as if they returned now.\<close>

theorem kv_linearizable:
  assumes "(kvsys_step sz)\<^sup>*\<^sup>* (kvsys_init n) s"
  shows "\<exists>extra. (\<forall>r \<in> set extra. \<exists>c pd. syPending s c = Some pd \<and> r = recorded (pdReq pd) c (pdStart pd) '''' (syNow s)) \<and>
    linearizable kv_store (syHistory s @ extra)"
proof -
  obtain cs where cs: "\<forall>c \<in> set cs. syPending s c \<noteq> None" "linearizable kv_store (syHistory s @ map (\<lambda>c. fnRecord (as_finished s c)) cs)"
    using kvsys_linearizable [OF kvsys_reach_inv [OF assms]] by blast
  then show ?thesis by (intro exI [of _ "map (\<lambda>c. fnRecord (as_finished s c)) cs"]) (fastforce simp: as_finished_def Let_def)
qed

theorem kv_linearizable_witness: "linearizable kv_store (syHistory one_append) \<and> syHistory one_append \<noteq> []"
proof -
  obtain extra where "\<forall>r \<in> set extra. False" "linearizable kv_store (syHistory one_append @ extra)"
    using kv_linearizable [OF one_append_reached] by (auto simp: one_append_def)
  then show ?thesis by (auto simp: syHistory_def one_append_def)
qed

text \<open>C12: The tests accept every run of the service. Once all requests have returned and the history is not empty,
  the call the tests make, \<^verbatim>\<open>CheckOperationsVerbose\<close> with \<^verbatim>\<open>KvModel\<close>, returns on the recorded history, never with
  \<^verbatim>\<open>Illegal\<close>, and with \<^verbatim>\<open>Unknown\<close> only if a timeout was given; \<^verbatim>\<open>CheckOperations\<close>, which has no timeout,
  returns true and can return nothing else.\<close>

theorem kv_histories_accepted:
  assumes "(kvsys_step sz)\<^sup>*\<^sup>* (kvsys_init n) s" and "\<forall>c. syPending s c = None" and "syHistory s \<noteq> []" and "length (syHistory s) < 2 ^ 63"
    and "is_time_sort (envSort env)"
  shows "(\<exists>out. CheckOperationsVerbose env KvModel (syHistory s) timeout out) \<and>
    (\<forall>r info. CheckOperationsVerbose env KvModel (syHistory s) timeout (r, info) \<longrightarrow> r = Ok \<or> r = Unknown \<and> 0 < timeout) \<and>
    (CheckOperations env KvModel (syHistory s) b \<longleftrightarrow> b)"
proof -
  have inv: "kvsys_inv s" by (rule kvsys_reach_inv [OF assms(1)])
  obtain cs where cs: "\<forall>c \<in> set cs. syPending s c \<noteq> None" "linearizable kv_store (syHistory s @ map (\<lambda>c. fnRecord (as_finished s c)) cs)"
    using kvsys_linearizable [OF inv] by blast
  have "cs = []" using cs(1) assms(2) by (cases cs) auto
  then have lin: "linearizable kv_store (syHistory s)" using cs(2) by simp
  have hist: "kv_history (syHistory s)" unfolding kv_history_def syHistory_def
    using doneD(1,3) [OF inv] by (fastforce simp: fn_ok_def kv_match_def)
  have res: "fst out = Ok \<or> fst out = Unknown \<and> 0 < t" if "checkOperations env KvModel (syHistory s) v t out" for v t out
    using kv_result [OF hist assms(4,5) that] lin by (cases "fst out") auto
  have ret: "\<exists>out. checkOperations env KvModel (syHistory s) v t out" for v t
    using kv_returns [OF hist assms(3,4,5)] by blast
  have "CheckOperations env KvModel (syHistory s) b \<longleftrightarrow> b"
    using res [of False 0] ret [of False 0] unfolding CheckOperations_def by fastforce
  then show ?thesis using res [of True timeout] ret [of True timeout] unfolding CheckOperationsVerbose_def by fastforce
qed

theorem kv_histories_accepted_witness:
  "CheckOperations plain_env KvModel (syHistory one_append) True \<and>
   (\<exists>info. CheckOperationsVerbose plain_env KvModel (syHistory one_append) 0 (Ok, info)) \<and>
   (\<forall>info. \<not> CheckOperationsVerbose plain_env KvModel (syHistory one_append) 1 (Illegal, info))"
proof -
  have h: "\<forall>c. syPending one_append c = None" "syHistory one_append \<noteq> []" "length (syHistory one_append) < 2 ^ 63"
    by (simp_all add: one_append_def syHistory_def)
  have "is_time_sort (envSort plain_env)" using is_time_sort_time_sort [where 'a = kv_any] by simp
  note acc = kv_histories_accepted [OF one_append_reached h this]
  from acc [of 0 True] acc [of 1 True] show ?thesis by fastforce
qed

end
