(* ===== verification/Rpc_Calls.thy ===== *)
theory Rpc_Calls
  imports Rpc_Network
begin

text \<open>
  Calls over the network of \<^verbatim>\<open>labrpc/labrpc.go\<close>: \<^verbatim>\<open>ClientEnd.Call\<close>, the goroutine of \<^verbatim>\<open>MakeNetwork\<close>, \<^verbatim>\<open>processReq\<close> and the goroutine
  that runs the handler, as steps that interleave with each other and with the operations of the test. Shown:
  a request is executed at most once, and exactly once with its own arguments and reply if
  \<^verbatim>\<open>Call\<close> returns true; no reply leaves a server that was deleted before it had finished; a call can always go on
  unless its handler does not return; a reliable network loses nothing; and the counters.
\<close>

section \<open>State\<close>

text \<open>The values sent are of types that pass the check of \<^verbatim>\<open>Lab_Gob\<close>, so that encoding and decoding are those of \<^verbatim>\<open>encoding/gob\<close>.\<close>

record replyMsg =
  rpOk :: bool
  rpReply :: bytes

definition failed :: replyMsg where
  "failed = \<lparr>rpOk = False, rpReply = []\<rparr>"

text \<open>
  Where a call is: from the \<^verbatim>\<open>select\<close> of \<^verbatim>\<open>Call\<close> through \<^verbatim>\<open>processReq\<close>, which keeps the name of the server, the server and two flags
  read from the network, back to \<^verbatim>\<open>Call\<close>. \<^verbatim>\<open>Refused\<close> and \<^verbatim>\<open>Returned\<close> are its ends, with the value of the reply if it is true.
\<close>

datatype ('n, 'v) rpc_stage =
    Sending
  | Accepted
  | Chosen 'n nat bool bool
  | Waiting_reply 'n nat bool bool
  | Left_loop 'n nat bool bool "bytes option"
  | Delayed bytes
  | TimingOut
  | Sent replyMsg
  | Refused
  | Returned_call "'v option"

text \<open>The goroutine that runs \<^verbatim>\<open>server.dispatch(req)\<close>.\<close>

datatype 'v handling = NotStarted | Started nat | Handling nat string string 'v | Handled bytes

record ('e, 'n, 'v) rcall =
  rcEnd :: 'e
  rcMeth :: string
  rcArgs :: 'v
  rcReply :: 'v
  rcBytes :: bytes
  rcStage :: "('n, 'v) rpc_stage"
  rcHandler :: "'v handling"

text \<open>For the proofs: each execution of a handler, and whether its server was in the network when it ended.\<close>

record 'v exec =
  exCall :: nat
  exServer :: nat
  exService :: string
  exMethod :: string
  exArgs :: 'v
  exReply :: 'v
  exLive :: bool

record ('e, 'n, 'v) net =
  ntNetwork :: "('e, 'n) Network"
  ntServers :: "Server list"
  ntAdded :: "nat set"
  ntCalls :: "('e, 'n, 'v) rcall list"
  ntExecs :: "'v exec list"
  ntCrash :: "go_error option"

definition net_init :: "('e, 'n, 'v) net" where
  "net_init = \<lparr>ntNetwork = MakeNetwork, ntServers = [], ntAdded = {}, ntCalls = [], ntExecs = [], ntCrash = None\<rparr>"

section \<open>Steps\<close>

definition set_stage :: "nat \<Rightarrow> ('n, 'v) rpc_stage \<Rightarrow> ('e, 'n, 'v) net \<Rightarrow> ('e, 'n, 'v) net" where
  "set_stage i st s = s\<lparr>ntCalls := (ntCalls s)[i := (ntCalls s ! i)\<lparr>rcStage := st\<rparr>]\<rparr>"

definition set_handler :: "nat \<Rightarrow> 'v handling \<Rightarrow> ('e, 'n, 'v) net \<Rightarrow> ('e, 'n, 'v) net" where
  "set_handler i h s = s\<lparr>ntCalls := (ntCalls s)[i := (ntCalls s ! i)\<lparr>rcHandler := h\<rparr>]\<rparr>"

definition crash :: "go_error \<Rightarrow> ('e, 'n, 'v) net \<Rightarrow> ('e, 'n, 'v) net" where
  "crash e s = s\<lparr>ntCrash := Some e\<rparr>"

text \<open>\<^verbatim>\<open>Call\<close> up to the \<^verbatim>\<open>select\<close>.\<close>

definition Call_begin :: "'v gob \<Rightarrow> 'e \<Rightarrow> string \<Rightarrow> 'v \<Rightarrow> 'v \<Rightarrow> ('e, 'n, 'v) net \<Rightarrow> ('e, 'n, 'v) net" where
  "Call_begin g e svcMeth args reply s =
     (case gobEncode g args of
        None \<Rightarrow> crash Panicked s
      | Some b \<Rightarrow> s\<lparr>ntCalls := ntCalls s @ [\<lparr>rcEnd = e, rcMeth = svcMeth, rcArgs = args, rcReply = reply, rcBytes = b,
                                             rcStage = Sending, rcHandler = NotStarted\<rparr>]\<rparr>)"

text \<open>The goroutine of \<^verbatim>\<open>MakeNetwork\<close> receives a request.\<close>

definition accept :: "nat \<Rightarrow> ('e, 'n, 'v) net \<Rightarrow> ('e, 'n, 'v) net" where
  "accept i s =
     (let rn = ntNetwork s in
      set_stage i Accepted (s\<lparr>ntNetwork := rn\<lparr>rnCount := rnCount rn + 1, rnBytes := rnBytes rn + of_nat (length (rcBytes (ntCalls s ! i)))\<rparr>\<rparr>))"

text \<open>\<^verbatim>\<open>processReq\<close>: the choice of the server, and what follows the loop.\<close>

definition route :: "nat \<Rightarrow> ('e, 'n, 'v) net \<Rightarrow> ('e, 'n, 'v) net" where
  "route i s =
     set_stage i (case readEndnameInfo (rcEnd (ntCalls s ! i)) (ntNetwork s) of
         (True, Some servername, Some server, reliable, longreordering) \<Rightarrow> Chosen servername server reliable longreordering
       | _ \<Rightarrow> TimingOut) s"

definition send_reply :: "nat \<Rightarrow> bytes \<Rightarrow> ('e, 'n, 'v) net \<Rightarrow> ('e, 'n, 'v) net" where
  "send_reply i b s =
     (let rn = ntNetwork s in
      set_stage i (Sent \<lparr>rpOk = True, rpReply = b\<rparr>) (s\<lparr>ntNetwork := rn\<lparr>rnBytes := rnBytes rn + of_nat (length b)\<rparr>\<rparr>))"

definition finish_request :: "nat \<Rightarrow> bool \<Rightarrow> bool \<Rightarrow> ('e, 'n, 'v) net \<Rightarrow> ('e, 'n, 'v) net" where
  "finish_request i lost late s =
     (case rcStage (ntCalls s ! i) of
        Left_loop n a reliable longreordering reply \<Rightarrow>
          (let serverDead = isServerDead (rcEnd (ntCalls s ! i)) n a (ntNetwork s) in
           case reply of
             None \<Rightarrow> set_stage i (Sent failed) s
           | Some b \<Rightarrow>
               if serverDead then set_stage i (Sent failed) s
               else if \<not> reliable \<and> lost then set_stage i (Sent failed) s
               else if longreordering \<and> late then set_stage i (Delayed b) s
               else send_reply i b s)
      | _ \<Rightarrow> s)"

text \<open>The goroutine of the handler: \<^verbatim>\<open>dispatch\<close> of the server and of the service, which ignore that arguments cannot be decoded.\<close>

definition decoded :: "'v gob \<Rightarrow> bytes \<Rightarrow> 'v \<Rightarrow> bool" where
  "decoded g b v \<longleftrightarrow> (case gobDecode g b (gobZero g) of Some w \<Rightarrow> v = w | None \<Rightarrow> True)"

definition encoded :: "'v gob \<Rightarrow> 'v \<Rightarrow> bytes \<Rightarrow> bool" where
  "encoded g v b \<longleftrightarrow> (case gobEncode g v of Some c \<Rightarrow> b = c | None \<Rightarrow> True)"

definition start_handler :: "nat \<Rightarrow> nat \<Rightarrow> 'v \<Rightarrow> ('e, 'n, 'v) net \<Rightarrow> ('e, 'n, 'v) net" where
  "start_handler i a v s =
     (case Server_dispatch (rcMeth (ntCalls s ! i)) (ntServers s ! a) of (rs, r) \<Rightarrow>
      let s1 = s\<lparr>ntServers := (ntServers s)[a := rs]\<rparr> in
      case r of
        Inl e \<Rightarrow> crash e s1
      | Inr (svc, meth) \<Rightarrow> set_handler i (Handling a svc meth v) s1)"

definition end_handler :: "nat \<Rightarrow> nat \<Rightarrow> string \<Rightarrow> string \<Rightarrow> 'v \<Rightarrow> 'v \<Rightarrow> bytes \<Rightarrow> ('e, 'n, 'v) net \<Rightarrow> ('e, 'n, 'v) net" where
  "end_handler i a svc meth v w b s =
     set_handler i (Handled b) (s\<lparr>ntExecs := ntExecs s @ [\<lparr>exCall = i, exServer = a, exService = svc, exMethod = meth, exArgs = v, exReply = w,
       exLive = (\<exists>n. rnServers (ntNetwork s) n = Some a)\<rparr>]\<rparr>)"

text \<open>\<^verbatim>\<open>Call\<close> after it received the answer.\<close>

definition Call_end :: "'v gob \<Rightarrow> nat \<Rightarrow> ('e, 'n, 'v) net \<Rightarrow> ('e, 'n, 'v) net" where
  "Call_end g i s =
     (case rcStage (ntCalls s ! i) of
        Sent rep \<Rightarrow>
          if rpOk rep
          then (case gobDecode g (rpReply rep) (rcReply (ntCalls s ! i)) of
                  None \<Rightarrow> crash DecodeFailed s
                | Some v \<Rightarrow> set_stage i (Returned_call (Some v)) s)
          else set_stage i (Returned_call None) s
      | _ \<Rightarrow> s)"

abbreviation at_stage :: "nat \<Rightarrow> ('e, 'n, 'v) net \<Rightarrow> ('n, 'v) rpc_stage \<Rightarrow> bool" where
  "at_stage i s st \<equiv> i < length (ntCalls s) \<and> rcStage (ntCalls s ! i) = st"

abbreviation handler_is :: "nat \<Rightarrow> ('e, 'n, 'v) net \<Rightarrow> 'v handling \<Rightarrow> bool" where
  "handler_is i s h \<equiv> i < length (ntCalls s) \<and> rcHandler (ntCalls s ! i) = h"

text \<open>
  A step of a call, or of the goroutine that accepts requests. A handler is a relation between the server, the service, the method, the arguments and the reply. After
  \<^verbatim>\<open>Cleanup\<close> both cases of each \<^verbatim>\<open>select\<close> may be taken.
\<close>

type_synonym 'v handlers = "nat \<Rightarrow> string \<Rightarrow> string \<Rightarrow> 'v \<Rightarrow> 'v \<Rightarrow> bool"

inductive rpc_step :: "'v gob \<Rightarrow> 'v handlers \<Rightarrow> ('e, 'n, 'v) net \<Rightarrow> ('e, 'n, 'v) net \<Rightarrow> bool" for g handles where
  call: "rnEnds (ntNetwork s) e \<noteq> None \<Longrightarrow> rpc_step g handles s (Call_begin g e svcMeth args reply s)"
| stop: "rnDone (ntNetwork s) \<Longrightarrow> rpc_step g handles s (s\<lparr>ntNetwork := (ntNetwork s)\<lparr>rnRunning := False\<rparr>\<rparr>)"
| accept: "at_stage i s Sending \<Longrightarrow> rnRunning (ntNetwork s) \<Longrightarrow> rpc_step g handles s (accept i s)"
| refuse: "at_stage i s Sending \<Longrightarrow> rnDone (ntNetwork s) \<Longrightarrow> rpc_step g handles s (set_stage i Refused s)"
| route: "at_stage i s Accepted \<Longrightarrow> rpc_step g handles s (route i s)"
| drop: "at_stage i s (Chosen n a False lr) \<Longrightarrow> rpc_step g handles s (set_stage i (Sent failed) s)"
| execute: "at_stage i s (Chosen n a rl lr) \<Longrightarrow> rpc_step g handles s (set_stage i (Waiting_reply n a rl lr) (set_handler i (Started a) s))"
| dispatch: "handler_is i s (Started a) \<Longrightarrow> decoded g (rcBytes (ntCalls s ! i)) v \<Longrightarrow> rpc_step g handles s (start_handler i a v s)"
| handle: "handler_is i s (Handling a svc meth v) \<Longrightarrow> handles a svc meth v w \<Longrightarrow> encoded g w b \<Longrightarrow>
    rpc_step g handles s (end_handler i a svc meth v w b s)"
| reply: "at_stage i s (Waiting_reply n a rl lr) \<Longrightarrow> handler_is i s (Handled b) \<Longrightarrow> rpc_step g handles s (set_stage i (Left_loop n a rl lr (Some b)) s)"
| dead: "at_stage i s (Waiting_reply n a rl lr) \<Longrightarrow> isServerDead (rcEnd (ntCalls s ! i)) n a (ntNetwork s) \<Longrightarrow>
    rpc_step g handles s (set_stage i (Left_loop n a rl lr None) s)"
| finish: "at_stage i s (Left_loop n a rl lr r) \<Longrightarrow> rpc_step g handles s (finish_request i lost late s)"
| delayed: "at_stage i s (Delayed b) \<Longrightarrow> rpc_step g handles s (send_reply i b s)"
| timeout: "at_stage i s TimingOut \<Longrightarrow> rpc_step g handles s (set_stage i (Sent failed) s)"
| return: "at_stage i s (Sent rep) \<Longrightarrow> rpc_step g handles s (Call_end g i s)"

text \<open>An operation of the test; a server is added to the network once.\<close>

inductive admin_step :: "('e, 'n, 'v) net \<Rightarrow> ('e, 'n, 'v) net \<Rightarrow> bool" where
  Cleanup: "admin_step s (s\<lparr>ntNetwork := Cleanup (ntNetwork s)\<rparr>)"
| Reliable: "admin_step s (s\<lparr>ntNetwork := Reliable yes (ntNetwork s)\<rparr>)"
| LongReordering: "admin_step s (s\<lparr>ntNetwork := LongReordering yes (ntNetwork s)\<rparr>)"
| LongDelays: "admin_step s (s\<lparr>ntNetwork := LongDelays yes (ntNetwork s)\<rparr>)"
| MakeEnd: "MakeEnd e (ntNetwork s) = Inr (ce, rn) \<Longrightarrow> admin_step s (s\<lparr>ntNetwork := rn\<rparr>)"
| MakeEnd_again: "MakeEnd e (ntNetwork s) = Inl err \<Longrightarrow> admin_step s (crash err s)"
| MakeServer: "admin_step s (s\<lparr>ntServers := ntServers s @ [MakeServer]\<rparr>)"
| AddService: "a < length (ntServers s) \<Longrightarrow> admin_step s (s\<lparr>ntServers := (ntServers s)[a := AddService svc (ntServers s ! a)]\<rparr>)"
| AddServer: "a < length (ntServers s) \<Longrightarrow> a \<notin> ntAdded s \<Longrightarrow>
    admin_step s (s\<lparr>ntNetwork := AddServer n a (ntNetwork s), ntAdded := insert a (ntAdded s)\<rparr>)"
| DeleteServer: "admin_step s (s\<lparr>ntNetwork := DeleteServer n (ntNetwork s)\<rparr>)"
| Connect: "admin_step s (s\<lparr>ntNetwork := Connect e n (ntNetwork s)\<rparr>)"
| Enable: "admin_step s (s\<lparr>ntNetwork := Enable e yes (ntNetwork s)\<rparr>)"

text \<open>The process runs until a panic or a fatal error.\<close>

definition net_step :: "'v gob \<Rightarrow> 'v handlers \<Rightarrow> ('e, 'n, 'v) net \<Rightarrow> ('e, 'n, 'v) net \<Rightarrow> bool" where
  "net_step g handles s s' \<longleftrightarrow> ntCrash s = None \<and> (rpc_step g handles s s' \<or> admin_step s s')"

section \<open>The invariant\<close>

definition execs_of :: "nat \<Rightarrow> ('e, 'n, 'v) net \<Rightarrow> 'v exec list" where
  "execs_of i s = filter (\<lambda>x. exCall x = i) (ntExecs s)"

text \<open>An execution belongs to a call and ended with the bytes of a reply.\<close>

definition exec_ok :: "'v gob \<Rightarrow> 'v handlers \<Rightarrow> ('e, 'n, 'v) rcall \<Rightarrow> 'v exec \<Rightarrow> bytes \<Rightarrow> bool" where
  "exec_ok g handles c x b \<longleftrightarrow> split_method (rcMeth c) = Inr (exService x, exMethod x) \<and> decoded g (rcBytes c) (exArgs x) \<and>
     handles (exServer x) (exService x) (exMethod x) (exArgs x) (exReply x) \<and> encoded g (exReply x) b"

fun hand_inv :: "'v gob \<Rightarrow> 'v handlers \<Rightarrow> ('e, 'n, 'v) rcall \<Rightarrow> 'v exec list \<Rightarrow> 'v handling \<Rightarrow> bool" where
  "hand_inv g handles c E (Handling a svc meth v) \<longleftrightarrow> E = [] \<and> split_method (rcMeth c) = Inr (svc, meth) \<and> decoded g (rcBytes c) v"
| "hand_inv g handles c E (Handled b) \<longleftrightarrow> (\<exists>x. E = [x] \<and> exec_ok g handles c x b)"
| "hand_inv g handles c E _ \<longleftrightarrow> E = []"

fun on_server :: "nat \<Rightarrow> 'v exec list \<Rightarrow> 'v handling \<Rightarrow> bool" where
  "on_server a E NotStarted \<longleftrightarrow> False"
| "on_server a E (Started a') \<longleftrightarrow> a' = a"
| "on_server a E (Handling a' svc meth v) \<longleftrightarrow> a' = a"
| "on_server a E (Handled b) \<longleftrightarrow> (\<forall>x \<in> set E. exServer x = a)"

abbreviation all_live :: "'v exec list \<Rightarrow> bool" where
  "all_live E \<equiv> \<forall>x \<in> set E. exLive x"

fun stage_inv :: "'v gob \<Rightarrow> ('n \<Rightarrow> nat option) \<Rightarrow> nat set \<Rightarrow> 'v \<Rightarrow> 'v exec list \<Rightarrow> 'v handling \<Rightarrow> ('n, 'v) rpc_stage \<Rightarrow> bool" where
  "stage_inv g reg added old E h (Chosen n a rl lr) \<longleftrightarrow> h = NotStarted \<and> a \<in> added"
| "stage_inv g reg added old E h (Waiting_reply n a rl lr) \<longleftrightarrow> on_server a E h \<and> a \<in> added \<and> (reg n = Some a \<longrightarrow> all_live E)"
| "stage_inv g reg added old E h (Left_loop n a rl lr r) \<longleftrightarrow> on_server a E h \<and> a \<in> added \<and> (reg n = Some a \<longrightarrow> all_live E) \<and>
     (\<forall>b. r = Some b \<longrightarrow> h = Handled b)"
| "stage_inv g reg added old E h (Delayed b) \<longleftrightarrow> h = Handled b \<and> all_live E"
| "stage_inv g reg added old E h (Sent rep) \<longleftrightarrow> (rpOk rep \<longrightarrow> h = Handled (rpReply rep) \<and> all_live E)"
| "stage_inv g reg added old E h (Returned_call (Some v)) \<longleftrightarrow> (\<exists>b. h = Handled b \<and> all_live E \<and> gobDecode g b old = Some v)"
| "stage_inv g reg added old E h (Returned_call None) \<longleftrightarrow> True"
| "stage_inv g reg added old E h _ \<longleftrightarrow> h = NotStarted"

definition call_inv :: "'v gob \<Rightarrow> 'v handlers \<Rightarrow> ('n \<Rightarrow> nat option) \<Rightarrow> nat set \<Rightarrow> 'v exec list \<Rightarrow> ('e, 'n, 'v) rcall \<Rightarrow> bool" where
  "call_inv g handles reg added E c \<longleftrightarrow> gobEncode g (rcArgs c) = Some (rcBytes c) \<and> hand_inv g handles c E (rcHandler c) \<and>
     stage_inv g reg added (rcReply c) E (rcHandler c) (rcStage c)"

definition net_inv :: "'v gob \<Rightarrow> 'v handlers \<Rightarrow> ('e, 'n, 'v) net \<Rightarrow> bool" where
  "net_inv g handles s \<longleftrightarrow>
     (\<forall>i < length (ntCalls s). call_inv g handles (rnServers (ntNetwork s)) (ntAdded s) (execs_of i s) (ntCalls s ! i)) \<and>
     (\<forall>x \<in> set (ntExecs s). exCall x < length (ntCalls s)) \<and> ran (rnServers (ntNetwork s)) \<subseteq> ntAdded s \<and>
     ntAdded s \<subseteq> {..<length (ntServers s)} \<and> (rnRunning (ntNetwork s) \<or> rnDone (ntNetwork s))"

lemma net_inv_init: "net_inv g handles net_init"
  by (simp add: net_inv_def net_init_def MakeNetwork_def)

lemma execs_of_nil: "net_inv g handles s \<Longrightarrow> execs_of (length (ntCalls s)) s = []"
  by (auto simp: net_inv_def execs_of_def filter_empty_conv)

lemma net_invD:
  assumes "net_inv g handles s" and "i < length (ntCalls s)"
  shows "gobEncode g (rcArgs (ntCalls s ! i)) = Some (rcBytes (ntCalls s ! i))"
    "hand_inv g handles (ntCalls s ! i) (execs_of i s) (rcHandler (ntCalls s ! i))"
    "stage_inv g (rnServers (ntNetwork s)) (ntAdded s) (rcReply (ntCalls s ! i)) (execs_of i s) (rcHandler (ntCalls s ! i)) (rcStage (ntCalls s ! i))"
  using assms by (auto simp: net_inv_def call_inv_def)

lemma hand_inv_cong: "rcMeth c' = rcMeth c \<Longrightarrow> rcBytes c' = rcBytes c \<Longrightarrow> hand_inv g handles c' E h = hand_inv g handles c E h"
  by (cases h) (simp_all add: exec_ok_def)

text \<open>One call goes on, and nothing else that the invariant is about changes.\<close>

lemma net_inv_call:
  assumes inv: "net_inv g handles s" and i: "i < length (ntCalls s)"
    and c: "call_inv g handles (rnServers (ntNetwork s)) (ntAdded s) (execs_of i s') c"
    and s': "ntCalls s' = (ntCalls s)[i := c]" "rnServers (ntNetwork s') = rnServers (ntNetwork s)" "ntAdded s' = ntAdded s"
      "length (ntServers s') = length (ntServers s)" "rnRunning (ntNetwork s') = rnRunning (ntNetwork s)" "rnDone (ntNetwork s') = rnDone (ntNetwork s)"
    and e: "ntExecs s' = ntExecs s \<or> (\<exists>x. ntExecs s' = ntExecs s @ [x] \<and> exCall x = i)"
  shows "net_inv g handles s'"
proof -
  have "execs_of j s' = execs_of j s" if "j \<noteq> i" for j using e that by (auto simp: execs_of_def)
  moreover have "\<forall>x \<in> set (ntExecs s'). exCall x < length (ntCalls s')" using inv e i s'(1) by (auto simp: net_inv_def)
  ultimately show ?thesis using inv c i by (auto simp: net_inv_def s' nth_list_update)
qed

lemma execs_of_simps [simp]:
  "execs_of i (set_stage j st s) = execs_of i s" "execs_of i (set_handler j h s) = execs_of i s"
  "execs_of i (s\<lparr>ntNetwork := rn\<rparr>) = execs_of i s" "execs_of i (s\<lparr>ntServers := rs\<rparr>) = execs_of i s" "execs_of i (s\<lparr>ntCalls := cs\<rparr>) = execs_of i s"
  by (simp_all add: execs_of_def set_stage_def set_handler_def)

lemma net_inv_stage:
  assumes "net_inv g handles s" and "i < length (ntCalls s)"
    and "stage_inv g (rnServers (ntNetwork s)) (ntAdded s) (rcReply (ntCalls s ! i)) (execs_of i s) (rcHandler (ntCalls s ! i)) st"
    and "rnServers rn = rnServers (ntNetwork s)" "rnRunning rn = rnRunning (ntNetwork s)" "rnDone rn = rnDone (ntNetwork s)"
  shows "net_inv g handles (set_stage i st (s\<lparr>ntNetwork := rn\<rparr>))"
proof (rule net_inv_call [OF assms(1,2), where c = "(ntCalls s ! i)\<lparr>rcStage := st\<rparr>"])
  show "call_inv g handles (rnServers (ntNetwork s)) (ntAdded s) (execs_of i (set_stage i st (s\<lparr>ntNetwork := rn\<rparr>))) ((ntCalls s ! i)\<lparr>rcStage := st\<rparr>)"
    using net_invD [OF assms(1,2)] assms(3) hand_inv_cong [of "(ntCalls s ! i)\<lparr>rcStage := st\<rparr>" "ntCalls s ! i"] by (simp add: call_inv_def)
qed (simp_all add: set_stage_def assms)

lemma net_inv_stage0:
  assumes "net_inv g handles s" and "i < length (ntCalls s)"
    and "stage_inv g (rnServers (ntNetwork s)) (ntAdded s) (rcReply (ntCalls s ! i)) (execs_of i s) (rcHandler (ntCalls s ! i)) st"
  shows "net_inv g handles (set_stage i st s)"
  using net_inv_stage [OF assms, of "ntNetwork s"] by simp

lemma net_inv_crash: "net_inv g handles (crash e s) = net_inv g handles s"
  by (simp add: net_inv_def crash_def execs_of_def)

lemma net_inv_begin:
  assumes "net_inv g handles s"
  shows "net_inv g handles (Call_begin g e svcMeth args reply s)"
proof (cases "gobEncode g args")
  case None
  then show ?thesis using assms by (simp add: Call_begin_def net_inv_crash)
next
  case (Some b)
  then show ?thesis using assms execs_of_nil [OF assms]
    by (auto simp: Call_begin_def net_inv_def nth_append less_Suc_eq call_inv_def)
qed

lemma net_inv_route:
  assumes inv: "net_inv g handles s" and i: "i < length (ntCalls s)" and st: "rcStage (ntCalls s ! i) = Accepted"
  shows "net_inv g handles (route i s)"
proof -
  have "rcHandler (ntCalls s ! i) = NotStarted" using net_invD(3) [OF inv i] st by simp
  moreover have "ran (rnServers (ntNetwork s)) \<subseteq> ntAdded s" using inv by (simp add: net_inv_def)
  ultimately show ?thesis unfolding route_def
    by (intro net_inv_stage0 [OF inv i]) (auto simp: readEndnameInfo_def Let_def ran_def split: option.splits bool.splits)
qed

lemma net_inv_send:
  assumes "net_inv g handles s" and "i < length (ntCalls s)" and "rcHandler (ntCalls s ! i) = Handled b" and "all_live (execs_of i s)"
  shows "net_inv g handles (send_reply i b s)"
  unfolding send_reply_def Let_def by (rule net_inv_stage [OF assms(1,2)]) (simp_all add: assms(3,4))

lemma net_inv_finish:
  assumes inv: "net_inv g handles s" and i: "i < length (ntCalls s)" and st: "rcStage (ntCalls s ! i) = Left_loop n a rl lr r"
  shows "net_inv g handles (finish_request i lost late s)"
proof -
  have failed: "net_inv g handles (set_stage i (Sent failed) s)" by (rule net_inv_stage0 [OF inv i]) (simp add: failed_def)
  show ?thesis
  proof (cases "r = None \<or> isServerDead (rcEnd (ntCalls s ! i)) n a (ntNetwork s)")
    case True
    then show ?thesis using failed st by (auto simp: finish_request_def split: option.splits)
  next
    case False
    then obtain b where b: "r = Some b" by auto
    then have h: "rcHandler (ntCalls s ! i) = Handled b" "all_live (execs_of i s)"
      using net_invD(3) [OF inv i] st False by (auto simp: isServerDead_def)
    then have "net_inv g handles (set_stage i (Delayed b) s)" by (intro net_inv_stage0 [OF inv i]) simp
    then show ?thesis using failed net_inv_send [OF inv i h] st b by (simp add: finish_request_def Let_def)
  qed
qed

lemma net_inv_execute:
  assumes inv: "net_inv g handles s" and i: "i < length (ntCalls s)" and st: "rcStage (ntCalls s ! i) = Chosen n a rl lr"
  shows "net_inv g handles (set_stage i (Waiting_reply n a rl lr) (set_handler i (Started a) s))"
proof (rule net_inv_call [OF inv i, where c = "(ntCalls s ! i)\<lparr>rcHandler := Started a, rcStage := Waiting_reply n a rl lr\<rparr>"])
  note d = net_invD [OF inv i]
  have h: "rcHandler (ntCalls s ! i) = NotStarted" "a \<in> ntAdded s" using d(3) st by simp_all
  then have "execs_of i s = []" using d(2) by simp
  then show "call_inv g handles (rnServers (ntNetwork s)) (ntAdded s) (execs_of i (set_stage i (Waiting_reply n a rl lr) (set_handler i (Started a) s)))
      ((ntCalls s ! i)\<lparr>rcHandler := Started a, rcStage := Waiting_reply n a rl lr\<rparr>)" using h(2) d(1) by (simp add: call_inv_def)
qed (use i in \<open>simp_all add: set_stage_def set_handler_def\<close>)

text \<open>While its handler has not ended, a call waits for it or has been given up.\<close>

lemma stage_inv_open:
  assumes "stage_inv g reg added old E h st" and "h = Started a \<or> h = Handling a svc meth v"
    and "h' = Handling a svc meth v \<and> E' = E \<or> (\<exists>b x. h' = Handled b \<and> E' = [x] \<and> exServer x = a \<and> exLive x = (\<exists>n. reg n = Some a))"
  shows "stage_inv g reg added old E' h' st"
proof (cases st)
  case (Returned_call r)
  then show ?thesis using assms by (cases r) auto
qed (use assms in auto)

lemma net_inv_dispatch:
  assumes inv: "net_inv g handles s" and i: "i < length (ntCalls s)" and h: "rcHandler (ntCalls s ! i) = Started a"
    and v: "decoded g (rcBytes (ntCalls s ! i)) v"
  shows "net_inv g handles (start_handler i a v s)"
proof -
  note d = net_invD [OF inv i]
  obtain rs r where rs: "Server_dispatch (rcMeth (ntCalls s ! i)) (ntServers s ! a) = (rs, r)" by force
  let ?s = "s\<lparr>ntServers := (ntServers s)[a := rs]\<rparr>"
  have inv1: "net_inv g handles ?s" using inv by (simp add: net_inv_def execs_of_def)
  show ?thesis
  proof (cases r)
    case (Inl e)
    then show ?thesis using rs inv1 by (simp add: start_handler_def net_inv_crash)
  next
    case (Inr sm)
    obtain svc meth where sm: "sm = (svc, meth)" by force
    have sp: "split_method (rcMeth (ntCalls s ! i)) = Inr (svc, meth)"
      using rs Inr sm by (auto simp: Server_dispatch_def ebind_eq_Inr split: option.splits)
    have e: "execs_of i s = []" using d(2) h by simp
    have "net_inv g handles (set_handler i (Handling a svc meth v) ?s)"
    proof (rule net_inv_call [OF inv i, where c = "(ntCalls s ! i)\<lparr>rcHandler := Handling a svc meth v\<rparr>"])
      show "call_inv g handles (rnServers (ntNetwork s)) (ntAdded s) (execs_of i (set_handler i (Handling a svc meth v) ?s)) ((ntCalls s ! i)\<lparr>rcHandler := Handling a svc meth v\<rparr>)"
        using d(1) e sp v stage_inv_open [OF d(3) disjI1 [OF h], of "Handling a svc meth v" svc meth v "execs_of i s"] by (simp add: call_inv_def)
    qed (simp_all add: set_handler_def)
    then show ?thesis using rs Inr sm by (simp add: start_handler_def)
  qed
qed

lemma net_inv_handle:
  assumes inv: "net_inv g handles s" and i: "i < length (ntCalls s)" and h: "rcHandler (ntCalls s ! i) = Handling a svc meth v"
    and w: "handles a svc meth v w" "encoded g w b"
  shows "net_inv g handles (end_handler i a svc meth v w b s)"
proof -
  note d = net_invD [OF inv i]
  let ?x = "\<lparr>exCall = i, exServer = a, exService = svc, exMethod = meth, exArgs = v, exReply = w, exLive = (\<exists>n. rnServers (ntNetwork s) n = Some a)\<rparr>"
  have e: "execs_of i s = []" and c: "split_method (rcMeth (ntCalls s ! i)) = Inr (svc, meth)" "decoded g (rcBytes (ntCalls s ! i)) v"
    using d(2) h by simp_all
  have e': "execs_of i (end_handler i a svc meth v w b s) = [?x]" using e by (simp add: end_handler_def execs_of_def set_handler_def)
  show ?thesis
  proof (rule net_inv_call [OF inv i, where c = "(ntCalls s ! i)\<lparr>rcHandler := Handled b\<rparr>"])
    have "stage_inv g (rnServers (ntNetwork s)) (ntAdded s) (rcReply (ntCalls s ! i)) [?x] (Handled b) (rcStage (ntCalls s ! i))"
      by (rule stage_inv_open [OF d(3) disjI2 [OF h]]) simp
    then show "call_inv g handles (rnServers (ntNetwork s)) (ntAdded s) (execs_of i (end_handler i a svc meth v w b s)) ((ntCalls s ! i)\<lparr>rcHandler := Handled b\<rparr>)"
      using d(1) c w unfolding e' by (simp add: call_inv_def exec_ok_def)
  qed (simp_all add: end_handler_def set_handler_def)
qed

lemma net_inv_end:
  assumes inv: "net_inv g handles s" and i: "i < length (ntCalls s)" and st: "rcStage (ntCalls s ! i) = Sent rep"
  shows "net_inv g handles (Call_end g i s)"
proof -
  have "rpOk rep \<Longrightarrow> rcHandler (ntCalls s ! i) = Handled (rpReply rep) \<and> all_live (execs_of i s)" using net_invD(3) [OF inv i] st by simp
  then have "net_inv g handles (set_stage i (Returned_call (Some v)) s)" if "rpOk rep" "gobDecode g (rpReply rep) (rcReply (ntCalls s ! i)) = Some v" for v
    using that by (intro net_inv_stage0 [OF inv i]) simp
  moreover have "net_inv g handles (set_stage i (Returned_call None) s)" by (rule net_inv_stage0 [OF inv i]) simp
  ultimately show ?thesis using st inv by (auto simp: Call_end_def net_inv_crash split: option.splits)
qed

lemma net_inv_rpc:
  assumes "rpc_step g handles s s'" and inv: "net_inv g handles s"
  shows "net_inv g handles s'"
  using assms(1)
proof cases
  case (stop)
  then show ?thesis using inv by (simp add: net_inv_def)
next
  case (accept i)
  then show ?thesis using net_invD(3) [OF inv, of i] by (auto simp: accept_def Let_def intro!: net_inv_stage [OF inv])
next
  case (refuse i)
  then show ?thesis using net_invD(3) [OF inv, of i] by (auto intro!: net_inv_stage0 [OF inv])
next
  case (drop i n a lr)
  then show ?thesis by (auto simp: failed_def intro!: net_inv_stage0 [OF inv])
next
  case (reply i n a rl lr b)
  then show ?thesis using net_invD(3) [OF inv, of i] by (auto intro!: net_inv_stage0 [OF inv])
next
  case (dead i n a rl lr)
  then show ?thesis using net_invD(3) [OF inv, of i] by (auto intro!: net_inv_stage0 [OF inv])
next
  case (delayed i b)
  then show ?thesis using net_invD(3) [OF inv, of i] by (auto intro!: net_inv_send [OF inv])
next
  case (timeout i)
  then show ?thesis by (auto simp: failed_def intro!: net_inv_stage0 [OF inv])
qed (simp_all add: net_inv_begin [OF inv] net_inv_route [OF inv] net_inv_execute [OF inv] net_inv_dispatch [OF inv] net_inv_handle [OF inv]
    net_inv_finish [OF inv] net_inv_end [OF inv])

text \<open>A server that is in use cannot come back, because it was added already.\<close>

lemma stage_inv_reg:
  assumes "stage_inv g reg added old E h st" and "\<forall>n a. reg' n = Some a \<longrightarrow> reg n = Some a \<or> a \<notin> added" and "added \<subseteq> added'"
  shows "stage_inv g reg' added' old E h st"
proof (cases st)
  case (Returned_call r)
  then show ?thesis using assms(1) by (cases r) auto
qed (use assms in auto)

lemma net_inv_config:
  assumes inv: "net_inv g handles s" and s': "ntCalls s' = ntCalls s" "ntExecs s' = ntExecs s"
    and reg: "\<forall>n a. rnServers (ntNetwork s') n = Some a \<longrightarrow> rnServers (ntNetwork s) n = Some a \<or> a \<notin> ntAdded s \<and> a \<in> ntAdded s'"
    and added: "ntAdded s \<subseteq> ntAdded s'" "ntAdded s' \<subseteq> {..<length (ntServers s')}" and r: "rnRunning (ntNetwork s') \<or> rnDone (ntNetwork s')"
  shows "net_inv g handles s'"
proof -
  have "call_inv g handles (rnServers (ntNetwork s')) (ntAdded s') (execs_of i s') (ntCalls s' ! i)" if "i < length (ntCalls s)" for i
  proof -
    have "\<forall>n a. rnServers (ntNetwork s') n = Some a \<longrightarrow> rnServers (ntNetwork s) n = Some a \<or> a \<notin> ntAdded s" using reg by blast
    moreover have "execs_of i s' = execs_of i s" by (simp add: s' execs_of_def)
    ultimately show ?thesis using net_invD(1,2) [OF inv that] stage_inv_reg [OF net_invD(3) [OF inv that] _ added(1)] by (simp add: call_inv_def s')
  qed
  moreover have "ran (rnServers (ntNetwork s')) \<subseteq> ntAdded s'"
  proof
    fix a assume "a \<in> ran (rnServers (ntNetwork s'))"
    then obtain n where "rnServers (ntNetwork s') n = Some a" by (auto simp: ran_def)
    then have "a \<in> ran (rnServers (ntNetwork s)) \<or> a \<in> ntAdded s'" using reg by (blast intro: ranI)
    moreover have "ran (rnServers (ntNetwork s)) \<subseteq> ntAdded s" using inv by (simp add: net_inv_def)
    ultimately show "a \<in> ntAdded s'" using added(1) by blast
  qed
  ultimately show ?thesis using inv added(2) r by (simp add: net_inv_def s')
qed

lemma net_inv_admin:
  assumes "admin_step s s'" and inv: "net_inv g handles s"
  shows "net_inv g handles s'"
proof -
  have a: "ntAdded s \<subseteq> {..<length (ntServers s)}" "rnRunning (ntNetwork s) \<or> rnDone (ntNetwork s)" using inv by (auto simp: net_inv_def)
  show ?thesis using assms(1)
  proof cases
    case (MakeEnd_again e err)
    then show ?thesis using inv by (simp add: net_inv_crash)
  next
    case (MakeEnd e ce rn)
    then show ?thesis using a by (intro net_inv_config [OF inv]) (auto simp: MakeEnd_def Let_def split: if_splits)
  next
    case (AddServer a n)
    then show ?thesis using a by (intro net_inv_config [OF inv]) (auto simp: AddServer_def)
  next
    case (MakeServer)
    then show ?thesis using a by (intro net_inv_config [OF inv]) auto
  qed (rule net_inv_config [OF inv]; use a in \<open>simp add: Cleanup_def Reliable_def LongReordering_def LongDelays_def DeleteServer_def Connect_def Enable_def\<close>)+
qed

lemma net_inv_reach: "(net_step g handles)\<^sup>*\<^sup>* net_init s \<Longrightarrow> net_inv g handles s"
  by (induction rule: rtranclp_induct) (auto simp: net_step_def intro: net_inv_init net_inv_rpc net_inv_admin)

section \<open>A call that goes through\<close>

text \<open>Bytes that stand for themselves, a server with one service and one method that returns its arguments.\<close>

abbreviation plain_gob :: "bytes gob" where
  "plain_gob \<equiv> \<lparr>gobEncode = Some, gobDecode = (\<lambda>b _. Some b), gobZero = []\<rparr>"

abbreviation echo :: "bytes handlers" where
  "echo \<equiv> \<lambda>a svc meth v w. w = v"

definition echo_service :: Service where
  "echo_service = MakeService ''E'' [\<lparr>mtName = ''Echo'', mtPkgPath = '''', mtNumIn = 3, mtIn2Ptr = True, mtNumOut = 0\<rparr>]"

definition demo_network :: "(nat, nat) Network" where
  "demo_network = Enable 7 True (Connect 7 0 (AddServer 0 0
     (MakeNetwork\<lparr>rnEnds := [7 \<mapsto> \<lparr>ceName = 7\<rparr>]\<rparr>)))"

definition demo_idle :: "(nat, nat, bytes) net" where
  "demo_idle = \<lparr>ntNetwork = demo_network, ntServers = [AddService echo_service MakeServer], ntAdded = {0}, ntCalls = [], ntExecs = [], ntCrash = None\<rparr>"

definition demo :: "64 word \<Rightarrow> int \<Rightarrow> bytes exec list \<Rightarrow> bytes handling \<Rightarrow> (nat, bytes) rpc_stage \<Rightarrow> (nat, nat, bytes) net" where
  "demo n k ex h st =
     demo_idle\<lparr>ntNetwork := demo_network\<lparr>rnCount := 1, rnBytes := n\<rparr>, ntServers := [(AddService echo_service MakeServer)\<lparr>rsCount := k\<rparr>],
       ntCalls := [\<lparr>rcEnd = 7, rcMeth = ''E.Echo'', rcArgs = [5], rcReply = [], rcBytes = [5], rcStage = st, rcHandler = h\<rparr>], ntExecs := ex\<rparr>"

definition demo_exec :: "bytes exec" where
  "demo_exec = \<lparr>exCall = 0, exServer = 0, exService = ''E'', exMethod = ''Echo'', exArgs = [5], exReply = [5], exLive = True\<rparr>"

abbreviation demo_reach :: "(nat, nat, bytes) net \<Rightarrow> bool" where
  "demo_reach s \<equiv> (net_step plain_gob echo)\<^sup>*\<^sup>* net_init s"

lemma demo_admin: "demo_reach s \<Longrightarrow> ntCrash s = None \<Longrightarrow> admin_step s s' \<Longrightarrow> demo_reach s'"
  by (erule rtranclp.rtrancl_into_rtrancl) (simp add: net_step_def)

lemma demo_rpc: "demo_reach s \<Longrightarrow> ntCrash s = None \<Longrightarrow> rpc_step plain_gob echo s s' \<Longrightarrow> s' = s'' \<Longrightarrow> demo_reach s''"
  by (erule rtranclp.rtrancl_into_rtrancl) (simp add: net_step_def)

lemma demo_idle_reach: "demo_reach demo_idle"
proof -
  let ?s1 = "net_init\<lparr>ntServers := [MakeServer]\<rparr> :: (nat, nat, bytes) net"
  let ?s2 = "?s1\<lparr>ntServers := [AddService echo_service MakeServer]\<rparr>"
  let ?s3 = "?s2\<lparr>ntNetwork := MakeNetwork\<lparr>rnEnds := [7 \<mapsto> \<lparr>ceName = 7\<rparr>]\<rparr>\<rparr>"
  let ?s4 = "?s3\<lparr>ntNetwork := AddServer 0 0 (ntNetwork ?s3), ntAdded := insert 0 (ntAdded ?s3)\<rparr>"
  let ?s5 = "?s4\<lparr>ntNetwork := Connect 7 0 (ntNetwork ?s4)\<rparr>"
  have 1: "demo_reach ?s1" using demo_admin [OF rtranclp.rtrancl_refl _ admin_step.MakeServer] by (simp add: net_init_def)
  have "admin_step ?s1 ?s2" using admin_step.AddService [of 0 ?s1 echo_service] by simp
  then have 2: "demo_reach ?s2" by (rule demo_admin [OF 1, rotated]) (simp add: net_init_def)
  have "admin_step ?s2 ?s3" by (rule admin_step.MakeEnd [of 7 _ "\<lparr>ceName = 7\<rparr>"]) (simp add: MakeEnd_def net_init_def MakeNetwork_def Let_def fun_eq_iff)
  then have "demo_reach ?s3" by (rule demo_admin [OF 2, rotated]) (simp add: net_init_def)
  then have "demo_reach ?s4" by (rule demo_admin [OF _ _ admin_step.AddServer]) (simp_all add: net_init_def)
  then have "demo_reach ?s5" by (rule demo_admin [OF _ _ admin_step.Connect]) (simp add: net_init_def)
  then have "demo_reach (?s5\<lparr>ntNetwork := Enable 7 True (ntNetwork ?s5)\<rparr>)" by (rule demo_admin [OF _ _ admin_step.Enable]) (simp add: net_init_def)
  then show ?thesis by (simp add: demo_idle_def demo_network_def net_init_def)
qed

lemmas demo_simps = demo_def demo_idle_def demo_network_def demo_exec_def MakeNetwork_def AddServer_def Connect_def Enable_def set_stage_def set_handler_def

lemma demo_returned: "demo_reach (demo 2 1 [demo_exec] (Handled [5]) (Returned_call (Some [5])))"
proof -
  let ?s0 = "Call_begin plain_gob 7 ''E.Echo'' [5] [] demo_idle"
  have "demo_reach ?s0"
    by (rule demo_rpc [OF demo_idle_reach _ rpc_step.call refl]) (simp_all add: demo_simps)
  then have "demo_reach (demo 1 0 [] NotStarted Accepted)"
    by (rule demo_rpc [OF _ _ rpc_step.accept [where i = 0]]) (simp_all add: demo_simps Call_begin_def accept_def AddService_def MakeServer_def)
  then have "demo_reach (demo 1 0 [] NotStarted (Chosen 0 0 True False))"
    by (rule demo_rpc [OF _ _ rpc_step.route [where i = 0]]) (simp_all add: demo_simps route_def readEndnameInfo_def Let_def)
  then have "demo_reach (demo 1 0 [] (Started 0) (Waiting_reply 0 0 True False))"
    by (rule demo_rpc [OF _ _ rpc_step.execute [where i = 0 and n = 0 and a = 0 and rl = True and lr = False]]) (simp_all add: demo_simps)
  then have "demo_reach (demo 1 1 [] (Handling 0 ''E'' ''Echo'' [5]) (Waiting_reply 0 0 True False))"
    by (rule demo_rpc [OF _ _ rpc_step.dispatch [where i = 0 and a = 0 and v = "[5]"]])
      (simp_all add: demo_simps start_handler_def Server_dispatch_def split_method_def slice_to_def slice_from_def Service_dispatch_def
        AddService_def MakeServer_def echo_service_def MakeService_def suitable_def decoded_def)
  then have "demo_reach (demo 1 1 [demo_exec] (Handled [5]) (Waiting_reply 0 0 True False))"
    by (rule demo_rpc [OF _ _ rpc_step.handle [where i = 0 and a = 0 and svc = "''E''" and meth = "''Echo''" and v = "[5]" and w = "[5]" and b = "[5]"]])
      (auto simp: demo_simps end_handler_def encoded_def)
  then have "demo_reach (demo 1 1 [demo_exec] (Handled [5]) (Left_loop 0 0 True False (Some [5])))"
    by (rule demo_rpc [OF _ _ rpc_step.reply [where i = 0 and n = 0 and a = 0 and rl = True and lr = False and b = "[5]"]]) (simp_all add: demo_simps)
  then have "demo_reach (demo 2 1 [demo_exec] (Handled [5]) (Sent \<lparr>rpOk = True, rpReply = [5]\<rparr>))"
    by (rule demo_rpc [OF _ _ rpc_step.finish [where i = 0 and n = 0 and a = 0 and rl = True and lr = False and r = "Some [5]"]]) (simp_all add: demo_simps finish_request_def isServerDead_def send_reply_def)
  then show ?thesis
    by (rule demo_rpc [OF _ _ rpc_step.return [where i = 0 and rep = "\<lparr>rpOk = True, rpReply = [5]\<rparr>"]]) (simp_all add: demo_simps Call_end_def)
qed

section \<open>Properties\<close>

text \<open>C7: A request is executed at most once, whatever the network does. If \<^verbatim>\<open>Call\<close> returns true, it was executed exactly once, by
  the service and method it names and with the arguments of the call, the reply is the one of this execution,
  and the server was still part of the network when the handler ended. The encoding is assumed to read back what it wrote
  into a fresh variable.\<close>

theorem rpc_exactly_once:
  assumes "(net_step g handles)\<^sup>*\<^sup>* net_init s" and "i < length (ntCalls s)"
    and "\<forall>v b. gobEncode g v = Some b \<longrightarrow> gobDecode g b (gobZero g) = Some v" and "\<forall>a svc meth v w. handles a svc meth v w \<longrightarrow> gobEncode g w \<noteq> None"
  shows "length (execs_of i s) \<le> 1 \<and>
    (rcStage (ntCalls s ! i) = Returned_call (Some v) \<and> rcReply (ntCalls s ! i) = gobZero g \<longrightarrow>
      (\<exists>x. execs_of i s = [x] \<and> split_method (rcMeth (ntCalls s ! i)) = Inr (exService x, exMethod x) \<and> exArgs x = rcArgs (ntCalls s ! i) \<and>
         handles (exServer x) (exService x) (exMethod x) (exArgs x) v \<and> exLive x))"
proof -
  note d = net_invD [OF net_inv_reach [OF assms(1)] assms(2)]
  have "length (execs_of i s) \<le> 1" using d(2) by (cases "rcHandler (ntCalls s ! i)") auto
  moreover have "\<exists>x. execs_of i s = [x] \<and> split_method (rcMeth (ntCalls s ! i)) = Inr (exService x, exMethod x) \<and> exArgs x = rcArgs (ntCalls s ! i) \<and>
         handles (exServer x) (exService x) (exMethod x) (exArgs x) v \<and> exLive x"
    if h: "rcStage (ntCalls s ! i) = Returned_call (Some v)" "rcReply (ntCalls s ! i) = gobZero g"
  proof -
    obtain b where b: "rcHandler (ntCalls s ! i) = Handled b" "all_live (execs_of i s)" "gobDecode g b (gobZero g) = Some v" using d(3) h by auto
    then obtain x where x: "execs_of i s = [x]" "exec_ok g handles (ntCalls s ! i) x b" using d(2) by auto
    then have "gobEncode g (exReply x) \<noteq> None" using assms(4) by (auto simp: exec_ok_def)
    then have "gobDecode g b (gobZero g) = Some (exReply x)" using x(2) assms(3) by (auto simp: exec_ok_def encoded_def split: option.splits)
    moreover have "exArgs x = rcArgs (ntCalls s ! i)" using x(2) assms(3) d(1) by (auto simp: exec_ok_def decoded_def)
    ultimately show ?thesis using x b(2,3) by (auto simp: exec_ok_def)
  qed
  ultimately show ?thesis by blast
qed

theorem rpc_exactly_once_witness:
  "\<exists>x. ntExecs (demo 2 1 [demo_exec] (Handled [5]) (Returned_call (Some [5]))) = [x] \<and> exArgs x = [5] \<and> exLive x"
  using rpc_exactly_once [OF demo_returned, of 0 "[5]"] by (simp add: demo_simps execs_of_def)


text \<open>What \<^verbatim>\<open>processReq\<close> does with a request.\<close>

lemma route_cases:
  obtains "route i s = set_stage i TimingOut s"
      "\<not> rnEnabled (ntNetwork s) (rcEnd (ntCalls s ! i)) \<or> Option.bind (rnConnections (ntNetwork s) (rcEnd (ntCalls s ! i))) (rnServers (ntNetwork s)) = None"
  | n a where "route i s = set_stage i (Chosen n a (rnReliable (ntNetwork s)) (rnLongReordering (ntNetwork s))) s"
      "rnConnections (ntNetwork s) (rcEnd (ntCalls s ! i)) = Some n" "rnServers (ntNetwork s) n = Some a"
  by (cases "rnConnections (ntNetwork s) (rcEnd (ntCalls s ! i))"; cases "rnServers (ntNetwork s) (the (rnConnections (ntNetwork s) (rcEnd (ntCalls s ! i))))";
      cases "rnEnabled (ntNetwork s) (rcEnd (ntCalls s ! i))") (auto simp: route_def readEndnameInfo_def Let_def)

text \<open>How far a call is from its end.\<close>

fun rank_of :: "('n, 'v) rpc_stage \<Rightarrow> 'v handling \<Rightarrow> nat" where
  "rank_of Sending h = 9"
| "rank_of Accepted h = 8"
| "rank_of (Chosen n a rl lr) h = 7"
| "rank_of (Waiting_reply n a rl lr) h = (case h of Handled b \<Rightarrow> 4 | Handling a svc meth v \<Rightarrow> 5 | _ \<Rightarrow> 6)"
| "rank_of (Left_loop n a rl lr r) h = 3"
| "rank_of (Delayed b) h = 2"
| "rank_of TimingOut h = 2"
| "rank_of (Sent rep) h = 1"
| "rank_of Refused h = 0"
| "rank_of (Returned_call r) h = 0"

definition call_rank :: "nat \<Rightarrow> ('e, 'n, 'v) net \<Rightarrow> nat" where
  "call_rank i s = rank_of (rcStage (ntCalls s ! i)) (rcHandler (ntCalls s ! i))"

lemma call_rank_stage:
  "i < length (ntCalls s) \<Longrightarrow> call_rank i (set_stage i st s) = rank_of st (rcHandler (ntCalls s ! i))"
  by (simp add: call_rank_def set_stage_def)

lemma call_rank_finish:
  assumes "i < length (ntCalls s)" and "rcStage (ntCalls s ! i) = Left_loop n a rl lr r"
  shows "call_rank i (finish_request i lost late s) < 3"
  using assms by (auto simp: finish_request_def send_reply_def Let_def call_rank_stage set_stage_def call_rank_def split: option.splits)

lemma call_rank_end:
  assumes "i < length (ntCalls s)" and "rcStage (ntCalls s ! i) = Sent rep"
  shows "ntCrash (Call_end g i s) \<noteq> None \<or> call_rank i (Call_end g i s) = 0"
  using assms by (auto simp: Call_end_def call_rank_stage crash_def split: option.splits)

lemma call_rank_dispatch:
  assumes "i < length (ntCalls s)" and "rcStage (ntCalls s ! i) = Waiting_reply n a' rl lr"
  shows "ntCrash (start_handler i a v s) \<noteq> None \<or> call_rank i (start_handler i a v s) = 5"
  using assms by (auto simp: start_handler_def set_handler_def call_rank_def crash_def Let_def split: prod.splits sum.splits)

lemma call_rank_handle:
  assumes "i < length (ntCalls s)" and "rcStage (ntCalls s ! i) = Waiting_reply n a' rl lr"
  shows "call_rank i (end_handler i a svc meth v w b s) = 4"
  using assms by (simp add: end_handler_def set_handler_def call_rank_def)

lemma decoded_ex: "\<exists>v. decoded g b v"
  by (cases "gobDecode g b (gobZero g)") (auto simp: decoded_def)

lemma encoded_ex: "\<exists>b. encoded g v b"
  by (cases "gobEncode g v") (auto simp: encoded_def)

text \<open>A call waits for a handler that never returns, of a server that it can reach.\<close>

definition handler_silent :: "'v handlers \<Rightarrow> nat \<Rightarrow> ('e, 'n, 'v) net \<Rightarrow> bool" where
  "handler_silent handles i s \<longleftrightarrow>
     (case (rcStage (ntCalls s ! i), rcHandler (ntCalls s ! i)) of
        (Waiting_reply n a rl lr, Handling b svc meth v) \<Rightarrow> (\<nexists>w. handles b svc meth v w) \<and> \<not> isServerDead (rcEnd (ntCalls s ! i)) n a (ntNetwork s)
      | _ \<Rightarrow> False)"

lemma handler_moves:
  assumes inv: "net_inv g handles s" and i: "i < length (ntCalls s)" and st: "rcStage (ntCalls s ! i) = Waiting_reply n a rl lr"
    and ret: "\<not> handler_silent handles i s"
  shows "\<exists>s'. rpc_step g handles s s' \<and> (ntCrash s' \<noteq> None \<or> call_rank i s' < call_rank i s)"
proof (cases "rcHandler (ntCalls s ! i)")
  case NotStarted
  then show ?thesis using net_invD(3) [OF inv i] st by simp
next
  case (Started b)
  obtain v where "decoded g (rcBytes (ntCalls s ! i)) v" using decoded_ex [of g] by blast
  then have "rpc_step g handles s (start_handler i b v s)" using i Started by (intro rpc_step.dispatch) simp_all
  moreover have "call_rank i s = 6" using st Started by (simp add: call_rank_def)
  ultimately show ?thesis using call_rank_dispatch [OF i st, of b v] by (intro exI [of _ "start_handler i b v s"]) auto
next
  case (Handling b svc meth v)
  have r: "call_rank i s = 5" using st Handling by (simp add: call_rank_def)
  have "(\<exists>w. handles b svc meth v w) \<or> isServerDead (rcEnd (ntCalls s ! i)) n a (ntNetwork s)" using ret st Handling by (simp add: handler_silent_def)
  then show ?thesis
  proof
    assume "\<exists>w. handles b svc meth v w"
    then obtain w c where "handles b svc meth v w" "encoded g w c" using encoded_ex [of g] by blast
    then have "rpc_step g handles s (end_handler i b svc meth v w c s)" using i Handling by (intro rpc_step.handle) simp_all
    then show ?thesis using r call_rank_handle [OF i st, of b svc meth v w c] by (intro exI [of _ "end_handler i b svc meth v w c s"]) auto
  next
    assume "isServerDead (rcEnd (ntCalls s ! i)) n a (ntNetwork s)"
    then have "rpc_step g handles s (set_stage i (Left_loop n a rl lr None) s)" using i st by (intro rpc_step.dead) simp_all
    then show ?thesis using r i by (intro exI [of _ "set_stage i (Left_loop n a rl lr None) s"]) (simp add: call_rank_stage)
  qed
next
  case (Handled b)
  then have "rpc_step g handles s (set_stage i (Left_loop n a rl lr (Some b)) s)" using i st by (intro rpc_step.reply) simp_all
  moreover have "call_rank i s = 4" using st Handled by (simp add: call_rank_def)
  ultimately show ?thesis using i by (intro exI [of _ "set_stage i (Left_loop n a rl lr (Some b)) s"]) (simp add: call_rank_stage)
qed

lemma call_moves:
  assumes inv: "net_inv g handles s" and i: "i < length (ntCalls s)" and open_call: "0 < call_rank i s"
    and ret: "\<not> handler_silent handles i s"
  shows "\<exists>s'. rpc_step g handles s s' \<and> (ntCrash s' \<noteq> None \<or> call_rank i s' < call_rank i s)"
proof (cases "rcStage (ntCalls s ! i)")
  case Sending
  then have r: "call_rank i s = 9" by (simp add: call_rank_def)
  show ?thesis
  proof (cases "rnRunning (ntNetwork s)")
    case True
    then have "rpc_step g handles s (accept i s)" using i Sending by (intro rpc_step.accept) simp_all
    moreover have "call_rank i (accept i s) = 8" using i by (simp add: accept_def call_rank_def set_stage_def Let_def)
    ultimately show ?thesis using r by auto
  next
    case False
    then have "rnDone (ntNetwork s)" using inv by (simp add: net_inv_def)
    then have "rpc_step g handles s (set_stage i Refused s)" using i Sending by (intro rpc_step.refuse) simp_all
    then show ?thesis using r i by (intro exI [of _ "set_stage i Refused s"]) (simp add: call_rank_stage)
  qed
next
  case Accepted
  then have "rpc_step g handles s (route i s)" using i by (intro rpc_step.route) simp_all
  moreover have "call_rank i (route i s) \<le> 7" using i by (cases rule: route_cases [of i s]) (simp_all add: call_rank_stage)
  ultimately show ?thesis using Accepted by (intro exI [of _ "route i s"]) (simp add: call_rank_def)
next
  case (Chosen n a rl lr)
  let ?s = "set_stage i (Waiting_reply n a rl lr) (set_handler i (Started a) s)"
  have "rpc_step g handles s ?s" using i Chosen by (intro rpc_step.execute) simp_all
  moreover have "call_rank i ?s = 6" using i by (simp add: call_rank_def set_stage_def set_handler_def)
  ultimately show ?thesis using Chosen by (intro exI [of _ ?s]) (simp add: call_rank_def)
next
  case (Waiting_reply n a rl lr)
  then show ?thesis using ret by (rule handler_moves [OF inv i])
next
  case (Left_loop n a rl lr r)
  then have "rpc_step g handles s (finish_request i False False s)" using i by (intro rpc_step.finish) simp_all
  then show ?thesis using call_rank_finish [OF i Left_loop, of False False] Left_loop
    by (intro exI [of _ "finish_request i False False s"]) (simp add: call_rank_def)
next
  case (Delayed b)
  then have "rpc_step g handles s (send_reply i b s)" using i by (intro rpc_step.delayed) simp_all
  then show ?thesis using Delayed i by (intro exI [of _ "send_reply i b s"]) (simp add: call_rank_def send_reply_def set_stage_def Let_def)
next
  case TimingOut
  then have "rpc_step g handles s (set_stage i (Sent failed) s)" using i by (intro rpc_step.timeout) simp_all
  then show ?thesis using TimingOut i by (intro exI [of _ "set_stage i (Sent failed) s"]) (simp add: call_rank_def set_stage_def)
next
  case (Sent rep)
  then have "rpc_step g handles s (Call_end g i s)" using i by (intro rpc_step.return) simp_all
  then show ?thesis using call_rank_end [OF i Sent, of g] open_call by (intro exI [of _ "Call_end g i s"]) auto
qed (use open_call in \<open>simp_all add: call_rank_def\<close>)


text \<open>No step takes a call back.\<close>

lemma rank_handler:
  assumes "rcHandler c = Started a \<and> h = Handling a svc meth v \<or> rcHandler c = Handling a svc meth v \<and> h = Handled b"
  shows "rank_of (rcStage c) h \<le> rank_of (rcStage c) (rcHandler c)"
  using assms by (cases "rcStage c") auto

lemma call_rank_other:
  "j \<noteq> i \<Longrightarrow> call_rank i (set_stage j st s) = call_rank i s" "j \<noteq> i \<Longrightarrow> call_rank i (set_handler j h s) = call_rank i s"
  "call_rank i (s\<lparr>ntNetwork := rn\<rparr>) = call_rank i s" "call_rank i (s\<lparr>ntServers := rs\<rparr>) = call_rank i s"
  "call_rank i (s\<lparr>ntExecs := ex\<rparr>) = call_rank i s" "call_rank i (crash e s) = call_rank i s"
  by (simp_all add: call_rank_def set_stage_def set_handler_def crash_def)

lemma rank_set_stage:
  assumes "i < length (ntCalls s)" and "j = i \<Longrightarrow> rank_of st (rcHandler (ntCalls s ! i)) \<le> rank_of (rcStage (ntCalls s ! i)) (rcHandler (ntCalls s ! i))"
  shows "call_rank i (set_stage j st s) \<le> call_rank i s"
  using assms by (cases "j = i") (simp_all add: call_rank_other call_rank_stage, simp add: call_rank_def)

lemma rank_set_stage_network:
  assumes "i < length (ntCalls s)" and "j = i \<Longrightarrow> rank_of st (rcHandler (ntCalls s ! i)) \<le> rank_of (rcStage (ntCalls s ! i)) (rcHandler (ntCalls s ! i))"
  shows "call_rank i (set_stage j st (s\<lparr>ntNetwork := rn\<rparr>)) \<le> call_rank i s"
  using rank_set_stage [of i "s\<lparr>ntNetwork := rn\<rparr>" j st] assms by (simp add: call_rank_other)

lemma rank_finish:
  assumes "i < length (ntCalls s)" and "rcStage (ntCalls s ! j) = Left_loop n a rl lr r"
  shows "call_rank i (finish_request j lost late s) \<le> call_rank i s"
proof (cases "j = i")
  case True
  then have "rcStage (ntCalls s ! i) = Left_loop n a rl lr r" using assms(2) by simp
  then show ?thesis using call_rank_finish [OF assms(1), of n a rl lr r lost late] True unfolding call_rank_def [of i s] by simp
next
  case False
  then show ?thesis using assms(2) by (auto simp: finish_request_def send_reply_def Let_def call_rank_other split: option.splits)
qed

lemma rank_rpc:
  assumes "rpc_step g handles s s'" and i: "i < length (ntCalls s)"
  shows "call_rank i s' \<le> call_rank i s"
  using assms(1)
proof cases
  case (call e svcMeth args reply)
  then show ?thesis using i by (auto simp: Call_begin_def call_rank_other call_rank_def nth_append crash_def split: option.splits)
next
  case (stop)
  then show ?thesis by (simp add: call_rank_other)
next
  case (accept j)
  then show ?thesis using i by (auto simp: accept_def Let_def intro!: rank_set_stage_network)
next
  case (route j)
  then show ?thesis using i by (cases rule: route_cases [of j s]) (auto intro!: rank_set_stage)
next
  case (execute j n a rl lr)
  then show ?thesis using i by (cases "j = i") (simp_all add: call_rank_other, simp add: call_rank_def set_stage_def set_handler_def)
next
  case (dispatch j a v)
  obtain rs r where rs: "Server_dispatch (rcMeth (ntCalls s ! j)) (ntServers s ! a) = (rs, r)" by force
  show ?thesis
  proof (cases r)
    case (Inl e)
    then show ?thesis using dispatch rs by (simp add: start_handler_def call_rank_other)
  next
    case (Inr sm)
    obtain svc meth where "sm = (svc, meth)" by force
    then have "s' = set_handler j (Handling a svc meth v) (s\<lparr>ntServers := (ntServers s)[a := rs]\<rparr>)" using dispatch rs Inr by (simp add: start_handler_def)
    moreover have "rank_of (rcStage (ntCalls s ! j)) (Handling a svc meth v) \<le> call_rank j s"
      using dispatch rank_handler [of "ntCalls s ! j" a "Handling a svc meth v"] by (simp add: call_rank_def)
    ultimately show ?thesis using i by (cases "j = i") (simp_all add: call_rank_other, simp add: call_rank_def set_handler_def)
  qed
next
  case (handle j a svc meth v w b)
  then have "rank_of (rcStage (ntCalls s ! j)) (Handled b) \<le> call_rank j s"
    using rank_handler [of "ntCalls s ! j" a "Handled b"] by (auto simp: call_rank_def)
  then show ?thesis using i handle by (cases "j = i") (simp_all add: end_handler_def call_rank_other, simp add: call_rank_def set_handler_def)
next
  case (finish j n a rl lr r lost late)
  then show ?thesis using rank_finish [OF i] by blast
next
  case (delayed j b)
  then show ?thesis using i by (auto simp: send_reply_def Let_def intro!: rank_set_stage_network)
next
  case (return j rep)
  then have "call_rank i (set_stage j (Returned_call r) s) \<le> call_rank i s" for r by (intro rank_set_stage [OF i]) auto
  then show ?thesis using return by (auto simp: Call_end_def call_rank_other split: option.splits)
qed (use i in \<open>auto intro!: rank_set_stage split: handling.splits\<close>)

text \<open>C24: \<^verbatim>\<open>Call\<close> returns unless the handler does not return: a call that has not returned can take a step towards its end, of which
  there are at most nine, or the process ends; and no other step, of the network, the test or
  another call, takes it back. If the handler does not return, the call still ends once the server is deleted or the end disabled.\<close>

theorem rpc_call_progress:
  assumes "(net_step g handles)\<^sup>*\<^sup>* net_init s" and "i < length (ntCalls s)" and "ntCrash s = None"
  shows "call_rank i s \<le> 9 \<and>
    (\<forall>s'. net_step g handles s s' \<longrightarrow> call_rank i s' \<le> call_rank i s) \<and>
    (0 < call_rank i s \<and> \<not> handler_silent handles i s \<longrightarrow>
      (\<exists>s'. net_step g handles s s' \<and> (ntCrash s' \<noteq> None \<or> call_rank i s' < call_rank i s)))"
proof (intro conjI allI impI)
  show "call_rank i s \<le> 9" unfolding call_rank_def by (cases "rcStage (ntCalls s ! i)") (auto split: handling.splits)
  show "call_rank i s' \<le> call_rank i s" if h: "net_step g handles s s'" for s'
    using h unfolding net_step_def
  proof (elim conjE disjE)
    assume "admin_step s s'"
    then show ?thesis by cases (simp_all add: call_rank_def crash_def)
  qed (rule rank_rpc [OF _ assms(2)])
  assume h: "0 < call_rank i s \<and> \<not> handler_silent handles i s"
  show "\<exists>s'. net_step g handles s s' \<and> (ntCrash s' \<noteq> None \<or> call_rank i s' < call_rank i s)"
    using call_moves [OF net_inv_reach [OF assms(1)] assms(2) conjunct1 [OF h] conjunct2 [OF h]] assms(3) unfolding net_step_def by blast
qed

theorem rpc_call_progress_witness:
  "\<exists>s'. net_step plain_gob echo (Call_begin plain_gob 7 ''E.Echo'' [5] [] demo_idle) s' \<and> (ntCrash s' \<noteq> None \<or> call_rank 0 s' < 9)"
proof -
  let ?s = "Call_begin plain_gob 7 ''E.Echo'' [5] [] demo_idle"
  have "demo_reach ?s" by (rule demo_rpc [OF demo_idle_reach _ rpc_step.call refl]) (simp_all add: demo_simps)
  moreover have "length (ntCalls ?s) = 1" "ntCrash ?s = None" "call_rank 0 ?s = 9" "\<not> handler_silent echo 0 ?s"
    by (simp_all add: demo_simps Call_begin_def call_rank_def handler_silent_def)
  ultimately show ?thesis using rpc_call_progress [of plain_gob echo ?s 0] by simp
qed

subsection \<open>A network left alone\<close>

definition calm :: "'e \<Rightarrow> 'n \<Rightarrow> nat \<Rightarrow> ('e, 'n) Network \<Rightarrow> bool" where
  "calm e n a rn \<longleftrightarrow> rnReliable rn \<and> \<not> rnDone rn \<and> rnEnabled rn e \<and> rnConnections rn e = Some n \<and> rnServers rn n = Some a"

fun on_track :: "'n \<Rightarrow> nat \<Rightarrow> ('n, 'v) rpc_stage \<Rightarrow> bool" where
  "on_track n a (Chosen n' a' rl lr) \<longleftrightarrow> n' = n \<and> a' = a \<and> rl"
| "on_track n a (Waiting_reply n' a' rl lr) \<longleftrightarrow> n' = n \<and> a' = a \<and> rl"
| "on_track n a (Left_loop n' a' rl lr r) \<longleftrightarrow> n' = n \<and> a' = a \<and> rl \<and> r \<noteq> None"
| "on_track n a (Sent rep) \<longleftrightarrow> rpOk rep"
| "on_track n a (Returned_call r) \<longleftrightarrow> r \<noteq> None"
| "on_track n a st \<longleftrightarrow> st \<notin> {TimingOut, Refused}"

definition tracked :: "'e \<Rightarrow> 'n \<Rightarrow> nat \<Rightarrow> ('e, 'n, 'v) net \<Rightarrow> bool" where
  "tracked e n a s \<longleftrightarrow> calm e n a (ntNetwork s) \<and> (\<forall>c \<in> set (ntCalls s). rcEnd c = e \<longrightarrow> on_track n a (rcStage c))"

lemma tracked_update:
  assumes "tracked e n a s" and "calm e n a (ntNetwork s')" and "ntCalls s' = (ntCalls s)[i := c]" and "rcEnd c = e \<Longrightarrow> on_track n a (rcStage c)"
  shows "tracked e n a s'"
  using assms set_update_subset_insert [of "ntCalls s" i c] by (auto simp: tracked_def)

lemma tracked_stage:
  assumes "tracked e n a s" and "calm e n a rn" and "rcEnd (ntCalls s ! i) = e \<Longrightarrow> on_track n a st"
  shows "tracked e n a (set_stage i st (s\<lparr>ntNetwork := rn\<rparr>))"
  by (rule tracked_update [OF assms(1), where i = i and c = "(ntCalls s ! i)\<lparr>rcStage := st\<rparr>"]) (use assms in \<open>simp_all add: set_stage_def\<close>)

lemma tracked_stage0:
  assumes "tracked e n a s" and "rcEnd (ntCalls s ! i) = e \<Longrightarrow> on_track n a st"
  shows "tracked e n a (set_stage i st s)"
  using tracked_stage [OF assms(1) _ assms(2), of "ntNetwork s"] assms(1) by (simp add: tracked_def)

lemma tracked_handler:
  assumes "tracked e n a s" and "i < length (ntCalls s)" and "calm e n a (ntNetwork s')" and "ntCalls s' = ntCalls s"
  shows "tracked e n a (set_handler i h s')"
  by (rule tracked_update [OF assms(1), where i = i and c = "(ntCalls s ! i)\<lparr>rcHandler := h\<rparr>"])
    (use assms in \<open>simp_all add: set_handler_def tracked_def\<close>)

lemma calm_counts: "calm e n a (rn\<lparr>rnCount := x\<rparr>) = calm e n a rn" "calm e n a (rn\<lparr>rnBytes := y\<rparr>) = calm e n a rn"
  by (simp_all add: calm_def)

lemma tracked_simps [simp]: "tracked e n a (crash err s) = tracked e n a s" "tracked e n a (s\<lparr>ntServers := rs\<rparr>) = tracked e n a s"
  by (simp_all add: tracked_def crash_def)

lemma tracked_finish:
  assumes t: "tracked e n a s" and i: "i < length (ntCalls s)" and st: "rcStage (ntCalls s ! i) = Left_loop n' a' rl lr r"
  shows "tracked e n a (finish_request i lost late s)"
proof (cases "rcEnd (ntCalls s ! i) = e")
  case True
  then have "on_track n a (Left_loop n' a' rl lr r :: ('b, 'c) rpc_stage)" using t i st by (metis nth_mem tracked_def)
  then have x: "n' = n" "a' = a" rl "r \<noteq> None" by simp_all
  have calm: "calm e n a (ntNetwork s)" using t by (simp add: tracked_def)
  then have "\<not> isServerDead e n a (ntNetwork s)" by (simp add: isServerDead_def calm_def)
  then show ?thesis using st x True tracked_stage0 [OF t, of i "Delayed (the r)"] tracked_stage [OF t, of _ i "Sent \<lparr>rpOk = True, rpReply = the r\<rparr>"] calm
    by (auto simp: finish_request_def send_reply_def Let_def calm_counts)
next
  case False
  have calm: "calm e n a (ntNetwork s)" using t by (simp add: tracked_def)
  have "tracked e n a (set_stage i st' s)" "tracked e n a (send_reply i b s)" for st' b
    using False calm by (auto simp: send_reply_def Let_def calm_counts intro!: tracked_stage0 [OF t] tracked_stage [OF t])
  then show ?thesis using st by (simp add: finish_request_def Let_def split: option.splits)
qed

lemma tracked_step:
  assumes "rpc_step g handles s s'" and t: "tracked e n a s"
  shows "tracked e n a s'"
proof -
  have calm: "calm e n a (ntNetwork s)" using t by (simp add: tracked_def)
  have track: "on_track n a (rcStage (ntCalls s ! i))" if "i < length (ntCalls s)" "rcEnd (ntCalls s ! i) = e" for i
    using t that by (simp add: tracked_def)
  show ?thesis using assms(1)
  proof cases
    case (call e' svcMeth args reply)
    then show ?thesis using t by (auto simp: Call_begin_def tracked_def crash_def split: option.splits)
  next
    case (stop)
    then show ?thesis using calm by (simp add: calm_def)
  next
    case (accept i)
    then show ?thesis using calm by (auto simp: accept_def Let_def calm_counts intro!: tracked_stage [OF t])
  next
    case (refuse i)
    then show ?thesis using calm by (simp add: calm_def)
  next
    case (route i)
    then show ?thesis using calm by (cases rule: route_cases [of i s]) (auto simp: calm_def intro!: tracked_stage0 [OF t])
  next
    case (drop i n' a' lr)
    then show ?thesis using track [of i] by (auto intro!: tracked_stage0 [OF t])
  next
    case (execute i n' a' rl lr)
    then have "tracked e n a (set_handler i (Started a') s)" using calm by (intro tracked_handler [OF t]) simp_all
    then show ?thesis using execute track [of i] by (auto simp: set_handler_def intro!: tracked_stage0)
  next
    case (dispatch i a' v)
    then show ?thesis using calm t
      by (auto simp: start_handler_def Let_def split: prod.splits sum.splits intro!: tracked_handler [OF t])
  next
    case (handle i a' svc meth v w b)
    then show ?thesis using calm by (auto simp: end_handler_def intro!: tracked_handler [OF t])
  next
    case (reply i n' a' rl lr b)
    then show ?thesis using track [of i] by (auto intro!: tracked_stage0 [OF t])
  next
    case (dead i n' a' rl lr)
    then show ?thesis using track [of i] calm by (auto simp: isServerDead_def calm_def intro!: tracked_stage0 [OF t])
  next
    case (finish i n' a' rl lr r lost late)
    then show ?thesis using tracked_finish [OF t] by blast
  next
    case (delayed i b)
    then show ?thesis using calm by (auto simp: send_reply_def Let_def calm_counts intro!: tracked_stage [OF t])
  next
    case (timeout i)
    then show ?thesis using track [of i] by (auto intro!: tracked_stage0 [OF t])
  next
    case (return i rep)
    then have "rcEnd (ntCalls s ! i) = e \<Longrightarrow> rpOk rep" using track [of i] by auto
    then show ?thesis using return t
      by (auto simp: Call_end_def split: option.splits intro!: tracked_stage0 [OF t])
  qed
qed

text \<open>C31: A reliable network loses nothing. If an end is enabled and connected to a server of the network, the network is
  reliable, and the test leaves it as it is, then no call of this end is refused, dropped or timed out: when it ends,
  \<^verbatim>\<open>Call\<close> has returned true.\<close>

theorem rpc_reliable_delivers:
  assumes "calm e n a (ntNetwork s0)" and "\<forall>c \<in> set (ntCalls s0). rcEnd c \<noteq> e"
    and "(rpc_step g handles)\<^sup>*\<^sup>* s0 s" and "i < length (ntCalls s)" and "rcEnd (ntCalls s ! i) = e"
  shows "rcStage (ntCalls s ! i) \<noteq> Sent failed \<and> (call_rank i s = 0 \<longrightarrow> (\<exists>v. rcStage (ntCalls s ! i) = Returned_call (Some v)))"
proof -
  have "tracked e n a s0" using assms(1,2) by (auto simp: tracked_def)
  with assms(3) have "tracked e n a s" by (induction rule: rtranclp_induct) (auto intro: tracked_step)
  then have "on_track n a (rcStage (ntCalls s ! i))" using assms(4,5) by (simp add: tracked_def)
  then show ?thesis by (cases "rcStage (ntCalls s ! i)") (auto simp: failed_def call_rank_def split: handling.splits)
qed

theorem rpc_reliable_delivers_witness:
  "\<exists>s. (rpc_step plain_gob echo)\<^sup>*\<^sup>* demo_idle s \<and> length (ntCalls s) = 1 \<and> rcStage (ntCalls s ! 0) \<noteq> Sent failed"
proof -
  let ?s = "Call_begin plain_gob 7 ''E.Echo'' [5] [] demo_idle"
  have r: "(rpc_step plain_gob echo)\<^sup>*\<^sup>* demo_idle ?s" by (intro r_into_rtranclp rpc_step.call) (simp add: demo_simps)
  have "calm 7 0 0 (ntNetwork demo_idle)" "ntCalls demo_idle = []" "length (ntCalls ?s) = 1" "rcEnd (ntCalls ?s ! 0) = 7"
    by (simp_all add: demo_simps Call_begin_def calm_def)
  then show ?thesis using rpc_reliable_delivers [OF _ _ r, of 7 0 0 0] r by (intro exI [of _ ?s]) simp
qed

subsection \<open>Counters\<close>

fun was_accepted :: "('n, 'v) rpc_stage \<Rightarrow> bool" where
  "was_accepted Sending \<longleftrightarrow> False"
| "was_accepted Refused \<longleftrightarrow> False"
| "was_accepted _ \<longleftrightarrow> True"

definition accepted :: "('e, 'n, 'v) net \<Rightarrow> nat" where
  "accepted s = length (filter (\<lambda>c. was_accepted (rcStage c)) (ntCalls s))"

lemma filter_length_update:
  assumes "i < length xs"
  shows "length (filter P (xs[i := y])) + (if P (xs ! i) then 1 else 0) = length (filter P xs) + (if P y then 1 else 0)"
  using assms
proof (induction xs arbitrary: i)
  case (Cons x xs)
  show ?case
  proof (cases i)
    case (Suc j)
    then show ?thesis using Cons.IH [of j] Cons.prems by auto
  qed auto
qed simp

lemma accepted_update:
  assumes "i < length (ntCalls s)" and "ntCalls s' = (ntCalls s)[i := c]" and "was_accepted (rcStage c) = was_accepted (rcStage (ntCalls s ! i))"
  shows "accepted s' = accepted s"
  using filter_length_update [OF assms(1), of "\<lambda>c. was_accepted (rcStage c)" c] assms(2,3) by (simp add: accepted_def split: if_splits)

definition counted :: "('e, 'n, 'v) net \<Rightarrow> bool" where
  "counted s \<longleftrightarrow> rnCount (ntNetwork s) = of_nat (accepted s)"

lemma counted_update:
  assumes "counted s" and "i < length (ntCalls s)" and "ntCalls s' = (ntCalls s)[i := c]"
    and "was_accepted (rcStage c) = was_accepted (rcStage (ntCalls s ! i))" and "rnCount (ntNetwork s') = rnCount (ntNetwork s)"
  shows "counted s'"
  using accepted_update [OF assms(2-4)] assms(1,5) by (simp add: counted_def)

lemma counted_stage:
  assumes "counted s" and "i < length (ntCalls s)" and "was_accepted st = was_accepted (rcStage (ntCalls s ! i))" and "rnCount rn = rnCount (ntNetwork s)"
  shows "counted (set_stage i st (s\<lparr>ntNetwork := rn\<rparr>))"
  by (rule counted_update [OF assms(1,2), where c = "(ntCalls s ! i)\<lparr>rcStage := st\<rparr>"]) (simp_all add: set_stage_def assms)

lemma counted_stage0:
  assumes "counted s" and "i < length (ntCalls s)" and "was_accepted st = was_accepted (rcStage (ntCalls s ! i))"
  shows "counted (set_stage i st s)"
  using counted_stage [OF assms, of "ntNetwork s"] by simp

lemma counted_handler:
  assumes "counted s" and "i < length (ntCalls s)" and "ntCalls s' = ntCalls s" and "ntNetwork s' = ntNetwork s"
  shows "counted (set_handler i h s')"
  by (rule counted_update [OF assms(1,2), where c = "(ntCalls s ! i)\<lparr>rcHandler := h\<rparr>"]) (simp_all add: set_handler_def assms)

lemma counted_simps [simp]: "counted (crash err s) = counted s" "counted (s\<lparr>ntServers := rs\<rparr>) = counted s"
  by (simp_all add: counted_def crash_def accepted_def)

lemma counted_accept:
  assumes "counted s" and "i < length (ntCalls s)" and "rcStage (ntCalls s ! i) = Sending"
  shows "counted (accept i s)"
  using filter_length_update [OF assms(2), of "\<lambda>c. was_accepted (rcStage c)" "(ntCalls s ! i)\<lparr>rcStage := Accepted\<rparr>"] assms
  by (simp add: counted_def accept_def Let_def set_stage_def accepted_def)

lemma counted_finish:
  assumes "counted s" and "i < length (ntCalls s)" and "rcStage (ntCalls s ! i) = Left_loop n a rl lr r"
  shows "counted (finish_request i lost late s)"
proof -
  have "counted (set_stage i st s)" if "was_accepted st" for st by (rule counted_stage0 [OF assms(1,2)]) (simp add: assms(3) that)
  moreover have "counted (send_reply i b s)" for b unfolding send_reply_def Let_def by (rule counted_stage [OF assms(1,2)]) (simp_all add: assms(3))
  ultimately show ?thesis using assms(3) by (simp add: finish_request_def Let_def split: option.splits)
qed

lemma counted_step:
  assumes "rpc_step g handles s s'" and t: "counted s"
  shows "counted s'"
  using assms(1)
proof cases
  case (call e svcMeth args reply)
  then show ?thesis using t by (auto simp: Call_begin_def counted_def accepted_def crash_def split: option.splits)
next
  case (stop)
  then show ?thesis using t by (simp add: counted_def accepted_def)
next
  case (accept i)
  then show ?thesis using counted_accept [OF t] by simp
next
  case (route i)
  then show ?thesis by (cases rule: route_cases [of i s]) (auto intro!: counted_stage0 [OF t])
next
  case (execute i n a rl lr)
  then have "counted (set_handler i (Started a) s)" by (intro counted_handler [OF t]) simp_all
  then show ?thesis using execute by (auto simp: set_handler_def intro!: counted_stage0)
next
  case (dispatch i a v)
  then show ?thesis using t by (auto simp: start_handler_def Let_def split: prod.splits sum.splits intro!: counted_handler [OF t])
next
  case (handle i a svc meth v w b)
  then show ?thesis by (auto simp: end_handler_def intro!: counted_handler [OF t])
next
  case (finish i n a rl lr r lost late)
  then show ?thesis using counted_finish [OF t] by blast
next
  case (delayed i b)
  then show ?thesis by (auto simp: send_reply_def Let_def intro!: counted_stage [OF t])
next
  case (return i rep)
  then show ?thesis using t by (auto simp: Call_end_def split: option.splits intro!: counted_stage0 [OF t])
qed (auto intro!: counted_stage0 [OF t])

lemma counted_admin:
  assumes "admin_step s s'" and "counted s"
  shows "counted s'"
  using assms by cases (auto simp: counted_def accepted_def crash_def Cleanup_def Reliable_def LongReordering_def LongDelays_def MakeEnd_def
      AddServer_def DeleteServer_def Connect_def Enable_def Let_def split: if_splits)

lemma counted_reach:
  assumes "(net_step g handles)\<^sup>*\<^sup>* net_init s"
  shows "counted s"
  using assms
proof induction
  case base
  show ?case by (simp add: counted_def net_init_def MakeNetwork_def accepted_def)
qed (auto simp: net_step_def intro: counted_step counted_admin)

lemma sint_of_nat_32: "sint (of_nat n :: 32 word) = signed_take_bit 31 (int n)"
  by transfer simp

text \<open>\<^verbatim>\<open>GetTotalCount\<close> is the number of requests the network accepted, those that are lost later included, as long as there are
  fewer than \<^verbatim>\<open>2 ^ 31\<close>; the counter has 32 bits and the next request makes it negative.\<close>

theorem rpc_total_count:
  assumes "(net_step g handles)\<^sup>*\<^sup>* net_init s"
  shows "(accepted s < 2 ^ 31 \<longrightarrow> GetTotalCount (ntNetwork s) = int (accepted s)) \<and>
    (accepted s = 2 ^ 31 \<longrightarrow> GetTotalCount (ntNetwork s) = - (2 ^ 31))"
  using counted_reach [OF assms] by (auto simp: counted_def GetTotalCount_def sint_of_nat_32 signed_take_bit_int_eq_self)

theorem rpc_total_count_witness:
  "GetTotalCount (ntNetwork (demo 2 1 [demo_exec] (Handled [5]) (Returned_call (Some [5])))) = 1"
  using rpc_total_count [OF demo_returned] by (simp add: accepted_def demo_simps)

end
