(* ===== verification/Spec2Isabelle.thy ===== *)
theory Spec2Isabelle
  imports Raft_Leader Raft_Harness Shard_Client MR_Apps Porc_Visual Porc_Events KV_System Rpc_Calls
begin

text \<open>
  Verification of the Go implementation of the 6.5840 labs under \<^verbatim>\<open>src/src/\<close>: a Raft library
  (\<^verbatim>\<open>raft/\<close>), a replicated key/value service on it (\<^verbatim>\<open>kvraft/\<close>), a shard controller
  (\<^verbatim>\<open>shardctrler/\<close>), a sharded key/value service that follows the controller (\<^verbatim>\<open>shardkv/\<close>), and
  a MapReduce framework (\<^verbatim>\<open>mr/\<close>, with applications in \<^verbatim>\<open>mrapps/\<close>); and what the tests stand on: a simulated
  network (\<^verbatim>\<open>labrpc/\<close>), an encoding (\<^verbatim>\<open>labgob/\<close>), a linearizability checker (\<^verbatim>\<open>porcupine/\<close>) and test
  harnesses. The services call \<^verbatim>\<open>Start\<close> of their Raft peer and consume its
  channel of committed commands and snapshots; the sharded service also uses the clerk of
  the controller; MapReduce stands alone.

  \<^bold>\<open>How the code is modelled.\<close> A struct is a record and a handler that runs under a mutex is a
  function on it; a goroutine that releases the mutex is split there, and the parts
  interleave in an inductive relation. A Go \<^verbatim>\<open>int\<close> is a HOL \<^verbatim>\<open>int\<close>; the hash of
  MapReduce, the bit sets of the checker and the counters of the network are words of 32 or 64 bits. A panic, a failed assertion and \<^verbatim>\<open>log.Fatal\<close> are
  values of \<^verbatim>\<open>go_error\<close> (theory \<^verbatim>\<open>Go_Prelude\<close>), so every index and every assertion of the source
  is a branch of the model. A call that waits on a condition variable is an entry in a list of
  blocked calls of the server; remote calls, timeouts and timers are events in any order.
  Loops are structural recursions or functions with a termination proof. Two loops may not end and
  are a \<^verbatim>\<open>partial_function\<close>: \<^verbatim>\<open>ResetShards\<close>, with a proof of when it ends, and the walk along a linked
  list; the search of the linearizability checker is a \<^verbatim>\<open>while_option\<close> with a proof that it ends. The endless
  retry loops of the clerks are recursions over their list of events. No fuel is used.

  \<^bold>\<open>Raft.\<close> \<^verbatim>\<open>Raft_Log\<close> is \<^verbatim>\<open>log.go\<close>; \<^verbatim>\<open>Raft_Node\<close> is \<^verbatim>\<open>raft.go\<close>, \<^verbatim>\<open>persister.go\<close> and
  \<^verbatim>\<open>log_compaction.go\<close>; \<^verbatim>\<open>Raft_Election\<close> is \<^verbatim>\<open>leader_election.go\<close>; \<^verbatim>\<open>Raft_Replication\<close> is
  \<^verbatim>\<open>log_replication.go\<close>, with its facts in \<^verbatim>\<open>Raft_Replication_Facts\<close>, \<^verbatim>\<open>Raft_Follower\<close> and
  \<^verbatim>\<open>Raft_Leader\<close>; \<^verbatim>\<open>Raft_Applier\<close> is \<^verbatim>\<open>applier.go\<close>; \<^verbatim>\<open>Raft_Cluster\<close> runs peers over a network that
  loses, delays, repeats and reorders messages, with crashes. Shown: at most one leader per
  term; what is persisted is what is needed after a crash; a leader never panics; what the
  commit rules and the follower's checks decide on every branch; sorted terms; the service
  receives consecutive commands and is never forgotten; where \<^verbatim>\<open>place\<close> and \<^verbatim>\<open>InstallSnapshot\<close>
  depart from the paper. Not shown: that committed entries are never lost (State Machine
  Safety); the theorems on the services take the committed log as given.

  \<^bold>\<open>Services.\<close> \<^verbatim>\<open>Service\<close> has what the three services share: the effective requests of a log
  under one sequence number per client, and the locales \<^verbatim>\<open>session_machine\<close> and
  \<^verbatim>\<open>snapshot_machine\<close>, interpreted by the servers. \<^verbatim>\<open>KV_Server\<close> and \<^verbatim>\<open>KV_Client\<close> are \<^verbatim>\<open>kvraft/\<close>;
  \<^verbatim>\<open>Ctrl_Config\<close>, \<^verbatim>\<open>Ctrl_Server\<close> and \<^verbatim>\<open>Ctrl_Client\<close> are \<^verbatim>\<open>shardctrler/\<close>; \<^verbatim>\<open>Shard_Store\<close>,
  \<^verbatim>\<open>Shard_Server\<close>, \<^verbatim>\<open>Shard_Group\<close>, \<^verbatim>\<open>Shard_Migration\<close> and \<^verbatim>\<open>Shard_Client\<close> are \<^verbatim>\<open>shardkv/\<close>. Shown:
  each request takes effect once and in order, replicas agree whether they applied commands or
  installed snapshots, calls return when their request was applied; the controller refines a
  sequential one, keeps its history, and balances the shards; a shard group refines a
  specification with a configuration, a store per shard and a sequence number per client;
  migration moves data and duplicate tables, so that a request that was executed is ignored wherever
  its shard goes, and cannot deadlock; and, for the requests that break it, how the code fails. A snapshot is a list of values that is read back as written;
  random client numbers are arguments.

  \<^bold>\<open>MapReduce.\<close> \<^verbatim>\<open>MR_Worker\<close> is \<^verbatim>\<open>mr/worker.go\<close> and \<^verbatim>\<open>main/mrsequential.go\<close>; \<^verbatim>\<open>MR_Coordinator\<close> is
  \<^verbatim>\<open>mr/coordinator.go\<close> and the job of any number of workers. Shown: the job's output equals that
  of the sequential program, whatever workers crash or repeat, and no worker sleeps for ever.
  The intermediate files are JSON, which replaces a byte that is not valid UTF-8 by U+FFFD (\<^verbatim>\<open>json_pair\<close>); the
  equality needs keys and values that are valid UTF-8 (\<^verbatim>\<open>writes_utf8\<close>), and \<^verbatim>\<open>invalid_key_differs\<close> shows why.
  Arguments of the model are the application's map and reduce functions (functions of their
  arguments; the reduce function must not depend on the order of its values, \<^verbatim>\<open>order_free\<close>),
  the input files, and \<^verbatim>\<open>sort.Sort\<close> (any sorting function, \<^verbatim>\<open>is_sort\<close>). \<^verbatim>\<open>MR_Apps\<close> has the applications of \<^verbatim>\<open>mrapps/\<close>: word
  count, the indexer, and the crash and early exit tests, on strings of bytes that are read as UTF-8. Shown: what the jobs of
  word count and indexer write. Their arguments are \<^verbatim>\<open>unicode.IsLetter\<close> (false for the replacement character) and the order of a map.

  \<^bold>\<open>Network and encoding.\<close> \<^verbatim>\<open>Lab_Gob\<close> is \<^verbatim>\<open>labgob/labgob.go\<close>, with \<^verbatim>\<open>encoding/gob\<close> as an argument; \<^verbatim>\<open>Rpc_Network\<close> has the state of the network
  of \<^verbatim>\<open>labrpc/labrpc.go\<close>, the operations that change it, and how a server finds a method; \<^verbatim>\<open>Rpc_Calls\<close> is the way of a request from \<^verbatim>\<open>Call\<close>
  to a handler and back, as a step relation in which losses and delays are choices. Shown: the check of types ends and
  panics exactly on lower-case fields; a request is executed at most once, and exactly once if the call returns true; a call does not get stuck unless its
  handler does; a reliable network that is left alone drops nothing; when the counters wrap around.

  \<^bold>\<open>Test harnesses.\<close> \<^verbatim>\<open>Test_Partition\<close> has the partitions of \<^verbatim>\<open>kvraft/config.go\<close>, \<^verbatim>\<open>Raft_Harness\<close> is \<^verbatim>\<open>raft/config.go\<close>. Shown: which
  ends are enabled after a partition, and after any sequence of connects, disconnects, crashes and restarts; \<^verbatim>\<open>make_partition\<close> puts the leader
  into a minority if the number of servers is odd; which sequences of applied messages the Raft harness accepts; and, from election safety,
  that \<^verbatim>\<open>checkOneLeader\<close> never reports two leaders. Their arguments are the random names of ends, the clock, the codec of snapshots, and
  the states of the peers at the moments when the harness asks them.

  \<^bold>\<open>Linearizability.\<close> The tests record what clients see and give it to the checker of \<^verbatim>\<open>porcupine/\<close> with
  the model of \<^verbatim>\<open>models/kv.go\<close>. \<^verbatim>\<open>Porc_Bitset\<close> is \<^verbatim>\<open>bitset.go\<close>, on 64-bit words; \<^verbatim>\<open>Porc_List\<close> has the
  linked list of \<^verbatim>\<open>checker.go\<close> in a store of nodes, \<^verbatim>\<open>Porc_Model\<close> the histories of \<^verbatim>\<open>model.go\<close> and what
  linearizable means, \<^verbatim>\<open>Porc_Check\<close> the backtracking search \<^verbatim>\<open>checkSingle\<close>, \<^verbatim>\<open>Porc_Parallel\<close> the goroutines of
  \<^verbatim>\<open>checkParallel\<close> and the functions of \<^verbatim>\<open>porcupine.go\<close>; \<^verbatim>\<open>Porc_Search\<close> is the search without its data
  structures, to which \<^verbatim>\<open>Porc_Check\<close> reduces it. \<^verbatim>\<open>Porc_Kv\<close> is \<^verbatim>\<open>models/kv.go\<close>, \<^verbatim>\<open>Porc_Events\<close> the functions of
  \<^verbatim>\<open>porcupine.go\<close> on events, \<^verbatim>\<open>Porc_Visual\<close> the data of \<^verbatim>\<open>visualization.go\<close>. Shown: the search ends without a panic and decides linearizability, in every
  interleaving of the goroutines; it is enough to look at one key at a time (locale \<^verbatim>\<open>keyed\<close>,
  interpreted by the key/value model); the sequences it reports are partial linearizations, so the
  visualization does not panic; on an empty history the checker hangs. \<^verbatim>\<open>KV_System\<close> puts clerks,
  replicas, network and log of \<^verbatim>\<open>kvraft/\<close> together: every history they produce is linearizable, and
  the checker accepts it. Clerks have distinct numbers and one call at a time; the committed log grows by
  any request that was sent, any number of times. Arguments are \<^verbatim>\<open>sort.Sort\<close> (\<^verbatim>\<open>is_time_sort\<close>), the order
  of a map, and the times at which goroutines read the kill flag.

  \<^bold>\<open>Not modelled.\<close> The rest of the harnesses: \<^verbatim>\<open>one\<close> and \<^verbatim>\<open>wait\<close> of \<^verbatim>\<open>raft/config.go\<close>, which poll against the wall clock, starting and stopping servers
  in \<^verbatim>\<open>kvraft/config.go\<close>, and \<^verbatim>\<open>shardctrler/config.go\<close> and \<^verbatim>\<open>shardkv/config.go\<close>, which repeat them for other servers; the tests
  themselves; the HTML page of the visualization, which is a text with a script; \<^verbatim>\<open>jobcount.go\<close>, \<^verbatim>\<open>mtiming.go\<close> and \<^verbatim>\<open>rtiming.go\<close> of
  \<^verbatim>\<open>mrapps/\<close>, which count files and processes of the machine; the command-line programs of \<^verbatim>\<open>main/\<close> other than \<^verbatim>\<open>mrsequential.go\<close>, which
  read their arguments and load plugins; and debug output. The networks of the Raft, service and
  sharding theories are not \<^verbatim>\<open>Rpc_Calls\<close>: they allow any loss, delay and reordering, which includes what it does.
\<close>

end
